(* ===== verification/Prelude.thy ===== *)
theory Prelude
  imports "HOL-Library.Word"
begin

unbundle bit_operations_syntax

text \<open>
  What every component of the development shares: the machine types of the
  platform (LP64, little-endian, eight-bit \<^verbatim>\<open>uint_fast8_t\<close>: the 64-bit iOS target the
  pods are built for), flat byte memory with its loads and stores, the little-endian
  conversion between words and byte lists, and generic facts on words and lists.
\<close>

subsection \<open>Machine types\<close>

type_synonym byte = "8 word"
type_synonym u16 = "16 word"
type_synonym u32 = "32 word"
type_synonym u64 = "64 word"
type_synonym addr = "64 word"
type_synonym mem = "addr \<Rightarrow> byte"

subsection \<open>Words and byte lists\<close>

text \<open>The \<open>n\<close> low bytes of a word, least significant first, and back.\<close>

primrec word_to_bytes :: "nat \<Rightarrow> 'a::len word \<Rightarrow> byte list" where
  "word_to_bytes 0 w = []"
| "word_to_bytes (Suc n) w = ucast w # word_to_bytes n (drop_bit 8 w)"

primrec bytes_to_word :: "byte list \<Rightarrow> 'a::len word" where
  "bytes_to_word [] = 0"
| "bytes_to_word (b # bs) = ucast b OR push_bit 8 (bytes_to_word bs)"

subsection \<open>Memory\<close>

definition load_bytes :: "mem \<Rightarrow> addr \<Rightarrow> nat \<Rightarrow> byte list" where
  "load_bytes m a n = map (\<lambda>i. m (a + of_nat i)) [0..<n]"

primrec store_bytes :: "mem \<Rightarrow> addr \<Rightarrow> byte list \<Rightarrow> mem" where
  "store_bytes m a [] = m"
| "store_bytes m a (b # bs) = store_bytes (m(a := b)) (a + 1) bs"

definition load_u32 :: "mem \<Rightarrow> addr \<Rightarrow> u32" where
  "load_u32 m a = bytes_to_word (load_bytes m a 4)"

definition load_ptr :: "mem \<Rightarrow> addr \<Rightarrow> addr" where
  "load_ptr m a = bytes_to_word (load_bytes m a 8)"

definition store_u32 :: "mem \<Rightarrow> addr \<Rightarrow> u32 \<Rightarrow> mem" where
  "store_u32 m a w = store_bytes m a (word_to_bytes 4 w)"

definition store_ptr :: "mem \<Rightarrow> addr \<Rightarrow> addr \<Rightarrow> mem" where
  "store_ptr m a w = store_bytes m a (word_to_bytes 8 w)"

text \<open>The region of \<open>n\<close> bytes at \<open>a\<close>; addresses wrap as the pointers of the model do.\<close>

definition region :: "addr \<Rightarrow> nat \<Rightarrow> addr set" where
  "region a n = {x. unat (x - a) < n}"

subsection \<open>Collections of facts\<close>

named_theorems word_size_facts \<open>unsigned values of small words\<close>

lemma byte_lt_256 [word_size_facts]: "unat (b :: byte) < 256"
  using unsigned_less [of b] by simp

lemma u32_less [word_size_facts]: "unat (v :: u32) < 2 ^ 32"
  using unsigned_less [of v] by simp

lemma u64_less [word_size_facts]: "unat (v :: u64) < 2 ^ 64"
  using unsigned_less [of v] by simp

lemma unat_add_small:
  "unat x + unat y < 2 ^ LENGTH('a) \<Longrightarrow> unat (x + y :: 'a::len word) = unat x + unat y"
  by (simp add: unat_word_ariths)

lemma unat_of_nat_small:
  "n < 2 ^ LENGTH('a) \<Longrightarrow> unat (of_nat n :: 'a::len word) = n"
  by (simp add: unat_of_nat take_bit_nat_eq_self)

lemma length_word_to_bytes [simp]: "length (word_to_bytes n w) = n"
  by (induction n arbitrary: w) simp_all

lemma length_load_bytes [simp]: "length (load_bytes m a n) = n"
  by (simp add: load_bytes_def)

lemma nth_load_bytes [simp]: "i < n \<Longrightarrow> load_bytes m a n ! i = m (a + of_nat i)"
  by (simp add: load_bytes_def)

lemma load_bytes_0 [simp]: "load_bytes m a 0 = []"
  by (simp add: load_bytes_def)

lemma load_bytes_Suc: "load_bytes m a (Suc n) = m a # load_bytes m (a + 1) n"
  by (rule nth_equalityI) (auto simp: nth_Cons algebra_simps split: nat.splits)

lemma load_bytes_append:
  "load_bytes m a (n + k) = load_bytes m a n @ load_bytes m (a + of_nat n) k"
  by (rule nth_equalityI) (auto simp: nth_append algebra_simps)

lemma take_load_bytes: "k \<le> n \<Longrightarrow> take k (load_bytes m a n) = load_bytes m a k"
  by (rule nth_equalityI) auto

lemma drop_load_bytes:
  "k \<le> n \<Longrightarrow> drop k (load_bytes m a n) = load_bytes m (a + of_nat k) (n - k)"
  by (rule nth_equalityI) (auto simp: algebra_simps)

lemma load_bytes_cong:
  "(\<And>x. x \<in> region a n \<Longrightarrow> m x = m' x) \<Longrightarrow> n \<le> 2 ^ 64 \<Longrightarrow> load_bytes m a n = load_bytes m' a n"
  by (rule nth_equalityI) (auto simp: region_def unat_of_nat_small)

lemma store_bytes_outside:
  "x \<notin> region a (length bs) \<Longrightarrow> store_bytes m a bs x = m x"
proof (induction bs arbitrary: m a)
  case Nil
  then show ?case by simp
next
  case (Cons b bs)
  have "x \<noteq> a" using Cons.prems by (auto simp: region_def)
  moreover have "x \<notin> region (a + 1) (length bs)"
  proof
    assume "x \<in> region (a + 1) (length bs)"
    then have "unat (x - a - 1) < length bs" by (simp add: region_def algebra_simps)
    moreover have "unat (x - a) = Suc (unat (x - a - 1))"
      using \<open>x \<noteq> a\<close> unat_minus_one [of "x - a"] unat_gt_0 [of "x - a"] by simp
    ultimately show False using Cons.prems by (simp add: region_def)
  qed
  ultimately show ?case by (simp add: Cons.IH)
qed

lemma store_bytes_inside:
  "i < length bs \<Longrightarrow> length bs \<le> 2 ^ 64 \<Longrightarrow> store_bytes m a bs (a + of_nat i) = bs ! i"
proof (induction bs arbitrary: m a i)
  case Nil
  then show ?case by simp
next
  case (Cons b bs)
  show ?case
  proof (cases i)
    case 0
    have "a \<notin> region (a + 1) (length bs)"
      using Cons.prems by (simp add: region_def unsigned_minus_1_eq_mask mask_eq_exp_minus_1)
    with 0 show ?thesis by (simp add: store_bytes_outside)
  next
    case (Suc j)
    have "store_bytes (m(a := b)) (a + 1) bs ((a + 1) + of_nat j) = bs ! j"
      by (rule Cons.IH) (use Cons.prems Suc in auto)
    with Suc show ?thesis by (simp add: algebra_simps)
  qed
qed

lemma load_store_bytes:
  "length bs \<le> 2 ^ 64 \<Longrightarrow> load_bytes (store_bytes m a bs) a (length bs) = bs"
  by (rule nth_equalityI) (auto simp: store_bytes_inside)

lemma load_store_disjoint:
  "region a n \<inter> region b (length bs) = {} \<Longrightarrow> n \<le> 2 ^ 64 \<Longrightarrow>
   load_bytes (store_bytes m b bs) a n = load_bytes m a n"
  by (rule load_bytes_cong) (auto intro: store_bytes_outside)

lemma bit_bytes_to_word:
  "bit (bytes_to_word bs :: 'a::len word) i \<longleftrightarrow>
     i < LENGTH('a) \<and> i div 8 < length bs \<and> bit (bs ! (i div 8)) (i mod 8)"
proof (induction bs arbitrary: i)
  case Nil
  then show ?case by simp
next
  case (Cons b bs)
  show ?case
  proof (cases "i < 8")
    case True
    then show ?thesis by (auto simp: bit_simps)
  next
    case False
    then obtain j where j: "i = 8 + j" by (metis le_add_diff_inverse linorder_not_le)
    have nb: "\<not> bit b i"
      using False by (auto dest: bit_imp_le_length)
    have d: "(8 + j) div 8 = Suc (j div 8)" by simp
    show ?thesis
      using nb by (auto simp: j d bit_simps Cons.IH)
  qed
qed

lemma bit_word_to_bytes:
  "k < n \<Longrightarrow> i < 8 \<Longrightarrow> bit (word_to_bytes n w ! k) i \<longleftrightarrow> bit (w :: 'a::len word) (8 * k + i)"
proof (induction n arbitrary: w k)
  case 0
  then show ?case by simp
next
  case (Suc n)
  then show ?case by (cases k) (auto simp: bit_simps algebra_simps)
qed

lemma bytes_to_word_to_bytes:
  assumes "LENGTH('a) \<le> 8 * n"
  shows "bytes_to_word (word_to_bytes n w) = (w :: 'a::len word)"
proof (rule bit_word_eqI)
  fix i assume i: "i < LENGTH('a)"
  then have "i div 8 < n" using assms by auto
  then show "bit (bytes_to_word (word_to_bytes n w) :: 'a word) i = bit w i"
    using i by (auto simp: bit_bytes_to_word bit_word_to_bytes)
qed

lemma word_to_bytes_to_word:
  assumes "LENGTH('a) = 8 * n" "length bs = n"
  shows "word_to_bytes n (bytes_to_word bs :: 'a::len word) = bs"
proof (rule nth_equalityI)
  show "length (word_to_bytes n (bytes_to_word bs :: 'a word)) = length bs"
    using assms by simp
next
  fix k assume "k < length (word_to_bytes n (bytes_to_word bs :: 'a word))"
  then have k: "k < n" by simp
  show "word_to_bytes n (bytes_to_word bs :: 'a word) ! k = bs ! k"
  proof (rule bit_word_eqI)
    fix i assume "i < LENGTH(8)"
    then have "i < 8" by simp
    then show "bit (word_to_bytes n (bytes_to_word bs :: 'a word) ! k) i = bit (bs ! k) i"
      using k assms by (auto simp: bit_word_to_bytes bit_bytes_to_word)
  qed
qed

subsection \<open>Generic facts on words\<close>

lemma unat_sub_of_nat: "n \<le> unat x \<Longrightarrow> unat (x - of_nat n :: 'a::len word) = unat x - n"
  by (metis le_unat_uoi unat_sub word_le_nat_alt)

lemma unat_of_nat_le: "unat (of_nat n :: 'a::len word) \<le> n"
  by (simp add: unat_of_nat take_bit_eq_mod)

lemma take_bit_idI: "unat w < 2 ^ k \<Longrightarrow> take_bit k w = (w :: 'a::len word)"
  by (metis take_bit_nat_eq_self unsigned_take_bit_eq unsigned_word_eqI)

lemma ucast_of_unat: "unat w = n \<Longrightarrow> ucast w = (of_nat n :: 'a::len word)"
  by (metis of_nat_unat)

text \<open>Or-ing digits above the bits already present is adding them.\<close>

lemma or_push_bit_eq_add:
  assumes "take_bit k r = r"
  shows "r OR push_bit k w = r + push_bit k (w :: 'a::len word)"
proof -
  have *: "bit r n \<Longrightarrow> n < k" for n
    using assms by (metis bit_take_bit_iff)
  have "r AND push_bit k w = 0"
    by (rule bit_word_eqI) (auto simp: bit_simps dest: *)
  then show ?thesis by (simp add: disjunctive_add_eq_or)
qed

lemma take_bit_add_push_bit:
  assumes "take_bit k r = r" and "take_bit j w = w"
  shows "take_bit (k + j) (r + push_bit k w) = (r + push_bit k w :: 'a::len word)"
proof -
  have *: "bit r n \<Longrightarrow> n < k" "bit w n \<Longrightarrow> n < j" for n
    using assms by (metis bit_take_bit_iff)+
  have "take_bit (k + j) (r OR push_bit k w) = r OR push_bit k w"
    by (rule bit_word_eqI) (auto simp: bit_simps dest: *)
  then show ?thesis by (simp add: or_push_bit_eq_add assms)
qed

lemma unat_ucast_up:
  "LENGTH('a) \<le> LENGTH('b) \<Longrightarrow> unat (ucast (w :: 'a::len word) :: 'b::len word) = unat w"
proof -
  assume le: "LENGTH('a) \<le> LENGTH('b)"
  have "unat w < 2 ^ LENGTH('a)" by (rule unsigned_less)
  also have "(2::nat) ^ LENGTH('a) \<le> 2 ^ LENGTH('b)" using le by simp
  finally show ?thesis
    by (simp add: unsigned_ucast_eq take_bit_nat_eq_self)
qed
    
lemma bit_top_iff:
  assumes "LENGTH('a) = Suc k"
  shows "bit (w :: 'a::len word) k \<longleftrightarrow> 2 ^ k \<le> unat w"
proof -
  have "unat w < 2 ^ LENGTH('a)" by (rule unsigned_less)
  then have "unat w < 2 * 2 ^ k" using assms by simp
  then have "unat w div 2 ^ k < 2" by (simp add: less_mult_imp_div_less)
  then have d: "unat w div 2 ^ k = 0 \<or> unat w div 2 ^ k = 1" by linarith
  have "bit w k \<longleftrightarrow> bit (unat w) k" by (simp add: bit_unsigned_iff)
  also have "\<dots> \<longleftrightarrow> odd (unat w div 2 ^ k)" by (simp add: bit_iff_odd)
  also have "\<dots> \<longleftrightarrow> unat w div 2 ^ k \<noteq> 0" using d by auto
  also have "\<dots> \<longleftrightarrow> 2 ^ k \<le> unat w" by (simp add: div_eq_0_iff not_less)
  finally show ?thesis .
qed

lemma sint_eq_unat:
  assumes "LENGTH('a) = Suc k"
  shows "sint (w :: 'a::len word) =
    (if unat w < 2 ^ k then int (unat w) else int (unat w) - 2 ^ Suc k)"
proof -
  have "sint w = take_bit (Suc k) (uint w) - 2 ^ Suc k * of_bool (bit (uint w) k)"
    by (simp add: sint_uint assms signed_take_bit_eq_take_bit_minus)
  moreover have "take_bit (Suc k) (uint w) = uint w" using assms by (metis take_bit_length_eq unsigned_take_bit_eq)
  moreover have "bit (uint w) k \<longleftrightarrow> \<not> unat w < 2 ^ k"
    using bit_top_iff [OF assms, of w] by (simp add: bit_unsigned_iff not_less)
  ultimately show ?thesis by simp
qed

lemma unat_NOT: "unat (NOT (v :: 'a::len word)) = 2 ^ LENGTH('a) - 1 - unat v"
proof -
  have "NOT v = - 1 - v" by (simp add: not_eq_complement)
  moreover have "v \<le> - 1" by simp
  ultimately have "unat (NOT v) = unat (- 1 :: 'a word) - unat v" by (simp add: unat_sub)
  then show ?thesis by (simp add: unsigned_minus_1_eq_mask mask_eq_exp_minus_1)
qed

subsection \<open>The bits of a byte that varints use\<close>

lemma bit_byte_masks:
  "bit (0x30 :: byte) n \<longleftrightarrow> n = 4 \<or> n = 5"
  "bit (0x10 :: byte) n \<longleftrightarrow> n = 4"
  "bit (0x20 :: byte) n \<longleftrightarrow> n = 5"
  "bit (0xC0 :: byte) n \<longleftrightarrow> n = 6 \<or> n = 7"
  "bit (0x40 :: byte) n \<longleftrightarrow> n = 6"
  "bit (0x80 :: byte) n \<longleftrightarrow> n = 7"
  "bit (0x7F :: byte) n \<longleftrightarrow> n < 7"
  by (cases "n < 8"; auto simp: numeral_eq_Suc less_Suc_eq bit_0 bit_Suc dest: bit_imp_le_length)+

lemma bit_byte_7: "bit (b :: byte) 7 \<longleftrightarrow> 128 \<le> unat b"
proof -
  have "bit (unat b) 7 \<longleftrightarrow> odd (unat b div 128)"
    by (simp add: bit_iff_odd)
  moreover have "odd (unat b div 128) \<longleftrightarrow> 128 \<le> unat b"
  proof (cases "128 \<le> unat b")
    case True
    then have "unat b div 128 = 1" using byte_lt_256 [of b] by simp
    with True show ?thesis by simp
  qed simp
  ultimately show ?thesis by (simp add: bit_unsigned_iff)
qed

lemma and_0x80_iff: "(b :: byte) AND 0x80 = 0 \<longleftrightarrow> unat b < 128"
proof -
  have "b AND 0x80 = (if bit b 7 then 0x80 else 0)"
    by (rule bit_word_eqI) (auto simp: bit_and_iff bit_byte_masks simp del: bit_numeral_word_iff)
  then show ?thesis by (simp add: bit_byte_7)
qed

lemma unat_and_0x7F: "unat ((b :: byte) AND 0x7F) = unat b mod 128"
proof -
  have "b AND 0x7F = take_bit 7 b"
    by (simp add: take_bit_eq_mask mask_eq_exp_minus_1)
  then have "unat (b AND 0x7F) = take_bit 7 (unat b)" by (simp only: unsigned_take_bit_eq)
  then show ?thesis by (simp add: take_bit_eq_mod)
qed

lemma ucast_and_0x7F: "ucast ((b :: byte) AND 0x7F) = (of_nat (unat b mod 128) :: 'a::len word)"
  by (rule ucast_of_unat) (rule unat_and_0x7F)

lemma take_bit_7_digit [simp]:
  "take_bit 7 (of_nat (n mod 128) :: 'a::len word) = of_nat (n mod 128)"
  by (rule take_bit_idI) (rule le_less_trans [OF unat_of_nat_le], simp)

lemma and_0x70_iff: "(b :: byte) AND 0x70 = 0 \<longleftrightarrow> unat b mod 128 < 16"
proof -
  have m: "(0x70 :: byte) = push_bit 4 (mask 3)" by (simp add: mask_eq_exp_minus_1 push_bit_eq_mult)
  have "b AND 0x70 = push_bit 4 (take_bit 3 (drop_bit 4 b))"
    unfolding m by (rule bit_word_eqI) (auto simp: bit_simps)
  then have "unat (b AND 0x70) = take_bit 8 (push_bit 4 (take_bit 3 (drop_bit 4 (unat b))))"
    by (simp only: unsigned_push_bit_eq unsigned_take_bit_eq unat_drop_bit_eq) simp
  also have "\<dots> = 16 * (unat b div 16 mod 8)"
    by (simp add: take_bit_eq_mod push_bit_eq_mult drop_bit_eq_div)
  finally have "unat (b AND 0x70) = 16 * (unat b div 16 mod 8)" .
  moreover have "unat b mod 128 = 16 * (unat b div 16 mod 8) + unat b mod 16"
    using mod_mult2_eq [of "unat b" 16 8] by simp
  ultimately show ?thesis by (simp flip: unat_eq_0) linarith?
qed

end
