(* ===== verification/Pb_Types.thy ===== *)
theory Pb_Types
  imports Prelude
begin

unbundle bit_operations_syntax

text \<open>
  The data model of nanopb (\<^verbatim>\<open>src/ios/Pods/nanopb/pb.h\<close>) in the configuration the pod
  is built with (\<^verbatim>\<open>PB_FIELD_32BIT\<close>, \<^verbatim>\<open>PB_NO_PACKED_STRUCTS\<close>, \<^verbatim>\<open>PB_ENABLE_MALLOC\<close>; error
  messages, 64-bit support and custom streams on): the type byte of a field descriptor
  with its masks, the descriptor record, the wire types, and the two stream records of
  \<^verbatim>\<open>pb_decode.h\<close> and \<^verbatim>\<open>pb_encode.h\<close> with the error macros.
\<close>

subsection \<open>The field type byte\<close>

named_theorems pb_const \<open>the constants of pb.h\<close>

definition PB_LTYPE_VARINT :: byte where [pb_const]: "PB_LTYPE_VARINT = 0x00"
definition PB_LTYPE_UVARINT :: byte where [pb_const]: "PB_LTYPE_UVARINT = 0x01"
definition PB_LTYPE_SVARINT :: byte where [pb_const]: "PB_LTYPE_SVARINT = 0x02"
definition PB_LTYPE_FIXED32 :: byte where [pb_const]: "PB_LTYPE_FIXED32 = 0x03"
definition PB_LTYPE_FIXED64 :: byte where [pb_const]: "PB_LTYPE_FIXED64 = 0x04"
definition PB_LTYPE_LAST_PACKABLE :: byte where [pb_const]: "PB_LTYPE_LAST_PACKABLE = 0x04"
definition PB_LTYPE_BYTES :: byte where [pb_const]: "PB_LTYPE_BYTES = 0x05"
definition PB_LTYPE_STRING :: byte where [pb_const]: "PB_LTYPE_STRING = 0x06"
definition PB_LTYPE_SUBMESSAGE :: byte where [pb_const]: "PB_LTYPE_SUBMESSAGE = 0x07"
definition PB_LTYPE_EXTENSION :: byte where [pb_const]: "PB_LTYPE_EXTENSION = 0x08"
definition PB_LTYPE_FIXED_LENGTH_BYTES :: byte where [pb_const]: "PB_LTYPE_FIXED_LENGTH_BYTES = 0x09"
definition PB_LTYPE_MASK :: byte where [pb_const]: "PB_LTYPE_MASK = 0x0F"

definition PB_HTYPE_REQUIRED :: byte where [pb_const]: "PB_HTYPE_REQUIRED = 0x00"
definition PB_HTYPE_OPTIONAL :: byte where [pb_const]: "PB_HTYPE_OPTIONAL = 0x10"
definition PB_HTYPE_REPEATED :: byte where [pb_const]: "PB_HTYPE_REPEATED = 0x20"
definition PB_HTYPE_ONEOF :: byte where [pb_const]: "PB_HTYPE_ONEOF = 0x30"
definition PB_HTYPE_MASK :: byte where [pb_const]: "PB_HTYPE_MASK = 0x30"

definition PB_ATYPE_STATIC :: byte where [pb_const]: "PB_ATYPE_STATIC = 0x00"
definition PB_ATYPE_POINTER :: byte where [pb_const]: "PB_ATYPE_POINTER = 0x80"
definition PB_ATYPE_CALLBACK :: byte where [pb_const]: "PB_ATYPE_CALLBACK = 0x40"
definition PB_ATYPE_MASK :: byte where [pb_const]: "PB_ATYPE_MASK = 0xC0"

definition PB_ATYPE :: "byte \<Rightarrow> byte" where "PB_ATYPE x = x AND PB_ATYPE_MASK"
definition PB_HTYPE :: "byte \<Rightarrow> byte" where "PB_HTYPE x = x AND PB_HTYPE_MASK"
definition PB_LTYPE :: "byte \<Rightarrow> byte" where "PB_LTYPE x = x AND PB_LTYPE_MASK"

definition PB_MAX_REQUIRED_FIELDS :: u32 where [pb_const]: "PB_MAX_REQUIRED_FIELDS = 64"
definition PB_SIZE_MAX :: u32 where [pb_const]: "PB_SIZE_MAX = - 1"

subsection \<open>Wire types\<close>

type_synonym wire_type = u32

definition PB_WT_VARINT :: wire_type where [pb_const]: "PB_WT_VARINT = 0"
definition PB_WT_64BIT :: wire_type where [pb_const]: "PB_WT_64BIT = 1"
definition PB_WT_STRING :: wire_type where [pb_const]: "PB_WT_STRING = 2"
definition PB_WT_32BIT :: wire_type where [pb_const]: "PB_WT_32BIT = 5"

subsection \<open>Field descriptors\<close>

text \<open>
  \<^verbatim>\<open>struct pb_field_s\<close>. \<^verbatim>\<open>pb_size_t\<close> is \<^typ>\<open>u32\<close>; \<open>size_offset\<close> is the signed
  \<^verbatim>\<open>pb_ssize_t\<close> in two's complement. \<open>fptr\<close> is an address: of another descriptor array
  for a submessage, of the default value for other types, 0 for NULL.
\<close>

record pb_field_t =
  tag :: u32
  ftype :: byte
  data_offset :: u32
  size_offset :: u32
  data_size :: u32
  array_size :: u32
  fptr :: addr

definition PB_LAST_FIELD :: pb_field_t where
  "PB_LAST_FIELD = \<lparr>tag = 0, ftype = 0, data_offset = 0, size_offset = 0, data_size = 0,
     array_size = 0, fptr = 0\<rparr>"

text \<open>The C pointer arithmetic \<^verbatim>\<open>(char*)p + off\<close> on the unsigned and the signed offset.\<close>

definition add_offset :: "addr \<Rightarrow> u32 \<Rightarrow> addr" where
  "add_offset p off = p + ucast off"

definition add_soffset :: "addr \<Rightarrow> u32 \<Rightarrow> addr" where
  "add_soffset p off = p + scast off"

text \<open>\<^verbatim>\<open>sizeof(void*)\<close>, \<^verbatim>\<open>offsetof(pb_bytes_array_t, bytes)\<close> and the allocation size macro.\<close>

definition sizeof_ptr :: u64 where "sizeof_ptr = 8"

definition PB_BYTES_ARRAY_T_ALLOCSIZE :: "u64 \<Rightarrow> u64" where
  "PB_BYTES_ARRAY_T_ALLOCSIZE n = n + 4"

subsection \<open>Streams\<close>

text \<open>
  \<^verbatim>\<open>struct pb_istream_s\<close>. The callback is either the library's own \<^verbatim>\<open>buf_read\<close> or one of
  the user's; a user callback is a state transformer of the user's world that delivers the
  bytes it stores at \<open>buf[0..count)\<close> as a function of the index. For a buffer stream
  \<open>is_mem\<close> is the memory that holds the buffer and \<open>is_state\<close> the read pointer into it.
\<close>

datatype 'w istream_callback =
    Buf_read
  | Istream_user "'w \<Rightarrow> u64 \<Rightarrow> bool \<times> (nat \<Rightarrow> byte) \<times> 'w"

record 'w pb_istream_t =
  is_callback :: "'w istream_callback"
  is_mem :: mem
  is_state :: addr
  bytes_left :: u64
  is_errmsg :: "string option"
  is_world :: 'w

text \<open>
  \<^verbatim>\<open>struct pb_ostream_s\<close>. A null callback marks a sizing stream. For a buffer stream
  \<open>os_out\<close> is what has been stored below the write pointer, so that the write pointer is
  \<open>buf + length os_out\<close>; the destination buffer is not part of the encoded message.
\<close>

datatype 'w ostream_callback =
    Null_callback
  | Buf_write
  | Ostream_user "'w \<Rightarrow> byte list \<Rightarrow> bool \<times> 'w"

record 'w pb_ostream_t =
  os_callback :: "'w ostream_callback"
  os_out :: "byte list"
  os_max_size :: u64
  bytes_written :: u64
  os_errmsg :: "string option"
  os_world :: 'w

text \<open>\<^verbatim>\<open>PB_SET_ERROR\<close>: the first message set stays.\<close>

definition is_set_error :: "'w pb_istream_t \<Rightarrow> string \<Rightarrow> 'w pb_istream_t" where
  "is_set_error s msg =
     s\<lparr>is_errmsg := (case is_errmsg s of Some e \<Rightarrow> Some e | None \<Rightarrow> Some msg)\<rparr>"

definition os_set_error :: "'w pb_ostream_t \<Rightarrow> string \<Rightarrow> 'w pb_ostream_t" where
  "os_set_error s msg =
     s\<lparr>os_errmsg := (case os_errmsg s of Some e \<Rightarrow> Some e | None \<Rightarrow> Some msg)\<rparr>"

subsection \<open>Facts on the type byte\<close>

lemma is_set_error_simps [simp]:
  "is_callback (is_set_error s msg) = is_callback s"
  "is_mem (is_set_error s msg) = is_mem s"
  "is_state (is_set_error s msg) = is_state s"
  "bytes_left (is_set_error s msg) = bytes_left s"
  "is_world (is_set_error s msg) = is_world s"
  by (simp_all add: is_set_error_def)

lemma os_set_error_simps [simp]:
  "os_callback (os_set_error s msg) = os_callback s"
  "os_out (os_set_error s msg) = os_out s"
  "os_max_size (os_set_error s msg) = os_max_size s"
  "bytes_written (os_set_error s msg) = bytes_written s"
  "os_world (os_set_error s msg) = os_world s"
  by (simp_all add: os_set_error_def)

lemma PB_HTYPE_cases:
  "PB_HTYPE x = PB_HTYPE_REQUIRED \<or> PB_HTYPE x = PB_HTYPE_OPTIONAL \<or>
   PB_HTYPE x = PB_HTYPE_REPEATED \<or> PB_HTYPE x = PB_HTYPE_ONEOF"
proof -
  have "x AND 0x30 =
    (if bit x 4 then if bit x 5 then 0x30 else 0x10 else if bit x 5 then 0x20 else 0)"
    by (rule bit_word_eqI)
      (auto simp: bit_and_iff bit_byte_masks simp del: bit_numeral_word_iff split: if_splits)
  then show ?thesis by (simp add: PB_HTYPE_def pb_const)
qed

lemma PB_ATYPE_cases:
  "PB_ATYPE x = PB_ATYPE_STATIC \<or> PB_ATYPE x = PB_ATYPE_CALLBACK \<or>
   PB_ATYPE x = PB_ATYPE_POINTER \<or> PB_ATYPE x = 0xC0"
proof -
  have "x AND 0xC0 =
    (if bit x 6 then if bit x 7 then 0xC0 else 0x40 else if bit x 7 then 0x80 else 0)"
    by (rule bit_word_eqI)
      (auto simp: bit_and_iff bit_byte_masks simp del: bit_numeral_word_iff split: if_splits)
  then show ?thesis by (simp add: PB_ATYPE_def pb_const)
qed

text \<open>The repetition rules and the allocation types are told apart by their codes.\<close>

lemma htype_distinct [simp]:
  "PB_HTYPE_REQUIRED \<noteq> PB_HTYPE_OPTIONAL" "PB_HTYPE_REQUIRED \<noteq> PB_HTYPE_REPEATED"
  "PB_HTYPE_REQUIRED \<noteq> PB_HTYPE_ONEOF" "PB_HTYPE_OPTIONAL \<noteq> PB_HTYPE_REQUIRED"
  "PB_HTYPE_OPTIONAL \<noteq> PB_HTYPE_REPEATED" "PB_HTYPE_OPTIONAL \<noteq> PB_HTYPE_ONEOF"
  "PB_HTYPE_REPEATED \<noteq> PB_HTYPE_REQUIRED" "PB_HTYPE_REPEATED \<noteq> PB_HTYPE_OPTIONAL"
  "PB_HTYPE_REPEATED \<noteq> PB_HTYPE_ONEOF" "PB_HTYPE_ONEOF \<noteq> PB_HTYPE_REQUIRED"
  "PB_HTYPE_ONEOF \<noteq> PB_HTYPE_OPTIONAL" "PB_HTYPE_ONEOF \<noteq> PB_HTYPE_REPEATED"
  by (simp_all add: pb_const)

lemma atype_distinct [simp]:
  "PB_ATYPE_STATIC \<noteq> PB_ATYPE_POINTER" "PB_ATYPE_STATIC \<noteq> PB_ATYPE_CALLBACK"
  "PB_ATYPE_POINTER \<noteq> PB_ATYPE_STATIC" "PB_ATYPE_POINTER \<noteq> PB_ATYPE_CALLBACK"
  "PB_ATYPE_CALLBACK \<noteq> PB_ATYPE_STATIC" "PB_ATYPE_CALLBACK \<noteq> PB_ATYPE_POINTER"
  by (simp_all add: pb_const)

end
