(* ===== verification/Pb_Ostream.thy ===== *)
theory Pb_Ostream
  imports Pb_Types
begin

unbundle bit_operations_syntax

text \<open>
  The output stream of nanopb and the wire-format writers built on it: from
  \<^verbatim>\<open>src/ios/Pods/nanopb/pb_encode.c\<close>, \<^verbatim>\<open>buf_write\<close>, \<^verbatim>\<open>pb_ostream_from_buffer\<close> and
  \<^verbatim>\<open>pb_write\<close>, and \<^verbatim>\<open>pb_encode_varint\<close> to \<^verbatim>\<open>pb_encode_string\<close>. A function that returns
  \<^verbatim>\<open>bool\<close> returns the pair of that value and the new stream.
\<close>

subsection \<open>Writing bytes\<close>

definition buf_write :: "'w pb_ostream_t \<Rightarrow> byte list \<Rightarrow> u64 \<Rightarrow> bool \<times> 'w pb_ostream_t" where
  "buf_write s buf count = (True, s\<lparr>os_out := os_out s @ take (unat count) buf\<rparr>)"

definition pb_ostream_from_buffer :: "u64 \<Rightarrow> 'w \<Rightarrow> 'w pb_ostream_t" where
  "pb_ostream_from_buffer bufsize w =
     \<lparr>os_callback = Buf_write, os_out = [], os_max_size = bufsize, bytes_written = 0,
      os_errmsg = None, os_world = w\<rparr>"

text \<open>\<^verbatim>\<open>PB_OSTREAM_SIZING\<close>, with the user's world carried along.\<close>

definition PB_OSTREAM_SIZING :: "'w \<Rightarrow> 'w pb_ostream_t" where
  "PB_OSTREAM_SIZING w =
     \<lparr>os_callback = Null_callback, os_out = [], os_max_size = 0, bytes_written = 0,
      os_errmsg = None, os_world = w\<rparr>"

definition ostream_callback_call ::
  "'w pb_ostream_t \<Rightarrow> byte list \<Rightarrow> u64 \<Rightarrow> bool \<times> 'w pb_ostream_t" where
  "ostream_callback_call s buf count =
     (case os_callback s of
        Null_callback \<Rightarrow> (True, s)
      | Buf_write \<Rightarrow> buf_write s buf count
      | Ostream_user f \<Rightarrow>
          (let (ok, w) = f (os_world s) (take (unat count) buf) in (ok, s\<lparr>os_world := w\<rparr>)))"

definition pb_write :: "'w pb_ostream_t \<Rightarrow> byte list \<Rightarrow> u64 \<Rightarrow> bool \<times> 'w pb_ostream_t" where
  "pb_write s buf count =
     (case os_callback s of
        Null_callback \<Rightarrow> (True, s\<lparr>bytes_written := bytes_written s + count\<rparr>)
      | _ \<Rightarrow>
        if bytes_written s + count > os_max_size s then (False, os_set_error s ''stream full'')
        else (case ostream_callback_call s buf count of
            (False, s') \<Rightarrow> (False, os_set_error s' ''io error'')
          | (True, s') \<Rightarrow> (True, s'\<lparr>bytes_written := bytes_written s' + count\<rparr>)))"

subsection \<open>Varints\<close>

text \<open>The \<^verbatim>\<open>while (value)\<close> loop that fills \<open>buffer\<close>.\<close>

function varint_buffer :: "u64 \<Rightarrow> byte list" where
  "varint_buffer value =
     (if value = 0 then []
      else (ucast (value AND 0x7F) OR 0x80) # varint_buffer (drop_bit 7 value))"
  by pat_completeness auto
termination
proof (relation "measure unat")
  fix v :: u64
  assume "v \<noteq> 0"
  then have "0 < unat v" by (simp add: unat_gt_0)
  then show "(drop_bit 7 v, v) \<in> measure unat"
    by (simp only: in_measure unat_drop_bit_eq) (simp add: drop_bit_eq_div)
qed simp

declare varint_buffer.simps [simp del]

definition pb_encode_varint :: "'w pb_ostream_t \<Rightarrow> u64 \<Rightarrow> bool \<times> 'w pb_ostream_t" where
  "pb_encode_varint s value =
     (if value \<le> 0x7F then pb_write s [ucast value] 1
      else (let buffer = varint_buffer value; i = length buffer
            in pb_write s (buffer[i - 1 := buffer ! (i - 1) AND 0x7F]) (of_nat i)))"

text \<open>The argument is the two's complement representation of the \<^verbatim>\<open>int64_t\<close>.\<close>

definition pb_encode_svarint :: "'w pb_ostream_t \<Rightarrow> u64 \<Rightarrow> bool \<times> 'w pb_ostream_t" where
  "pb_encode_svarint s value =
     pb_encode_varint s (if sint value < 0 then NOT (push_bit 1 value) else push_bit 1 value)"

subsection \<open>Fixed-width integers\<close>

definition pb_encode_fixed32 :: "'w pb_ostream_t \<Rightarrow> u32 \<Rightarrow> bool \<times> 'w pb_ostream_t" where
  "pb_encode_fixed32 s val = pb_write s
     [ucast (val AND 0xFF), ucast (drop_bit 8 val AND 0xFF),
      ucast (drop_bit 16 val AND 0xFF), ucast (drop_bit 24 val AND 0xFF)] 4"

definition pb_encode_fixed64 :: "'w pb_ostream_t \<Rightarrow> u64 \<Rightarrow> bool \<times> 'w pb_ostream_t" where
  "pb_encode_fixed64 s val = pb_write s
     [ucast (val AND 0xFF), ucast (drop_bit 8 val AND 0xFF),
      ucast (drop_bit 16 val AND 0xFF), ucast (drop_bit 24 val AND 0xFF),
      ucast (drop_bit 32 val AND 0xFF), ucast (drop_bit 40 val AND 0xFF),
      ucast (drop_bit 48 val AND 0xFF), ucast (drop_bit 56 val AND 0xFF)] 8"

subsection \<open>Tags and strings\<close>

definition pb_encode_tag ::
  "'w pb_ostream_t \<Rightarrow> wire_type \<Rightarrow> u32 \<Rightarrow> bool \<times> 'w pb_ostream_t" where
  "pb_encode_tag s wiretype field_number =
     pb_encode_varint s (push_bit 3 (ucast field_number) OR ucast wiretype)"

definition wire_type_for_ltype :: "byte \<Rightarrow> wire_type option" where
  "wire_type_for_ltype lt =
     (if lt = PB_LTYPE_VARINT \<or> lt = PB_LTYPE_UVARINT \<or> lt = PB_LTYPE_SVARINT
      then Some PB_WT_VARINT
      else if lt = PB_LTYPE_FIXED32 then Some PB_WT_32BIT
      else if lt = PB_LTYPE_FIXED64 then Some PB_WT_64BIT
      else if lt = PB_LTYPE_BYTES \<or> lt = PB_LTYPE_STRING \<or> lt = PB_LTYPE_SUBMESSAGE \<or>
        lt = PB_LTYPE_FIXED_LENGTH_BYTES then Some PB_WT_STRING
      else None)"

definition pb_encode_tag_for_field ::
  "'w pb_ostream_t \<Rightarrow> pb_field_t \<Rightarrow> bool \<times> 'w pb_ostream_t" where
  "pb_encode_tag_for_field s field =
     (case wire_type_for_ltype (PB_LTYPE (ftype field)) of
        Some wiretype \<Rightarrow> pb_encode_tag s wiretype (tag field)
      | None \<Rightarrow> (False, os_set_error s ''invalid field type''))"

definition pb_encode_string ::
  "'w pb_ostream_t \<Rightarrow> byte list \<Rightarrow> u64 \<Rightarrow> bool \<times> 'w pb_ostream_t" where
  "pb_encode_string s buffer sz =
     (case pb_encode_varint s sz of
        (False, s1) \<Rightarrow> (False, s1)
      | (True, s1) \<Rightarrow> pb_write s1 buffer sz)"

end
