(* ===== verification/Pb_Iter.thy ===== *)
theory Pb_Iter
  imports Pb_Types
begin

text \<open>
  The field iterator of \<^verbatim>\<open>src/ios/Pods/nanopb/pb_common.c\<close>, which walks a descriptor
  array cyclically and keeps the addresses of the current field's data and of its
  count/has field. A descriptor array is the list of its entries with the terminator
  (tag 0) at the end; the iterator's \<^verbatim>\<open>pos\<close> pointer is an index into it.
\<close>

record pb_field_iter_t =
  it_start :: "pb_field_t list"
  it_pos :: nat
  required_field_index :: u32
  dest_struct :: addr
  pData :: addr
  pSize :: addr

definition cur_field :: "pb_field_iter_t \<Rightarrow> pb_field_t" where
  "cur_field it = it_start it ! it_pos it"

definition pb_field_iter_begin :: "pb_field_t list \<Rightarrow> addr \<Rightarrow> bool \<times> pb_field_iter_t" where
  "pb_field_iter_begin fs dest =
     (let f = fs ! 0; pd = add_offset dest (data_offset f)
      in (tag f \<noteq> 0,
          \<lparr>it_start = fs, it_pos = 0, required_field_index = 0, dest_struct = dest,
           pData = pd, pSize = add_soffset pd (size_offset f)\<rparr>))"

text \<open>The \<^verbatim>\<open>prev_size\<close> that the next field's data lies behind.\<close>

definition field_extent :: "pb_field_t \<Rightarrow> u64" where
  "field_extent prev =
     (if PB_ATYPE (ftype prev) = PB_ATYPE_STATIC \<and> PB_HTYPE (ftype prev) = PB_HTYPE_REPEATED
      then ucast (data_size prev) * ucast (array_size prev)
      else if PB_ATYPE (ftype prev) = PB_ATYPE_POINTER then sizeof_ptr
      else ucast (data_size prev))"

definition pb_field_iter_next :: "pb_field_iter_t \<Rightarrow> bool \<times> pb_field_iter_t" where
  "pb_field_iter_next it =
     (let prev_field = cur_field it in
      if tag prev_field = 0 then (False, it)
      else
        (let it1 = it\<lparr>it_pos := it_pos it + 1\<rparr>; f = cur_field it1 in
         if tag f = 0 then (False, snd (pb_field_iter_begin (it_start it) (dest_struct it)))
         else if PB_HTYPE (ftype prev_field) = PB_HTYPE_ONEOF \<and>
                 PB_HTYPE (ftype f) = PB_HTYPE_ONEOF \<and> data_offset f = PB_SIZE_MAX
         then (True, it1)
         else
           (let pd = add_offset (pData it + field_extent prev_field) (data_offset f)
            in (True, it1\<lparr>
                  required_field_index := (if PB_HTYPE (ftype prev_field) = PB_HTYPE_REQUIRED
                    then required_field_index it + 1 else required_field_index it),
                  pData := pd, pSize := add_soffset pd (size_offset f)\<rparr>))))"

text \<open>
  The \<^verbatim>\<open>do ... while (iter->pos != start)\<close> walk shared by \<^verbatim>\<open>pb_field_iter_find\<close> and
  \<^verbatim>\<open>find_extension_field\<close>, with fuel; \<open>None\<close> is a walk that does not come back to
  \<open>start\<close>.
\<close>

primrec iter_search ::
  "nat \<Rightarrow> (pb_field_t \<Rightarrow> bool) \<Rightarrow> nat \<Rightarrow> pb_field_iter_t \<Rightarrow> (bool \<times> pb_field_iter_t) option" where
  "iter_search 0 wanted start it = None"
| "iter_search (Suc fuel) wanted start it =
     (if wanted (cur_field it) then Some (True, it)
      else (let it' = snd (pb_field_iter_next it)
            in if it_pos it' \<noteq> start then iter_search fuel wanted start it'
               else Some (False, it')))"

definition pb_field_iter_find ::
  "pb_field_iter_t \<Rightarrow> u32 \<Rightarrow> (bool \<times> pb_field_iter_t) option" where
  "pb_field_iter_find it t =
     iter_search (length (it_start it))
       (\<lambda>f. tag f = t \<and> PB_LTYPE (ftype f) \<noteq> PB_LTYPE_EXTENSION) (it_pos it) it"

definition find_extension_field :: "pb_field_iter_t \<Rightarrow> (bool \<times> pb_field_iter_t) option" where
  "find_extension_field it =
     iter_search (length (it_start it))
       (\<lambda>f. PB_LTYPE (ftype f) = PB_LTYPE_EXTENSION) (it_pos it) it"

subsection \<open>Well-formed descriptor arrays\<close>

definition wf_fields :: "pb_field_t list \<Rightarrow> bool" where
  "wf_fields fs =
     (fs \<noteq> [] \<and> tag (last fs) = 0 \<and> list_all (\<lambda>f. tag f \<noteq> 0) (butlast fs))"

definition n_fields :: "pb_field_t list \<Rightarrow> nat" where
  "n_fields fs = length fs - 1"

text \<open>The iterator as it stands at field \<open>k\<close>, however it got there.\<close>

primrec iter_at :: "pb_field_t list \<Rightarrow> addr \<Rightarrow> nat \<Rightarrow> pb_field_iter_t" where
  "iter_at fs dest 0 = snd (pb_field_iter_begin fs dest)"
| "iter_at fs dest (Suc k) = snd (pb_field_iter_next (iter_at fs dest k))"

lemma wf_fields_tag: "wf_fields fs \<Longrightarrow> k < n_fields fs \<Longrightarrow> tag (fs ! k) \<noteq> 0"
  by (auto simp: wf_fields_def n_fields_def list_all_length nth_butlast)

lemma wf_fields_end: "wf_fields fs \<Longrightarrow> tag (fs ! n_fields fs) = 0"
  by (auto simp: wf_fields_def n_fields_def last_conv_nth)

lemma wf_fields_length: "wf_fields fs \<Longrightarrow> length fs = Suc (n_fields fs)"
  by (auto simp: wf_fields_def n_fields_def)

lemma iter_at_frame:
  assumes "wf_fields fs" "k < n_fields fs"
  shows "it_start (iter_at fs dest k) = fs \<and> it_pos (iter_at fs dest k) = k \<and>
    dest_struct (iter_at fs dest k) = dest"
  using assms(2)
proof (induction k)
  case 0
  then show ?case by (simp add: pb_field_iter_begin_def Let_def)
next
  case (Suc k)
  then have IH: "it_start (iter_at fs dest k) = fs" "it_pos (iter_at fs dest k) = k"
    "dest_struct (iter_at fs dest k) = dest" by simp_all
  then show ?case
    using wf_fields_tag [OF assms(1), of k] wf_fields_tag [OF assms(1), of "Suc k"] Suc.prems
    by (simp add: pb_field_iter_next_def cur_field_def Let_def)
qed

lemma cur_field_iter_at [simp]:
  "wf_fields fs \<Longrightarrow> k < n_fields fs \<Longrightarrow> cur_field (iter_at fs dest k) = fs ! k"
  by (simp add: cur_field_def iter_at_frame)

lemma iter_next_iter_at:
  assumes "wf_fields fs" "k < n_fields fs"
  shows "pb_field_iter_next (iter_at fs dest k) =
    (Suc k < n_fields fs, iter_at fs dest (Suc k mod n_fields fs))"
proof (cases "Suc k < n_fields fs")
  case True
  then show ?thesis
    using wf_fields_tag [OF assms] wf_fields_tag [OF assms(1) True] iter_at_frame [OF assms]
    by (simp add: pb_field_iter_next_def [of "iter_at fs dest k"] cur_field_def Let_def)
next
  case False
  then have "Suc k = n_fields fs" using assms(2) by simp
  then show ?thesis
    using wf_fields_tag [OF assms] wf_fields_end [OF assms(1)] iter_at_frame [OF assms]
    by (simp add: pb_field_iter_next_def cur_field_def Let_def)
qed

lemma iter_begin_wf:
  "wf_fields fs \<Longrightarrow> pb_field_iter_begin fs dest = (0 < n_fields fs, iter_at fs dest 0)"
  using wf_fields_tag [of fs 0] wf_fields_end [of fs]
  by (cases "n_fields fs") (simp_all add: pb_field_iter_begin_def Let_def)

subsection \<open>The cyclic walk\<close>

lemma iter_search_walk:
  assumes "wf_fields fs" "k < n_fields fs" "i < n_fields fs"
    and "n_fields fs - i \<le> fuel"
  shows "iter_search fuel wanted k (iter_at fs dest ((k + i) mod n_fields fs)) =
    (case find (\<lambda>j. wanted (fs ! j))
        (map (\<lambda>i. (k + i) mod n_fields fs) [i..<n_fields fs]) of
       Some j \<Rightarrow> Some (True, iter_at fs dest j)
     | None \<Rightarrow> Some (False, iter_at fs dest k))"
  using assms(3,4)
proof (induction fuel arbitrary: i)
  case 0
  then show ?case by simp
next
  case (Suc fuel)
  define n where "n = n_fields fs"
  have n: "0 < n" "k < n" "i < n" using assms(2) Suc.prems by (simp_all add: n_def)
  define j where "j = (k + i) mod n"
  have j: "j < n" using n by (simp add: j_def)
  have list: "map (\<lambda>i. (k + i) mod n) [i..<n] = j # map (\<lambda>i. (k + i) mod n) [Suc i..<n]"
    using n by (simp add: upt_conv_Cons j_def)
  have "next": "snd (pb_field_iter_next (iter_at fs dest j)) =
      iter_at fs dest ((k + Suc i) mod n)"
    using iter_next_iter_at [OF assms(1), of j dest] j
    by (simp add: n_def [symmetric] j_def mod_Suc_eq)
  have pos: "it_pos (iter_at fs dest ((k + Suc i) mod n)) = (k + Suc i) mod n"
    using iter_at_frame [OF assms(1), of "(k + Suc i) mod n" dest] n by (simp add: n_def)
  have cur: "cur_field (iter_at fs dest j) = fs ! j" using j assms(1) by (simp add: n_def)
  show ?case
  proof (cases "wanted (fs ! j)")
    case True
    then show ?thesis
      unfolding n_def [symmetric] list j_def [symmetric] by (simp add: cur)
  next
    case notw: False
    show ?thesis
    proof (cases "Suc i < n")
      case True
      have "(k + Suc i) mod n \<noteq> k"
      proof
        assume eq: "(k + Suc i) mod n = k"
        show False
        proof (cases "k + Suc i < n")
          case True
          with eq show False by simp
        next
          case False
          then have "(k + Suc i) mod n = k + Suc i - n" using n \<open>Suc i < n\<close>
            by (simp add: mod_if)
          with eq n \<open>Suc i < n\<close> show False by simp
        qed
      qed
      then show ?thesis
        using Suc.IH [of "Suc i"] Suc.prems True notw "next" pos
        unfolding n_def [symmetric] list j_def [symmetric] by (simp add: cur Let_def)
    next
      case False
      then have "Suc i = n" using n by simp
      moreover from this have "(k + Suc i) mod n = k" using n by simp
      ultimately show ?thesis
        using notw "next" pos
        unfolding n_def [symmetric] list j_def [symmetric] by (simp add: cur Let_def)
    qed
  qed
qed

text \<open>The indices from \<open>k\<close> on, once round.\<close>

definition cycle_from :: "nat \<Rightarrow> nat \<Rightarrow> nat list" where
  "cycle_from k n = map (\<lambda>i. (k + i) mod n) [0..<n]"

lemma set_cycle_from: "k < n \<Longrightarrow> set (cycle_from k n) = {..<n}"
proof -
  assume k: "k < n"
  have "j \<in> (\<lambda>i. (k + i) mod n) ` {0..<n}" if "j < n" for j
  proof (cases "k \<le> j")
    case True
    then show ?thesis using that k by (intro image_eqI [of _ _ "j - k"]) auto
  next
    case False
    then show ?thesis using that k by (intro image_eqI [of _ _ "n + j - k"]) auto
  qed
  then show ?thesis using k by (auto simp: cycle_from_def)
qed

lemma iter_search_iter_at:
  assumes "wf_fields fs" "k < n_fields fs"
  shows "iter_search (length fs) wanted k (iter_at fs dest k) =
    (case find (\<lambda>j. wanted (fs ! j)) (cycle_from k (n_fields fs)) of
       Some j \<Rightarrow> Some (True, iter_at fs dest j)
     | None \<Rightarrow> Some (False, iter_at fs dest k))"
  using iter_search_walk [OF assms, of 0 "length fs" wanted dest] assms
  by (simp add: wf_fields_length cycle_from_def)

lemma iter_search_found:
  assumes "wf_fields fs" "k < n_fields fs"
    and "iter_search (length fs) wanted k (iter_at fs dest k) = Some (True, it)"
  obtains j where "j < n_fields fs" "it = iter_at fs dest j" "wanted (fs ! j)"
proof -
  from assms(3) obtain j where
    j: "find (\<lambda>j. wanted (fs ! j)) (cycle_from k (n_fields fs)) = Some j"
      "it = iter_at fs dest j"
    by (auto simp: iter_search_iter_at [OF assms(1,2)] split: option.splits)
  then have "j \<in> set (cycle_from k (n_fields fs))" "wanted (fs ! j)"
    by (auto simp: find_Some_iff)
  with set_cycle_from [OF assms(2)] j that show thesis by simp
qed

lemma iter_search_not_found:
  assumes "wf_fields fs" "k < n_fields fs"
    and "iter_search (length fs) wanted k (iter_at fs dest k) = Some (False, it)"
  shows "it = iter_at fs dest k \<and> (\<forall>j < n_fields fs. \<not> wanted (fs ! j))"
proof -
  from assms(3) have "find (\<lambda>j. wanted (fs ! j)) (cycle_from k (n_fields fs)) = None"
      "it = iter_at fs dest k"
    by (auto simp: iter_search_iter_at [OF assms(1,2)] split: option.splits)
  with set_cycle_from [OF assms(2)] show ?thesis by (auto simp: find_None_iff)
qed

subsection \<open>Counting the required fields\<close>

definition is_required :: "pb_field_t \<Rightarrow> bool" where
  "is_required f = (PB_HTYPE (ftype f) = PB_HTYPE_REQUIRED)"

lemma required_field_index_iter_at:
  assumes "wf_fields fs" "k < n_fields fs"
  shows "required_field_index (iter_at fs dest k) =
    of_nat (length (filter is_required (take k fs)))"
  using assms(2)
proof (induction k)
  case 0
  then show ?case by (simp add: pb_field_iter_begin_def Let_def)
next
  case (Suc k)
  have k: "k < length fs" using Suc.prems wf_fields_length [OF assms(1)] by simp
  show ?case
    using Suc wf_fields_tag [OF assms(1), of k] wf_fields_tag [OF assms(1), of "Suc k"]
      iter_at_frame [OF assms(1), of k dest] k
    by (auto simp: pb_field_iter_next_def cur_field_def Let_def is_required_def
        take_Suc_conv_app_nth)
qed

end
