(* ===== verification/Byte_Sink.thy ===== *)
theory Byte_Sink
  imports Prelude
begin

text \<open>
  The interface between the writers of messages and the stream they write to: a sink can
  take a block of bytes if it has room for it, and taking two blocks is taking their
  concatenation. An operation on a sink \<open>emits\<close> a block when, on every sink with room for
  it, it succeeds and appends exactly that block, and on every other sink it fails; it
  emits \<open>(False, bs)\<close> when it fails on every sink, having produced at most the bytes
  \<open>bs\<close>. Everything a nanopb encoder does without user callbacks is an emission, and
  emissions compose.
\<close>

text \<open>C's \<^verbatim>\<open>if (!f(stream)) return false; g(stream)\<close>, where a call may also not return.\<close>

definition and_then ::
  "(bool \<times> 's) option \<Rightarrow> ('s \<Rightarrow> (bool \<times> 's) option) \<Rightarrow> (bool \<times> 's) option" where
  "and_then r k = (case r of None \<Rightarrow> None
     | Some (ok, s) \<Rightarrow> if ok then k s else Some (False, s))"

lemma and_then_simps [simp]:
  "and_then None k = None"
  "and_then (Some (True, s)) k = k s"
  "and_then (Some (False, s)) k = Some (False, s)"
  by (simp_all add: and_then_def)

definition emitted_append :: "bool \<times> byte list \<Rightarrow> bool \<times> byte list \<Rightarrow> bool \<times> byte list" where
  "emitted_append p q = (if fst p then (fst q, snd p @ snd q) else p)"

lemma emitted_append_simps [simp]:
  "emitted_append (True, a) (ok, b) = (ok, a @ b)"
  "emitted_append (False, a) q = (False, a)"
  by (simp_all add: emitted_append_def)

lemma emitted_append_assoc:
  "emitted_append (emitted_append p q) r = emitted_append p (emitted_append q r)"
  by (simp add: emitted_append_def)

locale byte_sink =
  fixes plain :: "'s \<Rightarrow> bool"
    and short :: "'s \<Rightarrow> nat \<Rightarrow> bool"
    and room :: "'s \<Rightarrow> nat \<Rightarrow> bool"
    and emit :: "'s \<Rightarrow> byte list \<Rightarrow> 's"
  assumes room_0: "plain s \<Longrightarrow> room s 0"
    and emit_Nil: "emit s [] = s"
    and emit_append: "emit (emit s a) b = emit s (a @ b)"
    and plain_emit: "plain s \<Longrightarrow> short s (length a) \<Longrightarrow> room s (length a) \<Longrightarrow> plain (emit s a)"
    and short_append: "short s (length a + n) \<Longrightarrow> short s (length a) \<and> short (emit s a) n"
    and room_append: "plain s \<Longrightarrow> short s (length a + n) \<Longrightarrow>
      room s (length a + n) \<longleftrightarrow> room s (length a) \<and> room (emit s a) n"
begin

definition emits :: "('s \<Rightarrow> (bool \<times> 's) option) \<Rightarrow> bool \<times> byte list \<Rightarrow> bool" where
  "emits op p = (\<forall>s. plain s \<longrightarrow> short s (length (snd p)) \<longrightarrow>
     (if fst p \<and> room s (length (snd p)) then op s = Some (True, emit s (snd p))
      else \<exists>s'. op s = Some (False, s')))"

lemma emitsI:
  assumes "\<And>s. plain s \<Longrightarrow> short s (length bs) \<Longrightarrow> ok \<Longrightarrow> room s (length bs) \<Longrightarrow>
      op s = Some (True, emit s bs)"
    and "\<And>s. plain s \<Longrightarrow> short s (length bs) \<Longrightarrow> \<not> (ok \<and> room s (length bs)) \<Longrightarrow>
      \<exists>s'. op s = Some (False, s')"
  shows "emits op (ok, bs)"
  using assms by (auto simp: emits_def)

lemma emits_success:
  "emits op (True, bs) \<Longrightarrow> plain s \<Longrightarrow> short s (length bs) \<Longrightarrow> room s (length bs) \<Longrightarrow>
   op s = Some (True, emit s bs)"
  by (auto simp: emits_def)

lemma emits_full:
  "emits op (True, bs) \<Longrightarrow> plain s \<Longrightarrow> short s (length bs) \<Longrightarrow> \<not> room s (length bs) \<Longrightarrow>
   \<exists>s'. op s = Some (False, s')"
  by (auto simp: emits_def)

lemma emits_failure:
  "emits op (False, bs) \<Longrightarrow> plain s \<Longrightarrow> short s (length bs) \<Longrightarrow> \<exists>s'. op s = Some (False, s')"
  by (auto simp: emits_def)

lemma emits_return: "emits (\<lambda>s. Some (True, s)) (True, [])"
  by (rule emitsI) (auto simp: emit_Nil room_0)

lemma emits_fail: "(\<And>s. plain s \<Longrightarrow> \<exists>s'. op s = Some (False, s')) \<Longrightarrow> emits op (False, [])"
  by (rule emitsI) auto

lemma emits_and_then:
  assumes op: "emits op p" and k: "fst p \<Longrightarrow> emits k q"
  shows "emits (\<lambda>s. and_then (op s) k) (emitted_append p q)"
proof (cases p)
  case (Pair ok a)
  show ?thesis
  proof (cases ok)
    case False
    with op Pair show ?thesis by (fastforce simp: emits_def)
  next
    case True
    obtain okb b where q: "q = (okb, b)" by (cases q)
    have k: "emits k (okb, b)" using k Pair True q by simp
    have op: "emits op (True, a)" using op Pair True by simp
    have "emits (\<lambda>s. and_then (op s) k) (okb, a @ b)"
    proof (rule emitsI)
      fix s
      assume s: "plain s" "short s (length (a @ b))" "okb" "room s (length (a @ b))"
      then have ra: "room s (length a)" "room (emit s a) (length b)"
        and sa: "short s (length a)" "short (emit s a) (length b)"
        using room_append [of s a "length b"] short_append [of s a "length b"] by simp_all
      then have "op s = Some (True, emit s a)"
        and "k (emit s a) = Some (True, emit (emit s a) b)"
        using emits_success [OF op] emits_success [of k b] k s plain_emit by simp_all
      then show "and_then (op s) k = Some (True, emit s (a @ b))"
        by (simp add: emit_append)
    next
      fix s
      assume s: "plain s" "short s (length (a @ b))" "\<not> (okb \<and> room s (length (a @ b)))"
      then have sa: "short s (length a)" "short (emit s a) (length b)"
        using short_append [of s a "length b"] by simp_all
      show "\<exists>s'. and_then (op s) k = Some (False, s')"
      proof (cases "room s (length a)")
        case False
        then show ?thesis using emits_full [OF op s(1) sa(1)] by fastforce
      next
        case ra: True
        then have "\<not> (okb \<and> room (emit s a) (length b))"
          using s room_append [of s a "length b"] by auto
        moreover have "plain (emit s a)" using plain_emit s sa ra by simp
        ultimately have "\<exists>s'. k (emit s a) = Some (False, s')"
          using emits_failure [of k b] emits_full [of k b] k sa by (cases okb) auto
        moreover have "op s = Some (True, emit s a)"
          using emits_success [OF op s(1) sa(1) ra] .
        ultimately show ?thesis by simp
      qed
    qed
    then show ?thesis by (simp add: Pair True q)
  qed
qed

lemma emits_cong: "(\<And>s. op s = op' s) \<Longrightarrow> emits op p = emits op' p"
  by (simp add: emits_def)

end

end
