(* ===== verification/Pb_Encode.thy ===== *)
theory Pb_Encode
  imports Pb_Ostream Pb_Iter Byte_Sink
begin

unbundle bit_operations_syntax

text \<open>
  The message encoder of \<^verbatim>\<open>src/ios/Pods/nanopb/pb_encode.c\<close>. The message, its descriptors
  and the user's function pointers are an environment: the memory the encoder reads, the
  descriptor array found at an address, and the code found at a function pointer. Every
  function that can reach \<^verbatim>\<open>pb_encode\<close> again takes it as an argument \<open>enc\<close>, and
  \<open>pb_encode\<close> ties the knot with a bound on the depth of submessages. A result \<^const>\<open>None\<close>
  is a call that does not return: the depth or the length of an extension list exceeds the
  bound, or the code calls or reads through an invalid pointer.
\<close>

record 'w enc_env =
  ee_mem :: mem
  ee_fields :: "addr \<Rightarrow> pb_field_t list"
  ee_callback :: "addr \<Rightarrow> pb_field_t \<Rightarrow> addr \<Rightarrow> 'w pb_ostream_t \<Rightarrow> bool \<times> 'w pb_ostream_t"
  ee_ext_encode :: "addr \<Rightarrow> addr \<Rightarrow> 'w pb_ostream_t \<Rightarrow> bool \<times> 'w pb_ostream_t"

type_synonym 'w enc_result = "(bool \<times> 'w pb_ostream_t) option"

type_synonym 'w msg_encoder = "pb_field_t list \<Rightarrow> addr \<Rightarrow> 'w pb_ostream_t \<Rightarrow> 'w enc_result"

subsection \<open>Field encoders\<close>

text \<open>The \<^verbatim>\<open>data_size\<close> chains that load a signed or an unsigned integer as 64 bits.\<close>

definition load_signed :: "mem \<Rightarrow> addr \<Rightarrow> u32 \<Rightarrow> u64 option" where
  "load_signed m src sz =
     (if sz = 1 then Some (scast (m src))
      else if sz = 2 then Some (scast (bytes_to_word (load_bytes m src 2) :: u16))
      else if sz = 4 then Some (scast (bytes_to_word (load_bytes m src 4) :: u32))
      else if sz = 8 then Some (bytes_to_word (load_bytes m src 8))
      else None)"

definition load_unsigned :: "mem \<Rightarrow> addr \<Rightarrow> u32 \<Rightarrow> u64 option" where
  "load_unsigned m src sz =
     (if sz = 1 then Some (ucast (m src))
      else if sz = 2 then Some (ucast (bytes_to_word (load_bytes m src 2) :: u16))
      else if sz = 4 then Some (ucast (bytes_to_word (load_bytes m src 4) :: u32))
      else if sz = 8 then Some (bytes_to_word (load_bytes m src 8))
      else None)"

definition pb_enc_varint ::
  "mem \<Rightarrow> pb_field_t \<Rightarrow> addr \<Rightarrow> 'w pb_ostream_t \<Rightarrow> bool \<times> 'w pb_ostream_t" where
  "pb_enc_varint m field src s =
     (case load_signed m src (data_size field) of
        None \<Rightarrow> (False, os_set_error s ''invalid data_size'')
      | Some v \<Rightarrow> pb_encode_varint s v)"

definition pb_enc_uvarint ::
  "mem \<Rightarrow> pb_field_t \<Rightarrow> addr \<Rightarrow> 'w pb_ostream_t \<Rightarrow> bool \<times> 'w pb_ostream_t" where
  "pb_enc_uvarint m field src s =
     (case load_unsigned m src (data_size field) of
        None \<Rightarrow> (False, os_set_error s ''invalid data_size'')
      | Some v \<Rightarrow> pb_encode_varint s v)"

definition pb_enc_svarint ::
  "mem \<Rightarrow> pb_field_t \<Rightarrow> addr \<Rightarrow> 'w pb_ostream_t \<Rightarrow> bool \<times> 'w pb_ostream_t" where
  "pb_enc_svarint m field src s =
     (case load_signed m src (data_size field) of
        None \<Rightarrow> (False, os_set_error s ''invalid data_size'')
      | Some v \<Rightarrow> pb_encode_svarint s v)"

definition pb_enc_fixed64 ::
  "mem \<Rightarrow> pb_field_t \<Rightarrow> addr \<Rightarrow> 'w pb_ostream_t \<Rightarrow> bool \<times> 'w pb_ostream_t" where
  "pb_enc_fixed64 m field src s = pb_encode_fixed64 s (bytes_to_word (load_bytes m src 8))"

definition pb_enc_fixed32 ::
  "mem \<Rightarrow> pb_field_t \<Rightarrow> addr \<Rightarrow> 'w pb_ostream_t \<Rightarrow> bool \<times> 'w pb_ostream_t" where
  "pb_enc_fixed32 m field src s = pb_encode_fixed32 s (bytes_to_word (load_bytes m src 4))"

definition pb_enc_bytes ::
  "mem \<Rightarrow> pb_field_t \<Rightarrow> addr \<Rightarrow> 'w pb_ostream_t \<Rightarrow> bool \<times> 'w pb_ostream_t" where
  "pb_enc_bytes m field src s =
     (if src = 0 then pb_encode_string s [] 0
      else (let sz = ucast (load_u32 m src) :: u64 in
        if PB_ATYPE (ftype field) = PB_ATYPE_STATIC \<and>
           PB_BYTES_ARRAY_T_ALLOCSIZE sz > ucast (data_size field)
        then (False, os_set_error s ''bytes size exceeded'')
        else pb_encode_string s (load_bytes m (src + 4) (unat sz)) sz))"

text \<open>The \<^verbatim>\<open>strnlen\<close> loop of \<^verbatim>\<open>pb_enc_string\<close>.\<close>

function c_strnlen :: "mem \<Rightarrow> addr \<Rightarrow> u64 \<Rightarrow> u64 \<Rightarrow> u64" where
  "c_strnlen m p sz max_size =
     (if sz < max_size \<and> m p \<noteq> 0 then c_strnlen m (p + 1) (sz + 1) max_size else sz)"
  by pat_completeness auto
termination
proof (relation "measure (\<lambda>(m, p, sz, max_size). unat max_size - unat sz)", simp, clarsimp)
  fix sz max_size :: u64
  assume lt: "sz < max_size"
  then have "unat (sz + 1) = Suc (unat sz)"
    using u64_less [of max_size] by (simp add: word_less_nat_alt unat_word_ariths)
  with lt show "unat max_size - unat (sz + 1) < unat max_size - unat sz"
    by (simp add: word_less_nat_alt)
qed

declare c_strnlen.simps [simp del]

definition pb_enc_string ::
  "mem \<Rightarrow> pb_field_t \<Rightarrow> addr \<Rightarrow> 'w pb_ostream_t \<Rightarrow> bool \<times> 'w pb_ostream_t" where
  "pb_enc_string m field src s =
     (let max_size = (if PB_ATYPE (ftype field) = PB_ATYPE_POINTER then - 1
                      else ucast (data_size field));
          sz = (if src = 0 then 0 else c_strnlen m src 0 max_size)
      in pb_encode_string s (load_bytes m src (unat sz)) sz)"

definition pb_enc_fixed_length_bytes ::
  "mem \<Rightarrow> pb_field_t \<Rightarrow> addr \<Rightarrow> 'w pb_ostream_t \<Rightarrow> bool \<times> 'w pb_ostream_t" where
  "pb_enc_fixed_length_bytes m field src s =
     pb_encode_string s (load_bytes m src (unat (data_size field))) (ucast (data_size field))"

subsection \<open>Submessages\<close>

text \<open>
  The first pass only counts; the second writes through a substream limited to the counted
  size. The user's world runs through both passes.
\<close>

definition pb_encode_submessage ::
  "'w msg_encoder \<Rightarrow> pb_field_t list \<Rightarrow> addr \<Rightarrow> 'w pb_ostream_t \<Rightarrow> 'w enc_result" where
  "pb_encode_submessage enc fs src s =
     (case enc fs src (PB_OSTREAM_SIZING (os_world s)) of
        None \<Rightarrow> None
      | Some (False, sub) \<Rightarrow> Some (False, s\<lparr>os_errmsg := os_errmsg sub, os_world := os_world sub\<rparr>)
      | Some (True, sub) \<Rightarrow>
          (let sz = bytes_written sub in
           and_then (Some (pb_encode_varint (s\<lparr>os_world := os_world sub\<rparr>) sz)) (\<lambda>s1.
             (case os_callback s1 of
                Null_callback \<Rightarrow> Some (pb_write s1 [] sz)
              | _ \<Rightarrow>
                if bytes_written s1 + sz > os_max_size s1
                then Some (False, os_set_error s1 ''stream full'')
                else (case enc fs src (s1\<lparr>os_max_size := sz, bytes_written := 0,
                                          os_errmsg := None\<rparr>) of
                    None \<Rightarrow> None
                  | Some (status, sub2) \<Rightarrow>
                      (let s2 = s1\<lparr>bytes_written := bytes_written s1 + bytes_written sub2,
                                   os_out := os_out sub2, os_errmsg := os_errmsg sub2,
                                   os_world := os_world sub2\<rparr>
                       in if bytes_written sub2 \<noteq> sz
                          then Some (False, os_set_error s2 ''submsg size changed'')
                          else Some (status, s2)))))))"

definition pb_enc_submessage ::
  "'w enc_env \<Rightarrow> 'w msg_encoder \<Rightarrow> pb_field_t \<Rightarrow> addr \<Rightarrow> 'w pb_ostream_t \<Rightarrow> 'w enc_result" where
  "pb_enc_submessage E enc field src s =
     (if fptr field = 0 then Some (False, os_set_error s ''invalid field descriptor'')
      else pb_encode_submessage enc (ee_fields E (fptr field)) src s)"

text \<open>
  \<^verbatim>\<open>PB_ENCODERS\<close>, called at once. The entry of the extension type is a null pointer and
  there is none for the type codes above 9.
\<close>

definition PB_ENCODERS ::
  "'w enc_env \<Rightarrow> 'w msg_encoder \<Rightarrow> pb_field_t \<Rightarrow> addr \<Rightarrow> 'w pb_ostream_t \<Rightarrow> 'w enc_result" where
  "PB_ENCODERS E enc field src s =
     (let lt = PB_LTYPE (ftype field); m = ee_mem E in
      if lt = PB_LTYPE_VARINT then Some (pb_enc_varint m field src s)
      else if lt = PB_LTYPE_UVARINT then Some (pb_enc_uvarint m field src s)
      else if lt = PB_LTYPE_SVARINT then Some (pb_enc_svarint m field src s)
      else if lt = PB_LTYPE_FIXED32 then Some (pb_enc_fixed32 m field src s)
      else if lt = PB_LTYPE_FIXED64 then Some (pb_enc_fixed64 m field src s)
      else if lt = PB_LTYPE_BYTES then Some (pb_enc_bytes m field src s)
      else if lt = PB_LTYPE_STRING then Some (pb_enc_string m field src s)
      else if lt = PB_LTYPE_SUBMESSAGE then pb_enc_submessage E enc field src s
      else if lt = PB_LTYPE_FIXED_LENGTH_BYTES
      then Some (pb_enc_fixed_length_bytes m field src s)
      else None)"

subsection \<open>Arrays\<close>

text \<open>The \<^verbatim>\<open>for\<close> loops over array entries: \<open>n\<close> calls, \<open>step\<close> bytes apart.\<close>

primrec encode_items ::
  "nat \<Rightarrow> (addr \<Rightarrow> 's \<Rightarrow> (bool \<times> 's) option) \<Rightarrow> u64 \<Rightarrow> addr \<Rightarrow> 's \<Rightarrow> (bool \<times> 's) option" where
  "encode_items 0 func step p s = Some (True, s)"
| "encode_items (Suc n) func step p s =
     and_then (func p s) (encode_items n func step (p + step))"

definition is_packable :: "pb_field_t \<Rightarrow> bool" where
  "is_packable field = (PB_LTYPE (ftype field) \<le> PB_LTYPE_LAST_PACKABLE)"

text \<open>The size of a packed array: computed for fixed-width entries, counted for varints.\<close>

definition packed_array_size ::
  "'w enc_env \<Rightarrow> 'w msg_encoder \<Rightarrow> pb_field_t \<Rightarrow> addr \<Rightarrow> u64 \<Rightarrow> 'w \<Rightarrow> (bool \<times> u64) option" where
  "packed_array_size E enc field p count w =
     (if PB_LTYPE (ftype field) = PB_LTYPE_FIXED32 then Some (True, 4 * count)
      else if PB_LTYPE (ftype field) = PB_LTYPE_FIXED64 then Some (True, 8 * count)
      else (case encode_items (unat count) (PB_ENCODERS E enc field)
                (ucast (data_size field)) p (PB_OSTREAM_SIZING w) of
          None \<Rightarrow> None
        | Some (ok, sizestream) \<Rightarrow> Some (ok, bytes_written sizestream)))"

text \<open>One entry of an array that is not packed: its own tag, and one more indirection for
  pointer-type strings and bytes.\<close>

definition encode_unpacked_item ::
  "'w enc_env \<Rightarrow> 'w msg_encoder \<Rightarrow> pb_field_t \<Rightarrow> addr \<Rightarrow> 'w pb_ostream_t \<Rightarrow> 'w enc_result" where
  "encode_unpacked_item E enc field p s =
     and_then (Some (pb_encode_tag_for_field s field)) (\<lambda>s1.
       if PB_ATYPE (ftype field) = PB_ATYPE_POINTER \<and>
          (PB_LTYPE (ftype field) = PB_LTYPE_STRING \<or> PB_LTYPE (ftype field) = PB_LTYPE_BYTES)
       then PB_ENCODERS E enc field (load_ptr (ee_mem E) p) s1
       else PB_ENCODERS E enc field p s1)"

definition encode_array ::
  "'w enc_env \<Rightarrow> 'w msg_encoder \<Rightarrow> pb_field_t \<Rightarrow> addr \<Rightarrow> u64 \<Rightarrow> 'w pb_ostream_t \<Rightarrow>
   'w enc_result" where
  "encode_array E enc field p count s =
     (if count = 0 then Some (True, s)
      else if PB_ATYPE (ftype field) \<noteq> PB_ATYPE_POINTER \<and> count > ucast (array_size field)
      then Some (False, os_set_error s ''array max size exceeded'')
      else if is_packable field then
        and_then (Some (pb_encode_tag s PB_WT_STRING (tag field))) (\<lambda>s1.
          (case packed_array_size E enc field p count (os_world s1) of
             None \<Rightarrow> None
           | Some (False, _) \<Rightarrow> Some (False, s1)
           | Some (True, sz) \<Rightarrow>
               and_then (Some (pb_encode_varint s1 sz)) (\<lambda>s2.
                 (case os_callback s2 of
                    Null_callback \<Rightarrow> Some (pb_write s2 [] sz)
                  | _ \<Rightarrow> encode_items (unat count) (PB_ENCODERS E enc field)
                           (ucast (data_size field)) p s2))))
      else encode_items (unat count) (encode_unpacked_item E enc field)
             (ucast (data_size field)) p s)"

subsection \<open>The proto3 default check\<close>

text \<open>The walk over the fields of a submessage: false as soon as one is not default.\<close>

primrec proto3_fields_default ::
  "nat \<Rightarrow> (pb_field_t \<Rightarrow> addr \<Rightarrow> bool option) \<Rightarrow> pb_field_iter_t \<Rightarrow> bool option" where
  "proto3_fields_default 0 chk it = None"
| "proto3_fields_default (Suc n) chk it =
     (case chk (cur_field it) (pData it) of
        None \<Rightarrow> None
      | Some False \<Rightarrow> Some False
      | Some True \<Rightarrow>
          (case pb_field_iter_next it of
             (True, it') \<Rightarrow> proto3_fields_default n chk it'
           | (False, _) \<Rightarrow> Some True))"

definition all_zero :: "mem \<Rightarrow> addr \<Rightarrow> u32 \<Rightarrow> bool" where
  "all_zero m p sz = list_all (\<lambda>b. b = 0) (load_bytes m p (unat sz))"

definition check_proto3_singular ::
  "'w enc_env \<Rightarrow> (pb_field_t \<Rightarrow> addr \<Rightarrow> bool option) \<Rightarrow> pb_field_t \<Rightarrow> addr \<Rightarrow> bool option" where
  "check_proto3_singular E chk field p =
     (let m = ee_mem E; lt = PB_LTYPE (ftype field) in
      if PB_ATYPE (ftype field) = PB_ATYPE_STATIC \<and> lt = PB_LTYPE_BYTES
      then Some (load_u32 m p = 0)
      else if PB_ATYPE (ftype field) = PB_ATYPE_STATIC \<and> lt = PB_LTYPE_STRING
      then Some (m p = 0)
      else if PB_ATYPE (ftype field) = PB_ATYPE_STATIC \<and> lt = PB_LTYPE_FIXED_LENGTH_BYTES
      then Some (data_size field = 0)
      else if PB_ATYPE (ftype field) = PB_ATYPE_STATIC \<and> lt = PB_LTYPE_SUBMESSAGE
      then (let fs = ee_fields E (fptr field) in
            case pb_field_iter_begin fs p of
              (False, _) \<Rightarrow> Some True
            | (True, it) \<Rightarrow> proto3_fields_default (length fs) chk it)
      else Some (all_zero m p (data_size field)))"

primrec pb_check_proto3_default_value ::
  "nat \<Rightarrow> 'w enc_env \<Rightarrow> pb_field_t \<Rightarrow> addr \<Rightarrow> bool option" where
  "pb_check_proto3_default_value 0 E field p = None"
| "pb_check_proto3_default_value (Suc n) E field p =
     (let ht = PB_HTYPE (ftype field); ps = add_soffset p (size_offset field) in
      if ht = PB_HTYPE_REQUIRED then Some False
      else if ht = PB_HTYPE_REPEATED then Some (load_u32 (ee_mem E) ps = 0)
      else if ht = PB_HTYPE_ONEOF then Some (load_u32 (ee_mem E) ps = 0)
      else if ht = PB_HTYPE_OPTIONAL \<and> size_offset field \<noteq> 0
      then Some (ee_mem E ps = 0)
      else check_proto3_singular E (pb_check_proto3_default_value n E) field p)"

subsection \<open>Single fields\<close>

text \<open>
  \<open>implicit_has\<close> before the pointer case, then the value of \<^verbatim>\<open>*(const bool*)pSize\<close>: the
  has-flag in memory if the descriptor has one, else \<open>implicit_has\<close>.
\<close>

definition encode_basic_field ::
  "nat \<Rightarrow> 'w enc_env \<Rightarrow> 'w msg_encoder \<Rightarrow> pb_field_t \<Rightarrow> addr \<Rightarrow> 'w pb_ostream_t \<Rightarrow>
   'w enc_result" where
  "encode_basic_field n E enc field p0 s =
     (let m = ee_mem E; ht = PB_HTYPE (ftype field);
          has_size = (size_offset field \<noteq> 0);
          ps = add_soffset p0 (size_offset field)
      in case (if has_size then Some True
               else if ht = PB_HTYPE_OPTIONAL
               then map_option Not (pb_check_proto3_default_value n E field p0)
               else Some True) of
           None \<Rightarrow> None
         | Some implicit0 \<Rightarrow>
           (let is_ptr = (PB_ATYPE (ftype field) = PB_ATYPE_POINTER);
                p = (if is_ptr then load_ptr m p0 else p0);
                implicit_has = (if is_ptr then p \<noteq> 0 else implicit0)
            in if ht = PB_HTYPE_REQUIRED then
                 (if p = 0 then Some (False, os_set_error s ''missing required field'')
                  else and_then (Some (pb_encode_tag_for_field s field))
                         (PB_ENCODERS E enc field p))
               else if ht = PB_HTYPE_OPTIONAL then
                 (if (if has_size then m ps \<noteq> 0 else implicit_has)
                  then and_then (Some (pb_encode_tag_for_field s field))
                         (PB_ENCODERS E enc field p)
                  else Some (True, s))
               else if ht = PB_HTYPE_REPEATED then
                 encode_array E enc field p
                   (ucast (if has_size then load_u32 m ps else array_size field)) s
               else if ht = PB_HTYPE_ONEOF then
                 (if \<not> has_size then None
                  else if load_u32 m ps = tag field
                  then and_then (Some (pb_encode_tag_for_field s field))
                         (PB_ENCODERS E enc field p)
                  else Some (True, s))
               else Some (False, os_set_error s ''invalid field type'')))"

text \<open>\<^verbatim>\<open>pb_callback_t\<close>: the function pointer at offset 0, \<open>arg\<close> at offset 8.\<close>

definition encode_callback_field ::
  "'w enc_env \<Rightarrow> pb_field_t \<Rightarrow> addr \<Rightarrow> 'w pb_ostream_t \<Rightarrow> bool \<times> 'w pb_ostream_t" where
  "encode_callback_field E field p s =
     (let fn = load_ptr (ee_mem E) p in
      if fn \<noteq> 0 then
        (case ee_callback E fn field (p + 8) s of
           (False, s1) \<Rightarrow> (False, os_set_error s1 ''callback error'')
         | (True, s1) \<Rightarrow> (True, s1))
      else (True, s))"

definition encode_field ::
  "nat \<Rightarrow> 'w enc_env \<Rightarrow> 'w msg_encoder \<Rightarrow> pb_field_t \<Rightarrow> addr \<Rightarrow> 'w pb_ostream_t \<Rightarrow>
   'w enc_result" where
  "encode_field n E enc field p s =
     (let at = PB_ATYPE (ftype field) in
      if at = PB_ATYPE_STATIC \<or> at = PB_ATYPE_POINTER then encode_basic_field n E enc field p s
      else if at = PB_ATYPE_CALLBACK then Some (encode_callback_field E field p s)
      else Some (False, os_set_error s ''invalid field type''))"

subsection \<open>Extensions\<close>

text \<open>
  \<^verbatim>\<open>pb_extension_t\<close>: \<open>type\<close>, \<open>dest\<close>, \<open>next\<close>, \<open>found\<close> at offsets 0, 8, 16, 24;
  \<^verbatim>\<open>pb_extension_type_t\<close>: \<open>decode\<close>, \<open>encode\<close>, \<open>arg\<close> at offsets 0, 8, 16.
\<close>

definition default_extension_encoder ::
  "nat \<Rightarrow> 'w enc_env \<Rightarrow> 'w msg_encoder \<Rightarrow> addr \<Rightarrow> 'w pb_ostream_t \<Rightarrow> 'w enc_result" where
  "default_extension_encoder n E enc ext s =
     (let m = ee_mem E; field = ee_fields E (load_ptr m (load_ptr m ext + 16)) ! 0 in
      if PB_ATYPE (ftype field) = PB_ATYPE_POINTER
      then encode_field n E enc field (ext + 8) s
      else encode_field n E enc field (load_ptr m (ext + 8)) s)"

primrec encode_extension_list ::
  "nat \<Rightarrow> nat \<Rightarrow> 'w enc_env \<Rightarrow> 'w msg_encoder \<Rightarrow> addr \<Rightarrow> 'w pb_ostream_t \<Rightarrow> 'w enc_result" where
  "encode_extension_list 0 n E enc ext s = None"
| "encode_extension_list (Suc k) n E enc ext s =
     (if ext = 0 then Some (True, s)
      else (let m = ee_mem E; fn = load_ptr m (load_ptr m ext + 8) in
        and_then (if fn \<noteq> 0 then Some (ee_ext_encode E fn ext s)
                  else default_extension_encoder n E enc ext s)
          (encode_extension_list k n E enc (load_ptr m (ext + 16)))))"

definition encode_extension_field ::
  "nat \<Rightarrow> 'w enc_env \<Rightarrow> 'w msg_encoder \<Rightarrow> addr \<Rightarrow> 'w pb_ostream_t \<Rightarrow> 'w enc_result" where
  "encode_extension_field n E enc p s =
     encode_extension_list (Suc n) n E enc (load_ptr (ee_mem E) p) s"

subsection \<open>Messages\<close>

primrec encode_fields ::
  "nat \<Rightarrow> (pb_field_t \<Rightarrow> addr \<Rightarrow> 's \<Rightarrow> (bool \<times> 's) option) \<Rightarrow> pb_field_iter_t \<Rightarrow> 's \<Rightarrow>
   (bool \<times> 's) option" where
  "encode_fields 0 encf it s = None"
| "encode_fields (Suc k) encf it s =
     and_then (encf (cur_field it) (pData it) s) (\<lambda>s1.
       (case pb_field_iter_next it of
          (True, it') \<Rightarrow> encode_fields k encf it' s1
        | (False, _) \<Rightarrow> Some (True, s1)))"

definition encode_message ::
  "nat \<Rightarrow> 'w enc_env \<Rightarrow> 'w msg_encoder \<Rightarrow> pb_field_t list \<Rightarrow> addr \<Rightarrow> 'w pb_ostream_t \<Rightarrow>
   'w enc_result" where
  "encode_message n E enc fs src s =
     (case pb_field_iter_begin fs src of
        (False, _) \<Rightarrow> Some (True, s)
      | (True, it) \<Rightarrow>
          encode_fields (length fs)
            (\<lambda>field p. if PB_LTYPE (ftype field) = PB_LTYPE_EXTENSION
                       then encode_extension_field n E enc p
                       else encode_field n E enc field p) it s)"

primrec pb_encode :: "nat \<Rightarrow> 'w enc_env \<Rightarrow> 'w msg_encoder" where
  "pb_encode 0 E = (\<lambda>fs src s. None)"
| "pb_encode (Suc n) E = encode_message n E (pb_encode n E)"

definition pb_encode_delimited :: "nat \<Rightarrow> 'w enc_env \<Rightarrow> 'w msg_encoder" where
  "pb_encode_delimited n E fs src s = pb_encode_submessage (pb_encode n E) fs src s"

definition pb_encode_nullterminated :: "nat \<Rightarrow> 'w enc_env \<Rightarrow> 'w msg_encoder" where
  "pb_encode_nullterminated n E fs src s =
     and_then (pb_encode n E fs src s) (\<lambda>s1. Some (pb_write s1 [0] 1))"

text \<open>\<^const>\<open>None\<close> inside: the function returned false.\<close>

definition pb_get_encoded_size ::
  "nat \<Rightarrow> 'w enc_env \<Rightarrow> pb_field_t list \<Rightarrow> addr \<Rightarrow> 'w \<Rightarrow> u64 option option" where
  "pb_get_encoded_size n E fs src w =
     (case pb_encode n E fs src (PB_OSTREAM_SIZING w) of
        None \<Rightarrow> None
      | Some (ok, s) \<Rightarrow> Some (if ok then Some (bytes_written s) else None))"

end
