(* ===== verification/Wire_Spec.thy ===== *)
theory Wire_Spec
  imports Prelude
begin

unbundle bit_operations_syntax

text \<open>
  The protocol-buffer wire format as it is documented, on lists of bytes and natural
  numbers: the reference that the readers and writers of nanopb are proved against.
  A varint is a little-endian base-128 numeral whose digits carry a continuation bit, a
  zig-zag number interleaves the signs, a key is a field number and a wire type.
\<close>

subsection \<open>Base-128 varints\<close>

fun varint_bytes :: "nat \<Rightarrow> byte list" where
  "varint_bytes n =
     (if n < 128 then [of_nat n] else of_nat (128 + n mod 128) # varint_bytes (n div 128))"

declare varint_bytes.simps [simp del]

primrec varint_val :: "byte list \<Rightarrow> nat" where
  "varint_val [] = 0"
| "varint_val (b # bs) = unat b mod 128 + 128 * varint_val bs"

text \<open>The bytes of the varint at the front of a list, and what follows it.\<close>

primrec split_varint :: "byte list \<Rightarrow> (byte list \<times> byte list) option" where
  "split_varint [] = None"
| "split_varint (b # bs) =
     (if unat b < 128 then Some ([b], bs)
      else case split_varint bs of None \<Rightarrow> None | Some (vs, r) \<Rightarrow> Some (b # vs, r))"

subsection \<open>Zig-zag numbers and keys\<close>

definition zigzag :: "int \<Rightarrow> nat" where
  "zigzag i = (if i < 0 then nat (- 2 * i - 1) else nat (2 * i))"

definition unzigzag :: "nat \<Rightarrow> int" where
  "unzigzag n = (if even n then int (n div 2) else - int (n div 2) - 1)"

definition key_val :: "nat \<Rightarrow> nat \<Rightarrow> nat" where
  "key_val field_number wt = 8 * field_number + wt"

subsection \<open>Facts\<close>

lemma unzigzag_zigzag: "unzigzag (zigzag i) = i"
proof (cases "i < 0")
  case True
  define k where "k = nat (- i - 1)"
  have "- 2 * i - 1 = int (Suc (2 * k))" and i: "i = - int k - 1"
    using True by (auto simp: k_def)
  then have "zigzag i = Suc (2 * k)" using True by (simp only: zigzag_def if_True nat_int)
  then show ?thesis by (simp add: i unzigzag_def)
next
  case False
  define k where "k = nat i"
  have "2 * i = int (2 * k)" and i: "i = int k" using False by (auto simp: k_def)
  then have "zigzag i = 2 * k" using False by (simp only: zigzag_def if_False nat_int)
  then show ?thesis by (simp add: i unzigzag_def)
qed

lemma zigzag_nonneg: "zigzag (int n) = 2 * n"
  by (simp add: zigzag_def nat_eq_iff)

lemma zigzag_neg: "n < m \<Longrightarrow> zigzag (int n - int m) = 2 * (m - n) - 1"
  by (simp add: zigzag_def nat_eq_iff of_nat_diff)

lemma zigzag_bound: "- (2 ^ k) \<le> i \<Longrightarrow> i < 2 ^ k \<Longrightarrow> zigzag i < 2 ^ Suc k"
  by (auto simp: zigzag_def nat_less_iff)

lemma varint_bytes_not_Nil [simp]: "varint_bytes n \<noteq> []"
  by (subst varint_bytes.simps) simp

lemma unat_cont_byte: "unat (of_nat (128 + n mod 128) :: byte) = 128 + n mod 128"
  by (rule unat_of_nat_small) simp

lemma varint_val_bytes [simp]: "varint_val (varint_bytes n) = n"
proof (induction n rule: varint_bytes.induct)
  case (1 n)
  show ?case
  proof (cases "n < 128")
    case True
    then show ?thesis by (subst varint_bytes.simps) (simp add: unat_of_nat_small)
  next
    case False
    then show ?thesis
      using 1 by (subst varint_bytes.simps) (simp only: varint_val.simps unat_cont_byte if_False, simp)
  qed
qed

lemma split_varint_bytes [simp]:
  "split_varint (varint_bytes n @ r) = Some (varint_bytes n, r)"
proof (induction n rule: varint_bytes.induct)
  case (1 n)
  show ?case
  proof (cases "n < 128")
    case True
    then show ?thesis by (subst (1 2) varint_bytes.simps) (simp add: unat_of_nat_small)
  next
    case False
    then show ?thesis
      using 1
      by (subst (1 2) varint_bytes.simps)
        (simp only: append_Cons split_varint.simps unat_cont_byte if_False, simp)
  qed
qed

lemma length_varint_bytes_le: "n < 128 ^ k \<Longrightarrow> 0 < k \<Longrightarrow> length (varint_bytes n) \<le> k"
proof (induction k arbitrary: n)
  case 0
  then show ?case by simp
next
  case (Suc k)
  show ?case
  proof (cases "n < 128")
    case True
    then show ?thesis by (subst varint_bytes.simps) simp
  next
    case False
    with Suc.prems have "n div 128 < 128 ^ k" and "0 < k"
      by (auto simp: less_mult_imp_div_less mult.commute intro!: gr0I)
    with False Suc.IH show ?thesis by (subst varint_bytes.simps) simp
  qed
qed

lemma length_varint_bytes_gt: "128 ^ k \<le> n \<Longrightarrow> k < length (varint_bytes n)"
proof (induction k arbitrary: n)
  case 0
  then show ?case by simp
next
  case (Suc k)
  then have "128 ^ k \<le> n div 128"
    by (simp add: less_eq_div_iff_mult_less_eq mult.commute)
  moreover from this have "\<not> n < 128" by (auto intro: ccontr)
  ultimately show ?case using Suc.IH by (subst varint_bytes.simps) simp
qed

lemma varint_val_less: "varint_val bs < 128 ^ length bs"
proof (induction bs)
  case Nil
  then show ?case by simp
next
  case (Cons b bs)
  have "unat b mod 128 + 128 * varint_val bs < 128 * (1 + varint_val bs)"
    by (simp add: add.commute)
  also have "\<dots> \<le> 128 * 128 ^ length bs" using Cons by simp
  finally show ?case by simp
qed

lemma split_varint_append:
  "split_varint bs = Some (vs, r) \<Longrightarrow> bs = vs @ r \<and> vs \<noteq> []"
  by (induction bs arbitrary: vs) (auto split: if_splits option.splits)

lemma split_varint_shape:
  "split_varint bs = Some (vs, r) \<Longrightarrow>
     unat (last vs) < 128 \<and> (\<forall>b \<in> set (butlast vs). 128 \<le> unat b)"
proof (induction bs arbitrary: vs)
  case Nil
  then show ?case by simp
next
  case (Cons b bs)
  show ?case
  proof (cases "unat b < 128")
    case True
    then show ?thesis using Cons.prems by auto
  next
    case False
    then obtain ws where "split_varint bs = Some (ws, r)" "vs = b # ws"
      using Cons.prems by (auto split: option.splits)
    moreover from this have "ws \<noteq> []" by (auto dest: split_varint_append)
    ultimately show ?thesis using Cons.IH [of ws] False by auto
  qed
qed

end
