(* ===== verification/Pb_Wire_Write.thy ===== *)
theory Pb_Wire_Write
  imports Pb_Ostream Byte_Sink Wire_Spec
begin

unbundle bit_operations_syntax

text \<open>
  The output stream of nanopb provides the sink interface, and its writers emit the
  wire format: each primitive of \<^verbatim>\<open>pb_encode.c\<close> is shown to append exactly the bytes of
  \<open>Wire_Spec\<close>, in one block, or to fail with the stream full.
\<close>

subsection \<open>Streams as sinks\<close>

text \<open>A plain stream writes to a buffer or just counts, and has no error yet.\<close>

definition plain_ostream :: "'w pb_ostream_t \<Rightarrow> bool" where
  "plain_ostream s = (os_errmsg s = None \<and>
     (case os_callback s of Null_callback \<Rightarrow> True
      | Buf_write \<Rightarrow> bytes_written s \<le> os_max_size s | Ostream_user _ \<Rightarrow> False))"

definition short_ostream :: "'w pb_ostream_t \<Rightarrow> nat \<Rightarrow> bool" where
  "short_ostream s n = (unat (bytes_written s) + n < 2 ^ 64)"

definition room_ostream :: "'w pb_ostream_t \<Rightarrow> nat \<Rightarrow> bool" where
  "room_ostream s n = (case os_callback s of
     Buf_write \<Rightarrow> unat (bytes_written s) + n \<le> unat (os_max_size s) | _ \<Rightarrow> True)"

definition emit_ostream :: "'w pb_ostream_t \<Rightarrow> byte list \<Rightarrow> 'w pb_ostream_t" where
  "emit_ostream s bs = s\<lparr>
     os_out := (case os_callback s of Buf_write \<Rightarrow> os_out s @ bs | _ \<Rightarrow> os_out s),
     bytes_written := bytes_written s + of_nat (length bs)\<rparr>"

lemmas ostream_sink_defs =
  plain_ostream_def short_ostream_def room_ostream_def emit_ostream_def

lemma emit_ostream_frame [simp]:
  "os_callback (emit_ostream s bs) = os_callback s"
  "os_max_size (emit_ostream s bs) = os_max_size s"
  "os_errmsg (emit_ostream s bs) = os_errmsg s"
  "os_world (emit_ostream s bs) = os_world s"
  "bytes_written (emit_ostream s bs) = bytes_written s + of_nat (length bs)"
  by (simp_all add: emit_ostream_def)

lemma unat_bytes_written_emit:
  "short_ostream s (length bs) \<Longrightarrow>
   unat (bytes_written (emit_ostream s bs)) = unat (bytes_written s) + length bs"
  by (simp add: short_ostream_def unat_word_ariths unat_of_nat take_bit_eq_mod)

interpretation os: byte_sink plain_ostream short_ostream room_ostream emit_ostream
proof
  fix s :: "'w pb_ostream_t" and a b :: "byte list" and n :: nat
  show "plain_ostream s \<Longrightarrow> room_ostream s 0"
    by (auto simp: plain_ostream_def room_ostream_def word_le_nat_alt
        split: ostream_callback.splits)
  show "emit_ostream s [] = s"
    by (simp add: emit_ostream_def split: ostream_callback.splits)
  show "emit_ostream (emit_ostream s a) b = emit_ostream s (a @ b)"
    by (simp add: emit_ostream_def split: ostream_callback.splits)
  show "plain_ostream s \<Longrightarrow> short_ostream s (length a) \<Longrightarrow> room_ostream s (length a) \<Longrightarrow>
      plain_ostream (emit_ostream s a)"
    using unat_bytes_written_emit [of s a]
    by (auto simp: plain_ostream_def room_ostream_def word_le_nat_alt
        split: ostream_callback.splits)
  show "short_ostream s (length a + n) \<Longrightarrow>
      short_ostream s (length a) \<and> short_ostream (emit_ostream s a) n"
    using unat_bytes_written_emit [of s a] by (auto simp: short_ostream_def)
  show "plain_ostream s \<Longrightarrow> short_ostream s (length a + n) \<Longrightarrow>
      room_ostream s (length a + n) \<longleftrightarrow>
      room_ostream s (length a) \<and> room_ostream (emit_ostream s a) n"
    using unat_bytes_written_emit [of s a]
    by (auto simp: room_ostream_def short_ostream_def split: ostream_callback.splits)
qed

subsection \<open>Blocks\<close>

lemma pb_write_emits:
  assumes "length bs < 2 ^ 64"
  shows "os.emits (\<lambda>s. Some (pb_write s bs (of_nat (length bs)))) (True, bs)"
proof (rule os.emitsI)
  fix s :: "'w pb_ostream_t"
  assume s: "plain_ostream s" "short_ostream s (length bs)" "room_ostream s (length bs)"
  show "Some (pb_write s bs (of_nat (length bs))) = Some (True, emit_ostream s bs)"
    using s assms unat_bytes_written_emit [OF s(2)]
    by (auto simp: pb_write_def ostream_callback_call_def buf_write_def plain_ostream_def
        room_ostream_def emit_ostream_def word_less_nat_alt unat_of_nat_small
        split: ostream_callback.splits)
next
  fix s :: "'w pb_ostream_t"
  assume s: "plain_ostream s" "short_ostream s (length bs)"
    "\<not> (True \<and> room_ostream s (length bs))"
  show "\<exists>s'. Some (pb_write s bs (of_nat (length bs))) = Some (False, s')"
    using s assms unat_bytes_written_emit [OF s(2)]
    by (auto simp: pb_write_def plain_ostream_def room_ostream_def word_less_nat_alt
        split: ostream_callback.splits)
qed

lemma pb_write_emits_count:
  "n = of_nat (length bs) \<Longrightarrow> length bs < 2 ^ 64 \<Longrightarrow>
   os.emits (\<lambda>s. Some (pb_write s bs n)) (True, bs)"
  by (simp add: pb_write_emits)

subsection \<open>Varints\<close>

definition clear_last :: "byte list \<Rightarrow> byte list" where
  "clear_last bs = bs[length bs - 1 := bs ! (length bs - 1) AND 0x7F]"

lemma clear_last_Cons: "bs \<noteq> [] \<Longrightarrow> clear_last (b # bs) = b # clear_last bs"
  by (cases bs) (simp_all add: clear_last_def)

lemma length_clear_last [simp]: "length (clear_last bs) = length bs"
  by (simp add: clear_last_def)

lemma digit_or_0x80: "k < 128 \<Longrightarrow> of_nat k OR (0x80 :: byte) = of_nat (128 + k)"
proof -
  assume k: "k < 128"
  then have "take_bit 7 (of_nat k :: byte) = of_nat k"
    by (intro take_bit_idI) (simp add: unat_of_nat_small)
  from or_push_bit_eq_add [OF this, of 1] show ?thesis by (simp add: push_bit_eq_mult)
qed

lemma digit_or_and:
  assumes "k < 128"
  shows "(of_nat k OR 0x80) AND 0x7F = (of_nat k :: byte)"
proof -
  have "unat (of_nat (128 + k) :: byte) = 128 + k"
    by (rule unat_of_nat_small) (use assms in simp)
  then have "unat ((of_nat k OR 0x80) AND 0x7F :: byte) = (128 + k) mod 128"
    by (simp only: digit_or_0x80 [OF assms] unat_and_0x7F)
  then have "unat ((of_nat k OR 0x80) AND 0x7F :: byte) = k" using assms by simp
  then show ?thesis by (metis of_nat_unat ucast_id)
qed

lemma ucast_low_digit: "ucast ((v :: u64) AND 0x7F) = (of_nat (unat v mod 128) :: byte)"
proof (rule ucast_of_unat)
  have "v AND 0x7F = take_bit 7 v" by (simp add: take_bit_eq_mask mask_eq_exp_minus_1)
  then have "unat (v AND 0x7F) = take_bit 7 (unat v)" by (simp only: unsigned_take_bit_eq)
  then show "unat (v AND 0x7F) = unat v mod 128" by (simp add: take_bit_eq_mod)
qed

lemma unat_drop_7: "unat (drop_bit 7 (v :: u64)) = unat v div 128"
  by (simp only: unat_drop_bit_eq) (simp add: drop_bit_eq_div)

lemma varint_buffer_eq_Nil: "varint_buffer v = [] \<longleftrightarrow> v = 0"
  by (subst varint_buffer.simps) simp

lemma clear_last_varint_buffer:
  "v \<noteq> 0 \<Longrightarrow> clear_last (varint_buffer v) = varint_bytes (unat v)"
proof (induction v rule: varint_buffer.induct)
  case (1 v)
  have digit: "unat v mod 128 < 128" by simp
  have head: "varint_buffer v =
      of_nat (128 + unat v mod 128) # varint_buffer (drop_bit 7 v)"
    using 1(2) by (subst varint_buffer.simps) (simp only: ucast_low_digit digit_or_0x80 [OF digit] if_False)
  show ?case
  proof (cases "unat v < 128")
    case True
    then have "unat (drop_bit 7 v) = 0" by (simp only: unat_drop_7 div_less)
    then have "varint_buffer (drop_bit 7 v) = []" by (simp add: varint_buffer_eq_Nil unat_eq_0)
    moreover have "of_nat (128 + unat v) AND (0x7F :: byte) = of_nat (unat v)"
      using digit_or_and [OF True] by (simp only: digit_or_0x80 [OF True])
    ultimately show ?thesis
      using True unfolding head by (subst varint_bytes.simps) (simp add: clear_last_def)
  next
    case False
    then have "unat (drop_bit 7 v) \<noteq> 0" by (simp add: unat_drop_7 div_eq_0_iff)
    then have nz: "drop_bit 7 v \<noteq> 0" by auto
    then have "varint_buffer (drop_bit 7 v) \<noteq> []" by (simp only: varint_buffer_eq_Nil not_False_eq_True)
    then show ?thesis
      unfolding head using False 1(1) [OF 1(2) nz]
      by (subst varint_bytes.simps) (simp only: clear_last_Cons unat_drop_7 if_False not_False_eq_True)
  qed
qed

lemma length_varint_bytes_u64: "length (varint_bytes (unat (v :: u64))) \<le> 10"
  by (rule length_varint_bytes_le) (use u64_less [of v] in simp_all)

text \<open>The two cases of \<^verbatim>\<open>pb_encode_varint\<close> write the same numeral in one block.\<close>

lemma pb_encode_varint_eq:
  "pb_encode_varint s v =
   pb_write s (varint_bytes (unat v)) (of_nat (length (varint_bytes (unat v))))"
proof (cases "v \<le> 0x7F")
  case True
  then have "unat v < 128" by (simp add: word_le_nat_alt)
  then have "varint_bytes (unat v) = [ucast v]"
    by (subst varint_bytes.simps) simp
  then show ?thesis using True by (simp add: pb_encode_varint_def)
next
  case False
  then have "v \<noteq> 0" by auto
  from clear_last_varint_buffer [OF this]
  have "varint_bytes (unat v) = clear_last (varint_buffer v)" by simp
  then show ?thesis
    using False by (simp add: pb_encode_varint_def Let_def) (simp add: clear_last_def)
qed

lemma pb_encode_varint_emits:
  "os.emits (\<lambda>s. Some (pb_encode_varint s v)) (True, varint_bytes (unat v))"
proof -
  have "length (varint_bytes (unat v)) < 2 ^ 64"
    using length_varint_bytes_u64 [of v] by simp
  then show ?thesis by (simp only: pb_encode_varint_eq pb_write_emits)
qed

subsection \<open>Zig-zag, fixed-width integers, tags and strings\<close>

text \<open>The \<open>n\<close> little-endian bytes C writes with shifts and masks.\<close>

lemma ucast_and_0xFF: "ucast (w AND 0xFF) = (ucast (w :: 'a::len word) :: byte)"
proof (rule bit_word_eqI)
  fix i assume i: "i < LENGTH(8)"
  have "(0xFF :: 'a word) = mask 8" by (simp add: mask_eq_exp_minus_1)
  then show "bit (ucast (w AND 0xFF) :: byte) i = bit (ucast w :: byte) i"
    using i by (simp only: flip: take_bit_eq_mask) (auto simp: bit_simps)
qed

lemma pb_encode_fixed32_eq: "pb_encode_fixed32 s v = pb_write s (word_to_bytes 4 v) 4"
  by (simp add: pb_encode_fixed32_def ucast_and_0xFF numeral_eq_Suc)

lemma pb_encode_fixed64_eq: "pb_encode_fixed64 s v = pb_write s (word_to_bytes 8 v) 8"
  by (simp add: pb_encode_fixed64_def ucast_and_0xFF numeral_eq_Suc)

lemma pb_encode_fixed32_emits:
  "os.emits (\<lambda>s. Some (pb_encode_fixed32 s v)) (True, word_to_bytes 4 v)"
  unfolding pb_encode_fixed32_eq by (rule pb_write_emits_count) simp_all

lemma pb_encode_fixed64_emits:
  "os.emits (\<lambda>s. Some (pb_encode_fixed64 s v)) (True, word_to_bytes 8 v)"
  unfolding pb_encode_fixed64_eq by (rule pb_write_emits_count) simp_all

lemma unat_push_bit_3_or:
  assumes "unat wt < 8"
  shows "unat (push_bit 3 (ucast (n :: u32)) OR ucast (wt :: u32) :: u64) =
    key_val (unat n) (unat wt)"
proof -
  have wt: "take_bit 3 (ucast wt :: u64) = ucast wt"
    using assms by (intro take_bit_idI) (simp add: unat_ucast_up)
  have n: "unat (ucast n :: u64) = unat n"
    by (simp add: unat_ucast_up)
  have "unat (push_bit 3 (ucast n) :: u64) = 8 * unat n"
    using u32_less [of n] n by (simp add: push_bit_eq_mult unat_word_ariths mult.commute)
  moreover have "unat (ucast wt :: u64) = unat wt"
    by (simp add: unat_ucast_up)
  ultimately show ?thesis
    using or_push_bit_eq_add [OF wt, of "ucast n"] assms u32_less [of n]
    by (simp add: or.commute unat_word_ariths key_val_def)
qed

lemma pb_encode_tag_emits:
  assumes "unat wt < 8"
  shows "os.emits (\<lambda>s. Some (pb_encode_tag s wt n))
    (True, varint_bytes (key_val (unat n) (unat wt)))"
  using pb_encode_varint_emits [of "push_bit 3 (ucast n) OR ucast wt"]
  by (simp only: pb_encode_tag_def unat_push_bit_3_or [OF assms])

lemma unat_zigzag:
  fixes v :: u64
  shows "unat (if sint v < 0 then NOT (push_bit 1 v) else push_bit 1 v) = zigzag (sint v)"
proof -
  have "unat (push_bit 1 v) = (2 * unat v) mod 2 ^ 64"
    by (simp add: push_bit_eq_mult unat_word_ariths mult.commute)
  then have p: "unat (push_bit 1 v) = (if unat v < 2 ^ 63 then 2 * unat v else 2 * unat v - 2 ^ 64)"
    using u64_less [of v] by (simp add: mod_if)
  show ?thesis
  proof (cases "unat v < 2 ^ 63")
    case True
    then have s: "sint v = int (unat v)" using sint_eq_unat [of 63 v] by simp
    then have "\<not> sint v < 0" by simp
    with True p show ?thesis by (simp only: s zigzag_nonneg if_True if_False)
  next
    case False
    then have s: "sint v = int (unat v) - int (2 ^ 64)" using sint_eq_unat [of 63 v] by simp
    then have neg: "sint v < 0" using u64_less [of v] by linarith
    have "unat (NOT (push_bit 1 v)) = 2 ^ 64 - 1 - (2 * unat v - 2 ^ 64)"
      using False p by (simp only: unat_NOT if_False) simp
    also have "\<dots> = 2 * (2 ^ 64 - unat v) - 1" using False by simp
    also have "\<dots> = zigzag (sint v)" by (simp only: s zigzag_neg [OF u64_less])
    finally show ?thesis using neg by simp
  qed
qed

lemma pb_encode_svarint_emits:
  "os.emits (\<lambda>s. Some (pb_encode_svarint s v)) (True, varint_bytes (zigzag (sint v)))"
  unfolding pb_encode_svarint_def unat_zigzag [symmetric] by (rule pb_encode_varint_emits)

lemma pb_encode_string_emits:
  assumes "length bs < 2 ^ 64"
  shows "os.emits (\<lambda>s :: 'w pb_ostream_t. Some (pb_encode_string s bs (of_nat (length bs))))
    (True, varint_bytes (length bs) @ bs)"
proof -
  have len: "unat (of_nat (length bs) :: u64) = length bs"
    using assms by (simp add: unat_of_nat_small)
  have "os.emits (\<lambda>s :: 'w pb_ostream_t. and_then (Some (pb_encode_varint s (of_nat (length bs))))
      (\<lambda>s. Some (pb_write s bs (of_nat (length bs)))))
    (emitted_append (True, varint_bytes (length bs)) (True, bs))"
    using pb_encode_varint_emits [of "of_nat (length bs)"] pb_write_emits [OF assms]
    by (intro os.emits_and_then) (simp_all add: len)
  moreover have "and_then (Some (pb_encode_varint s n)) (\<lambda>s. Some (pb_write s bs n)) =
      Some (pb_encode_string s bs n)" for s :: "'w pb_ostream_t" and n
    by (simp add: pb_encode_string_def and_then_def split: prod.splits bool.splits)
  ultimately show ?thesis by simp
qed

end
