(* ===== verification/Pb_Encode_Spec.thy ===== *)
theory Pb_Encode_Spec
  imports Pb_Encode Pb_Wire_Write
begin

unbundle bit_operations_syntax

text \<open>
  What the message encoder promises: the bytes of a message are the concatenation of the
  encodings of its fields in descriptor order, a submessage or a packed array being one
  length-delimited block. The specification knows nothing of streams, of the sizing pass
  or of limited substreams; the encoder of \<open>Pb_Encode\<close> is shown to emit exactly these
  bytes on every stream, by one refinement lemma per function. The user's encoding
  callbacks enter by their contract: that they, too, emit.
\<close>

subsection \<open>The specification\<close>

type_synonym emission = "(bool \<times> byte list) option"

definition then_spec :: "emission \<Rightarrow> emission \<Rightarrow> emission" where
  "then_spec r q = (case r of None \<Rightarrow> None
     | Some p \<Rightarrow> if fst p then map_option (emitted_append p) q else Some p)"

definition delimited :: "byte list \<Rightarrow> byte list" where
  "delimited bs = varint_bytes (length bs) @ bs"

definition tag_spec :: "wire_type \<Rightarrow> u32 \<Rightarrow> byte list" where
  "tag_spec wt n = varint_bytes (key_val (unat n) (unat wt))"

definition field_tag_spec :: "pb_field_t \<Rightarrow> bool \<times> byte list" where
  "field_tag_spec field =
     (case wire_type_for_ltype (PB_LTYPE (ftype field)) of
        None \<Rightarrow> (False, []) | Some wt \<Rightarrow> (True, tag_spec wt (tag field)))"

definition integer_spec :: "u64 option \<Rightarrow> (u64 \<Rightarrow> nat) \<Rightarrow> bool \<times> byte list" where
  "integer_spec r number =
     (case r of None \<Rightarrow> (False, []) | Some v \<Rightarrow> (True, varint_bytes (number v)))"

definition c_string :: "mem \<Rightarrow> addr \<Rightarrow> u64 \<Rightarrow> byte list" where
  "c_string m src max_size =
     (if src = 0 then [] else load_bytes m src (unat (c_strnlen m src 0 max_size)))"

definition value_spec ::
  "'w enc_env \<Rightarrow> (pb_field_t list \<Rightarrow> addr \<Rightarrow> emission) \<Rightarrow> pb_field_t \<Rightarrow> addr \<Rightarrow> emission" where
  "value_spec E msg field src =
     (let lt = PB_LTYPE (ftype field); m = ee_mem E; sz = data_size field in
      if lt = PB_LTYPE_VARINT then Some (integer_spec (load_signed m src sz) unat)
      else if lt = PB_LTYPE_UVARINT then Some (integer_spec (load_unsigned m src sz) unat)
      else if lt = PB_LTYPE_SVARINT
      then Some (integer_spec (load_signed m src sz) (\<lambda>v. zigzag (sint v)))
      else if lt = PB_LTYPE_FIXED32 then Some (True, load_bytes m src 4)
      else if lt = PB_LTYPE_FIXED64 then Some (True, load_bytes m src 8)
      else if lt = PB_LTYPE_BYTES then
        (if src = 0 then Some (True, delimited [])
         else if PB_ATYPE (ftype field) = PB_ATYPE_STATIC \<and>
           unat (load_u32 m src) + 4 > unat sz then Some (False, [])
         else Some (True, delimited (load_bytes m (src + 4) (unat (load_u32 m src)))))
      else if lt = PB_LTYPE_STRING then
        Some (True, delimited (c_string m src
          (if PB_ATYPE (ftype field) = PB_ATYPE_POINTER then - 1 else ucast sz)))
      else if lt = PB_LTYPE_SUBMESSAGE then
        (if fptr field = 0 then Some (False, [])
         else map_option (\<lambda>(ok, bs). (ok, if ok then delimited bs else bs))
                (msg (ee_fields E (fptr field)) src))
      else if lt = PB_LTYPE_FIXED_LENGTH_BYTES
      then Some (True, delimited (load_bytes m src (unat sz)))
      else None)"

primrec items_spec :: "nat \<Rightarrow> (addr \<Rightarrow> emission) \<Rightarrow> u64 \<Rightarrow> addr \<Rightarrow> emission" where
  "items_spec 0 f step p = Some (True, [])"
| "items_spec (Suc n) f step p = then_spec (f p) (items_spec n f step (p + step))"

definition unpacked_item_spec ::
  "'w enc_env \<Rightarrow> (pb_field_t list \<Rightarrow> addr \<Rightarrow> emission) \<Rightarrow> pb_field_t \<Rightarrow> addr \<Rightarrow> emission" where
  "unpacked_item_spec E msg field p =
     then_spec (Some (field_tag_spec field))
       (if PB_ATYPE (ftype field) = PB_ATYPE_POINTER \<and>
           (PB_LTYPE (ftype field) = PB_LTYPE_STRING \<or> PB_LTYPE (ftype field) = PB_LTYPE_BYTES)
        then value_spec E msg field (load_ptr (ee_mem E) p)
        else value_spec E msg field p)"

definition array_spec ::
  "'w enc_env \<Rightarrow> (pb_field_t list \<Rightarrow> addr \<Rightarrow> emission) \<Rightarrow> pb_field_t \<Rightarrow> addr \<Rightarrow> u32 \<Rightarrow> emission"
  where
  "array_spec E msg field p count =
     (if count = 0 then Some (True, [])
      else if PB_ATYPE (ftype field) \<noteq> PB_ATYPE_POINTER \<and> count > array_size field
      then Some (False, [])
      else if is_packable field then
        then_spec (Some (True, tag_spec PB_WT_STRING (tag field)))
          (map_option (\<lambda>(ok, bs). (ok, if ok then delimited bs else bs))
            (items_spec (unat count) (value_spec E msg field) (ucast (data_size field)) p))
      else items_spec (unat count) (unpacked_item_spec E msg field)
             (ucast (data_size field)) p)"

definition basic_field_spec ::
  "nat \<Rightarrow> 'w enc_env \<Rightarrow> (pb_field_t list \<Rightarrow> addr \<Rightarrow> emission) \<Rightarrow> pb_field_t \<Rightarrow> addr \<Rightarrow> emission"
  where
  "basic_field_spec n E msg field p0 =
     (let m = ee_mem E; ht = PB_HTYPE (ftype field);
          has_size = (size_offset field \<noteq> 0);
          ps = add_soffset p0 (size_offset field);
          is_ptr = (PB_ATYPE (ftype field) = PB_ATYPE_POINTER);
          p = (if is_ptr then load_ptr m p0 else p0);
          single = then_spec (Some (field_tag_spec field)) (value_spec E msg field p)
      in if ht = PB_HTYPE_REQUIRED then (if p = 0 then Some (False, []) else single)
         else if ht = PB_HTYPE_OPTIONAL then
           (case (if has_size then Some (m ps \<noteq> 0)
                  else case pb_check_proto3_default_value n E field p0 of
                    None \<Rightarrow> None | Some d \<Rightarrow> Some (if is_ptr then p \<noteq> 0 else \<not> d)) of
              None \<Rightarrow> None
            | Some present \<Rightarrow> if present then single else Some (True, []))
         else if ht = PB_HTYPE_REPEATED then
           array_spec E msg field p (if has_size then load_u32 m ps else array_size field)
         else if \<not> has_size then None
         else if load_u32 m ps = tag field then single else Some (True, []))"

text \<open>The contract of the user's code: the bytes a callback or an extension emits.\<close>

type_synonym callback_spec = "addr \<Rightarrow> pb_field_t \<Rightarrow> addr \<Rightarrow> bool \<times> byte list"
type_synonym ext_spec = "addr \<Rightarrow> addr \<Rightarrow> bool \<times> byte list"

definition field_spec ::
  "nat \<Rightarrow> 'w enc_env \<Rightarrow> callback_spec \<Rightarrow> (pb_field_t list \<Rightarrow> addr \<Rightarrow> emission) \<Rightarrow>
   pb_field_t \<Rightarrow> addr \<Rightarrow> emission" where
  "field_spec n E cb msg field p =
     (let at = PB_ATYPE (ftype field); fn = load_ptr (ee_mem E) p in
      if at = PB_ATYPE_STATIC \<or> at = PB_ATYPE_POINTER then basic_field_spec n E msg field p
      else if at = PB_ATYPE_CALLBACK
      then Some (if fn \<noteq> 0 then cb fn field (p + 8) else (True, []))
      else Some (False, []))"

primrec extension_list_spec ::
  "nat \<Rightarrow> nat \<Rightarrow> 'w enc_env \<Rightarrow> callback_spec \<Rightarrow> ext_spec \<Rightarrow>
   (pb_field_t list \<Rightarrow> addr \<Rightarrow> emission) \<Rightarrow> addr \<Rightarrow> emission" where
  "extension_list_spec 0 n E cb xt msg ext = None"
| "extension_list_spec (Suc k) n E cb xt msg ext =
     (if ext = 0 then Some (True, [])
      else (let m = ee_mem E; fn = load_ptr m (load_ptr m ext + 8);
                field = ee_fields E (load_ptr m (load_ptr m ext + 16)) ! 0 in
        then_spec
          (if fn \<noteq> 0 then Some (xt fn ext)
           else if PB_ATYPE (ftype field) = PB_ATYPE_POINTER
           then field_spec n E cb msg field (ext + 8)
           else field_spec n E cb msg field (load_ptr m (ext + 8)))
          (extension_list_spec k n E cb xt msg (load_ptr m (ext + 16)))))"

primrec concat_spec :: "emission list \<Rightarrow> emission" where
  "concat_spec [] = Some (True, [])"
| "concat_spec (r # rs) = then_spec r (concat_spec rs)"

definition any_field_spec ::
  "nat \<Rightarrow> 'w enc_env \<Rightarrow> callback_spec \<Rightarrow> ext_spec \<Rightarrow>
   (pb_field_t list \<Rightarrow> addr \<Rightarrow> emission) \<Rightarrow> pb_field_t \<Rightarrow> addr \<Rightarrow> emission" where
  "any_field_spec n E cb xt msg field p =
     (if PB_LTYPE (ftype field) = PB_LTYPE_EXTENSION
      then extension_list_spec (Suc n) n E cb xt msg (load_ptr (ee_mem E) p)
      else field_spec n E cb msg field p)"

primrec message_spec ::
  "nat \<Rightarrow> 'w enc_env \<Rightarrow> callback_spec \<Rightarrow> ext_spec \<Rightarrow> pb_field_t list \<Rightarrow> addr \<Rightarrow> emission" where
  "message_spec 0 E cb xt = (\<lambda>fs src. None)"
| "message_spec (Suc n) E cb xt = (\<lambda>fs src.
     if wf_fields fs then
       concat_spec (map (\<lambda>k. any_field_spec n E cb xt (message_spec n E cb xt) (fs ! k)
                               (pData (iter_at fs src k))) [0..<n_fields fs])
     else None)"

end
