(* ===== verification/Pb_Encode_Refine.thy ===== *)
theory Pb_Encode_Refine
  imports Pb_Encode_Spec
begin

unbundle bit_operations_syntax

text \<open>
  The message encoder refines its specification: whatever \<open>message_spec\<close> says a message
  encodes to is what \<open>pb_encode\<close> emits on every stream, whether it counts or writes to a
  buffer. There is one refinement lemma per function of \<open>Pb_Encode\<close>, in the same order,
  each by composing the lemmas of the functions it calls.
\<close>

definition refines :: "('w pb_ostream_t \<Rightarrow> 'w enc_result) \<Rightarrow> emission \<Rightarrow> bool" where
  "refines op r = (\<forall>p. r = Some p \<longrightarrow> os.emits op p)"

lemma refines_None [simp]: "refines op None"
  by (simp add: refines_def)

lemma refines_Some: "refines op (Some p) = os.emits op p"
  by (simp add: refines_def)

lemma refines_and_then:
  assumes "refines op r" "refines k q"
  shows "refines (\<lambda>s. and_then (op s) k) (then_spec r q)"
proof (cases r)
  case None
  then show ?thesis by (simp add: then_spec_def)
next
  case (Some p)
  then have op: "os.emits op p" using assms(1) by (simp add: refines_def)
  show ?thesis
  proof (cases "fst p")
    case True
    show ?thesis
    proof (cases q)
      case None
      then show ?thesis using Some True by (simp add: then_spec_def)
    next
      case q: (Some q')
      then have "os.emits k q'" using assms(2) by (simp add: refines_def)
      with op have "os.emits (\<lambda>s. and_then (op s) k) (emitted_append p q')"
        by (rule os.emits_and_then)
      then show ?thesis using Some True q by (simp add: then_spec_def refines_Some)
    qed
  next
    case False
    have "os.emits (\<lambda>s. and_then (op s) k) (emitted_append p p)"
      using op False by (intro os.emits_and_then) simp_all
    then show ?thesis using Some False by (simp add: then_spec_def refines_Some emitted_append_def)
  qed
qed

lemma refines_return: "refines (\<lambda>s. Some (True, s)) (Some (True, []))"
  by (simp add: refines_Some os.emits_return)

lemma refines_error: "refines (\<lambda>s. Some (False, f s)) (Some (False, []))"
  by (simp add: refines_Some os.emits_fail)

lemma pb_encode_string_refines:
  "refines (\<lambda>s. Some (pb_encode_string s (load_bytes m a (unat n)) n))
    (Some (True, delimited (load_bytes m a (unat n))))"
  using pb_encode_string_emits [of "load_bytes m a (unat n)"] u64_less [of n]
  by (simp add: refines_Some delimited_def)

lemma field_tag_refines:
  "refines (\<lambda>s. Some (pb_encode_tag_for_field s field)) (Some (field_tag_spec field))"
proof (cases "wire_type_for_ltype (PB_LTYPE (ftype field))")
  case None
  then show ?thesis
    by (simp add: pb_encode_tag_for_field_def field_tag_spec_def refines_error)
next
  case (Some wt)
  then have "unat wt < 8"
    by (auto simp: wire_type_for_ltype_def pb_const split: if_splits)
  with Some show ?thesis
    by (simp add: pb_encode_tag_for_field_def field_tag_spec_def tag_spec_def refines_Some
        pb_encode_tag_emits)
qed

lemma tag_string_refines:
  "refines (\<lambda>s. Some (pb_encode_tag s PB_WT_STRING n)) (Some (True, tag_spec PB_WT_STRING n))"
  using pb_encode_tag_emits [of PB_WT_STRING n] by (simp add: refines_Some tag_spec_def pb_const)

subsection \<open>Length-delimited blocks\<close>

lemma plain_sizing [simp]: "plain_ostream (PB_OSTREAM_SIZING w)"
  "room_ostream (PB_OSTREAM_SIZING w) n" "short_ostream (PB_OSTREAM_SIZING w) n \<longleftrightarrow> n < 2 ^ 64"
  "bytes_written (PB_OSTREAM_SIZING w) = 0" "os_world (PB_OSTREAM_SIZING w) = w"
  by (simp_all add: PB_OSTREAM_SIZING_def ostream_sink_defs)

lemma emit_null:
  "os_callback s = Null_callback \<Longrightarrow>
   emit_ostream s bs = s\<lparr>bytes_written := bytes_written s + of_nat (length bs)\<rparr>"
  by (simp add: emit_ostream_def)

text \<open>
  A block whose length is written first: on a sizing stream the length is just added, on a
  buffer stream \<open>body\<close> writes it; both passes emit the prefix and the block.
\<close>

lemma emits_block:
  assumes body: "\<And>s. plain_ostream s \<Longrightarrow> short_ostream s (length bs) \<Longrightarrow>
    os_callback s = Buf_write \<Longrightarrow>
    if room_ostream s (length bs) then body s = Some (True, emit_ostream s bs)
    else \<exists>s'. body s = Some (False, s')"
  shows "os.emits
    (\<lambda>s. and_then (Some (pb_encode_varint s (of_nat (length bs)))) (\<lambda>s1.
       case os_callback s1 of
         Null_callback \<Rightarrow> Some (pb_write s1 [] (of_nat (length bs)))
       | _ \<Rightarrow> body s1)) (True, delimited bs)"
proof (cases "length bs < 2 ^ 64")
  case False
  then show ?thesis by (intro os.emitsI) (auto simp: delimited_def short_ostream_def)
next
  case True
  then have len: "unat (of_nat (length bs) :: u64) = length bs" by (simp add: unat_of_nat_small)
  have "os.emits (\<lambda>s1 :: 'a pb_ostream_t. case os_callback s1 of
         Null_callback \<Rightarrow> Some (pb_write s1 [] (of_nat (length bs)))
       | _ \<Rightarrow> body s1) (True, bs)"
  proof (rule os.emitsI)
    fix s :: "'a pb_ostream_t"
    assume s: "plain_ostream s" "short_ostream s (length bs)" "room_ostream s (length bs)"
    show "(case os_callback s of Null_callback \<Rightarrow> Some (pb_write s [] (of_nat (length bs)))
        | _ \<Rightarrow> body s) = Some (True, emit_ostream s bs)"
      using s body [of s]
      by (cases "os_callback s") (auto simp: pb_write_def emit_null plain_ostream_def)
  next
    fix s :: "'a pb_ostream_t"
    assume s: "plain_ostream s" "short_ostream s (length bs)"
      "\<not> (True \<and> room_ostream s (length bs))"
    show "\<exists>s'. (case os_callback s of Null_callback \<Rightarrow> Some (pb_write s [] (of_nat (length bs)))
        | _ \<Rightarrow> body s) = Some (False, s')"
      using s body [of s]
      by (cases "os_callback s") (auto simp: room_ostream_def plain_ostream_def)
  qed
  then have "os.emits (\<lambda>s. and_then (Some (pb_encode_varint s (of_nat (length bs)))) (\<lambda>s1.
       case os_callback s1 of
         Null_callback \<Rightarrow> Some (pb_write s1 [] (of_nat (length bs)))
       | _ \<Rightarrow> body s1)) (emitted_append (True, varint_bytes (length bs)) (True, bs))"
    using pb_encode_varint_emits [of "of_nat (length bs)"] by (intro os.emits_and_then) (simp_all add: len)
  then show ?thesis by (simp add: delimited_def)
qed

text \<open>The second pass of a submessage: the limited substream takes exactly the block.\<close>

definition submessage_pass ::
  "'w msg_encoder \<Rightarrow> pb_field_t list \<Rightarrow> addr \<Rightarrow> u64 \<Rightarrow> 'w pb_ostream_t \<Rightarrow> 'w enc_result" where
  "submessage_pass enc fs src sz s1 =
     (if bytes_written s1 + sz > os_max_size s1
      then Some (False, os_set_error s1 ''stream full'')
      else (case enc fs src (s1\<lparr>os_max_size := sz, bytes_written := 0, os_errmsg := None\<rparr>) of
          None \<Rightarrow> None
        | Some (status, sub2) \<Rightarrow>
            (let s2 = s1\<lparr>bytes_written := bytes_written s1 + bytes_written sub2,
                         os_out := os_out sub2, os_errmsg := os_errmsg sub2,
                         os_world := os_world sub2\<rparr>
             in if bytes_written sub2 \<noteq> sz
                then Some (False, os_set_error s2 ''submsg size changed'')
                else Some (status, s2))))"

lemma submessage_pass_buffer:
  assumes enc: "os.emits (enc fs src) (True, bs)"
    and s: "plain_ostream s" "short_ostream s (length bs)" "os_callback s = Buf_write"
  shows "submessage_pass enc fs src (of_nat (length bs)) s =
    (if room_ostream s (length bs) then Some (True, emit_ostream s bs)
     else Some (False, os_set_error s ''stream full''))"
proof -
  have sum: "unat (bytes_written s + of_nat (length bs)) = unat (bytes_written s) + length bs"
    using unat_bytes_written_emit [OF s(2)] by simp
  have len: "unat (of_nat (length bs) :: u64) = length bs"
    using s(2) by (simp add: short_ostream_def unat_of_nat_small)
  show ?thesis
  proof (cases "room_ostream s (length bs)")
    case False
    then show ?thesis
      using sum s(3) by (simp add: submessage_pass_def room_ostream_def word_less_nat_alt)
  next
    case True
    then have "\<not> bytes_written s + of_nat (length bs) > os_max_size s"
      using sum s(3) by (simp add: room_ostream_def word_less_nat_alt)
    define sub where
      "sub = s\<lparr>os_max_size := of_nat (length bs), bytes_written := 0, os_errmsg := None\<rparr>"
    have "plain_ostream sub" "short_ostream sub (length bs)" "room_ostream sub (length bs)"
      using s len by (simp_all add: sub_def ostream_sink_defs word_le_nat_alt)
    then have "enc fs src sub = Some (True, emit_ostream sub bs)"
      by (rule os.emits_success [OF enc])
    moreover have "os_errmsg s = None" using s(1) by (simp add: plain_ostream_def)
    ultimately show ?thesis
      using True s(3) \<open>\<not> bytes_written s + of_nat (length bs) > os_max_size s\<close>
      by (simp add: submessage_pass_def sub_def [symmetric] Let_def)
        (simp add: sub_def emit_ostream_def)
  qed
qed

lemma emit_sizing:
  "emit_ostream (PB_OSTREAM_SIZING w) bs =
   (PB_OSTREAM_SIZING w)\<lparr>bytes_written := of_nat (length bs)\<rparr>"
  by (simp add: PB_OSTREAM_SIZING_def emit_ostream_def)

lemma pb_encode_submessage_unfold:
  assumes "enc fs src (PB_OSTREAM_SIZING (os_world s)) = Some (True, sub)"
    and "os_world sub = os_world s" and sz: "bytes_written sub = sz"
  shows "pb_encode_submessage enc fs src s =
    and_then (Some (pb_encode_varint s sz)) (\<lambda>s1.
       case os_callback s1 of
         Null_callback \<Rightarrow> Some (pb_write s1 [] sz)
       | _ \<Rightarrow> submessage_pass enc fs src sz s1)"
proof -
  have "s\<lparr>os_world := os_world sub\<rparr> = s" using assms(2) by simp
  then show ?thesis
    unfolding pb_encode_submessage_def submessage_pass_def sz [symmetric]
    using assms(1) by (simp add: Let_def)
qed

lemma pb_encode_submessage_refines:
  assumes "refines (enc fs src) r"
  shows "refines (pb_encode_submessage enc fs src)
    (map_option (\<lambda>(ok, bs). (ok, if ok then delimited bs else bs)) r)"
proof (cases r)
  case None
  then show ?thesis by simp
next
  case (Some p)
  obtain ok bs where p: "p = (ok, bs)" by (cases p)
  have enc: "os.emits (enc fs src) (ok, bs)" using assms Some p by (simp add: refines_Some)
  show ?thesis
  proof (cases ok)
    case False
    have "os.emits (pb_encode_submessage enc fs src) (False, bs)"
    proof (rule os.emitsI)
      fix s :: "'a pb_ostream_t"
      assume "short_ostream s (length bs)"
      then have "short_ostream (PB_OSTREAM_SIZING (os_world s)) (length bs)"
        by (simp add: short_ostream_def PB_OSTREAM_SIZING_def)
      then obtain sub where "enc fs src (PB_OSTREAM_SIZING (os_world s)) = Some (False, sub)"
        using enc False os.emits_failure [of "enc fs src" bs "PB_OSTREAM_SIZING (os_world s)"]
        by auto
      then show "\<exists>s'. pb_encode_submessage enc fs src s = Some (False, s')"
        by (simp add: pb_encode_submessage_def)
    qed simp
    then show ?thesis using Some p False by (simp add: refines_Some)
  next
    case True
    have enc: "os.emits (enc fs src) (True, bs)" using enc True by simp
    have block: "os.emits (\<lambda>s. and_then (Some (pb_encode_varint s (of_nat (length bs)))) (\<lambda>s1.
       case os_callback s1 of
         Null_callback \<Rightarrow> Some (pb_write s1 [] (of_nat (length bs)))
       | _ \<Rightarrow> submessage_pass enc fs src (of_nat (length bs)) s1)) (True, delimited bs)"
      by (rule emits_block) (simp add: submessage_pass_buffer [where enc = enc and fs = fs and src = src, OF enc])
    have unfold: "pb_encode_submessage enc fs src s =
      and_then (Some (pb_encode_varint s (of_nat (length bs)))) (\<lambda>s1.
       case os_callback s1 of
         Null_callback \<Rightarrow> Some (pb_write s1 [] (of_nat (length bs)))
       | _ \<Rightarrow> submessage_pass enc fs src (of_nat (length bs)) s1)"
      if "short_ostream s (length (delimited bs))" for s :: "'a pb_ostream_t"
    proof -
      have "length bs < 2 ^ 64" using that by (simp add: short_ostream_def delimited_def)
      then have pass: "enc fs src (PB_OSTREAM_SIZING (os_world s)) =
          Some (True, (PB_OSTREAM_SIZING (os_world s))\<lparr>bytes_written := of_nat (length bs)\<rparr>)"
        using os.emits_success [OF enc, of "PB_OSTREAM_SIZING (os_world s)"]
        by (simp add: emit_sizing)
      show ?thesis
        by (rule pb_encode_submessage_unfold [where enc = enc and fs = fs and src = src, OF pass])
          simp_all
    qed
    have "os.emits (pb_encode_submessage enc fs src) (True, delimited bs)"
      using block by (simp add: os.emits_def unfold)
    then show ?thesis using Some p True by (simp add: refines_Some)
  qed
qed

subsection \<open>Values\<close>

lemma refines_If:
  "(b \<Longrightarrow> refines f p) \<Longrightarrow> (\<not> b \<Longrightarrow> refines g q) \<Longrightarrow>
   refines (\<lambda>s. if b then f s else g s) (if b then p else q)"
  by simp

lemma pb_enc_varint_refines:
  "refines (\<lambda>s. Some (pb_enc_varint m field src s))
    (Some (integer_spec (load_signed m src (data_size field)) unat))"
proof (cases "load_signed m src (data_size field)")
  case None
  then show ?thesis by (simp add: pb_enc_varint_def integer_spec_def refines_error)
next
  case (Some v)
  then show ?thesis
    using pb_encode_varint_emits [of v] by (simp add: pb_enc_varint_def integer_spec_def refines_Some)
qed

lemma pb_enc_uvarint_refines:
  "refines (\<lambda>s. Some (pb_enc_uvarint m field src s))
    (Some (integer_spec (load_unsigned m src (data_size field)) unat))"
proof (cases "load_unsigned m src (data_size field)")
  case None
  then show ?thesis by (simp add: pb_enc_uvarint_def integer_spec_def refines_error)
next
  case (Some v)
  then show ?thesis
    using pb_encode_varint_emits [of v] by (simp add: pb_enc_uvarint_def integer_spec_def refines_Some)
qed

lemma pb_enc_svarint_refines:
  "refines (\<lambda>s. Some (pb_enc_svarint m field src s))
    (Some (integer_spec (load_signed m src (data_size field)) (\<lambda>v. zigzag (sint v))))"
proof (cases "load_signed m src (data_size field)")
  case None
  then show ?thesis by (simp add: pb_enc_svarint_def integer_spec_def refines_error)
next
  case (Some v)
  then show ?thesis
    using pb_encode_svarint_emits [of v] by (simp add: pb_enc_svarint_def integer_spec_def refines_Some)
qed

lemma pb_enc_fixed32_refines:
  "refines (\<lambda>s. Some (pb_enc_fixed32 m field src s)) (Some (True, load_bytes m src 4))"
  using pb_encode_fixed32_emits [of "bytes_to_word (load_bytes m src 4)"]
  by (simp add: refines_Some pb_enc_fixed32_def word_to_bytes_to_word)

lemma pb_enc_fixed64_refines:
  "refines (\<lambda>s. Some (pb_enc_fixed64 m field src s)) (Some (True, load_bytes m src 8))"
  using pb_encode_fixed64_emits [of "bytes_to_word (load_bytes m src 8)"]
  by (simp add: refines_Some pb_enc_fixed64_def word_to_bytes_to_word)

lemma alloc_size_exceeds:
  "PB_BYTES_ARRAY_T_ALLOCSIZE (ucast (n :: u32)) > ucast (sz :: u32) \<longleftrightarrow> unat n + 4 > unat sz"
proof -
  have "unat (ucast n + 4 :: u64) = unat n + 4"
    using u32_less [of n] by (simp add: unat_word_ariths unat_ucast_up)
  then show ?thesis
    by (simp add: PB_BYTES_ARRAY_T_ALLOCSIZE_def word_less_nat_alt unat_ucast_up)
qed

lemma pb_enc_bytes_refines:
  "refines (\<lambda>s. Some (pb_enc_bytes m field src s))
    (if src = 0 then Some (True, delimited [])
     else if PB_ATYPE (ftype field) = PB_ATYPE_STATIC \<and>
       unat (load_u32 m src) + 4 > unat (data_size field) then Some (False, [])
     else Some (True, delimited (load_bytes m (src + 4) (unat (load_u32 m src)))))"
proof -
  have n: "unat (ucast (load_u32 m src) :: u64) = unat (load_u32 m src)"
    by (simp add: unat_ucast_up)
  have "refines (\<lambda>s. Some (pb_encode_string s [] 0)) (Some (True, delimited []))"
    using pb_encode_string_refines [of m src 0] by simp
  moreover have "refines (\<lambda>s. Some (pb_encode_string s
      (load_bytes m (src + 4) (unat (load_u32 m src))) (ucast (load_u32 m src))))
    (Some (True, delimited (load_bytes m (src + 4) (unat (load_u32 m src)))))"
    using pb_encode_string_refines [of m "src + 4" "ucast (load_u32 m src)"] by (simp add: n)
  ultimately show ?thesis
    unfolding pb_enc_bytes_def Let_def alloc_size_exceeds n if_distrib [of Some]
    by (intro refines_If refines_error) simp_all
qed

lemma pb_enc_string_refines:
  "refines (\<lambda>s. Some (pb_enc_string m field src s))
    (Some (True, delimited (c_string m src
      (if PB_ATYPE (ftype field) = PB_ATYPE_POINTER then - 1 else ucast (data_size field)))))"
proof -
  define n where "n = (if src = 0 then 0 else c_strnlen m src 0
    (if PB_ATYPE (ftype field) = PB_ATYPE_POINTER then - 1 else ucast (data_size field)))"
  have "c_string m src
      (if PB_ATYPE (ftype field) = PB_ATYPE_POINTER then - 1 else ucast (data_size field)) =
    load_bytes m src (unat n)"
    by (simp add: c_string_def n_def)
  moreover have "pb_enc_string m field src s =
      pb_encode_string s (load_bytes m src (unat n)) n" for s :: "'a pb_ostream_t"
    by (simp add: pb_enc_string_def Let_def n_def)
  ultimately show ?thesis using pb_encode_string_refines [of m src n] by simp
qed

lemma pb_enc_fixed_length_bytes_refines:
  "refines (\<lambda>s. Some (pb_enc_fixed_length_bytes m field src s))
    (Some (True, delimited (load_bytes m src (unat (data_size field)))))"
  using pb_encode_string_refines [of m src "ucast (data_size field)"]
  by (simp add: pb_enc_fixed_length_bytes_def unat_ucast_up)

lemma pb_enc_submessage_refines:
  assumes "\<And>fs src. refines (enc fs src) (msg fs src)"
  shows "refines (pb_enc_submessage E enc field src)
    (if fptr field = 0 then Some (False, [])
     else map_option (\<lambda>(ok, bs). (ok, if ok then delimited bs else bs))
       (msg (ee_fields E (fptr field)) src))"
  using pb_encode_submessage_refines [where enc = enc and
      r = "msg (ee_fields E (fptr field)) src", OF assms]
  by (simp add: pb_enc_submessage_def [abs_def] refines_error)

lemmas value_refines = pb_enc_varint_refines pb_enc_uvarint_refines pb_enc_svarint_refines
  pb_enc_fixed32_refines pb_enc_fixed64_refines pb_enc_bytes_refines pb_enc_string_refines
  pb_enc_fixed_length_bytes_refines

lemma PB_ENCODERS_refines:
  assumes "\<And>fs src. refines (enc fs src) (msg fs src)"
  shows "refines (PB_ENCODERS E enc field src) (value_spec E msg field src)"
  unfolding PB_ENCODERS_def [abs_def] value_spec_def Let_def
  by (intro refines_If value_refines refines_None
      pb_enc_submessage_refines [where enc = enc, OF assms])

subsection \<open>Arrays\<close>

lemma encode_items_refines:
  assumes "\<And>p. refines (f p) (g p)"
  shows "refines (encode_items n f step p) (items_spec n g step p)"
proof (induction n arbitrary: p)
  case 0
  show ?case by (simp add: refines_return)
next
  case (Suc n)
  show ?case using refines_and_then [OF assms Suc.IH] by simp
qed

lemma encode_unpacked_item_refines:
  assumes "\<And>fs src. refines (enc fs src) (msg fs src)"
  shows "refines (encode_unpacked_item E enc field p) (unpacked_item_spec E msg field p)"
  unfolding encode_unpacked_item_def [abs_def] unpacked_item_spec_def
  by (intro refines_and_then refines_If field_tag_refines
      PB_ENCODERS_refines [where enc = enc, OF assms])

lemma items_spec_fixed:
  assumes g: "\<And>p. g p = Some (True, load_bytes m p k)"
  shows "\<exists>bs. items_spec n g step p = Some (True, bs) \<and> length bs = k * n"
proof (induction n arbitrary: p)
  case (Suc n)
  obtain bs where "items_spec n g step (p + step) = Some (True, bs)" "length bs = k * n"
    using Suc.IH by blast
  moreover have "items_spec (Suc n) g step p =
      then_spec (Some (True, load_bytes m p k)) (items_spec n g step (p + step))"
    by (simp only: items_spec.simps g)
  ultimately show ?case by (simp add: then_spec_def)
qed simp

lemma packed_array_size_exact:
  assumes enc: "\<And>fs src. refines (enc fs src) (msg fs src)"
    and items: "items_spec (unat count) (value_spec E msg field) (ucast (data_size field)) p =
      Some (ok, bs)"
    and short: "length bs < 2 ^ 64"
  shows "\<exists>sz. packed_array_size E enc field p (ucast (count :: u32)) w = Some (ok, sz) \<and>
    (ok \<longrightarrow> sz = of_nat (length bs))"
proof -
  have n: "unat (ucast count :: u64) = unat count" by (simp add: unat_ucast_up)
  have of_n: "of_nat (unat count) = (ucast count :: u64)" by simp
  consider (f32) "PB_LTYPE (ftype field) = PB_LTYPE_FIXED32"
    | (f64) "PB_LTYPE (ftype field) = PB_LTYPE_FIXED64"
    | (other) "PB_LTYPE (ftype field) \<noteq> PB_LTYPE_FIXED32" "PB_LTYPE (ftype field) \<noteq> PB_LTYPE_FIXED64"
    by blast
  then show ?thesis
  proof cases
    case f32
    then have "value_spec E msg field q = Some (True, load_bytes (ee_mem E) q 4)" for q
      by (simp add: value_spec_def pb_const)
    then have "ok \<and> length bs = 4 * unat count"
      using items_spec_fixed [where g = "value_spec E msg field", of "ee_mem E" 4 "unat count"
          "ucast (data_size field)" p] items by simp
    then show ?thesis using f32 by (simp add: packed_array_size_def of_n)
  next
    case f64
    then have "value_spec E msg field q = Some (True, load_bytes (ee_mem E) q 8)" for q
      by (simp add: value_spec_def pb_const)
    then have "ok \<and> length bs = 8 * unat count"
      using items_spec_fixed [where g = "value_spec E msg field", of "ee_mem E" 8 "unat count"
          "ucast (data_size field)" p] items by simp
    then show ?thesis using f64 by (simp add: packed_array_size_def of_n pb_const)
  next
    case other
    let ?op = "encode_items (unat count) (PB_ENCODERS E enc field) (ucast (data_size field)) p"
    have op: "os.emits ?op (ok, bs)"
      using encode_items_refines [where f = "PB_ENCODERS E enc field",
          OF PB_ENCODERS_refines [where enc = enc, OF enc]] items
      by (metis refines_Some)
    have sizing: "plain_ostream (PB_OSTREAM_SIZING w)"
      "short_ostream (PB_OSTREAM_SIZING w) (length bs)" using short by simp_all
    show ?thesis
    proof (cases ok)
      case True
      then have "?op (PB_OSTREAM_SIZING w) = Some (True, emit_ostream (PB_OSTREAM_SIZING w) bs)"
        using os.emits_success [OF _ sizing] op by simp
      then show ?thesis using other True by (simp add: packed_array_size_def n)
    next
      case False
      then obtain s' where "?op (PB_OSTREAM_SIZING w) = Some (False, s')"
        using os.emits_failure [OF _ sizing] op by auto
      then show ?thesis using other False by (simp add: packed_array_size_def n)
    qed
  qed
qed

lemma encode_array_refines:
  assumes enc: "\<And>fs src. refines (enc fs src) (msg fs src)"
  shows "refines (encode_array E enc field p (ucast count)) (array_spec E msg field p count)"
proof -
  have n: "unat (ucast count :: u64) = unat count" by (simp add: unat_ucast_up)
  have zero: "(ucast count :: u64) = 0 \<longleftrightarrow> count = 0" using n by (metis unat_eq_0)
  have gt: "(ucast count :: u64) > ucast (array_size field) \<longleftrightarrow> count > array_size field"
    by (simp add: word_less_nat_alt unat_ucast_up)
  let ?items = "encode_items (unat count) (PB_ENCODERS E enc field) (ucast (data_size field)) p"
  let ?r = "items_spec (unat count) (value_spec E msg field) (ucast (data_size field)) p"
  have items: "refines ?items ?r"
    by (intro encode_items_refines PB_ENCODERS_refines [where enc = enc, OF enc])
  have unpacked: "refines (encode_items (unat count) (encode_unpacked_item E enc field)
        (ucast (data_size field)) p)
      (items_spec (unat count) (unpacked_item_spec E msg field) (ucast (data_size field)) p)"
    by (intro encode_items_refines encode_unpacked_item_refines [where enc = enc, OF enc])
  define packed where "packed = (\<lambda>s1 :: 'a pb_ostream_t.
    (case packed_array_size E enc field p (ucast count) (os_world s1) of
       None \<Rightarrow> None
     | Some (False, _) \<Rightarrow> Some (False, s1)
     | Some (True, sz) \<Rightarrow>
         and_then (Some (pb_encode_varint s1 sz)) (\<lambda>s2.
           (case os_callback s2 of
              Null_callback \<Rightarrow> Some (pb_write s2 [] sz)
            | _ \<Rightarrow> ?items s2))))"
  have packed: "refines packed (map_option (\<lambda>(ok, bs). (ok, if ok then delimited bs else bs)) ?r)"
  proof (cases ?r)
    case (Some q)
    obtain ok bs where q: "q = (ok, bs)" by (cases q)
    have size: "length bs < 2 ^ 64 \<Longrightarrow>
        \<exists>sz. packed_array_size E enc field p (ucast count) w = Some (ok, sz) \<and>
          (ok \<longrightarrow> sz = of_nat (length bs))" for w
      using packed_array_size_exact [where enc = enc and msg = msg, OF enc] Some q by simp
    show ?thesis
    proof (cases ok)
      case False
      have "os.emits packed (False, bs)"
      proof (rule os.emitsI)
        fix s :: "'a pb_ostream_t"
        assume "short_ostream s (length bs)"
        then show "\<exists>s'. packed s = Some (False, s')"
          using size [of "os_world s"] False by (auto simp: packed_def short_ostream_def)
      qed simp
      then show ?thesis using Some q False by (simp add: refines_Some)
    next
      case True
      have body: "os.emits ?items (True, bs)"
        using items Some q True by (simp add: refines_Some)
      have "os.emits (\<lambda>s. and_then (Some (pb_encode_varint s (of_nat (length bs)))) (\<lambda>s1.
          case os_callback s1 of
            Null_callback \<Rightarrow> Some (pb_write s1 [] (of_nat (length bs)))
          | _ \<Rightarrow> ?items s1)) (True, delimited bs)"
        by (rule emits_block) (use os.emits_success [OF body] os.emits_full [OF body] in simp)
      moreover have "packed s = and_then (Some (pb_encode_varint s (of_nat (length bs)))) (\<lambda>s1.
          case os_callback s1 of
            Null_callback \<Rightarrow> Some (pb_write s1 [] (of_nat (length bs)))
          | _ \<Rightarrow> ?items s1)" if "short_ostream s (length (delimited bs))" for s
        using size [of "os_world s"] True that
        by (auto simp: packed_def short_ostream_def delimited_def)
      ultimately have "os.emits packed (True, delimited bs)" by (simp add: os.emits_def)
      then show ?thesis using Some q True by (simp add: refines_Some)
    qed
  qed simp
  show ?thesis
    unfolding encode_array_def [abs_def] array_spec_def n zero gt packed_def [symmetric]
    by (intro refines_If refines_and_then refines_return refines_error tag_string_refines
        unpacked packed)
qed

subsection \<open>Fields\<close>

lemma encode_basic_field_refines:
  assumes enc: "\<And>fs src. refines (enc fs src) (msg fs src)"
  shows "refines (encode_basic_field n E enc field p) (basic_field_spec n E msg field p)"
proof -
  let ?m = "ee_mem E"
  let ?ps = "add_soffset p (size_offset field)"
  define q where "q = (if PB_ATYPE (ftype field) = PB_ATYPE_POINTER then load_ptr ?m p else p)"
  have single: "refines (\<lambda>s. and_then (Some (pb_encode_tag_for_field s field))
      (PB_ENCODERS E enc field q))
    (then_spec (Some (field_tag_spec field)) (value_spec E msg field q))"
    by (intro refines_and_then field_tag_refines PB_ENCODERS_refines [where enc = enc, OF enc])
  have arr: "refines (encode_array E enc field q (ucast c)) (array_spec E msg field q c)" for c
    by (rule encode_array_refines [where enc = enc, OF enc])
  note defs = encode_basic_field_def [abs_def] basic_field_spec_def Let_def q_def [symmetric]
  consider (req) "PB_HTYPE (ftype field) = PB_HTYPE_REQUIRED"
    | (opt) "PB_HTYPE (ftype field) = PB_HTYPE_OPTIONAL"
    | (rep) "PB_HTYPE (ftype field) = PB_HTYPE_REPEATED"
    | (oneof) "PB_HTYPE (ftype field) = PB_HTYPE_ONEOF"
    using PB_HTYPE_cases [of "ftype field"] by blast
  then show ?thesis
  proof cases
    case req
    then show ?thesis
      unfolding defs by (cases "q = 0") (simp_all add: single refines_error)
  next
    case rep
    then show ?thesis
      unfolding defs
      by (cases "size_offset field = 0")
        (simp_all add: arr)
  next
    case oneof
    then show ?thesis
      unfolding defs
      by (cases "size_offset field = 0"; cases "load_u32 ?m ?ps = tag field")
        (simp_all add: single refines_return)
  next
    case opt
    then show ?thesis
      using single unfolding defs
      by (cases "size_offset field = 0"; cases "?m ?ps = 0"; cases "q = 0";
          cases "pb_check_proto3_default_value n E field p")
        (simp_all add: refines_return)
  qed
qed

text \<open>
  The contract of the user's code: each encoding callback, and each custom extension
  encoder, emits the bytes its specification names.
\<close>

locale emitting_env =
  fixes E :: "'w enc_env" and cb :: callback_spec and xt :: ext_spec
  assumes callback_emits:
      "os.emits (\<lambda>s. Some (ee_callback E fn field arg s)) (cb fn field arg)"
    and ext_emits: "os.emits (\<lambda>s. Some (ee_ext_encode E fn ext s)) (xt fn ext)"
begin

lemma encode_callback_field_refines:
  "refines (\<lambda>s. Some (encode_callback_field E field p s))
    (Some (if load_ptr (ee_mem E) p \<noteq> 0 then cb (load_ptr (ee_mem E) p) field (p + 8)
           else (True, [])))"
proof (cases "load_ptr (ee_mem E) p = 0")
  case True
  then show ?thesis by (simp add: encode_callback_field_def refines_return)
next
  case False
  let ?f = "load_ptr (ee_mem E) p"
  obtain ok bs where cb: "cb ?f field (p + 8) = (ok, bs)" by (cases "cb ?f field (p + 8)")
  have emits: "os.emits (\<lambda>s. Some (ee_callback E ?f field (p + 8) s)) (ok, bs)"
    using callback_emits [of ?f field "p + 8"] cb by simp
  have "os.emits (\<lambda>s. Some (encode_callback_field E field p s)) (ok, bs)"
  proof (rule os.emitsI)
    fix s :: "'w pb_ostream_t"
    assume "plain_ostream s" "short_ostream s (length bs)" "ok" "room_ostream s (length bs)"
    then show "Some (encode_callback_field E field p s) = Some (True, emit_ostream s bs)"
      using os.emits_success [of "\<lambda>s. Some (ee_callback E ?f field (p + 8) s)" bs s] emits False
      by (simp add: encode_callback_field_def)
  next
    fix s :: "'w pb_ostream_t"
    assume "plain_ostream s" "short_ostream s (length bs)"
      "\<not> (ok \<and> room_ostream s (length bs))"
    then obtain s' where "ee_callback E ?f field (p + 8) s = (False, s')"
      using spec [OF emits [unfolded os.emits_def], of s] by (auto split: if_splits)
    then show "\<exists>s'. Some (encode_callback_field E field p s) = Some (False, s')"
      using False by (simp add: encode_callback_field_def)
  qed
  then show ?thesis using False cb by (simp add: refines_Some)
qed

lemma encode_field_refines:
  assumes enc: "\<And>fs src. refines (enc fs src) (msg fs src)"
  shows "refines (encode_field n E enc field p) (field_spec n E cb msg field p)"
  unfolding encode_field_def [abs_def] field_spec_def Let_def
  by (intro refines_If encode_callback_field_refines refines_error
      encode_basic_field_refines [where enc = enc, OF enc])

lemma encode_extension_list_refines:
  assumes enc: "\<And>fs src. refines (enc fs src) (msg fs src)"
  shows "refines (encode_extension_list k n E enc ext) (extension_list_spec k n E cb xt msg ext)"
proof (induction k arbitrary: ext)
  case 0
  show ?case by simp
next
  case (Suc k)
  have default: "refines (default_extension_encoder n E enc ext)
    (let m = ee_mem E; field = ee_fields E (load_ptr m (load_ptr m ext + 16)) ! 0 in
     if PB_ATYPE (ftype field) = PB_ATYPE_POINTER
     then field_spec n E cb msg field (ext + 8)
     else field_spec n E cb msg field (load_ptr m (ext + 8)))" for ext
    unfolding default_extension_encoder_def [abs_def] Let_def
    by (intro refines_If encode_field_refines enc)
  have ext: "refines (\<lambda>s. Some (ee_ext_encode E fn ext s)) (Some (xt fn ext))" for fn
    by (simp add: refines_Some ext_emits)
  show ?case
    unfolding encode_extension_list.simps [abs_def] extension_list_spec.simps Let_def
    by (intro refines_If refines_and_then refines_return ext Suc.IH
        default [unfolded Let_def])
qed

lemma encode_fields_refines:
  assumes encf: "\<And>field p. refines (encf field p) (g field p)"
    and wf: "wf_fields fs" and k: "k < n_fields fs" and fuel: "n_fields fs - k \<le> fuel"
  shows "refines (encode_fields fuel encf (iter_at fs src k))
    (concat_spec (map (\<lambda>k. g (fs ! k) (pData (iter_at fs src k))) [k..<n_fields fs]))"
  using k fuel
proof (induction fuel arbitrary: k)
  case 0
  then show ?case by simp
next
  case (Suc fuel)
  have "refines (\<lambda>s1. case pb_field_iter_next (iter_at fs src k) of
      (True, it') \<Rightarrow> encode_fields fuel encf it' s1
    | (False, _) \<Rightarrow> Some (True, s1))
    (concat_spec (map (\<lambda>k. g (fs ! k) (pData (iter_at fs src k))) [Suc k..<n_fields fs]))"
  proof (cases "Suc k < n_fields fs")
    case True
    then show ?thesis
      using Suc.IH [of "Suc k"] Suc.prems by (simp add: iter_next_iter_at [OF wf] del: iter_at.simps)
  next
    case False
    then show ?thesis
      using Suc.prems by (simp add: iter_next_iter_at [OF wf] refines_return del: iter_at.simps)
  qed
  from refines_and_then [OF encf this] show ?case
    using Suc.prems wf by (simp add: upt_conv_Cons del: iter_at.simps)
qed

lemma encode_message_refines:
  assumes enc: "\<And>fs src. refines (enc fs src) (msg fs src)" and wf: "wf_fields fs"
  shows "refines (encode_message n E enc fs src)
    (concat_spec (map (\<lambda>k. any_field_spec n E cb xt msg (fs ! k) (pData (iter_at fs src k)))
      [0..<n_fields fs]))"
proof (cases "n_fields fs")
  case 0
  then have "tag (fs ! 0) = 0" using wf_fields_end [OF wf] by simp
  then show ?thesis
    using 0 by (simp add: encode_message_def [abs_def] pb_field_iter_begin_def Let_def refines_return)
next
  case (Suc n')
  have first: "pb_field_iter_begin fs src = (True, iter_at fs src 0)"
    using wf_fields_tag [OF wf, of 0] Suc by (simp add: pb_field_iter_begin_def Let_def)
  define encf where "encf = (\<lambda>field p. if PB_LTYPE (ftype field) = PB_LTYPE_EXTENSION
    then encode_extension_field n E enc p else encode_field n E enc field p)"
  have "refines (encf field p) (any_field_spec n E cb xt msg field p)" for field p
    using encode_extension_list_refines [where enc = enc, OF enc]
      encode_field_refines [where enc = enc, OF enc]
    by (simp add: encf_def any_field_spec_def encode_extension_field_def [abs_def]
        del: encode_extension_list.simps extension_list_spec.simps)
  from encode_fields_refines [where encf = encf and g = "any_field_spec n E cb xt msg", OF this wf,
      of 0 "length fs" src] Suc
  have "refines (encode_fields (length fs) encf (iter_at fs src 0))
    (concat_spec (map (\<lambda>k. any_field_spec n E cb xt msg (fs ! k) (pData (iter_at fs src k)))
      [0..<n_fields fs]))"
    by (simp only: wf_fields_length [OF wf])
  then show ?thesis unfolding encode_message_def [abs_def] first encf_def by simp
qed

theorem pb_encode_refines: "refines (pb_encode n E fs src) (message_spec n E cb xt fs src)"
proof (induction n arbitrary: fs src)
  case 0
  show ?case by simp
next
  case (Suc n)
  show ?case
    using encode_message_refines [where enc = "pb_encode n E" and
        msg = "message_spec n E cb xt", OF Suc.IH] by simp
qed

end

end
