(* ===== verification/Pb_Encode_Total.thy ===== *)
theory Pb_Encode_Total
  imports Pb_Encode
begin

unbundle bit_operations_syntax

text \<open>
  Termination of the message encoder. The call graph of \<^verbatim>\<open>pb_encode\<close> is recursive through
  submessage fields, and in \<open>Pb_Encode\<close> that recursion is bounded by a depth; here the
  bound is shown to be enough for every descriptor set whose submessages are not circular,
  whatever the memory holds and whatever the stream and the callbacks do.
\<close>

subsection \<open>Schemas\<close>

text \<open>
  A schema: descriptor arrays at the addresses \<open>A\<close>, each well formed, without extension
  ranges and with a rank that submessage fields decrease. Extension ranges are excluded
  because the length of their lists is up to memory.
\<close>

definition encodable_field :: "pb_field_t \<Rightarrow> bool" where
  "encodable_field f =
     (PB_LTYPE (ftype f) \<in> set [PB_LTYPE_VARINT, PB_LTYPE_UVARINT, PB_LTYPE_SVARINT,
        PB_LTYPE_FIXED32, PB_LTYPE_FIXED64, PB_LTYPE_BYTES, PB_LTYPE_STRING,
        PB_LTYPE_SUBMESSAGE, PB_LTYPE_FIXED_LENGTH_BYTES] \<and>
      (PB_HTYPE (ftype f) = PB_HTYPE_ONEOF \<longrightarrow> size_offset f \<noteq> 0))"

definition ranked_schema ::
  "(addr \<Rightarrow> pb_field_t list) \<Rightarrow> (addr \<Rightarrow> nat) \<Rightarrow> addr list \<Rightarrow> bool" where
  "ranked_schema flds rank A =
     list_all (\<lambda>a. wf_fields (flds a) \<and>
       list_all (\<lambda>f. encodable_field f \<and>
         (PB_LTYPE (ftype f) = PB_LTYPE_SUBMESSAGE \<longrightarrow>
            fptr f \<in> set A \<and> rank (fptr f) < rank a)) (butlast (flds a))) A"

lemma ranked_schemaD:
  assumes "ranked_schema flds rank A" "a \<in> set A"
  shows "wf_fields (flds a)"
    and "\<And>k. k < n_fields (flds a) \<Longrightarrow> encodable_field (flds a ! k)"
    and "\<And>k. k < n_fields (flds a) \<Longrightarrow> PB_LTYPE (ftype (flds a ! k)) = PB_LTYPE_SUBMESSAGE \<Longrightarrow>
      fptr (flds a ! k) \<in> set A \<and> rank (fptr (flds a ! k)) < rank a"
proof -
  have a: "wf_fields (flds a)" "\<And>f. f \<in> set (butlast (flds a)) \<Longrightarrow> encodable_field f \<and>
      (PB_LTYPE (ftype f) = PB_LTYPE_SUBMESSAGE \<longrightarrow> fptr f \<in> set A \<and> rank (fptr f) < rank a)"
    using assms by (auto simp: ranked_schema_def list_all_iff)
  have nth: "flds a ! k \<in> set (butlast (flds a))" if "k < n_fields (flds a)" for k
    using that nth_mem [of k "butlast (flds a)"] by (simp add: n_fields_def nth_butlast)
  show "wf_fields (flds a)" by (rule a)
  show "encodable_field (flds a ! k)" if "k < n_fields (flds a)" for k
    using a(2) [OF nth [OF that]] by simp
  show "fptr (flds a ! k) \<in> set A \<and> rank (fptr (flds a ! k)) < rank a"
    if "k < n_fields (flds a)" "PB_LTYPE (ftype (flds a ! k)) = PB_LTYPE_SUBMESSAGE" for k
    using a(2) [OF nth [OF that(1)]] that(2) by simp
qed

definition returns :: "('s \<Rightarrow> (bool \<times> 's) option) \<Rightarrow> bool" where
  "returns op = (\<forall>s. op s \<noteq> None)"

lemma returns_Some [simp]: "returns (\<lambda>s. Some (f s))"
  by (simp add: returns_def)

lemma returns_and_then: "returns op \<Longrightarrow> returns k \<Longrightarrow> returns (\<lambda>s. and_then (op s) k)"
  by (auto simp: returns_def and_then_def split: option.splits)

lemma returns_If: "(b \<Longrightarrow> returns f) \<Longrightarrow> (\<not> b \<Longrightarrow> returns g) \<Longrightarrow> returns (\<lambda>s. if b then f s else g s)"
  by (simp add: returns_def)

lemma returnsD: "returns op \<Longrightarrow> \<exists>ok s'. op s = Some (ok, s')"
  by (auto simp: returns_def)

lemma encode_items_returns: "(\<And>p. returns (f p)) \<Longrightarrow> returns (encode_items n f step p)"
  by (induction n arbitrary: p)
    (simp_all add: returns_and_then encode_items.simps [abs_def])

lemma returns_cond: "(\<And>s. \<exists>op. returns op \<and> f s = op s) \<Longrightarrow> returns f"
  by (metis returns_def)

lemma pb_encode_submessage_returns:
  assumes "\<And>src. returns (enc fs src)"
  shows "returns (pb_encode_submessage enc fs src)"
proof -
  have "enc fs src s \<noteq> None" for s using assms by (simp add: returns_def)
  then show ?thesis
    by (auto simp: returns_def pb_encode_submessage_def and_then_def Let_def
        simp del: not_None_eq split: option.splits bool.splits prod.splits ostream_callback.splits)
qed

lemma PB_ENCODERS_returns:
  assumes "encodable_field field"
    and sub: "PB_LTYPE (ftype field) = PB_LTYPE_SUBMESSAGE \<Longrightarrow>
      (\<And>src. returns (enc (ee_fields E (fptr field)) src))"
  shows "returns (PB_ENCODERS E enc field src)"
proof (cases "PB_LTYPE (ftype field) = PB_LTYPE_SUBMESSAGE")
  case True
  then have "returns (pb_enc_submessage E enc field src)"
    unfolding pb_enc_submessage_def [abs_def]
    by (intro returns_If returns_Some pb_encode_submessage_returns sub)
  moreover have "PB_ENCODERS E enc field src = pb_enc_submessage E enc field src"
    using True by (simp add: PB_ENCODERS_def [abs_def] pb_const)
  ultimately show ?thesis by simp
next
  case False
  then show ?thesis
    using assms(1)
    by (auto simp: PB_ENCODERS_def [abs_def] encodable_field_def Let_def returns_def)
qed

lemma encode_unpacked_item_returns:
  assumes "\<And>src. returns (PB_ENCODERS E enc field src)"
  shows "returns (encode_unpacked_item E enc field p)"
  unfolding encode_unpacked_item_def [abs_def]
  by (intro returns_and_then returns_If returns_Some assms)

lemma encode_array_returns:
  assumes "\<And>src. returns (PB_ENCODERS E enc field src)"
  shows "returns (encode_array E enc field p count)"
proof -
  have items: "\<And>s. encode_items (unat count) (PB_ENCODERS E enc field)
      (ucast (data_size field)) p s \<noteq> None"
    using encode_items_returns [where f = "PB_ENCODERS E enc field", OF assms]
    by (simp add: returns_def del: not_None_eq)
  have size: "\<And>w. packed_array_size E enc field p count w \<noteq> None"
    using items by (auto simp: packed_array_size_def simp del: not_None_eq split: option.splits)
  have "returns (\<lambda>s1. case packed_array_size E enc field p count (os_world s1) of
       None \<Rightarrow> None
     | Some (False, _) \<Rightarrow> Some (False, s1)
     | Some (True, sz) \<Rightarrow>
         and_then (Some (pb_encode_varint s1 sz)) (\<lambda>s2.
           (case os_callback s2 of
              Null_callback \<Rightarrow> Some (pb_write s2 [] sz)
            | _ \<Rightarrow> encode_items (unat count) (PB_ENCODERS E enc field)
                     (ucast (data_size field)) p s2)))"
    using items size
    by (auto simp: returns_def and_then_def simp del: not_None_eq
        split: option.splits bool.splits prod.splits ostream_callback.splits if_splits)
  then show ?thesis
    unfolding encode_array_def [abs_def]
    by (intro returns_If returns_and_then returns_Some encode_items_returns
        encode_unpacked_item_returns assms)
qed

lemma encode_basic_field_returns:
  assumes "encodable_field field" "\<And>src. returns (PB_ENCODERS E enc field src)"
    and "\<And>p. pb_check_proto3_default_value n E field p \<noteq> None"
  shows "returns (encode_basic_field n E enc field p)"
proof -
  have single: "\<And>s q. and_then (Some (pb_encode_tag_for_field s field))
      (PB_ENCODERS E enc field q) \<noteq> None"
    using assms(2)
    by (auto simp: returns_def and_then_def simp del: not_None_eq split: prod.splits)
  have arr: "\<And>s q c. encode_array E enc field q c s \<noteq> None"
    using encode_array_returns [OF assms(2)] by (simp add: returns_def del: not_None_eq)
  have "\<not> (PB_HTYPE (ftype field) = PB_HTYPE_ONEOF \<and> size_offset field = 0)"
    using assms(1) by (auto simp: encodable_field_def)
  then show ?thesis
    using assms(3) [of p]
    by (auto simp: encode_basic_field_def returns_def Let_def single arr simp del: not_None_eq
        split: option.splits)
qed

text \<open>The default check follows submessages by the same ranks.\<close>

lemma proto3_fields_default_returns:
  assumes wf: "wf_fields fs" and "k < n_fields fs" "n_fields fs - k \<le> fuel"
    and chk: "\<And>k p. k < n_fields fs \<Longrightarrow> chk (fs ! k) p \<noteq> None"
  shows "proto3_fields_default fuel chk (iter_at fs src k) \<noteq> None"
  using assms(2,3)
proof (induction fuel arbitrary: k)
  case 0
  then show ?case by simp
next
  case (Suc fuel)
  then show ?case
    using chk [of k "pData (iter_at fs src k)"] Suc.IH [of "Suc k"] wf
    by (auto simp: iter_next_iter_at [OF wf] simp del: iter_at.simps not_None_eq
        split: option.splits bool.splits)
qed

lemma pb_check_proto3_default_value_returns:
  assumes "ranked_schema (ee_fields E) rank A"
    and "PB_LTYPE (ftype field) = PB_LTYPE_SUBMESSAGE \<Longrightarrow>
      fptr field \<in> set A \<and> rank (fptr field) < n"
  shows "pb_check_proto3_default_value (Suc n) E field p \<noteq> None"
  using assms(2)
proof (induction n arbitrary: field p)
  case 0
  then have "PB_LTYPE (ftype field) \<noteq> PB_LTYPE_SUBMESSAGE" by auto
  then show ?case by (simp add: check_proto3_singular_def Let_def del: not_None_eq)
next
  case (Suc n)
  have "check_proto3_singular E (pb_check_proto3_default_value (Suc n) E) field p \<noteq> None"
  proof (cases "PB_LTYPE (ftype field) = PB_LTYPE_SUBMESSAGE")
    case True
    define fs where "fs = ee_fields E (fptr field)"
    have a: "fptr field \<in> set A" "rank (fptr field) \<le> n" using Suc.prems True by auto
    note schema = ranked_schemaD [OF assms(1) a(1), folded fs_def]
    have chk: "pb_check_proto3_default_value (Suc n) E (fs ! k) q \<noteq> None"
      if "k < n_fields fs" for k q
      using schema(3) [OF that] a(2) by (intro Suc.IH) auto
    have "proto3_fields_default (length fs) (pb_check_proto3_default_value (Suc n) E)
        (iter_at fs p 0) \<noteq> None" if "0 < n_fields fs"
      by (rule proto3_fields_default_returns [OF schema(1)])
        (use that chk wf_fields_length [OF schema(1)] in auto)
    then show ?thesis
      by (auto simp: check_proto3_singular_def iter_begin_wf [OF schema(1)] Let_def fs_def [symmetric]
          simp del: not_None_eq pb_check_proto3_default_value.simps iter_at.simps
          split: prod.splits bool.splits)
  next
    case False
    then show ?thesis by (simp add: check_proto3_singular_def Let_def del: not_None_eq)
  qed
  then show ?case
    by (simp add: Let_def del: not_None_eq pb_check_proto3_default_value.simps(2)
        add: pb_check_proto3_default_value.simps(2) [of "Suc n"])
qed

text \<open>Fields and messages.\<close>

lemma encode_field_returns:
  assumes "encodable_field field" "\<And>src. returns (PB_ENCODERS E enc field src)"
    and "\<And>p. pb_check_proto3_default_value n E field p \<noteq> None"
  shows "returns (encode_field n E enc field p)"
  unfolding encode_field_def [abs_def] Let_def
  by (intro returns_If returns_Some encode_basic_field_returns assms)

lemma encode_fields_returns:
  assumes encf: "\<And>k p. k < n_fields fs \<Longrightarrow> returns (encf (fs ! k) p)"
    and wf: "wf_fields fs" and k: "k < n_fields fs" "n_fields fs - k \<le> fuel"
  shows "returns (encode_fields fuel encf (iter_at fs src k))"
  using k
proof (induction fuel arbitrary: k)
  case 0
  then show ?case by simp
next
  case (Suc fuel)
  have "returns (\<lambda>s1. case pb_field_iter_next (iter_at fs src k) of
      (True, it') \<Rightarrow> encode_fields fuel encf it' s1 | (False, _) \<Rightarrow> Some (True, s1))"
    using Suc.IH [of "Suc k"] Suc.prems
    by (cases "Suc k < n_fields fs")
      (simp_all add: iter_next_iter_at [OF wf] del: iter_at.simps)
  then show ?case
    using returns_and_then [OF encf [OF Suc.prems(1)]] Suc.prems wf
    by (simp add: encode_fields.simps [abs_def] del: iter_at.simps)
qed

lemma encode_message_returns:
  assumes "\<And>k p. k < n_fields fs \<Longrightarrow> returns (encode_field n E enc (fs ! k) p)"
    and wf: "wf_fields fs" and "\<And>k. k < n_fields fs \<Longrightarrow> encodable_field (fs ! k)"
  shows "returns (encode_message n E enc fs src)"
proof -
  define encf where "encf = (\<lambda>field p. if PB_LTYPE (ftype field) = PB_LTYPE_EXTENSION
    then encode_extension_field n E enc p else encode_field n E enc field p)"
  have "returns (encf (fs ! k) p)" if "k < n_fields fs" for k p
    using assms(1,3) [OF that] by (auto simp: encf_def encodable_field_def pb_const)
  then have "returns (encode_fields (length fs) encf (iter_at fs src 0))" if "0 < n_fields fs"
    using that wf_fields_length [OF wf] by (intro encode_fields_returns wf) auto
  then show ?thesis
    unfolding encode_message_def [abs_def] encf_def [symmetric] iter_begin_wf [OF wf]
    by (cases "0 < n_fields fs") simp_all
qed

lemma pb_encode_returns:
  assumes schema: "ranked_schema (ee_fields E) rank A"
  shows "a \<in> set A \<Longrightarrow> rank a + 1 < n \<Longrightarrow> returns (pb_encode n E (ee_fields E a) src)"
proof (induction n arbitrary: a src)
  case 0
  then show ?case by simp
next
  case (Suc n)
  note D = ranked_schemaD [OF schema Suc.prems(1)]
  have field: "returns (encode_field n E (pb_encode n E) (ee_fields E a ! k) p)"
    if k: "k < n_fields (ee_fields E a)" for k p
  proof (rule encode_field_returns)
    show "encodable_field (ee_fields E a ! k)" by (rule D(2) [OF k])
    show "returns (PB_ENCODERS E (pb_encode n E) (ee_fields E a ! k) q)" for q
      using D(3) [OF k] Suc.prems(2)
      by (intro PB_ENCODERS_returns D(2) [OF k] Suc.IH) auto
    obtain n' where n: "n = Suc n'" using Suc.prems(2) by (cases n) auto
    show "pb_check_proto3_default_value n E (ee_fields E a ! k) q \<noteq> None" for q
      unfolding n
      by (rule pb_check_proto3_default_value_returns [OF schema])
        (use D(3) [OF k] Suc.prems(2) n in auto)
  qed
  show ?case
    using encode_message_returns [where enc = "pb_encode n E", OF field D(1) D(2)] by simp
qed

end
