(* ===== verification/Pb_Encode_Correct.thy ===== *)
theory Pb_Encode_Correct
  imports Pb_Encode_Refine Pb_Encode_Total
begin

unbundle bit_operations_syntax

text \<open>
  What callers of \<open>Pb_Encode\<close> rely on: the environment the refinement speaks of is
  provided by user code that follows the documented callback pattern, and on fresh streams
  the encoder writes exactly the specified bytes, or returns false when they do not fit.
\<close>

subsection \<open>User code written with the stream API\<close>

text \<open>
  The pattern \<^verbatim>\<open>pb_encode.h\<close> documents for field callbacks: the tag of the field, then its
  contents, here the C string that \<open>*arg\<close> points to.
\<close>

definition string_callback ::
  "mem \<Rightarrow> pb_field_t \<Rightarrow> addr \<Rightarrow> 'w pb_ostream_t \<Rightarrow> bool \<times> 'w pb_ostream_t" where
  "string_callback m field arg s =
     (case pb_encode_tag_for_field s field of
        (False, s1) \<Rightarrow> (False, s1)
      | (True, s1) \<Rightarrow>
          (let str = load_ptr m arg; n = (if str = 0 then 0 else c_strnlen m str 0 (- 1))
           in pb_encode_string s1 (load_bytes m str (unat n)) n))"

definition string_callback_spec :: "mem \<Rightarrow> pb_field_t \<Rightarrow> addr \<Rightarrow> bool \<times> byte list" where
  "string_callback_spec m field arg =
     emitted_append (field_tag_spec field) (True, delimited (c_string m (load_ptr m arg) (- 1)))"

text \<open>An environment whose callbacks follow that pattern and whose extensions add nothing.\<close>

definition api_env :: "mem \<Rightarrow> (addr \<Rightarrow> pb_field_t list) \<Rightarrow> 'w enc_env" where
  "api_env m flds =
     \<lparr>ee_mem = m, ee_fields = flds, ee_callback = (\<lambda>fn. string_callback m),
      ee_ext_encode = (\<lambda>fn ext s. (True, s))\<rparr>"

lemma string_callback_emits:
  "os.emits (\<lambda>s :: 'w pb_ostream_t. Some (string_callback m field arg s))
     (string_callback_spec m field arg)"
proof -
  define str where "str = load_ptr m arg"
  define n where "n = (if str = 0 then 0 else c_strnlen m str 0 (- 1))"
  have "(\<lambda>s :: 'w pb_ostream_t. Some (string_callback m field arg s)) =
      (\<lambda>s. and_then (Some (pb_encode_tag_for_field s field))
             (\<lambda>s1. Some (pb_encode_string s1 (load_bytes m str (unat n)) n)))"
    by (auto simp: string_callback_def and_then_def Let_def str_def n_def fun_eq_iff
        split: prod.splits bool.splits)
  moreover have "c_string m str (- 1) = load_bytes m str (unat n)"
    by (simp add: c_string_def n_def)
  moreover have "os.emits (\<lambda>s :: 'w pb_ostream_t. and_then (Some (pb_encode_tag_for_field s field))
      (\<lambda>s1. Some (pb_encode_string s1 (load_bytes m str (unat n)) n)))
    (emitted_append (field_tag_spec field) (True, delimited (load_bytes m str (unat n))))"
    using field_tag_refines [of field] pb_encode_string_refines [of m str n]
    by (intro os.emits_and_then) (simp_all add: refines_Some)
  ultimately show ?thesis by (simp add: string_callback_spec_def str_def)
qed

interpretation api: emitting_env "api_env m flds" "\<lambda>fn. string_callback_spec m" "\<lambda>fn ext. (True, [])"
  for m flds
  by unfold_locales (simp_all add: api_env_def string_callback_emits os.emits_return)

subsection \<open>Encoding to a buffer\<close>

definition written :: "u64 \<Rightarrow> 'w \<Rightarrow> byte list \<Rightarrow> 'w pb_ostream_t" where
  "written cap w bs = (pb_ostream_from_buffer cap w)\<lparr>os_out := bs, bytes_written := of_nat (length bs)\<rparr>"

lemma plain_buffer [simp]:
  "plain_ostream (pb_ostream_from_buffer cap w)"
  "short_ostream (pb_ostream_from_buffer cap w) n \<longleftrightarrow> n < 2 ^ 64"
  "room_ostream (pb_ostream_from_buffer cap w) n \<longleftrightarrow> n \<le> unat cap"
  "emit_ostream (pb_ostream_from_buffer cap w) bs = written cap w bs"
  by (simp_all add: pb_ostream_from_buffer_def ostream_sink_defs written_def)

text \<open>What an emission is on the two kinds of fresh stream.\<close>

lemma emits_buffer:
  assumes "os.emits op (True, bs)" "length bs \<le> unat cap"
  shows "op (pb_ostream_from_buffer cap w) = Some (True, written cap w bs)"
  using os.emits_success [OF assms(1), of "pb_ostream_from_buffer cap w"] assms(2) u64_less [of cap]
  by simp

lemma emits_buffer_full:
  assumes "os.emits op (True, bs)" "unat cap < length bs" "length bs < 2 ^ 64"
  shows "\<exists>s. op (pb_ostream_from_buffer cap w) = Some (False, s)"
  using os.emits_full [OF assms(1), of "pb_ostream_from_buffer cap w"] assms(2,3) by simp

lemma emits_buffer_fail:
  assumes "os.emits op (False, bs)" "length bs < 2 ^ 64"
  shows "\<exists>s. op (pb_ostream_from_buffer cap w) = Some (False, s)"
  using os.emits_failure [OF assms(1), of "pb_ostream_from_buffer cap w"] assms(2) by simp

lemma emits_sizing:
  assumes "os.emits op (True, bs)" "length bs < 2 ^ 64"
  shows "op (PB_OSTREAM_SIZING w) =
    Some (True, (PB_OSTREAM_SIZING w)\<lparr>bytes_written := of_nat (length bs)\<rparr>)"
  using os.emits_success [OF assms(1), of "PB_OSTREAM_SIZING w"] assms(2) by (simp add: emit_sizing)

definition callbacks_emit :: "'w enc_env \<Rightarrow> callback_spec \<Rightarrow> ext_spec \<Rightarrow> bool" where
  "callbacks_emit E cb xt =
     ((\<forall>fn field arg. os.emits (\<lambda>s. Some (ee_callback E fn field arg s)) (cb fn field arg)) \<and>
      (\<forall>fn ext. os.emits (\<lambda>s. Some (ee_ext_encode E fn ext s)) (xt fn ext)))"

lemma callbacks_emit_refines:
  "callbacks_emit E cb xt \<Longrightarrow> refines (pb_encode n E fs src) (message_spec n E cb xt fs src)"
  by (intro emitting_env.pb_encode_refines) (simp add: emitting_env_def callbacks_emit_def)

lemma callbacks_emit_api:
  "callbacks_emit (api_env m flds :: 'w enc_env) (\<lambda>fn. string_callback_spec m) (\<lambda>fn ext. (True, []))"
  using api.callback_emits api.ext_emits unfolding callbacks_emit_def by blast

subsection \<open>A worked message\<close>

text \<open>
  A message with a required \<^verbatim>\<open>uint32\<close>, a packed repeated \<^verbatim>\<open>int32\<close> of at most two entries and
  a required submessage, in memory at \<open>0x100\<close>: the input of the witnesses below.
\<close>

definition ex_mem :: mem where
  "ex_mem = (\<lambda>a. 0)(0x100 := 0x2C, 0x101 := 1, 0x104 := 2, 0x108 := 3, 0x10C := 0x90, 0x110 := 7)"

definition ex_sub_fields :: "pb_field_t list" where
  "ex_sub_fields =
     [\<lparr>tag = 1, ftype = PB_HTYPE_REQUIRED OR PB_LTYPE_UVARINT, data_offset = 0, size_offset = 0,
       data_size = 4, array_size = 0, fptr = 0\<rparr>, PB_LAST_FIELD]"

definition ex_fields :: "pb_field_t list" where
  "ex_fields =
     [\<lparr>tag = 1, ftype = PB_HTYPE_REQUIRED OR PB_LTYPE_UVARINT, data_offset = 0, size_offset = 0,
       data_size = 4, array_size = 0, fptr = 0\<rparr>,
      \<lparr>tag = 2, ftype = PB_HTYPE_REPEATED OR PB_LTYPE_VARINT, data_offset = 4, size_offset = - 4,
       data_size = 4, array_size = 2, fptr = 0\<rparr>,
      \<lparr>tag = 3, ftype = PB_HTYPE_REQUIRED OR PB_LTYPE_SUBMESSAGE, data_offset = 0, size_offset = 0,
       data_size = 4, array_size = 0, fptr = 0x10\<rparr>, PB_LAST_FIELD]"

definition ex_env :: "nat enc_env" where
  "ex_env = api_env ex_mem ((\<lambda>_. [])(0x10 := ex_sub_fields, 0x20 := ex_fields))"

definition ex_spec_env :: "callback_spec \<times> ext_spec" where
  "ex_spec_env = ((\<lambda>fn. string_callback_spec ex_mem), (\<lambda>fn ext. (True, [])))"

definition ex_bytes :: "byte list" where
  "ex_bytes = [0x08, 0xAC, 0x02, 0x12, 0x03, 0x03, 0x90, 0x01, 0x1A, 0x02, 0x08, 0x07]"

lemma ex_callbacks: "callbacks_emit ex_env (fst ex_spec_env) (snd ex_spec_env)"
  unfolding ex_env_def ex_spec_env_def fst_conv snd_conv by (rule callbacks_emit_api)

lemma ex_message_spec:
  "message_spec 3 ex_env (fst ex_spec_env) (snd ex_spec_env) ex_fields 0x100 =
   Some (True, ex_bytes)"
  by code_simp

lemma length_ex_bytes [simp]: "length ex_bytes = 12"
  by (simp add: ex_bytes_def)

lemma ex_schema: "ranked_schema (ee_fields ex_env) (\<lambda>a. if a = 0x20 then 1 else 0) [0x10, 0x20]"
  by code_simp

subsection \<open>What the encoder does on fresh streams\<close>

text \<open>C1: Encoding a message to a buffer of \<open>cap\<close> bytes writes exactly the bytes the
  specification names, and reports their number, if they fit; otherwise the call returns
  false. The user's callbacks are assumed to emit what their specification says.\<close>

theorem pb_encode_exact:
  assumes "callbacks_emit E cb xt" and "message_spec n E cb xt fs src = Some (True, bs)"
    and "length bs < 2 ^ 64"
  shows "if length bs \<le> unat cap
    then pb_encode n E fs src (pb_ostream_from_buffer cap w) = Some (True, written cap w bs)
    else \<exists>s. pb_encode n E fs src (pb_ostream_from_buffer cap w) = Some (False, s)"
proof -
  have "os.emits (pb_encode n E fs src) (True, bs)"
    using callbacks_emit_refines [OF assms(1), of n fs src] assms(2) by (simp add: refines_Some)
  then show ?thesis
    using emits_buffer [of "pb_encode n E fs src" bs cap w]
      emits_buffer_full [of "pb_encode n E fs src" bs cap w] assms(3) by simp
qed

lemma pb_encode_exact_witness:
  "pb_encode 3 ex_env ex_fields 0x100 (pb_ostream_from_buffer 12 7) =
     Some (True, written 12 7 ex_bytes) \<and>
   (\<exists>s. pb_encode 3 ex_env ex_fields 0x100 (pb_ostream_from_buffer 11 7) = Some (False, s))"
  using pb_encode_exact [OF ex_callbacks ex_message_spec, of 12 7]
    pb_encode_exact [OF ex_callbacks ex_message_spec, of 11 7] by simp

text \<open>C2: \<^verbatim>\<open>pb_get_encoded_size\<close> returns the number of bytes of the encoding, without
  a buffer: the size of the buffer \<^verbatim>\<open>pb_encode\<close> needs and fills.\<close>

theorem pb_get_encoded_size_exact:
  assumes "callbacks_emit E cb xt" and "message_spec n E cb xt fs src = Some (True, bs)"
    and "length bs < 2 ^ 64"
  shows "pb_get_encoded_size n E fs src w = Some (Some (of_nat (length bs))) \<and>
    pb_encode n E fs src (pb_ostream_from_buffer (of_nat (length bs)) w) =
      Some (True, written (of_nat (length bs)) w bs)"
proof -
  have emits: "os.emits (pb_encode n E fs src) (True, bs)"
    using callbacks_emit_refines [OF assms(1), of n fs src] assms(2) by (simp add: refines_Some)
  have "unat (of_nat (length bs) :: u64) = length bs"
    using assms(3) by (simp add: unat_of_nat_small)
  then show ?thesis
    using emits_buffer [OF emits] emits_sizing [OF emits assms(3)]
    by (simp add: pb_get_encoded_size_def)
qed

lemma pb_get_encoded_size_exact_witness:
  "pb_get_encoded_size 3 ex_env ex_fields 0x100 7 = Some (Some 12)"
  using pb_get_encoded_size_exact [OF ex_callbacks ex_message_spec, of 7] by simp

text \<open>C3: \<^verbatim>\<open>pb_encode_delimited\<close> writes the length of the message as a varint and then the
  message, if both fit; \<^verbatim>\<open>pb_encode_nullterminated\<close> writes the message and a zero byte.\<close>

theorem pb_encode_framing:
  assumes "callbacks_emit E cb xt" and "message_spec n E cb xt fs src = Some (True, bs)"
  shows "(length (delimited bs) \<le> unat cap \<longrightarrow>
      pb_encode_delimited n E fs src (pb_ostream_from_buffer cap w) =
        Some (True, written cap w (delimited bs))) \<and>
    (length bs < unat cap \<longrightarrow>
      pb_encode_nullterminated n E fs src (pb_ostream_from_buffer cap w) =
        Some (True, written cap w (bs @ [0])))"
proof -
  have enc: "refines (pb_encode n E fs src) (Some (True, bs))"
    using callbacks_emit_refines [OF assms(1), of n fs src] assms(2) by simp
  have "refines (pb_encode_submessage (pb_encode n E) fs src) (Some (True, delimited bs))"
    using pb_encode_submessage_refines [where enc = "pb_encode n E", OF enc] by simp
  then have "length (delimited bs) \<le> unat cap \<Longrightarrow>
      pb_encode_delimited n E fs src (pb_ostream_from_buffer cap w) =
        Some (True, written cap w (delimited bs))"
    unfolding pb_encode_delimited_def refines_Some by (rule emits_buffer)
  moreover have "refines (\<lambda>s1. Some (pb_write s1 [0] 1)) (Some (True, [0]))"
    using pb_write_emits [of "[0]"] by (simp add: refines_Some)
  then have "os.emits (pb_encode_nullterminated n E fs src) (True, bs @ [0])"
    using refines_and_then [OF enc, of "\<lambda>s1. Some (pb_write s1 [0] 1)" "Some (True, [0])"]
    by (simp add: pb_encode_nullterminated_def [abs_def] then_spec_def refines_Some)
  ultimately show ?thesis using emits_buffer [of "pb_encode_nullterminated n E fs src" _ cap w] by simp
qed

lemma pb_encode_framing_witness:
  "pb_encode_delimited 3 ex_env ex_fields 0x100 (pb_ostream_from_buffer 13 7) =
     Some (True, written 13 7 (12 # ex_bytes)) \<and>
   pb_encode_nullterminated 3 ex_env ex_fields 0x100 (pb_ostream_from_buffer 13 7) =
     Some (True, written 13 7 (ex_bytes @ [0]))"
proof -
  have "delimited ex_bytes = 12 # ex_bytes"
    by (simp add: delimited_def varint_bytes.simps)
  then show ?thesis
    using pb_encode_framing [OF ex_callbacks ex_message_spec, of 13 7] by simp
qed

text \<open>C4: The encoder returns. For descriptors without circular submessages and without
  extension ranges, \<^verbatim>\<open>pb_encode\<close> comes back with true or false from every memory, stream
  and set of callbacks, within a recursion depth given by the descriptors alone.\<close>

theorem pb_encode_terminates:
  assumes "ranked_schema (ee_fields E) rank A" and "a \<in> set A" and "rank a + 1 < n"
  shows "\<exists>ok s'. pb_encode n E (ee_fields E a) src s = Some (ok, s')"
  by (rule returnsD [OF pb_encode_returns [OF assms]])

lemma pb_encode_terminates_witness:
  "\<exists>ok s'. pb_encode 3 ex_env (ee_fields ex_env 0x20) 0x100 (pb_ostream_from_buffer 4 7) =
     Some (ok, s')"
  by (rule pb_encode_terminates [OF ex_schema]) simp_all

end
