(* ===== verification/Pb_Istream.thy ===== *)
theory Pb_Istream
  imports Pb_Types
begin

unbundle bit_operations_syntax

text \<open>
  The input stream of nanopb and the wire-format readers built on it: the first part of
  \<^verbatim>\<open>src/ios/Pods/nanopb/pb_decode.c\<close>, from \<^verbatim>\<open>buf_read\<close> to
  \<^verbatim>\<open>pb_close_string_substream\<close>, with \<^verbatim>\<open>pb_decode_svarint\<close>, \<^verbatim>\<open>pb_decode_fixed32\<close> and
  \<^verbatim>\<open>pb_decode_fixed64\<close>. A C function that returns \<^verbatim>\<open>bool\<close> and stores its result through
  a pointer on success returns an option here, with the new stream.
\<close>

subsection \<open>Reading bytes\<close>

definition buf_read :: "'w pb_istream_t \<Rightarrow> u64 \<Rightarrow> byte list \<times> 'w pb_istream_t" where
  "buf_read s count =
     (load_bytes (is_mem s) (is_state s) (unat count), s\<lparr>is_state := is_state s + count\<rparr>)"

text \<open>The indirect call \<^verbatim>\<open>stream->callback(stream, buf, count)\<close>; \<^const>\<open>None\<close> when it fails.\<close>

definition istream_callback_call ::
  "'w pb_istream_t \<Rightarrow> u64 \<Rightarrow> byte list option \<times> 'w pb_istream_t" where
  "istream_callback_call s count =
     (case is_callback s of
        Buf_read \<Rightarrow> (let (bs, s') = buf_read s count in (Some bs, s'))
      | Istream_user f \<Rightarrow>
          (let (ok, g, w) = f (is_world s) count
           in (if ok then Some (map g [0..<unat count]) else None, s\<lparr>is_world := w\<rparr>)))"

text \<open>\<^verbatim>\<open>pb_read\<close> with a buffer: the part of the function after the skipping branch.\<close>

definition pb_read :: "'w pb_istream_t \<Rightarrow> u64 \<Rightarrow> byte list option \<times> 'w pb_istream_t" where
  "pb_read s count =
     (if bytes_left s < count then (None, is_set_error s ''end-of-stream'')
      else case istream_callback_call s count of
        (None, s') \<Rightarrow> (None, is_set_error s' ''io error'')
      | (Some bs, s') \<Rightarrow> (Some bs, s'\<lparr>bytes_left := bytes_left s' - count\<rparr>))"

text \<open>
  \<^verbatim>\<open>pb_read\<close> with a null buffer. A buffer stream just moves its pointer; any other stream
  reads and drops sixteen bytes at a time.
\<close>

function pb_read_skip :: "'w pb_istream_t \<Rightarrow> u64 \<Rightarrow> bool \<times> 'w pb_istream_t" where
  "pb_read_skip s count =
     (if count > 16 then
        (case pb_read s 16 of
           (None, s') \<Rightarrow> (False, s')
         | (Some _, s') \<Rightarrow> pb_read_skip s' (count - 16))
      else (case pb_read s count of (r, s') \<Rightarrow> (r \<noteq> None, s')))"
  by pat_completeness auto
termination
  by (relation "measure (\<lambda>(s, count). unat count)")
    (auto simp: word_less_nat_alt unat_sub word_le_nat_alt)

declare pb_read_skip.simps [simp del]

definition pb_read_null :: "'w pb_istream_t \<Rightarrow> u64 \<Rightarrow> bool \<times> 'w pb_istream_t" where
  "pb_read_null s count =
     (case is_callback s of
        Buf_read \<Rightarrow> (case pb_read s count of (r, s') \<Rightarrow> (r \<noteq> None, s'))
      | Istream_user f \<Rightarrow> pb_read_skip s count)"

definition pb_readbyte :: "'w pb_istream_t \<Rightarrow> byte option \<times> 'w pb_istream_t" where
  "pb_readbyte s =
     (if bytes_left s = 0 then (None, is_set_error s ''end-of-stream'')
      else case istream_callback_call s 1 of
        (None, s') \<Rightarrow> (None, is_set_error s' ''io error'')
      | (Some bs, s') \<Rightarrow> (Some (hd bs), s'\<lparr>bytes_left := bytes_left s' - 1\<rparr>))"

definition pb_istream_from_buffer :: "mem \<Rightarrow> addr \<Rightarrow> u64 \<Rightarrow> 'w \<Rightarrow> 'w pb_istream_t" where
  "pb_istream_from_buffer m buf bufsize w =
     \<lparr>is_callback = Buf_read, is_mem = m, is_state = buf, bytes_left = bufsize,
      is_errmsg = None, is_world = w\<rparr>"

lemma istream_callback_call_bytes_left [simp]:
  "istream_callback_call s n = (r, s') \<Longrightarrow> bytes_left s' = bytes_left s"
  by (auto simp: istream_callback_call_def buf_read_def Let_def
      split: istream_callback.splits prod.splits)

lemma unat_minus_one_less: "(x :: 'a::len word) \<noteq> 0 \<Longrightarrow> unat (x - 1) < unat x"
  using unat_minus_one [of x] unat_gt_0 [of x] by simp

lemma pb_readbyte_decreases:
  "pb_readbyte s = (Some b, s') \<Longrightarrow> unat (bytes_left s') < unat (bytes_left s)"
  by (auto simp: pb_readbyte_def unat_minus_one_less dest!: istream_callback_call_bytes_left
      split: if_splits prod.splits option.splits)

lemma pb_read_decreases:
  "pb_read s n = (Some bs, s') \<Longrightarrow> unat (bytes_left s') = unat (bytes_left s) - unat n \<and>
     unat n \<le> unat (bytes_left s)"
  by (auto simp: pb_read_def unat_sub word_le_nat_alt word_less_nat_alt
      dest!: istream_callback_call_bytes_left split: if_splits prod.splits option.splits)

subsection \<open>Varints\<close>

text \<open>
  The \<^verbatim>\<open>do ... while (byte & 0x80)\<close> loop of \<^verbatim>\<open>pb_decode_varint32_eof\<close> with the check
  after it. \<^verbatim>\<open>uint_fast8_t bitpos\<close> is eight bits wide on the target and wraps.
\<close>

function varint32_loop ::
  "'w pb_istream_t \<Rightarrow> byte \<Rightarrow> u32 \<Rightarrow> u32 option \<times> 'w pb_istream_t" where
  "varint32_loop s bitpos result =
     (case pb_readbyte s of
        (None, s1) \<Rightarrow> (None, s1)
      | (Some b, s1) \<Rightarrow>
          (let sign_extension = (if bitpos < 63 then 0xFF else 0x01) in
           if bitpos \<ge> 32 \<and> b AND 0x7F \<noteq> 0 \<and> (drop_bit 31 result = 0 \<or> b \<noteq> sign_extension)
           then (None, is_set_error s1 ''varint overflow'')
           else
             (let result' = (if bitpos \<ge> 32 then result
                             else result OR push_bit (unat bitpos) (ucast (b AND 0x7F)));
                  bitpos' = bitpos + 7
              in if b AND 0x80 \<noteq> 0 then varint32_loop s1 bitpos' result'
                 else if bitpos' = 35 \<and> b AND 0x70 \<noteq> 0
                 then (None, is_set_error s1 ''varint overflow'')
                 else (Some result', s1))))"
  by pat_completeness auto
termination
  by (relation "measure (\<lambda>(s, _, _). unat (bytes_left s))")
    (auto dest!: pb_readbyte_decreases [OF sym])

declare varint32_loop.simps [simp del]

text \<open>The second component is whether \<^verbatim>\<open>*eof\<close> has been set.\<close>

definition pb_decode_varint32_eof ::
  "'w pb_istream_t \<Rightarrow> u32 option \<times> bool \<times> 'w pb_istream_t" where
  "pb_decode_varint32_eof s =
     (case pb_readbyte s of
        (None, s1) \<Rightarrow> (None, bytes_left s1 = 0, s1)
      | (Some b, s1) \<Rightarrow>
          if b AND 0x80 = 0 then (Some (ucast b), False, s1)
          else (case varint32_loop s1 7 (ucast (b AND 0x7F)) of (r, s2) \<Rightarrow> (r, False, s2)))"

definition pb_decode_varint32 :: "'w pb_istream_t \<Rightarrow> u32 option \<times> 'w pb_istream_t" where
  "pb_decode_varint32 s = (case pb_decode_varint32_eof s of (r, _, s') \<Rightarrow> (r, s'))"

function varint_loop ::
  "'w pb_istream_t \<Rightarrow> byte \<Rightarrow> u64 \<Rightarrow> u64 option \<times> 'w pb_istream_t" where
  "varint_loop s bitpos result =
     (if bitpos \<ge> 64 then (None, is_set_error s ''varint overflow'')
      else case pb_readbyte s of
        (None, s1) \<Rightarrow> (None, s1)
      | (Some b, s1) \<Rightarrow>
          (let result' = result OR push_bit (unat bitpos) (ucast (b AND 0x7F));
               bitpos' = bitpos + 7
           in if b AND 0x80 \<noteq> 0 then varint_loop s1 bitpos' result' else (Some result', s1)))"
  by pat_completeness auto
termination
  by (relation "measure (\<lambda>(s, _, _). unat (bytes_left s))")
    (auto dest!: pb_readbyte_decreases [OF sym])

declare varint_loop.simps [simp del]

definition pb_decode_varint :: "'w pb_istream_t \<Rightarrow> u64 option \<times> 'w pb_istream_t" where
  "pb_decode_varint s = varint_loop s 0 0"

definition pb_decode_svarint :: "'w pb_istream_t \<Rightarrow> u64 option \<times> 'w pb_istream_t" where
  "pb_decode_svarint s =
     (case pb_decode_varint s of
        (None, s1) \<Rightarrow> (None, s1)
      | (Some value, s1) \<Rightarrow>
          (Some (if value AND 1 \<noteq> 0 then NOT (drop_bit 1 value) else drop_bit 1 value), s1))"

subsection \<open>Fixed-width integers\<close>

definition pb_decode_fixed32 :: "'w pb_istream_t \<Rightarrow> u32 option \<times> 'w pb_istream_t" where
  "pb_decode_fixed32 s =
     (case pb_read s 4 of
        (None, s1) \<Rightarrow> (None, s1)
      | (Some b, s1) \<Rightarrow>
          (Some (push_bit 0 (ucast (b ! 0)) OR push_bit 8 (ucast (b ! 1)) OR
                 push_bit 16 (ucast (b ! 2)) OR push_bit 24 (ucast (b ! 3))), s1))"

definition pb_decode_fixed64 :: "'w pb_istream_t \<Rightarrow> u64 option \<times> 'w pb_istream_t" where
  "pb_decode_fixed64 s =
     (case pb_read s 8 of
        (None, s1) \<Rightarrow> (None, s1)
      | (Some b, s1) \<Rightarrow>
          (Some (push_bit 0 (ucast (b ! 0)) OR push_bit 8 (ucast (b ! 1)) OR
                 push_bit 16 (ucast (b ! 2)) OR push_bit 24 (ucast (b ! 3)) OR
                 push_bit 32 (ucast (b ! 4)) OR push_bit 40 (ucast (b ! 5)) OR
                 push_bit 48 (ucast (b ! 6)) OR push_bit 56 (ucast (b ! 7))), s1))"

subsection \<open>Tags, skipping and substreams\<close>

function pb_skip_varint :: "'w pb_istream_t \<Rightarrow> bool \<times> 'w pb_istream_t" where
  "pb_skip_varint s =
     (case pb_read s 1 of
        (None, s1) \<Rightarrow> (False, s1)
      | (Some b, s1) \<Rightarrow> if hd b AND 0x80 \<noteq> 0 then pb_skip_varint s1 else (True, s1))"
  by pat_completeness auto
termination
  by (relation "measure (\<lambda>s. unat (bytes_left s))") (auto dest!: pb_read_decreases [OF sym])

declare pb_skip_varint.simps [simp del]

definition pb_skip_string :: "'w pb_istream_t \<Rightarrow> bool \<times> 'w pb_istream_t" where
  "pb_skip_string s =
     (case pb_decode_varint32 s of
        (None, s1) \<Rightarrow> (False, s1)
      | (Some len, s1) \<Rightarrow> pb_read_null s1 (ucast len))"

text \<open>
  The results are the pair \<^verbatim>\<open>(*wire_type, *tag)\<close> when the function returns true, and
  \<^verbatim>\<open>*eof\<close>. When it returns false both are set to 0.
\<close>

definition pb_decode_tag ::
  "'w pb_istream_t \<Rightarrow> (wire_type \<times> u32) option \<times> bool \<times> 'w pb_istream_t" where
  "pb_decode_tag s =
     (case pb_decode_varint32_eof s of
        (None, eof, s1) \<Rightarrow> (None, eof, s1)
      | (Some temp, _, s1) \<Rightarrow>
          if temp = 0 then (None, True, s1)
          else (Some (temp AND 7, drop_bit 3 temp), False, s1))"

definition pb_skip_field :: "'w pb_istream_t \<Rightarrow> wire_type \<Rightarrow> bool \<times> 'w pb_istream_t" where
  "pb_skip_field s wire_type =
     (if wire_type = PB_WT_VARINT then pb_skip_varint s
      else if wire_type = PB_WT_64BIT then pb_read_null s 8
      else if wire_type = PB_WT_STRING then pb_skip_string s
      else if wire_type = PB_WT_32BIT then pb_read_null s 4
      else (False, is_set_error s ''invalid wire_type''))"

text \<open>The loop of \<^verbatim>\<open>read_raw_value\<close> for a varint; \<open>acc\<close> is what has been stored at \<open>buf\<close>.\<close>

function read_raw_varint ::
  "'w pb_istream_t \<Rightarrow> u64 \<Rightarrow> u64 \<Rightarrow> byte list \<Rightarrow> byte list option \<times> 'w pb_istream_t" where
  "read_raw_varint s max_size sz acc =
     (let sz' = sz + 1 in
      if sz' > max_size then (None, s)
      else case pb_read s 1 of
        (None, s1) \<Rightarrow> (None, s1)
      | (Some b, s1) \<Rightarrow>
          if hd b AND 0x80 \<noteq> 0 then read_raw_varint s1 max_size sz' (acc @ [hd b])
          else (Some (acc @ [hd b]), s1))"
  by pat_completeness auto
termination
  by (relation "measure (\<lambda>(s, _, _, _). unat (bytes_left s))") (auto dest!: pb_read_decreases [OF sym])

declare read_raw_varint.simps [simp del]

definition read_raw_value ::
  "'w pb_istream_t \<Rightarrow> wire_type \<Rightarrow> u64 \<Rightarrow> byte list option \<times> 'w pb_istream_t" where
  "read_raw_value s wire_type max_size =
     (if wire_type = PB_WT_VARINT then read_raw_varint s max_size 0 []
      else if wire_type = PB_WT_64BIT then pb_read s 8
      else if wire_type = PB_WT_32BIT then pb_read s 4
      else (None, is_set_error s ''invalid wire_type''))"

text \<open>On success the substream is returned beside the parent stream.\<close>

definition pb_make_string_substream ::
  "'w pb_istream_t \<Rightarrow> 'w pb_istream_t option \<times> 'w pb_istream_t" where
  "pb_make_string_substream s =
     (case pb_decode_varint32 s of
        (None, s1) \<Rightarrow> (None, s1)
      | (Some sz, s1) \<Rightarrow>
          if bytes_left s1 < ucast sz
          then (None, is_set_error s1 ''parent stream too short'')
          else (Some (s1\<lparr>bytes_left := ucast sz\<rparr>),
                s1\<lparr>bytes_left := bytes_left s1 - ucast sz\<rparr>))"

text \<open>
  \<open>is_world\<close> is the memory the user's callbacks keep outside the stream, so it is the
  same object seen from the parent and from the substream.
\<close>

definition pb_close_string_substream ::
  "'w pb_istream_t \<Rightarrow> 'w pb_istream_t \<Rightarrow> bool \<times> 'w pb_istream_t" where
  "pb_close_string_substream s substream =
     (let (ok, sub) = (if bytes_left substream \<noteq> 0
                       then pb_read_null substream (bytes_left substream)
                       else (True, substream))
      in if \<not> ok then (False, s\<lparr>is_world := is_world sub\<rparr>)
         else (True, s\<lparr>is_state := is_state sub, is_errmsg := is_errmsg sub,
                       is_world := is_world sub\<rparr>))"

end
