(* ===== verification/Pb_Wire_Read.thy ===== *)
theory Pb_Wire_Read
  imports Pb_Istream Wire_Spec
begin

unbundle bit_operations_syntax

text \<open>
  The readers of \<^verbatim>\<open>pb_decode.c\<close> against the wire format. A buffer stream is abstracted
  to the list of the bytes it may still read; each reader is shown to compute the
  corresponding function of that list and to move the stream by exactly the bytes it
  consumed, or to fail where the list-level format says so.
\<close>

subsection \<open>The abstraction of a buffer stream\<close>

definition is_buffer :: "'w pb_istream_t \<Rightarrow> bool" where
  "is_buffer s = (case is_callback s of Buf_read \<Rightarrow> True | Istream_user _ \<Rightarrow> False)"

definition rest :: "'w pb_istream_t \<Rightarrow> byte list" where
  "rest s = load_bytes (is_mem s) (is_state s) (unat (bytes_left s))"

definition advance :: "'w pb_istream_t \<Rightarrow> nat \<Rightarrow> 'w pb_istream_t" where
  "advance s n = s\<lparr>is_state := is_state s + of_nat n, bytes_left := bytes_left s - of_nat n\<rparr>"

lemma length_rest [simp]: "length (rest s) = unat (bytes_left s)"
  by (simp add: rest_def)

lemma is_buffer_iff: "is_buffer s \<longleftrightarrow> is_callback s = Buf_read"
  by (simp add: is_buffer_def split: istream_callback.splits)

lemma is_buffer_advance [simp]: "is_buffer (advance s n) = is_buffer s"
  by (simp add: is_buffer_def advance_def)

lemma advance_0 [simp]: "advance s 0 = s"
  by (simp add: advance_def)

lemma advance_advance [simp]: "advance (advance s a) b = advance s (a + b)"
  by (simp add: advance_def algebra_simps)

lemma unat_bytes_left_advance:
  "n \<le> unat (bytes_left s) \<Longrightarrow> unat (bytes_left (advance s n)) = unat (bytes_left s) - n"
  by (simp add: advance_def unat_sub_of_nat)

lemma rest_advance: "n \<le> length (rest s) \<Longrightarrow> rest (advance s n) = drop n (rest s)"
  by (simp add: rest_def drop_load_bytes advance_def unat_sub_of_nat)

lemma advance_frame [simp]:
  "is_callback (advance s n) = is_callback s" "is_mem (advance s n) = is_mem s"
  "is_errmsg (advance s n) = is_errmsg s" "is_world (advance s n) = is_world s"
  by (simp_all add: advance_def)

lemma bytes_left_0_iff: "bytes_left s = 0 \<longleftrightarrow> rest s = []"
  by (metis length_rest length_0_conv unat_eq_0)

subsection \<open>Single bytes and blocks\<close>

lemma istream_callback_call_buffer:
  "is_buffer s \<Longrightarrow> istream_callback_call s n =
     (Some (load_bytes (is_mem s) (is_state s) (unat n)), s\<lparr>is_state := is_state s + n\<rparr>)"
  by (simp add: is_buffer_iff istream_callback_call_def buf_read_def)

lemma pb_read_buffer:
  assumes "is_buffer s"
  shows "pb_read s n =
    (if unat n \<le> length (rest s) then (Some (take (unat n) (rest s)), advance s (unat n))
     else (None, is_set_error s ''end-of-stream''))"
  using assms
  by (auto simp: pb_read_def istream_callback_call_buffer rest_def take_load_bytes advance_def
      word_less_nat_alt)

lemma pb_read_null_buffer:
  assumes "is_buffer s"
  shows "pb_read_null s n =
    (if unat n \<le> length (rest s) then (True, advance s (unat n))
     else (False, is_set_error s ''end-of-stream''))"
  using assms by (simp add: pb_read_null_def is_buffer_iff pb_read_buffer [unfolded is_buffer_iff])

lemma pb_readbyte_buffer:
  assumes "is_buffer s"
  shows "pb_readbyte s =
    (case rest s of [] \<Rightarrow> (None, is_set_error s ''end-of-stream'')
     | b # _ \<Rightarrow> (Some b, advance s 1))"
proof (cases "unat (bytes_left s)")
  case 0
  then have "bytes_left s = 0" by (simp add: unat_eq_0)
  then show ?thesis by (simp add: pb_readbyte_def rest_def)
next
  case (Suc n)
  then have "bytes_left s \<noteq> 0" by auto
  with assms Suc show ?thesis
    by (simp add: pb_readbyte_def istream_callback_call_buffer rest_def advance_def
        load_bytes_Suc)
qed

lemma rest_advance_1 [simp]: "rest s = b # bs \<Longrightarrow> rest (advance s (Suc 0)) = bs"
  by (simp add: rest_advance)

subsection \<open>64-bit varints\<close>

text \<open>
  The loop, started at digit \<open>i\<close> with the digits below it in \<open>result\<close>: it consumes the
  varint at the front of the stream if that leaves at most ten digits, and fails
  otherwise. Bits of the tenth digit beyond bit 63 are dropped by the shift.
\<close>

definition digit_pos :: "nat \<Rightarrow> byte" where
  "digit_pos i = of_nat (7 * i)"

lemma digit_pos_0: "digit_pos 0 = 0"
  and digit_pos_1: "digit_pos (Suc 0) = 7"
  and digit_pos_Suc: "digit_pos i + 7 = digit_pos (Suc i)"
  by (simp_all add: digit_pos_def)

lemma unat_digit_pos: "i \<le> 36 \<Longrightarrow> unat (digit_pos i) = 7 * i"
  unfolding digit_pos_def by (rule unat_of_nat_small) simp

lemma digit_pos_ge_64: "i \<le> 10 \<Longrightarrow> 64 \<le> digit_pos i \<longleftrightarrow> i = 10"
  by (auto simp: word_le_nat_alt unat_digit_pos)

lemma varint_loop_step:
  assumes "is_buffer s" "i < 10" "take_bit (7 * i) result = result" "rest s = b # bs"
  shows "varint_loop s (digit_pos i) result =
    (let result' = result + of_nat (2 ^ (7 * i) * (unat b mod 128))
     in if unat b < 128 then (Some result', advance s 1)
        else varint_loop (advance s 1) (digit_pos (Suc i)) result')"
proof -
  have "\<not> 64 \<le> digit_pos i" and "unat (digit_pos i) = 7 * i"
    using assms(2) by (simp_all add: digit_pos_ge_64 unat_digit_pos)
  moreover have "result OR push_bit (7 * i) (of_nat (unat b mod 128)) =
    result + of_nat (2 ^ (7 * i) * (unat b mod 128))"
    using or_push_bit_eq_add [OF assms(3), of "of_nat (unat b mod 128)"]
    by (simp add: push_bit_eq_mult mult.commute)
  ultimately show ?thesis
    using assms(1,4)
    by (subst varint_loop.simps)
      (simp add: pb_readbyte_buffer ucast_and_0x7F and_0x80_iff Let_def digit_pos_Suc
        del: of_nat_mult)
qed

lemma take_bit_next_digit:
  assumes "take_bit (7 * i) r = (r :: 'a::len word)"
  shows "take_bit (7 * Suc i) (r + of_nat (2 ^ (7 * i) * (n mod 128))) =
    r + of_nat (2 ^ (7 * i) * (n mod 128))"
  using take_bit_add_push_bit [OF assms take_bit_7_digit, of n]
  by (simp add: push_bit_eq_mult algebra_simps)

lemma varint_loop_buffer:
  assumes "is_buffer s" "i \<le> 10" "take_bit (7 * i) result = result"
  shows "varint_loop s (digit_pos i) result =
    (case split_varint (rest s) of
       Some (vs, r) \<Rightarrow>
         if i + length vs \<le> 10
         then (Some (result + of_nat (2 ^ (7 * i) * varint_val vs)), advance s (length vs))
         else (None, is_set_error (advance s (10 - i)) ''varint overflow'')
     | None \<Rightarrow>
         if 10 - i \<le> length (rest s)
         then (None, is_set_error (advance s (10 - i)) ''varint overflow'')
         else (None, is_set_error (advance s (length (rest s))) ''end-of-stream''))"
  using assms
proof (induction "rest s" arbitrary: s i result)
  case Nil
  then show ?case
    by (subst varint_loop.simps)
      (auto simp: digit_pos_ge_64 pb_readbyte_buffer simp flip: length_rest)
next
  case (Cons b bs)
  show ?case
  proof (cases "i = 10")
    case True
    with Cons show ?thesis
      by (subst varint_loop.simps)
        (auto simp: digit_pos_ge_64 split: option.splits dest: split_varint_append)
  next
    case False
    with Cons.prems have i: "i < 10" by simp
    define result' where "result' = result + of_nat (2 ^ (7 * i) * (unat b mod 128))"
    have bs: "rest (advance s 1) = bs" using Cons.hyps(2) [symmetric] by simp
    note step = varint_loop_step [OF Cons.prems(1) i Cons.prems(3) Cons.hyps(2) [symmetric]]
    have IH: "varint_loop (advance s 1) (digit_pos (Suc i)) result' =
      (case split_varint bs of
       Some (vs, r) \<Rightarrow>
         if Suc i + length vs \<le> 10
         then (Some (result' + of_nat (2 ^ (7 * Suc i) * varint_val vs)),
               advance (advance s 1) (length vs))
         else (None, is_set_error (advance (advance s 1) (10 - Suc i)) ''varint overflow'')
     | None \<Rightarrow>
         if 10 - Suc i \<le> length bs
         then (None, is_set_error (advance (advance s 1) (10 - Suc i)) ''varint overflow'')
         else (None, is_set_error (advance (advance s 1) (length bs)) ''end-of-stream''))"
    proof -
      have "is_buffer (advance s 1)" "Suc i \<le> 10" "take_bit (7 * Suc i) result' = result'"
        using Cons.prems i take_bit_next_digit [OF Cons.prems(3), of "unat b"]
        by (simp_all add: result'_def)
      from Cons.hyps(1) [OF bs [symmetric] this] show ?thesis by (simp only: bs)
    qed
    have val: "result' + of_nat (2 ^ (7 * Suc i) * v) =
        result + of_nat (2 ^ (7 * i) * (unat b mod 128 + 128 * v))" for v
      by (simp add: result'_def power_add distrib_left add.assoc mult.assoc)
    have val1: "result' = result + of_nat (2 ^ (7 * i) * (unat b mod 128))"
      by (simp add: result'_def)
    have steps: "varint_loop s (digit_pos i) result =
        (if unat b < 128 then (Some result', advance s 1)
         else varint_loop (advance s 1) (digit_pos (Suc i)) result')"
      using step by (simp add: Let_def result'_def)
    have "1 + (10 - Suc i) = 10 - i" using i by arith
    then have adv: "advance (advance s 1) (10 - Suc i) = advance s (10 - i)"
      by (simp only: advance_advance)
    show ?thesis
    proof (cases "split_varint bs")
      case None
      have "10 - i \<le> length (b # bs) \<longleftrightarrow> 10 - Suc i \<le> length bs" using i by auto
      with None i show ?thesis
        unfolding steps IH adv Cons.hyps(2) [symmetric] by (simp add: val1)
    next
      case (Some p)
      then obtain vs r where "split_varint bs = Some (vs, r)" by (cases p) auto
      with i show ?thesis
        unfolding steps IH adv Cons.hyps(2) [symmetric] val by (simp add: val1)
    qed
  qed
qed

lemma pb_decode_varint_buffer:
  assumes "is_buffer s"
  shows "pb_decode_varint s =
    (case split_varint (rest s) of
       Some (vs, r) \<Rightarrow>
         if length vs \<le> 10 then (Some (of_nat (varint_val vs)), advance s (length vs))
         else (None, is_set_error (advance s 10) ''varint overflow'')
     | None \<Rightarrow>
         if 10 \<le> length (rest s) then (None, is_set_error (advance s 10) ''varint overflow'')
         else (None, is_set_error (advance s (length (rest s))) ''end-of-stream''))"
  using varint_loop_buffer [OF assms, of 0 0]
  by (simp add: pb_decode_varint_def digit_pos_0 split: option.splits)

lemma pb_decode_varint_encoded:
  assumes "is_buffer s" and "rest s = varint_bytes n @ r" and "n < 2 ^ 64"
  shows "pb_decode_varint s = (Some (of_nat n), advance s (length (varint_bytes n)))"
  using assms length_varint_bytes_le [of n 10]
  by (simp add: pb_decode_varint_buffer)

subsection \<open>Skipping\<close>

lemma pb_skip_varint_buffer:
  assumes "is_buffer s"
  shows "pb_skip_varint s =
    (case split_varint (rest s) of
       Some (vs, r) \<Rightarrow> (True, advance s (length vs))
     | None \<Rightarrow> (False, is_set_error (advance s (length (rest s))) ''end-of-stream''))"
  using assms
proof (induction "rest s" arbitrary: s)
  case Nil
  then show ?case
    by (subst pb_skip_varint.simps) (auto simp: pb_read_buffer simp flip: length_rest)
next
  case (Cons b bs)
  have bs: "rest (advance s 1) = bs" using Cons.hyps(2) [symmetric] by simp
  have "is_buffer (advance s 1)" using Cons.prems by simp
  from Cons.hyps(1) [OF bs [symmetric] this]
  have IH: "pb_skip_varint (advance s 1) =
    (case split_varint bs of
       Some (vs, r) \<Rightarrow> (True, advance (advance s 1) (length vs))
     | None \<Rightarrow> (False, is_set_error (advance (advance s 1) (length bs)) ''end-of-stream''))"
    by (simp only: bs)
  have "pb_read s 1 = (Some [b], advance s 1)"
    using Cons.prems Cons.hyps(2) [symmetric] by (simp add: pb_read_buffer del: length_rest)
  then have step: "pb_skip_varint s =
      (if unat b < 128 then (True, advance s 1) else pb_skip_varint (advance s 1))"
    by (subst pb_skip_varint.simps) (simp add: and_0x80_iff)
  show ?case
    unfolding step IH Cons.hyps(2) [symmetric] by (auto split: option.splits)
qed

end
