(* ===== verification/Pb_Varint32.thy ===== *)
theory Pb_Varint32
  imports Pb_Wire_Read
begin

unbundle bit_operations_syntax

text \<open>
  The 32-bit varint reader \<^verbatim>\<open>pb_decode_varint32_eof\<close>, which also reads every key and every
  length: what it accepts and what it returns. It takes the varints of numbers below
  \<open>2 ^ 32\<close> and the ten-byte form of negative 32-bit numbers, and refuses every shorter
  varint of a larger number.
\<close>

subsection \<open>The loop on the bytes of a varint\<close>

text \<open>
  The decisions of the 32-bit reader on the bytes of a varint, at digit \<open>i\<close> with the low 32
  bits of the digits below in \<open>result\<close>.
\<close>

definition bad_digit32 :: "nat \<Rightarrow> u32 \<Rightarrow> byte \<Rightarrow> bool" where
  "bad_digit32 i result b =
     (5 \<le> i \<and> unat b mod 128 \<noteq> 0 \<and> (unat result < 2 ^ 31 \<or> b \<noteq> (if i < 9 then 0xFF else 1)))"

definition put_digit32 :: "nat \<Rightarrow> u32 \<Rightarrow> byte \<Rightarrow> u32" where
  "put_digit32 i result b = result + of_nat (2 ^ (7 * i) * (unat b mod 128))"

primrec digits32 :: "nat \<Rightarrow> u32 \<Rightarrow> byte list \<Rightarrow> u32 option" where
  "digits32 i result [] = None"
| "digits32 i result (b # bs) =
     (if bad_digit32 i result b then None
      else if 128 \<le> unat b then digits32 (Suc i) (put_digit32 i result b) bs
      else if i = 4 \<and> 16 \<le> unat b mod 128 then None
      else Some (put_digit32 i result b))"

lemma digit_pos_cmp:
  assumes "i \<le> 36"
  shows "32 \<le> digit_pos i \<longleftrightarrow> 5 \<le> i" "digit_pos i < 63 \<longleftrightarrow> i < 9"
    "digit_pos (Suc i) = 35 \<longleftrightarrow> i = 4"
proof -
  show "32 \<le> digit_pos i \<longleftrightarrow> 5 \<le> i" "digit_pos i < 63 \<longleftrightarrow> i < 9"
    using assms by (auto simp: word_le_nat_alt word_less_nat_alt unat_digit_pos)
  show "digit_pos (Suc i) = 35 \<longleftrightarrow> i = 4"
  proof (cases "i = 36")
    case True
    then show ?thesis by (simp add: digit_pos_def)
  next
    case False
    with assms have "unat (digit_pos (Suc i)) = 7 * Suc i" by (intro unat_digit_pos) simp
    then show ?thesis by (auto simp: digit_pos_def)
  qed
qed

lemma high_digit_32: "5 \<le> i \<Longrightarrow> (of_nat (2 ^ (7 * i) * d) :: u32) = 0"
proof -
  assume "5 \<le> i"
  then have "(2::nat) ^ 32 dvd 2 ^ (7 * i)" by (intro le_imp_power_dvd) simp
  then show ?thesis by (simp add: word_of_nat_eq_0_iff del: of_nat_mult of_nat_power)
qed

lemma drop_bit_31_iff: "drop_bit 31 (r :: u32) = 0 \<longleftrightarrow> unat r < 2 ^ 31"
  by (metis div_eq_0_iff drop_bit_eq_div unat_drop_bit_eq unat_eq_0 zero_neq_numeral power_eq_0_iff)

lemma varint32_loop_step:
  assumes "is_buffer s" "i \<le> 36" "rest s = b # bs"
    and "i < 5 \<longrightarrow> take_bit (7 * i) result = result"
  shows "varint32_loop s (digit_pos i) result =
    (if bad_digit32 i result b then (None, is_set_error (advance s 1) ''varint overflow'')
     else if 128 \<le> unat b
     then varint32_loop (advance s 1) (digit_pos (Suc i)) (put_digit32 i result b)
     else if i = 4 \<and> 16 \<le> unat b mod 128
     then (None, is_set_error (advance s 1) ''varint overflow'')
     else (Some (put_digit32 i result b), advance s 1))"
proof -
  have nz: "b AND 0x7F = 0 \<longleftrightarrow> unat b mod 128 = 0"
    by (metis unat_and_0x7F unat_eq_0)
  have res: "(if 5 \<le> i then result
      else result OR push_bit (unat (digit_pos i)) (ucast (b AND 0x7F))) =
    result + of_nat (2 ^ (7 * i) * (unat b mod 128))"
  proof (cases "5 \<le> i")
    case True
    then show ?thesis using high_digit_32 [OF True, of "unat b mod 128"] by (simp del: of_nat_mult)
  next
    case False
    then have "take_bit (7 * i) result = result" using assms(4) by simp
    from or_push_bit_eq_add [OF this, of "of_nat (unat b mod 128)"] False
    show ?thesis by (simp add: unat_digit_pos ucast_and_0x7F push_bit_eq_mult mult.commute)
  qed
  have last: "b AND 0x70 \<noteq> 0 \<longleftrightarrow> 16 \<le> unat b mod 128" by (simp add: and_0x70_iff not_less)
  have cont: "b AND 0x80 \<noteq> 0 \<longleftrightarrow> 128 \<le> unat b" by (simp add: and_0x80_iff not_less)
  show ?thesis
    using assms(1,3)
    by (subst varint32_loop.simps)
      (simp only: pb_readbyte_buffer list.case prod.case option.case digit_pos_cmp [OF assms(2)]
        digit_pos_Suc nz drop_bit_31_iff res cont last Let_def bad_digit32_def put_digit32_def)
qed

lemma varint32_loop_digits:
  assumes "is_buffer s" "split_varint (rest s) = Some (vs, r)" "i + length vs \<le> 37"
    and "i < 5 \<longrightarrow> take_bit (7 * i) result = result"
  shows "case digits32 i result vs of
      Some x \<Rightarrow> varint32_loop s (digit_pos i) result = (Some x, advance s (length vs))
    | None \<Rightarrow> \<exists>s'. varint32_loop s (digit_pos i) result = (None, s')"
  using assms
proof (induction "rest s" arbitrary: s i result vs)
  case Nil
  then show ?case by simp
next
  case (Cons b bs)
  obtain vs' where vs: "vs = b # vs'" "128 \<le> unat b \<longrightarrow> split_varint bs = Some (vs', r)"
      "unat b < 128 \<longrightarrow> vs' = []"
    using Cons.prems(2) Cons.hyps(2) [symmetric]
    by (auto split: if_splits option.splits)
  have i: "i \<le> 36" using Cons.prems(3) vs(1) by simp
  define result' where "result' = put_digit32 i result b"
  have bs: "rest (advance s 1) = bs" using Cons.hyps(2) [symmetric] by simp
  note step = varint32_loop_step [OF Cons.prems(1) i Cons.hyps(2) [symmetric] Cons.prems(4),
      folded result'_def]
  have IH: "128 \<le> unat b \<Longrightarrow> case digits32 (Suc i) result' vs' of
      Some x \<Rightarrow> varint32_loop (advance s 1) (digit_pos (Suc i)) result' =
        (Some x, advance (advance s 1) (length vs'))
    | None \<Rightarrow> \<exists>s'. varint32_loop (advance s 1) (digit_pos (Suc i)) result' = (None, s')"
  proof -
    assume b: "128 \<le> unat b"
    have "Suc i < 5 \<longrightarrow> take_bit (7 * Suc i) result' = result'"
      using take_bit_next_digit [of i result "unat b"] Cons.prems(4) by (auto simp: result'_def put_digit32_def)
    then show ?thesis
      using Cons.hyps(1) [of "advance s 1" vs' "Suc i" result'] bs b vs Cons.prems(1,3) by simp
  qed
  show ?case
    using IH vs(3) unfolding vs(1) step digits32.simps result'_def [symmetric]
    by (cases "bad_digit32 i result b"; cases "128 \<le> unat b"; cases "i = 4 \<and> 16 \<le> unat b mod 128")
      (simp_all del: digits32.simps split: option.splits)
qed

subsection \<open>Which numbers the 32-bit reader accepts\<close>

definition is_varint :: "byte list \<Rightarrow> bool" where
  "is_varint vs = (split_varint vs = Some (vs, []))"

lemma is_varint_Nil [simp]: "\<not> is_varint []"
  by (simp add: is_varint_def)

lemma is_varint_Cons [simp]:
  "is_varint (b # vs) \<longleftrightarrow> (if unat b < 128 then vs = [] else is_varint vs)"
  by (auto simp: is_varint_def split: option.splits)

lemma split_varint_is_varint: "split_varint bs = Some (vs, r) \<Longrightarrow> is_varint vs"
  by (induction bs arbitrary: vs) (auto split: if_splits option.splits)

lemma is_varint_bytes [simp]: "is_varint (varint_bytes n)"
  using split_varint_bytes [of n "[]"] by (simp add: is_varint_def)

lemma digits32_sound:
  "is_varint vs \<Longrightarrow> digits32 i result vs = Some x \<Longrightarrow> x = result + of_nat (2 ^ (7 * i) * varint_val vs)"
proof (induction vs arbitrary: i result)
  case (Cons b vs)
  have put: "put_digit32 i result b + of_nat (2 ^ (7 * Suc i) * v) =
      result + of_nat (2 ^ (7 * i) * (unat b mod 128 + 128 * v))" for v
    by (simp add: put_digit32_def power_add distrib_left add.assoc mult.assoc)
  show ?case
  proof (cases "128 \<le> unat b")
    case True
    then have "digits32 (Suc i) (put_digit32 i result b) vs = Some x" "is_varint vs" using Cons.prems by (simp_all split: if_splits)
    from Cons.IH [OF this(2,1)] show ?thesis by (simp only: put varint_val.simps)
  next
    case False
    then have "x = put_digit32 i result b" "vs = []"
      using Cons.prems by (simp_all split: if_splits)
    then show ?thesis using put [of 0] by simp
  qed
qed simp

lemma digits32_complete:
  assumes "is_varint vs" "2 ^ (7 * i) * varint_val vs < 2 ^ 32"
  shows "digits32 i result vs \<noteq> None"
  using assms
proof (induction vs arbitrary: i result)
  case Nil
  then show ?case by simp
next
  case (Cons b vs)
  let ?d = "unat b mod 128"
  have "2 ^ (7 * i) * ?d \<le> 2 ^ (7 * i) * varint_val (b # vs)" by simp
  then have d: "2 ^ (7 * i) * ?d < 2 ^ 32" using Cons.prems(2) by (rule le_less_trans)
  have high: "?d = 0" if "5 \<le> i"
  proof (rule ccontr)
    assume "?d \<noteq> 0"
    then have "(2::nat) ^ (7 * i) \<le> 2 ^ (7 * i) * ?d" by simp
    moreover have "(2::nat) ^ 32 \<le> 2 ^ (7 * i)" using that by (intro power_increasing) simp_all
    ultimately show False using d by linarith
  qed
  have four: "?d < 16" if "i = 4" using d that by simp
  have "2 ^ (7 * Suc i) * varint_val vs \<le> 2 ^ (7 * i) * varint_val (b # vs)"
    by (simp add: power_add algebra_simps)
  then have "2 ^ (7 * Suc i) * varint_val vs < 2 ^ 32" using Cons.prems(2) by (rule le_less_trans)
  then have "128 \<le> unat b \<Longrightarrow> digits32 (Suc i) (put_digit32 i result b) vs \<noteq> None"
    using Cons.IH Cons.prems(1) by simp
  then show ?case using high four by (cases "128 \<le> unat b") (auto simp: bad_digit32_def)
qed

lemma digits32_reject:
  assumes "is_varint vs" "5 \<le> i + length vs - 1 \<and> i + length vs - 1 \<le> 8 \<and> last vs \<noteq> 0 \<or>
    i + length vs - 1 = 4 \<and> 16 \<le> unat (last vs)"
  shows "digits32 i result vs = None"
  using assms
proof (induction vs arbitrary: i result)
  case Nil
  then show ?case by simp
next
  case (Cons b vs)
  show ?case
  proof (cases "unat b < 128")
    case True
    then have vs: "vs = []" using Cons.prems(1) by simp
    have "b \<noteq> 0 \<Longrightarrow> unat b mod 128 \<noteq> 0" using True by (simp add: unat_eq_0)
    moreover have "b \<noteq> 0xFF" using True by auto
    ultimately show ?thesis
      using Cons.prems(2) True by (auto simp: vs bad_digit32_def)
  next
    case False
    then have "is_varint vs" using Cons.prems(1) by simp
    moreover from this have "vs \<noteq> []" by auto
    ultimately have "digits32 (Suc i) (put_digit32 i result b) vs = None"
      using Cons.IH [of "Suc i"] Cons.prems(2) by simp
    then show ?thesis using False by simp
  qed
qed

lemma last_varint_bytes:
  "128 ^ k \<le> n \<Longrightarrow> n < 128 ^ Suc k \<Longrightarrow>
   length (varint_bytes n) = Suc k \<and> last (varint_bytes n) = of_nat (n div 128 ^ k)"
proof (induction k arbitrary: n)
  case 0
  then show ?case by (simp add: varint_bytes.simps)
next
  case (Suc k)
  have le: "128 ^ k \<le> n div 128" using Suc.prems(1) by (simp add: less_eq_div_iff_mult_less_eq mult.commute)
  have less: "n div 128 < 128 ^ Suc k" using Suc.prems(2) by (simp add: less_mult_imp_div_less mult.commute)
  have "(128::nat) \<le> 128 ^ Suc k" by simp
  also note Suc.prems(1)
  finally have "\<not> n < 128" by simp
  then have unroll: "varint_bytes n = of_nat (128 + n mod 128) # varint_bytes (n div 128)"
    by (subst varint_bytes.simps) simp
  have "n div 128 div 128 ^ k = n div 128 ^ Suc k" by (simp add: div_mult2_eq)
  then show ?case
    using Suc.IH [OF le less] unfolding unroll by simp
qed

lemma digits32_reject_wide:
  assumes "2 ^ 32 \<le> n" "n < 2 ^ 63"
  shows "digits32 0 0 (varint_bytes n) = None"
proof -
  have "\<exists>k\<in>{4,5,6,7,8}. 128 ^ k \<le> n \<and> n < 128 ^ Suc k"
    using assms by (auto simp: not_less [symmetric])
  then obtain k where k: "k \<in> {4, 5, 6, 7, 8}" "128 ^ k \<le> n" "n < 128 ^ Suc k" by blast
  note l = last_varint_bytes [OF k(2,3)]
  have top: "n div 128 ^ k < 128" using k(3) by (simp add: less_mult_imp_div_less mult.commute)
  have "0 < n div 128 ^ k" using k(2) by (simp add: div_greater_zero_iff)
  then have "last (varint_bytes n) \<noteq> 0" using l top by (simp add: word_of_nat_eq_0_iff nat_dvd_not_less)
  moreover have "16 \<le> unat (last (varint_bytes n))" if "k = 4"
  proof -
    have "16 \<le> n div 128 ^ 4" using assms(1) by (simp add: less_eq_div_iff_mult_less_eq)
    then show ?thesis using l top that by (simp add: unat_of_nat_small)
  qed
  ultimately show ?thesis
    using k(1) l by (intro digits32_reject) auto
qed

lemma put_digit32_high: "5 \<le> i \<Longrightarrow> put_digit32 i r b = r"
  by (simp only: put_digit32_def high_digit_32 add_0_right)

text \<open>A negative 32-bit number is sent as the ten bytes of its 64-bit representation.\<close>

lemma varint_bytes_unroll:
  "128 \<le> n \<Longrightarrow> varint_bytes n = of_nat (128 + n mod 128) # varint_bytes (n div 128)"
  by (subst varint_bytes.simps) simp

lemma digits32_continue:
  assumes "i < 5" "128 \<le> n"
  shows "digits32 i result (varint_bytes n) =
    digits32 (Suc i) (result + of_nat (2 ^ (7 * i) * (n mod 128))) (varint_bytes (n div 128))"
proof -
  have "unat (of_nat (128 + n mod 128) :: byte) = 128 + n mod 128" by (rule unat_cont_byte)
  moreover have "(128 + n mod 128) mod 128 = n mod 128" by simp
  ultimately show ?thesis
    unfolding varint_bytes_unroll [OF assms(2)] using assms(1)
    by (simp add: bad_digit32_def put_digit32_def del: of_nat_mult of_nat_add)
qed

lemma digits32_prefix:
  assumes "k \<le> 5" "\<And>j. j < k \<Longrightarrow> 128 \<le> n div 128 ^ j"
  shows "digits32 0 0 (varint_bytes n) =
    digits32 k (of_nat (n mod 128 ^ k)) (varint_bytes (n div 128 ^ k))"
  using assms
proof (induction k)
  case 0
  then show ?case by simp
next
  case (Suc k)
  have pow: "2 ^ (7 * k) = (128 :: nat) ^ k" by (simp add: power_mult)
  have "n mod 128 ^ Suc k = n mod 128 ^ k + 2 ^ (7 * k) * (n div 128 ^ k mod 128)"
    unfolding pow using mod_mult2_eq [of n "128 ^ k" 128] by (simp add: mult.commute)
  moreover have "n div 128 ^ k div 128 = n div 128 ^ Suc k"
    by (simp add: div_mult2_eq [symmetric] mult.commute)
  ultimately show ?case
    using Suc digits32_continue [of k "n div 128 ^ k" "of_nat (n mod 128 ^ k)"]
    by (simp del: of_nat_mult of_nat_power power_Suc)
qed

lemma digits32_sign_extended:
  assumes "2 ^ 64 - 2 ^ 31 \<le> n" "n < 2 ^ 64"
  shows "digits32 0 0 (varint_bytes n) = Some (of_nat n)"
proof -
  have big: "128 \<le> n div 128 ^ k" if "k < 5" for k
  proof -
    have "(128::nat) ^ k \<le> 128 ^ 4" using that by (intro power_increasing) simp_all
    then have "128 * 128 ^ k \<le> n" using assms(1) by simp
    then show ?thesis by (simp add: less_eq_div_iff_mult_less_eq)
  qed
  have top: "n div 128 ^ 5 = 2 ^ 29 - 1"
    using assms by (intro div_nat_eqI) simp_all
  define r :: u32 where "r = of_nat (n mod 128 ^ 5)"
  have "digits32 0 0 (varint_bytes n) = digits32 5 r [0xFF, 0xFF, 0xFF, 0xFF, 1]"
  proof -
    have "varint_bytes (2 ^ 29 - 1) = [0xFF, 0xFF, 0xFF, 0xFF, 1]"
      by (simp add: varint_bytes.simps)
    then show ?thesis
      using digits32_prefix [OF _ big, of 5] unfolding r_def top by (simp only: order_refl)
  qed
  moreover have "2 ^ 31 \<le> unat r"
  proof -
    have "n mod 128 ^ 5 mod 2 ^ 32 = n mod 2 ^ 32" by (simp add: mod_mod_cancel)
    moreover have "n mod 2 ^ 32 = n - (2 ^ 64 - 2 ^ 32)"
      using assms mod_nat_eqI [of "n - (2 ^ 64 - 2 ^ 32)" "2 ^ 32" n] by simp
    ultimately show ?thesis
      using assms by (simp add: r_def unat_of_nat take_bit_eq_mod del: of_nat_mod)
  qed
  moreover from this have "digits32 5 r [0xFF, 0xFF, 0xFF, 0xFF, 1] \<noteq> None"
    by (simp add: bad_digit32_def put_digit32_high)
  ultimately obtain x where x: "digits32 0 0 (varint_bytes n) = Some x" by auto
  then show ?thesis using digits32_sound [OF is_varint_bytes x] by simp
qed


lemma pb_decode_varint32_digits:
  assumes "is_buffer s" "split_varint (rest s) = Some (vs, r)" "length vs \<le> 37"
  shows "case digits32 0 0 vs of
      Some x \<Rightarrow> pb_decode_varint32_eof s = (Some x, False, advance s (length vs))
    | None \<Rightarrow> \<exists>s'. pb_decode_varint32_eof s = (None, False, s')"
proof -
  obtain b bs where rest: "rest s = b # bs" using assms(2) by (cases "rest s") auto
  show ?thesis
  proof (cases "unat b < 128")
    case True
    then have "vs = [b]" using assms(2) rest by simp
    moreover have "b AND 0x80 = 0" using True by (simp add: and_0x80_iff)
    ultimately show ?thesis
      using True assms(1) rest
      by (simp add: pb_decode_varint32_eof_def pb_readbyte_buffer bad_digit32_def put_digit32_def)
  next
    case False
    then obtain vs' where vs: "vs = b # vs'" "split_varint bs = Some (vs', r)"
      using assms(2) rest by (auto split: option.splits)
    have "b AND 0x80 \<noteq> 0" using False by (simp add: and_0x80_iff)
    then have start: "pb_decode_varint32_eof s =
        (case varint32_loop (advance s 1) (digit_pos 1) (put_digit32 0 0 b) of
          (r, s2) \<Rightarrow> (r, False, s2))"
      using assms(1) rest
      by (simp add: pb_decode_varint32_eof_def pb_readbyte_buffer put_digit32_def
          ucast_and_0x7F digit_pos_def)
    have "take_bit 7 (put_digit32 0 0 b) = put_digit32 0 0 b"
      using take_bit_7_digit [of "unat b"] by (simp only: put_digit32_def) simp
    then have "case digits32 1 (put_digit32 0 0 b) vs' of
        Some x \<Rightarrow> varint32_loop (advance s 1) (digit_pos 1) (put_digit32 0 0 b) =
          (Some x, advance (advance s 1) (length vs'))
      | None \<Rightarrow> \<exists>s'. varint32_loop (advance s 1) (digit_pos 1) (put_digit32 0 0 b) = (None, s')"
      using assms(1,3) vs rest by (intro varint32_loop_digits) simp_all
    moreover have "digits32 0 0 vs = digits32 1 (put_digit32 0 0 b) vs'"
      using False by (simp add: vs(1) bad_digit32_def)
    ultimately show ?thesis
      unfolding start by (auto simp: vs(1) split: option.splits)
  qed
qed

lemma pb_decode_varint32_eof_encoded:
  assumes "is_buffer s" "rest s = varint_bytes n @ r"
    and "n < 2 ^ 32 \<or> 2 ^ 64 - 2 ^ 31 \<le> n \<and> n < 2 ^ 64"
  shows "pb_decode_varint32_eof s = (Some (of_nat n), False, advance s (length (varint_bytes n)))"
proof -
  have "digits32 0 0 (varint_bytes n) = Some (of_nat n)"
  proof (cases "n < 2 ^ 32")
    case True
    then obtain x where "digits32 0 0 (varint_bytes n) = Some x"
      using digits32_complete [of "varint_bytes n" 0 0] by auto
    then show ?thesis using digits32_sound [of "varint_bytes n" 0 0 x] by simp
  next
    case False
    then show ?thesis using assms(3) digits32_sign_extended by simp
  qed
  moreover have "length (varint_bytes n) \<le> 37"
    using assms(3) length_varint_bytes_le [of n 10] by auto
  ultimately show ?thesis
    using pb_decode_varint32_digits [OF assms(1), of "varint_bytes n" r] assms(2) by simp
qed

lemma pb_decode_varint32_eof_wide:
  assumes "is_buffer s" "rest s = varint_bytes n @ r" "2 ^ 32 \<le> n" "n < 2 ^ 63"
  shows "\<exists>s'. pb_decode_varint32_eof s = (None, False, s')"
proof -
  have "length (varint_bytes n) \<le> 37"
    using assms(4) length_varint_bytes_le [of n 10] by auto
  then show ?thesis
    using pb_decode_varint32_digits [OF assms(1), of "varint_bytes n" r] assms(2)
      digits32_reject_wide [OF assms(3,4)] by simp
qed

end
