(* ===== verification/Pb_Wire_Correct.thy ===== *)
theory Pb_Wire_Correct
  imports Pb_Encode_Correct Pb_Varint32
begin

unbundle bit_operations_syntax

text \<open>
  The readers and the writers of nanopb together: what a writer emitted is what the
  matching reader returns, the skipping functions step over exactly one field, and no
  reader, on any input, moves beyond the bytes its stream was given.
\<close>

subsection \<open>The readers on written values\<close>

lemma unzigzag_word:
  fixes v z :: u64
  assumes z: "z = (if sint v < 0 then NOT (push_bit 1 v) else push_bit 1 v)"
  shows "(if z AND 1 \<noteq> 0 then NOT (drop_bit 1 z) else drop_bit 1 z) = v"
proof -
  have neg: "sint v < 0 \<longleftrightarrow> bit v 63"
    using bit_last_iff [of v] by simp
  have odd: "z AND 1 \<noteq> 0 \<longleftrightarrow> bit v 63"
  proof -
    have "bit z 0 \<longleftrightarrow> bit v 63"
      unfolding z neg by (simp only: bit_not_iff bit_push_bit_iff split: if_split) simp
    then show ?thesis by (simp add: and_one_eq mod_2_eq_odd bit_0)
  qed
  define p where "p = push_bit 1 v"
  have push: "bit p (Suc k) \<longleftrightarrow> k < 63 \<and> bit v k" for k
    by (simp only: p_def bit_push_bit_iff) (auto dest: bit_imp_le_length)
  have "NOT (drop_bit 1 (NOT p)) = v" if "bit v 63"
  proof (rule bit_word_eqI)
    fix k assume "k < LENGTH(64)"
    then show "bit (NOT (drop_bit 1 (NOT p))) k \<longleftrightarrow> bit v k"
      using that by (cases "k = 63") (auto simp: bit_not_iff bit_drop_bit_eq push)
  qed
  moreover have "drop_bit 1 p = v" if "\<not> bit v 63"
  proof (rule bit_word_eqI)
    fix k assume "k < LENGTH(64)"
    then show "bit (drop_bit 1 p) k \<longleftrightarrow> bit v k"
      using that by (cases "k = 63") (auto simp: bit_drop_bit_eq push dest: bit_imp_le_length)
  qed
  ultimately show ?thesis unfolding odd unfolding z neg p_def [symmetric] by simp
qed

lemma pb_decode_svarint_encoded:
  assumes "is_buffer s" "rest s = varint_bytes (zigzag (sint (v :: u64))) @ r"
  shows "pb_decode_svarint s = (Some v, advance s (length (varint_bytes (zigzag (sint v)))))"
proof -
  define z where "z = (if sint v < 0 then NOT (push_bit 1 v) else push_bit 1 v)"
  have z: "unat z = zigzag (sint v)" unfolding z_def by (rule unat_zigzag)
  then have "zigzag (sint v) < 2 ^ 64" using u64_less [of z] by simp
  from pb_decode_varint_encoded [OF assms this]
  have "pb_decode_varint s = (Some z, advance s (length (varint_bytes (zigzag (sint v)))))"
    by (simp flip: z)
  then show ?thesis
    using unzigzag_word [OF z_def] by (simp add: pb_decode_svarint_def)
qed

lemma bytes_to_word_4:
  "length b = 4 \<Longrightarrow> push_bit 0 (ucast (b ! 0)) OR push_bit 8 (ucast (b ! 1)) OR
     push_bit 16 (ucast (b ! 2)) OR push_bit 24 (ucast (b ! 3)) = (bytes_to_word b :: 'a::len word)"
  by (auto simp: numeral_eq_Suc length_Suc_conv push_bit_or or.assoc)

lemma bytes_to_word_8:
  "length b = 8 \<Longrightarrow> push_bit 0 (ucast (b ! 0)) OR push_bit 8 (ucast (b ! 1)) OR
     push_bit 16 (ucast (b ! 2)) OR push_bit 24 (ucast (b ! 3)) OR push_bit 32 (ucast (b ! 4)) OR
     push_bit 40 (ucast (b ! 5)) OR push_bit 48 (ucast (b ! 6)) OR push_bit 56 (ucast (b ! 7)) =
   (bytes_to_word b :: 'a::len word)"
  by (auto simp: numeral_eq_Suc length_Suc_conv push_bit_or or.assoc)

lemma pb_decode_fixed32_buffer:
  assumes "is_buffer s" "4 \<le> length (rest s)"
  shows "pb_decode_fixed32 s = (Some (bytes_to_word (take 4 (rest s))), advance s 4)"
  using assms bytes_to_word_4 [of "take 4 (rest s)"]
  by (simp add: pb_decode_fixed32_def pb_read_buffer del: length_rest)

lemma pb_decode_fixed64_buffer:
  assumes "is_buffer s" "8 \<le> length (rest s)"
  shows "pb_decode_fixed64 s = (Some (bytes_to_word (take 8 (rest s))), advance s 8)"
  using assms bytes_to_word_8 [of "take 8 (rest s)"]
  by (simp add: pb_decode_fixed64_def pb_read_buffer del: length_rest)

lemma key_val_bounds: "k < 2 ^ 29 \<Longrightarrow> wt < 8 \<Longrightarrow> key_val k wt < 2 ^ 32"
  by (simp add: key_val_def)

lemma pb_decode_tag_encoded:
  assumes "is_buffer s" "rest s = varint_bytes (key_val (unat n) (unat wt)) @ r"
    and "unat n < 2 ^ 29" "unat wt < 8" "n \<noteq> 0"
  shows "pb_decode_tag s =
    (Some (wt, n), False, advance s (length (varint_bytes (key_val (unat n) (unat wt)))))"
proof -
  define t :: u32 where "t = of_nat (key_val (unat n) (unat wt))"
  have t: "unat t = 8 * unat n + unat wt"
    using key_val_bounds [OF assms(3,4)] by (simp add: t_def unat_of_nat_small) (simp add: key_val_def)
  have "unat (t AND 7) = unat wt"
  proof -
    have "t AND 7 = take_bit 3 t" by (simp add: take_bit_eq_mask mask_eq_exp_minus_1)
    then have "unat (t AND 7) = take_bit 3 (unat t)" by (simp only: unsigned_take_bit_eq)
    then show ?thesis using t assms(4) by (simp add: take_bit_eq_mod)
  qed
  then have "t AND 7 = wt" by (simp add: word_unat_eq_iff)
  moreover have "unat (drop_bit 3 t) = unat n"
    using t assms(4) by (simp only: unat_drop_bit_eq) (simp add: drop_bit_eq_div)
  then have "drop_bit 3 t = n" by (simp only: word_unat_eq_iff)
  moreover have "t \<noteq> 0" using t assms(5) by (auto simp: unat_eq_0)
  ultimately show ?thesis
    using pb_decode_varint32_eof_encoded [OF assms(1,2)] key_val_bounds [OF assms(3,4)]
    by (simp add: pb_decode_tag_def t_def [symmetric])
qed

subsection \<open>Length-delimited blocks\<close>

lemma pb_decode_varint32_encoded:
  assumes "is_buffer s" "rest s = varint_bytes n @ r" "n < 2 ^ 32"
  shows "pb_decode_varint32 s = (Some (of_nat n), advance s (length (varint_bytes n)))"
  using pb_decode_varint32_eof_encoded [OF assms(1,2)] assms(3)
  by (simp add: pb_decode_varint32_def)

lemma delimited_length_read:
  assumes "is_buffer s" "rest s = delimited bs @ r" "length bs < 2 ^ 32"
  defines "s1 \<equiv> advance s (length (varint_bytes (length bs)))"
  shows "pb_decode_varint32 s = (Some (of_nat (length bs)), s1)"
    and "is_buffer s1" and "rest s1 = bs @ r"
    and "unat (ucast (of_nat (length bs) :: u32) :: u64) = length bs"
proof -
  show "pb_decode_varint32 s = (Some (of_nat (length bs)), s1)"
    using pb_decode_varint32_encoded [OF assms(1) _ assms(3)] assms(2)
    by (simp add: s1_def delimited_def)
  show "is_buffer s1" using assms(1) by (simp add: s1_def)
  show "rest s1 = bs @ r" using assms(2) by (simp add: s1_def rest_advance delimited_def)
  show "unat (ucast (of_nat (length bs) :: u32) :: u64) = length bs"
    using assms(3) by (simp add: unat_ucast_up unat_of_nat_small)
qed

lemma pb_skip_string_delimited:
  assumes "is_buffer s" "rest s = delimited bs @ r" "length bs < 2 ^ 32"
  shows "pb_skip_string s = (True, advance s (length (delimited bs)))"
  using delimited_length_read [OF assms]
  by (simp add: pb_skip_string_def pb_read_null_buffer delimited_def del: length_rest)

text \<open>
  The substream reads exactly the block; closing it leaves the parent behind the block,
  wherever the substream stopped.
\<close>

lemma pb_make_string_substream_delimited:
  assumes "is_buffer s" "rest s = delimited bs @ r" "length bs < 2 ^ 32"
  obtains sub par where "pb_make_string_substream s = (Some sub, par)"
    and "is_buffer sub" and "rest sub = bs" and "is_errmsg sub = is_errmsg s"
    and "par = s\<lparr>is_state := is_state sub, bytes_left := of_nat (length r)\<rparr>"
    and "\<And>k. k \<le> length bs \<Longrightarrow>
      pb_close_string_substream par (advance sub k) = (True, advance s (length (delimited bs)))"
proof -
  define s1 where "s1 = advance s (length (varint_bytes (length bs)))"
  define sz :: u64 where "sz = ucast (of_nat (length bs) :: u32)"
  note L = delimited_length_read [OF assms, folded s1_def, folded sz_def]
  have left: "unat (bytes_left s1) = length bs + length r"
    using L(3) by (metis length_append length_rest)
  define sub where "sub = s1\<lparr>bytes_left := sz\<rparr>"
  define par where "par = s1\<lparr>bytes_left := bytes_left s1 - sz\<rparr>"
  have sz: "sz = of_nat (length bs)" using L(4) by (metis of_nat_unat ucast_id)
  have "\<not> bytes_left s1 < sz" using left L(4) by (simp add: word_less_nat_alt)
  then have make: "pb_make_string_substream s = (Some sub, par)"
    by (simp add: pb_make_string_substream_def L(1) sub_def par_def sz_def [symmetric])
  have "rest sub = take (length bs) (rest s1)"
    using left by (simp add: rest_def sub_def L(4) take_load_bytes)
  then have rest: "rest sub = bs" using L(3) by simp
  have buf: "is_buffer sub" using L(2) by (simp add: sub_def is_buffer_iff)
  have "unat (bytes_left s1 - sz) = length r"
    using left by (simp add: sz unat_sub_of_nat)
  then have "bytes_left s1 - sz = of_nat (length r)" by (metis of_nat_unat ucast_id)
  then have par: "par = s\<lparr>is_state := is_state sub, bytes_left := of_nat (length r)\<rparr>"
    by (simp add: par_def sub_def s1_def advance_def)
  show thesis
  proof (rule that [OF make buf rest _ par])
    show "is_errmsg sub = is_errmsg s" by (simp add: sub_def s1_def)
    fix k assume k: "k \<le> length bs"
    have "unat (bytes_left (advance sub k)) = length bs - k"
      using k L(4) by (simp add: unat_bytes_left_advance sub_def)
    then have "(if bytes_left (advance sub k) \<noteq> 0
         then pb_read_null (advance sub k) (bytes_left (advance sub k))
         else (True, advance sub k)) = (True, advance sub (length bs))"
      using k buf by (auto simp: pb_read_null_buffer unat_eq_0)
    then have "pb_close_string_substream par (advance sub k) =
        (True, par\<lparr>is_state := is_state (advance sub (length bs)), is_errmsg := is_errmsg s1,
                    is_world := is_world s1\<rparr>)"
      by (simp only: pb_close_string_substream_def Let_def prod.case not_True_eq_False if_False)
        (simp add: sub_def)
    also have "\<dots> = (True, advance s (length (delimited bs)))"
      by (simp add: par_def sub_def s1_def advance_def delimited_def sz algebra_simps)
    finally show "pb_close_string_substream par (advance sub k) =
        (True, advance s (length (delimited bs)))" .
  qed
qed

subsection \<open>Skipping fields\<close>

definition payload :: "wire_type \<Rightarrow> byte list \<Rightarrow> bool" where
  "payload wt bs =
     (if wt = PB_WT_VARINT then is_varint bs
      else if wt = PB_WT_64BIT then length bs = 8
      else if wt = PB_WT_STRING then
        (case split_varint bs of None \<Rightarrow> False
         | Some (vs, p) \<Rightarrow> bs = delimited p \<and> length p < 2 ^ 32)
      else wt = PB_WT_32BIT \<and> length bs = 4)"

lemma split_varint_append_varint: "is_varint vs \<Longrightarrow> split_varint (vs @ r) = Some (vs, r)"
  by (induction vs) (auto split: if_splits)

lemma pb_skip_field_payload:
  assumes "is_buffer s" "payload wt bs" "rest s = bs @ r"
  shows "pb_skip_field s wt = (True, advance s (length bs))"
proof -
  consider "wt = PB_WT_VARINT" "is_varint bs" | "wt = PB_WT_64BIT" "length bs = 8"
    | p where "wt = PB_WT_STRING" "bs = delimited p" "length p < 2 ^ 32"
    | "wt = PB_WT_32BIT" "length bs = 4"
    using assms(2) by (auto simp: payload_def split: if_splits option.splits)
  then show ?thesis
  proof cases
    case 1
    then show ?thesis
      using assms by (simp add: pb_skip_field_def pb_skip_varint_buffer split_varint_append_varint)
  next
    case 2
    then show ?thesis
      using assms by (simp add: pb_skip_field_def pb_read_null_buffer pb_const del: length_rest)
  next
    case (3 p)
    then show ?thesis
      using pb_skip_string_delimited [OF assms(1) _ 3(3), of r] assms(3)
      by (simp add: pb_skip_field_def pb_const)
  next
    case 4
    then show ?thesis
      using assms by (simp add: pb_skip_field_def pb_read_null_buffer pb_const del: length_rest)
  qed
qed

subsection \<open>Readers stay inside the buffer\<close>

text \<open>
  The bytes that \<open>s'\<close> may still read are among those that \<open>s\<close> could, and no earlier.
\<close>

definition reads_within :: "'w pb_istream_t \<Rightarrow> 'w pb_istream_t \<Rightarrow> bool" where
  "reads_within s s' =
     (is_callback s' = is_callback s \<and> is_mem s' = is_mem s \<and>
      (\<exists>k. is_state s' = is_state s + of_nat k \<and>
           k + unat (bytes_left s') \<le> unat (bytes_left s)))"

lemma reads_withinI:
  "is_callback s' = is_callback s \<Longrightarrow> is_mem s' = is_mem s \<Longrightarrow>
   is_state s' = is_state s + of_nat k \<Longrightarrow> k + unat (bytes_left s') \<le> unat (bytes_left s) \<Longrightarrow>
   reads_within s s'"
  by (auto simp: reads_within_def)

lemma reads_withinE:
  assumes "reads_within s s'"
  obtains k where "is_callback s' = is_callback s" "is_mem s' = is_mem s"
    "is_state s' = is_state s + of_nat k" "k + unat (bytes_left s') \<le> unat (bytes_left s)"
  using assms by (auto simp: reads_within_def)

lemma reads_within_refl [simp, intro]: "reads_within s s"
  by (rule reads_withinI [where k = 0]) simp_all

lemma reads_within_trans [trans]:
  assumes "reads_within s s'" "reads_within s' s''"
  shows "reads_within s s''"
proof -
  obtain k where k: "is_callback s' = is_callback s" "is_mem s' = is_mem s"
    "is_state s' = is_state s + of_nat k" "k + unat (bytes_left s') \<le> unat (bytes_left s)"
    using assms(1) by (rule reads_withinE)
  obtain l where l: "is_callback s'' = is_callback s'" "is_mem s'' = is_mem s'"
    "is_state s'' = is_state s' + of_nat l" "l + unat (bytes_left s'') \<le> unat (bytes_left s')"
    using assms(2) by (rule reads_withinE)
  show ?thesis by (rule reads_withinI [where k = "k + l"]) (use k l in simp_all)
qed

lemma reads_within_cong:
  "is_callback t = is_callback s' \<Longrightarrow> is_mem t = is_mem s' \<Longrightarrow> is_state t = is_state s' \<Longrightarrow>
   bytes_left t = bytes_left s' \<Longrightarrow> reads_within s t = reads_within s s'"
  by (simp add: reads_within_def)

lemma reads_within_updates [simp]:
  "reads_within s (is_set_error s' e) = reads_within s s'"
  "reads_within s (s'\<lparr>is_errmsg := em\<rparr>) = reads_within s s'"
  "reads_within s (s'\<lparr>is_world := w\<rparr>) = reads_within s s'"
  by (simp_all add: reads_within_def)

lemma reads_within_advance [simp]: "k \<le> unat (bytes_left s) \<Longrightarrow> reads_within s (advance s k)"
  by (rule reads_withinI [where k = k]) (simp_all add: unat_bytes_left_advance, simp add: advance_def)

lemma reads_within_left: "reads_within s s' \<Longrightarrow> unat (bytes_left s') \<le> unat (bytes_left s)"
  by (auto simp: reads_within_def)

lemma reads_within_buffer: "reads_within s s' \<Longrightarrow> is_buffer s' = is_buffer s"
  by (simp add: reads_within_def is_buffer_iff)

lemma pb_read_within:
  "is_buffer s \<Longrightarrow> pb_read s n = (r, s') \<Longrightarrow> reads_within s s'"
  by (auto simp: pb_read_buffer split: if_splits)

lemma pb_read_null_within:
  "is_buffer s \<Longrightarrow> pb_read_null s n = (r, s') \<Longrightarrow> reads_within s s'"
  by (auto simp: pb_read_null_buffer split: if_splits)

lemma pb_readbyte_within:
  assumes "is_buffer s" "pb_readbyte s = (r, s')"
  shows "reads_within s s'"
proof (cases "rest s")
  case Nil
  then show ?thesis using assms by (auto simp: pb_readbyte_buffer)
next
  case (Cons b bs)
  then have "1 \<le> unat (bytes_left s)" by (metis length_rest length_Cons le_add1 plus_1_eq_Suc)
  then show ?thesis using assms Cons by (auto simp: pb_readbyte_buffer)
qed

lemma varint32_loop_within:
  "is_buffer s \<Longrightarrow> varint32_loop s bitpos result = (r, s') \<Longrightarrow> reads_within s s'"
proof (induction "unat (bytes_left s)" arbitrary: s bitpos result rule: less_induct)
  case less
  obtain q s1 where q: "pb_readbyte s = (q, s1)" by (cases "pb_readbyte s")
  have s1: "reads_within s s1" by (rule pb_readbyte_within [OF less.prems(1) q])
  have IH: "varint32_loop s1 bp res = (r, s') \<Longrightarrow> q \<noteq> None \<Longrightarrow> reads_within s1 s'" for bp res
    using less.hyps [of s1] q s1 less.prems(1) pb_readbyte_decreases [of s _ s1]
    by (auto simp: reads_within_buffer)
  show ?case
  proof (cases q)
    case None
    then show ?thesis using less.prems(2) q s1 by (simp add: varint32_loop.simps [of s])
  next
    case (Some b)
    then consider bp res where "varint32_loop s1 bp res = (r, s')"
      | e where "s' = is_set_error s1 e" | "s' = s1"
      using less.prems(2) q
      by (simp add: varint32_loop.simps [of s] Let_def split: if_splits; blast)
    then show ?thesis using s1 IH Some by cases (auto intro: reads_within_trans)
  qed
qed

lemma varint_loop_within:
  "is_buffer s \<Longrightarrow> varint_loop s bitpos result = (r, s') \<Longrightarrow> reads_within s s'"
proof (induction "unat (bytes_left s)" arbitrary: s bitpos result rule: less_induct)
  case less
  obtain q s1 where q: "pb_readbyte s = (q, s1)" by (cases "pb_readbyte s")
  have s1: "reads_within s s1" by (rule pb_readbyte_within [OF less.prems(1) q])
  have IH: "varint_loop s1 bp res = (r, s') \<Longrightarrow> q \<noteq> None \<Longrightarrow> reads_within s1 s'" for bp res
    using less.hyps [of s1] q s1 less.prems(1) pb_readbyte_decreases [of s _ s1]
    by (auto simp: reads_within_buffer)
  consider bp res where "varint_loop s1 bp res = (r, s')" "q \<noteq> None"
    | e where "s' = is_set_error s e" | "s' = s1"
    using less.prems(2) q
    by (simp add: varint_loop.simps [of s] Let_def split: if_splits option.splits; blast)
  then show ?case using s1 IH by cases (auto intro: reads_within_trans)
qed

lemma pb_skip_varint_within:
  "is_buffer s \<Longrightarrow> pb_skip_varint s = (r, s') \<Longrightarrow> reads_within s s'"
  using split_varint_append [of "rest s"]
  by (auto simp: pb_skip_varint_buffer dest!: arg_cong [where f = length] split: option.splits)

lemma read_raw_varint_within:
  "is_buffer s \<Longrightarrow> read_raw_varint s max_size sz acc = (r, s') \<Longrightarrow> reads_within s s'"
proof (induction "unat (bytes_left s)" arbitrary: s sz acc rule: less_induct)
  case less
  obtain q s1 where q: "pb_read s 1 = (q, s1)" by (cases "pb_read s 1")
  have s1: "reads_within s s1" by (rule pb_read_within [OF less.prems(1) q])
  have IH: "read_raw_varint s1 max_size z a = (r, s') \<Longrightarrow> q \<noteq> None \<Longrightarrow> reads_within s1 s'" for z a
    using less.hyps [of s1] q s1 less.prems(1) pb_read_decreases [of s 1 _ s1]
    by (auto simp: reads_within_buffer)
  consider z a where "read_raw_varint s1 max_size z a = (r, s')" "q \<noteq> None"
    | "s' = s" | "s' = s1"
    using less.prems(2) q
    by (simp add: read_raw_varint.simps [of s] Let_def split: if_splits option.splits; blast)
  then show ?case using s1 IH by cases (auto intro: reads_within_trans)
qed

lemma pb_decode_varint32_eof_within:
  assumes "is_buffer s" "pb_decode_varint32_eof s = (r, eof, s')"
  shows "reads_within s s'"
proof -
  obtain q s1 where q: "pb_readbyte s = (q, s1)" by (cases "pb_readbyte s")
  have s1: "reads_within s s1" by (rule pb_readbyte_within [OF assms(1) q])
  then have "is_buffer s1" using assms(1) by (simp add: reads_within_buffer)
  then have "varint32_loop s1 bp res = (r, s') \<Longrightarrow> reads_within s s'" for bp res
    using varint32_loop_within reads_within_trans [OF s1] by blast
  then show ?thesis
    using assms(2) q s1
    by (auto simp: pb_decode_varint32_eof_def split: if_splits option.splits prod.splits)
qed

lemma pb_decode_varint32_within:
  "is_buffer s \<Longrightarrow> pb_decode_varint32 s = (r, s') \<Longrightarrow> reads_within s s'"
  by (auto simp: pb_decode_varint32_def dest: pb_decode_varint32_eof_within split: prod.splits)

lemma pb_skip_string_within:
  assumes "is_buffer s" "pb_skip_string s = (r, s')"
  shows "reads_within s s'"
proof -
  obtain q s1 where q: "pb_decode_varint32 s = (q, s1)" by (cases "pb_decode_varint32 s")
  have s1: "reads_within s s1" by (rule pb_decode_varint32_within [OF assms(1) q])
  then have "is_buffer s1" using assms(1) by (simp add: reads_within_buffer)
  then show ?thesis
    using assms(2) q s1 pb_read_null_within [of s1] reads_within_trans [OF s1]
    by (auto simp: pb_skip_string_def split: option.splits)
qed

lemma pb_skip_field_within:
  "is_buffer s \<Longrightarrow> pb_skip_field s wt = (r, s') \<Longrightarrow> reads_within s s'"
  by (auto simp: pb_skip_field_def intro: pb_skip_varint_within pb_read_null_within
      pb_skip_string_within split: if_splits)

lemma pb_decode_tag_within:
  "is_buffer s \<Longrightarrow> pb_decode_tag s = (r, eof, s') \<Longrightarrow> reads_within s s'"
  by (auto simp: pb_decode_tag_def dest: pb_decode_varint32_eof_within
      split: prod.splits option.splits if_splits)

lemma pb_decode_varint_within:
  "is_buffer s \<Longrightarrow> pb_decode_varint s = (r, s') \<Longrightarrow> reads_within s s'"
  by (auto simp: pb_decode_varint_def dest: varint_loop_within)

lemma pb_decode_svarint_within:
  "is_buffer s \<Longrightarrow> pb_decode_svarint s = (r, s') \<Longrightarrow> reads_within s s'"
  by (auto simp: pb_decode_svarint_def dest: pb_decode_varint_within
      split: prod.splits option.splits)

lemma pb_decode_fixed_within:
  "is_buffer s \<Longrightarrow> pb_decode_fixed32 s = (r, s') \<Longrightarrow> reads_within s s'"
  "is_buffer s \<Longrightarrow> pb_decode_fixed64 s = (q, s') \<Longrightarrow> reads_within s s'"
  by (auto simp: pb_decode_fixed32_def pb_decode_fixed64_def dest: pb_read_within
      split: prod.splits option.splits)

lemma read_raw_value_within:
  "is_buffer s \<Longrightarrow> read_raw_value s wt n = (r, s') \<Longrightarrow> reads_within s s'"
  by (auto simp: read_raw_value_def dest: pb_read_within read_raw_varint_within split: if_splits)

lemma pb_decode_varint32_eof_progress:
  assumes "is_buffer s" "pb_decode_varint32_eof s = (Some v, eof, s')"
  shows "unat (bytes_left s') < unat (bytes_left s)"
proof -
  obtain b s1 where q: "pb_readbyte s = (Some b, s1)"
    using assms(2)
    by (cases "pb_readbyte s") (auto simp: pb_decode_varint32_eof_def split: option.splits)
  have "is_buffer s1"
    using pb_readbyte_within [OF assms(1) q] assms(1) by (simp add: reads_within_buffer)
  then have "varint32_loop s1 bp res = (r, s') \<Longrightarrow> unat (bytes_left s') \<le> unat (bytes_left s1)"
    for bp res r
    using varint32_loop_within [of s1 bp res r s'] reads_within_left by blast
  then have "unat (bytes_left s') \<le> unat (bytes_left s1)"
    using assms(2) q
    by (auto simp: pb_decode_varint32_eof_def split: if_splits prod.splits)
  also have "\<dots> < unat (bytes_left s)" by (rule pb_readbyte_decreases [OF q])
  finally show ?thesis .
qed

lemma pb_decode_varint32_progress:
  "is_buffer s \<Longrightarrow> pb_decode_varint32 s = (Some v, s') \<Longrightarrow>
   unat (bytes_left s') < unat (bytes_left s)"
  by (auto simp: pb_decode_varint32_def dest: pb_decode_varint32_eof_progress split: prod.splits)

lemma pb_decode_tag_progress:
  "is_buffer s \<Longrightarrow> pb_decode_tag s = (Some p, eof, s') \<Longrightarrow>
   unat (bytes_left s') < unat (bytes_left s)"
  by (auto simp: pb_decode_tag_def dest: pb_decode_varint32_eof_progress
      split: prod.splits option.splits if_splits)

lemma pb_decode_varint_progress:
  assumes "is_buffer s" "pb_decode_varint s = (Some v, s')"
  shows "unat (bytes_left s') < unat (bytes_left s)"
proof -
  obtain b s1 where q: "pb_readbyte s = (Some b, s1)"
    using assms(2)
    by (cases "pb_readbyte s")
      (auto simp: pb_decode_varint_def varint_loop.simps [of s 0 0] split: option.splits)
  have "is_buffer s1"
    using pb_readbyte_within [OF assms(1) q] assms(1) by (simp add: reads_within_buffer)
  then have "varint_loop s1 bp res = (r, s') \<Longrightarrow> unat (bytes_left s') \<le> unat (bytes_left s1)"
    for bp res r
    using varint_loop_within [of s1 bp res r s'] reads_within_left by blast
  then have "unat (bytes_left s') \<le> unat (bytes_left s1)"
    using assms(2) q
    by (auto simp: pb_decode_varint_def varint_loop.simps [of s 0 0] Let_def split: if_splits)
  also have "\<dots> < unat (bytes_left s)" by (rule pb_readbyte_decreases [OF q])
  finally show ?thesis .
qed

text \<open>
  A substream lies inside its parent, what is left of the parent lies behind it, and
  closing it, however far it was read, leaves the parent at that rest.
\<close>

lemma pb_make_string_substream_within:
  assumes "is_buffer s" "pb_make_string_substream s = (r, par)"
  shows "reads_within s par"
    and "r = Some sub \<Longrightarrow> is_buffer sub \<and> reads_within s sub \<and> is_state par = is_state sub \<and>
      unat (bytes_left sub) + unat (bytes_left par) < unat (bytes_left s) \<and>
      (\<exists>j. is_state sub = is_state s + of_nat j \<and>
           j + unat (bytes_left sub) + unat (bytes_left par) \<le> unat (bytes_left s))"
proof -
  obtain q s1 where q: "pb_decode_varint32 s = (q, s1)" by (cases "pb_decode_varint32 s")
  have s1: "reads_within s s1" by (rule pb_decode_varint32_within [OF assms(1) q])
  then obtain k where k: "is_callback s1 = is_callback s" "is_mem s1 = is_mem s"
    "is_state s1 = is_state s + of_nat k" "k + unat (bytes_left s1) \<le> unat (bytes_left s)"
    by (rule reads_withinE)
  have less: "q \<noteq> None \<Longrightarrow> unat (bytes_left s1) < unat (bytes_left s)"
    using pb_decode_varint32_progress [OF assms(1)] q by blast
  show "reads_within s par"
  proof (cases "r = None")
    case True
    then show ?thesis
      using assms q s1
      by (auto simp: pb_make_string_substream_def split: option.splits if_splits)
  next
    case False
    then obtain sz where "par = s1\<lparr>bytes_left := bytes_left s1 - ucast sz\<rparr>"
        "\<not> bytes_left s1 < ucast (sz :: u32)"
      using assms(2) q
      by (auto simp: pb_make_string_substream_def split: option.splits if_splits)
    then show ?thesis
      using k by (intro reads_withinI [where k = k])
        (simp_all add: unat_sub word_le_nat_alt word_less_nat_alt)
  qed
  show "is_buffer sub \<and> reads_within s sub \<and> is_state par = is_state sub \<and>
      unat (bytes_left sub) + unat (bytes_left par) < unat (bytes_left s) \<and>
      (\<exists>j. is_state sub = is_state s + of_nat j \<and>
           j + unat (bytes_left sub) + unat (bytes_left par) \<le> unat (bytes_left s))"
    if rs: "r = Some sub"
  proof -
    obtain sz where sz: "par = s1\<lparr>bytes_left := bytes_left s1 - ucast sz\<rparr>"
        "sub = s1\<lparr>bytes_left := ucast sz\<rparr>" "\<not> bytes_left s1 < ucast (sz :: u32)" "q = Some sz"
      using assms(2) q rs
      by (auto simp: pb_make_string_substream_def split: option.splits if_splits)
    have within: "reads_within s sub"
      using k sz by (intro reads_withinI [where k = k]) (simp_all add: word_less_nat_alt)
    have "unat (ucast sz :: u64) \<le> unat (bytes_left s1)" using sz(3) by (simp add: word_less_nat_alt)
    then have sum: "unat (bytes_left sub) + unat (bytes_left par) = unat (bytes_left s1)"
      using sz(1,2) by (simp add: unat_sub word_le_nat_alt)
    have "is_buffer sub" using within assms(1) by (simp add: reads_within_buffer)
    moreover have "is_state par = is_state sub" using sz(1,2) by simp
    moreover have "unat (bytes_left sub) + unat (bytes_left par) < unat (bytes_left s)"
      using sum less sz(4) by simp
    moreover have "is_state sub = is_state s + of_nat k \<and>
        k + unat (bytes_left sub) + unat (bytes_left par) \<le> unat (bytes_left s)"
      using sum k sz(2) by (simp add: add.assoc)
    ultimately show ?thesis using within by blast
  qed
qed

lemma pb_close_string_substream_within:
  assumes "is_buffer s" "pb_make_string_substream s = (Some sub, par)"
    and "reads_within sub sub1" "bytes_left par1 = bytes_left par"
    and "is_callback par1 = is_callback par" "is_mem par1 = is_mem par"
    and "pb_close_string_substream par1 sub1 = (ok, s2)"
  shows "ok \<and> reads_within s s2 \<and> unat (bytes_left s2) < unat (bytes_left s)"
proof -
  note made = pb_make_string_substream_within [OF assms(1,2)]
  have sub: "is_buffer sub" "unat (bytes_left sub) + unat (bytes_left par) < unat (bytes_left s)"
    using made(2) by auto
  obtain j where j: "is_state sub = is_state s + of_nat j"
      "j + unat (bytes_left sub) + unat (bytes_left par) \<le> unat (bytes_left s)"
    using made(2) by auto
  have buf: "is_buffer sub1" using sub(1) assms(3) by (simp add: reads_within_buffer)
  obtain k where k: "is_state sub1 = is_state sub + of_nat k"
      "k + unat (bytes_left sub1) \<le> unat (bytes_left sub)"
    using assms(3) by (rule reads_withinE)
  have "(if bytes_left sub1 \<noteq> 0 then pb_read_null sub1 (bytes_left sub1) else (True, sub1)) =
      (True, advance sub1 (unat (bytes_left sub1)))"
    using buf by (auto simp: pb_read_null_buffer)
  then have close: "pb_close_string_substream par1 sub1 =
      (True, par1\<lparr>is_state := is_state (advance sub1 (unat (bytes_left sub1))),
                 is_errmsg := is_errmsg sub1, is_world := is_world sub1\<rparr>)"
    by (simp only: pb_close_string_substream_def Let_def prod.case not_True_eq_False if_False) simp
  have "is_state (advance sub1 (unat (bytes_left sub1))) =
      is_state s + of_nat (j + k + unat (bytes_left sub1))"
    using k(1) j(1) by (simp add: advance_def)
  moreover have "is_callback par = is_callback s" "is_mem par = is_mem s"
    using made(1) by (auto simp: reads_within_def)
  ultimately have "reads_within s s2"
    using assms(4-7) close k(2) j(2)
    by (intro reads_withinI [where k = "j + k + unat (bytes_left sub1)"]) auto
  then show ?thesis using close assms(4,7) sub(2) by auto
qed

subsection \<open>Round trips\<close>

lemma emits_written:
  assumes "os.emits (\<lambda>s. Some (f s)) (True, bs)" "length bs < 2 ^ 64"
    and "f (pb_ostream_from_buffer cap w) = (True, out)"
  shows "os_out out = bs"
proof (cases "length bs \<le> unat cap")
  case True
  then show ?thesis using emits_buffer [OF assms(1) True, of w] assms(3) by (simp add: written_def)
next
  case False
  then show ?thesis using emits_buffer_full [OF assms(1) _ assms(2), of cap w] assms(3) by simp
qed

lemma short_varint: "n < 2 ^ 64 \<Longrightarrow> length (varint_bytes n) < 2 ^ 64"
  using length_varint_bytes_le [of n 10] by simp

text \<open>An input stream over the bytes of a list.\<close>

definition istream_of :: "byte list \<Rightarrow> unit pb_istream_t" where
  "istream_of bs = pb_istream_from_buffer (store_bytes (\<lambda>_. 0) 0 bs) 0 (of_nat (length bs)) ()"

lemma is_buffer_istream_of [simp]: "is_buffer (istream_of bs)"
  by (simp add: istream_of_def pb_istream_from_buffer_def is_buffer_def)

lemma rest_istream_of: "length bs < 2 ^ 64 \<Longrightarrow> rest (istream_of bs) = bs"
  by (simp add: istream_of_def pb_istream_from_buffer_def rest_def unat_of_nat_small
      load_store_bytes)

text \<open>A varint that was written to a buffer is read back as the same 64-bit number, and
  the reader stops right behind it.\<close>

lemma varint_roundtrip:
  assumes "pb_encode_varint (pb_ostream_from_buffer cap w) v = (True, out)"
    and "is_buffer s" "rest s = os_out out @ r"
  shows "pb_decode_varint s = (Some v, advance s (length (os_out out)))"
proof -
  have "os_out out = varint_bytes (unat v)"
    by (rule emits_written [OF pb_encode_varint_emits short_varint assms(1)]) (rule u64_less)
  then show ?thesis
    using pb_decode_varint_encoded [OF assms(2), of "unat v" r] assms(3) u64_less [of v] by simp
qed

text \<open>A zig-zag varint that was written to a buffer is read back as the same signed
  64-bit number.\<close>

lemma svarint_roundtrip:
  assumes "pb_encode_svarint (pb_ostream_from_buffer cap w) v = (True, out)"
    and "is_buffer s" "rest s = os_out out @ r"
  shows "pb_decode_svarint s = (Some v, advance s (length (os_out out)))"
proof -
  have "zigzag (sint v) < 2 ^ 64" unfolding unat_zigzag [symmetric] by (rule u64_less)
  then have "os_out out = varint_bytes (zigzag (sint v))"
    by (intro emits_written [OF pb_encode_svarint_emits _ assms(1)] short_varint)
  then show ?thesis
    using pb_decode_svarint_encoded [OF assms(2), of v r] assms(3) by simp
qed

text \<open>A key that was written to a buffer is read back as the same wire type and field
  number, for every field number of the protocol (below \<open>2 ^ 29\<close>) but zero.\<close>

lemma tag_roundtrip:
  assumes "pb_encode_tag (pb_ostream_from_buffer cap w) wt n = (True, out)"
    and "unat wt < 8" "unat n < 2 ^ 29" "n \<noteq> 0"
    and "is_buffer s" "rest s = os_out out @ r"
  shows "pb_decode_tag s = (Some (wt, n), False, advance s (length (os_out out)))"
proof -
  have "os_out out = varint_bytes (key_val (unat n) (unat wt))"
    by (rule emits_written [OF pb_encode_tag_emits [OF assms(2)] short_varint assms(1)])
      (use key_val_bounds [OF assms(3,2)] in simp)
  then show ?thesis
    using pb_decode_tag_encoded [OF assms(5), of n wt r] assms by simp
qed

lemma tag_roundtrip_witness:
  "fst (pb_decode_tag (istream_of [0x82, 0x01])) = Some (PB_WT_STRING, 16)"
proof -
  have "pb_encode_tag (pb_ostream_from_buffer 9 ()) PB_WT_STRING 16 = (True, written 9 () [0x82, 0x01])"
    using emits_buffer [OF pb_encode_tag_emits, of PB_WT_STRING 16 9 "()"]
    by (simp add: varint_bytes.simps key_val_def PB_WT_STRING_def)
  from tag_roundtrip [OF this _ _ _ is_buffer_istream_of, of "[0x82, 0x01]" "[]"]
  show ?thesis by (simp add: written_def rest_istream_of PB_WT_STRING_def)
qed

text \<open>Fixed-width integers of 32 and of 64 bits are read back as they were written.\<close>

lemma fixed_roundtrip:
  assumes "is_buffer s"
  shows "(pb_encode_fixed32 (pb_ostream_from_buffer cap w) v32 = (True, out) \<and>
      rest s = os_out out @ r \<longrightarrow> pb_decode_fixed32 s = (Some v32, advance s 4)) \<and>
    (pb_encode_fixed64 (pb_ostream_from_buffer cap w) v64 = (True, out) \<and>
      rest s = os_out out @ r \<longrightarrow> pb_decode_fixed64 s = (Some v64, advance s 8))"
proof -
  have "os_out out = word_to_bytes 4 v32"
    if "pb_encode_fixed32 (pb_ostream_from_buffer cap w) v32 = (True, out)"
    by (rule emits_written [OF pb_encode_fixed32_emits _ that]) simp
  moreover have "os_out out = word_to_bytes 8 v64"
    if "pb_encode_fixed64 (pb_ostream_from_buffer cap w) v64 = (True, out)"
    by (rule emits_written [OF pb_encode_fixed64_emits _ that]) simp
  ultimately show ?thesis
    using assms by (auto simp: pb_decode_fixed32_buffer pb_decode_fixed64_buffer
        bytes_to_word_to_bytes simp del: length_rest)
qed

text \<open>C5: What an integer writer put into a buffer, a varint, a zig-zag varint or a fixed-width integer
  of 32 or 64 bits, the reader of its kind reads back as the same number, and stops right
  behind it.\<close>

theorem integer_roundtrip:
  assumes "is_buffer s" "rest s = os_out out @ r"
  shows "(pb_encode_varint (pb_ostream_from_buffer cap w) v = (True, out) \<longrightarrow>
      pb_decode_varint s = (Some v, advance s (length (os_out out)))) \<and>
    (pb_encode_svarint (pb_ostream_from_buffer cap w) sv = (True, out) \<longrightarrow>
      pb_decode_svarint s = (Some sv, advance s (length (os_out out)))) \<and>
    (pb_encode_fixed32 (pb_ostream_from_buffer cap w) v32 = (True, out) \<longrightarrow>
      pb_decode_fixed32 s = (Some v32, advance s 4)) \<and>
    (pb_encode_fixed64 (pb_ostream_from_buffer cap w) v64 = (True, out) \<longrightarrow>
      pb_decode_fixed64 s = (Some v64, advance s 8))"
proof (intro conjI impI)
  note fixed = fixed_roundtrip [OF assms(1), of cap w v32 out r v64]
  show "pb_decode_fixed32 s = (Some v32, advance s 4)"
    if "pb_encode_fixed32 (pb_ostream_from_buffer cap w) v32 = (True, out)"
    using fixed that assms(2) by blast
  show "pb_decode_fixed64 s = (Some v64, advance s 8)"
    if "pb_encode_fixed64 (pb_ostream_from_buffer cap w) v64 = (True, out)"
    using fixed that assms(2) by blast
qed (rule varint_roundtrip [OF _ assms] svarint_roundtrip [OF _ assms], assumption)+

lemma integer_roundtrip_witness:
  "fst (pb_decode_varint (istream_of [0xAC, 0x02, 0x55])) = Some 300"
proof -
  have "pb_encode_varint (pb_ostream_from_buffer 2 ()) 300 = (True, written 2 () [0xAC, 0x02])"
    using emits_buffer [OF pb_encode_varint_emits, of 300 2 "()"] by (simp add: varint_bytes.simps)
  moreover have "rest (istream_of [0xAC, 0x02, 0x55]) = os_out (written 2 () [0xAC, 0x02]) @ [0x55]"
    by (simp add: written_def rest_istream_of)
  ultimately show ?thesis using integer_roundtrip [OF is_buffer_istream_of] by (metis fst_conv)
qed

text \<open>A string or byte block that was written to a buffer comes back as a substream that
  reads exactly that block; closing the substream, however far it was read, leaves the
  parent stream right behind the block.\<close>

lemma string_roundtrip:
  assumes "pb_encode_string (pb_ostream_from_buffer cap w) bs (of_nat (length bs)) = (True, out)"
    and "length bs < 2 ^ 32" and "is_buffer s" "rest s = os_out out @ r"
  shows "\<exists>sub par. pb_make_string_substream s = (Some sub, par) \<and> is_buffer sub \<and> rest sub = bs \<and>
    (\<forall>k\<le>length bs. pb_close_string_substream par (advance sub k) =
       (True, advance s (length (os_out out))))"
proof -
  have len: "length bs < 2 ^ 64" using assms(2) by simp
  have "length (varint_bytes (length bs)) \<le> 10" using assms(2) by (intro length_varint_bytes_le) simp_all
  then have "os_out out = varint_bytes (length bs) @ bs"
    using assms(2) by (intro emits_written [OF pb_encode_string_emits [OF len] _ assms(1)]) simp
  then have out: "os_out out = delimited bs" by (simp add: delimited_def)
  show ?thesis
    using pb_make_string_substream_delimited [OF assms(3) _ assms(2), of r] assms(4) out
    by metis
qed

lemma string_roundtrip_witness:
  "\<exists>sub par. pb_make_string_substream (istream_of [2, 7, 8, 9]) = (Some sub, par) \<and>
     rest sub = [7, 8]"
proof -
  have "pb_encode_string (pb_ostream_from_buffer 4 ()) [7, 8] (of_nat (length [7, 8 :: byte])) =
      (True, written 4 () [2, 7, 8])"
    using emits_buffer [OF pb_encode_string_emits, of "[7, 8]" 4 "()"]
    by (simp add: varint_bytes.simps)
  from string_roundtrip [OF this _ is_buffer_istream_of, of "[2, 7, 8, 9]" "[9]"]
  show ?thesis by (auto simp: written_def rest_istream_of)
qed

subsection \<open>What the 32-bit reader accepts\<close>

text \<open>The 32-bit varint reader returns every number below \<open>2 ^ 32\<close> and the low half of
  every negative 32-bit number in its ten-byte form, and refuses every other number below
  \<open>2 ^ 63\<close>.\<close>

lemma pb_decode_varint32_accepts:
  assumes "is_buffer s" "rest s = varint_bytes n @ r"
  shows "(n < 2 ^ 32 \<or> 2 ^ 64 - 2 ^ 31 \<le> n \<and> n < 2 ^ 64 \<longrightarrow>
      pb_decode_varint32 s = (Some (of_nat n), advance s (length (varint_bytes n)))) \<and>
    (2 ^ 32 \<le> n \<and> n < 2 ^ 63 \<longrightarrow> fst (pb_decode_varint32 s) = None)"
  using pb_decode_varint32_eof_encoded [OF assms] pb_decode_varint32_eof_wide [OF assms]
  by (auto simp: pb_decode_varint32_def)

lemma pb_decode_varint32_accepts_witness:
  "fst (pb_decode_varint32 (istream_of [0x80, 0x80, 0x80, 0x80, 0x10])) = None"
proof -
  have "varint_bytes (2 ^ 32) = [0x80, 0x80, 0x80, 0x80, 0x10]"
    by (simp add: varint_bytes.simps)
  then show ?thesis
    using pb_decode_varint32_accepts [OF is_buffer_istream_of,
        of "[0x80, 0x80, 0x80, 0x80, 0x10]" "2 ^ 32" "[]"]
    by (simp add: rest_istream_of)
qed

subsection \<open>Skipping and staying inside\<close>

text \<open>C6: \<^verbatim>\<open>pb_skip_field\<close> steps over exactly the payload of its wire type: a varint of any
  length, eight bytes, a length-delimited block, or four bytes; it refuses the other wire
  types without reading.\<close>

theorem pb_skip_field_exact:
  assumes "is_buffer s"
  shows "(payload wt bs \<and> rest s = bs @ r \<longrightarrow> pb_skip_field s wt = (True, advance s (length bs))) \<and>
    (wt \<notin> {PB_WT_VARINT, PB_WT_64BIT, PB_WT_STRING, PB_WT_32BIT} \<longrightarrow>
      pb_skip_field s wt = (False, is_set_error s ''invalid wire_type''))"
  using pb_skip_field_payload [OF assms] by (simp add: pb_skip_field_def)

lemma pb_skip_field_exact_witness:
  "pb_skip_field (istream_of [2, 7, 8, 9]) PB_WT_STRING =
     (True, advance (istream_of [2, 7, 8, 9]) (length [2, 7, 8 :: byte]))"
proof -
  have "payload PB_WT_STRING [2, 7, 8]"
    by (simp add: payload_def delimited_def varint_bytes.simps pb_const)
  then show ?thesis
    using pb_skip_field_exact [OF is_buffer_istream_of, of PB_WT_STRING "[2, 7, 8]" "[2, 7, 8, 9]" "[9]"]
    by (simp add: rest_istream_of)
qed

text \<open>On every input, well formed or not, and whether they succeed or fail, the readers
  stay inside the bytes the buffer stream was given: what they leave is a suffix of it.\<close>

lemma readers_stay_within:
  assumes "is_buffer s"
  shows "reads_within s (snd (pb_decode_varint s)) \<and> reads_within s (snd (pb_decode_svarint s)) \<and>
    reads_within s (snd (pb_decode_varint32 s)) \<and> reads_within s (snd (snd (pb_decode_tag s))) \<and>
    reads_within s (snd (pb_decode_fixed32 s)) \<and> reads_within s (snd (pb_decode_fixed64 s)) \<and>
    reads_within s (snd (pb_skip_field s wt)) \<and> reads_within s (snd (read_raw_value s wt n))"
  by (intro conjI
      pb_decode_varint_within [OF assms surjective_pairing]
      pb_decode_svarint_within [OF assms surjective_pairing]
      pb_decode_varint32_within [OF assms surjective_pairing]
      pb_decode_tag_within [OF assms,
        where r = "fst (pb_decode_tag s)" and eof = "fst (snd (pb_decode_tag s))"]
      pb_decode_fixed_within [OF assms surjective_pairing]
      pb_skip_field_within [OF assms surjective_pairing]
      read_raw_value_within [OF assms surjective_pairing]) simp

lemma readers_stay_within_witness:
  "reads_within (istream_of [0x80, 0x80]) (snd (pb_decode_varint (istream_of [0x80, 0x80])))"
  using readers_stay_within [OF is_buffer_istream_of, of "[0x80, 0x80]" 0 0] by simp

end
