(* ===== verification/Pb_Decode_Field.thy ===== *)
theory Pb_Decode_Field
  imports Pb_Istream Pb_Iter Byte_Sink
begin

unbundle bit_operations_syntax

text \<open>
  The field decoders of \<^verbatim>\<open>src/ios/Pods/nanopb/pb_decode.c\<close> and the memory they write to.
  The destination message lives in a flat memory that every function takes and returns
  beside the input stream. The user's function pointers and the C library's allocator are
  an environment. A result \<^const>\<open>None\<close> is a call with no defined result: it hands the
  allocator a pointer that is not one of its blocks, calls through an invalid pointer,
  divides by zero, or exceeds the bounds on depth and on list length. Functions that can
  reach \<^verbatim>\<open>pb_decode\<close> again take it as the argument \<open>sub\<close>; its first argument tells
  \<^verbatim>\<open>pb_decode\<close> from \<^verbatim>\<open>pb_decode_noinit\<close>.
\<close>

subsection \<open>The environment\<close>

text \<open>
  \<open>de_realloc\<close> and \<open>de_free\<close> are \<^verbatim>\<open>pb_realloc\<close> and \<^verbatim>\<open>pb_free\<close>, by default the C
  library's functions, as transformers of the memory and of the world that holds the
  allocator's state. \<open>de_local\<close> is the address of \<^verbatim>\<open>fixed_count_size\<close> in the frame of
  \<^verbatim>\<open>pb_decode_noinit\<close> at each depth: the one local variable whose address is taken.
\<close>

record 'w dec_env =
  de_fields :: "addr \<Rightarrow> pb_field_t list"
  de_callback :: "addr \<Rightarrow> pb_field_t \<Rightarrow> addr \<Rightarrow> mem \<Rightarrow> 'w pb_istream_t \<Rightarrow>
    bool \<times> mem \<times> 'w pb_istream_t"
  de_ext_decode :: "addr \<Rightarrow> addr \<Rightarrow> u32 \<Rightarrow> wire_type \<Rightarrow> mem \<Rightarrow> 'w pb_istream_t \<Rightarrow>
    bool \<times> mem \<times> 'w pb_istream_t"
  de_realloc :: "mem \<Rightarrow> 'w \<Rightarrow> addr \<Rightarrow> u64 \<Rightarrow> (addr \<times> mem \<times> 'w) option"
  de_free :: "mem \<Rightarrow> 'w \<Rightarrow> addr \<Rightarrow> (mem \<times> 'w) option"
  de_local :: "nat \<Rightarrow> addr"

type_synonym 'w dec_result = "(bool \<times> mem \<times> 'w pb_istream_t) option"

type_synonym 'w msg_decoder =
  "bool \<Rightarrow> pb_field_t list \<Rightarrow> addr \<Rightarrow> mem \<Rightarrow> 'w pb_istream_t \<Rightarrow> 'w dec_result"

type_synonym 'w field_decoder =
  "pb_field_t \<Rightarrow> addr \<Rightarrow> mem \<Rightarrow> 'w pb_istream_t \<Rightarrow> 'w dec_result"

definition memset0 :: "mem \<Rightarrow> addr \<Rightarrow> u32 \<Rightarrow> mem" where
  "memset0 m a n = store_bytes m a (replicate (unat n) 0)"

text \<open>The world is shared with the substream, also where the parent stream goes on alone.\<close>

definition with_world_of :: "'w pb_istream_t \<Rightarrow> 'w pb_istream_t \<Rightarrow> 'w pb_istream_t" where
  "with_world_of s sub = s\<lparr>is_world := is_world sub\<rparr>"

subsection \<open>Allocation\<close>

definition allocate_field ::
  "'w dec_env \<Rightarrow> addr \<Rightarrow> u64 \<Rightarrow> u64 \<Rightarrow> mem \<Rightarrow> 'w pb_istream_t \<Rightarrow> 'w dec_result" where
  "allocate_field E pd dsize asize m s =
     (if dsize = 0 \<or> asize = 0 then Some (False, m, is_set_error s ''invalid size'')
      else if (dsize \<ge> push_bit 32 1 \<or> asize \<ge> push_bit 32 1) \<and> - 1 div asize < dsize
      then Some (False, m, is_set_error s ''size too large'')
      else case de_realloc E m (is_world s) (load_ptr m pd) (asize * dsize) of
        None \<Rightarrow> None
      | Some (ptr, m1, w) \<Rightarrow>
          (let s1 = s\<lparr>is_world := w\<rparr> in
           if ptr = 0 then Some (False, m1, is_set_error s1 ''realloc failed'')
           else Some (True, store_ptr m1 pd ptr, s1)))"

subsection \<open>Scalars\<close>

text \<open>
  The store-and-check chains: the width of the destination, the stored bytes and the
  clamped value read back, sign- or zero-extended.
\<close>

definition store_signed :: "mem \<Rightarrow> addr \<Rightarrow> u32 \<Rightarrow> u64 \<Rightarrow> (mem \<times> u64) option" where
  "store_signed m dest sz v =
     (if sz = 8 then Some (store_bytes m dest (word_to_bytes 8 v), v)
      else if sz = 4 then Some (store_bytes m dest (word_to_bytes 4 v), scast (ucast v :: u32))
      else if sz = 2 then Some (store_bytes m dest (word_to_bytes 2 v), scast (ucast v :: u16))
      else if sz = 1 then Some (store_bytes m dest (word_to_bytes 1 v), scast (ucast v :: byte))
      else None)"

definition store_unsigned :: "mem \<Rightarrow> addr \<Rightarrow> u32 \<Rightarrow> u64 \<Rightarrow> (mem \<times> u64) option" where
  "store_unsigned m dest sz v =
     (if sz = 8 then Some (store_bytes m dest (word_to_bytes 8 v), v)
      else if sz = 4 then Some (store_bytes m dest (word_to_bytes 4 v), ucast (ucast v :: u32))
      else if sz = 2 then Some (store_bytes m dest (word_to_bytes 2 v), ucast (ucast v :: u16))
      else if sz = 1 then Some (store_bytes m dest (word_to_bytes 1 v), ucast (ucast v :: byte))
      else None)"

definition pb_dec_varint ::
  "pb_field_t \<Rightarrow> addr \<Rightarrow> mem \<Rightarrow> 'w pb_istream_t \<Rightarrow> bool \<times> mem \<times> 'w pb_istream_t" where
  "pb_dec_varint field dest m s =
     (case pb_decode_varint s of
        (None, s1) \<Rightarrow> (False, m, s1)
      | (Some v, s1) \<Rightarrow>
          (let sv = (if data_size field = 8 then v else scast (ucast v :: u32)) in
           case store_signed m dest (data_size field) sv of
             None \<Rightarrow> (False, m, is_set_error s1 ''invalid data_size'')
           | Some (m1, clamped) \<Rightarrow>
               if clamped \<noteq> sv then (False, m1, is_set_error s1 ''integer too large'')
               else (True, m1, s1)))"

definition pb_dec_uvarint ::
  "pb_field_t \<Rightarrow> addr \<Rightarrow> mem \<Rightarrow> 'w pb_istream_t \<Rightarrow> bool \<times> mem \<times> 'w pb_istream_t" where
  "pb_dec_uvarint field dest m s =
     (case pb_decode_varint s of
        (None, s1) \<Rightarrow> (False, m, s1)
      | (Some v, s1) \<Rightarrow>
          (case store_unsigned m dest (data_size field) v of
             None \<Rightarrow> (False, m, is_set_error s1 ''invalid data_size'')
           | Some (m1, clamped) \<Rightarrow>
               if clamped \<noteq> v then (False, m1, is_set_error s1 ''integer too large'')
               else (True, m1, s1)))"

definition pb_dec_svarint ::
  "pb_field_t \<Rightarrow> addr \<Rightarrow> mem \<Rightarrow> 'w pb_istream_t \<Rightarrow> bool \<times> mem \<times> 'w pb_istream_t" where
  "pb_dec_svarint field dest m s =
     (case pb_decode_svarint s of
        (None, s1) \<Rightarrow> (False, m, s1)
      | (Some v, s1) \<Rightarrow>
          (case store_signed m dest (data_size field) v of
             None \<Rightarrow> (False, m, is_set_error s1 ''invalid data_size'')
           | Some (m1, clamped) \<Rightarrow>
               if clamped \<noteq> v then (False, m1, is_set_error s1 ''integer too large'')
               else (True, m1, s1)))"

definition pb_dec_fixed32 ::
  "pb_field_t \<Rightarrow> addr \<Rightarrow> mem \<Rightarrow> 'w pb_istream_t \<Rightarrow> bool \<times> mem \<times> 'w pb_istream_t" where
  "pb_dec_fixed32 field dest m s =
     (case pb_decode_fixed32 s of
        (None, s1) \<Rightarrow> (False, m, s1)
      | (Some v, s1) \<Rightarrow> (True, store_bytes m dest (word_to_bytes 4 v), s1))"

definition pb_dec_fixed64 ::
  "pb_field_t \<Rightarrow> addr \<Rightarrow> mem \<Rightarrow> 'w pb_istream_t \<Rightarrow> bool \<times> mem \<times> 'w pb_istream_t" where
  "pb_dec_fixed64 field dest m s =
     (case pb_decode_fixed64 s of
        (None, s1) \<Rightarrow> (False, m, s1)
      | (Some v, s1) \<Rightarrow> (True, store_bytes m dest (word_to_bytes 8 v), s1))"

subsection \<open>Bytes and strings\<close>

definition pb_dec_bytes ::
  "'w dec_env \<Rightarrow> pb_field_t \<Rightarrow> addr \<Rightarrow> mem \<Rightarrow> 'w pb_istream_t \<Rightarrow> 'w dec_result" where
  "pb_dec_bytes E field dest m s =
     (case pb_decode_varint32 s of
        (None, s1) \<Rightarrow> Some (False, m, s1)
      | (Some sz, s1) \<Rightarrow>
          (let alloc_size = PB_BYTES_ARRAY_T_ALLOCSIZE (ucast sz);
               fill = (\<lambda>bdest m2 s2.
                 case pb_read s2 (ucast sz) of
                   (None, s3) \<Rightarrow> (False, store_u32 m2 bdest sz, s3)
                 | (Some bs, s3) \<Rightarrow> (True, store_bytes (store_u32 m2 bdest sz) (bdest + 4) bs, s3))
           in if sz > PB_SIZE_MAX then Some (False, m, is_set_error s1 ''bytes overflow'')
              else if ucast sz > alloc_size then Some (False, m, is_set_error s1 ''size too large'')
              else if PB_ATYPE (ftype field) = PB_ATYPE_POINTER then
                (case allocate_field E dest alloc_size 1 m s1 of
                   Some (True, m2, s2) \<Rightarrow> Some (fill (load_ptr m2 dest) m2 s2)
                 | r \<Rightarrow> r)
              else if alloc_size > ucast (data_size field)
              then Some (False, m, is_set_error s1 ''bytes overflow'')
              else Some (fill dest m s1)))"

text \<open>\<open>size + 1\<close> is computed in 32 bits before it is widened.\<close>

definition pb_dec_string ::
  "'w dec_env \<Rightarrow> pb_field_t \<Rightarrow> addr \<Rightarrow> mem \<Rightarrow> 'w pb_istream_t \<Rightarrow> 'w dec_result" where
  "pb_dec_string E field dest m s =
     (case pb_decode_varint32 s of
        (None, s1) \<Rightarrow> Some (False, m, s1)
      | (Some sz, s1) \<Rightarrow>
          (let alloc_size = ucast (sz + 1) :: u64;
               fill = (\<lambda>d m2 s2.
                 case pb_read s2 (ucast sz) of
                   (None, s3) \<Rightarrow> (False, m2(d + ucast sz := 0), s3)
                 | (Some bs, s3) \<Rightarrow> (True, (store_bytes m2 d bs)(d + ucast sz := 0), s3))
           in if alloc_size < ucast sz then Some (False, m, is_set_error s1 ''size too large'')
              else if PB_ATYPE (ftype field) = PB_ATYPE_POINTER then
                (case allocate_field E dest alloc_size 1 m s1 of
                   Some (True, m2, s2) \<Rightarrow> Some (fill (load_ptr m2 dest) m2 s2)
                 | r \<Rightarrow> r)
              else if alloc_size > ucast (data_size field)
              then Some (False, m, is_set_error s1 ''string overflow'')
              else Some (fill dest m s1)))"

definition pb_dec_fixed_length_bytes ::
  "pb_field_t \<Rightarrow> addr \<Rightarrow> mem \<Rightarrow> 'w pb_istream_t \<Rightarrow> bool \<times> mem \<times> 'w pb_istream_t" where
  "pb_dec_fixed_length_bytes field dest m s =
     (case pb_decode_varint32 s of
        (None, s1) \<Rightarrow> (False, m, s1)
      | (Some sz, s1) \<Rightarrow>
          if sz > PB_SIZE_MAX then (False, m, is_set_error s1 ''bytes overflow'')
          else if sz = 0 then (True, memset0 m dest (data_size field), s1)
          else if sz \<noteq> data_size field
          then (False, m, is_set_error s1 ''incorrect fixed length bytes size'')
          else (case pb_read s1 (ucast (data_size field)) of
              (None, s2) \<Rightarrow> (False, m, s2)
            | (Some bs, s2) \<Rightarrow> (True, store_bytes m dest bs, s2)))"

subsection \<open>Submessages\<close>

definition pb_dec_submessage ::
  "'w dec_env \<Rightarrow> 'w msg_decoder \<Rightarrow> pb_field_t \<Rightarrow> addr \<Rightarrow> mem \<Rightarrow> 'w pb_istream_t \<Rightarrow>
   'w dec_result" where
  "pb_dec_submessage E sub field dest m s =
     (case pb_make_string_substream s of
        (None, s1) \<Rightarrow> Some (False, m, s1)
      | (Some substream, s1) \<Rightarrow>
          if fptr field = 0 then Some (False, m, is_set_error s1 ''invalid field descriptor'')
          else (case sub (PB_HTYPE (ftype field) = PB_HTYPE_REPEATED)
                  (de_fields E (fptr field)) dest m substream of
              None \<Rightarrow> None
            | Some (status, m1, substream1) \<Rightarrow>
                (case pb_close_string_substream s1 substream1 of
                   (ok, s2) \<Rightarrow> Some (ok \<and> status, m1, s2))))"

text \<open>\<^verbatim>\<open>PB_DECODERS\<close>, called at once; the entry of the extension type is a null pointer.\<close>

definition PB_DECODERS :: "'w dec_env \<Rightarrow> 'w msg_decoder \<Rightarrow> 'w field_decoder" where
  "PB_DECODERS E sub field dest m s =
     (let lt = PB_LTYPE (ftype field) in
      if lt = PB_LTYPE_VARINT then Some (pb_dec_varint field dest m s)
      else if lt = PB_LTYPE_UVARINT then Some (pb_dec_uvarint field dest m s)
      else if lt = PB_LTYPE_SVARINT then Some (pb_dec_svarint field dest m s)
      else if lt = PB_LTYPE_FIXED32 then Some (pb_dec_fixed32 field dest m s)
      else if lt = PB_LTYPE_FIXED64 then Some (pb_dec_fixed64 field dest m s)
      else if lt = PB_LTYPE_BYTES then pb_dec_bytes E field dest m s
      else if lt = PB_LTYPE_STRING then pb_dec_string E field dest m s
      else if lt = PB_LTYPE_SUBMESSAGE then pb_dec_submessage E sub field dest m s
      else if lt = PB_LTYPE_FIXED_LENGTH_BYTES
      then Some (pb_dec_fixed_length_bytes field dest m s)
      else None)"

end
