(* ===== verification/Pb_Decode.thy ===== *)
theory Pb_Decode
  imports Pb_Decode_Field
begin

unbundle bit_operations_syntax

text \<open>
  The message decoder of \<^verbatim>\<open>src/ios/Pods/nanopb/pb_decode.c\<close>: setting defaults and
  releasing, the dispatch on field kinds, extensions, and the loop over the fields of a
  message with its check for required fields.
\<close>

subsection \<open>Default values\<close>

definition iter_from_extension :: "'w dec_env \<Rightarrow> mem \<Rightarrow> addr \<Rightarrow> pb_field_iter_t" where
  "iter_from_extension E m ext =
     (let fs = de_fields E (load_ptr m (load_ptr m ext + 16));
          it = snd (pb_field_iter_begin fs (load_ptr m (ext + 8)))
      in it\<lparr>pData := (if PB_ATYPE (ftype (fs ! 0)) = PB_ATYPE_POINTER then ext + 8
                      else load_ptr m (ext + 8)),
            pSize := ext + 24\<rparr>)"

text \<open>
  \<open>set_fld\<close> and \<open>set_msg\<close> are the recursive calls; the list of extensions is walked with
  a bound.
\<close>

primrec set_extensions_to_default ::
  "nat \<Rightarrow> 'w dec_env \<Rightarrow> (pb_field_iter_t \<Rightarrow> mem \<Rightarrow> mem option) \<Rightarrow> addr \<Rightarrow> mem \<Rightarrow> mem option" where
  "set_extensions_to_default 0 E set_fld ext m = None"
| "set_extensions_to_default (Suc k) E set_fld ext m =
     (if ext = 0 then Some m
      else (let m1 = m(ext + 24 := 0) in
        case set_fld (iter_from_extension E m1 ext) m1 of
          None \<Rightarrow> None
        | Some m2 \<Rightarrow> set_extensions_to_default k E set_fld (load_ptr m2 (ext + 16)) m2))"

definition set_static_to_default ::
  "'w dec_env \<Rightarrow> (pb_field_t list \<Rightarrow> addr \<Rightarrow> mem \<Rightarrow> mem option) \<Rightarrow> pb_field_iter_t \<Rightarrow> mem \<Rightarrow>
   mem option" where
  "set_static_to_default E set_msg it m =
     (let field = cur_field it; ht = PB_HTYPE (ftype field);
          init = (\<lambda>m1.
            if PB_LTYPE (ftype field) = PB_LTYPE_SUBMESSAGE
            then set_msg (de_fields E (fptr field)) (pData it) m1
            else if fptr field \<noteq> 0
            then Some (store_bytes m1 (pData it)
                         (load_bytes m1 (fptr field) (unat (data_size field))))
            else Some (memset0 m1 (pData it) (data_size field)))
      in if ht = PB_HTYPE_OPTIONAL \<and> pSize it \<noteq> pData it then init (m(pSize it := 0))
         else if ht = PB_HTYPE_REPEATED \<or> ht = PB_HTYPE_ONEOF
         then Some (store_u32 m (pSize it) 0)
         else init m)"

definition set_pointer_to_default :: "pb_field_iter_t \<Rightarrow> mem \<Rightarrow> mem" where
  "set_pointer_to_default it m =
     (let ht = PB_HTYPE (ftype (cur_field it)); m1 = store_ptr m (pData it) 0
      in if ht = PB_HTYPE_REPEATED \<or> ht = PB_HTYPE_ONEOF then store_u32 m1 (pSize it) 0 else m1)"

text \<open>The \<^verbatim>\<open>do ... while (pb_field_iter_next(&iter))\<close> walks over all fields of a message.\<close>

primrec for_each_field ::
  "nat \<Rightarrow> (pb_field_iter_t \<Rightarrow> 's \<Rightarrow> 's option) \<Rightarrow> pb_field_iter_t \<Rightarrow> 's \<Rightarrow> 's option" where
  "for_each_field 0 f it x = None"
| "for_each_field (Suc k) f it x =
     (case f it x of
        None \<Rightarrow> None
      | Some y \<Rightarrow> (case pb_field_iter_next it of
            (True, it') \<Rightarrow> for_each_field k f it' y
          | (False, _) \<Rightarrow> Some y))"

definition message_walk ::
  "(pb_field_iter_t \<Rightarrow> 's \<Rightarrow> 's option) \<Rightarrow> pb_field_t list \<Rightarrow> addr \<Rightarrow> 's \<Rightarrow> 's option" where
  "message_walk f fs dest x =
     (case pb_field_iter_begin fs dest of
        (False, _) \<Rightarrow> Some x
      | (True, it) \<Rightarrow> for_each_field (length fs) f it x)"

primrec pb_field_set_to_default :: "nat \<Rightarrow> 'w dec_env \<Rightarrow> pb_field_iter_t \<Rightarrow> mem \<Rightarrow> mem option" where
  "pb_field_set_to_default 0 E it m = None"
| "pb_field_set_to_default (Suc n) E it m =
     (let ty = ftype (cur_field it) in
      if PB_LTYPE ty = PB_LTYPE_EXTENSION
      then set_extensions_to_default (Suc n) E (pb_field_set_to_default n E)
             (load_ptr m (pData it)) m
      else if PB_ATYPE ty = PB_ATYPE_STATIC
      then set_static_to_default E (message_walk (pb_field_set_to_default n E)) it m
      else if PB_ATYPE ty = PB_ATYPE_POINTER then Some (set_pointer_to_default it m)
      else Some m)"

definition pb_message_set_to_defaults ::
  "nat \<Rightarrow> 'w dec_env \<Rightarrow> pb_field_t list \<Rightarrow> addr \<Rightarrow> mem \<Rightarrow> mem option" where
  "pb_message_set_to_defaults n E = message_walk (pb_field_set_to_default n E)"

subsection \<open>Releasing\<close>

text \<open>The state of these functions is the memory and the world that holds the allocator.\<close>

primrec free_items ::
  "nat \<Rightarrow> 'w dec_env \<Rightarrow> addr \<Rightarrow> mem \<times> 'w \<Rightarrow> (mem \<times> 'w) option" where
  "free_items 0 E p st = Some st"
| "free_items (Suc k) E p st =
     (case st of (m, w) \<Rightarrow>
        case de_free E m w (load_ptr m p) of
          None \<Rightarrow> None
        | Some (m1, w1) \<Rightarrow> free_items k E (p + 8) (store_ptr m1 p 0, w1))"

primrec release_items ::
  "nat \<Rightarrow> (addr \<Rightarrow> 's \<Rightarrow> 's option) \<Rightarrow> addr \<Rightarrow> u64 \<Rightarrow> 's \<Rightarrow> 's option" where
  "release_items 0 rel p step x = Some x"
| "release_items (Suc k) rel p step x =
     (case rel p x of None \<Rightarrow> None | Some y \<Rightarrow> release_items k rel (p + step) step y)"

primrec release_extensions ::
  "nat \<Rightarrow> 'w dec_env \<Rightarrow> (pb_field_iter_t \<Rightarrow> mem \<times> 'w \<Rightarrow> (mem \<times> 'w) option) \<Rightarrow> addr \<Rightarrow>
   mem \<times> 'w \<Rightarrow> (mem \<times> 'w) option" where
  "release_extensions 0 E rel ext st = None"
| "release_extensions (Suc k) E rel ext st =
     (if ext = 0 then Some st
      else (case rel (iter_from_extension E (fst st) ext) st of
          None \<Rightarrow> None
        | Some st1 \<Rightarrow> release_extensions k E rel (load_ptr (fst st1) (ext + 16)) st1))"

text \<open>The number of submessages to release, with the guard against corrupted counts.\<close>

definition release_count :: "pb_field_iter_t \<Rightarrow> mem \<Rightarrow> u32" where
  "release_count it m =
     (let field = cur_field it in
      if PB_HTYPE (ftype field) = PB_HTYPE_REPEATED then
        (let count = (if PB_ATYPE (ftype field) = PB_ATYPE_STATIC \<and> pSize it = pData it
                      then array_size field else load_u32 m (pSize it))
         in if PB_ATYPE (ftype field) = PB_ATYPE_STATIC \<and> count > array_size field
            then array_size field else count)
      else 1)"

definition release_contents ::
  "nat \<Rightarrow> 'w dec_env \<Rightarrow> (pb_field_iter_t \<Rightarrow> mem \<times> 'w \<Rightarrow> (mem \<times> 'w) option) \<Rightarrow>
   (pb_field_t list \<Rightarrow> addr \<Rightarrow> mem \<times> 'w \<Rightarrow> (mem \<times> 'w) option) \<Rightarrow> pb_field_iter_t \<Rightarrow>
   mem \<times> 'w \<Rightarrow> (mem \<times> 'w) option" where
  "release_contents n E rel_fld rel_msg it st =
     (let field = cur_field it; m = fst st in
      if PB_LTYPE (ftype field) = PB_LTYPE_EXTENSION
      then release_extensions (Suc n) E rel_fld (load_ptr m (pData it)) st
      else if PB_LTYPE (ftype field) = PB_LTYPE_SUBMESSAGE then
        (let item = (if PB_ATYPE (ftype field) = PB_ATYPE_POINTER then load_ptr m (pData it)
                     else pData it)
         in if item = 0 then Some st
            else release_items (unat (release_count it m)) (rel_msg (de_fields E (fptr field)))
                   item (ucast (data_size field)) st)
      else Some st)"

definition release_pointer ::
  "'w dec_env \<Rightarrow> pb_field_iter_t \<Rightarrow> mem \<times> 'w \<Rightarrow> (mem \<times> 'w) option" where
  "release_pointer E it st =
     (let field = cur_field it; repeated = (PB_HTYPE (ftype field) = PB_HTYPE_REPEATED) in
      case (if repeated \<and> (PB_LTYPE (ftype field) = PB_LTYPE_STRING \<or>
                           PB_LTYPE (ftype field) = PB_LTYPE_BYTES)
            then free_items (unat (load_u32 (fst st) (pSize it))) E
                   (load_ptr (fst st) (pData it)) st
            else Some st) of
        None \<Rightarrow> None
      | Some (m1, w1) \<Rightarrow>
          (let m2 = (if repeated then store_u32 m1 (pSize it) 0 else m1) in
           case de_free E m2 w1 (load_ptr m2 (pData it)) of
             None \<Rightarrow> None
           | Some (m3, w3) \<Rightarrow> Some (store_ptr m3 (pData it) 0, w3)))"

primrec pb_release_single_field ::
  "nat \<Rightarrow> 'w dec_env \<Rightarrow> pb_field_iter_t \<Rightarrow> mem \<times> 'w \<Rightarrow> (mem \<times> 'w) option" where
  "pb_release_single_field 0 E it st = None"
| "pb_release_single_field (Suc n) E it st =
     (let field = cur_field it in
      if PB_HTYPE (ftype field) = PB_HTYPE_ONEOF \<and> load_u32 (fst st) (pSize it) \<noteq> tag field
      then Some st
      else (case release_contents n E (pb_release_single_field n E)
                   (\<lambda>fs dest x. if dest = 0 then Some x
                      else message_walk (pb_release_single_field n E) fs dest x) it st of
          None \<Rightarrow> None
        | Some st1 \<Rightarrow>
            if PB_ATYPE (ftype field) = PB_ATYPE_POINTER then release_pointer E it st1
            else Some st1))"

definition pb_release ::
  "nat \<Rightarrow> 'w dec_env \<Rightarrow> pb_field_t list \<Rightarrow> addr \<Rightarrow> mem \<times> 'w \<Rightarrow> (mem \<times> 'w) option" where
  "pb_release n E fs dest st =
     (if dest = 0 then Some st else message_walk (pb_release_single_field n E) fs dest st)"

text \<open>A release in the middle of decoding: the allocator's world is the stream's.\<close>

definition release_in_stream ::
  "nat \<Rightarrow> 'w dec_env \<Rightarrow> pb_field_iter_t \<Rightarrow> mem \<Rightarrow> 'w pb_istream_t \<Rightarrow>
   (mem \<times> 'w pb_istream_t) option" where
  "release_in_stream n E it m s =
     (case pb_release_single_field n E it (m, is_world s) of
        None \<Rightarrow> None | Some (m1, w) \<Rightarrow> Some (m1, s\<lparr>is_world := w\<rparr>))"

text \<open>The iterator comes back restored to the new member when the function succeeds.\<close>

definition pb_release_union_field ::
  "nat \<Rightarrow> 'w dec_env \<Rightarrow> pb_field_iter_t \<Rightarrow> mem \<Rightarrow> 'w pb_istream_t \<Rightarrow>
   (bool \<times> pb_field_iter_t \<times> mem \<times> 'w pb_istream_t) option" where
  "pb_release_union_field n E it m s =
     (let old_tag = load_u32 m (pSize it); new_tag = tag (cur_field it) in
      if old_tag = 0 then Some (True, it, m, s)
      else if old_tag = new_tag then Some (True, it, m, s)
      else (case pb_field_iter_find it old_tag of
          None \<Rightarrow> None
        | Some (False, it1) \<Rightarrow> Some (False, it1, m, is_set_error s ''invalid union tag'')
        | Some (True, it1) \<Rightarrow>
            (case release_in_stream n E it1 m s of
               None \<Rightarrow> None
             | Some (m1, s1) \<Rightarrow>
                 (case pb_field_iter_find it1 new_tag of
                    None \<Rightarrow> None
                  | Some (False, it2) \<Rightarrow> Some (False, it2, m1, is_set_error s1 ''iterator error'')
                  | Some (True, it2) \<Rightarrow> Some (True, it2, m1, s1)))))"

subsection \<open>Static fields\<close>

text \<open>The loop over a packed array; \<open>ps\<close> points to the number of entries so far.\<close>

primrec static_packed_loop ::
  "nat \<Rightarrow> 'w field_decoder \<Rightarrow> pb_field_t \<Rightarrow> addr \<Rightarrow> addr \<Rightarrow> mem \<Rightarrow> 'w pb_istream_t \<Rightarrow>
   'w dec_result" where
  "static_packed_loop 0 func field pd ps m s = None"
| "static_packed_loop (Suc k) func field pd ps m s =
     (if bytes_left s > 0 \<and> load_u32 m ps < array_size field then
        (case func field (pd + ucast (data_size field * load_u32 m ps)) m s of
           Some (True, m1, s1) \<Rightarrow>
             static_packed_loop k func field pd ps (store_u32 m1 ps (load_u32 m1 ps + 1)) s1
         | r \<Rightarrow> r)
      else Some (True, m, s))"

definition decode_static_field ::
  "nat \<Rightarrow> 'w dec_env \<Rightarrow> 'w msg_decoder \<Rightarrow> wire_type \<Rightarrow> pb_field_iter_t \<Rightarrow> mem \<Rightarrow>
   'w pb_istream_t \<Rightarrow> 'w dec_result" where
  "decode_static_field n E sub wt it m s =
     (let field = cur_field it; ht = PB_HTYPE (ftype field); func = PB_DECODERS E sub;
          pd = pData it; ps = pSize it
      in if ht = PB_HTYPE_REQUIRED then func field pd m s
         else if ht = PB_HTYPE_OPTIONAL then
           func field pd (if ps \<noteq> pd then m(ps := 1) else m) s
         else if ht = PB_HTYPE_REPEATED then
           (if wt = PB_WT_STRING \<and> PB_LTYPE (ftype field) \<le> PB_LTYPE_LAST_PACKABLE then
              (case pb_make_string_substream s of
                 (None, s1) \<Rightarrow> Some (False, m, s1)
               | (Some substream, s1) \<Rightarrow>
                   (case static_packed_loop (Suc (unat (bytes_left substream))) func field pd ps m
                           substream of
                      None \<Rightarrow> None
                    | Some (status, m1, substream1) \<Rightarrow>
                        if bytes_left substream1 \<noteq> 0
                        then Some (False, m1,
                               is_set_error (with_world_of s1 substream1) ''array overflow'')
                        else (case pb_close_string_substream s1 substream1 of
                            (ok, s2) \<Rightarrow> Some (ok \<and> status, m1, s2))))
            else
              (let sz = load_u32 m ps; m1 = store_u32 m ps (sz + 1) in
               if sz \<ge> array_size field
               then Some (False, m1, is_set_error s ''array overflow'')
               else func field (pd + ucast (data_size field * sz)) m1 s))
         else if ht = PB_HTYPE_ONEOF then
           (let m1 = store_u32 m ps (tag field) in
            if PB_LTYPE (ftype field) = PB_LTYPE_SUBMESSAGE then
              (case pb_message_set_to_defaults n E (de_fields E (fptr field)) pd
                      (memset0 m1 pd (data_size field)) of
                 None \<Rightarrow> None
               | Some m2 \<Rightarrow> func field pd m2 s)
            else func field pd m1 s)
         else Some (False, m, is_set_error s ''invalid field type''))"

subsection \<open>Pointer fields\<close>

definition initialize_pointer_field ::
  "nat \<Rightarrow> 'w dec_env \<Rightarrow> pb_field_t \<Rightarrow> addr \<Rightarrow> mem \<Rightarrow> mem option" where
  "initialize_pointer_field n E field item m =
     (let lt = PB_LTYPE (ftype field) in
      if lt = PB_LTYPE_STRING \<or> lt = PB_LTYPE_BYTES then Some (store_ptr m item 0)
      else if lt = PB_LTYPE_SUBMESSAGE
      then pb_message_set_to_defaults n E (de_fields E (fptr field)) item
             (memset0 m item (data_size field))
      else Some m)"

text \<open>The loop over a packed array that grows by reallocation.\<close>

primrec pointer_packed_loop ::
  "nat \<Rightarrow> nat \<Rightarrow> 'w dec_env \<Rightarrow> 'w msg_decoder \<Rightarrow> pb_field_t \<Rightarrow> addr \<Rightarrow> addr \<Rightarrow> u64 \<Rightarrow> mem \<Rightarrow>
   'w pb_istream_t \<Rightarrow> 'w pb_istream_t \<Rightarrow> (bool \<times> mem \<times> 'w pb_istream_t \<times> 'w pb_istream_t) option"
  where
  "pointer_packed_loop 0 n E sub field pd ps allocated m parent s = None"
| "pointer_packed_loop (Suc k) n E sub field pd ps allocated m parent s =
     (if bytes_left s = 0 then Some (True, m, parent, s)
      else
        (let grow = (ucast (load_u32 m ps) + 1 > allocated);
             dsize = ucast (data_size field) :: u64;
             allocated1 = (if grow then allocated + ((bytes_left s - 1) div dsize + 1)
                           else allocated)
         in if grow \<and> dsize = 0 then None
            else case (if grow then allocate_field E pd dsize allocated1 m s
                       else Some (True, m, s)) of
              None \<Rightarrow> None
            | Some (False, m1, s1) \<Rightarrow> Some (False, m1, parent, s1)
            | Some (True, m1, s1) \<Rightarrow>
                (let item = load_ptr m1 pd + ucast (data_size field * load_u32 m1 ps) in
                 case initialize_pointer_field n E field item m1 of
                   None \<Rightarrow> None
                 | Some m2 \<Rightarrow>
                   (case PB_DECODERS E sub field item m2 s1 of
                      None \<Rightarrow> None
                    | Some (False, m3, s3) \<Rightarrow> Some (False, m3, parent, s3)
                    | Some (True, m3, s3) \<Rightarrow>
                        if load_u32 m3 ps = PB_SIZE_MAX
                        then Some (False, m3,
                               parent\<lparr>is_errmsg := Some ''too many array entries''\<rparr>, s3)
                        else pointer_packed_loop k n E sub field pd ps allocated1
                               (store_u32 m3 ps (load_u32 m3 ps + 1)) parent s3))))"

definition decode_single_pointer ::
  "nat \<Rightarrow> 'w dec_env \<Rightarrow> 'w msg_decoder \<Rightarrow> pb_field_iter_t \<Rightarrow> mem \<Rightarrow> 'w pb_istream_t \<Rightarrow>
   'w dec_result" where
  "decode_single_pointer n E sub it m s =
     (let field = cur_field it; lt = PB_LTYPE (ftype field); pd = pData it; ps = pSize it in
      case (if lt = PB_LTYPE_SUBMESSAGE \<and> load_ptr m pd \<noteq> 0 then release_in_stream n E it m s
            else Some (m, s)) of
        None \<Rightarrow> None
      | Some (m1, s1) \<Rightarrow>
          (let m2 = (if PB_HTYPE (ftype field) = PB_HTYPE_ONEOF
                     then store_u32 m1 ps (tag field) else m1) in
           if lt = PB_LTYPE_STRING \<or> lt = PB_LTYPE_BYTES then PB_DECODERS E sub field pd m2 s1
           else (case allocate_field E pd (ucast (data_size field)) 1 m2 s1 of
               Some (True, m3, s3) \<Rightarrow>
                 (case initialize_pointer_field n E field (load_ptr m3 pd) m3 of
                    None \<Rightarrow> None
                  | Some m4 \<Rightarrow> PB_DECODERS E sub field (load_ptr m4 pd) m4 s3)
             | r \<Rightarrow> r)))"

definition decode_repeated_pointer ::
  "nat \<Rightarrow> 'w dec_env \<Rightarrow> 'w msg_decoder \<Rightarrow> wire_type \<Rightarrow> pb_field_iter_t \<Rightarrow> mem \<Rightarrow>
   'w pb_istream_t \<Rightarrow> 'w dec_result" where
  "decode_repeated_pointer n E sub wt it m s =
     (let field = cur_field it; pd = pData it; ps = pSize it in
      if wt = PB_WT_STRING \<and> PB_LTYPE (ftype field) \<le> PB_LTYPE_LAST_PACKABLE then
        (case pb_make_string_substream s of
           (None, s1) \<Rightarrow> Some (False, m, s1)
         | (Some substream, s1) \<Rightarrow>
             (case pointer_packed_loop (Suc (unat (bytes_left substream))) n E sub field pd ps
                     (ucast (load_u32 m ps)) m s1 substream of
                None \<Rightarrow> None
              | Some (status, m1, s2, substream1) \<Rightarrow>
                  (case pb_close_string_substream s2 substream1 of
                     (ok, s3) \<Rightarrow> Some (ok \<and> status, m1, s3))))
      else if load_u32 m ps = PB_SIZE_MAX
      then Some (False, m, is_set_error s ''too many array entries'')
      else
        (let m1 = store_u32 m ps (load_u32 m ps + 1) in
         case allocate_field E pd (ucast (data_size field)) (ucast (load_u32 m1 ps)) m1 s of
           Some (True, m2, s2) \<Rightarrow>
             (let item = load_ptr m2 pd + ucast (data_size field * (load_u32 m2 ps - 1)) in
              case initialize_pointer_field n E field item m2 of
                None \<Rightarrow> None
              | Some m3 \<Rightarrow> PB_DECODERS E sub field item m3 s2)
         | r \<Rightarrow> r))"

definition decode_pointer_field ::
  "nat \<Rightarrow> 'w dec_env \<Rightarrow> 'w msg_decoder \<Rightarrow> wire_type \<Rightarrow> pb_field_iter_t \<Rightarrow> mem \<Rightarrow>
   'w pb_istream_t \<Rightarrow> 'w dec_result" where
  "decode_pointer_field n E sub wt it m s =
     (let ht = PB_HTYPE (ftype (cur_field it)) in
      if ht = PB_HTYPE_REQUIRED \<or> ht = PB_HTYPE_OPTIONAL \<or> ht = PB_HTYPE_ONEOF
      then decode_single_pointer n E sub it m s
      else if ht = PB_HTYPE_REPEATED then decode_repeated_pointer n E sub wt it m s
      else Some (False, m, is_set_error s ''invalid field type''))"

subsection \<open>Callback fields\<close>

text \<open>
  The \<^verbatim>\<open>do ... while (substream.bytes_left)\<close> loop. A callback that consumes input needs one
  round per byte at most; \<open>n\<close> more rounds are granted to one that does not.
\<close>

primrec callback_loop ::
  "nat \<Rightarrow> (mem \<Rightarrow> 'w pb_istream_t \<Rightarrow> bool \<times> mem \<times> 'w pb_istream_t) \<Rightarrow> mem \<Rightarrow>
   'w pb_istream_t \<Rightarrow> 'w dec_result" where
  "callback_loop 0 cb m s = None"
| "callback_loop (Suc k) cb m s =
     (case cb m s of
        (False, m1, s1) \<Rightarrow> Some (False, m1, s1)
      | (True, m1, s1) \<Rightarrow>
          if bytes_left s1 \<noteq> 0 then callback_loop k cb m1 s1 else Some (True, m1, s1))"

text \<open>A scalar is handed to the callback as a stream over a ten-byte local buffer.\<close>

definition raw_substream :: "byte list \<Rightarrow> 'w \<Rightarrow> 'w pb_istream_t" where
  "raw_substream bs w =
     pb_istream_from_buffer (store_bytes (\<lambda>_. 0) 0 bs) 0 (of_nat (length bs)) w"

definition decode_callback_field ::
  "nat \<Rightarrow> 'w dec_env \<Rightarrow> wire_type \<Rightarrow> pb_field_iter_t \<Rightarrow> mem \<Rightarrow> 'w pb_istream_t \<Rightarrow>
   'w dec_result" where
  "decode_callback_field n E wt it m s =
     (let fn = load_ptr m (pData it); cb = de_callback E fn (cur_field it) (pData it + 8) in
      if pData it = 0 \<or> fn = 0 then (case pb_skip_field s wt of (ok, s1) \<Rightarrow> Some (ok, m, s1))
      else if wt = PB_WT_STRING then
        (case pb_make_string_substream s of
           (None, s1) \<Rightarrow> Some (False, m, s1)
         | (Some substream, s1) \<Rightarrow>
             (case callback_loop (Suc (unat (bytes_left substream) + n)) cb m substream of
                None \<Rightarrow> None
              | Some (False, m1, substream1) \<Rightarrow>
                  Some (False, m1, is_set_error (with_world_of s1 substream1) ''callback failed'')
              | Some (True, m1, substream1) \<Rightarrow>
                  (case pb_close_string_substream s1 substream1 of (ok, s2) \<Rightarrow> Some (ok, m1, s2))))
      else (case read_raw_value s wt 10 of
          (None, s1) \<Rightarrow> Some (False, m, s1)
        | (Some bs, s1) \<Rightarrow>
            (case cb m (raw_substream bs (is_world s1)) of
               (status, m1, substream1) \<Rightarrow> Some (status, m1, with_world_of s1 substream1))))"

subsection \<open>Fields of any kind, and extensions\<close>

definition decode_field ::
  "nat \<Rightarrow> 'w dec_env \<Rightarrow> 'w msg_decoder \<Rightarrow> wire_type \<Rightarrow> pb_field_iter_t \<Rightarrow> mem \<Rightarrow>
   'w pb_istream_t \<Rightarrow> (bool \<times> pb_field_iter_t \<times> mem \<times> 'w pb_istream_t) option" where
  "decode_field n E sub wt it m s =
     (case (if PB_HTYPE (ftype (cur_field it)) = PB_HTYPE_ONEOF
            then pb_release_union_field n E it m s else Some (True, it, m, s)) of
        None \<Rightarrow> None
      | Some (False, it1, m1, s1) \<Rightarrow> Some (False, it1, m1, s1)
      | Some (True, it1, m1, s1) \<Rightarrow>
          (let at = PB_ATYPE (ftype (cur_field it1)) in
           map_option (\<lambda>(ok, m2, s2). (ok, it1, m2, s2))
             (if at = PB_ATYPE_STATIC then decode_static_field n E sub wt it1 m1 s1
              else if at = PB_ATYPE_POINTER then decode_pointer_field n E sub wt it1 m1 s1
              else if at = PB_ATYPE_CALLBACK then decode_callback_field n E wt it1 m1 s1
              else Some (False, m1, is_set_error s1 ''invalid field type''))))"

definition default_extension_decoder ::
  "nat \<Rightarrow> 'w dec_env \<Rightarrow> 'w msg_decoder \<Rightarrow> addr \<Rightarrow> u32 \<Rightarrow> wire_type \<Rightarrow> mem \<Rightarrow> 'w pb_istream_t \<Rightarrow>
   'w dec_result" where
  "default_extension_decoder n E sub ext t wt m s =
     (let field = de_fields E (load_ptr m (load_ptr m ext + 16)) ! 0 in
      if tag field \<noteq> t then Some (True, m, s)
      else map_option (\<lambda>(ok, _, m1, s1). (ok, m1, s1))
             (decode_field n E sub wt (iter_from_extension E m ext) (m(ext + 24 := 1)) s))"

text \<open>The list is walked until an extension has consumed input.\<close>

primrec decode_extension_list ::
  "nat \<Rightarrow> nat \<Rightarrow> 'w dec_env \<Rightarrow> 'w msg_decoder \<Rightarrow> addr \<Rightarrow> u64 \<Rightarrow> u32 \<Rightarrow> wire_type \<Rightarrow> mem \<Rightarrow>
   'w pb_istream_t \<Rightarrow> 'w dec_result" where
  "decode_extension_list 0 n E sub ext pos t wt m s = None"
| "decode_extension_list (Suc k) n E sub ext pos t wt m s =
     (if ext = 0 \<or> pos \<noteq> bytes_left s then Some (True, m, s)
      else
        (let fn = load_ptr m (load_ptr m ext) in
         case (if fn \<noteq> 0 then Some (de_ext_decode E fn ext t wt m s)
               else default_extension_decoder n E sub ext t wt m s) of
           Some (True, m1, s1) \<Rightarrow>
             decode_extension_list k n E sub (load_ptr m1 (ext + 16)) pos t wt m1 s1
         | r \<Rightarrow> r))"

definition decode_extension ::
  "nat \<Rightarrow> 'w dec_env \<Rightarrow> 'w msg_decoder \<Rightarrow> u32 \<Rightarrow> wire_type \<Rightarrow> pb_field_iter_t \<Rightarrow> mem \<Rightarrow>
   'w pb_istream_t \<Rightarrow> 'w dec_result" where
  "decode_extension n E sub t wt it m s =
     decode_extension_list (Suc n) n E sub (load_ptr m (pData it)) (bytes_left s) t wt m s"

subsection \<open>The message loop\<close>

text \<open>
  The local variables of \<^verbatim>\<open>pb_decode_noinit\<close>: \<open>fields_seen\<close> as its two words,
  \<open>fixed_count_field\<close> as an index. \<^verbatim>\<open>fixed_count_size\<close> is in memory, at \<open>local\<close>.
\<close>

record dec_frame =
  fields_seen :: "u32 list"
  extension_range_start :: u32
  fixed_count_field :: "nat option"
  dec_iter :: pb_field_iter_t

definition mark_seen :: "u32 \<Rightarrow> u32 list \<Rightarrow> u32 list" where
  "mark_seen i seen =
     (let k = unat (drop_bit 5 i)
      in seen[k := seen ! k OR push_bit (unat (i AND 31)) 1])"

text \<open>A message has had all entries of its last fixed-count array.\<close>

definition fixed_count_ok :: "dec_frame \<Rightarrow> addr \<Rightarrow> mem \<Rightarrow> bool" where
  "fixed_count_ok fr loc m =
     (case fixed_count_field fr of None \<Rightarrow> True
      | Some k \<Rightarrow> load_u32 m loc = array_size (it_start (dec_iter fr) ! k))"

text \<open>The field has been found: the preparations before \<^verbatim>\<open>decode_field\<close> is called.\<close>

definition enter_field :: "addr \<Rightarrow> dec_frame \<Rightarrow> mem \<Rightarrow> (dec_frame \<times> mem) option" where
  "enter_field loc fr m =
     (let it = dec_iter fr; field = cur_field it;
          fixed = (PB_HTYPE (ftype field) = PB_HTYPE_REPEATED \<and> pSize it = pData it);
          new = (fixed \<and> fixed_count_field fr \<noteq> Some (it_pos it))
      in if new \<and> \<not> fixed_count_ok fr loc m then None
         else
           (let fr1 = (if new then fr\<lparr>fixed_count_field := Some (it_pos it)\<rparr> else fr);
                m1 = (if new then store_u32 m loc 0 else m);
                fr2 = (if fixed then fr1\<lparr>dec_iter := it\<lparr>pSize := loc\<rparr>\<rparr> else fr1);
                fr3 = (if PB_HTYPE (ftype field) = PB_HTYPE_REQUIRED \<and>
                          required_field_index it < PB_MAX_REQUIRED_FIELDS
                       then fr2\<lparr>fields_seen := mark_seen (required_field_index it) (fields_seen fr2)\<rparr>
                       else fr2)
            in Some (fr3, m1)))"

text \<open>No field has the tag: extensions get a chance, then the data is skipped.\<close>

definition decode_unknown ::
  "nat \<Rightarrow> 'w dec_env \<Rightarrow> 'w msg_decoder \<Rightarrow> u32 \<Rightarrow> wire_type \<Rightarrow> dec_frame \<Rightarrow> mem \<Rightarrow>
   'w pb_istream_t \<Rightarrow> (bool \<times> dec_frame \<times> mem \<times> 'w pb_istream_t) option" where
  "decode_unknown n E sub t wt fr m s =
     (let skip = (\<lambda>fr1 m1 s1. case pb_skip_field s1 wt of (ok, s2) \<Rightarrow> Some (ok, fr1, m1, s2)) in
      if t \<ge> extension_range_start fr then
        (case find_extension_field (dec_iter fr) of
           None \<Rightarrow> None
         | Some (found, it1) \<Rightarrow>
             (let start = (if found then tag (cur_field it1) else - 1);
                  fr1 = fr\<lparr>dec_iter := it1, extension_range_start := start\<rparr>
              in if t \<ge> start then
                   (case decode_extension n E sub t wt it1 m s of
                      None \<Rightarrow> None
                    | Some (False, m1, s1) \<Rightarrow> Some (False, fr1, m1, s1)
                    | Some (True, m1, s1) \<Rightarrow>
                        if bytes_left s \<noteq> bytes_left s1 then Some (True, fr1, m1, s1)
                        else skip fr1 m1 s1)
                 else skip fr1 m s))
      else skip fr m s)"

definition decode_known ::
  "nat \<Rightarrow> 'w dec_env \<Rightarrow> 'w msg_decoder \<Rightarrow> addr \<Rightarrow> wire_type \<Rightarrow> dec_frame \<Rightarrow> mem \<Rightarrow>
   'w pb_istream_t \<Rightarrow> (bool \<times> dec_frame \<times> mem \<times> 'w pb_istream_t) option" where
  "decode_known n E sub loc wt fr m s =
     (case enter_field loc fr m of
        None \<Rightarrow> Some (False, fr, m, is_set_error s ''wrong size for fixed count field'')
      | Some (fr1, m1) \<Rightarrow>
          (case decode_field n E sub wt (dec_iter fr1) m1 s of
             None \<Rightarrow> None
           | Some (ok, it, m2, s2) \<Rightarrow> Some (ok, fr1\<lparr>dec_iter := it\<rparr>, m2, s2)))"

text \<open>The \<^verbatim>\<open>while (stream->bytes_left)\<close> loop; every round consumes a key.\<close>

primrec decode_loop ::
  "nat \<Rightarrow> nat \<Rightarrow> 'w dec_env \<Rightarrow> 'w msg_decoder \<Rightarrow> addr \<Rightarrow> dec_frame \<Rightarrow> mem \<Rightarrow> 'w pb_istream_t \<Rightarrow>
   (bool \<times> dec_frame \<times> mem \<times> 'w pb_istream_t) option" where
  "decode_loop 0 n E sub loc fr m s = None"
| "decode_loop (Suc k) n E sub loc fr m s =
     (if bytes_left s = 0 then Some (True, fr, m, s)
      else (case pb_decode_tag s of
          (None, eof, s1) \<Rightarrow> Some (eof, fr, m, s1)
        | (Some (wt, t), _, s1) \<Rightarrow>
            (case pb_field_iter_find (dec_iter fr) t of
               None \<Rightarrow> None
             | Some (found, it) \<Rightarrow>
                 (let fr1 = fr\<lparr>dec_iter := it\<rparr> in
                  case (if found then decode_known n E sub loc wt fr1 m s1
                        else decode_unknown n E sub t wt fr1 m s1) of
                    Some (True, fr2, m2, s2) \<Rightarrow> decode_loop k n E sub loc fr2 m2 s2
                  | r \<Rightarrow> r))))"

text \<open>
  The seek to the end of the descriptors: \<open>required_field_index\<close> and type of the last field
  visited, and the iterator after it.
\<close>

primrec seek_last ::
  "nat \<Rightarrow> pb_field_iter_t \<Rightarrow> (u32 \<times> byte \<times> pb_field_iter_t) option" where
  "seek_last 0 it = None"
| "seek_last (Suc k) it =
     (case pb_field_iter_next it of
        (True, it') \<Rightarrow> seek_last k it'
      | (False, it') \<Rightarrow> Some (required_field_index it, ftype (cur_field it), it'))"

definition req_field_count :: "u32 \<times> byte \<times> pb_field_iter_t \<Rightarrow> u32" where
  "req_field_count r =
     (case r of (count, last_type, it) \<Rightarrow>
        (let c = (if PB_HTYPE last_type = PB_HTYPE_REQUIRED \<and> tag (cur_field it) \<noteq> 0
                  then count + 1 else count)
         in if c > PB_MAX_REQUIRED_FIELDS then PB_MAX_REQUIRED_FIELDS else c))"

definition required_seen :: "u32 \<Rightarrow> u32 list \<Rightarrow> bool" where
  "required_seen count seen =
     (count > 0 \<longrightarrow>
        list_all (\<lambda>i. seen ! i = - 1) [0..<unat (drop_bit 5 count)] \<and>
        (count AND 31 \<noteq> 0 \<longrightarrow>
           seen ! unat (drop_bit 5 count) = drop_bit (unat (32 - (count AND 31))) (- 1)))"

definition start_frame :: "pb_field_t list \<Rightarrow> addr \<Rightarrow> dec_frame" where
  "start_frame fs dest =
     \<lparr>fields_seen = [0, 0], extension_range_start = 0, fixed_count_field = None,
      dec_iter = snd (pb_field_iter_begin fs dest)\<rparr>"

text \<open>The checks after the loop.\<close>

definition check_complete ::
  "pb_field_t list \<Rightarrow> addr \<Rightarrow> dec_frame \<Rightarrow> mem \<Rightarrow> 'w pb_istream_t \<Rightarrow> 'w dec_result" where
  "check_complete fs loc fr m s =
     (if \<not> fixed_count_ok fr loc m
      then Some (False, m, is_set_error s ''wrong size for fixed count field'')
      else (case seek_last (length fs) (dec_iter fr) of
          None \<Rightarrow> None
        | Some r \<Rightarrow>
            if required_seen (req_field_count r) (fields_seen fr) then Some (True, m, s)
            else Some (False, m, is_set_error s ''missing required field'')))"

definition decode_noinit ::
  "nat \<Rightarrow> 'w dec_env \<Rightarrow> 'w msg_decoder \<Rightarrow> pb_field_t list \<Rightarrow> addr \<Rightarrow> mem \<Rightarrow> 'w pb_istream_t \<Rightarrow>
   'w dec_result" where
  "decode_noinit n E sub fs dest m s =
     (let loc = de_local E n in
      case decode_loop (Suc (unat (bytes_left s))) n E sub loc (start_frame fs dest)
             (store_u32 m loc 0) s of
        None \<Rightarrow> None
      | Some (False, fr, m1, s1) \<Rightarrow> Some (False, m1, s1)
      | Some (True, fr, m1, s1) \<Rightarrow> check_complete fs loc fr m1 s1)"

text \<open>
  \<^verbatim>\<open>pb_decode\<close> and \<^verbatim>\<open>pb_decode_noinit\<close> at a depth: the first argument says whether the
  defaults are set first and the message is released on failure.
\<close>

definition decode_message :: "nat \<Rightarrow> 'w dec_env \<Rightarrow> 'w msg_decoder \<Rightarrow> 'w msg_decoder" where
  "decode_message n E sub init fs dest m s =
     (if \<not> init then decode_noinit n E sub fs dest m s
      else (case pb_message_set_to_defaults n E fs dest m of
          None \<Rightarrow> None
        | Some m1 \<Rightarrow>
            (case decode_noinit n E sub fs dest m1 s of
               Some (False, m2, s2) \<Rightarrow>
                 (case pb_release n E fs dest (m2, is_world s2) of
                    None \<Rightarrow> None
                  | Some (m3, w) \<Rightarrow> Some (False, m3, s2\<lparr>is_world := w\<rparr>))
             | r \<Rightarrow> r)))"

primrec decode_at_depth :: "nat \<Rightarrow> 'w dec_env \<Rightarrow> 'w msg_decoder" where
  "decode_at_depth 0 E = (\<lambda>init fs dest m s. None)"
| "decode_at_depth (Suc n) E = decode_message n E (decode_at_depth n E)"

definition pb_decode_noinit ::
  "nat \<Rightarrow> 'w dec_env \<Rightarrow> pb_field_t list \<Rightarrow> addr \<Rightarrow> mem \<Rightarrow> 'w pb_istream_t \<Rightarrow> 'w dec_result" where
  "pb_decode_noinit n E = decode_at_depth n E False"

definition pb_decode ::
  "nat \<Rightarrow> 'w dec_env \<Rightarrow> pb_field_t list \<Rightarrow> addr \<Rightarrow> mem \<Rightarrow> 'w pb_istream_t \<Rightarrow> 'w dec_result" where
  "pb_decode n E = decode_at_depth n E True"

definition decode_delimited_with ::
  "(mem \<Rightarrow> 'w pb_istream_t \<Rightarrow> 'w dec_result) \<Rightarrow> mem \<Rightarrow> 'w pb_istream_t \<Rightarrow> 'w dec_result" where
  "decode_delimited_with dec m s =
     (case pb_make_string_substream s of
        (None, s1) \<Rightarrow> Some (False, m, s1)
      | (Some substream, s1) \<Rightarrow>
          (case dec m substream of
             None \<Rightarrow> None
           | Some (status, m1, substream1) \<Rightarrow>
               (case pb_close_string_substream s1 substream1 of
                  (ok, s2) \<Rightarrow> Some (ok \<and> status, m1, s2))))"

definition pb_decode_delimited_noinit ::
  "nat \<Rightarrow> 'w dec_env \<Rightarrow> pb_field_t list \<Rightarrow> addr \<Rightarrow> mem \<Rightarrow> 'w pb_istream_t \<Rightarrow> 'w dec_result" where
  "pb_decode_delimited_noinit n E fs dest = decode_delimited_with (pb_decode_noinit n E fs dest)"

definition pb_decode_delimited ::
  "nat \<Rightarrow> 'w dec_env \<Rightarrow> pb_field_t list \<Rightarrow> addr \<Rightarrow> mem \<Rightarrow> 'w pb_istream_t \<Rightarrow> 'w dec_result" where
  "pb_decode_delimited n E fs dest = decode_delimited_with (pb_decode n E fs dest)"

definition pb_decode_nullterminated ::
  "nat \<Rightarrow> 'w dec_env \<Rightarrow> pb_field_t list \<Rightarrow> addr \<Rightarrow> mem \<Rightarrow> 'w pb_istream_t \<Rightarrow> 'w dec_result" where
  "pb_decode_nullterminated n E = pb_decode n E"

end
