(* ===== verification/Pb_Decode_Within.thy ===== *)
theory Pb_Decode_Within
  imports Pb_Wire_Correct Pb_Decode
begin

unbundle bit_operations_syntax

text \<open>
  The message decoder stays inside its input: whatever the bytes are, and whether it
  succeeds or fails, every function of \<open>Pb_Decode\<close> leaves a buffer stream at a suffix of
  what it was given. One lemma per function, in the order of the calls.
\<close>

subsection \<open>Results that stay within a stream\<close>

definition dec_within :: "'w pb_istream_t \<Rightarrow> (bool \<times> 'm \<times> 'w pb_istream_t) option \<Rightarrow> bool" where
  "dec_within s r = (\<forall>ok m' s'. r = Some (ok, m', s') \<longrightarrow> reads_within s s')"

lemma dec_withinI: "(\<And>ok m' s'. r = Some (ok, m', s') \<Longrightarrow> reads_within s s') \<Longrightarrow> dec_within s r"
  by (simp add: dec_within_def)

lemma dec_withinD: "dec_within s r \<Longrightarrow> r = Some (ok, m', s') \<Longrightarrow> reads_within s s'"
  by (simp add: dec_within_def)

lemma dec_within_None [simp]: "dec_within s None"
  and dec_within_Some [simp]: "dec_within s (Some (ok, m', s')) = reads_within s s'"
  by (simp_all add: dec_within_def)

lemma dec_within_trans: "reads_within s s1 \<Longrightarrow> dec_within s1 r \<Longrightarrow> dec_within s r"
  by (auto simp: dec_within_def intro: reads_within_trans)

subsection \<open>Field decoders\<close>

lemma allocate_field_within: "dec_within s (allocate_field E pd a b m s)"
  by (auto simp: allocate_field_def Let_def split: option.splits)

lemma pb_dec_scalar_within:
  assumes "is_buffer s"
  shows "dec_within s (Some (pb_dec_varint field dest m s))"
    "dec_within s (Some (pb_dec_uvarint field dest m s))"
    "dec_within s (Some (pb_dec_svarint field dest m s))"
    "dec_within s (Some (pb_dec_fixed32 field dest m s))"
    "dec_within s (Some (pb_dec_fixed64 field dest m s))"
  using pb_decode_varint_within [OF assms] pb_decode_svarint_within [OF assms]
    pb_decode_fixed_within [OF assms]
  by (auto simp: pb_dec_varint_def pb_dec_uvarint_def pb_dec_svarint_def pb_dec_fixed32_def
      pb_dec_fixed64_def Let_def split: prod.splits option.splits)

lemma fill_within:
  assumes "is_buffer s" "reads_within s s2"
  shows "dec_within s (Some (case pb_read s2 n of (None, s3) \<Rightarrow> (False, f s3, s3)
    | (Some bs, s3) \<Rightarrow> (True, g bs s3, s3)))"
proof (cases "pb_read s2 n")
  case (Pair r s3)
  have "is_buffer s2" using assms by (simp add: reads_within_buffer)
  then have "reads_within s s3" using pb_read_within [OF _ Pair] assms(2) reads_within_trans by blast
  then show ?thesis using Pair by (cases r) simp_all
qed

lemma pb_dec_bytes_within:
  assumes "is_buffer s"
  shows "dec_within s (pb_dec_bytes E field dest m s)"
proof -
  obtain q s1 where q: "pb_decode_varint32 s = (q, s1)" by (cases "pb_decode_varint32 s")
  have s1: "reads_within s s1" by (rule pb_decode_varint32_within [OF assms q])
  show ?thesis
  proof (cases q)
    case None
    then show ?thesis using q s1 by (simp add: pb_dec_bytes_def)
  next
    case (Some sz)
    show ?thesis
    proof (cases "allocate_field E dest (PB_BYTES_ARRAY_T_ALLOCSIZE (ucast sz)) 1 m s1")
      case None
      then show ?thesis
        using q Some s1 by (simp add: pb_dec_bytes_def Let_def fill_within [OF assms])
    next
      case alloc: (Some p)
      obtain ok m2 s2 where p: "p = (ok, m2, s2)" by (cases p)
      have "reads_within s s2"
        by (rule reads_within_trans [OF s1 dec_withinD [OF allocate_field_within alloc [unfolded p]]])
      then show ?thesis
        using s1 q Some alloc p
        by (cases ok) (simp_all add: pb_dec_bytes_def Let_def fill_within [OF assms])
    qed
  qed
qed

lemma pb_dec_string_within:
  assumes "is_buffer s"
  shows "dec_within s (pb_dec_string E field dest m s)"
proof -
  obtain q s1 where q: "pb_decode_varint32 s = (q, s1)" by (cases "pb_decode_varint32 s")
  have s1: "reads_within s s1" by (rule pb_decode_varint32_within [OF assms q])
  show ?thesis
  proof (cases q)
    case None
    then show ?thesis using q s1 by (simp add: pb_dec_string_def)
  next
    case (Some sz)
    show ?thesis
    proof (cases "allocate_field E dest (ucast (sz + 1)) 1 m s1")
      case None
      then show ?thesis
        using q Some s1 by (simp add: pb_dec_string_def Let_def fill_within [OF assms])
    next
      case alloc: (Some p)
      obtain ok m2 s2 where p: "p = (ok, m2, s2)" by (cases p)
      have "reads_within s s2"
        by (rule reads_within_trans [OF s1 dec_withinD [OF allocate_field_within alloc [unfolded p]]])
      then show ?thesis
        using s1 q Some alloc p
        by (cases ok) (simp_all add: pb_dec_string_def Let_def fill_within [OF assms])
    qed
  qed
qed

lemma pb_dec_fixed_length_bytes_within:
  assumes "is_buffer s"
  shows "dec_within s (Some (pb_dec_fixed_length_bytes field dest m s))"
proof -
  obtain q s1 where q: "pb_decode_varint32 s = (q, s1)" by (cases "pb_decode_varint32 s")
  have s1: "reads_within s s1" by (rule pb_decode_varint32_within [OF assms q])
  have read: "pb_read s1 n = (r, s3) \<Longrightarrow> reads_within s s3" for n r s3
    using s1 assms reads_within_trans pb_read_within reads_within_buffer by blast
  show ?thesis
    using q s1 read
    by (auto simp: pb_dec_fixed_length_bytes_def split: prod.splits option.splits)
qed

text \<open>
  The environment's code stays within the stream it is given, and so does the decoder of
  submessages.
\<close>

definition sub_within :: "'w msg_decoder \<Rightarrow> bool" where
  "sub_within sub = (\<forall>init fs dest m s. is_buffer s \<longrightarrow> dec_within s (sub init fs dest m s))"

definition env_within :: "'w dec_env \<Rightarrow> bool" where
  "env_within E =
     ((\<forall>fn field arg m s. is_buffer s \<longrightarrow> dec_within s (Some (de_callback E fn field arg m s))) \<and>
      (\<forall>fn ext t wt m s. is_buffer s \<longrightarrow> dec_within s (Some (de_ext_decode E fn ext t wt m s))))"

lemma pb_dec_submessage_within:
  assumes "is_buffer s" "sub_within sub"
  shows "dec_within s (pb_dec_submessage E sub field dest m s)"
proof (cases "pb_make_string_substream s")
  case (Pair q par)
  show ?thesis
  proof (cases q)
    case None
    then show ?thesis
      using pb_make_string_substream_within(1) [OF assms(1) Pair] Pair
      by (simp add: pb_dec_submessage_def)
  next
    case (Some ss)
    note made = pb_make_string_substream_within [OF assms(1) Pair]
    have "dec_within ss (sub init fs dest m ss)" for init fs
      using assms(2) made(2) [OF Some] by (auto simp: sub_within_def)
    then have "sub init fs dest m ss = Some (st, m1, ss1) \<Longrightarrow> pb_close_string_substream par ss1 = (ok, s2) \<Longrightarrow>
        reads_within s s2" for init fs st m1 ss1 ok s2
      using pb_close_string_substream_within [OF assms(1) Pair [unfolded Some]]
      by (blast dest: dec_withinD)
    then show ?thesis
      using made(1) Pair Some
      by (auto simp: pb_dec_submessage_def split: option.splits prod.splits)
  qed
qed

lemma PB_DECODERS_within:
  assumes "is_buffer s" "sub_within sub"
  shows "dec_within s (PB_DECODERS E sub field dest m s)"
  using pb_dec_scalar_within [OF assms(1)] pb_dec_bytes_within [OF assms(1)]
    pb_dec_string_within [OF assms(1)] pb_dec_submessage_within [OF assms]
    pb_dec_fixed_length_bytes_within [OF assms(1)]
  by (simp add: PB_DECODERS_def Let_def del: dec_within_Some)


subsection \<open>Fields\<close>

lemma static_packed_loop_within:
  assumes func: "\<And>field p m s. is_buffer s \<Longrightarrow> dec_within s (func field p m s)"
  shows "is_buffer s \<Longrightarrow> dec_within s (static_packed_loop k func field pd ps m s)"
proof (induction k arbitrary: m s)
  case (Suc k)
  let ?r = "func field (pd + ucast (data_size field * load_u32 m ps)) m s"
  have f: "dec_within s ?r" by (rule func [OF Suc.prems])
  show ?case
  proof (cases "?r")
    case None
    then show ?thesis by simp
  next
    case (Some p)
    obtain ok m1 s1 where p: "p = (ok, m1, s1)" by (cases p)
    then have s1: "reads_within s s1" using f Some by simp
    then have "is_buffer s1" using Suc.prems by (simp add: reads_within_buffer)
    from dec_within_trans [OF s1 Suc.IH [OF this]] s1 Some p show ?thesis
      by (cases ok) simp_all
  qed
qed simp

text \<open>A loop over a substream that is then closed, or left with an error on the parent.\<close>

lemma substream_cycle_within:
  assumes "is_buffer s" "pb_make_string_substream s = (Some ss, par)" "reads_within ss ss1"
  shows "pb_close_string_substream par ss1 = (ok, s2) \<Longrightarrow> reads_within s s2"
    and "pb_close_string_substream (par\<lparr>is_errmsg := em\<rparr>) ss1 = (ok, s2) \<Longrightarrow> reads_within s s2"
    and "reads_within s par" and "reads_within s (with_world_of par ss1)" and "is_buffer ss"
proof -
  note made = pb_make_string_substream_within [OF assms(1,2)]
  show "reads_within s par" "is_buffer ss" using made by auto
  then show "reads_within s (with_world_of par ss1)" by (simp add: with_world_of_def)
  show "pb_close_string_substream par ss1 = (ok, s2) \<Longrightarrow> reads_within s s2"
    using pb_close_string_substream_within [OF assms(1,2,3)] by blast
  show "pb_close_string_substream (par\<lparr>is_errmsg := em\<rparr>) ss1 = (ok, s2) \<Longrightarrow> reads_within s s2"
    using pb_close_string_substream_within [OF assms(1,2,3), of "par\<lparr>is_errmsg := em\<rparr>"] by simp
qed

lemma decode_static_field_within:
  assumes "is_buffer s" "sub_within sub"
  shows "dec_within s (decode_static_field n E sub wt it m s)"
proof -
  let ?func = "PB_DECODERS E sub"
  have func: "\<And>field p m s. is_buffer s \<Longrightarrow> dec_within s (?func field p m s)"
    using assms(2) by (simp add: PB_DECODERS_within)
  have packed: "dec_within s (case pb_make_string_substream s of
       (None, s1) \<Rightarrow> Some (False, m, s1)
     | (Some substream, s1) \<Rightarrow>
         (case static_packed_loop (Suc (unat (bytes_left substream))) ?func (cur_field it)
                 (pData it) (pSize it) m substream of
            None \<Rightarrow> None
          | Some (status, m1, substream1) \<Rightarrow>
              if bytes_left substream1 \<noteq> 0
              then Some (False, m1,
                     is_set_error (with_world_of s1 substream1) ''array overflow'')
              else (case pb_close_string_substream s1 substream1 of
                  (ok, s2) \<Rightarrow> Some (ok \<and> status, m1, s2))))"
  proof (cases "pb_make_string_substream s")
    case (Pair q par)
    show ?thesis
    proof (cases q)
      case None
      then show ?thesis
        using pb_make_string_substream_within(1) [OF assms(1) Pair] Pair by simp
    next
      case (Some ss)
      note cycle = substream_cycle_within [OF assms(1) Pair [unfolded Some]]
      have "dec_within ss (static_packed_loop (Suc (unat (bytes_left ss))) ?func (cur_field it)
                 (pData it) (pSize it) m ss)"
        using cycle(5) by (intro static_packed_loop_within func) auto
      then show ?thesis
      proof (cases "static_packed_loop (Suc (unat (bytes_left ss))) ?func (cur_field it)
                 (pData it) (pSize it) m ss")
        case None
        then show ?thesis using Pair Some by (simp del: static_packed_loop.simps)
      next
        case res: (Some p)
        obtain st m1 ss1 where p: "p = (st, m1, ss1)" by (cases p)
        have ss1: "reads_within ss ss1"
          using \<open>dec_within ss _\<close> res p by (simp del: static_packed_loop.simps)
        obtain ok s2 where "pb_close_string_substream par ss1 = (ok, s2)"
          by (cases "pb_close_string_substream par ss1")
        then show ?thesis
          using Pair Some res p cycle(1,4) [OF ss1] by (simp del: static_packed_loop.simps)
      qed
    qed
  qed
  show ?thesis
    unfolding decode_static_field_def Let_def
    using packed func [OF assms(1)] by (auto split: option.splits)
qed

lemma pointer_packed_loop_within:
  assumes "sub_within sub"
  shows "is_buffer s \<Longrightarrow>
    pointer_packed_loop k n E sub field pd ps al m par s = Some (st, m1, par1, s1) \<Longrightarrow>
    reads_within s s1 \<and> (\<exists>em. par1 = par\<lparr>is_errmsg := em\<rparr>)"
proof (induction k arbitrary: al m s)
  case (Suc k)
  have par: "\<exists>em. par = par\<lparr>is_errmsg := em\<rparr>" by (rule exI [of _ "is_errmsg par"]) simp
  show ?case
  proof (cases "bytes_left s = 0")
    case True
    then show ?thesis using Suc.prems(2) par by simp
  next
    case False
    define al1 where "al1 = (if ucast (load_u32 m ps) + 1 > al
      then al + ((bytes_left s - 1) div ucast (data_size field) + 1) else al)"
    define alloc where "alloc = (if ucast (load_u32 m ps) + 1 > al
      then allocate_field E pd (ucast (data_size field)) al1 m s else Some (True, m, s))"
    define rest where "rest = (\<lambda>m2 s2.
      (let item = load_ptr m2 pd + ucast (data_size field * load_u32 m2 ps) in
       case initialize_pointer_field n E field item m2 of
         None \<Rightarrow> None
       | Some m3 \<Rightarrow>
         (case PB_DECODERS E sub field item m3 s2 of
            None \<Rightarrow> None
          | Some (False, m4, s4) \<Rightarrow> Some (False, m4, par, s4)
          | Some (True, m4, s4) \<Rightarrow>
              if load_u32 m4 ps = PB_SIZE_MAX
              then Some (False, m4, par\<lparr>is_errmsg := Some ''too many array entries''\<rparr>, s4)
              else pointer_packed_loop k n E sub field pd ps al1
                     (store_u32 m4 ps (load_u32 m4 ps + 1)) par s4)))"
    have eq: "(case alloc of None \<Rightarrow> None
        | Some (False, m2, s2) \<Rightarrow> Some (False, m2, par, s2)
        | Some (True, m2, s2) \<Rightarrow> rest m2 s2) = Some (st, m1, par1, s1)"
    proof -
      define grow where "grow = (ucast (load_u32 m ps) + 1 > al)"
      have "pointer_packed_loop (Suc k) n E sub field pd ps al m par s =
        (if grow \<and> ucast (data_size field) = (0 :: u64) then None
         else case alloc of None \<Rightarrow> None
          | Some (False, m2, s2) \<Rightarrow> Some (False, m2, par, s2)
          | Some (True, m2, s2) \<Rightarrow> rest m2 s2)"
        unfolding pointer_packed_loop.simps Let_def if_not_P [OF False] grow_def [symmetric]
          alloc_def [folded grow_def] al1_def [folded grow_def] rest_def
        by (rule refl)
      from trans [OF this [symmetric] Suc.prems(2)] show ?thesis by (simp split: if_splits)
    qed
    then obtain ok m2 s2 where alloc: "alloc = Some (ok, m2, s2)" by (cases alloc) auto
    have s2: "reads_within s s2"
      using alloc allocate_field_within [of s E pd "ucast (data_size field)" al1 m]
      by (auto simp: alloc_def split: if_splits)
    show ?thesis
    proof (cases ok)
      case False
      then show ?thesis
        using eq alloc s2 par by simp
    next
      case True
      define item where "item = load_ptr m2 pd + ucast (data_size field * load_u32 m2 ps)"
      have eq: "(case initialize_pointer_field n E field item m2 of
           None \<Rightarrow> None
         | Some m3 \<Rightarrow>
           (case PB_DECODERS E sub field item m3 s2 of
              None \<Rightarrow> None
            | Some (False, m4, s4) \<Rightarrow> Some (False, m4, par, s4)
            | Some (True, m4, s4) \<Rightarrow>
                if load_u32 m4 ps = PB_SIZE_MAX
                then Some (False, m4, par\<lparr>is_errmsg := Some ''too many array entries''\<rparr>, s4)
                else pointer_packed_loop k n E sub field pd ps al1
                       (store_u32 m4 ps (load_u32 m4 ps + 1)) par s4)) = Some (st, m1, par1, s1)"
        using eq alloc True unfolding rest_def Let_def item_def by simp
      then obtain m3 where m3: "initialize_pointer_field n E field item m2 = Some m3"
        by (cases "initialize_pointer_field n E field item m2") simp_all
      then obtain ok4 m4 s4 where m4: "PB_DECODERS E sub field item m3 s2 = Some (ok4, m4, s4)"
        using eq by (cases "PB_DECODERS E sub field item m3 s2") auto
      have "is_buffer s2" using s2 Suc.prems(1) by (simp add: reads_within_buffer)
      from dec_withinD [OF PB_DECODERS_within [OF this assms] m4]
      have "reads_within s2 s4" .
      with s2 have s4: "reads_within s s4" by (rule reads_within_trans)
      then have "is_buffer s4" using Suc.prems(1) by (simp add: reads_within_buffer)
      then have "pointer_packed_loop k n E sub field pd ps al1
            (store_u32 m4 ps (load_u32 m4 ps + 1)) par s4 = Some (st, m1, par1, s1) \<Longrightarrow>
          reads_within s s1 \<and> (\<exists>em. par1 = par\<lparr>is_errmsg := em\<rparr>)"
        using Suc.IH [of s4] reads_within_trans [OF s4] by blast
      then show ?thesis using eq m3 m4 s4 par by (cases ok4) (auto split: if_splits)
    qed
  qed
qed simp


lemma release_in_stream_within:
  "release_in_stream n E it m s = Some (m1, s1) \<Longrightarrow> reads_within s s1"
  by (auto simp: release_in_stream_def split: option.splits)

lemma decode_single_pointer_within:
  assumes "is_buffer s" "sub_within sub"
  shows "dec_within s (decode_single_pointer n E sub it m s)"
proof -
  define field where "field = cur_field it"
  define rel where "rel = (if PB_LTYPE (ftype field) = PB_LTYPE_SUBMESSAGE \<and> load_ptr m (pData it) \<noteq> 0
    then release_in_stream n E it m s else Some (m, s))"
  show ?thesis
  proof (cases rel)
    case None
    then show ?thesis by (simp add: decode_single_pointer_def rel_def field_def Let_def)
  next
    case (Some p)
    obtain m1 s1 where p: "p = (m1, s1)" by (cases p)
    have s1: "reads_within s s1"
      using Some p release_in_stream_within by (auto simp: rel_def split: if_splits)
    define m2 where "m2 = (if PB_HTYPE (ftype field) = PB_HTYPE_ONEOF
      then store_u32 m1 (pSize it) (tag field) else m1)"
    have func: "reads_within s t \<Longrightarrow> dec_within s (PB_DECODERS E sub field q m' t)" for q m' t
      using PB_DECODERS_within [OF _ assms(2)] dec_within_trans assms(1)
      by (metis reads_within_buffer)
    have eq: "decode_single_pointer n E sub it m s =
      (if PB_LTYPE (ftype field) = PB_LTYPE_STRING \<or> PB_LTYPE (ftype field) = PB_LTYPE_BYTES
       then PB_DECODERS E sub field (pData it) m2 s1
       else (case allocate_field E (pData it) (ucast (data_size field)) 1 m2 s1 of
           Some (True, m3, s3) \<Rightarrow>
             (case initialize_pointer_field n E field (load_ptr m3 (pData it)) m3 of
                None \<Rightarrow> None
              | Some m4 \<Rightarrow> PB_DECODERS E sub field (load_ptr m4 (pData it)) m4 s3)
         | r \<Rightarrow> r))"
      unfolding decode_single_pointer_def Let_def field_def [symmetric] rel_def [symmetric] Some p
      by (simp add: m2_def)
    have alloc: "dec_within s (allocate_field E (pData it) (ucast (data_size field)) 1 m2 s1)"
      by (rule dec_within_trans [OF s1 allocate_field_within])
    show ?thesis
      unfolding eq using func alloc s1
      by (auto split: option.splits bool.splits dest: dec_withinD)
  qed
qed

lemma decode_repeated_pointer_within:
  assumes "is_buffer s" "sub_within sub"
  shows "dec_within s (decode_repeated_pointer n E sub wt it m s)"
proof (cases "wt = PB_WT_STRING \<and> PB_LTYPE (ftype (cur_field it)) \<le> PB_LTYPE_LAST_PACKABLE")
  case False
  have func: "reads_within s t \<Longrightarrow> dec_within s (PB_DECODERS E sub field q m' t)" for field q m' t
    using PB_DECODERS_within [OF _ assms(2)] dec_within_trans assms(1)
    by (metis reads_within_buffer)
  have alloc: "allocate_field E a b c m1 s = Some (ok, m2, s2) \<Longrightarrow> reads_within s s2"
    for a b c m1 ok m2 s2
    by (rule dec_withinD [OF allocate_field_within])
  show ?thesis
    unfolding decode_repeated_pointer_def Let_def if_not_P [OF False]
    by (auto split: option.splits bool.splits dest: alloc intro: func)
next
  case True
  show ?thesis
  proof (cases "pb_make_string_substream s")
    case (Pair q par)
    show ?thesis
    proof (cases q)
      case None
      then show ?thesis
        using pb_make_string_substream_within(1) [OF assms(1) Pair] Pair True
        by (simp add: decode_repeated_pointer_def Let_def)
    next
      case (Some ss)
      note cycle = substream_cycle_within [OF assms(1) Pair [unfolded Some]]
      let ?loop = "pointer_packed_loop (Suc (unat (bytes_left ss))) n E sub (cur_field it) (pData it)
        (pSize it) (ucast (load_u32 m (pSize it))) m par ss"
      show ?thesis
      proof (cases ?loop)
        case None
        then show ?thesis
          using Pair Some True
          by (simp add: decode_repeated_pointer_def Let_def del: pointer_packed_loop.simps)
      next
        case loop: (Some p)
        obtain st m1 par1 ss1 where p: "p = (st, m1, par1, ss1)" by (cases p)
        have "is_buffer ss" using cycle(5) by auto
        from pointer_packed_loop_within [OF assms(2) this loop [unfolded p]]
        obtain em where ss1: "reads_within ss ss1" "par1 = par\<lparr>is_errmsg := em\<rparr>" by auto
        obtain ok s2 where close: "pb_close_string_substream par1 ss1 = (ok, s2)"
          by (cases "pb_close_string_substream par1 ss1")
        then have "reads_within s s2" using cycle(2) [OF ss1(1)] ss1(2) by simp
        then show ?thesis
          using Pair Some True loop p close
          by (simp add: decode_repeated_pointer_def Let_def del: pointer_packed_loop.simps)
      qed
    qed
  qed
qed

lemma decode_pointer_field_within:
  assumes "is_buffer s" "sub_within sub"
  shows "dec_within s (decode_pointer_field n E sub wt it m s)"
  by (simp add: decode_pointer_field_def Let_def decode_single_pointer_within [OF assms]
      decode_repeated_pointer_within [OF assms])

lemma callback_loop_within:
  assumes cb: "\<And>m s. is_buffer s \<Longrightarrow> dec_within s (Some (cb m s))"
  shows "is_buffer s \<Longrightarrow> dec_within s (callback_loop k cb m s)"
proof (induction k arbitrary: m s)
  case (Suc k)
  obtain ok m1 s1 where r: "cb m s = (ok, m1, s1)" by (cases "cb m s")
  then have s1: "reads_within s s1" using cb [OF Suc.prems, of m] by simp
  then have "is_buffer s1" using Suc.prems by (simp add: reads_within_buffer)
  from dec_within_trans [OF s1 Suc.IH [OF this]] s1 r show ?case by (cases ok) simp_all
qed simp

lemma decode_callback_field_within:
  assumes "is_buffer s" "env_within E"
  shows "dec_within s (decode_callback_field n E wt it m s)"
proof -
  define cb where "cb = de_callback E (load_ptr m (pData it)) (cur_field it) (pData it + 8)"
  have cb: "is_buffer t \<Longrightarrow> dec_within t (Some (cb m' t))" for m' t
    using assms(2) by (simp add: env_within_def cb_def del: dec_within_Some)
  have skip: "dec_within s (case pb_skip_field s wt of (ok, s1) \<Rightarrow> Some (ok, m, s1))"
    using pb_skip_field_within [OF assms(1)] by (cases "pb_skip_field s wt") simp
  have scalar: "dec_within s (case read_raw_value s wt 10 of
          (None, s1) \<Rightarrow> Some (False, m, s1)
        | (Some bs, s1) \<Rightarrow>
            (case cb m (raw_substream bs (is_world s1)) of
               (status, m1, substream1) \<Rightarrow> Some (status, m1, with_world_of s1 substream1)))"
  proof (cases "read_raw_value s wt 10")
    case (Pair r s1)
    have "reads_within s s1" by (rule read_raw_value_within [OF assms(1) Pair])
    then show ?thesis
      using Pair by (auto simp: with_world_of_def split: option.splits prod.splits)
  qed
  have str: "dec_within s (case pb_make_string_substream s of
         (None, s1) \<Rightarrow> Some (False, m, s1)
       | (Some substream, s1) \<Rightarrow>
           (case callback_loop (Suc (unat (bytes_left substream) + n)) cb m substream of
              None \<Rightarrow> None
            | Some (False, m1, substream1) \<Rightarrow>
                Some (False, m1, is_set_error (with_world_of s1 substream1) ''callback failed'')
            | Some (True, m1, substream1) \<Rightarrow>
                (case pb_close_string_substream s1 substream1 of (ok, s2) \<Rightarrow> Some (ok, m1, s2))))"
  proof (cases "pb_make_string_substream s")
    case (Pair q par)
    show ?thesis
    proof (cases q)
      case None
      then show ?thesis
        using pb_make_string_substream_within(1) [OF assms(1) Pair] Pair by simp
    next
      case (Some ss)
      note cycle = substream_cycle_within [OF assms(1) Pair [unfolded Some]]
      let ?loop = "callback_loop (Suc (unat (bytes_left ss) + n)) cb m ss"
      have within: "dec_within ss ?loop" using cycle(5) by (intro callback_loop_within cb) auto
      show ?thesis
      proof (cases ?loop)
        case None
        then show ?thesis using Pair Some by (simp del: callback_loop.simps)
      next
        case loop: (Some p)
        obtain st m1 ss1 where p: "p = (st, m1, ss1)" by (cases p)
        have ss1: "reads_within ss ss1"
          using within loop p by (simp del: callback_loop.simps)
        obtain ok s2 where "pb_close_string_substream par ss1 = (ok, s2)"
          by (cases "pb_close_string_substream par ss1")
        then show ?thesis
          using Pair Some loop p cycle(1,4) [OF ss1]
          by (cases st) (simp_all del: callback_loop.simps)
      qed
    qed
  qed
  show ?thesis
    unfolding decode_callback_field_def Let_def cb_def [symmetric]
    using str skip scalar by simp
qed


lemma pb_release_union_field_within:
  "pb_release_union_field n E it m s = Some (ok, it1, m1, s1) \<Longrightarrow> reads_within s s1"
  by (auto simp: pb_release_union_field_def Let_def dest: release_in_stream_within
      split: if_splits option.splits prod.splits bool.splits)

lemma decode_field_within:
  assumes "is_buffer s" "sub_within sub" "env_within E"
    and "decode_field n E sub wt it m s = Some (ok, it', m', s')"
  shows "reads_within s s'"
proof -
  define rel where "rel = (if PB_HTYPE (ftype (cur_field it)) = PB_HTYPE_ONEOF
            then pb_release_union_field n E it m s else Some (True, it, m, s))"
  obtain ok1 it1 m1 s1 where rel: "rel = Some (ok1, it1, m1, s1)"
    using assms(4) by (cases rel) (auto simp: decode_field_def rel_def [symmetric])
  have s1: "reads_within s s1"
    using rel pb_release_union_field_within by (auto simp: rel_def split: if_splits)
  have buf: "is_buffer s1" using s1 assms(1) by (simp add: reads_within_buffer)
  show ?thesis
  proof (cases ok1)
    case False
    then show ?thesis
      using assms(4) s1 unfolding decode_field_def rel_def [symmetric] rel by simp
  next
    case True
    define r where "r = (let at = PB_ATYPE (ftype (cur_field it1)) in
         if at = PB_ATYPE_STATIC then decode_static_field n E sub wt it1 m1 s1
         else if at = PB_ATYPE_POINTER then decode_pointer_field n E sub wt it1 m1 s1
         else if at = PB_ATYPE_CALLBACK then decode_callback_field n E wt it1 m1 s1
         else Some (False, m1, is_set_error s1 ''invalid field type''))"
    have "dec_within s1 r"
      using decode_static_field_within [OF buf assms(2)] decode_pointer_field_within [OF buf assms(2)]
        decode_callback_field_within [OF buf assms(3)]
      by (simp add: r_def Let_def)
    moreover have "map_option (\<lambda>(ok, m2, s2). (ok, it1, m2, s2)) r = Some (ok, it', m', s')"
      using assms(4)
      by (simp only: decode_field_def rel_def [symmetric] rel r_def Let_def option.case prod.case
          bool.case eqTrueI [OF True])
    ultimately have "reads_within s1 s'" by (auto dest: dec_withinD)
    with s1 show ?thesis by (rule reads_within_trans)
  qed
qed

lemma default_extension_decoder_within:
  assumes "is_buffer s" "sub_within sub" "env_within E"
  shows "dec_within s (default_extension_decoder n E sub ext t wt m s)"
  by (auto simp: default_extension_decoder_def Let_def intro!: dec_withinI
      dest: decode_field_within [OF assms] split: if_splits)

lemma decode_extension_list_within:
  assumes "sub_within sub" "env_within E"
  shows "is_buffer s \<Longrightarrow> dec_within s (decode_extension_list k n E sub ext pos t wt m s)"
proof (induction k arbitrary: ext m s pos)
  case (Suc k)
  define fn where "fn = load_ptr m (load_ptr m ext)"
  define r where "r = (if fn \<noteq> 0 then Some (de_ext_decode E fn ext t wt m s)
               else default_extension_decoder n E sub ext t wt m s)"
  have r: "dec_within s r"
    using assms(2) Suc.prems default_extension_decoder_within [OF Suc.prems assms]
    by (simp add: r_def env_within_def del: dec_within_Some)
  have eq: "decode_extension_list (Suc k) n E sub ext pos t wt m s =
     (if ext = 0 \<or> pos \<noteq> bytes_left s then Some (True, m, s)
      else (case r of
           Some (True, m1, s1) \<Rightarrow>
             decode_extension_list k n E sub (load_ptr m1 (ext + 16)) pos t wt m1 s1
         | r \<Rightarrow> r))"
    unfolding decode_extension_list.simps Let_def fn_def [symmetric] r_def [symmetric] by (rule refl)
  show ?case
  proof (cases r)
    case None
    then show ?thesis unfolding eq by simp
  next
    case (Some p)
    obtain ok m1 s1 where p: "p = (ok, m1, s1)" by (cases p)
    have s1: "reads_within s s1" using r Some p by simp
    then have "is_buffer s1" using Suc.prems by (simp add: reads_within_buffer)
    from dec_within_trans [OF s1 Suc.IH [OF this]] s1 show ?thesis
      unfolding eq Some p by (cases ok) simp_all
  qed
qed simp

lemma decode_unknown_within:
  assumes "is_buffer s" "sub_within sub" "env_within E"
    and "decode_unknown n E sub t wt fr m s = Some (ok, fr', m', s')"
  shows "reads_within s s'"
proof -
  have ext: "dec_within s (decode_extension n E sub t wt it m s)" for it
    unfolding decode_extension_def by (rule decode_extension_list_within [OF assms(2,3,1)])
  have skip: "reads_within s s1 \<Longrightarrow> pb_skip_field s1 wt = (ok1, s2) \<Longrightarrow> reads_within s s2" for s1 ok1 s2
    using pb_skip_field_within reads_within_trans assms(1) reads_within_buffer by metis
  show ?thesis
    using assms(4) ext
    by (auto simp: decode_unknown_def Let_def split: if_splits option.splits prod.splits bool.splits
        dest: skip [OF reads_within_refl] skip dec_withinD)
qed

lemma decode_known_within:
  assumes "is_buffer s" "sub_within sub" "env_within E"
    and "decode_known n E sub loc wt fr m s = Some (ok, fr', m', s')"
  shows "reads_within s s'"
  using assms(4)
  by (auto simp: decode_known_def split: option.splits dest: decode_field_within [OF assms(1-3)])


lemma decode_loop_within:
  assumes "sub_within sub" "env_within E"
  shows "is_buffer s \<Longrightarrow> decode_loop k n E sub loc fr m s = Some (ok, fr', m', s') \<Longrightarrow>
    reads_within s s'"
proof (induction k arbitrary: fr m s)
  case (Suc k)
  show ?case
  proof (cases "bytes_left s = 0")
    case True
    then show ?thesis using Suc.prems(2) by simp
  next
    case left: False
    obtain p eof s1 where tag: "pb_decode_tag s = (p, eof, s1)" by (cases "pb_decode_tag s")
    have s1: "reads_within s s1" by (rule pb_decode_tag_within [OF Suc.prems(1) tag])
    show ?thesis
    proof (cases p)
      case None
      then show ?thesis using Suc.prems(2) left tag s1 by simp
    next
      case (Some q)
      obtain wt t where q: "q = (wt, t)" by (cases q)
      have buf1: "is_buffer s1" using s1 Suc.prems(1) by (simp add: reads_within_buffer)
      obtain found it where find: "pb_field_iter_find (dec_iter fr) t = Some (found, it)"
        using Suc.prems(2) left tag Some q
        by (cases "pb_field_iter_find (dec_iter fr) t") auto
      define r where "r = (if found then decode_known n E sub loc wt (fr\<lparr>dec_iter := it\<rparr>) m s1
        else decode_unknown n E sub t wt (fr\<lparr>dec_iter := it\<rparr>) m s1)"
      have eq: "(case r of Some (True, fr2, m2, s2) \<Rightarrow> decode_loop k n E sub loc fr2 m2 s2
          | r \<Rightarrow> r) = Some (ok, fr', m', s')"
        using Suc.prems(2) left tag Some q find by (simp add: Let_def r_def)
      then obtain ok2 fr2 m2 s2 where r: "r = Some (ok2, fr2, m2, s2)" by (cases r) auto
      have "reads_within s1 s2"
        using r decode_known_within [OF buf1 assms] decode_unknown_within [OF buf1 assms]
        by (auto simp: r_def split: if_splits)
      with s1 have s2: "reads_within s s2" by (rule reads_within_trans)
      show ?thesis
      proof (cases ok2)
        case True
        then have "decode_loop k n E sub loc fr2 m2 s2 = Some (ok, fr', m', s')" using eq r by simp
        then have "reads_within s2 s'"
          using Suc.IH s2 Suc.prems(1) by (simp add: reads_within_buffer)
        with s2 show ?thesis by (rule reads_within_trans)
      next
        case False
        then show ?thesis using eq r s2 by simp
      qed
    qed
  qed
qed simp

lemma check_complete_within: "dec_within s (check_complete fs loc fr m s)"
  by (auto simp: check_complete_def split: option.splits)

lemma decode_noinit_within:
  assumes "is_buffer s" "sub_within sub" "env_within E"
  shows "dec_within s (decode_noinit n E sub fs dest m s)"
proof -
  let ?loop = "decode_loop (Suc (unat (bytes_left s))) n E sub (de_local E n)
    (start_frame fs dest) (store_u32 m (de_local E n) 0) s"
  show ?thesis
  proof (cases ?loop)
    case None
    then show ?thesis by (simp add: decode_noinit_def Let_def del: decode_loop.simps)
  next
    case (Some p)
    obtain ok1 fr1 m1 s1 where p: "p = (ok1, fr1, m1, s1)" by (cases p)
    from decode_loop_within [OF assms(2,3,1) Some [unfolded p]]
    have "reads_within s s1" .
    then show ?thesis
      using Some p dec_within_trans [OF _ check_complete_within]
      by (cases ok1) (simp_all add: decode_noinit_def Let_def del: decode_loop.simps)
  qed
qed

lemma decode_message_within:
  assumes "is_buffer s" "sub_within sub" "env_within E"
  shows "dec_within s (decode_message n E sub init fs dest m s)"
proof -
  have noinit: "decode_noinit n E sub fs dest m1 s = Some (ok, m2, s2) \<Longrightarrow> reads_within s s2"
    for m1 ok m2 s2
    by (rule dec_withinD [OF decode_noinit_within [OF assms]])
  show ?thesis
    by (auto simp: decode_message_def intro!: dec_withinI dest: noinit
        split: if_splits option.splits prod.splits bool.splits)
qed

lemma decode_at_depth_within: "env_within E \<Longrightarrow> sub_within (decode_at_depth n E)"
proof (induction n)
  case (Suc n)
  then show ?case
    using decode_message_within unfolding sub_within_def decode_at_depth.simps by blast
qed (simp add: sub_within_def)

end
