(* ===== verification/Pb_Decode_Total.thy ===== *)
theory Pb_Decode_Total
  imports Pb_Decode_Within
begin

text \<open>
  Termination of the decoder: for descriptors without pointer fields, extension ranges and
  circular submessages, \<^verbatim>\<open>pb_decode\<close> returns from every input.
\<close>

unbundle bit_operations_syntax

subsection \<open>The iterator of the decoder\<close>

text \<open>
  While a fixed-count array is being decoded the iterator's \<open>pSize\<close> points to the local
  counter instead; moving on forgets that.
\<close>

definition good_iter :: "pb_field_t list \<Rightarrow> addr \<Rightarrow> pb_field_iter_t \<Rightarrow> bool" where
  "good_iter fs dest it =
     (\<exists>k<n_fields fs. it = iter_at fs dest k \<or>
        PB_HTYPE (ftype (fs ! k)) = PB_HTYPE_REPEATED \<and> (\<exists>x. it = (iter_at fs dest k)\<lparr>pSize := x\<rparr>))"

lemma good_iter_iter_at: "k < n_fields fs \<Longrightarrow> good_iter fs dest (iter_at fs dest k)"
  by (auto simp: good_iter_def)

lemma good_iterE:
  assumes "good_iter fs dest it" "wf_fields fs"
  obtains k where "k < n_fields fs" "it_pos it = k" "it_start it = fs" "cur_field it = fs ! k"
    "pData it = pData (iter_at fs dest k)"
    "required_field_index it = required_field_index (iter_at fs dest k)"
    "it = iter_at fs dest k \<or> PB_HTYPE (ftype (fs ! k)) = PB_HTYPE_REPEATED"
    "pb_field_iter_next it = pb_field_iter_next (iter_at fs dest k)"
proof -
  from assms(1) obtain k where k: "k < n_fields fs" and it: "it = iter_at fs dest k \<or>
      PB_HTYPE (ftype (fs ! k)) = PB_HTYPE_REPEATED \<and> (\<exists>x. it = (iter_at fs dest k)\<lparr>pSize := x\<rparr>)"
    by (auto simp: good_iter_def)
  note frame = iter_at_frame [OF assms(2) k, of dest]
  have cur: "cur_field (iter_at fs dest k) = fs ! k" using assms(2) k by simp
  show thesis
  proof (cases "it = iter_at fs dest k")
    case True
    then show ?thesis using that [OF k] frame cur by simp
  next
    case False
    then obtain x where rep: "PB_HTYPE (ftype (fs ! k)) = PB_HTYPE_REPEATED"
      and x: "it = (iter_at fs dest k)\<lparr>pSize := x\<rparr>" using it by auto
    have cur': "cur_field it = fs ! k" using frame by (simp add: x cur_field_def)
    have "pb_field_iter_next it = pb_field_iter_next (iter_at fs dest k)"
      using frame rep wf_fields_tag [OF assms(2) k]
      by (simp add: pb_field_iter_next_def cur cur' Let_def) (simp add: x cur_field_def)
    then show ?thesis using that [OF k] frame cur' x rep by simp
  qed
qed

lemma iter_search_good:
  assumes wf: "wf_fields fs" and good: "good_iter fs dest it"
  obtains found it' where "iter_search (length fs) wanted (it_pos it) it = Some (found, it')"
    "good_iter fs dest it'" "found \<Longrightarrow> wanted (cur_field it')"
    "\<not> found \<Longrightarrow> \<forall>j<n_fields fs. \<not> wanted (fs ! j)"
    "it' = it \<or> (\<exists>j<n_fields fs. it' = iter_at fs dest j)"
proof -
  obtain k where k: "k < n_fields fs" "it_pos it = k" "it_start it = fs" "cur_field it = fs ! k"
    "pb_field_iter_next it = pb_field_iter_next (iter_at fs dest k)"
    using good wf by (rule good_iterE)
  show thesis
  proof (cases "wanted (fs ! k)")
    case True
    then have "iter_search (length fs) wanted k it = Some (True, it)"
      using k by (simp add: wf_fields_length [OF wf])
    then show thesis using that good True k by simp
  next
    case False
    then have "iter_search (length fs) wanted k it =
        iter_search (length fs) wanted k (iter_at fs dest k)"
      using k wf by (simp add: wf_fields_length [OF wf])
    moreover obtain found it' where
      res: "iter_search (length fs) wanted k (iter_at fs dest k) = Some (found, it')"
      using iter_search_iter_at [OF wf k(1), of wanted dest]
      by (cases "find (\<lambda>j. wanted (fs ! j)) (cycle_from k (n_fields fs))") auto
    ultimately have eq: "iter_search (length fs) wanted (it_pos it) it = Some (found, it')"
      using k(2) by simp
    show thesis
    proof (cases found)
      case True
      with res obtain j where j: "j < n_fields fs" "it' = iter_at fs dest j" "wanted (fs ! j)"
        by (auto elim: iter_search_found [OF wf k(1)])
      then show thesis using that [OF eq] True wf by (simp add: good_iter_iter_at) blast
    next
      case False
      then have "it' = iter_at fs dest k" "\<forall>j<n_fields fs. \<not> wanted (fs ! j)"
        using iter_search_not_found [OF wf k(1)] res by auto
      then show thesis using that [OF eq] False k(1) by (simp add: good_iter_iter_at) blast
    qed
  qed
qed


subsection \<open>Schemas for the decoder\<close>

text \<open>
  Static and callback fields only, of the types the code has decoders for, and a rank that
  submessages decrease. Pointer fields are excluded because the allocator decides about
  them, extension ranges because the length of their lists is up to memory.
\<close>

definition decodable_field :: "pb_field_t \<Rightarrow> bool" where
  "decodable_field f =
     (PB_LTYPE (ftype f) \<in> set [PB_LTYPE_VARINT, PB_LTYPE_UVARINT, PB_LTYPE_SVARINT,
        PB_LTYPE_FIXED32, PB_LTYPE_FIXED64, PB_LTYPE_BYTES, PB_LTYPE_STRING,
        PB_LTYPE_SUBMESSAGE, PB_LTYPE_FIXED_LENGTH_BYTES] \<and>
      PB_ATYPE (ftype f) \<in> set [PB_ATYPE_STATIC, PB_ATYPE_CALLBACK])"

definition decode_schema ::
  "(addr \<Rightarrow> pb_field_t list) \<Rightarrow> (addr \<Rightarrow> nat) \<Rightarrow> addr list \<Rightarrow> bool" where
  "decode_schema flds rank A =
     list_all (\<lambda>a. wf_fields (flds a) \<and> last (flds a) = PB_LAST_FIELD \<and>
       list_all (\<lambda>f. decodable_field f \<and>
         (PB_LTYPE (ftype f) = PB_LTYPE_SUBMESSAGE \<longrightarrow>
            fptr f \<in> set A \<and> rank (fptr f) < rank a)) (butlast (flds a))) A"

lemma decode_schemaD:
  assumes "decode_schema flds rank A" "a \<in> set A"
  shows "wf_fields (flds a)" and "flds a ! n_fields (flds a) = PB_LAST_FIELD"
    and "\<And>k. k < n_fields (flds a) \<Longrightarrow> decodable_field (flds a ! k)"
    and "\<And>k. k < n_fields (flds a) \<Longrightarrow> PB_LTYPE (ftype (flds a ! k)) = PB_LTYPE_SUBMESSAGE \<Longrightarrow>
      fptr (flds a ! k) \<in> set A \<and> rank (fptr (flds a ! k)) < rank a"
proof -
  have a: "wf_fields (flds a)" "last (flds a) = PB_LAST_FIELD"
      "\<And>f. f \<in> set (butlast (flds a)) \<Longrightarrow> decodable_field f \<and>
      (PB_LTYPE (ftype f) = PB_LTYPE_SUBMESSAGE \<longrightarrow> fptr f \<in> set A \<and> rank (fptr f) < rank a)"
    using assms by (auto simp: decode_schema_def list_all_iff)
  have nth: "flds a ! k \<in> set (butlast (flds a))" if "k < n_fields (flds a)" for k
    using that nth_mem [of k "butlast (flds a)"] by (simp add: n_fields_def nth_butlast)
  show "wf_fields (flds a)" by (rule a)
  then show "flds a ! n_fields (flds a) = PB_LAST_FIELD"
    using a(2) by (simp add: wf_fields_def n_fields_def last_conv_nth)
  show "decodable_field (flds a ! k)" if "k < n_fields (flds a)" for k
    using a(3) [OF nth [OF that]] by simp
  show "fptr (flds a ! k) \<in> set A \<and> rank (fptr (flds a ! k)) < rank a"
    if "k < n_fields (flds a)" "PB_LTYPE (ftype (flds a ! k)) = PB_LTYPE_SUBMESSAGE" for k
    using a(3) [OF nth [OF that(1)]] that(2) by simp
qed

subsection \<open>Defaults and release\<close>

lemma for_each_field_returns:
  assumes f: "\<And>k x. k < n_fields fs \<Longrightarrow> f (iter_at fs dest k) x \<noteq> None" and wf: "wf_fields fs"
    and k: "k < n_fields fs" "n_fields fs - k \<le> fuel"
  shows "for_each_field fuel f (iter_at fs dest k) x \<noteq> None"
  using k
proof (induction fuel arbitrary: k x)
  case (Suc fuel)
  obtain y where y: "f (iter_at fs dest k) x = Some y" using f [OF Suc.prems(1), of x] by blast
  show ?case
  proof (cases "Suc k < n_fields fs")
    case True
    then show ?thesis
      using Suc.IH [of "Suc k" y] Suc.prems y iter_next_iter_at [OF wf Suc.prems(1), of dest]
      by (simp del: iter_at.simps not_None_eq)
  next
    case False
    then show ?thesis
      using Suc.prems y iter_next_iter_at [OF wf Suc.prems(1), of dest] by simp
  qed
qed simp

lemma message_walk_returns:
  assumes "\<And>k x. k < n_fields fs \<Longrightarrow> f (iter_at fs dest k) x \<noteq> None" and wf: "wf_fields fs"
  shows "message_walk f fs dest x \<noteq> None"
proof (cases "0 < n_fields fs")
  case True
  have "for_each_field (length fs) f (iter_at fs dest 0) x \<noteq> None"
    by (rule for_each_field_returns [where f = f and dest = dest, OF assms(1) wf True])
      (simp_all add: wf_fields_length [OF wf])
  then show ?thesis
    using True by (simp only: message_walk_def iter_begin_wf [OF wf] prod.case bool.case simp_thms)
next
  case False
  then show ?thesis
    by (simp only: message_walk_def iter_begin_wf [OF wf] prod.case bool.case simp_thms option.distinct)
qed

lemma pb_field_set_to_default_returns:
  assumes schema: "decode_schema (de_fields E) rank A"
  shows "a \<in> set A \<Longrightarrow> rank a < n \<Longrightarrow> k < n_fields (de_fields E a) \<Longrightarrow>
    pb_field_set_to_default n E (iter_at (de_fields E a) dest k) m \<noteq> None"
proof (induction n arbitrary: a dest k m)
  case 0
  then show ?case by simp
next
  case (Suc n)
  define fs where "fs = de_fields E a"
  note D = decode_schemaD [OF schema Suc.prems(1), folded fs_def]
  have k: "k < n_fields fs" using Suc.prems(3) by (simp add: fs_def)
  have cur: "cur_field (iter_at fs dest k) = fs ! k" using k D(1) by simp
  have msg: "message_walk (pb_field_set_to_default n E) (de_fields E (fptr (fs ! k))) p m1 \<noteq> None"
    if "PB_LTYPE (ftype (fs ! k)) = PB_LTYPE_SUBMESSAGE" for p m1
  proof -
    have f: "fptr (fs ! k) \<in> set A" "rank (fptr (fs ! k)) < n"
      using D(4) [OF k that] Suc.prems(2) by auto
    show ?thesis
      by (rule message_walk_returns)
        (use Suc.IH [OF f] decode_schemaD(1) [OF schema f(1)] in auto)
  qed
  have "set_static_to_default E (message_walk (pb_field_set_to_default n E)) (iter_at fs dest k) m \<noteq> None"
    using msg by (auto simp: set_static_to_default_def Let_def cur simp del: not_None_eq)
  then show ?case
    using D(3) [OF k]
    by (auto simp: fs_def [symmetric] Let_def cur decodable_field_def pb_const
        simp del: not_None_eq set_extensions_to_default.simps)
qed

lemma pb_message_set_to_defaults_returns:
  assumes schema: "decode_schema (de_fields E) rank A" and "a \<in> set A" "rank a < n"
  shows "pb_message_set_to_defaults n E (de_fields E a) dest m \<noteq> None"
  unfolding pb_message_set_to_defaults_def
  by (rule message_walk_returns)
    (use pb_field_set_to_default_returns [OF assms] decode_schemaD(1) [OF assms(1,2)] in auto)

lemma release_items_returns:
  "(\<And>p x. rel p x \<noteq> None) \<Longrightarrow> release_items k rel p step x \<noteq> None"
  by (induction k arbitrary: p x) (auto simp del: not_None_eq split: option.splits)

text \<open>Releasing at any iterator whose current field is a decodable one.\<close>

lemma pb_release_single_field_returns:
  assumes schema: "decode_schema (de_fields E) rank A"
  shows "decodable_field (cur_field it) \<Longrightarrow>
    (PB_LTYPE (ftype (cur_field it)) = PB_LTYPE_SUBMESSAGE \<Longrightarrow>
      fptr (cur_field it) \<in> set A \<and> rank (fptr (cur_field it)) < n) \<Longrightarrow>
    pb_release_single_field (Suc n) E it st \<noteq> None"
proof (induction n arbitrary: it st)
  case 0
  then show ?case
    by (auto simp: release_contents_def Let_def decodable_field_def pb_const)
next
  case (Suc n)
  have msg: "message_walk (pb_release_single_field (Suc n) E) (de_fields E (fptr (cur_field it))) p x \<noteq> None"
    if "PB_LTYPE (ftype (cur_field it)) = PB_LTYPE_SUBMESSAGE" for p x
  proof -
    define fs where "fs = de_fields E (fptr (cur_field it))"
    have f: "fptr (cur_field it) \<in> set A" "rank (fptr (cur_field it)) \<le> n"
      using Suc.prems(2) [OF that] by auto
    note D = decode_schemaD [OF schema f(1), folded fs_def]
    show ?thesis unfolding fs_def [symmetric]
    proof (rule message_walk_returns [OF _ D(1)])
      fix k y assume k: "k < n_fields fs"
      then have cur: "cur_field (iter_at fs p k) = fs ! k" using D(1) by simp
      show "pb_release_single_field (Suc n) E (iter_at fs p k) y \<noteq> None"
        by (rule Suc.IH) (use D(3,4) [OF k] f(2) cur in auto)
    qed
  qed
  have rel: "release_items k (\<lambda>dest y. if dest = 0 then Some y
        else message_walk (pb_release_single_field (Suc n) E) (de_fields E (fptr (cur_field it))) dest y)
      p step x \<noteq> None"
    if "PB_LTYPE (ftype (cur_field it)) = PB_LTYPE_SUBMESSAGE" for k p step x
    by (rule release_items_returns) (use msg [OF that] in \<open>simp del: not_None_eq pb_release_single_field.simps\<close>)
  have "release_contents (Suc n) E (pb_release_single_field (Suc n) E)
      (\<lambda>fs dest x. if dest = 0 then Some x
        else message_walk (pb_release_single_field (Suc n) E) fs dest x) it st \<noteq> None"
    using Suc.prems(1) rel
    by (auto simp: release_contents_def Let_def decodable_field_def pb_const
        simp del: not_None_eq pb_release_single_field.simps)
  then show ?case
    using Suc.prems(1)
    by (auto simp: pb_release_single_field.simps(2) [of "Suc n"] Let_def decodable_field_def pb_const
        simp del: not_None_eq pb_release_single_field.simps split: option.splits)
qed

subsection \<open>Field decoders return\<close>

text \<open>What the recursion is assumed to do: it returns for every message of the schema below a rank.\<close>

definition sub_returns :: "'w dec_env \<Rightarrow> 'w msg_decoder \<Rightarrow> (addr \<Rightarrow> bool) \<Rightarrow> bool" where
  "sub_returns E sub P =
     (\<forall>a init dest m s. P a \<longrightarrow> is_buffer s \<longrightarrow> sub init (de_fields E a) dest m s \<noteq> None)"

lemma pb_dec_submessage_returns:
  assumes "sub_returns E sub P" "P (fptr field)" "is_buffer s"
  shows "pb_dec_submessage E sub field dest m s \<noteq> None"
proof (cases "pb_make_string_substream s")
  case (Pair q par)
  show ?thesis
  proof (cases q)
    case None
    then show ?thesis using Pair by (simp add: pb_dec_submessage_def)
  next
    case (Some ss)
    have buf: "is_buffer ss" using pb_make_string_substream_within(2) [OF assms(3) Pair Some] by simp
    define r where "r = sub (PB_HTYPE (ftype field) = PB_HTYPE_REPEATED) (de_fields E (fptr field)) dest m ss"
    have "r \<noteq> None" using assms(1,2) buf by (simp add: sub_returns_def r_def del: not_None_eq)
    then obtain st m1 ss1 where r: "r = Some (st, m1, ss1)" by (cases r) auto
    show ?thesis
      using r by (cases "pb_close_string_substream par ss1")
        (auto simp: pb_dec_submessage_def Pair Some r_def [symmetric])
  qed
qed

lemma PB_DECODERS_returns:
  assumes "sub_returns E sub P" "is_buffer s" "decodable_field field"
    and "PB_ATYPE (ftype field) = PB_ATYPE_STATIC"
    and "PB_LTYPE (ftype field) = PB_LTYPE_SUBMESSAGE \<Longrightarrow> P (fptr field)"
  shows "PB_DECODERS E sub field dest m s \<noteq> None"
proof -
  have "pb_dec_bytes E field dest m s \<noteq> None" "pb_dec_string E field dest m s \<noteq> None"
    using assms(4)
    by (auto simp: pb_dec_bytes_def pb_dec_string_def Let_def split: option.splits prod.splits)
  then show ?thesis
    using assms(3,5) pb_dec_submessage_returns [OF assms(1) _ assms(2)]
    by (auto simp: PB_DECODERS_def Let_def decodable_field_def pb_const simp del: not_None_eq)
qed

text \<open>A packable value that is read takes at least one byte.\<close>

lemma pb_decode_svarint_progress:
  "is_buffer s \<Longrightarrow> pb_decode_svarint s = (Some v, s') \<Longrightarrow> unat (bytes_left s') < unat (bytes_left s)"
  by (auto simp: pb_decode_svarint_def dest: pb_decode_varint_progress split: prod.splits option.splits)

lemma pb_read_progress:
  "pb_read s n = (Some bs, s') \<Longrightarrow> is_buffer s \<Longrightarrow> n \<noteq> 0 \<Longrightarrow> unat (bytes_left s') < unat (bytes_left s)"
  using unat_gt_0 [of n] by (auto simp: pb_read_buffer unat_bytes_left_advance split: if_splits)

lemma pb_decode_fixed_progress:
  "is_buffer s \<Longrightarrow> pb_decode_fixed32 s = (Some v, s') \<Longrightarrow> unat (bytes_left s') < unat (bytes_left s)"
  "is_buffer s \<Longrightarrow> pb_decode_fixed64 s = (Some w, s') \<Longrightarrow> unat (bytes_left s') < unat (bytes_left s)"
  by (auto simp: pb_decode_fixed32_def pb_decode_fixed64_def dest: pb_read_progress
      split: prod.splits option.splits)

lemma packable_progress:
  assumes "is_buffer s" "PB_LTYPE (ftype field) \<le> PB_LTYPE_LAST_PACKABLE"
    and "PB_DECODERS E sub field dest m s = Some (True, m', s')"
  shows "unat (bytes_left s') < unat (bytes_left s)"
proof -
  have "unat (PB_LTYPE (ftype field)) \<le> 4"
    using assms(2) by (simp add: pb_const word_le_nat_alt)
  moreover have "PB_LTYPE (ftype field) = of_nat (unat (PB_LTYPE (ftype field)))" by simp
  ultimately have "PB_LTYPE (ftype field) \<in> of_nat ` {0..4}" by (metis atLeast0AtMost atMost_iff imageI)
  then consider "PB_LTYPE (ftype field) = PB_LTYPE_VARINT" | "PB_LTYPE (ftype field) = PB_LTYPE_UVARINT"
    | "PB_LTYPE (ftype field) = PB_LTYPE_SVARINT" | "PB_LTYPE (ftype field) = PB_LTYPE_FIXED32"
    | "PB_LTYPE (ftype field) = PB_LTYPE_FIXED64"
    by (auto simp: pb_const numeral_eq_Suc atLeast0_atMost_Suc)
  note cases = this
  note progress = pb_decode_varint_progress [OF assms(1)] pb_decode_svarint_progress [OF assms(1)]
    pb_decode_fixed_progress [OF assms(1)]
  from cases assms(3) show ?thesis
    by cases (auto simp: PB_DECODERS_def Let_def pb_const pb_dec_varint_def pb_dec_uvarint_def
        pb_dec_svarint_def pb_dec_fixed32_def pb_dec_fixed64_def dest: progress
        split: prod.splits option.splits if_splits)
qed


subsection \<open>Fields return\<close>

lemma static_packed_loop_returns:
  assumes "sub_returns E sub P" "sub_within sub" "decodable_field field"
    and "PB_ATYPE (ftype field) = PB_ATYPE_STATIC"
    and "PB_LTYPE (ftype field) \<le> PB_LTYPE_LAST_PACKABLE"
  shows "is_buffer s \<Longrightarrow> unat (bytes_left s) < k \<Longrightarrow>
    static_packed_loop k (PB_DECODERS E sub) field pd ps m s \<noteq> None"
proof (induction k arbitrary: m s)
  case (Suc k)
  define r where "r = PB_DECODERS E sub field (pd + ucast (data_size field * load_u32 m ps)) m s"
  have not_sub: "PB_LTYPE (ftype field) \<noteq> PB_LTYPE_SUBMESSAGE"
    using assms(5) by (auto simp: pb_const)
  then have "r \<noteq> None"
    unfolding r_def by (intro PB_DECODERS_returns [OF assms(1) Suc.prems(1) assms(3,4)]) simp
  then obtain ok m1 s1 where r: "r = Some (ok, m1, s1)" by (cases r) auto
  show ?case
  proof (cases ok)
    case True
    have "unat (bytes_left s1) < unat (bytes_left s)"
      by (rule packable_progress [OF Suc.prems(1) assms(5)]) (use r True in \<open>simp add: r_def\<close>)
    moreover have "is_buffer s1"
      using dec_withinD [OF PB_DECODERS_within [OF Suc.prems(1) assms(2)] r [unfolded r_def]] Suc.prems(1)
      by (simp add: reads_within_buffer)
    ultimately have "static_packed_loop k (PB_DECODERS E sub) field pd ps
        (store_u32 m1 ps (load_u32 m1 ps + 1)) s1 \<noteq> None"
      using Suc.prems(2) by (intro Suc.IH) simp_all
    then show ?thesis using r True by (simp add: r_def del: not_None_eq)
  next
    case False
    then show ?thesis using r by (auto simp: r_def)
  qed
qed simp

lemma decode_static_field_returns:
  assumes "sub_returns E sub P" "sub_within sub" "is_buffer s" "decodable_field (cur_field it)"
    and "PB_ATYPE (ftype (cur_field it)) = PB_ATYPE_STATIC"
    and P: "PB_LTYPE (ftype (cur_field it)) = PB_LTYPE_SUBMESSAGE \<Longrightarrow> P (fptr (cur_field it))"
    and defaults: "\<And>pd m1. PB_LTYPE (ftype (cur_field it)) = PB_LTYPE_SUBMESSAGE \<Longrightarrow>
      pb_message_set_to_defaults n E (de_fields E (fptr (cur_field it))) pd m1 \<noteq> None"
  shows "decode_static_field n E sub wt it m s \<noteq> None"
proof -
  define field where "field = cur_field it"
  have func: "PB_DECODERS E sub field p m1 s \<noteq> None" for p m1
    unfolding field_def by (rule PB_DECODERS_returns [OF assms(1,3,4,5) P])
  have packed: "(case pb_make_string_substream s of
       (None, s1) \<Rightarrow> Some (False, m, s1)
     | (Some substream, s1) \<Rightarrow>
         (case static_packed_loop (Suc (unat (bytes_left substream))) (PB_DECODERS E sub) field
                 (pData it) (pSize it) m substream of
            None \<Rightarrow> None
          | Some (status, m1, substream1) \<Rightarrow>
              if bytes_left substream1 \<noteq> 0
              then Some (False, m1, is_set_error (with_world_of s1 substream1) ''array overflow'')
              else (case pb_close_string_substream s1 substream1 of
                  (ok, s2) \<Rightarrow> Some (ok \<and> status, m1, s2)))) \<noteq> None"
    if "PB_LTYPE (ftype field) \<le> PB_LTYPE_LAST_PACKABLE"
  proof (cases "pb_make_string_substream s")
    case (Pair q par)
    show ?thesis
    proof (cases q)
      case (Some ss)
      have "is_buffer ss" using pb_make_string_substream_within(2) [OF assms(3) Pair Some] by simp
      then have "static_packed_loop (Suc (unat (bytes_left ss))) (PB_DECODERS E sub) field
                 (pData it) (pSize it) m ss \<noteq> None"
        using assms(4,5) that unfolding field_def
        by (intro static_packed_loop_returns [OF assms(1,2)]) simp_all
      then obtain st m1 ss1 where "static_packed_loop (Suc (unat (bytes_left ss))) (PB_DECODERS E sub) field
                 (pData it) (pSize it) m ss = Some (st, m1, ss1)" by auto
      then show ?thesis
        using Pair Some
        by (cases "pb_close_string_substream par ss1") (auto simp del: static_packed_loop.simps)
    qed (simp add: Pair)
  qed
  show ?thesis
    using func packed defaults [folded field_def] PB_HTYPE_cases [of "ftype field"]
    unfolding decode_static_field_def Let_def field_def [symmetric]
    by (auto simp del: not_None_eq static_packed_loop.simps split: option.splits)
qed

text \<open>
  The code calls a callback until its stream is used up, so a callback has to consume some
  of what it is given.
\<close>

definition callbacks_consume :: "'w dec_env \<Rightarrow> bool" where
  "callbacks_consume E =
     (\<forall>fn field arg m s m' s'. is_buffer s \<longrightarrow> de_callback E fn field arg m s = (True, m', s') \<longrightarrow>
        bytes_left s' = 0 \<or> unat (bytes_left s') < unat (bytes_left s))"

lemma callback_loop_returns:
  assumes cb: "\<And>m s. is_buffer s \<Longrightarrow> dec_within s (Some (cb m s))"
    and progress: "\<And>m s m' s'. is_buffer s \<Longrightarrow> cb m s = (True, m', s') \<Longrightarrow>
      bytes_left s' = 0 \<or> unat (bytes_left s') < unat (bytes_left s)"
  shows "is_buffer s \<Longrightarrow> unat (bytes_left s) < k \<Longrightarrow> callback_loop k cb m s \<noteq> None"
proof (induction k arbitrary: m s)
  case (Suc k)
  obtain ok m1 s1 where r: "cb m s = (ok, m1, s1)" by (cases "cb m s")
  have "is_buffer s1"
    using dec_withinD [OF cb [OF Suc.prems(1)], of m ok m1 s1] r Suc.prems(1)
    by (simp add: reads_within_buffer)
  then show ?case
    using r progress [OF Suc.prems(1), of m m1 s1] Suc.IH [of s1 m1] Suc.prems(2)
    by (cases ok) (auto simp del: not_None_eq)
qed simp

lemma decode_callback_field_returns:
  assumes "is_buffer s" "env_within E" "callbacks_consume E"
  shows "decode_callback_field n E wt it m s \<noteq> None"
proof -
  define cb where "cb = de_callback E (load_ptr m (pData it)) (cur_field it) (pData it + 8)"
  have loop: "callback_loop (Suc (unat (bytes_left t) + n)) cb m t \<noteq> None" if "is_buffer t" for t
    by (rule callback_loop_returns [OF _ _ that])
      (use assms(2,3) in \<open>auto simp: env_within_def callbacks_consume_def cb_def simp del: dec_within_Some\<close>)
  show ?thesis
  proof (cases "pb_make_string_substream s")
    case (Pair q par)
    have str: "(case pb_make_string_substream s of
           (None, s1) \<Rightarrow> Some (False, m, s1)
         | (Some substream, s1) \<Rightarrow>
             (case callback_loop (Suc (unat (bytes_left substream) + n)) cb m substream of
                None \<Rightarrow> None
              | Some (False, m1, substream1) \<Rightarrow>
                  Some (False, m1, is_set_error (with_world_of s1 substream1) ''callback failed'')
              | Some (True, m1, substream1) \<Rightarrow>
                  (case pb_close_string_substream s1 substream1 of (ok, s2) \<Rightarrow> Some (ok, m1, s2)))) \<noteq> None"
    proof (cases q)
      case (Some ss)
      have "is_buffer ss" using pb_make_string_substream_within(2) [OF assms(1) Pair Some] by simp
      then obtain ok m1 ss1 where "callback_loop (Suc (unat (bytes_left ss) + n)) cb m ss = Some (ok, m1, ss1)"
        using loop [of ss] by auto
      then show ?thesis
        using Pair Some
        by (cases "pb_close_string_substream par ss1"; cases ok) (simp_all del: callback_loop.simps)
    qed (simp add: Pair)
    then show ?thesis
      unfolding decode_callback_field_def Let_def cb_def [symmetric]
      by (auto simp del: not_None_eq callback_loop.simps split: prod.splits option.splits)
  qed
qed

subsection \<open>The iterator during decoding\<close>

text \<open>
  In a message without fields the iterator stands on the terminator, which the search for a
  field matches when the key on the wire has field number zero.
\<close>

definition ready :: "pb_field_t list \<Rightarrow> addr \<Rightarrow> pb_field_iter_t \<Rightarrow> bool" where
  "ready fs dest it = (good_iter fs dest it \<or> n_fields fs = 0 \<and> it = iter_at fs dest 0)"

lemma ready_start: "wf_fields fs \<Longrightarrow> ready fs dest (iter_at fs dest 0)"
  using good_iter_iter_at [of 0 fs dest] unfolding ready_def by (cases "n_fields fs") auto

lemma empty_iter:
  assumes "wf_fields fs" "n_fields fs = 0"
  shows "it_start (iter_at fs dest 0) = fs" "it_pos (iter_at fs dest 0) = 0"
    "cur_field (iter_at fs dest 0) = fs ! 0"
    "pb_field_iter_next (iter_at fs dest 0) = (False, iter_at fs dest 0)"
  using wf_fields_end [OF assms(1)] assms(2)
  by (simp_all add: pb_field_iter_begin_def cur_field_def pb_field_iter_next_def Let_def)

lemma ready_search:
  assumes wf: "wf_fields fs" and it: "ready fs dest it"
  obtains found it' where "iter_search (length (it_start it)) wanted (it_pos it) it = Some (found, it')"
    "ready fs dest it'" "found \<Longrightarrow> wanted (cur_field it')"
proof (cases "good_iter fs dest it")
  case True
  obtain found it' where "iter_search (length fs) wanted (it_pos it) it = Some (found, it')"
    "good_iter fs dest it'" "found \<Longrightarrow> wanted (cur_field it')"
    by (rule iter_search_good [OF wf True, of wanted]) blast
  moreover have "it_start it = fs" using good_iterE [OF True wf] by metis
  ultimately show thesis using that by (auto simp: ready_def)
next
  case False
  then have e: "n_fields fs = 0" "it = iter_at fs dest 0" using it by (auto simp: ready_def)
  note E = empty_iter [OF wf e(1), of dest]
  have "length fs = Suc 0" using e wf by (simp add: wf_fields_length)
  then have "iter_search (length (it_start it)) wanted (it_pos it) it = Some (wanted (fs ! 0), it)"
    by (simp add: e(2) E Let_def del: iter_at.simps)
  then show thesis using that it E(3) e(2) by (simp del: iter_at.simps)
qed

lemma ready_find:
  assumes "wf_fields fs" "ready fs dest it"
  obtains found it' where "pb_field_iter_find it t = Some (found, it')" "ready fs dest it'"
proof -
  obtain found it' where "pb_field_iter_find it t = Some (found, it')" "ready fs dest it'"
    unfolding pb_field_iter_find_def
    by (rule ready_search [OF assms, of "\<lambda>f. tag f = t \<and> PB_LTYPE (ftype f) \<noteq> PB_LTYPE_EXTENSION"])
  then show thesis by (rule that)
qed

lemma ready_field:
  assumes schema: "decode_schema flds rank A" "a \<in> set A" and it: "ready (flds a) dest it"
  shows "decodable_field (cur_field it)"
    and "PB_LTYPE (ftype (cur_field it)) = PB_LTYPE_SUBMESSAGE \<Longrightarrow>
      fptr (cur_field it) \<in> set A \<and> rank (fptr (cur_field it)) < rank a"
    and "PB_LTYPE (ftype (cur_field it)) \<noteq> PB_LTYPE_EXTENSION"
proof -
  note D = decode_schemaD [OF schema]
  have *: "decodable_field (cur_field it) \<and>
    (PB_LTYPE (ftype (cur_field it)) = PB_LTYPE_SUBMESSAGE \<longrightarrow>
      fptr (cur_field it) \<in> set A \<and> rank (fptr (cur_field it)) < rank a)"
  proof (cases "good_iter (flds a) dest it")
    case True
    obtain k where k: "k < n_fields (flds a)" "cur_field it = flds a ! k"
      using good_iterE [OF True D(1)] by metis
    then show ?thesis using D(3,4) [OF k(1)] by simp
  next
    case False
    then have e: "n_fields (flds a) = 0" "it = iter_at (flds a) dest 0" using it by (auto simp: ready_def)
    then have "cur_field it = PB_LAST_FIELD" using D(2) empty_iter(3) [OF D(1) e(1)] by simp
    then show ?thesis by (simp add: PB_LAST_FIELD_def decodable_field_def PB_LTYPE_def PB_ATYPE_def pb_const)
  qed
  then show "decodable_field (cur_field it)"
    and "PB_LTYPE (ftype (cur_field it)) = PB_LTYPE_SUBMESSAGE \<Longrightarrow>
      fptr (cur_field it) \<in> set A \<and> rank (fptr (cur_field it)) < rank a" by auto
  show "PB_LTYPE (ftype (cur_field it)) \<noteq> PB_LTYPE_EXTENSION"
    using * by (auto simp: decodable_field_def pb_const)
qed

lemma seek_last_iter_at:
  assumes "wf_fields fs"
  shows "k < n_fields fs \<Longrightarrow> n_fields fs - k \<le> fuel \<Longrightarrow> seek_last fuel (iter_at fs dest k) \<noteq> None"
proof (induction fuel arbitrary: k)
  case (Suc fuel)
  show ?case
  proof (cases "Suc k < n_fields fs")
    case True
    then show ?thesis
      using Suc.IH [of "Suc k"] Suc.prems iter_next_iter_at [OF assms Suc.prems(1), of dest]
      by (simp del: iter_at.simps not_None_eq)
  next
    case False
    then show ?thesis
      using Suc.prems iter_next_iter_at [OF assms Suc.prems(1), of dest] by (simp del: iter_at.simps)
  qed
qed simp

lemma seek_last_ready:
  assumes wf: "wf_fields fs" and it: "ready fs dest it"
  shows "seek_last (length fs) it \<noteq> None"
proof (cases "good_iter fs dest it")
  case True
  then obtain k where k: "k < n_fields fs" "pb_field_iter_next it = pb_field_iter_next (iter_at fs dest k)"
    using good_iterE [OF True wf] by metis
  have "seek_last (Suc (n_fields fs)) (iter_at fs dest k) \<noteq> None"
    by (rule seek_last_iter_at [OF wf k(1)]) simp
  then show ?thesis using k(2) wf by (auto simp: wf_fields_length split: prod.splits bool.splits)
next
  case False
  then have e: "n_fields fs = 0" "it = iter_at fs dest 0" using it by (auto simp: ready_def)
  then show ?thesis
    using empty_iter(4) [OF wf e(1), of dest] wf by (simp add: wf_fields_length del: iter_at.simps)
qed

text \<open>Pointing \<open>pSize\<close> of a repeated field elsewhere keeps the iterator usable.\<close>

lemma ready_pSize:
  assumes schema: "decode_schema flds rank A" "a \<in> set A" and it: "ready (flds a) dest it"
    and rep: "PB_HTYPE (ftype (cur_field it)) = PB_HTYPE_REPEATED"
  shows "ready (flds a) dest (it\<lparr>pSize := x\<rparr>)"
proof (cases "good_iter (flds a) dest it")
  case True
  note wf = decode_schemaD(1) [OF schema]
  obtain k where k: "k < n_fields (flds a)" and it': "it = iter_at (flds a) dest k \<or>
      PB_HTYPE (ftype (flds a ! k)) = PB_HTYPE_REPEATED \<and> (\<exists>y. it = (iter_at (flds a) dest k)\<lparr>pSize := y\<rparr>)"
    using True by (auto simp: good_iter_def)
  have "PB_HTYPE (ftype (flds a ! k)) = PB_HTYPE_REPEATED"
    using it' rep cur_field_iter_at [OF wf k] by auto
  moreover have "\<exists>y. it\<lparr>pSize := x\<rparr> = (iter_at (flds a) dest k)\<lparr>pSize := y\<rparr>" using it' by auto
  ultimately have "good_iter (flds a) dest (it\<lparr>pSize := x\<rparr>)" using k unfolding good_iter_def by blast
  then show ?thesis by (simp add: ready_def)
next
  case False
  then have e: "n_fields (flds a) = 0" "it = iter_at (flds a) dest 0" using it by (auto simp: ready_def)
  note D = decode_schemaD [OF schema]
  have "cur_field it = PB_LAST_FIELD" using D(2) e empty_iter(3) [OF D(1) e(1)] by simp
  then show ?thesis using rep by (simp add: PB_LAST_FIELD_def PB_HTYPE_def pb_const)
qed

subsection \<open>Fields and the message loop return\<close>

definition decode_setting ::
  "'w dec_env \<Rightarrow> (addr \<Rightarrow> nat) \<Rightarrow> addr list \<Rightarrow> addr \<Rightarrow> 'w msg_decoder \<Rightarrow> nat \<Rightarrow> bool" where
  "decode_setting E rank A a sub n =
     (decode_schema (de_fields E) rank A \<and> a \<in> set A \<and> rank a < n \<and>
      sub_returns E sub (\<lambda>b. b \<in> set A \<and> rank b < rank a) \<and> sub_within sub \<and>
      env_within E \<and> callbacks_consume E)"

lemma decode_settingD:
  assumes "decode_setting E rank A a sub n"
  shows "decode_schema (de_fields E) rank A" "a \<in> set A" "rank a < n"
    "sub_returns E sub (\<lambda>b. b \<in> set A \<and> rank b < rank a)" "sub_within sub"
    "env_within E" "callbacks_consume E" "wf_fields (de_fields E a)"
  using assms decode_schemaD(1) by (auto simp: decode_setting_def)

lemma release_returns:
  assumes "decode_setting E rank A a sub n" "ready (de_fields E a) dest it"
  shows "release_in_stream n E it m s \<noteq> None"
proof -
  note S = decode_settingD [OF assms(1)]
  obtain k where n: "n = Suc k" using S(3) by (cases n) auto
  have "pb_release_single_field (Suc k) E it (m, is_world s) \<noteq> None"
    by (rule pb_release_single_field_returns [OF S(1)])
      (use ready_field [OF S(1,2) assms(2)] S(3) n in auto)
  then show ?thesis by (auto simp: release_in_stream_def n)
qed

lemma union_returns:
  assumes "decode_setting E rank A a sub n" "ready (de_fields E a) dest it"
  obtains ok it' m' s' where "pb_release_union_field n E it m s = Some (ok, it', m', s')"
    "ready (de_fields E a) dest it'"
proof -
  note S = decode_settingD [OF assms(1)]
  obtain f1 it1 where 1: "pb_field_iter_find it (load_u32 m (pSize it)) = Some (f1, it1)" "ready (de_fields E a) dest it1"
    by (rule ready_find [OF S(8) assms(2)])
  obtain m1 s1 where 2: "release_in_stream n E it1 m s = Some (m1, s1)"
    using release_returns [OF assms(1) 1(2), of m s] by auto
  obtain f2 it2 where 3: "pb_field_iter_find it1 (tag (cur_field it)) = Some (f2, it2)" "ready (de_fields E a) dest it2"
    by (rule ready_find [OF S(8) 1(2)])
  have "pb_release_union_field n E it m s =
    (let old_tag = load_u32 m (pSize it); new_tag = tag (cur_field it) in
      if old_tag = 0 \<or> old_tag = new_tag then Some (True, it, m, s)
      else if \<not> f1 then Some (False, it1, m, is_set_error s ''invalid union tag'')
      else if \<not> f2 then Some (False, it2, m1, is_set_error s1 ''iterator error'')
      else Some (True, it2, m1, s1))"
    by (cases f1; cases f2) (simp_all add: pb_release_union_field_def Let_def 1 2 3)
  with assms(2) 1(2) 3(2) that show thesis by (simp add: Let_def split: if_splits)
qed

lemma decode_field_returns:
  assumes setting: "decode_setting E rank A a sub n"
    and "is_buffer s" "ready (de_fields E a) dest it"
  obtains ok it' m' s' where "decode_field n E sub wt it m s = Some (ok, it', m', s')"
    "ready (de_fields E a) dest it'"
proof -
  note S = decode_settingD [OF setting]
  have body: "(let at = PB_ATYPE (ftype (cur_field it1)) in
           if at = PB_ATYPE_STATIC then decode_static_field n E sub wt it1 m1 s1
              else if at = PB_ATYPE_POINTER then decode_pointer_field n E sub wt it1 m1 s1
              else if at = PB_ATYPE_CALLBACK then decode_callback_field n E wt it1 m1 s1
              else Some (False, m1, is_set_error s1 ''invalid field type'')) \<noteq> None"
    if it1: "ready (de_fields E a) dest it1" and s1: "is_buffer s1" for it1 m1 s1
  proof -
    note F = ready_field [OF S(1,2) it1]
    have "PB_ATYPE (ftype (cur_field it1)) \<noteq> PB_ATYPE_POINTER"
      using F(1) by (auto simp: decodable_field_def)
    moreover have "decode_static_field n E sub wt it1 m1 s1 \<noteq> None"
      if "PB_ATYPE (ftype (cur_field it1)) = PB_ATYPE_STATIC"
      by (rule decode_static_field_returns [OF S(4,5) s1 F(1) that])
        (use F(2) S(2,3) pb_message_set_to_defaults_returns [OF S(1)] in \<open>auto simp del: not_None_eq\<close>)
    ultimately show ?thesis
      using decode_callback_field_returns [OF s1 S(6,7)] by (simp add: Let_def del: not_None_eq)
  qed
  have rel: "\<exists>ok it1 m1 s1. (if PB_HTYPE (ftype (cur_field it)) = PB_HTYPE_ONEOF
            then pb_release_union_field n E it m s else Some (True, it, m, s)) = Some (ok, it1, m1, s1) \<and>
      ready (de_fields E a) dest it1 \<and> is_buffer s1"
  proof (cases "PB_HTYPE (ftype (cur_field it)) = PB_HTYPE_ONEOF")
    case True
    obtain ok it1 m1 s1 where u: "pb_release_union_field n E it m s = Some (ok, it1, m1, s1)" "ready (de_fields E a) dest it1"
      by (rule union_returns [OF setting assms(3)])
    then have "is_buffer s1"
      using pb_release_union_field_within assms(2) reads_within_buffer by metis
    then show ?thesis using u True by simp
  qed (use assms in auto)
  then obtain ok it1 m1 s1 where r: "(if PB_HTYPE (ftype (cur_field it)) = PB_HTYPE_ONEOF
            then pb_release_union_field n E it m s else Some (True, it, m, s)) = Some (ok, it1, m1, s1)"
      "ready (de_fields E a) dest it1" "is_buffer s1" by blast
  show thesis
  proof (cases ok)
    case True
    have "decode_field n E sub wt it m s = map_option (\<lambda>(ok, m2, s2). (ok, it1, m2, s2))
      (let at = PB_ATYPE (ftype (cur_field it1)) in
           if at = PB_ATYPE_STATIC then decode_static_field n E sub wt it1 m1 s1
              else if at = PB_ATYPE_POINTER then decode_pointer_field n E sub wt it1 m1 s1
              else if at = PB_ATYPE_CALLBACK then decode_callback_field n E wt it1 m1 s1
              else Some (False, m1, is_set_error s1 ''invalid field type''))"
      using True by (simp add: decode_field_def r Let_def)
    then show thesis using body [OF r(2,3), of m1] that r(2) by auto
  next
    case False
    then show thesis using r that [of False it1 m1 s1] by (simp add: decode_field_def)
  qed
qed

lemma pb_decode_tag_small: "pb_decode_tag s = (Some (wt, t), eof, s1) \<Longrightarrow> t < - 1"
proof -
  assume "pb_decode_tag s = (Some (wt, t), eof, s1)"
  then obtain v :: u32 where "t = drop_bit 3 v"
    by (auto simp: pb_decode_tag_def split: prod.splits option.splits if_splits)
  then have "unat t \<le> unat v div 8" by (simp only: unat_drop_bit_eq) (simp add: drop_bit_eq_div)
  moreover have "unat v < 2 ^ 32" by (rule u32_less)
  moreover have "unat (- 1 :: u32) = 2 ^ 32 - 1" by (simp only: unsigned_minus_1_eq_mask mask_eq_exp_minus_1) simp
  ultimately show "t < - 1" by (simp add: word_less_nat_alt)
qed

lemma decode_unknown_returns:
  assumes setting: "decode_setting E rank A a sub n" and it: "ready (de_fields E a) dest (dec_iter fr)"
    and t: "t < - 1"
  obtains ok fr' m' s' where "decode_unknown n E sub t wt fr m s = Some (ok, fr', m', s')"
    "ready (de_fields E a) dest (dec_iter fr')"
proof -
  note S = decode_settingD [OF setting]
  obtain found it1 where f: "find_extension_field (dec_iter fr) = Some (found, it1)"
    "ready (de_fields E a) dest it1" "found \<Longrightarrow> PB_LTYPE (ftype (cur_field it1)) = PB_LTYPE_EXTENSION"
    unfolding find_extension_field_def
    by (rule ready_search [OF S(8) it, of "\<lambda>f. PB_LTYPE (ftype f) = PB_LTYPE_EXTENSION"]) blast
  have nt: "(- 1 \<le> t) = False" using t by (simp add: not_le)
  have "\<not> found" using f(3) ready_field(3) [OF S(1,2) f(2)] by blast
  then have "decode_unknown n E sub t wt fr m s =
    Some (fst (pb_skip_field s wt),
      if t \<ge> extension_range_start fr then fr\<lparr>dec_iter := it1, extension_range_start := - 1\<rparr> else fr,
      m, snd (pb_skip_field s wt))"
    using nt f(1)
    by (cases "pb_skip_field s wt"; cases "extension_range_start fr \<le> t")
      (simp_all add: decode_unknown_def Let_def)
  then show thesis by (rule that) (use it f(2) in simp)
qed

lemma enter_field_ready:
  assumes "decode_schema flds rank A" "a \<in> set A" "ready (flds a) dest (dec_iter fr)"
    and "enter_field loc fr m = Some (fr', m')"
  shows "ready (flds a) dest (dec_iter fr')"
  using assms(3,4) ready_pSize [OF assms(1,2,3), of loc]
  by (auto simp: enter_field_def Let_def split: if_splits)

lemma decode_known_returns:
  assumes setting: "decode_setting E rank A a sub n" and "is_buffer s"
    and it: "ready (de_fields E a) dest (dec_iter fr)"
  obtains ok fr' m' s' where "decode_known n E sub loc wt fr m s = Some (ok, fr', m', s')"
    "ready (de_fields E a) dest (dec_iter fr')"
proof (cases "enter_field loc fr m")
  case None
  then show thesis using that [OF _ it] by (auto simp: decode_known_def)
next
  case (Some p)
  obtain fr1 m1 where p: "p = (fr1, m1)" by (cases p)
  note S = decode_settingD [OF setting]
  have fr1: "ready (de_fields E a) dest (dec_iter fr1)"
    by (rule enter_field_ready [OF S(1,2) it Some [unfolded p]])
  obtain ok it' m' s' where "decode_field n E sub wt (dec_iter fr1) m1 s = Some (ok, it', m', s')"
    "ready (de_fields E a) dest it'"
    by (rule decode_field_returns [OF setting assms(2) fr1])
  then show thesis using that [of ok "fr1\<lparr>dec_iter := it'\<rparr>" m' s'] Some p
    by (simp add: decode_known_def)
qed

lemma decode_loop_returns:
  assumes setting: "decode_setting E rank A a sub n"
  shows "is_buffer s \<Longrightarrow> ready (de_fields E a) dest (dec_iter fr) \<Longrightarrow> unat (bytes_left s) < k \<Longrightarrow>
    \<exists>ok fr' m' s'. decode_loop k n E sub loc fr m s = Some (ok, fr', m', s') \<and>
      ready (de_fields E a) dest (dec_iter fr')"
proof (induction k arbitrary: fr m s)
  case (Suc k)
  note S = decode_settingD [OF setting]
  show ?case
  proof (cases "bytes_left s = 0")
    case True
    then show ?thesis using Suc.prems(2) by auto
  next
    case left: False
    obtain p eof s1 where tag: "pb_decode_tag s = (p, eof, s1)" by (cases "pb_decode_tag s")
    show ?thesis
    proof (cases p)
      case None
      then show ?thesis using left tag Suc.prems(2) by simp
    next
      case (Some q)
      obtain wt t where q: "q = (wt, t)" by (cases q)
      note tag = tag [unfolded Some q]
      obtain found it where find: "pb_field_iter_find (dec_iter fr) t = Some (found, it)"
        "ready (de_fields E a) dest it"
        by (rule ready_find [OF S(8) Suc.prems(2)])
      define r where "r = (if found then decode_known n E sub loc wt (fr\<lparr>dec_iter := it\<rparr>) m s1
                        else decode_unknown n E sub t wt (fr\<lparr>dec_iter := it\<rparr>) m s1)"
      have s1: "reads_within s s1" by (rule pb_decode_tag_within [OF Suc.prems(1) tag])
      then have buf1: "is_buffer s1" using Suc.prems(1) by (simp add: reads_within_buffer)
      have "\<exists>ok fr2 m2 s2. r = Some (ok, fr2, m2, s2) \<and> ready (de_fields E a) dest (dec_iter fr2)"
      proof (cases found)
        case True
        show ?thesis
          by (rule decode_known_returns [OF setting buf1, of dest "fr\<lparr>dec_iter := it\<rparr>" loc wt m])
            (use True find(2) in \<open>auto simp: r_def\<close>)
      next
        case False
        show ?thesis
          by (rule decode_unknown_returns [OF setting, of dest "fr\<lparr>dec_iter := it\<rparr>" t wt m s1])
            (use False find(2) pb_decode_tag_small [OF tag] in \<open>auto simp: r_def\<close>)
      qed
      then obtain ok fr2 m2 s2 where r: "r = Some (ok, fr2, m2, s2)"
        and fr2: "ready (de_fields E a) dest (dec_iter fr2)" by blast
      have within: "reads_within s1 s2"
        using r decode_known_within [OF buf1 S(5,6)] decode_unknown_within [OF buf1 S(5,6)]
        unfolding r_def by (cases found) (metis (no_types, lifting))+
      have "unat (bytes_left s1) < unat (bytes_left s)"
        by (rule pb_decode_tag_progress [OF Suc.prems(1) tag])
      then have "unat (bytes_left s2) < k" using reads_within_left [OF within] Suc.prems(3) by simp
      moreover have "is_buffer s2" using within buf1 by (simp add: reads_within_buffer)
      ultimately have IH: "\<exists>ok fr' m' s'. decode_loop k n E sub loc fr2 m2 s2 = Some (ok, fr', m', s') \<and>
          ready (de_fields E a) dest (dec_iter fr')"
        using fr2 by (intro Suc.IH)
      have "decode_loop (Suc k) n E sub loc fr m s =
          (if ok then decode_loop k n E sub loc fr2 m2 s2 else r)"
        using left tag find r by (cases ok) (simp_all add: Let_def r_def [symmetric])
      then show ?thesis using IH r fr2 by (cases ok) (auto simp del: decode_loop.simps)
    qed
  qed
qed simp

lemma decode_noinit_returns:
  assumes setting: "decode_setting E rank A a sub n" and "is_buffer s"
  shows "decode_noinit n E sub (de_fields E a) dest m s \<noteq> None"
proof -
  note S = decode_settingD [OF setting]
  let ?fs = "de_fields E a"
  have start: "ready ?fs dest (dec_iter (start_frame ?fs dest))"
    using ready_start [OF S(8)] by (simp add: start_frame_def)
  obtain ok fr m1 s1 where loop: "decode_loop (Suc (unat (bytes_left s))) n E sub (de_local E n)
      (start_frame ?fs dest) (store_u32 m (de_local E n) 0) s = Some (ok, fr, m1, s1)"
    and fr: "ready ?fs dest (dec_iter fr)"
    using decode_loop_returns [OF setting assms(2) start lessI] by blast
  have "check_complete ?fs (de_local E n) fr m1 s1 \<noteq> None"
    using seek_last_ready [OF S(8) fr] by (auto simp: check_complete_def)
  then show ?thesis
    using loop by (cases ok) (simp_all add: decode_noinit_def Let_def del: decode_loop.simps not_None_eq)
qed

lemma pb_release_returns:
  assumes schema: "decode_schema (de_fields E) rank A" and a: "a \<in> set A" "rank a < n"
  shows "pb_release n E (de_fields E a) dest st \<noteq> None"
proof (cases "dest = 0")
  case False
  obtain k where n: "n = Suc k" using a(2) by (cases n) auto
  note D = decode_schemaD [OF schema a(1)]
  have "message_walk (pb_release_single_field (Suc k) E) (de_fields E a) dest st \<noteq> None"
  proof (rule message_walk_returns [OF _ D(1)])
    fix i x assume i: "i < n_fields (de_fields E a)"
    show "pb_release_single_field (Suc k) E (iter_at (de_fields E a) dest i) x \<noteq> None"
      by (rule pb_release_single_field_returns [OF schema])
        (use D(3,4) [OF i] cur_field_iter_at [OF D(1) i] a(2) n in auto)
  qed
  then show ?thesis using False by (simp add: pb_release_def n)
qed (simp add: pb_release_def)

lemma decode_message_returns:
  assumes setting: "decode_setting E rank A a sub n" and "is_buffer s"
  shows "decode_message n E sub init (de_fields E a) dest m s \<noteq> None"
proof (cases init)
  case True
  note S = decode_settingD [OF setting]
  obtain m1 where m1: "pb_message_set_to_defaults n E (de_fields E a) dest m = Some m1"
    using pb_message_set_to_defaults_returns [OF S(1,2,3), of dest m] by auto
  obtain ok m2 s2 where r: "decode_noinit n E sub (de_fields E a) dest m1 s = Some (ok, m2, s2)"
    using decode_noinit_returns [OF assms, of dest m1] by auto
  obtain m3 w where "pb_release n E (de_fields E a) dest (m2, is_world s2) = Some (m3, w)"
    using pb_release_returns [OF S(1,2,3), of dest "(m2, is_world s2)"] by auto
  then show ?thesis using True m1 r by (cases ok) (simp_all add: decode_message_def)
next
  case False
  then show ?thesis using decode_noinit_returns [OF assms] by (simp add: decode_message_def del: not_None_eq)
qed

lemma decode_at_depth_returns:
  assumes schema: "decode_schema (de_fields E) rank A" and env: "env_within E" "callbacks_consume E"
  shows "a \<in> set A \<Longrightarrow> rank a + 1 < n \<Longrightarrow> is_buffer s \<Longrightarrow>
    decode_at_depth n E init (de_fields E a) dest m s \<noteq> None"
proof (induction n arbitrary: a init dest m s)
  case (Suc n)
  have "sub_returns E (decode_at_depth n E) (\<lambda>b. b \<in> set A \<and> rank b < rank a)"
    unfolding sub_returns_def using Suc.IH Suc.prems(2) by (auto simp del: not_None_eq)
  then have "decode_setting E rank A a (decode_at_depth n E) n"
    using schema env decode_at_depth_within [OF env(1)] Suc.prems by (simp add: decode_setting_def)
  then show ?case using decode_message_returns [OF _ Suc.prems(3)] by (simp del: not_None_eq)
qed simp

end
