(* ===== verification/Pb_Decode_Correct.thy ===== *)
theory Pb_Decode_Correct
  imports Pb_Decode_Total Pb_Encode_Correct
begin

text \<open>
  What \<^verbatim>\<open>pb_decode\<close> promises on every input: it stays inside its stream and it returns.
\<close>

unbundle bit_operations_syntax

subsection \<open>The environment of the examples\<close>

text \<open>
  The descriptors of the encoder's example, an allocator that always fails, and no
  callbacks: a null callback pointer is never called.
\<close>

definition ex_dec_env :: "unit dec_env" where
  "ex_dec_env =
     \<lparr>de_fields = (\<lambda>_. [PB_LAST_FIELD])(0x10 := ex_sub_fields, 0x20 := ex_fields),
      de_callback = (\<lambda>fn field arg m s. (False, m, s)),
      de_ext_decode = (\<lambda>fn ext t wt m s. (False, m, s)),
      de_realloc = (\<lambda>m w p n. Some (0, m, w)),
      de_free = (\<lambda>m w p. Some (m, w)),
      de_local = (\<lambda>n. 0xF000 + of_nat n)\<rparr>"

definition ex_rank :: "addr \<Rightarrow> nat" where
  "ex_rank a = (if a = 0x20 then 1 else 0)"

lemma ex_env_within: "env_within ex_dec_env"
  by (simp add: env_within_def ex_dec_env_def)

lemma ex_callbacks_consume: "callbacks_consume ex_dec_env"
  by (simp add: callbacks_consume_def ex_dec_env_def)

lemma ex_decode_schema: "decode_schema (de_fields ex_dec_env) ex_rank [0x10, 0x20]"
  by code_simp

lemma ex_decode_succeeds:
  "map_option fst (pb_decode 3 ex_dec_env ex_fields 0x100 (\<lambda>_. 0) (istream_of ex_bytes)) = Some True"
  by code_simp

subsection \<open>Properties\<close>

text \<open>C7: Whatever the input and the message description are, and whether decoding succeeds or
  fails, \<^verbatim>\<open>pb_decode\<close> and \<^verbatim>\<open>pb_decode_delimited\<close> read only bytes of the buffer stream they
  are given, and leave the stream at a later position of the same buffer. Callbacks are
  assumed to do the same with the streams they get.\<close>

theorem pb_decode_stays_within:
  assumes "env_within E" and "is_buffer s"
  shows "(case pb_decode n E fs dest m s of None \<Rightarrow> True | Some (ok, m', s') \<Rightarrow> reads_within s s') \<and>
    (case pb_decode_delimited n E fs dest m s of
       None \<Rightarrow> True | Some (ok, m', s') \<Rightarrow> reads_within s s')"
proof -
  have dec: "dec_within t (pb_decode n E fs dest m1 t)" if "is_buffer t" for m1 t
    using decode_at_depth_within [OF assms(1), of n] that by (simp add: sub_within_def pb_decode_def)
  have "dec_within s (decode_delimited_with (pb_decode n E fs dest) m s)"
  proof (cases "pb_make_string_substream s")
    case (Pair q par)
    show ?thesis
    proof (cases q)
      case None
      then show ?thesis
        using pb_make_string_substream_within(1) [OF assms(2) Pair] Pair by (simp add: decode_delimited_with_def)
    next
      case (Some ss)
      note made = Pair [unfolded Some]
      have "is_buffer ss" using pb_make_string_substream_within(2) [OF assms(2) Pair Some] by simp
      note sub = dec_withinD [OF dec [OF this]]
      show ?thesis
        unfolding decode_delimited_with_def made
        by (auto intro!: dec_withinI dest!: sub substream_cycle_within(1) [OF assms(2) made]
            split: option.splits prod.splits)
    qed
  qed
  then show ?thesis
    using dec [OF assms(2), of m] unfolding pb_decode_delimited_def
    by (auto simp: dec_within_def split: option.splits)
qed

lemma pb_decode_stays_within_witness:
  "case pb_decode 3 ex_dec_env ex_fields 0x100 (\<lambda>_. 0) (istream_of ex_bytes) of
     None \<Rightarrow> True | Some (ok, m', s') \<Rightarrow> reads_within (istream_of ex_bytes) s'"
  using pb_decode_stays_within [OF ex_env_within is_buffer_istream_of [of ex_bytes],
      where n = 3 and fs = ex_fields and dest = "0x100" and m = "\<lambda>_. 0"] by simp

text \<open>C8: The decoder returns. For descriptors without pointer fields, extension ranges and
  circular submessages, \<^verbatim>\<open>pb_decode\<close> comes back with true or false from every input and every
  memory, within a recursion depth given by the descriptors alone. Callbacks are assumed to
  read within the stream they get and, if they succeed, to consume some of it.\<close>

theorem pb_decode_terminates:
  assumes "decode_schema (de_fields E) rank A" and "a \<in> set A" and "rank a + 1 < n"
    and "env_within E" and "callbacks_consume E" and "is_buffer s"
  shows "\<exists>ok m' s'. pb_decode n E (de_fields E a) dest m s = Some (ok, m', s')"
  using decode_at_depth_returns [OF assms(1,4,5,2,3,6), of True dest m] by (auto simp: pb_decode_def)

lemma pb_decode_terminates_witness:
  "\<exists>ok m' s'. pb_decode 3 ex_dec_env (de_fields ex_dec_env 0x20) 0x100 (\<lambda>_. 0)
     (istream_of [0x1A, 0xFF, 0x08]) = Some (ok, m', s')"
  by (rule pb_decode_terminates [OF ex_decode_schema _ _ ex_env_within ex_callbacks_consume])
    (simp_all add: ex_rank_def)

end
