(* ===== verification/FBase64.thy ===== *)
theory FBase64
  imports Prelude
begin

text \<open>
  The Base64 codec of the web socket,
  \<^verbatim>\<open>src/ios/Pods/FirebaseDatabase/Firebase/Database/third_party/SocketRocket/fbase64.c\<close>:
  \<^verbatim>\<open>f_b64_ntop\<close> and \<^verbatim>\<open>f_b64_pton\<close>. The source argument is the list of the bytes the function
  reads through \<^verbatim>\<open>src\<close>, which the target does not overlap; a C string is the list of its
  characters, and reading at the end of the list or at a zero byte finds the terminator. The
  target is an address in the memory.
\<close>

unbundle bit_operations_syntax

subsection \<open>The alphabet\<close>

definition Base64 :: "byte list" where
  "Base64 = map of_char ''ABCDEFGHIJKLMNOPQRSTUVWXYZabcdefghijklmnopqrstuvwxyz0123456789+/''"

definition Pad64 :: byte where
  "Pad64 = of_char (CHR ''='')"

subsection \<open>Encoding\<close>

text \<open>The four six-bit groups of three bytes.\<close>

definition output_of :: "byte \<Rightarrow> byte \<Rightarrow> byte \<Rightarrow> byte list" where
  "output_of a b c =
     [drop_bit 2 a, push_bit 4 (a AND 0x03) + drop_bit 4 b,
      push_bit 2 (b AND 0x0F) + drop_bit 6 c, c AND 0x3F]"

text \<open>
  The loop over full groups: \<^const>\<open>None\<close> for a return of -1, otherwise what is left of the
  source and the number of characters stored.
\<close>

fun ntop_loop ::
  "byte list \<Rightarrow> addr \<Rightarrow> u64 \<Rightarrow> u64 \<Rightarrow> mem \<Rightarrow> (byte list \<times> u64) option \<times> mem" where
  "ntop_loop (a # b # c # src) target targsize datalength m =
     (if datalength + 4 > targsize then (None, m)
      else ntop_loop src target targsize (datalength + 4)
             (store_bytes m (target + datalength)
                (map (\<lambda>o_i. Base64 ! unat o_i) (output_of a b c))))"
| "ntop_loop src target targsize datalength m = (Some (src, datalength), m)"

definition ntop_pad ::
  "byte list \<Rightarrow> addr \<Rightarrow> u64 \<Rightarrow> u64 \<Rightarrow> mem \<Rightarrow> u64 option \<times> mem" where
  "ntop_pad src target targsize datalength m =
     (if src = [] then (Some datalength, m)
      else
        (let input = src @ replicate (3 - length src) 0;
             output = output_of (input ! 0) (input ! 1) (input ! 2)
         in if datalength + 4 > targsize then (None, m)
            else (Some (datalength + 4),
              store_bytes m (target + datalength)
                [Base64 ! unat (output ! 0), Base64 ! unat (output ! 1),
                 if length src = 1 then Pad64 else Base64 ! unat (output ! 2), Pad64])))"

definition f_b64_ntop :: "byte list \<Rightarrow> addr \<Rightarrow> u64 \<Rightarrow> mem \<Rightarrow> int \<times> mem" where
  "f_b64_ntop src target targsize m =
     (case ntop_loop src target targsize 0 m of
        (None, m1) \<Rightarrow> (- 1, m1)
      | (Some (left, datalength), m1) \<Rightarrow>
          (case ntop_pad left target targsize datalength m1 of
             (None, m2) \<Rightarrow> (- 1, m2)
           | (Some datalength, m2) \<Rightarrow>
               if datalength \<ge> targsize then (- 1, m2)
               else (sint (ucast datalength :: u32), m2(target + datalength := 0))))"

subsection \<open>Decoding\<close>

text \<open>\<^verbatim>\<open>isspace\<close> in the C locale.\<close>

definition c_isspace :: "byte \<Rightarrow> bool" where
  "c_isspace ch = (ch = 0x20 \<or> 0x09 \<le> ch \<and> ch \<le> 0x0D)"

text \<open>\<^verbatim>\<open>strchr(Base64, ch) - Base64\<close>, for a character that is not the terminator.\<close>

definition base64_pos :: "byte \<Rightarrow> nat option" where
  "base64_pos ch = find (\<lambda>i. Base64 ! i = ch) [0..<length Base64]"

record pton_state =
  pt_state :: nat
  pt_index :: u32
  pt_mem :: mem

text \<open>The \<^verbatim>\<open>switch\<close>: the bool is false for a return of -1. A null target is only counted.\<close>

definition pton_step :: "addr \<Rightarrow> u64 \<Rightarrow> byte \<Rightarrow> pton_state \<Rightarrow> bool \<times> pton_state" where
  "pton_step target targsize pos st =
     (let i = pt_index st; m = pt_mem st;
          at = target + ucast i; at1 = target + ucast (i + 1);
          two = (\<lambda>hi lo next.
            if target = 0 then (True, st\<lparr>pt_state := next, pt_index := i + 1\<rparr>)
            else if ucast (i + 1) \<ge> targsize then (False, st)
            else (True, \<lparr>pt_state = next, pt_index = i + 1,
                         pt_mem = m(at := m at OR hi, at1 := lo)\<rparr>))
      in if pt_state st = 0 then
           (if target = 0 then (True, st\<lparr>pt_state := 1\<rparr>)
            else if ucast i \<ge> targsize then (False, st)
            else (True, st\<lparr>pt_state := 1, pt_mem := m(at := push_bit 2 pos)\<rparr>))
         else if pt_state st = 1 then two (drop_bit 4 pos) (push_bit 4 (pos AND 0x0F)) 2
         else if pt_state st = 2 then two (drop_bit 2 pos) (push_bit 6 (pos AND 0x03)) 3
         else (if target = 0 then (True, st\<lparr>pt_state := 0, pt_index := i + 1\<rparr>)
               else if ucast i \<ge> targsize then (False, st)
               else (True, \<lparr>pt_state = 0, pt_index = i + 1, pt_mem = m(at := m at OR pos)\<rparr>)))"

text \<open>The main loop; it stops in front of a padding character or of the terminator.\<close>

primrec pton_loop ::
  "addr \<Rightarrow> u64 \<Rightarrow> byte list \<Rightarrow> pton_state \<Rightarrow> bool \<times> byte list \<times> pton_state" where
  "pton_loop target targsize [] st = (True, [], st)"
| "pton_loop target targsize (ch # src) st =
     (if ch = 0 then (True, ch # src, st)
      else if c_isspace ch then pton_loop target targsize src st
      else if ch = Pad64 then (True, ch # src, st)
      else (case base64_pos ch of
          None \<Rightarrow> (False, src, st)
        | Some p \<Rightarrow>
            (case pton_step target targsize (of_nat p) st of
               (False, st1) \<Rightarrow> (False, src, st1)
             | (True, st1) \<Rightarrow> pton_loop target targsize src st1)))"

text \<open>\<^verbatim>\<open>*src++\<close> on what is left of the string.\<close>

definition next_char :: "byte list \<Rightarrow> byte \<times> byte list" where
  "next_char src = (case src of [] \<Rightarrow> (0, []) | ch # cs \<Rightarrow> (ch, cs))"

text \<open>The first \<^verbatim>\<open>for\<close> loop: to the first character that is not white space.\<close>

primrec skip_spaces :: "byte list \<Rightarrow> byte list" where
  "skip_spaces [] = []"
| "skip_spaces (ch # src) = (if ch \<noteq> 0 \<and> c_isspace ch then skip_spaces src else ch # src)"

text \<open>The second \<^verbatim>\<open>for\<close> loop: nothing but white space up to the terminator.\<close>

primrec only_spaces :: "byte list \<Rightarrow> bool" where
  "only_spaces [] = True"
| "only_spaces (ch # src) = (if ch = 0 then True else c_isspace ch \<and> only_spaces src)"

definition pton_tail :: "addr \<Rightarrow> byte list \<Rightarrow> pton_state \<Rightarrow> bool" where
  "pton_tail target src st =
     (case next_char src of
        (ch, src1) \<Rightarrow>
          if ch = Pad64 then
            (if pt_state st = 0 \<or> pt_state st = 1 then False
             else
               (let after = (if pt_state st = 2
                             then (case next_char (skip_spaces src1) of
                                     (c, src2) \<Rightarrow> if c = Pad64 then Some src2 else None)
                             else Some src1)
                in case after of
                     None \<Rightarrow> False
                   | Some src2 \<Rightarrow>
                       only_spaces src2 \<and>
                       \<not> (target \<noteq> 0 \<and> pt_mem st (target + ucast (pt_index st)) \<noteq> 0)))
          else pt_state st = 0)"

definition f_b64_pton :: "byte list \<Rightarrow> addr \<Rightarrow> u64 \<Rightarrow> mem \<Rightarrow> int \<times> mem" where
  "f_b64_pton src target targsize m =
     (case pton_loop target targsize src \<lparr>pt_state = 0, pt_index = 0, pt_mem = m\<rparr> of
        (False, _, st) \<Rightarrow> (- 1, pt_mem st)
      | (True, src1, st) \<Rightarrow>
          if pton_tail target src1 st then (sint (pt_index st), pt_mem st)
          else (- 1, pt_mem st))"

end
