(* ===== verification/FBase64_Correct.thy ===== *)
theory FBase64_Correct
  imports FBase64
begin

text \<open>
  Correctness of the Base64 codec: the encoder computes the encoding of RFC 1521, the decoder
  accepts exactly the encodings, with white space anywhere, and returns what was encoded;
  neither writes outside the target it is given.
\<close>

unbundle bit_operations_syntax

subsection \<open>The reference encoding\<close>

text \<open>
  RFC 1521 as the comment in the source quotes it: 24-bit groups, read as four digits to the
  base 64, a short group filled up with zero bits and its missing digits with padding.
\<close>

definition sextet :: "nat \<Rightarrow> byte" where
  "sextet n = Base64 ! (n mod 64)"

definition group24 :: "byte \<Rightarrow> byte \<Rightarrow> byte \<Rightarrow> nat" where
  "group24 a b c = (unat a * 256 + unat b) * 256 + unat c"

fun b64 :: "byte list \<Rightarrow> byte list" where
  "b64 (a # b # c # bs) =
     map (\<lambda>i. sextet (group24 a b c div 64 ^ (3 - i))) [0..<4] @ b64 bs"
| "b64 [] = []"
| "b64 [a] = map (\<lambda>i. sextet (group24 a 0 0 div 64 ^ (3 - i))) [0..<2] @ [Pad64, Pad64]"
| "b64 [a, b] = map (\<lambda>i. sextet (group24 a b 0 div 64 ^ (3 - i))) [0..<3] @ [Pad64]"

lemma length_b64: "length (b64 bs) = 4 * ((length bs + 2) div 3)"
  by (induction bs rule: b64.induct) (simp_all, arith?)

lemma unat_and_low:
  "unat ((b :: byte) AND 0x03) = unat b mod 4" "unat (b AND 0x0F) = unat b mod 16"
  "unat (b AND 0x3F) = unat b mod 64"
proof -
  have m: "(0x03 :: byte) = mask 2" "(0x0F :: byte) = mask 4" "(0x3F :: byte) = mask 6"
    by (simp_all add: mask_eq_exp_minus_1)
  have "unat (b AND mask k) = unat b mod 2 ^ k" for k
  proof -
    have "unat (take_bit k b) = take_bit k (unat b)" by (rule unsigned_take_bit_eq)
    then show ?thesis by (simp only: take_bit_eq_mask [symmetric]) (simp only: take_bit_eq_mod)
  qed
  then show "unat (b AND 0x03) = unat b mod 4" "unat (b AND 0x0F) = unat b mod 16"
    "unat (b AND 0x3F) = unat b mod 64"
    unfolding m by simp_all
qed

lemma unat_shift_right: "unat (drop_bit k (b :: byte)) = unat b div 2 ^ k"
proof -
  have "unat (drop_bit k b) = drop_bit k (unat b)" by (rule unat_drop_bit_eq)
  then show ?thesis by (simp only:) (simp only: drop_bit_eq_div)
qed

lemma unat_shift_left: "unat b * 2 ^ k < 256 \<Longrightarrow> unat (push_bit k (b :: byte)) = unat b * 2 ^ k"
proof -
  assume less: "unat b * 2 ^ k < 256"
  have "unat (push_bit k b) = take_bit 8 (push_bit k (unat b))"
    using unsigned_push_bit_eq [of k b, where 'a = nat] by simp
  then show ?thesis using less by (simp only:) (simp add: take_bit_eq_mod push_bit_eq_mult)
qed

lemma div_mod_of_sum: "n = k * q + r \<Longrightarrow> r < k \<Longrightarrow> n div k = q \<and> n mod k = (r::nat)"
  by simp

lemma unat_output_of:
  "map unat (output_of a b c) =
    [unat a div 4, (unat a mod 4) * 16 + unat b div 16, (unat b mod 16) * 4 + unat c div 64,
     unat c mod 64]"
proof -
  have less: "unat a < 256" "unat b < 256" "unat c < 256" by (rule byte_lt_256)+
  have 1: "unat (push_bit 4 (a AND 0x03)) = (unat a mod 4) * 16"
    by (subst unat_shift_left) (simp_all only: unat_and_low, simp_all)
  have 2: "unat (push_bit 2 (b AND 0x0F)) = (unat b mod 16) * 4"
    by (subst unat_shift_left) (simp_all only: unat_and_low, simp_all)
  have 3: "unat (push_bit 4 (a AND 0x03) + drop_bit 4 b) = (unat a mod 4) * 16 + unat b div 16"
    using less by (subst unat_add_small; simp only: 1 unat_shift_right) simp_all
  have 4: "unat (push_bit 2 (b AND 0x0F) + drop_bit 6 c) = (unat b mod 16) * 4 + unat c div 64"
    using less by (subst unat_add_small; simp only: 2 unat_shift_right) simp_all
  show ?thesis
    unfolding output_of_def list.map 3 4 unat_shift_right unat_and_low by simp
qed

lemma output_of_group:
  "map unat (output_of a b c) = map (\<lambda>i. group24 a b c div 64 ^ (3 - i) mod 64) [0..<4]"
proof -
  have less: "unat a < 256" "unat b < 256" "unat c < 256" by (rule byte_lt_256)+
  define qa ra qb rb qc rc where q: "qa = unat a div 4" "ra = unat a mod 4" "qb = unat b div 16"
    "rb = unat b mod 16" "qc = unat c div 64" "rc = unat c mod 64"
  have parts: "unat a = 4 * qa + ra" "unat b = 16 * qb + rb" "unat c = 64 * qc + rc"
    and small: "ra < 4" "rb < 16" "rc < 64" "qb < 16" "qc < 4" "qa < 64" using less unfolding q by auto
  have d: "group24 a b c div 262144 = qa"
    unfolding group24_def by (rule conjunct1 [OF div_mod_of_sum [where r = "65536 * ra + 256 * unat b + unat c"]])
      (use parts small less in simp)+
  have d2: "group24 a b c div 4096 = unat a * 16 + qb"
    unfolding group24_def by (rule conjunct1 [OF div_mod_of_sum [where r = "256 * rb + unat c"]])
      (use parts small less in simp)+
  have d3: "group24 a b c div 64 = (unat a * 256 + unat b) * 4 + qc \<and> group24 a b c mod 64 = rc"
    unfolding group24_def by (rule div_mod_of_sum) (use parts small less in simp)+
  have m: "(unat a * 16 + qb) mod 64 = ra * 16 + qb"
    by (rule conjunct2 [OF div_mod_of_sum [where q = qa]]) (use parts small in simp)+
  have m2: "((unat a * 256 + unat b) * 4 + qc) mod 64 = rb * 4 + qc"
    by (rule conjunct2 [OF div_mod_of_sum [where q = "unat a * 16 + qb"]])
      (use parts small in simp)+
  have g: "group24 a b c div 262144 mod 64 = unat a div 4"
    "group24 a b c div 4096 mod 64 = (unat a mod 4) * 16 + unat b div 16"
    "group24 a b c div 64 mod 64 = (unat b mod 16) * 4 + unat c div 64"
    "group24 a b c mod 64 = unat c mod 64"
    unfolding d d2 m conjunct1 [OF d3] m2 conjunct2 [OF d3] unfolding q using less by simp_all
  have upt: "[0..<4] = [0, 1, 2, 3 :: nat]" by (simp add: upt_rec)
  have e: "64 ^ (3 - 0) = (262144 :: nat)" "64 ^ (3 - 1) = (4096 :: nat)" "64 ^ (3 - 2) = (64 :: nat)"
    "64 ^ (3 - 3) = (1 :: nat)" by simp_all
  show ?thesis
    unfolding unat_output_of upt list.map by (simp only: e g div_by_1)
qed


lemma encoded_group:
  "map (\<lambda>o_i. Base64 ! unat o_i) (output_of a b c) =
   map (\<lambda>i. sextet (group24 a b c div 64 ^ (3 - i))) [0..<4]"
proof -
  have "map (\<lambda>o_i. Base64 ! unat o_i) (output_of a b c) =
      map ((!) Base64) (map unat (output_of a b c))" by (simp add: comp_def)
  then show ?thesis unfolding output_of_group by (simp add: comp_def sextet_def)
qed

lemma length_output_of [simp]: "length (output_of a b c) = 4"
  by (simp add: output_of_def)

lemma encoded_nth:
  "i < 4 \<Longrightarrow> Base64 ! unat (output_of a b c ! i) = sextet (group24 a b c div 64 ^ (3 - i))"
  using arg_cong [OF encoded_group [of a b c], of "\<lambda>xs. xs ! i"] by simp

lemma store_bytes_append:
  "store_bytes m a (xs @ ys) = store_bytes (store_bytes m a xs) (a + of_nat (length xs)) ys"
  by (induction xs arbitrary: m a) (simp_all add: algebra_simps)

subsection \<open>The encoder computes it\<close>

definition ntop_body :: "byte list \<Rightarrow> addr \<Rightarrow> u64 \<Rightarrow> u64 \<Rightarrow> mem \<Rightarrow> u64 option \<times> mem" where
  "ntop_body src target targsize dl m =
     (case ntop_loop src target targsize dl m of
        (None, m1) \<Rightarrow> (None, m1)
      | (Some (left, dl1), m1) \<Rightarrow> ntop_pad left target targsize dl1 m1)"

lemma ntop_body_group:
  "ntop_body (a # b # c # src) target targsize dl m =
     (if dl + 4 > targsize then (None, m)
      else ntop_body src target targsize (dl + 4)
        (store_bytes m (target + dl) (map (\<lambda>i. sextet (group24 a b c div 64 ^ (3 - i))) [0..<4])))"
  unfolding ntop_body_def ntop_loop.simps encoded_group by simp

lemma ntop_body_short:
  "ntop_body [] target targsize dl m = (Some dl, m)"
  "ntop_body [a] target targsize dl m =
     (if dl + 4 > targsize then (None, m)
      else (Some (dl + 4), store_bytes m (target + dl) (b64 [a])))"
  "ntop_body [a, b] target targsize dl m =
     (if dl + 4 > targsize then (None, m)
      else (Some (dl + 4), store_bytes m (target + dl) (b64 [a, b])))"
  by (simp_all add: ntop_body_def ntop_pad_def Let_def encoded_nth numeral_2_eq_2 numeral_3_eq_3 upt_rec)

lemma unat_add_4: "unat (dl :: u64) + 4 < 2 ^ 64 \<Longrightarrow> unat (dl + 4) = unat dl + 4"
  using unat_add_small [of dl 4] by simp

lemma ntop_body_fits:
  "unat dl + length (b64 bs) \<le> unat targsize \<Longrightarrow> unat targsize + 4 < 2 ^ 64 \<Longrightarrow>
   ntop_body bs target targsize dl m =
     (Some (dl + of_nat (length (b64 bs))), store_bytes m (target + dl) (b64 bs))"
proof (induction bs arbitrary: dl m rule: b64.induct)
  case (1 a b c bs)
  have dl: "unat (dl + 4) = unat dl + 4" using 1(2,3) by (intro unat_add_4) simp
  then have "\<not> targsize < dl + 4" using 1(2) by (simp add: word_less_nat_alt)
  moreover have "ntop_body bs target targsize (dl + 4) m1 = (Some (dl + 4 + of_nat (length (b64 bs))),
     store_bytes m1 (target + (dl + 4)) (b64 bs))" for m1
    by (rule "1.IH") (use dl 1(2,3) in simp_all)
  ultimately show ?case
    by (simp only: ntop_body_group if_False b64.simps store_bytes_append)
      (simp add: algebra_simps)
qed (auto simp: ntop_body_short word_less_nat_alt unat_add_4)

lemma ntop_body_full:
  "unat targsize < unat dl + length (b64 bs) \<Longrightarrow> unat dl \<le> unat targsize \<Longrightarrow>
   unat targsize + 4 < 2 ^ 64 \<Longrightarrow> fst (ntop_body bs target targsize dl m) = None"
proof (induction bs arbitrary: dl m rule: b64.induct)
  case (1 a b c bs)
  have dl: "unat (dl + 4) = unat dl + 4" using 1(3,4) by (intro unat_add_4) simp
  show ?case
    using "1.IH" [of "dl + 4"] 1(2-) dl by (simp add: ntop_body_group word_less_nat_alt)
qed (auto simp: ntop_body_short word_less_nat_alt unat_add_4)

lemma ntop_body_outside:
  "x \<notin> region target (unat targsize) \<Longrightarrow> unat dl \<le> unat targsize \<Longrightarrow> unat targsize + 4 < 2 ^ 64 \<Longrightarrow>
   snd (ntop_body bs target targsize dl m) x = m x"
proof -
  assume x: "x \<notin> region target (unat targsize)" and size: "unat targsize + 4 < 2 ^ 64"
  have store: "store_bytes m (target + dl) xs x = m x"
    if "unat dl + length xs \<le> unat targsize" for dl m xs
  proof (rule store_bytes_outside)
    show "x \<notin> region (target + dl) (length xs)"
    proof
      assume "x \<in> region (target + dl) (length xs)"
      then have l: "unat (x - target - dl) < length xs" by (simp add: region_def algebra_simps)
      have "unat (x - target) \<le> unat (x - target - dl) + unat dl"
        by (metis diff_add_cancel mod_less_eq_dividend unat_word_ariths(1))
      then show False using x l that by (simp add: region_def)
    qed
  qed
  show "unat dl \<le> unat targsize \<Longrightarrow> snd (ntop_body bs target targsize dl m) x = m x"
  proof (induction bs arbitrary: dl m rule: b64.induct)
    case (1 a b c bs)
    have dl: "unat (dl + 4) = unat dl + 4" using 1(2) size by (intro unat_add_4) simp
    show ?case using "1.IH" [of "dl + 4"] dl by (simp add: ntop_body_group word_less_nat_alt store)
  qed (use size in \<open>auto simp: ntop_body_short word_less_nat_alt unat_add_4 store length_b64 simp del: b64.simps store_bytes.simps\<close>)
qed

subsection \<open>Characters\<close>

lemma length_Base64 [simp]: "length Base64 = 64"
  by (simp add: Base64_def)

lemma base64_table: "distinct Base64 \<and> list_all (\<lambda>c. c \<noteq> 0 \<and> c \<noteq> Pad64 \<and> \<not> c_isspace c) Base64"
  by code_simp

lemma base64_char: "i < 64 \<Longrightarrow> Base64 ! i \<noteq> 0 \<and> Base64 ! i \<noteq> Pad64 \<and> \<not> c_isspace (Base64 ! i)"
  using base64_table by (simp add: list_all_length)

lemma pad_char: "Pad64 \<noteq> 0" "\<not> c_isspace Pad64" "\<not> c_isspace 0"
  by code_simp+

lemma base64_pos_Some: "base64_pos c = Some i \<longleftrightarrow> i < 64 \<and> Base64 ! i = c"
proof -
  have "i < 64 \<Longrightarrow> j < i \<Longrightarrow> Base64 ! j \<noteq> Base64 ! i" for i j
    using base64_table nth_eq_iff_index_eq [of Base64 j i] by simp
  then show ?thesis by (auto simp: base64_pos_def find_Some_iff)
qed

subsection \<open>The decoder without white space\<close>

primrec pton_body :: "addr \<Rightarrow> u64 \<Rightarrow> byte list \<Rightarrow> pton_state \<Rightarrow> bool \<times> pton_state" where
  "pton_body target targsize [] st = (True, st)"
| "pton_body target targsize (c # cs) st =
     (case base64_pos c of
        None \<Rightarrow> (False, st)
      | Some p \<Rightarrow>
          (case pton_step target targsize (of_nat p) st of
             (False, st1) \<Rightarrow> (False, st1)
           | (True, st1) \<Rightarrow> pton_body target targsize cs st1))"

abbreviation (input) "visible \<equiv> filter (\<lambda>c. \<not> c_isspace c)"
abbreviation (input) "before_stop \<equiv> takeWhile (\<lambda>c. c \<noteq> 0 \<and> c \<noteq> Pad64)"
abbreviation (input) "from_stop \<equiv> dropWhile (\<lambda>c. c \<noteq> 0 \<and> c \<noteq> Pad64)"

lemma pton_loop_body:
  "(fst (pton_loop target targsize s st), snd (snd (pton_loop target targsize s st))) =
     pton_body target targsize (visible (before_stop s)) st \<and>
   (fst (pton_loop target targsize s st) \<longrightarrow>
     fst (snd (pton_loop target targsize s st)) = from_stop s)"
proof (induction s arbitrary: st)
  case (Cons ch s)
  show ?case
  proof (cases "ch = 0 \<or> c_isspace ch \<or> ch = Pad64")
    case True
    then show ?thesis using Cons.IH [of st] pad_char by auto
  next
    case False
    then show ?thesis
      using Cons.IH
      by (cases "base64_pos ch") (auto split: prod.splits bool.splits)
  qed
qed simp

lemma takeWhile_filter:
  "(\<And>x. \<not> Q x \<Longrightarrow> P x) \<Longrightarrow> filter Q (takeWhile P xs) = takeWhile P (filter Q xs) \<and>
    filter Q (dropWhile P xs) = dropWhile P (filter Q xs)"
  by (induction xs) auto

lemma visible_before_stop:
  "visible (before_stop s) = before_stop (visible s)" "visible (from_stop s) = from_stop (visible s)"
  using takeWhile_filter [of "\<lambda>c. \<not> c_isspace c" "\<lambda>c. c \<noteq> 0 \<and> c \<noteq> Pad64" s] pad_char by auto

lemma only_spaces_visible: "0 \<notin> set r \<Longrightarrow> only_spaces r \<longleftrightarrow> visible r = []"
  by (induction r) auto

lemma skip_spaces_visible:
  "0 \<notin> set r \<Longrightarrow> skip_spaces r = dropWhile c_isspace r"
  by (induction r) auto

lemma visible_drop: "visible r = (case dropWhile c_isspace r of [] \<Rightarrow> [] | c # cs \<Rightarrow> c # visible cs)"
  by (induction r) auto

lemma pton_tail_visible:
  assumes "0 \<notin> set r" "r = [] \<or> hd r = Pad64"
  shows "pton_tail target r st \<longleftrightarrow>
    (if pt_state st = 0 \<or> pt_state st = 1 then r = [] \<and> pt_state st = 0
     else visible r = (if pt_state st = 2 then [Pad64, Pad64] else [Pad64]) \<and>
       (target = 0 \<or> pt_mem st (target + ucast (pt_index st)) = 0))"
proof (cases r)
  case Nil
  then show ?thesis using pad_char by (auto simp: pton_tail_def next_char_def)
next
  case (Cons c cs)
  have c: "c = Pad64" and cs: "0 \<notin> set cs" using assms Cons by auto
  show ?thesis
  proof (cases "dropWhile c_isspace cs")
    case Nil
    have "visible cs = []" "skip_spaces cs = []"
      using Nil skip_spaces_visible [OF cs] visible_drop [of cs] by simp_all
    then show ?thesis
      using Cons c cs pad_char
      by (auto simp: pton_tail_def next_char_def Let_def only_spaces_visible split: if_splits)
  next
    case (Cons d ds)
    then have "0 \<notin> set ds" using cs set_dropWhileD [of _ c_isspace cs] by auto
    then show ?thesis
      using \<open>r = c # cs\<close> c cs pad_char Cons
      by (auto simp: pton_tail_def next_char_def Let_def only_spaces_visible skip_spaces_visible
          visible_drop [of cs] split: if_splits)
  qed
qed


subsection \<open>Four characters at a time\<close>

text \<open>The three bytes of four digits, and the inverse relation to \<^const>\<open>output_of\<close>.\<close>

definition bytes_of :: "byte \<Rightarrow> byte \<Rightarrow> byte \<Rightarrow> byte \<Rightarrow> byte list" where
  "bytes_of p0 p1 p2 p3 =
     [push_bit 2 p0 OR drop_bit 4 p1, push_bit 4 (p1 AND 0x0F) OR drop_bit 2 p2,
      push_bit 6 (p2 AND 0x03) OR p3]"

lemma unat_or_shift:
  assumes "unat (x :: byte) * 2 ^ k + unat y < 256" "unat y < 2 ^ k"
  shows "unat (push_bit k x OR y) = unat x * 2 ^ k + unat y"
proof -
  have "take_bit k y = y" using assms(2) by (rule take_bit_idI)
  then have "push_bit k x OR y = y + push_bit k x"
    using or_push_bit_eq_add [of k y x] by (simp add: or.commute)
  moreover have "unat (push_bit k x) = unat x * 2 ^ k"
    using assms(1) by (intro unat_shift_left) simp
  ultimately show ?thesis
    using assms(1) by (simp only:) (subst unat_add_small; simp)
qed

lemma unat_bytes_of:
  assumes "unat p0 < 64" "unat p1 < 64" "unat p2 < 64" "unat p3 < 64"
  shows "map unat (bytes_of p0 p1 p2 p3) =
    [unat p0 * 4 + unat p1 div 16, (unat p1 mod 16) * 16 + unat p2 div 4, (unat p2 mod 4) * 64 + unat p3]"
proof -
  have "unat (push_bit 2 p0 OR drop_bit 4 p1) = unat p0 * 2 ^ 2 + unat (drop_bit 4 p1)"
    using assms by (intro unat_or_shift; simp only: unat_shift_right) simp_all
  moreover have "unat (push_bit 4 (p1 AND 0x0F) OR drop_bit 2 p2) =
      unat (p1 AND 0x0F) * 2 ^ 4 + unat (drop_bit 2 p2)"
    using assms by (intro unat_or_shift; simp only: unat_shift_right unat_and_low) simp_all
  moreover have "unat (push_bit 6 (p2 AND 0x03) OR p3) = unat (p2 AND 0x03) * 2 ^ 6 + unat p3"
    using assms by (intro unat_or_shift; simp only: unat_shift_right unat_and_low) simp_all
  ultimately show ?thesis
    unfolding bytes_of_def list.map by (simp only: unat_shift_right unat_and_low) simp
qed

lemma map_unat_eq: "map unat xs = map unat ys \<Longrightarrow> xs = (ys :: byte list)"
  by (rule map_injective) (auto simp: inj_def word_unat_eq_iff)

lemma bytes_of_output:
  assumes "output_of a b c = [p0, p1, p2, p3]"
  shows "bytes_of p0 p1 p2 p3 = [a, b, c]"
proof (rule map_unat_eq)
  have less: "unat a < 256" "unat b < 256" "unat c < 256" by (rule byte_lt_256)+
  have p: "unat p0 = unat a div 4" "unat p1 = (unat a mod 4) * 16 + unat b div 16"
    "unat p2 = (unat b mod 16) * 4 + unat c div 64" "unat p3 = unat c mod 64"
    using unat_output_of [of a b c] assms by simp_all
  have "unat p0 < 64" "unat p1 < 64" "unat p2 < 64" "unat p3 < 64" using p less by simp_all
  moreover have "((unat a mod 4) * 16 + unat b div 16) div 16 = unat a mod 4"
    "((unat a mod 4) * 16 + unat b div 16) mod 16 = unat b div 16"
    "((unat b mod 16) * 4 + unat c div 64) div 4 = unat b mod 16"
    "((unat b mod 16) * 4 + unat c div 64) mod 4 = unat c div 64"
    using less by simp_all
  ultimately show "map unat (bytes_of p0 p1 p2 p3) = map unat [a, b, c]"
    by (simp add: unat_bytes_of p)
qed

lemma output_of_bytes:
  assumes "unat p0 < 64" "unat p1 < 64" "unat p2 < 64" "unat p3 < 64"
    and "bytes_of p0 p1 p2 p3 = [a, b, c]"
  shows "output_of a b c = [p0, p1, p2, p3]"
proof (rule map_unat_eq)
  have "unat a = unat p0 * 4 + unat p1 div 16" "unat b = (unat p1 mod 16) * 16 + unat p2 div 4"
    "unat c = (unat p2 mod 4) * 64 + unat p3"
    using unat_bytes_of [OF assms(1-4)] assms(5) by simp_all
  then show "map unat (output_of a b c) = map unat [p0, p1, p2, p3]"
    using assms(1-4) by (simp add: unat_output_of)
qed

subsection \<open>The decoder on groups\<close>

text \<open>The characters of the encoding without the padding.\<close>

fun core :: "byte list \<Rightarrow> byte list" where
  "core (a # b # c # bs) = map (\<lambda>o_i. Base64 ! unat o_i) (output_of a b c) @ core bs"
| "core [] = []"
| "core [a] = map (\<lambda>o_i. Base64 ! unat o_i) (take 2 (output_of a 0 0))"
| "core [a, b] = map (\<lambda>o_i. Base64 ! unat o_i) (take 3 (output_of a b 0))"

lemma b64_core: "b64 bs = core bs @ replicate ((3 - length bs mod 3) mod 3) Pad64"
proof (induction bs rule: b64.induct)
  case (1 a b c bs)
  then show ?case by (simp only: b64.simps core.simps encoded_group) simp
next
  case (3 a)
  have upt2: "[0..<2] = [0, Suc 0]" by (simp add: upt_rec)
  have "take 2 (map (\<lambda>o_i. Base64 ! unat o_i) (output_of a 0 0)) =
      map (\<lambda>i. sextet (group24 a 0 0 div 64 ^ (3 - i))) [0..<2]"
    unfolding encoded_group by (simp add: take_map upt2)
  then show ?case by (simp only: b64.simps core.simps take_map) (simp add: upt2 numeral_2_eq_2)
next
  case (4 a b)
  have "take 3 (map (\<lambda>o_i. Base64 ! unat o_i) (output_of a b 0)) =
      map (\<lambda>i. sextet (group24 a b 0 div 64 ^ (3 - i))) [0..<3]"
    unfolding encoded_group by (simp add: take_map)
  then show ?case by (simp only: b64.simps core.simps take_map) simp
qed simp

lemma output_of_less: "x \<in> set (output_of a b c) \<Longrightarrow> unat x < 64"
proof -
  assume "x \<in> set (output_of a b c)"
  then have "unat x \<in> set (map unat (output_of a b c))" by simp
  then show ?thesis unfolding output_of_group by auto
qed

lemma core_chars: "c \<in> set (core bs) \<Longrightarrow> c \<noteq> 0 \<and> c \<noteq> Pad64 \<and> \<not> c_isspace c"
  by (induction bs rule: core.induct)
    (auto dest!: in_set_takeD output_of_less intro: base64_char simp: base64_char)

lemma before_stop_b64: "before_stop (b64 bs) = core bs"
  and from_stop_b64: "from_stop (b64 bs) = replicate ((3 - length bs mod 3) mod 3) Pad64"
proof -
  have "takeWhile (\<lambda>c. c \<noteq> 0 \<and> c \<noteq> Pad64) (core bs @ replicate k Pad64) = core bs \<and>
    dropWhile (\<lambda>c. c \<noteq> 0 \<and> c \<noteq> Pad64) (core bs @ replicate k Pad64) = replicate k Pad64" for k
    using core_chars [of _ bs] by (cases k) (auto simp: takeWhile_append dropWhile_append)
  then show "before_stop (b64 bs) = core bs"
    "from_stop (b64 bs) = replicate ((3 - length bs mod 3) mod 3) Pad64" by (simp_all add: b64_core)
qed

lemma base64_pos_of: "unat p < 64 \<Longrightarrow> base64_pos (Base64 ! unat p) = Some (unat (p :: byte))"
  by (simp add: base64_pos_Some)

lemma ucast_Suc: "unat i + 1 < 2 ^ 32 \<Longrightarrow> ucast (i + 1 :: u32) = (ucast i + 1 :: u64)"
  by (rule word_unat_eq_iff [THEN iffD2]) (simp add: unat_ucast_up unat_add_small)

lemma unat_Suc32: "unat i + 1 < 2 ^ 32 \<Longrightarrow> unat (i + 1 :: u32) = unat i + 1"
  by (simp add: unat_add_small)

text \<open>One, two and three steps from state 0, and the step that completes a group.\<close>

lemma pton_step_0:
  assumes "target \<noteq> 0"
  shows "pton_step target ts p \<lparr>pt_state = 0, pt_index = i, pt_mem = m\<rparr> =
    (if unat i < unat ts
     then (True, \<lparr>pt_state = 1, pt_index = i, pt_mem = m(target + ucast i := push_bit 2 p)\<rparr>)
     else (False, \<lparr>pt_state = 0, pt_index = i, pt_mem = m\<rparr>))"
  using assms by (simp add: pton_step_def Let_def word_le_nat_alt unat_ucast_up)

lemma pton_step_1:
  assumes "target \<noteq> 0" "unat i + 1 < 2 ^ 32"
  shows "pton_step target ts p \<lparr>pt_state = 1, pt_index = i, pt_mem = m\<rparr> =
    (if unat i + 1 < unat ts
     then (True, \<lparr>pt_state = 2, pt_index = i + 1,
        pt_mem = m(target + ucast i := m (target + ucast i) OR drop_bit 4 p,
                   target + ucast i + 1 := push_bit 4 (p AND 0x0F))\<rparr>)
     else (False, \<lparr>pt_state = 1, pt_index = i, pt_mem = m\<rparr>))"
  using assms(1) unat_Suc32 [OF assms(2)]
  by (simp add: pton_step_def Let_def word_le_nat_alt unat_ucast_up ucast_Suc [OF assms(2)] add.assoc)

lemma pton_step_2:
  assumes "target \<noteq> 0" "unat i + 1 < 2 ^ 32"
  shows "pton_step target ts p \<lparr>pt_state = 2, pt_index = i, pt_mem = m\<rparr> =
    (if unat i + 1 < unat ts
     then (True, \<lparr>pt_state = 3, pt_index = i + 1,
        pt_mem = m(target + ucast i := m (target + ucast i) OR drop_bit 2 p,
                   target + ucast i + 1 := push_bit 6 (p AND 0x03))\<rparr>)
     else (False, \<lparr>pt_state = 2, pt_index = i, pt_mem = m\<rparr>))"
  using assms(1) unat_Suc32 [OF assms(2)]
  by (simp add: pton_step_def Let_def word_le_nat_alt unat_ucast_up ucast_Suc [OF assms(2)] add.assoc)

lemma pton_step_3:
  assumes "target \<noteq> 0"
  shows "pton_step target ts p \<lparr>pt_state = 3, pt_index = i, pt_mem = m\<rparr> =
    (if unat i < unat ts
     then (True, \<lparr>pt_state = 0, pt_index = i + 1,
        pt_mem = m(target + ucast i := m (target + ucast i) OR p)\<rparr>)
     else (False, \<lparr>pt_state = 3, pt_index = i, pt_mem = m\<rparr>))"
  using assms by (simp add: pton_step_def Let_def word_le_nat_alt unat_ucast_up)

text \<open>The bytes two, three and four characters leave behind, in terms of \<^const>\<open>bytes_of\<close>.\<close>

lemma pton_body_2:
  assumes "target \<noteq> 0" "unat i + 3 < 2 ^ 32" "unat i + 1 < unat ts" "base64_pos c0 = Some p0"
    "base64_pos c1 = Some p1"
  shows "pton_body target ts (c0 # c1 # cs) \<lparr>pt_state = 0, pt_index = i, pt_mem = m\<rparr> =
    pton_body target ts cs \<lparr>pt_state = 2, pt_index = i + 1,
      pt_mem = store_bytes m (target + ucast i) (take 2 (bytes_of (of_nat p0) (of_nat p1) 0 0))\<rparr>"
  using assms by (simp add: pton_step_0 pton_step_1 [unfolded One_nat_def] bytes_of_def)

lemma pton_body_3:
  assumes "target \<noteq> 0" "unat i + 3 < 2 ^ 32" "unat i + 2 < unat ts" "base64_pos c0 = Some p0"
    "base64_pos c1 = Some p1" "base64_pos c2 = Some p2"
  shows "pton_body target ts (c0 # c1 # c2 # cs) \<lparr>pt_state = 0, pt_index = i, pt_mem = m\<rparr> =
    pton_body target ts cs \<lparr>pt_state = 3, pt_index = i + 2,
      pt_mem = store_bytes m (target + ucast i) (bytes_of (of_nat p0) (of_nat p1) (of_nat p2) 0)\<rparr>"
proof -
  have i: "unat i + 1 < 2 ^ 32" "unat (i + 1) = unat i + 1" "unat (i + 1) + 1 < 2 ^ 32"
    using assms(2) unat_Suc32 [of i] by simp_all
  show ?thesis
    using assms(1,3) i
    by (subst pton_body_2 [OF assms(1,2) _ assms(4,5)])
      (simp_all add: assms(6) pton_step_2 bytes_of_def ucast_Suc add.assoc fun_upd_twist)
qed

lemma pton_body_4:
  assumes "target \<noteq> 0" "unat i + 3 < 2 ^ 32" "unat i + 2 < unat ts" "base64_pos c0 = Some p0"
    "base64_pos c1 = Some p1" "base64_pos c2 = Some p2" "base64_pos c3 = Some p3"
  shows "pton_body target ts (c0 # c1 # c2 # c3 # cs) \<lparr>pt_state = 0, pt_index = i, pt_mem = m\<rparr> =
    pton_body target ts cs \<lparr>pt_state = 0, pt_index = i + 3,
      pt_mem = store_bytes m (target + ucast i)
        (bytes_of (of_nat p0) (of_nat p1) (of_nat p2) (of_nat p3))\<rparr>"
proof -
  have i: "unat (i + 1) = unat i + 1" "unat (i + 2) = unat i + 2"
    using assms(2) unat_Suc32 [of i] unat_add_small [of i 2] by simp_all
  have u: "ucast (i + 2) = (ucast i + 2 :: u64)"
    by (rule word_unat_eq_iff [THEN iffD2]) (use assms(2) i in \<open>simp add: unat_ucast_up unat_add_small\<close>)
  show ?thesis
    using assms(1,3) i
    by (subst pton_body_3 [OF assms(1,2,3,4,5,6)])
      (simp add: assms(7) pton_step_3 bytes_of_def u add.assoc fun_upd_twist)
qed


subsection \<open>Decoding an encoding\<close>

definition tail_state :: "nat \<Rightarrow> nat" where
  "tail_state k = (if k mod 3 = 0 then 0 else if k mod 3 = 1 then 2 else 3)"

lemma pton_body_core:
  assumes "target \<noteq> 0"
  shows "unat i + length bs + 4 < 2 ^ 32 \<Longrightarrow>
    unat i + length bs + (if length bs mod 3 = 0 then 0 else 1) \<le> unat ts \<Longrightarrow>
    pton_body target ts (core bs) \<lparr>pt_state = 0, pt_index = i, pt_mem = m\<rparr> =
      (True, \<lparr>pt_state = tail_state (length bs), pt_index = i + of_nat (length bs),
        pt_mem = store_bytes m (target + ucast i) (bs @ (if length bs mod 3 = 0 then [] else [0]))\<rparr>)"
proof (induction bs arbitrary: i m rule: core.induct)
  case (1 a b c bs)
  obtain p0 p1 p2 p3 where p: "output_of a b c = [p0, p1, p2, p3]" by (simp add: output_of_def)
  have less: "unat p0 < 64" "unat p1 < 64" "unat p2 < 64" "unat p3 < 64"
    using output_of_less [of _ a b c] p by simp_all
  have i3: "unat (i + 3) = unat i + 3" using 1(2) unat_add_small [of i 3] by simp
  have u3: "ucast (i + 3) = (ucast i + 3 :: u64)"
    by (rule word_unat_eq_iff [THEN iffD2]) (use 1(2) i3 in \<open>simp add: unat_ucast_up unat_add_small\<close>)
  have "pton_body target ts (core (a # b # c # bs)) \<lparr>pt_state = 0, pt_index = i, pt_mem = m\<rparr> =
    pton_body target ts (core bs) \<lparr>pt_state = 0, pt_index = i + 3,
      pt_mem = store_bytes m (target + ucast i) [a, b, c]\<rparr>"
    using pton_body_4 [OF assms, of i ts "Base64 ! unat p0" "unat p0" "Base64 ! unat p1" "unat p1"
        "Base64 ! unat p2" "unat p2" "Base64 ! unat p3" "unat p3" "core bs" m] 1(2,3) less
    by (simp only: core.simps p list.map append_Cons append_Nil)
      (simp add: base64_pos_of bytes_of_output [OF p] split: if_splits)
  also have "\<dots> = (True, \<lparr>pt_state = tail_state (length bs), pt_index = i + 3 + of_nat (length bs),
        pt_mem = store_bytes (store_bytes m (target + ucast i) [a, b, c]) (target + ucast (i + 3))
          (bs @ (if length bs mod 3 = 0 then [] else [0]))\<rparr>)"
    by (rule "1.IH") (use 1(2,3) i3 in \<open>auto split: if_splits\<close>)
  moreover have "length bs mod 3 = 0 \<or> length bs mod 3 = Suc 0 \<or> length bs mod 3 = 2" by presburger
  ultimately show ?case
    by (simp add: tail_state_def u3 algebra_simps mod_Suc del: core.simps) blast
next
  case (3 a)
  obtain p0 p1 p2 p3 where p: "output_of a 0 0 = [p0, p1, p2, p3]" by (simp add: output_of_def)
  have z: "p2 = 0" "p3 = 0" using p by (simp_all add: output_of_def)
  have less: "unat p0 < 64" "unat p1 < 64" using output_of_less [of _ a 0 0] p by simp_all
  show ?case
    using pton_body_2 [OF assms, of i ts "Base64 ! unat p0" "unat p0" "Base64 ! unat p1" "unat p1" "[]" m]
      3 less bytes_of_output [OF p] z
    by (simp add: p base64_pos_of tail_state_def numeral_2_eq_2 fun_upd_def)
next
  case (4 a b)
  obtain p0 p1 p2 p3 where p: "output_of a b 0 = [p0, p1, p2, p3]" by (simp add: output_of_def)
  have z: "p3 = 0" using p by (simp add: output_of_def)
  have less: "unat p0 < 64" "unat p1 < 64" "unat p2 < 64" using output_of_less [of _ a b 0] p by simp_all
  show ?case
    using pton_body_3 [OF assms, of i ts "Base64 ! unat p0" "unat p0" "Base64 ! unat p1" "unat p1"
        "Base64 ! unat p2" "unat p2" "[]" m] 4 less bytes_of_output [OF p] z
    by (simp add: p base64_pos_of tail_state_def) (rule ext, simp)
qed (simp add: tail_state_def)

subsection \<open>What is accepted is an encoding\<close>

lemma base64_pos_less: "base64_pos c = Some p \<Longrightarrow> p < 64 \<and> unat (of_nat p :: byte) = p \<and> Base64 ! p = c"
  by (simp add: base64_pos_Some unat_of_nat_small)


text \<open>
  What a successful run over the visible characters has read: full groups, and up to three
  characters more, whose slack bits are in the last byte stored.
\<close>

lemma pton_body_sound:
  assumes "target \<noteq> 0"
  shows "unat i + length cs + 4 < 2 ^ 32 \<Longrightarrow>
    pton_body target ts cs \<lparr>pt_state = 0, pt_index = i, pt_mem = m\<rparr> = (True, st) \<Longrightarrow>
    pt_state st = 1 \<or>
    (\<exists>bs y. pt_state st = tail_state (length bs) \<and> pt_index st = i + of_nat (length bs) \<and>
       length bs \<le> length cs \<and>
       (bs = [] \<or> unat i + length bs + (if length bs mod 3 = 0 then 0 else 1) \<le> unat ts) \<and>
       pt_mem st = store_bytes m (target + ucast i) (bs @ (if length bs mod 3 = 0 then [] else [y])) \<and>
       (length bs mod 3 = 0 \<or> y = 0 \<longrightarrow> cs = core bs))"
proof (induction "length cs" arbitrary: cs i m rule: less_induct)
  case less
  note bound = less.prems(1) and run = less.prems(2)
  note fits = pton_step_0 [OF assms] pton_step_1 [OF assms, unfolded One_nat_def] pton_step_2 [OF assms]
  consider "cs = []" | c0 where "cs = [c0]" | c0 c1 where "cs = [c0, c1]"
    | c0 c1 c2 where "cs = [c0, c1, c2]" | c0 c1 c2 c3 r where "cs = c0 # c1 # c2 # c3 # r"
    by (metis neq_Nil_conv)
  then show ?case
  proof cases
    case 1
    then show ?thesis using run by (intro disjI2 exI [of _ "[]"]) (auto simp: tail_state_def)
  next
    case 2
    then show ?thesis
      using run by (auto simp: pton_step_0 [OF assms] split: option.splits if_splits)
  next
    case 3
    then obtain p0 p1 where p: "base64_pos c0 = Some p0" "base64_pos c1 = Some p1"
      using run by (auto split: option.splits prod.splits bool.splits)
    have ts: "unat i + 1 < unat ts"
      using run 3 p bound by (auto simp: fits split: if_splits)
    have st: "st = \<lparr>pt_state = 2, pt_index = i + 1,
        pt_mem = store_bytes m (target + ucast i) (take 2 (bytes_of (of_nat p0) (of_nat p1) 0 0))\<rparr>"
      using run 3 pton_body_2 [OF assms _ ts p, of "[]" m] bound by simp
    obtain x y z where b: "bytes_of (of_nat p0) (of_nat p1) 0 0 = [x, y, z]" by (simp add: bytes_of_def)
    have z: "z = 0" using b by (simp add: bytes_of_def)
    have "cs = core [x]" if "y = 0"
      using output_of_bytes [OF _ _ _ _ b] base64_pos_less [OF p(1)] base64_pos_less [OF p(2)] 3 z that
      by (simp add: numeral_2_eq_2)
    then show ?thesis
      using 3 st b ts by (intro disjI2 exI [of _ "[x]"] exI [of _ y]) (simp add: tail_state_def numeral_2_eq_2)
  next
    case 4
    then obtain p0 p1 p2 where p: "base64_pos c0 = Some p0" "base64_pos c1 = Some p1" "base64_pos c2 = Some p2"
      using run by (auto split: option.splits prod.splits bool.splits)
    have "unat (i + 1) = unat i + 1" using bound by (intro unat_Suc32) simp
    then have ts: "unat i + 2 < unat ts"
      using run 4 p bound by (auto simp: fits split: if_splits)
    have st: "st = \<lparr>pt_state = 3, pt_index = i + 2,
        pt_mem = store_bytes m (target + ucast i) (bytes_of (of_nat p0) (of_nat p1) (of_nat p2) 0)\<rparr>"
      using run 4 pton_body_3 [OF assms _ ts p, of "[]" m] bound by simp
    obtain x y z where b: "bytes_of (of_nat p0) (of_nat p1) (of_nat p2) 0 = [x, y, z]"
      by (simp add: bytes_of_def)
    have "cs = core [x, y]" if "z = 0"
      using output_of_bytes [OF _ _ _ _ b] base64_pos_less [OF p(1)] base64_pos_less [OF p(2)]
        base64_pos_less [OF p(3)] 4 that
      by (simp add: numeral_3_eq_3)
    then show ?thesis
      using 4 st b ts by (intro disjI2 exI [of _ "[x, y]"] exI [of _ z]) (simp add: tail_state_def numeral_2_eq_2)
  next
    case 5
    then obtain p0 p1 p2 p3 where p: "base64_pos c0 = Some p0" "base64_pos c1 = Some p1"
        "base64_pos c2 = Some p2" "base64_pos c3 = Some p3"
      using run by (auto split: option.splits prod.splits bool.splits)
    have i: "unat (i + 1) = unat i + 1" "unat (i + 3) = unat i + 3"
      using bound 5 unat_add_small [of i 1] unat_add_small [of i 3] by simp_all
    have u: "ucast (i + 3) = (ucast i + 3 :: u64)"
      by (rule word_unat_eq_iff [THEN iffD2]) (use bound 5 i in \<open>simp add: unat_ucast_up unat_add_small\<close>)
    have ts: "unat i + 2 < unat ts"
      using run 5 p bound i by (auto simp: fits split: if_splits)
    obtain x y z where b: "bytes_of (of_nat p0) (of_nat p1) (of_nat p2) (of_nat p3) = [x, y, z]"
      by (simp add: bytes_of_def)
    have out: "output_of x y z = [of_nat p0, of_nat p1, of_nat p2, of_nat p3]"
      by (rule output_of_bytes [OF _ _ _ _ b]) (use base64_pos_less p in auto)
    have "pton_body target ts r \<lparr>pt_state = 0, pt_index = i + 3,
        pt_mem = store_bytes m (target + ucast i) [x, y, z]\<rparr> = (True, st)"
      using run 5 pton_body_4 [OF assms _ ts p, of r m] bound b by simp
    from less.hyps [OF _ _ this] 5 bound i
    consider "pt_state st = 1" | bs w where "pt_state st = tail_state (length bs)"
      "pt_index st = i + 3 + of_nat (length bs)" "length bs \<le> length r"
      "bs = [] \<or> unat (i + 3) + length bs + (if length bs mod 3 = 0 then 0 else 1) \<le> unat ts"
      "pt_mem st = store_bytes (store_bytes m (target + ucast i) [x, y, z]) (target + ucast (i + 3))
        (bs @ (if length bs mod 3 = 0 then [] else [w]))"
      "length bs mod 3 = 0 \<or> w = 0 \<longrightarrow> r = core bs" by auto
    then show ?thesis
    proof cases
      case (2 bs w)
      have "length bs mod 3 = 0 \<or> w = 0 \<longrightarrow> cs = core (x # y # z # bs)"
        using 2(6) 5 base64_pos_less [OF p(1)] base64_pos_less [OF p(2)] base64_pos_less [OF p(3)]
          base64_pos_less [OF p(4)] by (simp add: out)
      moreover have "tail_state (length bs) = tail_state (length (x # y # z # bs))"
        by (simp add: tail_state_def)
      moreover have mod3: "length (x # y # z # bs) mod 3 = length bs mod 3" by simp
      moreover have "unat i + length (x # y # z # bs) + (if length bs mod 3 = 0 then 0 else 1) \<le> unat ts"
        using 2(4) ts i(2) by (cases bs) auto
      moreover have "i + 3 + of_nat (length bs) = i + of_nat (length (x # y # z # bs))"
        by (simp add: algebra_simps)
      moreover have "target + ucast (i + 3) = target + ucast i + of_nat (length [x, y, z])"
        by (simp add: u algebra_simps)
      ultimately show ?thesis
        using 2(1,2,3,5) 5 by (intro disjI2 exI [of _ "x # y # z # bs"] exI [of _ w])
          (simp only: store_bytes_append [symmetric], simp)
    qed simp
  qed
qed


subsection \<open>The functions as a whole\<close>

lemma f_b64_ntop_body:
  "f_b64_ntop bs target targsize m =
     (case ntop_body bs target targsize 0 m of
        (None, m1) \<Rightarrow> (- 1, m1)
      | (Some dl, m1) \<Rightarrow>
          if dl \<ge> targsize then (- 1, m1)
          else (sint (ucast dl :: u32), m1(target + dl := 0)))"
  by (simp add: f_b64_ntop_def ntop_body_def split: prod.splits option.splits)

lemma sint_small: "unat (v :: u32) < 2 ^ 31 \<Longrightarrow> sint v = int (unat v)"
proof -
  assume "unat v < 2 ^ 31"
  then have "int (unat v) < int (2 ^ 31)" by (simp only: of_nat_less_iff)
  moreover have u: "int (unat v) = uint v" by simp
  ultimately have "uint v < 2 ^ 31" by simp
  moreover have "- (2 ^ 31) \<le> uint v" by (rule order_trans [of _ 0]) simp_all
  ultimately have "signed_take_bit 31 (uint v) = uint v"
    by (intro signed_take_bit_int_eq_self) simp_all
  then show ?thesis unfolding u by (simp add: sint_uint)
qed

lemma sint_of_nat_small:
  assumes "n < 2 ^ 31"
  shows "sint (of_nat n :: u32) = int n"
proof -
  have "unat (of_nat n :: u32) = n" using assms by (intro unat_of_nat_small) simp
  then show ?thesis using sint_small [of "of_nat n"] assms by (simp only:)
qed

lemma ucast_of_nat_small: "n < 2 ^ 32 \<Longrightarrow> ucast (of_nat n :: u32) = (of_nat n :: u64)"
  by (rule word_unat_eq_iff [THEN iffD2]) (simp add: unat_ucast_up unat_of_nat_small)

lemma f_b64_pton_body:
  assumes "0 \<notin> set s" "pton_body target ts (visible (before_stop s)) \<lparr>pt_state = 0, pt_index = 0, pt_mem = m\<rparr> = (ok, st)"
  shows "f_b64_pton s target ts m =
    (if ok \<and> pton_tail target (from_stop s) st then (sint (pt_index st), pt_mem st) else (- 1, pt_mem st))"
  using pton_loop_body [of target ts s "\<lparr>pt_state = 0, pt_index = 0, pt_mem = m\<rparr>"] assms(2)
  by (cases "pton_loop target ts s \<lparr>pt_state = 0, pt_index = 0, pt_mem = m\<rparr>")
    (auto simp: f_b64_pton_def split: bool.splits)

lemma from_stop_head: "0 \<notin> set s \<Longrightarrow> from_stop s = [] \<or> hd (from_stop s) = Pad64"
  by (induction s) auto

lemma from_stop_Nil:
  assumes "0 \<notin> set s" "visible (from_stop s) = []"
  shows "from_stop s = []"
proof -
  have "r = []" if "r = [] \<or> hd r = Pad64" "visible r = []" for r :: "byte list"
    using that pad_char by (cases r) auto
  then show ?thesis using from_stop_head [OF assms(1)] assms(2) by blast
qed

lemma pads_tail_state:
  "replicate ((3 - n mod 3) mod 3) Pad64 =
    (if tail_state n = 0 then [] else if tail_state n = 2 then [Pad64, Pad64] else [Pad64])"
  "tail_state n = 0 \<longleftrightarrow> n mod 3 = 0" "tail_state n = 0 \<or> tail_state n = 2 \<or> tail_state n = 3"
proof -
  have "n mod 3 = 0 \<or> n mod 3 = 1 \<or> n mod 3 = 2" by presburger
  then show "replicate ((3 - n mod 3) mod 3) Pad64 =
    (if tail_state n = 0 then [] else if tail_state n = 2 then [Pad64, Pad64] else [Pad64])"
    by (elim disjE) (simp_all add: tail_state_def numeral_2_eq_2)
qed (simp_all add: tail_state_def)

lemma zero_free:
  assumes "visible s = b64 bs"
  shows "0 \<notin> set s"
proof
  assume "0 \<in> set s"
  then have "0 \<in> set (visible s)" using pad_char by simp
  then show False using assms core_chars [of 0 bs] pad_char(1) by (auto simp: b64_core split: if_splits)
qed

lemma pton_encoded:
  assumes "visible s = b64 bs" "target \<noteq> 0" "length bs + 4 < 2 ^ 31"
    and "length bs + (if length bs mod 3 = 0 then 0 else 1) \<le> unat ts"
  shows "f_b64_pton s target ts m =
    (int (length bs), store_bytes m target (bs @ (if length bs mod 3 = 0 then [] else [0])))"
proof -
  define st where "st = \<lparr>pt_state = tail_state (length bs), pt_index = of_nat (length bs),
    pt_mem = store_bytes m target (bs @ (if length bs mod 3 = 0 then [] else [0]))\<rparr>"
  have z: "0 \<notin> set s" by (rule zero_free [OF assms(1)])
  have "visible (before_stop s) = core bs"
    unfolding visible_before_stop assms(1) before_stop_b64 ..
  then have body: "pton_body target ts (visible (before_stop s)) \<lparr>pt_state = 0, pt_index = 0, pt_mem = m\<rparr> =
      (True, st)"
    using pton_body_core [OF assms(2), of 0 bs ts m] assms(3,4) by (simp add: st_def)
  have vis: "visible (from_stop s) = replicate ((3 - length bs mod 3) mod 3) Pad64"
    unfolding visible_before_stop assms(1) from_stop_b64 ..
  have "pt_mem st (target + ucast (pt_index st)) = 0" if "length bs mod 3 \<noteq> 0"
    using that assms(3) store_bytes_inside [of "length bs" "bs @ [0]" m target]
    by (simp add: st_def nth_append ucast_of_nat_small)
  moreover have "0 \<notin> set (from_stop s)" using z set_dropWhileD by fastforce
  moreover have "from_stop s = []" if "length bs mod 3 = 0"
    using that vis from_stop_Nil [OF z] by simp
  moreover have "pt_state st = tail_state (length bs)" by (simp add: st_def)
  ultimately have "pton_tail target (from_stop s) st"
    using vis pads_tail_state [of "length bs"] z
    by (subst pton_tail_visible [OF _ from_stop_head [OF z]]) auto
  moreover have "sint (of_nat (length bs) :: u32) = int (length bs)"
    using assms(3) by (intro sint_of_nat_small) simp
  ultimately show ?thesis
    using f_b64_pton_body [OF z body] by (simp add: st_def)
qed

lemma pton_accepts_encoded:
  assumes "0 \<notin> set s" "target \<noteq> 0" "length s + 4 < 2 ^ 31"
    and "f_b64_pton s target ts m = (r, m')" "r \<noteq> - 1"
  obtains bs where "visible s = b64 bs" "r = int (length bs)" "load_bytes m' target (length bs) = bs"
    "bs = [] \<or> length bs + (if length bs mod 3 = 0 then 0 else 1) \<le> unat ts"
proof -
  obtain ok st where body: "pton_body target ts (visible (before_stop s))
      \<lparr>pt_state = 0, pt_index = 0, pt_mem = m\<rparr> = (ok, st)" by fastforce
  have *: "ok" "pton_tail target (from_stop s) st" "r = sint (pt_index st)" "m' = pt_mem st"
    using f_b64_pton_body [OF assms(1) body] assms(4,5) by (auto split: if_splits)
  have "length (visible (before_stop s)) \<le> length s"
    using length_filter_le length_takeWhile_le le_trans by blast
  then have bound: "unat (0::u32) + length (visible (before_stop s)) + 4 < 2 ^ 32"
    using assms(3) by simp
  have rest: "0 \<notin> set (from_stop s)" using assms(1) set_dropWhileD by fastforce
  note tail = pton_tail_visible [OF rest from_stop_head [OF assms(1)], of target st]
  have "pt_state st \<noteq> 1" using *(2) tail by auto
  then obtain bs y where st: "pt_state st = tail_state (length bs)" "pt_index st = of_nat (length bs)"
    "length bs \<le> length (visible (before_stop s))"
    "bs = [] \<or> length bs + (if length bs mod 3 = 0 then 0 else 1) \<le> unat ts"
    "pt_mem st = store_bytes m target (bs @ (if length bs mod 3 = 0 then [] else [y]))"
    "length bs mod 3 = 0 \<or> y = 0 \<longrightarrow> visible (before_stop s) = core bs"
    using pton_body_sound [OF assms(2) bound body [unfolded *(1) [THEN eqTrueI]]] by auto
  have len: "length bs + 4 < 2 ^ 31"
    using st(3) \<open>length (visible (before_stop s)) \<le> length s\<close> assms(3) by simp
  have "pt_mem st (target + ucast (pt_index st)) = y" if "length bs mod 3 \<noteq> 0"
    using that len store_bytes_inside [of "length bs" "bs @ [y]" m target]
    by (simp add: st(2,5) nth_append ucast_of_nat_small)
  then have y: "length bs mod 3 = 0 \<or> y = 0"
    using *(2) tail st(1) assms(2) by (auto simp: tail_state_def split: if_splits)
  have "visible (from_stop s) = replicate ((3 - length bs mod 3) mod 3) Pad64"
    using pads_tail_state(3) [of "length bs"]
  proof (elim disjE)
    assume t: "tail_state (length bs) = 0"
    then have "from_stop s = []" using *(2) tail st(1) by (simp only: simp_thms if_True)
    then show ?thesis unfolding pads_tail_state(1) t by (simp only: simp_thms if_True filter.simps)
  qed (use *(2) tail st(1) in \<open>simp_all only: pads_tail_state(1), simp_all\<close>)
  then have "visible s = b64 bs"
  proof -
    have "visible s = visible (before_stop s @ from_stop s)" by simp
    also have "\<dots> = visible (before_stop s) @ visible (from_stop s)" by (rule filter_append)
    also have "\<dots> = b64 bs"
      using st(6) y \<open>visible (from_stop s) = _\<close> by (simp only: b64_core)
    finally show ?thesis .
  qed
  moreover have "r = int (length bs)"
    using *(3) st(2) len by (simp add: sint_of_nat_small)
  moreover have "load_bytes m' target (length bs) = bs"
    using load_store_bytes [of "bs @ (if length bs mod 3 = 0 then [] else [y])" m target] len *(4) st(5)
    by (auto simp: load_bytes_append split: if_splits)
  ultimately show thesis using that st(4) by blast
qed


subsection \<open>Properties\<close>

text \<open>C9: \<^verbatim>\<open>f_b64_ntop\<close> writes the Base64 encoding of its input and a terminating zero and
  returns the length, four characters for every three bytes begun, if the target is larger
  than that; otherwise it returns -1. It never writes outside the target.\<close>

theorem f_b64_ntop_exact:
  assumes "unat targsize + 4 < 2 ^ 64" and "length bs < 2 ^ 30"
  shows "(if 4 * ((length bs + 2) div 3) < unat targsize
      then f_b64_ntop bs target targsize m =
        (int (4 * ((length bs + 2) div 3)), store_bytes m target (b64 bs @ [0]))
      else fst (f_b64_ntop bs target targsize m) = - 1) \<and>
    (\<forall>x. x \<notin> region target (unat targsize) \<longrightarrow> snd (f_b64_ntop bs target targsize m) x = m x)"
proof -
  have len: "length (b64 bs) < 2 ^ 31" using assms(2) by (simp add: length_b64)
  then have n: "unat (of_nat (length (b64 bs)) :: u64) = length (b64 bs)"
    by (simp add: unat_of_nat_small)
  have ret: "sint (ucast (of_nat (length (b64 bs)) :: u64) :: u32) = int (length (b64 bs))"
    using len sint_of_nat_small [OF len] by (simp add: unsigned_of_nat take_bit_nat_eq_self)
  have fits: "ntop_body bs target targsize 0 m =
      (Some (of_nat (length (b64 bs))), store_bytes m target (b64 bs))"
    if "length (b64 bs) \<le> unat targsize"
    using ntop_body_fits [of 0 bs targsize target m] that assms(1) by simp
  have full: "fst (ntop_body bs target targsize 0 m) = None" if "unat targsize < length (b64 bs)"
    using ntop_body_full [of targsize 0 bs target m] that assms(1) by simp
  have "(if length (b64 bs) < unat targsize
      then f_b64_ntop bs target targsize m =
        (int (length (b64 bs)), store_bytes m target (b64 bs @ [0]))
      else fst (f_b64_ntop bs target targsize m) = - 1)"
  proof (cases "length (b64 bs) \<le> unat targsize")
    case True
    then show ?thesis
      using fits ret n by (simp add: f_b64_ntop_body word_le_nat_alt store_bytes_append)
  next
    case False
    then show ?thesis
      using full by (cases "ntop_body bs target targsize 0 m") (simp add: f_b64_ntop_body)
  qed
  moreover have "snd (f_b64_ntop bs target targsize m) x = m x"
    if x: "x \<notin> region target (unat targsize)" for x
  proof -
    obtain r m1 where r: "ntop_body bs target targsize 0 m = (r, m1)" by fastforce
    have m1: "m1 x = m x" using ntop_body_outside [OF x _ assms(1), of 0 bs m] r by simp
    have "target + dl \<noteq> x" if "dl < targsize" for dl
      using that x by (auto simp: region_def word_less_nat_alt)
    then show ?thesis using r m1 by (auto simp: f_b64_ntop_body not_le split: option.splits)
  qed
  ultimately show ?thesis by (simp add: length_b64)
qed

lemma f_b64_ntop_exact_witness:
  "f_b64_ntop [0x4D, 0x61] 0x100 5 (\<lambda>_. 0) = (4, store_bytes (\<lambda>_. 0) 0x100 (b64 [0x4D, 0x61] @ [0]))"
  using f_b64_ntop_exact [of 5 "[0x4D, 0x61]" "0x100" "\<lambda>_. 0"] by simp

text \<open>C10: Decoding inverts encoding: from the encoding of some bytes, with white space anywhere
  in it, \<^verbatim>\<open>f_b64_pton\<close> returns their number and stores exactly them, and one zero byte more
  unless they are a multiple of three.\<close>

theorem f_b64_pton_decodes:
  assumes "filter (\<lambda>c. \<not> c_isspace c) s = b64 bs" and "target \<noteq> 0" and "length bs < 2 ^ 30"
    and "length bs + (if length bs mod 3 = 0 then 0 else 1) \<le> unat targsize"
  shows "f_b64_pton s target targsize m =
    (int (length bs), store_bytes m target (bs @ (if length bs mod 3 = 0 then [] else [0])))"
  using pton_encoded [OF assms(1,2) _ assms(4)] assms(3) by simp

lemma f_b64_pton_decodes_witness:
  "f_b64_pton [0x54, 0x57, 0x20, 0x45, 0x3D, 0x0A] 0x100 3 (\<lambda>_. 7) =
     (2, store_bytes (\<lambda>_. 7) 0x100 [0x4D, 0x61, 0])"
proof -
  have "filter (\<lambda>c. \<not> c_isspace c) [0x54, 0x57, 0x20, 0x45, 0x3D, 0x0A] = b64 [0x4D, 0x61]"
    unfolding b64_core by code_simp
  from f_b64_pton_decodes [OF this, of "0x100" 3 "\<lambda>_. 7"] show ?thesis by simp
qed

text \<open>What \<^verbatim>\<open>f_b64_pton\<close> accepts is an encoding: if it does not return -1, the string
  without its white space is the encoding of the bytes it has stored, with the right padding
  and no bits hidden in the last character.\<close>

lemma f_b64_pton_canonical:
  assumes "0 \<notin> set s" and "target \<noteq> 0" and "length s < 2 ^ 30"
    and "f_b64_pton s target targsize m = (r, m')" and "r \<noteq> - 1"
  shows "\<exists>bs. filter (\<lambda>c. \<not> c_isspace c) s = b64 bs \<and> r = int (length bs) \<and>
    load_bytes m' target (length bs) = bs"
  by (rule pton_accepts_encoded [OF assms(1,2) _ assms(4,5)]) (use assms(3) in auto)

lemma f_b64_pton_canonical_witness:
  "\<exists>bs. filter (\<lambda>c. \<not> c_isspace c) [0x54, 0x51, 0x3D, 0x3D] = b64 bs"
proof -
  have "fst (f_b64_pton [0x54, 0x51, 0x3D, 0x3D] 0x100 8 (\<lambda>_. 0)) = 1" by code_simp
  then have "\<exists>m'. f_b64_pton [0x54, 0x51, 0x3D, 0x3D] 0x100 8 (\<lambda>_. 0) = (1, m')"
    by (metis prod.collapse)
  then obtain m' where "f_b64_pton [0x54, 0x51, 0x3D, 0x3D] 0x100 8 (\<lambda>_. 0) = (1, m')" ..
  from f_b64_pton_canonical [OF _ _ _ this] show ?thesis by auto
qed

lemma b64_length_inj:
  assumes "(n + 2) div 3 = (k + 2) div (3::nat)" "(3 - n mod 3) mod 3 = (3 - k mod 3) mod 3"
  shows "n = k"
proof -
  have split: "(j + 2) div 3 = j div 3 + (j mod 3 + 2) div 3" for j :: nat
    using div_mult_self3 [of 3 "j div 3" "j mod 3 + 2"] by simp
  have "j mod 3 = 0 \<or> j mod 3 = 1 \<or> j mod 3 = 2" for j :: nat
    using mod_less_divisor [of 3 j] by linarith
  from this [of n] this [of k] have "n mod 3 = k mod 3" using assms(2) by (elim disjE) simp_all
  moreover have "n div 3 + (n mod 3 + 2) div 3 = k div 3 + (k mod 3 + 2) div 3"
    using assms(1) by (simp only: split [symmetric])
  ultimately have "n div 3 = k div 3" "n mod 3 = k mod 3" by (simp_all only: add_right_cancel)
  then show ?thesis by (metis div_mult_mod_eq)
qed

text \<open>C11: The target \<^verbatim>\<open>f_b64_pton\<close> needs is larger than the result: unless the decoded length
  is a multiple of three, a target of exactly that length is refused.\<close>

theorem f_b64_pton_exact_size_refused:
  assumes "filter (\<lambda>c. \<not> c_isspace c) s = b64 bs" and "length bs mod 3 \<noteq> 0" and "target \<noteq> 0"
    and "length s < 2 ^ 30" and "unat targsize = length bs"
  shows "fst (f_b64_pton s target targsize m) = - 1"
proof (rule ccontr)
  assume "fst (f_b64_pton s target targsize m) \<noteq> - 1"
  moreover obtain r m' where r: "f_b64_pton s target targsize m = (r, m')" by fastforce
  ultimately have rn: "r \<noteq> - 1" by simp
  obtain cs where cs: "b64 bs = b64 cs"
      "cs = [] \<or> length cs + (if length cs mod 3 = 0 then 0 else 1) \<le> length bs"
    by (rule pton_accepts_encoded [OF zero_free [OF assms(1)] assms(3) _ r rn]) (use assms(1,4,5) in simp_all)
  have "4 * ((length bs + 2) div 3) = 4 * ((length cs + 2) div 3)"
    using arg_cong [OF cs(1), of length] unfolding length_b64 .
  then have "(length bs + 2) div 3 = (length cs + 2) div 3" by (rule mult_left_cancel [THEN iffD1, rotated]) simp
  moreover have "(3 - length bs mod 3) mod 3 = (3 - length cs mod 3) mod 3"
    using arg_cong [OF cs(1), of "\<lambda>x. length (from_stop x)"]
    unfolding from_stop_b64 length_replicate .
  ultimately have "length bs = length cs" by (rule b64_length_inj)
  then show False using cs(2) assms(2) by (auto split: if_splits)
qed

lemma f_b64_pton_exact_size_refused_witness:
  "fst (f_b64_pton [0x54, 0x51, 0x3D, 0x3D] 0x100 1 (\<lambda>_. 0)) = - 1"
proof -
  have "filter (\<lambda>c. \<not> c_isspace c) [0x54, 0x51, 0x3D, 0x3D] = b64 [0x4D]"
    unfolding b64_core by code_simp
  then show ?thesis by (rule f_b64_pton_exact_size_refused) simp_all
qed

text \<open>C12: On every input \<^verbatim>\<open>f_b64_pton\<close> writes only inside the target it is given, and with a
  null target it writes nothing.\<close>

theorem f_b64_pton_in_bounds:
  "x \<notin> region target (unat targsize) \<or> target = 0 \<Longrightarrow> snd (f_b64_pton s target targsize m) x = m x"
proof -
  assume x: "x \<notin> region target (unat targsize) \<or> target = 0"
  have off: "x \<noteq> target + d" if "\<not> targsize \<le> d" "target \<noteq> 0" for d
    using x that by (auto simp: region_def word_less_nat_alt not_le)
  define inv where "inv st \<longleftrightarrow> target = 0 \<or> pt_state st = 0 \<or> \<not> targsize \<le> ucast (pt_index st)" for st :: pton_state
  have step: "pt_mem (snd (pton_step target targsize p st)) x = pt_mem st x \<and>
      (fst (pton_step target targsize p st) \<longrightarrow> inv (snd (pton_step target targsize p st)))"
    if "inv st" for p st
  proof (cases "target = 0")
    case True
    then show ?thesis by (simp add: pton_step_def Let_def inv_def)
  next
    case False
    note offs = off [of "ucast (pt_index st)", OF _ False] off [of "ucast (pt_index st + 1)", OF _ False]
    show ?thesis
    proof (cases "targsize \<le> ucast (pt_index st)")
      case True
      then show ?thesis using that False by (simp add: pton_step_def Let_def inv_def)
    next
      case less: False
      then show ?thesis using offs False by (simp add: pton_step_def Let_def inv_def)
    qed
  qed
  have loop: "inv st \<Longrightarrow> pt_mem (snd (snd (pton_loop target targsize s st))) x = pt_mem st x" for st
  proof (induction s arbitrary: st)
    case (Cons c s)
    have 1: "pt_mem st1 x = pt_mem st x \<and> (ok \<longrightarrow> inv st1)"
      if "pton_step target targsize p st = (ok, st1)" for p ok st1
      using step [OF Cons.prems, of p] that by simp
    show ?case
      using Cons.IH Cons.prems 1 by (auto split: option.splits prod.splits bool.splits)
  qed simp
  have "inv \<lparr>pt_state = 0, pt_index = 0, pt_mem = m\<rparr>" by (simp add: inv_def)
  then show ?thesis
    using loop [of "\<lparr>pt_state = 0, pt_index = 0, pt_mem = m\<rparr>"]
    by (cases "pton_loop target targsize s \<lparr>pt_state = 0, pt_index = 0, pt_mem = m\<rparr>")
      (auto simp: f_b64_pton_def split: bool.splits)
qed

lemma f_b64_pton_in_bounds_witness:
  "snd (f_b64_pton [0x51, 0x55, 0x4A, 0x44] 0x1000 2 (\<lambda>_. 7)) 0x1002 = 7"
  using f_b64_pton_in_bounds [of "0x1002" "0x1000" 2 "[0x51, 0x55, 0x4A, 0x44]" "\<lambda>_. 7"]
  by (simp add: region_def)

end
