(* ===== verification/Ldb_Coding.thy ===== *)
theory Ldb_Coding
  imports Wire_Spec
begin

unbundle bit_operations_syntax

text \<open>
  LevelDB's slices and integer coding: \<^verbatim>\<open>include/leveldb/slice.h\<close>, \<^verbatim>\<open>util/coding.h\<close> and
  \<^verbatim>\<open>util/coding.cc\<close> under \<^verbatim>\<open>src/ios/Pods/leveldb-library/\<close>. A \<^verbatim>\<open>Slice\<close> and a
  \<^verbatim>\<open>std::string\<close> are the list of their bytes. A routine that stores through a \<^verbatim>\<open>char*\<close>
  and returns the advanced pointer returns the bytes it stores; one that reads between a
  pointer and a limit takes the bytes between them and returns, with what it read, the bytes
  left, \<^const>\<open>None\<close> standing for the null pointer or for \<^verbatim>\<open>false\<close>. The platform is
  little-endian (\<^verbatim>\<open>port::kLittleEndian\<close>).
\<close>

type_synonym slice = "byte list"

subsection \<open>Slices\<close>

definition remove_prefix :: "slice \<Rightarrow> nat \<Rightarrow> slice" where
  "remove_prefix s n = drop n s"

text \<open>\<^verbatim>\<open>memcmp\<close> on unsigned bytes; only its sign is documented.\<close>

fun c_memcmp :: "byte list \<Rightarrow> byte list \<Rightarrow> nat \<Rightarrow> int" where
  "c_memcmp (a # as) (b # bs) (Suc n) =
     (if a < b then - 1 else if b < a then 1 else c_memcmp as bs n)"
| "c_memcmp as bs n = 0"

definition slice_compare :: "slice \<Rightarrow> slice \<Rightarrow> int" where
  "slice_compare a b =
     (let min_len = (if length a < length b then length a else length b);
          r = c_memcmp a b min_len
      in if r = 0 then if length a < length b then - 1
                       else if length a > length b then 1 else r
         else r)"

definition slice_eq :: "slice \<Rightarrow> slice \<Rightarrow> bool" where
  "slice_eq x y = (length x = length y \<and> c_memcmp x y (length x) = 0)"

definition starts_with :: "slice \<Rightarrow> slice \<Rightarrow> bool" where
  "starts_with s x = (length s \<ge> length x \<and> c_memcmp s x (length x) = 0)"

subsection \<open>Fixed-width integers\<close>

definition EncodeFixed32 :: "u32 \<Rightarrow> byte list" where
  "EncodeFixed32 value = word_to_bytes 4 value"

definition EncodeFixed64 :: "u64 \<Rightarrow> byte list" where
  "EncodeFixed64 value = word_to_bytes 8 value"

definition PutFixed32 :: "byte list \<Rightarrow> u32 \<Rightarrow> byte list" where
  "PutFixed32 dst value = dst @ EncodeFixed32 value"

definition PutFixed64 :: "byte list \<Rightarrow> u64 \<Rightarrow> byte list" where
  "PutFixed64 dst value = dst @ EncodeFixed64 value"

definition DecodeFixed32 :: "byte list \<Rightarrow> u32" where
  "DecodeFixed32 p = bytes_to_word (take 4 p)"

definition DecodeFixed64 :: "byte list \<Rightarrow> u64" where
  "DecodeFixed64 p = bytes_to_word (take 8 p)"

subsection \<open>Varints\<close>

text \<open>The unrolled writer; storing a word through \<^verbatim>\<open>unsigned char*\<close> keeps its low byte.\<close>

definition EncodeVarint32 :: "u32 \<Rightarrow> byte list" where
  "EncodeVarint32 v =
     (if v < 0x80 then [ucast v]
      else if v < 0x4000 then [ucast (v OR 128), ucast (drop_bit 7 v)]
      else if v < 0x200000 then
        [ucast (v OR 128), ucast (drop_bit 7 v OR 128), ucast (drop_bit 14 v)]
      else if v < 0x10000000 then
        [ucast (v OR 128), ucast (drop_bit 7 v OR 128), ucast (drop_bit 14 v OR 128),
         ucast (drop_bit 21 v)]
      else
        [ucast (v OR 128), ucast (drop_bit 7 v OR 128), ucast (drop_bit 14 v OR 128),
         ucast (drop_bit 21 v OR 128), ucast (drop_bit 28 v)])"

definition PutVarint32 :: "byte list \<Rightarrow> u32 \<Rightarrow> byte list" where
  "PutVarint32 dst v = dst @ EncodeVarint32 v"

function EncodeVarint64 :: "u64 \<Rightarrow> byte list" where
  "EncodeVarint64 v =
     (if v \<ge> 128 then ucast ((v AND 127) OR 128) # EncodeVarint64 (drop_bit 7 v)
      else [ucast v])"
  by auto

lemma unat_drop_bit_7_less: "128 \<le> v \<Longrightarrow> unat (drop_bit 7 v :: 'a::len word) < unat v"
  if "LENGTH('a) > 7"
proof -
  assume "128 \<le> v"
  moreover have "unat (128 :: 'a word) = 128"
  proof -
    have "(2::nat) ^ 8 \<le> 2 ^ LENGTH('a)" using that by (intro power_increasing) auto
    then show ?thesis using unat_of_nat_small [of 128, where 'a = 'a] by simp
  qed
  ultimately have "128 \<le> unat v" by (simp add: word_le_nat_alt)
  then show ?thesis by (subst unat_drop_bit_eq) (simp add: drop_bit_eq_div)
qed

termination EncodeVarint64
  by (relation "measure unat") (auto intro: unat_drop_bit_7_less)

declare EncodeVarint64.simps [simp del]

definition PutVarint64 :: "byte list \<Rightarrow> u64 \<Rightarrow> byte list" where
  "PutVarint64 dst v = dst @ EncodeVarint64 v"

definition PutLengthPrefixedSlice :: "byte list \<Rightarrow> slice \<Rightarrow> byte list" where
  "PutLengthPrefixedSlice dst value = PutVarint32 dst (of_nat (length value)) @ value"

text \<open>The loop of \<^verbatim>\<open>VarintLength\<close> from a length counted so far.\<close>

function VarintLength_loop :: "u64 \<Rightarrow> nat \<Rightarrow> nat" where
  "VarintLength_loop v len =
     (if v \<ge> 128 then VarintLength_loop (drop_bit 7 v) (len + 1) else len)"
  by auto
termination by (relation "measure (unat o fst)") (auto intro: unat_drop_bit_7_less)

declare VarintLength_loop.simps [simp del]

definition VarintLength :: "u64 \<Rightarrow> nat" where
  "VarintLength v = VarintLength_loop v 1"

text \<open>
  The reading loop, the same in \<^verbatim>\<open>GetVarint32PtrFallback\<close> and \<^verbatim>\<open>GetVarint64Ptr\<close> but for
  the width of the result and the largest shift.
\<close>

fun get_varint_loop :: "nat \<Rightarrow> nat \<Rightarrow> 'a::len word \<Rightarrow> byte list \<Rightarrow> ('a word \<times> byte list) option"
where
  "get_varint_loop last_shift shift result [] = None"
| "get_varint_loop last_shift shift result (b # p) =
     (if shift \<le> last_shift then
        let byte = ucast b :: 'a word in
        if byte AND 128 \<noteq> 0 then
          get_varint_loop last_shift (shift + 7) (result OR push_bit shift (byte AND 127)) p
        else Some (result OR push_bit shift byte, p)
      else None)"

definition GetVarint32PtrFallback :: "byte list \<Rightarrow> (u32 \<times> byte list) option" where
  "GetVarint32PtrFallback p = get_varint_loop 28 0 0 p"

definition GetVarint32Ptr :: "byte list \<Rightarrow> (u32 \<times> byte list) option" where
  "GetVarint32Ptr p =
     (case p of
        [] \<Rightarrow> GetVarint32PtrFallback p
      | b # q \<Rightarrow>
          let result = ucast b :: u32 in
          if result AND 128 = 0 then Some (result, q) else GetVarint32PtrFallback p)"

definition GetVarint32 :: "slice \<Rightarrow> (u32 \<times> slice) option" where
  "GetVarint32 input = GetVarint32Ptr input"

definition GetVarint64Ptr :: "byte list \<Rightarrow> (u64 \<times> byte list) option" where
  "GetVarint64Ptr p = get_varint_loop 63 0 0 p"

definition GetVarint64 :: "slice \<Rightarrow> (u64 \<times> slice) option" where
  "GetVarint64 input = GetVarint64Ptr input"

definition GetLengthPrefixedSlicePtr :: "byte list \<Rightarrow> (slice \<times> byte list) option" where
  "GetLengthPrefixedSlicePtr p =
     (case GetVarint32Ptr p of
        None \<Rightarrow> None
      | Some (len, p) \<Rightarrow>
          if unat len > length p then None else Some (take (unat len) p, drop (unat len) p))"

text \<open>
  The slice version: the result and the input afterwards, which has lost its length even
  when the contents are short.
\<close>

definition GetLengthPrefixedSlice :: "slice \<Rightarrow> slice option \<times> slice" where
  "GetLengthPrefixedSlice input =
     (case GetVarint32 input of
        None \<Rightarrow> (None, input)
      | Some (len, input) \<Rightarrow>
          if length input \<ge> unat len
          then (Some (take (unat len) input), remove_prefix input (unat len))
          else (None, input))"

end
