(* ===== verification/Ldb_Status.thy ===== *)
theory Ldb_Status
  imports Ldb_Coding
begin

unbundle bit_operations_syntax

text \<open>
  LevelDB's \<^verbatim>\<open>Status\<close>, \<^verbatim>\<open>include/leveldb/status.h\<close> and \<^verbatim>\<open>util/status.cc\<close> under
  \<^verbatim>\<open>src/ios/Pods/leveldb-library/\<close>. As in the code a status is its \<^verbatim>\<open>state_\<close> array, or
  \<^const>\<open>None\<close> (the null pointer) for success: four bytes with the length of the message, one
  with the code, and the message.
\<close>

type_synonym Status = "byte list option"

datatype Code = kOk | kNotFound | kCorruption | kNotSupported | kInvalidArgument | kIOError

definition code_byte :: "Code \<Rightarrow> byte" where
  "code_byte c =
     (case c of kOk \<Rightarrow> 0 | kNotFound \<Rightarrow> 1 | kCorruption \<Rightarrow> 2 | kNotSupported \<Rightarrow> 3
              | kInvalidArgument \<Rightarrow> 4 | kIOError \<Rightarrow> 5)"

text \<open>A string literal of the code, as the slice made from it.\<close>

definition c_string :: "string \<Rightarrow> slice" where
  "c_string s = map of_char s"

definition mk_Status :: "Code \<Rightarrow> slice \<Rightarrow> slice \<Rightarrow> Status" where
  "mk_Status code msg msg2 =
     (let len1 = of_nat (length msg) :: u32;
          len2 = of_nat (length msg2) :: u32;
          size = len1 + (if len2 \<noteq> 0 then 2 + len2 else 0)
      in Some (EncodeFixed32 size @ [code_byte code] @ take (unat len1) msg @
               (if len2 \<noteq> 0 then c_string '': '' @ take (unat len2) msg2 else [])))"

definition status_OK :: Status where
  "status_OK = None"

definition NotFound :: "slice \<Rightarrow> slice \<Rightarrow> Status" where
  "NotFound msg msg2 = mk_Status kNotFound msg msg2"

definition Corruption :: "slice \<Rightarrow> slice \<Rightarrow> Status" where
  "Corruption msg msg2 = mk_Status kCorruption msg msg2"

definition NotSupported :: "slice \<Rightarrow> slice \<Rightarrow> Status" where
  "NotSupported msg msg2 = mk_Status kNotSupported msg msg2"

definition InvalidArgument :: "slice \<Rightarrow> slice \<Rightarrow> Status" where
  "InvalidArgument msg msg2 = mk_Status kInvalidArgument msg msg2"

definition IOError :: "slice \<Rightarrow> slice \<Rightarrow> Status" where
  "IOError msg msg2 = mk_Status kIOError msg msg2"

definition ok :: "Status \<Rightarrow> bool" where
  "ok s = (s = None)"

definition status_code :: "Status \<Rightarrow> byte" where
  "status_code s = (case s of None \<Rightarrow> 0 | Some state \<Rightarrow> state ! 4)"

definition IsNotFound :: "Status \<Rightarrow> bool" where
  "IsNotFound s = (status_code s = code_byte kNotFound)"

definition IsCorruption :: "Status \<Rightarrow> bool" where
  "IsCorruption s = (status_code s = code_byte kCorruption)"

definition IsIOError :: "Status \<Rightarrow> bool" where
  "IsIOError s = (status_code s = code_byte kIOError)"

definition IsNotSupportedError :: "Status \<Rightarrow> bool" where
  "IsNotSupportedError s = (status_code s = code_byte kNotSupported)"

definition IsInvalidArgument :: "Status \<Rightarrow> bool" where
  "IsInvalidArgument s = (status_code s = code_byte kInvalidArgument)"

text \<open>\<^verbatim>\<open>CopyState\<close> reads the length back and copies that many bytes after the header.\<close>

definition CopyState :: "byte list \<Rightarrow> byte list" where
  "CopyState state = take (unat (DecodeFixed32 state + 5)) state"

definition copy_Status :: "Status \<Rightarrow> Status" where
  "copy_Status s = map_option CopyState s"

text \<open>The digits of \<^verbatim>\<open>%d\<close> for the code of a status, a signed character.\<close>

fun decimal_digits :: "nat \<Rightarrow> byte list" where
  "decimal_digits n =
     (if n < 10 then [0x30 + of_nat n] else decimal_digits (n div 10) @ [0x30 + of_nat (n mod 10)])"

declare decimal_digits.simps [simp del]

definition print_int :: "int \<Rightarrow> byte list" where
  "print_int i = (if i < 0 then [0x2d] else []) @ decimal_digits (nat \<bar>i\<bar>)"

definition status_type :: "byte \<Rightarrow> byte list" where
  "status_type c =
     (if c = code_byte kOk then c_string ''OK''
      else if c = code_byte kNotFound then c_string ''NotFound: ''
      else if c = code_byte kCorruption then c_string ''Corruption: ''
      else if c = code_byte kNotSupported then c_string ''Not implemented: ''
      else if c = code_byte kInvalidArgument then c_string ''Invalid argument: ''
      else if c = code_byte kIOError then c_string ''IO error: ''
      else c_string ''Unknown code('' @ print_int (sint c) @ c_string ''): '')"

definition status_ToString :: "Status \<Rightarrow> byte list" where
  "status_ToString s =
     (case s of
        None \<Rightarrow> c_string ''OK''
      | Some state \<Rightarrow>
          status_type (status_code s) @ take (unat (DecodeFixed32 state)) (drop 5 state))"

end
