(* ===== verification/Ldb_Log.thy ===== *)
theory Ldb_Log
  imports Ldb_Status Ldb_Crc32c
begin

unbundle bit_operations_syntax

text \<open>
  LevelDB's write-ahead log: \<^verbatim>\<open>db/log_format.h\<close>, \<^verbatim>\<open>db/log_writer.cc\<close> and
  \<^verbatim>\<open>db/log_reader.cc\<close> under \<^verbatim>\<open>src/ios/Pods/leveldb-library/\<close>. The files behind
  \<^verbatim>\<open>WritableFile\<close> and \<^verbatim>\<open>SequentialFile\<close> are parameters: records of the operations the code
  calls, over a state \<open>'f\<close>. What a reader reports to its \<^verbatim>\<open>Reporter\<close> is collected in a list.
\<close>

subsection \<open>Format\<close>

definition kZeroType :: u32 where
  "kZeroType = 0"

definition kFullType :: u32 where
  "kFullType = 1"

definition kFirstType :: u32 where
  "kFirstType = 2"

definition kMiddleType :: u32 where
  "kMiddleType = 3"

definition kLastType :: u32 where
  "kLastType = 4"

definition kMaxRecordType :: u32 where
  "kMaxRecordType = kLastType"

definition kBlockSize :: nat where
  "kBlockSize = 32768"

definition kHeaderSize :: nat where
  "kHeaderSize = 4 + 2 + 1"

subsection \<open>Writer\<close>

record 'f WritableFile =
  Append :: "slice \<Rightarrow> 'f \<Rightarrow> Status \<times> 'f"
  Flush :: "'f \<Rightarrow> Status \<times> 'f"

record 'f Writer =
  w_dest :: 'f
  w_block_offset :: nat
  w_type_crc :: "u32 list"

definition InitTypeCrc :: "u32 list" where
  "InitTypeCrc = map (\<lambda>i. Value [of_nat i]) [0..<Suc (unat kMaxRecordType)]"

definition mk_Writer :: "'f \<Rightarrow> 'f Writer" where
  "mk_Writer dest = \<lparr>w_dest = dest, w_block_offset = 0, w_type_crc = InitTypeCrc\<rparr>"

definition mk_Writer_at :: "'f \<Rightarrow> u64 \<Rightarrow> 'f Writer" where
  "mk_Writer_at dest dest_length =
     \<lparr>w_dest = dest, w_block_offset = unat dest_length mod kBlockSize, w_type_crc = InitTypeCrc\<rparr>"

definition EmitPhysicalRecord ::
  "'f WritableFile \<Rightarrow> u32 \<Rightarrow> slice \<Rightarrow> 'f Writer \<Rightarrow> Status \<times> 'f Writer" where
  "EmitPhysicalRecord env t ptr w =
     (let n = length ptr;
          crc = Mask (Extend (w_type_crc w ! unat t) ptr);
          buf = EncodeFixed32 crc @ [of_nat n, of_nat (n div 256), ucast t];
          (s, f) = Append env buf (w_dest w);
          (s, f) = (if ok s then
                      (case Append env ptr f of
                         (s, f) \<Rightarrow> if ok s then Flush env f else (s, f))
                    else (s, f))
      in (s, w\<lparr>w_dest := f, w_block_offset := w_block_offset w + (kHeaderSize + n)\<rparr>))"

text \<open>Switching to a new block; the status of the trailer's \<^verbatim>\<open>Append\<close> is dropped.\<close>

definition switch_block :: "'f WritableFile \<Rightarrow> 'f Writer \<Rightarrow> 'f Writer" where
  "switch_block env w =
     (let leftover = kBlockSize - w_block_offset w in
      if leftover < kHeaderSize then
        (if leftover > 0 then w\<lparr>w_dest := snd (Append env (replicate leftover 0) (w_dest w))\<rparr> else w)
          \<lparr>w_block_offset := 0\<rparr>
      else w)"

definition fragment_type :: "bool \<Rightarrow> bool \<Rightarrow> u32" where
  "fragment_type begin end =
     (if begin \<and> end then kFullType else if begin then kFirstType
      else if end then kLastType else kMiddleType)"

text \<open>The do-while loop of \<^verbatim>\<open>AddRecord\<close>, \<open>ptr\<close> what is left of the record.\<close>

function add_record_loop ::
  "'f WritableFile \<Rightarrow> slice \<Rightarrow> bool \<Rightarrow> 'f Writer \<Rightarrow> Status \<times> 'f Writer" where
  "add_record_loop env ptr begin w =
     (let w = switch_block env w;
          left = length ptr;
          avail = kBlockSize - w_block_offset w - kHeaderSize;
          fragment_length = (if left < avail then left else avail);
          end = (left = fragment_length);
          (s, w) = EmitPhysicalRecord env (fragment_type begin end) (take fragment_length ptr) w
      in if ok s \<and> left - fragment_length > 0
         then add_record_loop env (drop fragment_length ptr) False w
         else (s, w))"
  by auto

lemma block_offset_emit [simp]:
  "w_block_offset (snd (EmitPhysicalRecord env t ptr w)) = w_block_offset w + 7 + length ptr"
  by (simp add: EmitPhysicalRecord_def Let_def kHeaderSize_def split_def)

lemma block_offset_emitted:
  "(s, w') = EmitPhysicalRecord env t ptr w \<Longrightarrow> w_block_offset w' = w_block_offset w + 7 + length ptr"
  by (metis block_offset_emit snd_conv)

lemma block_offset_switch:
  "w_block_offset (switch_block env w) =
     (if kBlockSize - w_block_offset w < 7 then 0 else w_block_offset w)"
  by (simp add: switch_block_def Let_def kHeaderSize_def)

termination add_record_loop
  by (relation "measure (\<lambda>(env, ptr, begin, w). 2 * length ptr +
        (if kBlockSize - w_block_offset w = 7 then 1 else 0))")
    (auto simp: kBlockSize_def kHeaderSize_def block_offset_switch dest!: block_offset_emitted)

declare add_record_loop.simps [simp del]

definition AddRecord :: "'f WritableFile \<Rightarrow> slice \<Rightarrow> 'f Writer \<Rightarrow> Status \<times> 'f Writer" where
  "AddRecord env data w = add_record_loop env data True w"

subsection \<open>Reader\<close>

record 'f SequentialFile =
  Read :: "nat \<Rightarrow> 'f \<Rightarrow> Status \<times> slice \<times> 'f"
  Skip :: "u64 \<Rightarrow> 'f \<Rightarrow> Status \<times> 'f"

record 'f Reader =
  r_file :: 'f
  r_has_reporter :: bool
  r_checksum :: bool
  r_initial_offset :: u64
  r_buffer :: slice
  r_eof :: bool
  r_last_record_offset :: u64
  r_end_of_buffer_offset :: u64
  r_resyncing :: bool
  r_reports :: "(u64 \<times> Status) list"

definition kEof :: u32 where
  "kEof = kMaxRecordType + 1"

definition kBadRecord :: u32 where
  "kBadRecord = kMaxRecordType + 2"

definition mk_Reader :: "'f \<Rightarrow> bool \<Rightarrow> bool \<Rightarrow> u64 \<Rightarrow> 'f Reader" where
  "mk_Reader file reporter checksum initial_offset =
     \<lparr>r_file = file, r_has_reporter = reporter, r_checksum = checksum,
      r_initial_offset = initial_offset, r_buffer = [], r_eof = False, r_last_record_offset = 0,
      r_end_of_buffer_offset = 0, r_resyncing = initial_offset > 0, r_reports = []\<rparr>"

definition LastRecordOffset :: "'f Reader \<Rightarrow> u64" where
  "LastRecordOffset r = r_last_record_offset r"

definition ReportDrop :: "u64 \<Rightarrow> Status \<Rightarrow> 'f Reader \<Rightarrow> 'f Reader" where
  "ReportDrop bytes reason r =
     (if r_has_reporter r \<and>
         r_end_of_buffer_offset r - of_nat (length (r_buffer r)) - bytes \<ge> r_initial_offset r
      then r\<lparr>r_reports := r_reports r @ [(bytes, reason)]\<rparr> else r)"

definition ReportCorruption :: "u64 \<Rightarrow> string \<Rightarrow> 'f Reader \<Rightarrow> 'f Reader" where
  "ReportCorruption bytes reason r = ReportDrop bytes (Corruption (c_string reason) []) r"

definition SkipToInitialBlock :: "'f SequentialFile \<Rightarrow> 'f Reader \<Rightarrow> bool \<times> 'f Reader" where
  "SkipToInitialBlock env r =
     (let offset_in_block = r_initial_offset r mod of_nat kBlockSize;
          block_start_location = r_initial_offset r - offset_in_block;
          block_start_location =
            (if offset_in_block > of_nat (kBlockSize - 6)
             then block_start_location + of_nat kBlockSize else block_start_location);
          r = r\<lparr>r_end_of_buffer_offset := block_start_location\<rparr>
      in if block_start_location > 0 then
           (case Skip env block_start_location (r_file r) of
              (skip_status, f) \<Rightarrow>
                let r = r\<lparr>r_file := f\<rparr> in
                if \<not> ok skip_status then (False, ReportDrop block_start_location skip_status r)
                else (True, r))
         else (True, r))"

text \<open>
  The part of \<^verbatim>\<open>ReadPhysicalRecord\<close> that parses a record at the front of the buffer; the
  type of a record is a signed character widened to \<^verbatim>\<open>unsigned int\<close>. The results are the
  type returned, \<^verbatim>\<open>*result\<close> afterwards and the reader.
\<close>

definition parse_record :: "slice \<Rightarrow> 'f Reader \<Rightarrow> u32 \<times> slice \<times> 'f Reader" where
  "parse_record result r =
     (let header = r_buffer r;
          a = ucast (header ! 4) AND 0xff :: u32;
          b = ucast (header ! 5) AND 0xff :: u32;
          type = scast (header ! 6) :: u32;
          len = unat (a OR push_bit 8 b)
      in if kHeaderSize + len > length (r_buffer r) then
           let drop_size = of_nat (length (r_buffer r)); r = r\<lparr>r_buffer := []\<rparr> in
           if \<not> r_eof r then (kBadRecord, result, ReportCorruption drop_size ''bad record length'' r)
           else (kEof, result, r)
         else if type = kZeroType \<and> len = 0 then (kBadRecord, result, r\<lparr>r_buffer := []\<rparr>)
         else if r_checksum r \<and>
             Value (take (1 + len) (drop 6 header)) \<noteq> Unmask (DecodeFixed32 header) then
           let drop_size = of_nat (length (r_buffer r)); r = r\<lparr>r_buffer := []\<rparr> in
           (kBadRecord, result, ReportCorruption drop_size ''checksum mismatch'' r)
         else
           let r = r\<lparr>r_buffer := remove_prefix (r_buffer r) (kHeaderSize + len)\<rparr> in
           if r_end_of_buffer_offset r - of_nat (length (r_buffer r)) - of_nat kHeaderSize
                - of_nat len < r_initial_offset r
           then (kBadRecord, [], r)
           else (type, take len (drop kHeaderSize header), r))"

text \<open>
  The refill: the status of the read and the reader; a file that returns more than was asked
  for is cut there.
\<close>

definition refill :: "'f SequentialFile \<Rightarrow> 'f Reader \<Rightarrow> Status \<times> 'f Reader" where
  "refill env r =
     (case Read env kBlockSize (r_file r) of
        (status, data, f) \<Rightarrow>
          let r = r\<lparr>r_file := f, r_buffer := data,
                     r_end_of_buffer_offset := r_end_of_buffer_offset r + of_nat (length data)\<rparr>
          in if \<not> ok status then
               (status, (ReportDrop (of_nat kBlockSize) status (r\<lparr>r_buffer := []\<rparr>))\<lparr>r_eof := True\<rparr>)
             else if length data < kBlockSize then (status, r\<lparr>r_eof := True\<rparr>)
             else (status, r))"

function ReadPhysicalRecord ::
  "'f SequentialFile \<Rightarrow> slice \<Rightarrow> 'f Reader \<Rightarrow> u32 \<times> slice \<times> 'f Reader" where
  "ReadPhysicalRecord env result r =
     (if length (r_buffer r) < kHeaderSize then
        if \<not> r_eof r then
          case refill env r of
            (status, r) \<Rightarrow>
              if \<not> ok status then (kEof, result, r) else ReadPhysicalRecord env result r
        else (kEof, result, r\<lparr>r_buffer := []\<rparr>)
      else parse_record result r)"
  by auto
termination
  by (relation "measure (\<lambda>(env, result, r).
        if length (r_buffer r) < kHeaderSize \<and> \<not> r_eof r then 1 else 0)")
    (auto simp: refill_def Let_def kBlockSize_def kHeaderSize_def split: prod.splits if_splits)

declare ReadPhysicalRecord.simps [simp del]

text \<open>
  The loop of \<^verbatim>\<open>ReadRecord\<close>, with \<open>fuel\<close> for the physical records it may read:
  \<^const>\<open>None\<close> when they run out, otherwise the result, \<^verbatim>\<open>*record\<close> and the reader.
\<close>

fun read_loop ::
  "nat \<Rightarrow> 'f SequentialFile \<Rightarrow> slice \<Rightarrow> slice \<Rightarrow> bool \<Rightarrow> u64 \<Rightarrow> 'f Reader \<Rightarrow>
   (bool \<times> slice \<times> 'f Reader) option" where
  "read_loop 0 env fragment scratch in_fragmented_record prospective_record_offset r = None"
| "read_loop (Suc fuel) env fragment scratch in_fragmented_record prospective_record_offset r =
     (case ReadPhysicalRecord env fragment r of
        (record_type, fragment, r) \<Rightarrow>
          let physical_record_offset =
                r_end_of_buffer_offset r - of_nat (length (r_buffer r)) - of_nat kHeaderSize
                  - of_nat (length fragment)
          in if r_resyncing r \<and> record_type = kMiddleType then
               read_loop fuel env fragment scratch in_fragmented_record prospective_record_offset r
             else if r_resyncing r \<and> record_type = kLastType then
               read_loop fuel env fragment scratch in_fragmented_record prospective_record_offset
                 (r\<lparr>r_resyncing := False\<rparr>)
             else
               let r = r\<lparr>r_resyncing := False\<rparr> in
               if record_type = kFullType then
                 let r = (if in_fragmented_record \<and> scratch \<noteq> []
                          then ReportCorruption (of_nat (length scratch))
                                 ''partial record without end(1)'' r
                          else r)
                 in Some (True, fragment, r\<lparr>r_last_record_offset := physical_record_offset\<rparr>)
               else if record_type = kFirstType then
                 let r = (if in_fragmented_record \<and> scratch \<noteq> []
                          then ReportCorruption (of_nat (length scratch))
                                 ''partial record without end(2)'' r
                          else r)
                 in read_loop fuel env fragment fragment True physical_record_offset r
               else if record_type = kMiddleType then
                 if \<not> in_fragmented_record then
                   read_loop fuel env fragment scratch in_fragmented_record
                     prospective_record_offset
                     (ReportCorruption (of_nat (length fragment))
                        ''missing start of fragmented record(1)'' r)
                 else read_loop fuel env fragment (scratch @ fragment) in_fragmented_record
                        prospective_record_offset r
               else if record_type = kLastType then
                 if \<not> in_fragmented_record then
                   read_loop fuel env fragment scratch in_fragmented_record
                     prospective_record_offset
                     (ReportCorruption (of_nat (length fragment))
                        ''missing start of fragmented record(2)'' r)
                 else Some (True, scratch @ fragment,
                        r\<lparr>r_last_record_offset := prospective_record_offset\<rparr>)
               else if record_type = kEof then Some (False, [], r)
               else if record_type = kBadRecord then
                 if in_fragmented_record then
                   read_loop fuel env fragment [] False prospective_record_offset
                     (ReportCorruption (of_nat (length scratch)) ''error in middle of record'' r)
                 else read_loop fuel env fragment scratch in_fragmented_record
                        prospective_record_offset r
               else
                 read_loop fuel env fragment [] False prospective_record_offset
                   (ReportDrop
                      (of_nat (length fragment)
                        + (if in_fragmented_record then of_nat (length scratch) else 0))
                      (Corruption (c_string ''unknown record type '' @
                         decimal_digits (unat record_type)) []) r))"

definition ReadRecord ::
  "nat \<Rightarrow> 'f SequentialFile \<Rightarrow> 'f Reader \<Rightarrow> (bool \<times> slice \<times> 'f Reader) option" where
  "ReadRecord fuel env r =
     (case (if r_last_record_offset r < r_initial_offset r then SkipToInitialBlock env r
            else (True, r)) of
        (found, r) \<Rightarrow>
          if \<not> found then Some (False, [], r) else read_loop fuel env [] [] False 0 r)"

end
