(* ===== verification/Ldb_Crc32c_Correct.thy ===== *)
theory Ldb_Crc32c_Correct
  imports Ldb_Crc32c
begin

unbundle bit_operations_syntax

text \<open>
  \<^verbatim>\<open>Extend\<close> computes the CRC-32C as it is defined, one bit at a time, over the reflected
  Castagnoli polynomial. One step of the shift register is linear over exclusive or, so the
  four tables are spans of eight words each, checked once, and a table lookup is 8, 16, 24 or
  32 steps. The step is injective, from which the detection of bursts follows.
\<close>

subsection \<open>The bitwise checksum\<close>

text \<open>One step of the shift register with the reflected Castagnoli polynomial.\<close>

definition crc_step :: "u32 \<Rightarrow> u32" where
  "crc_step x = (if bit x 0 then drop_bit 1 x XOR 0x82f63b78 else drop_bit 1 x)"

definition crc_byte :: "u32 \<Rightarrow> byte \<Rightarrow> u32" where
  "crc_byte l b = (crc_step ^^ 8) (l XOR ucast b)"

definition crc32c :: "u32 \<Rightarrow> byte list \<Rightarrow> u32" where
  "crc32c crc bs = foldl crc_byte (crc XOR 0xffffffff) bs XOR 0xffffffff"

subsection \<open>Linearity\<close>

definition linear :: "(u32 \<Rightarrow> u32) \<Rightarrow> bool" where
  "linear f = (\<forall>x y. f (x XOR y) = f x XOR f y)"

lemma linear_step: "linear crc_step"
  by (auto simp: linear_def crc_step_def bit_xor_iff drop_bit_xor ac_simps)

lemma linear_funpow: "linear f \<Longrightarrow> linear (f ^^ n)"
  by (induction n) (auto simp: linear_def)

lemmas crc_step_xor = linear_funpow [OF linear_step, unfolded linear_def, rule_format]

text \<open>A table of a linear function, built from its values on the powers of two.\<close>

fun span_table :: "u32 list \<Rightarrow> u32 list" where
  "span_table [] = [0]"
| "span_table (b # bs) = (let t = span_table bs in t @ map (\<lambda>x. x XOR b) t)"

lemma length_span_table [simp]: "length (span_table bs) = 2 ^ length bs"
  by (induction bs) (simp_all add: Let_def)

lemma linear_0: "linear f \<Longrightarrow> f 0 = 0"
  unfolding linear_def by (metis xor_self_eq)


lemma xor_push_bit_eq_add:
  assumes "take_bit k r = r"
  shows "r XOR push_bit k w = r + push_bit k (w :: 'a::len word)"
proof -
  have "r XOR push_bit k w = r OR push_bit k w"
  proof (rule bit_word_eqI)
    have *: "bit r n \<Longrightarrow> n < k" for n using assms by (metis bit_take_bit_iff)
    show "bit (r XOR push_bit k w) n = bit (r OR push_bit k w) n" for n
      by (auto simp: bit_simps dest: *)
  qed
  then show ?thesis using assms by (simp add: or_push_bit_eq_add)
qed

lemma of_nat_high_bit:
  "i < 2 ^ k \<Longrightarrow> (of_nat (i + 2 ^ k) :: 'a::len word) = of_nat i XOR 2 ^ k"
  by (subst xor_push_bit_eq_add [of k _ 1, simplified push_bit_of_1])
    (auto intro!: take_bit_idI intro: le_less_trans [OF unat_of_nat_le])

lemma span_table_nth:
  "linear f \<Longrightarrow> i < 2 ^ k \<Longrightarrow>
     span_table (map (\<lambda>j. f (2 ^ j)) (rev [0..<k])) ! i = f (of_nat i)"
proof (induction k arbitrary: i)
  case 0
  then show ?case by (simp add: linear_0)
next
  case (Suc k)
  let ?t = "span_table (map (\<lambda>j. f (2 ^ j)) (rev [0..<k]))"
  have len: "length ?t = 2 ^ k" by simp
  show ?case
  proof (cases "i < 2 ^ k")
    case True
    with Suc show ?thesis by (simp add: Let_def nth_append)
  next
    case False
    define j where "j = i - 2 ^ k"
    have j: "i = j + 2 ^ k" "j < 2 ^ k" using False Suc.prems by (auto simp: j_def)
    have "span_table (map (\<lambda>j. f (2 ^ j)) (rev [0..<Suc k])) ! i = ?t ! j XOR f (2 ^ k)"
      using j by (simp add: Let_def nth_append)
    also have "\<dots> = f (of_nat j XOR 2 ^ k)"
      using Suc j by (simp add: linear_def)
    finally show ?thesis by (simp only: j of_nat_high_bit)
  qed
qed



subsection \<open>The tables\<close>

lemma crc_step_8:
  "(crc_step ^^ 8) x =
     crc_step (crc_step (crc_step (crc_step (crc_step (crc_step (crc_step (crc_step x)))))))"
  by (simp add: numeral_eq_Suc)

lemma crc_step_add: "(crc_step ^^ (m + n)) x = (crc_step ^^ m) ((crc_step ^^ n) x)"
  by (simp add: funpow_add)

text \<open>The images of the eight one-bit bytes after 8, 16, 24 and 32 steps.\<close>

lemma bases0: "map (crc_step ^^ 8) [0x80, 0x40, 0x20, 0x10, 8, 4, 2, 1] =
  [0x82f63b78, 0x417b1dbc, 0x20bd8ede, 0x105ec76f, 0x8ad958cf, 0xc79a971f, 0xe13b70f7, 0xf26b8303]"
  by (simp add: crc_step_8) (simp add: crc_step_def)

lemma bases1: "map (crc_step ^^ 8)
  [0x82f63b78, 0x417b1dbc, 0x20bd8ede, 0x105ec76f, 0x8ad958cf, 0xc79a971f, 0xe13b70f7, 0xf26b8303] =
  [0xfbc3faf9, 0xff17c604, 0x7f8be302, 0x3fc5f181, 0x9d14c3b8, 0x4e8a61dc, 0x274530ee, 0x13a29877]"
  by (simp add: crc_step_8) (simp add: crc_step_def)

lemma bases2: "map (crc_step ^^ 8)
  [0xfbc3faf9, 0xff17c604, 0x7f8be302, 0x3fc5f181, 0x9d14c3b8, 0x4e8a61dc, 0x274530ee, 0x13a29877] =
  [0x8b277743, 0xc76580d9, 0xe144fb14, 0x70a27d8a, 0x38513ec5, 0x9edea41a, 0x4f6f520d, 0xa541927e]"
  by (simp add: crc_step_8) (simp add: crc_step_def)

lemma bases3: "map (crc_step ^^ 8)
  [0x8b277743, 0xc76580d9, 0xe144fb14, 0x70a27d8a, 0x38513ec5, 0x9edea41a, 0x4f6f520d, 0xa541927e] =
  [0x52a0c93f, 0xaba65fe7, 0xd725148b, 0xe964b13d, 0xf64463e6, 0x7b2231f3, 0xbf672381, 0xdd45aab8]"
  by (simp add: crc_step_8) (simp add: crc_step_def)

lemma table0_span: "table0 = span_table
  [0x82f63b78, 0x417b1dbc, 0x20bd8ede, 0x105ec76f, 0x8ad958cf, 0xc79a971f, 0xe13b70f7, 0xf26b8303]"
  unfolding table0_def by (simp add: Let_def)

lemma table1_span: "table1 = span_table
  [0xfbc3faf9, 0xff17c604, 0x7f8be302, 0x3fc5f181, 0x9d14c3b8, 0x4e8a61dc, 0x274530ee, 0x13a29877]"
  unfolding table1_def by (simp add: Let_def)

lemma table2_span: "table2 = span_table
  [0x8b277743, 0xc76580d9, 0xe144fb14, 0x70a27d8a, 0x38513ec5, 0x9edea41a, 0x4f6f520d, 0xa541927e]"
  unfolding table2_def by (simp add: Let_def)

lemma table3_span: "table3 = span_table
  [0x52a0c93f, 0xaba65fe7, 0xd725148b, 0xe964b13d, 0xf64463e6, 0x7b2231f3, 0xbf672381, 0xdd45aab8]"
  unfolding table3_def by (simp add: Let_def)


lemma span_bases:
  "map (\<lambda>j. f (2 ^ j)) (rev [0..<8]) = map f [0x80, 0x40, 0x20, 0x10, 8, 4, 2, 1 :: u32]"
  by (simp add: upt_rec)

lemma table_nth:
  assumes "i < 256"
  shows "table0 ! i = (crc_step ^^ 8) (of_nat i)" "table1 ! i = (crc_step ^^ 16) (of_nat i)"
    "table2 ! i = (crc_step ^^ 24) (of_nat i)" "table3 ! i = (crc_step ^^ 32) (of_nat i)"
proof -
  have s: "span_table (map f [0x80, 0x40, 0x20, 0x10, 8, 4, 2, 1]) ! i = f (of_nat i)"
    if "linear f" for f
    using span_table_nth [of f i 8] that assms by (simp only: span_bases) simp
  have add: "map (crc_step ^^ (8 + n)) xs = map (crc_step ^^ 8) (map (crc_step ^^ n) xs)" for n xs
    unfolding map_map by (rule map_cong) (simp_all only: crc_step_add comp_def)
  have m1: "map (crc_step ^^ 16) xs = map (crc_step ^^ 8) (map (crc_step ^^ 8) xs)" for xs
    using add [of 8] by simp
  have m2: "map (crc_step ^^ 24) xs = map (crc_step ^^ 8) (map (crc_step ^^ 16) xs)" for xs
    using add [of 16] by simp
  have m3: "map (crc_step ^^ 32) xs = map (crc_step ^^ 8) (map (crc_step ^^ 24) xs)" for xs
    using add [of 24] by simp
  note lin = s [OF linear_funpow [OF linear_step]]
  show "table0 ! i = (crc_step ^^ 8) (of_nat i)"
    using lin [of 8] by (simp only: table0_span bases0)
  show "table1 ! i = (crc_step ^^ 16) (of_nat i)"
    using lin [of 16] by (simp only: table1_span m1 bases0 bases1)
  show "table2 ! i = (crc_step ^^ 24) (of_nat i)"
    using lin [of 24] by (simp only: table2_span m2 m1 bases0 bases1 bases2)
  show "table3 ! i = (crc_step ^^ 32) (of_nat i)"
    using lin [of 32] by (simp only: table3_span m3 m2 m1 bases0 bases1 bases2 bases3)
qed


subsection \<open>The strides\<close>

lemma crc_step_shift: "take_bit k y = 0 \<Longrightarrow> (crc_step ^^ k) y = drop_bit k y"
proof (induction k arbitrary: y)
  case 0
  then show ?case by simp
next
  case (Suc k)
  have b: "\<not> bit y n" if "n < Suc k" for n
    using Suc.prems that by (metis bit_0_eq bit_take_bit_iff bot_apply bot_bool_def)
  have "crc_step y = drop_bit 1 y" using b [of 0] by (simp add: crc_step_def)
  moreover have "take_bit k (drop_bit 1 y) = 0"
    by (rule bit_word_eqI) (use b in \<open>auto simp: bit_simps dest: bit_imp_le_length\<close>)
  ultimately show ?case
    by (simp only: funpow_Suc_right comp_apply Suc.IH) simp
qed

lemma crc_steps_shift: "k \<le> n \<Longrightarrow> take_bit k y = 0 \<Longrightarrow>
  (crc_step ^^ n) y = (crc_step ^^ (n - k)) (drop_bit k y)"
  by (metis crc_step_shift crc_step_add le_add_diff_inverse2)

lemma and_FF: "x AND 0xff = take_bit 8 (x :: u32)"
  by (simp add: take_bit_eq_mask mask_eq_exp_minus_1)

lemma unat_take_8: "unat (take_bit 8 (x :: u32)) < 256"
proof -
  have "unat (take_bit 8 x) = take_bit 8 (unat x)" by (rule unsigned_take_bit_eq)
  then show ?thesis by (simp add: take_bit_eq_mod)
qed

lemma STEP1_eq: "STEP1 l b = crc_byte l b"
proof -
  let ?c = "take_bit 8 (l XOR ucast b)"
  have c: "(l AND 0xff) XOR ucast b = ?c"
    unfolding and_FF by (rule bit_word_eqI) (auto simp: bit_simps dest: bit_imp_le_length)
  have "l XOR ucast b = ?c XOR push_bit 8 (drop_bit 8 l)"
    by (rule bit_word_eqI) (auto simp: bit_simps dest: bit_imp_le_length)
  then have "crc_byte l b = (crc_step ^^ 8) ?c XOR (crc_step ^^ 8) (push_bit 8 (drop_bit 8 l))"
    unfolding crc_byte_def using crc_step_xor by metis
  also have "(crc_step ^^ 8) (push_bit 8 (drop_bit 8 l)) = drop_bit 8 (push_bit 8 (drop_bit 8 l))"
    by (rule crc_step_shift) (rule bit_word_eqI, simp add: bit_simps)
  also have "\<dots> = drop_bit 8 l"
    by (rule bit_word_eqI) (auto simp: bit_simps dest: bit_imp_le_length)
  also have "(crc_step ^^ 8) ?c = table0 ! unat ?c"
    by (simp only: table_nth [OF unat_take_8] of_nat_unat ucast_id)
  finally show ?thesis by (simp only: STEP1_def Let_def c)
qed

lemma crc_steps_push:
  assumes "k \<le> n" "take_bit (32 - k) y = y"
  shows "(crc_step ^^ n) (push_bit k y) = (crc_step ^^ (n - k)) y"
proof -
  have b: "bit y j \<Longrightarrow> j < 32 - k" for j using assms(2) by (metis bit_take_bit_iff)
  have "take_bit k (push_bit k y) = 0" by (rule bit_word_eqI) (simp add: bit_simps)
  moreover have "drop_bit k (push_bit k y) = y"
    by (rule bit_word_eqI) (auto simp: bit_simps dest: b)
  ultimately show ?thesis using crc_steps_shift [OF assms(1), of "push_bit k y"] by simp
qed

lemma take_bit_ucast_byte: "8 \<le> k \<Longrightarrow> take_bit k (ucast (b :: byte)) = (ucast b :: u32)"
  by (rule bit_word_eqI) (auto simp: bit_simps dest: bit_imp_le_length)

text \<open>A byte folded in after \<open>k\<close> steps is the byte xor-ed in, shifted, before them.\<close>

lemma crc_byte_absorb:
  assumes "k \<le> 24"
  shows "crc_byte ((crc_step ^^ k) x) b = (crc_step ^^ (8 + k)) (x XOR push_bit k (ucast b))"
proof -
  have "(crc_step ^^ k) (push_bit k (ucast b)) = ucast b"
    using crc_steps_push [of k k "ucast b"] assms by (simp add: take_bit_ucast_byte)
  then have "(crc_step ^^ k) x XOR ucast b = (crc_step ^^ k) (x XOR push_bit k (ucast b))"
    by (simp add: crc_step_xor)
  then show ?thesis by (simp only: crc_byte_def crc_step_add)
qed

lemma crc_byte_4:
  "foldl crc_byte l [b0, b1, b2, b3] =
     (crc_step ^^ 32) (l XOR ucast b0 XOR push_bit 8 (ucast b1) XOR push_bit 16 (ucast b2)
       XOR push_bit 24 (ucast b3))"
  using crc_byte_absorb [of 0 l b0] crc_byte_absorb [of 8 _ b1] crc_byte_absorb [of 16 _ b2]
    crc_byte_absorb [of 24 _ b3]
  by (simp add: xor.assoc)

lemma LE_LOAD32_bytes:
  "LE_LOAD32 (b0 # b1 # b2 # b3 # p) =
     ucast b0 XOR push_bit 8 (ucast b1) XOR push_bit 16 (ucast b2) XOR push_bit 24 (ucast b3)"
proof (rule bit_word_eqI)
  fix n assume "n < LENGTH(32)"
  then show "bit (LE_LOAD32 (b0 # b1 # b2 # b3 # p)) n =
    bit (ucast b0 XOR push_bit 8 (ucast b1) XOR push_bit 16 (ucast b2) XOR push_bit 24 (ucast b3) :: u32) n"
    by (auto simp: LE_LOAD32_def DecodeFixed32_def bit_simps take_Cons' dest: bit_imp_le_length)
qed

lemma split_bytes:
  "(c :: u32) = take_bit 8 c XOR push_bit 8 (take_bit 8 (drop_bit 8 c)) XOR
     push_bit 16 (take_bit 8 (drop_bit 16 c)) XOR push_bit 24 (drop_bit 24 c)"
  by (rule bit_word_eqI) (auto simp: bit_simps)

lemma STEP4_eq: "STEP4 l (b0 # b1 # b2 # b3 # p) = foldl crc_byte l [b0, b1, b2, b3]"
proof -
  define c where "c = l XOR LE_LOAD32 (b0 # b1 # b2 # b3 # p)"
  have 24: "take_bit 8 (drop_bit 24 c) = drop_bit 24 c"
    by (rule bit_word_eqI) (auto simp: bit_simps dest: bit_imp_le_length)
  have push: "(crc_step ^^ 32) (push_bit k (take_bit 8 y)) = (crc_step ^^ (32 - k)) (take_bit 8 y)"
    if "k \<le> 24" for k y
    by (rule crc_steps_push) (use that in simp_all)
  have "(crc_step ^^ 32) c =
      (crc_step ^^ 32) (take_bit 8 c) XOR (crc_step ^^ 24) (take_bit 8 (drop_bit 8 c)) XOR
      (crc_step ^^ 16) (take_bit 8 (drop_bit 16 c)) XOR (crc_step ^^ 8) (drop_bit 24 c)"
    using push [of 8 "drop_bit 8 c"] push [of 16 "drop_bit 16 c"] push [of 24 "drop_bit 24 c"]
    by (subst split_bytes [of c]) (simp only: crc_step_xor 24, simp)
  also have "\<dots> = STEP4 l (b0 # b1 # b2 # b3 # p)"
    using table_nth(1) [OF unat_take_8, of "drop_bit 24 c"]
    unfolding STEP4_def Let_def c_def [symmetric] and_FF 24
    by (simp only: table_nth(2-4) [OF unat_take_8] of_nat_unat ucast_id)
  finally show ?thesis
    by (simp only: crc_byte_4 c_def LE_LOAD32_bytes xor.assoc)
qed

lemma STEP4_fold: "4 \<le> length p \<Longrightarrow> foldl crc_byte (STEP4 l p) (drop 4 p) = foldl crc_byte l p"
  by (auto simp: numeral_eq_Suc Suc_le_length_iff STEP4_eq)

lemma extend4_eq: "(case extend4 l p of (l', p') \<Rightarrow> foldl crc_byte l' p') = foldl crc_byte l p"
proof (induction l p rule: extend4.induct)
  case (1 l p)
  then show ?case by (subst extend4.simps) (simp add: STEP4_fold)
qed

lemma extend16_eq: "(case extend16 l p of (l', p') \<Rightarrow> foldl crc_byte l' p') = foldl crc_byte l p"
proof (induction l p rule: extend16.induct)
  case (1 l p)
  show ?case
  proof (cases "length p \<ge> 16")
    case True
    have fold: "foldl crc_byte (STEP4 m (drop k p)) (drop (4 + k) p) = foldl crc_byte m (drop k p)"
      if "k \<le> 12" for k m
      using STEP4_fold [of "drop k p" m] that True by simp
    show ?thesis
      using 1 [OF True] True fold [of 12] fold [of 8] fold [of 4] fold [of 0]
      by (subst extend16.simps) simp
  next
    case False
    then show ?thesis by (subst extend16.simps) simp
  qed
qed

lemma extend1_eq: "extend1 l p = foldl crc_byte l p"
  by (induction l p rule: extend1.induct) (simp_all add: STEP1_eq)

lemma extend_align_eq:
  "k \<le> length p \<Longrightarrow> extend_align k l p = Some (foldl crc_byte l (take k p), drop k p)"
  by (induction k l p rule: extend_align.induct) (simp_all add: STEP1_eq)

lemma not_accelerated: "\<not> CanAccelerateCRC32C"
  by (simp add: CanAccelerateCRC32C_def AcceleratedCRC32C_def)

text \<open>
  The checksum of a buffer that does not reach the last three bytes of the address space,
  wherever it lies.
\<close>

lemma align_within:
  assumes "unat pval + n + 3 < 2 ^ 64" "push_bit 2 (drop_bit 2 (pval + 3)) \<le> pval + of_nat n"
  shows "unat (push_bit 2 (drop_bit 2 (pval + 3)) - pval :: addr) \<le> n"
proof -
  let ?x = "push_bit 2 (drop_bit 2 (pval + 3)) :: addr"
  have "unat (pval + 3) = unat pval + 3" using assms(1) by (subst unat_add_small) simp_all
  moreover have "unat ?x = unat (pval + 3) div 4 * 4"
  proof -
    have "unat ?x = take_bit 64 (push_bit 2 (drop_bit 2 (unat (pval + 3))))"
      by (simp only: unsigned_push_bit_eq unat_drop_bit_eq) simp
    also have "\<dots> = push_bit 2 (drop_bit 2 (unat (pval + 3)))"
      using u64_less [of "pval + 3"] by (intro take_bit_nat_eq_self) (simp add: push_bit_eq_mult drop_bit_eq_div)
    finally show ?thesis by (simp add: push_bit_eq_mult drop_bit_eq_div)
  qed
  ultimately have x: "unat pval \<le> unat ?x" by simp
  have "unat (pval + of_nat n) = unat pval + n"
    using assms(1) by (subst unat_add_small) (simp_all add: unat_of_nat_small)
  then have "unat ?x \<le> unat pval + n" using assms(2) by (simp add: word_le_nat_alt)
  with x show ?thesis by (simp add: unat_sub word_le_nat_alt)
qed

lemma Extend_at_eq:
  assumes "unat pval + length buf + 3 < 2 ^ 64"
  shows "Extend_at pval crc buf = Some (crc32c crc buf)"
proof -
  define l where "l = crc XOR 0xffffffff"
  define x where "x = push_bit 2 (drop_bit 2 (pval + 3))"
  obtain l1 p1 where 1: "(if x \<le> pval + of_nat (length buf)
        then extend_align (unat (x - pval)) l buf else Some (l, buf)) = Some (l1, p1)"
    and f1: "foldl crc_byte l1 p1 = foldl crc_byte l buf"
  proof (cases "x \<le> pval + of_nat (length buf)")
    case True
    then have "unat (x - pval) \<le> length buf" using align_within [of pval] assms by (simp add: x_def)
    then show ?thesis
      using True extend_align_eq [of "unat (x - pval)" buf l]
      by (intro that [of "foldl crc_byte l (take (unat (x - pval)) buf)" "drop (unat (x - pval)) buf"])
        (simp_all flip: foldl_append)
  qed (auto intro: that)
  obtain l2 p2 where 2: "extend16 l1 p1 = (l2, p2)" by fastforce
  obtain l3 p3 where 3: "extend4 l2 p2 = (l3, p3)" by fastforce
  have "extend1 l3 p3 = foldl crc_byte l buf"
    using extend16_eq [of l1 p1] extend4_eq [of l2 p2] by (simp add: 2 3 f1 extend1_eq)
  then show ?thesis
    using 1 by (simp add: Extend_at_def not_accelerated Let_def 2 3 crc32c_def flip: l_def x_def)
qed

lemma Extend_eq: "length buf + 3 < 2 ^ 64 \<Longrightarrow> Extend crc buf = crc32c crc buf"
  by (simp add: Extend_def Extend_at_eq)

lemma crc32c_append: "crc32c crc (as @ bs) = crc32c (crc32c crc as) bs"
  by (simp add: crc32c_def xor.assoc)


text \<open>Rotating by 15 bits one way and the other.\<close>

lemma rotate_15_17:
  "drop_bit 17 (drop_bit 15 r OR push_bit 17 r) OR push_bit 15 (drop_bit 15 r OR push_bit 17 r) = (r :: u32)"
  "drop_bit 15 (drop_bit 17 r OR push_bit 15 r) OR push_bit 17 (drop_bit 17 r OR push_bit 15 r) = (r :: u32)"
proof -
  have *: "bit r (k + (n - k)) \<longleftrightarrow> bit r n" if "\<not> n < k" for n k using that by simp
  show "drop_bit 17 (drop_bit 15 r OR push_bit 17 r) OR push_bit 15 (drop_bit 15 r OR push_bit 17 r) = r"
    by (rule bit_word_eqI) (auto simp: bit_simps dest: bit_imp_le_length intro: * [THEN iffD1] * [THEN iffD2])
  show "drop_bit 15 (drop_bit 17 r OR push_bit 15 r) OR push_bit 17 (drop_bit 17 r OR push_bit 15 r) = r"
    by (rule bit_word_eqI) (auto simp: bit_simps dest: bit_imp_le_length intro: * [THEN iffD1] * [THEN iffD2])
qed

lemma Unmask_Mask: "Unmask (Mask c) = c"
  by (simp only: Unmask_def Mask_def Let_def add_diff_cancel_right' rotate_15_17)

lemma Mask_Unmask: "Mask (Unmask c) = c"
  by (simp only: Unmask_def Mask_def Let_def diff_add_cancel rotate_15_17)

subsection \<open>Errors the checksum detects\<close>

lemma bit_poly_31: "bit (0x82f63b78 :: u32) 31"
  by code_simp

lemma word_xor_eq_0: "x XOR y = 0 \<longleftrightarrow> x = (y :: 'a::len word)"
  by (metis xor.left_commute xor.right_neutral xor_self_eq)

lemma word_xor_cancel: "x XOR b = y XOR b \<longleftrightarrow> x = (y :: 'a::len word)"
  by (metis xor.assoc xor.right_neutral xor_self_eq)

lemma crc_step_eq_0: "crc_step x = 0 \<Longrightarrow> x = 0"
proof -
  assume z: "crc_step x = 0"
  have "\<not> bit x 0"
  proof
    assume "bit x 0"
    then have "bit (crc_step x) 31 = bit (drop_bit 1 x XOR 0x82f63b78) 31" by (simp add: crc_step_def)
    also have "\<dots>" using bit_poly_31 by (auto simp: bit_xor_iff bit_drop_bit_eq simp del: bit_numeral_word_iff dest: bit_imp_le_length)
    finally show False by (simp add: z)
  qed
  moreover from this z have "drop_bit 1 x = 0" by (simp add: crc_step_def)
  then have "\<not> bit x (Suc n)" for n 
    using bit_drop_bit_eq [of 1 x] by (metis bit_0_eq bot_apply bot_bool_def comp_apply plus_1_eq_Suc)
  ultimately have "\<not> bit x n" for n by (cases n) auto
  then show "x = 0" by (intro bit_word_eqI) simp
qed

lemma crc_steps_inj: "(crc_step ^^ n) x = (crc_step ^^ n) y \<Longrightarrow> x = y"
proof (induction n arbitrary: x y)
  case 0
  then show ?case by simp
next
  case (Suc n)
  have "crc_step x = crc_step y" by (rule Suc.IH) (use Suc.prems in \<open>simp add: funpow_swap1\<close>)
  then have "crc_step (x XOR y) = 0" using linear_step by (simp add: linear_def)
  then have "x XOR y = 0" by (rule crc_step_eq_0)
  then show ?case by (simp add: word_xor_eq_0)
qed

lemma crc_bytes_inj: "foldl crc_byte l bs = foldl crc_byte m bs \<Longrightarrow> l = m"
proof (induction bs arbitrary: l m)
  case Nil
  then show ?case by simp
next
  case (Cons b bs)
  then have "crc_byte l b = crc_byte m b" by simp
  then have "l XOR ucast b = m XOR ucast b" unfolding crc_byte_def by (rule crc_steps_inj)
  then show ?case by (simp add: word_xor_cancel)
qed

lemma crc_word: "length us = 4 \<Longrightarrow> foldl crc_byte l us = (crc_step ^^ 32) (l XOR LE_LOAD32 us)"
proof -
  assume "length us = 4"
  then obtain b0 b1 b2 b3 where "us = [b0, b1, b2, b3]"
    by (auto simp: numeral_eq_Suc length_Suc_conv)
  then show ?thesis by (simp only: crc_byte_4 LE_LOAD32_bytes)
qed

lemma crc_word_inj:
  assumes "length vs = 4" "length ws = 4" "foldl crc_byte l vs = foldl crc_byte l ws"
  shows "vs = ws"
proof -
  have "l XOR LE_LOAD32 vs = l XOR LE_LOAD32 ws"
    using assms(3) unfolding crc_word [OF assms(1)] crc_word [OF assms(2)] by (rule crc_steps_inj)
  then have "LE_LOAD32 vs = LE_LOAD32 ws" by (simp only: xor.commute [of l] word_xor_cancel)
  then have "(bytes_to_word vs :: u32) = bytes_to_word ws"
    using assms by (simp add: LE_LOAD32_def DecodeFixed32_def)
  then have "word_to_bytes 4 (bytes_to_word vs :: u32) = word_to_bytes 4 (bytes_to_word ws :: u32)"
    by simp
  then show ?thesis using assms(1,2) by (simp add: word_to_bytes_to_word)
qed

subsection \<open>Properties\<close>

text \<open>C19: \<^verbatim>\<open>Extend\<close> with its alignment prologue, its strides of sixteen, four and one bytes and
  its four tables returns the bitwise CRC-32C of the buffer whatever the address of the buffer,
  and reads no byte outside it.\<close>

theorem Extend_exact:
  assumes "unat pval + length buf + 3 < 2 ^ 64"
  shows "Extend_at pval crc buf = Some (crc32c crc buf)"
  using assms by (rule Extend_at_eq)

lemma Extend_exact_witness:
  "Extend_at 0x1001 0 [0x31, 0x32, 0x33, 0x34, 0x35, 0x36, 0x37, 0x38, 0x39] = Some 0xe3069283"
proof -
  have "crc32c 0 [0x31, 0x32, 0x33, 0x34, 0x35, 0x36, 0x37, 0x38, 0x39] = 0xe3069283"
    by (simp add: crc32c_def crc_byte_def crc_step_8) (simp add: crc_step_def)
  then show ?thesis
    using Extend_exact [where pval = "0x1001" and crc = 0
        and buf = "[0x31, 0x32, 0x33, 0x34, 0x35, 0x36, 0x37, 0x38, 0x39]"] by simp
qed

text \<open>Extending the checksum of a string by another is the checksum of the two in a row, which
  is how the log and the table writer checksum a record in pieces.\<close>

lemma Extend_append:
  assumes "length as + length bs + 3 < 2 ^ 64"
  shows "Extend (Extend crc as) bs = Extend crc (as @ bs) \<and>
    Extend (Value as) bs = Value (as @ bs)"
  using assms by (simp add: Value_def Extend_eq crc32c_append)

text \<open>Masking a stored checksum is undone by \<^verbatim>\<open>Unmask\<close>, and every stored word is the
  mask of one checksum.\<close>

lemma Mask_bijective: "Unmask (Mask c) = c \<and> Mask (Unmask c) = c"
  by (simp add: Unmask_Mask Mask_Unmask)

text \<open>C20: A corruption confined to four bytes in a row never goes unnoticed: the stored, masked
  checksums of the two strings differ.\<close>

theorem Value_detects_burst:
  assumes "length vs = 4" "length ws = 4" "vs \<noteq> ws" "length as + length bs + 7 < 2 ^ 64"
  shows "Mask (Value (as @ vs @ bs)) \<noteq> Mask (Value (as @ ws @ bs))"
proof
  assume "Mask (Value (as @ vs @ bs)) = Mask (Value (as @ ws @ bs))"
  then have "Value (as @ vs @ bs) = Value (as @ ws @ bs)" by (metis Unmask_Mask)
  then have "crc32c 0 (as @ vs @ bs) = crc32c 0 (as @ ws @ bs)"
    using assms by (simp add: Value_def Extend_eq)
  then have "foldl crc_byte (foldl crc_byte l (as @ vs)) bs = foldl crc_byte (foldl crc_byte l (as @ ws)) bs"
    if "l = 0 XOR 0xffffffff" for l
    using that by (simp only: crc32c_def word_xor_cancel foldl_append)
  from crc_bytes_inj [OF this [OF refl]]
  have "foldl crc_byte (foldl crc_byte (0 XOR 0xffffffff) as) vs =
      foldl crc_byte (foldl crc_byte (0 XOR 0xffffffff) as) ws"
    by (simp only: foldl_append)
  then have "vs = ws" by (rule crc_word_inj [OF assms(1,2)])
  with assms(3) show False by simp
qed

lemma Value_detects_burst_witness:
  "Mask (Value ([9] @ [1, 2, 3, 4] @ [])) \<noteq> Mask (Value ([9] @ [1, 2, 3, 5] @ []))"
  by (rule Value_detects_burst) simp_all

end
