(* ===== verification/Ldb_Log_Write.thy ===== *)
theory Ldb_Log_Write
  imports Ldb_Log Ldb_Crc32c_Correct
begin

unbundle bit_operations_syntax

text \<open>
  The log format as a function from records to bytes, the comments of \<^verbatim>\<open>db/log_format.h\<close> made
  precise (blocks of 32 KiB, a padded trailer, headers with checksum, length and type), and the
  writer against it: what \<^verbatim>\<open>AddRecord\<close> appends to a file whose operations succeed, and how
  the offset it keeps follows the length of the file.
\<close>

subsection \<open>The format\<close>

text \<open>A physical record, and a record framed from an offset in a block: the bytes and the offset after.\<close>

definition physical :: "u32 \<Rightarrow> byte list \<Rightarrow> byte list" where
  "physical t p =
     EncodeFixed32 (Mask (crc32c 0 (ucast t # p))) @
       [of_nat (length p), of_nat (length p div 256), ucast t] @ p"

lemma length_physical [simp]: "length (physical t p) = kHeaderSize + length p"
  by (simp add: physical_def kHeaderSize_def EncodeFixed32_def)

definition block_pad :: "nat \<Rightarrow> nat" where
  "block_pad off = (if kBlockSize - off < kHeaderSize then kBlockSize - off else 0)"

definition block_start :: "nat \<Rightarrow> nat" where
  "block_start off = (if kBlockSize - off < kHeaderSize then 0 else off)"

definition fragment_size :: "nat \<Rightarrow> byte list \<Rightarrow> nat" where
  "fragment_size off data = min (length data) (kBlockSize - block_start off - kHeaderSize)"

lemma block_start_room: "block_start off + kHeaderSize \<le> kBlockSize"
  by (simp add: block_start_def kBlockSize_def kHeaderSize_def) linarith

lemma fragment_size_le:
  "fragment_size off data \<le> length data"
  "block_start off + kHeaderSize + fragment_size off data \<le> kBlockSize"
  using block_start_room [of off] by (auto simp: fragment_size_def)

function framed :: "nat \<Rightarrow> bool \<Rightarrow> byte list \<Rightarrow> byte list \<times> nat" where
  "framed off begin data =
     (let n = fragment_size off data;
          p = replicate (block_pad off) 0 @
                physical (fragment_type begin (n = length data)) (take n data);
          off1 = block_start off + kHeaderSize + n
      in if n = length data then (p, off1)
         else (case framed off1 False (drop n data) of (q, off2) \<Rightarrow> (p @ q, off2)))"
  by auto

text \<open>The measure that bounds the fragments of a record.\<close>

definition fragments_left :: "nat \<Rightarrow> byte list \<Rightarrow> nat" where
  "fragments_left off data = 2 * length data + (if kBlockSize - off = kHeaderSize then 1 else 0)"

lemma fragments_left_less:
  assumes "fragment_size off data \<noteq> length data"
  shows "fragments_left (block_start off + kHeaderSize + fragment_size off data)
     (drop (fragment_size off data) data) < fragments_left off data"
  using assms
  by (auto simp: fragments_left_def fragment_size_def block_start_def kBlockSize_def kHeaderSize_def min_def
      split: if_splits)

termination framed
  by (relation "measure (\<lambda>(off, begin, data). fragments_left off data)")
    (auto intro: fragments_left_less)

declare framed.simps [simp del]

primrec log_image :: "nat \<Rightarrow> byte list list \<Rightarrow> byte list" where
  "log_image off [] = []"
| "log_image off (x # xs) = (case framed off True x of (p, off1) \<Rightarrow> p @ log_image off1 xs)"

primrec log_end :: "nat \<Rightarrow> byte list list \<Rightarrow> nat" where
  "log_end off [] = off"
| "log_end off (x # xs) = log_end (snd (framed off True x)) xs"

lemma log_image_append: "log_image off (xs @ ys) = log_image off xs @ log_image (log_end off xs) ys"
  by (induction xs arbitrary: off) (simp_all add: split_def)

subsection \<open>The writer\<close>

text \<open>A file whose operations succeed, \<open>contents\<close> its bytes.\<close>

definition plain_writable :: "'f WritableFile \<Rightarrow> ('f \<Rightarrow> byte list) \<Rightarrow> bool" where
  "plain_writable env contents =
     ((\<forall>s f. ok (fst (Append env s f)) \<and> contents (snd (Append env s f)) = contents f @ s) \<and>
      (\<forall>f. ok (fst (Flush env f)) \<and> contents (snd (Flush env f)) = contents f))"

definition writing :: "'f Writer \<Rightarrow> bool" where
  "writing w = (w_type_crc w = InitTypeCrc \<and> w_block_offset w \<le> kBlockSize)"

lemma type_crc_nth: "(t :: u32) \<le> 4 \<Longrightarrow> InitTypeCrc ! unat t = crc32c 0 [ucast t]"
proof -
  assume "t \<le> 4"
  then have "unat t \<le> 4" by (simp add: word_le_nat_alt)
  then have "InitTypeCrc ! unat t = Value [of_nat (unat t)]"
    by (simp add: InitTypeCrc_def kMaxRecordType_def kLastType_def del: upt_Suc)
  then show ?thesis by (simp add: Value_def Extend_eq)
qed

lemma physical_written:
  assumes "t \<le> 4" "length p < 65536"
  shows "EncodeFixed32 (Mask (Extend (InitTypeCrc ! unat t) p)) @
      [of_nat (length p), of_nat (length p div 256), ucast t] @ p = physical t p"
  using assms crc32c_append [of 0 "[ucast t]" p]
  by (simp add: physical_def type_crc_nth Extend_eq)

lemma EmitPhysicalRecord_plain:
  assumes "plain_writable env contents" "t \<le> 4" "length p < 65536" "w_type_crc w = InitTypeCrc"
  shows "\<exists>s f. EmitPhysicalRecord env t p w =
      (s, w\<lparr>w_dest := f, w_block_offset := w_block_offset w + (kHeaderSize + length p)\<rparr>) \<and>
    ok s \<and> contents f = contents (w_dest w) @ physical t p"
proof -
  let ?e = "EmitPhysicalRecord env t p w"
  have "?e = (fst ?e, w\<lparr>w_dest := w_dest (snd ?e),
      w_block_offset := w_block_offset w + (kHeaderSize + length p)\<rparr>)"
    by (simp add: EmitPhysicalRecord_def Let_def split_def)
  moreover have "ok (fst ?e)"
    using assms(1) by (auto simp: EmitPhysicalRecord_def plain_writable_def Let_def split_def)
  moreover have "contents (w_dest (snd ?e)) = contents (w_dest w) @
      EncodeFixed32 (Mask (Extend (InitTypeCrc ! unat t) p)) @
      [of_nat (length p), of_nat (length p div 256), ucast t] @ p"
    using assms(1,4) by (auto simp: EmitPhysicalRecord_def plain_writable_def Let_def split_def)
  ultimately show ?thesis by (simp only: physical_written [OF assms(2,3)]) blast
qed

lemma switch_block_plain:
  assumes "plain_writable env contents"
  shows "w_type_crc (switch_block env w) = w_type_crc w"
    "w_block_offset (switch_block env w) = block_start (w_block_offset w)"
    "contents (w_dest (switch_block env w)) =
       contents (w_dest w) @ replicate (block_pad (w_block_offset w)) 0"
  using assms
  by (auto simp: switch_block_def block_start_def block_pad_def Let_def plain_writable_def)

lemma fragment_type_le: "fragment_type b e \<le> 4"
  by (simp add: fragment_type_def kFullType_def kFirstType_def kMiddleType_def kLastType_def)

lemma add_record_loop_plain:
  assumes "plain_writable env contents"
  shows "writing w \<Longrightarrow>
    ok (fst (add_record_loop env data begin w)) \<and>
    writing (snd (add_record_loop env data begin w)) \<and>
    w_block_offset (snd (add_record_loop env data begin w)) =
      snd (framed (w_block_offset w) begin data) \<and>
    contents (w_dest (snd (add_record_loop env data begin w))) =
      contents (w_dest w) @ fst (framed (w_block_offset w) begin data)"
proof (induction "w_block_offset w" "begin" data arbitrary: w rule: framed.induct)
  case (1 first data w)
  let ?n = "fragment_size (w_block_offset w) data"
  let ?w1 = "switch_block env w"
  let ?t = "fragment_type first (length data = ?n)"
  note sw = switch_block_plain [OF assms, of w]
  have crc: "w_type_crc ?w1 = InitTypeCrc" using "1.prems" by (simp add: sw writing_def)
  have small: "length (take ?n data) < 65536"
    using fragment_size_le(2) [of "w_block_offset w" data] by (simp add: kBlockSize_def)
  have n: "(if length data < kBlockSize - w_block_offset ?w1 - kHeaderSize then length data
      else kBlockSize - w_block_offset ?w1 - kHeaderSize) = ?n"
    by (simp add: fragment_size_def sw min_def del: block_offset_switch)
  obtain s f where e: "EmitPhysicalRecord env ?t (take ?n data) ?w1 =
      (s, ?w1\<lparr>w_dest := f, w_block_offset := w_block_offset ?w1 + (kHeaderSize + length (take ?n data))\<rparr>)"
    and s: "ok s" and f: "contents f = contents (w_dest ?w1) @ physical ?t (take ?n data)"
    using EmitPhysicalRecord_plain [OF assms fragment_type_le small crc] by blast
  define w2 where
    "w2 = ?w1\<lparr>w_dest := f, w_block_offset := w_block_offset ?w1 + (kHeaderSize + length (take ?n data))\<rparr>"
  have off: "w_block_offset w2 = block_start (w_block_offset w) + kHeaderSize + ?n"
    using fragment_size_le(1) [of "w_block_offset w" data] by (simp add: w2_def sw del: block_offset_switch)
  have wr: "writing w2"
    using fragment_size_le(2) [of "w_block_offset w" data] off crc by (simp add: writing_def w2_def)
  have step: "add_record_loop env data first w =
      (if length data - ?n > 0 then add_record_loop env (drop ?n data) False w2 else (s, w2))"
    using s by (subst add_record_loop.simps) (simp only: Let_def n e split_def fst_conv snd_conv simp_thms flip: w2_def)
  have con: "contents (w_dest w2) = contents (w_dest w) @ replicate (block_pad (w_block_offset w)) 0 @
      physical ?t (take ?n data)"
    by (simp add: w2_def f sw)
  show ?case
  proof (cases "?n = length data")
    case True
    then show ?thesis
      using step s wr off con by (simp add: framed.simps [of _ first data] Let_def)
  next
    case False
    then have l: "length data - ?n > 0" using fragment_size_le(1) [of "w_block_offset w" data] by linarith
    show ?thesis
      using "1.hyps" [OF refl refl off False wr] l step off con False
      by (simp add: framed.simps [of _ first data] Let_def split_def eq_commute)
  qed
qed


lemma AddRecord_plain:
  assumes "plain_writable env contents" "writing w"
  shows "ok (fst (AddRecord env data w))"
    "writing (snd (AddRecord env data w))"
    "w_block_offset (snd (AddRecord env data w)) = snd (framed (w_block_offset w) True data)"
    "contents (w_dest (snd (AddRecord env data w))) =
       contents (w_dest w) @ fst (framed (w_block_offset w) True data)"
  using add_record_loop_plain [OF assms] by (simp_all add: AddRecord_def)

text \<open>The client's loop over the records it logs.\<close>

definition add_records :: "'f WritableFile \<Rightarrow> slice list \<Rightarrow> 'f Writer \<Rightarrow> 'f Writer" where
  "add_records env rs w = fold (\<lambda>x w. snd (AddRecord env x w)) rs w"

lemma add_records_plain:
  assumes "plain_writable env contents"
  shows "writing w \<Longrightarrow>
    writing (add_records env rs w) \<and>
    w_block_offset (add_records env rs w) = log_end (w_block_offset w) rs \<and>
    contents (w_dest (add_records env rs w)) =
      contents (w_dest w) @ log_image (w_block_offset w) rs"
  by (induction rs arbitrary: w)
    (auto simp: add_records_def AddRecord_plain [OF assms] split_def)

lemma writing_new [simp]: "writing (mk_Writer g)" "writing (mk_Writer_at g n)"
  by (simp_all add: writing_def mk_Writer_def mk_Writer_at_def kBlockSize_def less_imp_le)

subsection \<open>Reopening a log\<close>

lemma framed_offset:
  "(off + length (fst (framed off begin data))) mod kBlockSize = snd (framed off begin data) mod kBlockSize
   \<and> snd (framed off begin data) \<le> kBlockSize" if "off \<le> kBlockSize"
  using that
proof (induction off "begin" data rule: framed.induct)
  case (1 off first data)
  let ?n = "fragment_size off data"
  have pad: "off + block_pad off = block_start off + (if kBlockSize - off < kHeaderSize then kBlockSize else 0)"
    using "1.prems" by (simp add: block_pad_def block_start_def)
  have off1: "block_start off + kHeaderSize + ?n \<le> kBlockSize" by (rule fragment_size_le)
  have base: "(off + (block_pad off + (kHeaderSize + ?n))) mod kBlockSize =
      (block_start off + kHeaderSize + ?n) mod kBlockSize"
    unfolding add.assoc [symmetric] pad by (simp add: add.assoc [symmetric]) (simp add: ac_simps)
  show ?case
  proof (cases "?n = length data")
    case True
    then show ?thesis using base off1 by (subst (1 2 3) framed.simps) (simp add: Let_def)
  next
    case False
    let ?q = "framed (block_start off + kHeaderSize + ?n) False (drop ?n data)"
    have "(off + (block_pad off + (kHeaderSize + ?n)) + length (fst ?q)) mod kBlockSize =
        (block_start off + kHeaderSize + ?n + length (fst ?q)) mod kBlockSize"
      using base by (metis mod_add_left_eq)
    then show ?thesis
      using "1.IH" [OF refl refl refl False off1] False fragment_size_le(1) [of off data]
      by (subst (1 2 3) framed.simps) (simp add: Let_def split_def add.assoc)
  qed
qed

lemma framed_mod:
  assumes "off \<le> kBlockSize"
  shows "framed (off mod kBlockSize) begin data = framed off begin data"
proof (cases "off = kBlockSize")
  case True
  have "block_pad (0::nat) = 0" "block_start (0::nat) = 0" "block_pad kBlockSize = 0" "block_start kBlockSize = 0"
    by (simp_all add: block_pad_def block_start_def kBlockSize_def kHeaderSize_def)
  then have "fragment_size kBlockSize data = fragment_size 0 data" by (simp add: fragment_size_def)
  with True show ?thesis
    by (subst (1 2) framed.simps) (simp add: \<open>block_pad 0 = 0\<close> \<open>block_start 0 = 0\<close>
        \<open>block_pad kBlockSize = 0\<close> \<open>block_start kBlockSize = 0\<close>)
qed (use assms in simp)

lemma log_image_mod: "off \<le> kBlockSize \<Longrightarrow> log_image (off mod kBlockSize) rs = log_image off rs"
  by (cases rs) (simp_all add: framed_mod)

lemma log_end_offset:
  "off \<le> kBlockSize \<Longrightarrow> log_end off rs \<le> kBlockSize \<and>
     (off + length (log_image off rs)) mod kBlockSize = log_end off rs mod kBlockSize"
proof (induction rs arbitrary: off)
  case Nil
  then show ?case by simp
next
  case (Cons x xs)
  let ?q = "framed off True x"
  have 1: "snd ?q \<le> kBlockSize" "(off + length (fst ?q)) mod kBlockSize = snd ?q mod kBlockSize"
    using framed_offset [OF Cons.prems] by auto
  have "(off + length (fst ?q) + length (log_image (snd ?q) xs)) mod kBlockSize =
      (snd ?q + length (log_image (snd ?q) xs)) mod kBlockSize"
    using 1(2) by (metis mod_add_left_eq)
  then show ?case using Cons.IH [OF 1(1)] by (simp add: split_def add.assoc)
qed

end
