(* ===== verification/Prefix_Codec.thy ===== *)
theory Prefix_Codec
  imports Prelude
begin

text \<open>
  The contract of a self-delimiting code: a writer of values and a reader that takes a value
  off the front of a byte list. What follows from it alone, unique readability of one value,
  of a pair and of a sequence, is proved here once; the integer and slice coders of LevelDB,
  its block handles and its records are interpretations.
\<close>

locale prefix_codec =
  fixes valid :: "'a \<Rightarrow> bool"
    and enc :: "'a \<Rightarrow> byte list"
    and dec :: "byte list \<Rightarrow> ('a \<times> byte list) option"
  assumes dec_enc: "valid x \<Longrightarrow> dec (enc x @ r) = Some (x, r)"
    and dec_consumes: "dec bs = Some (x, r) \<Longrightarrow> \<exists>vs. vs \<noteq> [] \<and> bs = vs @ r"

context prefix_codec
begin

lemma dec_enc_exact: "valid x \<Longrightarrow> dec (enc x) = Some (x, [])"
  using dec_enc [of x "[]"] by simp

lemma dec_shorter: "dec bs = Some (x, r) \<Longrightarrow> length r < length bs"
  by (auto dest: dec_consumes)

lemma dec_Nil: "dec [] = None"
  by (cases "dec []") (auto dest: dec_shorter)

lemma enc_not_Nil: "valid x \<Longrightarrow> enc x \<noteq> []"
  using dec_Nil dec_enc_exact [of x] by auto

text \<open>No encoding is a proper prefix of another.\<close>

lemma enc_prefix_free:
  "valid x \<Longrightarrow> valid y \<Longrightarrow> enc x @ r = enc y @ s \<Longrightarrow> x = y \<and> r = s"
  by (metis dec_enc option.inject prod.inject)

lemma enc_inj: "valid x \<Longrightarrow> valid y \<Longrightarrow> enc x = enc y \<Longrightarrow> x = y"
  using enc_prefix_free [of x y "[]" "[]"] by simp

lemma enc_sequence_inj:
  "(\<And>x. x \<in> set xs \<union> set ys \<Longrightarrow> valid x) \<Longrightarrow>
     concat (map enc xs) = concat (map enc ys) \<Longrightarrow> xs = ys"
proof (induction xs arbitrary: ys)
  case Nil
  then show ?case by (cases ys) (auto simp: enc_not_Nil)
next
  case (Cons x xs)
  show ?case
  proof (cases ys)
    case Nil
    with Cons.prems show ?thesis by (auto simp: enc_not_Nil)
  next
    case (Cons y ys')
    then have "enc x @ concat (map enc xs) = enc y @ concat (map enc ys')"
      using Cons.prems by simp
    then have "x = y \<and> concat (map enc xs) = concat (map enc ys')"
      using Cons.prems Cons by (intro enc_prefix_free) auto
    then show ?thesis using Cons.IH [of ys'] Cons.prems Cons by auto
  qed
qed

end

subsection \<open>Two codes in a row\<close>

definition dec_pair ::
  "(byte list \<Rightarrow> ('a \<times> byte list) option) \<Rightarrow> (byte list \<Rightarrow> ('b \<times> byte list) option) \<Rightarrow>
   byte list \<Rightarrow> (('a \<times> 'b) \<times> byte list) option" where
  "dec_pair decA decB bs =
     (case decA bs of
        None \<Rightarrow> None
      | Some (x, r) \<Rightarrow> (case decB r of None \<Rightarrow> None | Some (y, s) \<Rightarrow> Some ((x, y), s)))"

locale codec_pair = A: prefix_codec validA encA decA + B: prefix_codec validB encB decB
  for validA :: "'a \<Rightarrow> bool" and encA decA and validB :: "'b \<Rightarrow> bool" and encB decB

sublocale codec_pair \<subseteq> pair: prefix_codec
  "\<lambda>(x, y). validA x \<and> validB y" "\<lambda>(x, y). encA x @ encB y" "dec_pair decA decB"
proof
  show "dec_pair decA decB ((case x of (x, y) \<Rightarrow> encA x @ encB y) @ r) = Some (x, r)"
    if "case x of (x, y) \<Rightarrow> validA x \<and> validB y" for x r
    using that by (auto simp: dec_pair_def A.dec_enc B.dec_enc)
next
  show "\<exists>vs. vs \<noteq> [] \<and> bs = vs @ r" if "dec_pair decA decB bs = Some (x, r)" for bs x r
    using that
    by (fastforce simp: dec_pair_def split: option.splits dest: A.dec_consumes B.dec_consumes)
qed

end
