(* ===== verification/Ldb_Coding_Correct.thy ===== *)
theory Ldb_Coding_Correct
  imports Ldb_Coding Prefix_Codec "HOL-Library.List_Lexorder"
begin

unbundle bit_operations_syntax

text \<open>
  The integer coders of LevelDB compute the varints of \<^verbatim>\<open>Wire_Spec\<close>, each of them with its
  slice and length-prefixed variants is a self-delimiting code, and a slice comparison is the
  lexicographic order of the bytes.
\<close>

subsection \<open>Varint digits in words\<close>

lemma word_128: "(128 :: 'a::len word) = push_bit 7 1"
  by (simp add: push_bit_eq_mult)

lemma bit_128: "7 < LENGTH('a) \<Longrightarrow> bit (128 :: 'a::len word) n \<longleftrightarrow> n = 7"
  unfolding word_128 by (simp only: bit_push_bit_iff bit_1_iff possible_bit_word) auto

lemma unat_128_word: "7 < LENGTH('a) \<Longrightarrow> unat (128 :: 'a::len word) = 128"
proof -
  assume "7 < LENGTH('a)"
  then have "(2::nat) ^ 8 \<le> 2 ^ LENGTH('a)" by (intro power_increasing) auto
  then show ?thesis using unat_of_nat_small [of 128, where 'a = 'a] by simp
qed

text \<open>The byte of a varint with its continuation bit, as the word operations build it.\<close>

lemma ucast_low_7: "take_bit 7 (ucast w) = (of_nat (unat (w :: 'a::len word) mod 128) :: byte)"
  if "7 < LENGTH('a)"
proof -
  have "unat (take_bit 7 (ucast w) :: byte) = unat w mod 128"
  proof -
    have "unat (take_bit 7 (ucast w) :: byte) = take_bit 7 (take_bit 8 (unat w))"
      by (simp only: unsigned_take_bit_eq unsigned_ucast_eq) simp
    then show ?thesis by (simp only: take_bit_take_bit) (simp add: take_bit_eq_mod)
  qed
  then show ?thesis by (metis of_nat_unat ucast_id)
qed

lemma ucast_or_128: "ucast (w OR 128 :: 'a::len word) = (of_nat (128 + unat w mod 128) :: byte)"
  if "7 < LENGTH('a)"
proof -
  have "ucast (w OR 128) = (take_bit 7 (ucast w) OR push_bit 7 1 :: byte)"
    unfolding word_128
    by (rule bit_word_eqI) (use that in \<open>auto simp: bit_simps numeral_eq_Suc less_Suc_eq\<close>)
  also have "\<dots> = take_bit 7 (ucast w) + push_bit 7 1"
    by (rule or_push_bit_eq_add) simp
  finally show ?thesis using that by (simp add: ucast_low_7 push_bit_eq_mult)
qed

lemma ucast_and_or_128:
  "ucast ((w AND 127) OR 128 :: 'a::len word) = (of_nat (128 + unat w mod 128) :: byte)"
  if "7 < LENGTH('a)"
proof -
  have "w AND 127 = take_bit 7 w" by (simp add: take_bit_eq_mask mask_eq_exp_minus_1)
  then have "unat (w AND 127) = unat w mod 128"
    by (simp only: unsigned_take_bit_eq) (simp add: take_bit_eq_mod)
  then show ?thesis using that by (simp add: ucast_or_128)
qed

lemma ucast_small: "unat (w :: 'a::len word) < 256 \<Longrightarrow> ucast w = (of_nat (unat w) :: byte)"
  by (rule ucast_of_unat) simp

lemma unat_drop: "unat (drop_bit k (v :: 'a::len word)) = unat v div 2 ^ k"
  by (subst unat_drop_bit_eq) (rule drop_bit_eq_div)


lemma EncodeVarint64_eq: "EncodeVarint64 v = varint_bytes (unat v)"
proof (induction v rule: EncodeVarint64.induct)
  case (1 v)
  have le: "128 \<le> v \<longleftrightarrow> \<not> unat v < 128" by (simp add: word_le_nat_alt not_less)
  show ?case
  proof (cases "unat v < 128")
    case True
    then have "EncodeVarint64 v = [ucast v]"
      by (subst EncodeVarint64.simps) (simp only: le if_False not_True_eq_False)
    with True show ?thesis by (subst varint_bytes.simps) simp
  next
    case False
    then have "EncodeVarint64 v = ucast ((v AND 127) OR 128) # EncodeVarint64 (drop_bit 7 v)"
      by (subst EncodeVarint64.simps) (simp only: le if_True not_False_eq_True)
    also have "EncodeVarint64 (drop_bit 7 v) = varint_bytes (unat v div 128)"
      using 1 False unfolding le unat_drop by simp
    finally show ?thesis
      using False by (subst varint_bytes.simps) (simp only: ucast_and_or_128 if_False, simp add: ucast_and_or_128)
  qed
qed

text \<open>One digit of the unrolled \<^verbatim>\<open>EncodeVarint32\<close>.\<close>

lemma varint_digit:
  "7 < LENGTH('a) \<Longrightarrow> 128 \<le> unat (w :: 'a::len word) \<Longrightarrow>
     varint_bytes (unat w) = ucast (w OR 128) # varint_bytes (unat (drop_bit 7 w))"
  by (subst varint_bytes.simps) (simp only: ucast_or_128 unat_drop, simp)

lemma varint_last: "unat (w :: 'a::len word) < 128 \<Longrightarrow> varint_bytes (unat w) = [ucast w]"
  by (subst varint_bytes.simps) simp

lemma EncodeVarint32_eq: "EncodeVarint32 v = varint_bytes (unat v)"
proof -
  have lt: "v < 0x80 \<longleftrightarrow> unat v < 0x80" "v < 0x4000 \<longleftrightarrow> unat v < 0x4000"
    "v < 0x200000 \<longleftrightarrow> unat v < 0x200000" "v < 0x10000000 \<longleftrightarrow> unat v < 0x10000000"
    by (simp_all add: word_less_nat_alt)
  have digits: "unat (drop_bit 7 v) = unat v div 0x80" "unat (drop_bit 14 v) = unat v div 0x4000"
    "unat (drop_bit 21 v) = unat v div 0x200000" "unat (drop_bit 28 v) = unat v div 0x10000000"
    by (simp_all only: unat_drop, simp_all)
  have step: "drop_bit 7 (drop_bit 7 v) = drop_bit 14 v" "drop_bit 7 (drop_bit 14 v) = drop_bit 21 v"
    "drop_bit 7 (drop_bit 21 v) = drop_bit 28 v"
    by simp_all
  note put = varint_digit [of v] varint_digit [of "drop_bit 7 v"] varint_digit [of "drop_bit 14 v"]
    varint_digit [of "drop_bit 21 v"] 
  note last = varint_last [of v] varint_last [of "drop_bit 7 v"] varint_last [of "drop_bit 14 v"]
    varint_last [of "drop_bit 21 v"] varint_last [of "drop_bit 28 v"]
  have le: "i \<le> n div k \<longleftrightarrow> i * k \<le> n" if "0 < k" for i k n :: nat
    using that by (rule less_eq_div_iff_mult_less_eq)
  show ?thesis
    using u32_less [of v] put last
    unfolding EncodeVarint32_def lt digits step
    by (simp add: div_less_iff_less_mult le)
qed
lemma unat_and_127: "unat ((w :: 'a::len word) AND 127) = unat w mod 128"
proof -
  have "w AND 127 = take_bit 7 w" by (simp add: take_bit_eq_mask mask_eq_exp_minus_1)
  then show ?thesis by (simp only: unsigned_take_bit_eq) (simp add: take_bit_eq_mod)
qed

lemma VarintLength_loop_eq:
  "VarintLength_loop v len = len + length (varint_bytes (unat v)) - 1"
proof (induction v len rule: VarintLength_loop.induct)
  case (1 v len)
  have le: "128 \<le> v \<longleftrightarrow> 128 \<le> unat v" by (simp add: word_le_nat_alt)
  show ?case
  proof (cases "128 \<le> unat v")
    case True
    then have "VarintLength_loop v len = VarintLength_loop (drop_bit 7 v) (len + 1)"
      by (subst VarintLength_loop.simps) (simp only: le if_True)
    moreover have "varint_bytes (unat v) = ucast (v OR 128) # varint_bytes (unat (drop_bit 7 v))"
      by (rule varint_digit) (use True in simp_all)
    ultimately show ?thesis using 1 True by (simp add: le)
  next
    case False
    then have "VarintLength_loop v len = len"
      by (subst VarintLength_loop.simps) (simp only: le if_False)
    with False show ?thesis by (simp add: varint_last)
  qed
qed

lemma VarintLength_eq: "VarintLength v = length (varint_bytes (unat v))"
  by (simp add: VarintLength_def VarintLength_loop_eq)

text \<open>
  What the reading loop returns: the varint at the front of the input, when it ends within
  the shifts allowed, its value reduced to the width of the result.
\<close>

lemma byte_and_128: "(ucast (b :: byte) :: 'a::len word) AND 128 = 0 \<longleftrightarrow> unat b < 128"
  if "7 < LENGTH('a)"
proof -
  have "(ucast b :: 'a word) AND 128 = (if bit b 7 then 128 else 0)"
    by (rule bit_word_eqI) (use that in \<open>auto simp: bit_and_iff bit_ucast_iff bit_128 simp del: bit_numeral_word_iff\<close>)
  moreover have "128 \<noteq> (0 :: 'a word)"
    using unat_128_word [OF that] by (metis unat_0 zero_neq_numeral)
  ultimately show ?thesis by (simp add: bit_byte_7)
qed

lemma push_digit:
  "push_bit k (of_nat (unat (b :: byte) mod 128)) OR push_bit (k + 7) w =
   (push_bit k (of_nat (unat b mod 128) + 128 * w) :: 'a::len word)"
proof -
  have "push_bit (k + 7) w = push_bit k (push_bit 7 w)" by simp
  then have "push_bit k (of_nat (unat b mod 128)) OR push_bit (k + 7) w =
      push_bit k (of_nat (unat b mod 128) OR push_bit 7 w)"
    by (simp only: push_bit_or)
  also have "\<dots> = push_bit k (of_nat (unat b mod 128) + push_bit 7 w)"
    by (simp only: or_push_bit_eq_add take_bit_7_digit)
  finally show ?thesis by (simp add: push_bit_eq_mult mult.commute)
qed

lemma get_varint_loop_eq:
  assumes "7 < LENGTH('a)"
  shows "get_varint_loop k shift (result :: 'a::len word) p =
    (case split_varint p of
       None \<Rightarrow> None
     | Some (vs, r) \<Rightarrow>
         if shift + 7 * (length vs - 1) \<le> k
         then Some (result OR push_bit shift (of_nat (varint_val vs)), r) else None)"
proof (induction p arbitrary: shift result)
  case Nil
  then show ?case by simp
next
  case (Cons b p)
  have digit: "ucast b AND (127 :: 'a word) = of_nat (unat b mod 128)"
  proof (rule word_unat_eq_iff [THEN iffD2])
    have "unat (ucast b :: 'a word) = unat b" by (rule unat_ucast_up) (use assms in simp)
    moreover have "unat (of_nat (unat b mod 128) :: 'a word) = unat b mod 128"
    proof (rule unat_of_nat_small)
      have "(2::nat) ^ 8 \<le> 2 ^ LENGTH('a)" using assms by (intro power_increasing) auto
      moreover have "unat b mod 128 < 128" by simp
      ultimately show "unat b mod 128 < 2 ^ LENGTH('a)" by (simp add: less_le_trans)
    qed
    ultimately show "unat (ucast b AND (127 :: 'a word)) = unat (of_nat (unat b mod 128) :: 'a word)"
      by (simp only: unat_and_127)
  qed
  show ?case
  proof (cases "unat b < 128")
    case True
    then show ?thesis by (simp add: Let_def byte_and_128 [OF assms])
  next
    case False
    then show ?thesis
      by (auto simp add: Let_def byte_and_128 [OF assms] Cons.IH digit or.assoc push_digit neq_Nil_conv split: option.split
          dest!: split_varint_append)
  qed
qed

subsection \<open>The readers\<close>

lemma GetVarint32Ptr_eq:
  "GetVarint32Ptr p =
    (case split_varint p of
       None \<Rightarrow> None
     | Some (vs, r) \<Rightarrow> if length vs \<le> 5 then Some (of_nat (varint_val vs), r) else None)"
proof -
  have quick: "GetVarint32Ptr p = GetVarint32PtrFallback p"
    by (auto simp: GetVarint32Ptr_def GetVarint32PtrFallback_def Let_def split: list.split)
  have le: "0 + 7 * (n - 1) \<le> 28 \<longleftrightarrow> n \<le> 5" for n :: nat by auto
  show ?thesis
    unfolding quick GetVarint32PtrFallback_def get_varint_loop_eq [where 'a = 32, simplified] 
    by (auto simp: le split: option.split)
qed

lemma GetVarint64Ptr_eq:
  "GetVarint64Ptr p =
    (case split_varint p of
       None \<Rightarrow> None
     | Some (vs, r) \<Rightarrow> if length vs \<le> 10 then Some (of_nat (varint_val vs), r) else None)"
proof -
  have le: "0 + 7 * (n - 1) \<le> 63 \<longleftrightarrow> n \<le> 10" for n :: nat by auto
  show ?thesis
    unfolding GetVarint64Ptr_def get_varint_loop_eq [where 'a = 64, simplified]
    by (auto simp: le split: option.split)
qed

lemma length_varint_bytes_u32: "length (varint_bytes (unat (v :: u32))) \<le> 5"
  by (rule length_varint_bytes_le) (use u32_less [of v] in simp_all)

lemma length_varint_bytes_64: "length (varint_bytes (unat (v :: u64))) \<le> 10"
  by (rule length_varint_bytes_le) (use u64_less [of v] in simp_all)

subsection \<open>The codes\<close>

definition any :: "'a \<Rightarrow> bool" where
  "any x = True"

interpretation varint32: prefix_codec any EncodeVarint32 GetVarint32
proof
  show "GetVarint32 (EncodeVarint32 x @ r) = Some (x, r)" for x r
    by (simp add: GetVarint32_def GetVarint32Ptr_eq EncodeVarint32_eq length_varint_bytes_u32)
  show "\<exists>vs. vs \<noteq> [] \<and> bs = vs @ r" if "GetVarint32 bs = Some (x, r)" for bs x r
    using that by (auto simp: GetVarint32_def GetVarint32Ptr_eq split: option.splits if_splits
        dest!: split_varint_append)
qed

interpretation varint64: prefix_codec any EncodeVarint64 GetVarint64
proof
  show "GetVarint64 (EncodeVarint64 x @ r) = Some (x, r)" for x r
    by (simp add: GetVarint64_def GetVarint64Ptr_eq EncodeVarint64_eq length_varint_bytes_64)
  show "\<exists>vs. vs \<noteq> [] \<and> bs = vs @ r" if "GetVarint64 bs = Some (x, r)" for bs x r
    using that by (auto simp: GetVarint64_def GetVarint64Ptr_eq split: option.splits if_splits
        dest!: split_varint_append)
qed

lemma GetVarint_PutVarint [simp]:
  "GetVarint32 (EncodeVarint32 v @ r) = Some (v, r)" "GetVarint32Ptr (EncodeVarint32 v @ r) = Some (v, r)"
  "GetVarint64 (EncodeVarint64 w @ r) = Some (w, r)"
  using varint32.dec_enc [of v r] varint64.dec_enc [of w r] by (simp_all add: any_def GetVarint32_def)

text \<open>The slice reader as a function to the value and the bytes left.\<close>

definition read_slice :: "byte list \<Rightarrow> (slice \<times> byte list) option" where
  "read_slice bs =
     (case GetLengthPrefixedSlice bs of (None, _) \<Rightarrow> None | (Some s, r) \<Rightarrow> Some (s, r))"

definition short_slice :: "slice \<Rightarrow> bool" where
  "short_slice s = (length s < 2 ^ 32)"

lemma GetLengthPrefixedSlice_Put:
  "short_slice s \<Longrightarrow> GetLengthPrefixedSlice (PutLengthPrefixedSlice [] s @ r) = (Some s, r)"
  by (simp add: GetLengthPrefixedSlice_def PutLengthPrefixedSlice_def PutVarint32_def
      remove_prefix_def short_slice_def unat_of_nat_small)

interpretation lp_slice: prefix_codec short_slice "PutLengthPrefixedSlice []" read_slice
proof
  show "read_slice (PutLengthPrefixedSlice [] x @ r) = Some (x, r)" if "short_slice x" for x r
    by (simp add: read_slice_def GetLengthPrefixedSlice_Put that)
  show "\<exists>vs. vs \<noteq> [] \<and> bs = vs @ r" if "read_slice bs = Some (x, r)" for bs x r
  proof -
    from that obtain len input where "GetVarint32 bs = Some (len, input)"
      and "r = drop (unat len) input"
      by (auto simp: read_slice_def GetLengthPrefixedSlice_def remove_prefix_def
          split: option.splits if_splits)
    moreover from this obtain vs where "vs \<noteq> []" "bs = vs @ input"
      by (auto dest: varint32.dec_consumes)
    ultimately show ?thesis
      by (intro exI [of _ "vs @ take (unat len) input"]) simp
  qed
qed

lemma GetLengthPrefixedSlice_ptr:
  "GetLengthPrefixedSlicePtr p = read_slice p"
  by (auto simp: GetLengthPrefixedSlicePtr_def read_slice_def GetLengthPrefixedSlice_def
      GetVarint32_def remove_prefix_def split: option.split)

definition read_fixed32 :: "byte list \<Rightarrow> (u32 \<times> byte list) option" where
  "read_fixed32 bs = (if length bs < 4 then None else Some (DecodeFixed32 bs, drop 4 bs))"

definition read_fixed64 :: "byte list \<Rightarrow> (u64 \<times> byte list) option" where
  "read_fixed64 bs = (if length bs < 8 then None else Some (DecodeFixed64 bs, drop 8 bs))"

lemma length_EncodeFixed [simp]:
  "length (EncodeFixed32 v) = 4" "length (EncodeFixed64 w) = 8"
  by (simp_all add: EncodeFixed32_def EncodeFixed64_def)

lemma DecodeFixed_EncodeFixed [simp]:
  "DecodeFixed32 (EncodeFixed32 v @ r) = v" "DecodeFixed64 (EncodeFixed64 w @ r) = w"
  by (simp_all add: DecodeFixed32_def EncodeFixed32_def DecodeFixed64_def EncodeFixed64_def
      bytes_to_word_to_bytes)

lemma DecodeFixed_EncodeFixed_exact [simp]:
  "DecodeFixed32 (EncodeFixed32 v) = v" "DecodeFixed64 (EncodeFixed64 w) = w"
  using DecodeFixed_EncodeFixed [where r = "[]"] by simp_all

lemma EncodeFixed32_DecodeFixed32: "length p = 4 \<Longrightarrow> EncodeFixed32 (DecodeFixed32 p) = p"
  by (simp add: DecodeFixed32_def EncodeFixed32_def word_to_bytes_to_word)

lemma EncodeFixed64_DecodeFixed64: "length p = 8 \<Longrightarrow> EncodeFixed64 (DecodeFixed64 p) = p"
  by (simp add: DecodeFixed64_def EncodeFixed64_def word_to_bytes_to_word)

interpretation fixed32: prefix_codec any EncodeFixed32 read_fixed32
proof
  show "read_fixed32 (EncodeFixed32 x @ r) = Some (x, r)" for x r
    by (simp add: read_fixed32_def)
  show "\<exists>vs. vs \<noteq> [] \<and> bs = vs @ r" if "read_fixed32 bs = Some (x, r)" for bs x r
    using that by (intro exI [of _ "take 4 bs"]) (auto simp: read_fixed32_def split: if_splits)
qed

interpretation fixed64: prefix_codec any EncodeFixed64 read_fixed64
proof
  show "read_fixed64 (EncodeFixed64 x @ r) = Some (x, r)" for x r
    by (simp add: read_fixed64_def)
  show "\<exists>vs. vs \<noteq> [] \<and> bs = vs @ r" if "read_fixed64 bs = Some (x, r)" for bs x r
    using that by (intro exI [of _ "take 8 bs"]) (auto simp: read_fixed64_def split: if_splits)
qed

subsection \<open>Slice comparison\<close>

lemma c_memcmp_take: "c_memcmp a b n = c_memcmp (take n a) (take n b) n"
  by (induction a b n rule: c_memcmp.induct) auto

lemma slice_compare_Cons:
  "slice_compare (x # a) (y # b) = (if x < y then - 1 else if y < x then 1 else slice_compare a b)"
  by (simp add: slice_compare_def Let_def)

lemma slice_compare_eq: "slice_compare a b = (if a = b then 0 else if a < b then - 1 else 1)"
proof (induction a arbitrary: b)
  case Nil
  then show ?case by (cases b) (simp_all add: slice_compare_def)
next
  case (Cons x a)
  then show ?case by (cases b) (auto simp: slice_compare_Cons, simp add: slice_compare_def)
qed

lemma c_memcmp_0_iff:
  "length a \<ge> n \<Longrightarrow> length b \<ge> n \<Longrightarrow> c_memcmp a b n = 0 \<longleftrightarrow> take n a = take n b"
proof (induction a b n rule: c_memcmp.induct)
  case (1 a as b bs n)
  then show ?case by auto
qed auto

lemma slice_eq_iff [simp]: "slice_eq x y \<longleftrightarrow> x = y"
  by (auto simp: slice_eq_def c_memcmp_0_iff)

lemma starts_with_iff: "starts_with s x \<longleftrightarrow> take (length x) s = x"
proof (cases "length x \<le> length s")
  case True
  then show ?thesis by (simp add: starts_with_def c_memcmp_0_iff)
next
  case False
  then have "length (take (length x) s) \<noteq> length x" by simp
  with False show ?thesis by (auto simp: starts_with_def)
qed


subsection \<open>Properties\<close>

text \<open>The unrolled 32-bit writer and the looping 64-bit writer store the base-128 varint of their
  argument, \<^verbatim>\<open>VarintLength\<close> is the number of bytes either stores, and a value that fits in
  32 bits is written the same by both.\<close>

lemma EncodeVarint_exact:
  "EncodeVarint32 v = varint_bytes (unat v) \<and> EncodeVarint64 w = varint_bytes (unat w) \<and>
   VarintLength w = length (EncodeVarint64 w) \<and>
   EncodeVarint64 (ucast v) = EncodeVarint32 v \<and> length (EncodeVarint32 v) \<le> 5 \<and>
   length (EncodeVarint64 w) \<le> 10"
  by (simp add: EncodeVarint32_eq EncodeVarint64_eq VarintLength_eq length_varint_bytes_u32
      length_varint_bytes_64 unat_ucast_up)

text \<open>\<^verbatim>\<open>GetVarint32\<close> and \<^verbatim>\<open>GetVarint64\<close> accept exactly the inputs that start with a
  terminated varint of at most 5 (10) bytes, return its value modulo the width, and leave the
  input just after it. The quick path of \<^verbatim>\<open>GetVarint32Ptr\<close> changes nothing.\<close>

lemma GetVarint_exact:
  "GetVarint32 p =
     (case split_varint p of
        None \<Rightarrow> None
      | Some (vs, r) \<Rightarrow> if length vs \<le> 5 then Some (of_nat (varint_val vs), r) else None) \<and>
   GetVarint64 p =
     (case split_varint p of
        None \<Rightarrow> None
      | Some (vs, r) \<Rightarrow> if length vs \<le> 10 then Some (of_nat (varint_val vs), r) else None)"
  by (simp add: GetVarint32_def GetVarint64_def GetVarint32Ptr_eq GetVarint64Ptr_eq)

text \<open>A length-prefixed slice shorter than 4 GiB appended to a string is read back by both
  readers, which stop just after it.\<close>

lemma length_prefixed_roundtrip:
  assumes "length s < 2 ^ 32"
  shows "GetLengthPrefixedSlice (drop (length dst) (PutLengthPrefixedSlice dst s @ r)) = (Some s, r) \<and>
    GetLengthPrefixedSlicePtr (drop (length dst) (PutLengthPrefixedSlice dst s @ r)) = Some (s, r)"
proof -
  have put: "drop (length dst) (PutLengthPrefixedSlice dst s @ r) = PutLengthPrefixedSlice [] s @ r"
    by (simp add: PutLengthPrefixedSlice_def PutVarint32_def)
  have "short_slice s" using assms by (simp add: short_slice_def)
  then show ?thesis
    unfolding put GetLengthPrefixedSlice_ptr
    by (simp add: GetLengthPrefixedSlice_Put lp_slice.dec_enc)
qed

lemma length_prefixed_roundtrip_witness:
  "GetLengthPrefixedSlice (PutLengthPrefixedSlice [] [7, 8] @ [9]) = (Some [7, 8], [9]) \<and>
   GetLengthPrefixedSlicePtr (PutLengthPrefixedSlice [] [7, 8] @ [9]) = Some ([7, 8], [9])"
  using length_prefixed_roundtrip [of "[7, 8]" "[]" "[9]"] by simp

text \<open>A string of length-prefixed slices has one reading: different lists of slices are
  written to different bytes.\<close>

lemma length_prefixed_sequence_unique:
  assumes "\<forall>s \<in> set ss \<union> set ts. length s < 2 ^ 32" and "ss \<noteq> ts"
  shows "foldl PutLengthPrefixedSlice [] ss \<noteq> foldl PutLengthPrefixedSlice [] ts"
proof -
  have fold: "foldl PutLengthPrefixedSlice d xs = d @ concat (map (PutLengthPrefixedSlice []) xs)" for d xs
    by (induction xs arbitrary: d) (simp_all add: PutLengthPrefixedSlice_def PutVarint32_def)
  show ?thesis
    using assms lp_slice.enc_sequence_inj [of ss ts] by (auto simp: fold short_slice_def)
qed

end
