(* ===== verification/Ldb_Log_Read.thy ===== *)
theory Ldb_Log_Read
  imports Ldb_Log_Write Ldb_Coding_Correct
begin

unbundle bit_operations_syntax

text \<open>
  The reader on files that return what is asked for: on the image of a list of records, cut
  anywhere, it returns the records that are complete; on any bytes it returns and hands on only
  physical records that carry their checksum.
\<close>

subsection \<open>The reader\<close>

text \<open>A file that returns what is asked for until it ends.\<close>

definition whole_reads :: "'f SequentialFile \<Rightarrow> ('f \<Rightarrow> byte list) \<Rightarrow> bool" where
  "whole_reads env contents =
     ((\<forall>n f. ok (fst (Read env n f)) \<and> fst (snd (Read env n f)) = take n (contents f) \<and>
         contents (snd (snd (Read env n f))) = drop n (contents f)) \<and>
      (\<forall>n f. ok (fst (Skip env n f)) \<and> contents (snd (Skip env n f)) = drop (unat n) (contents f)))"

text \<open>A reader at an offset in a block, with the bytes still to come.\<close>

definition reading :: "('f \<Rightarrow> byte list) \<Rightarrow> 'f Reader \<Rightarrow> nat \<Rightarrow> byte list \<Rightarrow> bool" where
  "reading contents r off S =
     (off \<le> kBlockSize \<and> r_buffer r = take (kBlockSize - off) S \<and>
      contents (r_file r) = drop (kBlockSize - off) S \<and>
      (r_eof r \<longleftrightarrow> length S < kBlockSize - off) \<and>
      r_initial_offset r = 0 \<and> \<not> r_resyncing r)"

lemma reading_new: "reading contents (mk_Reader f rep chk 0) kBlockSize (contents f)"
  by (simp add: reading_def mk_Reader_def)

lemma reading_frame:
  "reading contents r off S \<Longrightarrow> reading contents (r\<lparr>r_last_record_offset := x\<rparr>) off S"
  "reading contents r off S \<Longrightarrow> r\<lparr>r_resyncing := False\<rparr> = r"
  by (simp_all add: reading_def)

lemma ucast_byte_of_nat: "(ucast (of_nat n :: byte) :: u32) = of_nat (n mod 256)"
  by (rule ucast_of_unat) (simp add: unat_of_nat take_bit_eq_mod)

lemma and_FF_of_nat: "(of_nat (n mod 256) :: u32) AND 0xff = of_nat (n mod 256)"
proof -
  have "unat (of_nat (n mod 256) :: u32) < 2 ^ 8"
    by (rule le_less_trans [OF unat_of_nat_le]) simp
  then show ?thesis unfolding and_FF by (rule take_bit_idI)
qed

lemma length_word:
  assumes "n < 65536"
  shows "unat ((ucast (of_nat n :: byte) AND 0xff :: u32) OR
    push_bit 8 (ucast (of_nat (n div 256) :: byte) AND 0xff)) = n"
proof -
  have "take_bit 8 (of_nat (n mod 256)) = (of_nat (n mod 256) :: u32)"
    using and_FF_of_nat [of n] by (simp only: and_FF)
  then have "(ucast (of_nat n :: byte) AND 0xff :: u32) OR
      push_bit 8 (ucast (of_nat (n div 256) :: byte) AND 0xff) =
      of_nat (n mod 256) + push_bit 8 (of_nat (n div 256 mod 256))"
    by (simp only: ucast_byte_of_nat and_FF_of_nat or_push_bit_eq_add)
  also have "\<dots> = of_nat (n mod 256 + 256 * (n div 256 mod 256))"
    by (simp add: push_bit_eq_mult mult.commute)
  also have "n mod 256 + 256 * (n div 256 mod 256) = n"
    using assms by (simp add: mod_div_mult_eq mult.commute [of 256])
  finally show ?thesis using assms by (simp add: unat_of_nat_small)
qed

lemma physical_header:
  assumes "length p < 65536"
  shows "(physical t p @ S) ! 6 = ucast t" "take (length p) (drop kHeaderSize (physical t p @ S)) = p"
    "take (1 + length p) (drop 6 (physical t p @ S)) = ucast t # p"
    "DecodeFixed32 (physical t p @ S) = Mask (crc32c 0 (ucast t # p))"
    "unat ((ucast ((physical t p @ S) ! 4) AND 0xff :: u32) OR
       push_bit 8 (ucast ((physical t p @ S) ! 5) AND 0xff)) = length p"
proof -
  show "(physical t p @ S) ! 6 = ucast t" "take (length p) (drop kHeaderSize (physical t p @ S)) = p"
    "take (1 + length p) (drop 6 (physical t p @ S)) = ucast t # p"
    "DecodeFixed32 (physical t p @ S) = Mask (crc32c 0 (ucast t # p))"
    by (simp_all add: physical_def nth_append kHeaderSize_def)
  have b: "(physical t p @ S) ! 4 = of_nat (length p)" "(physical t p @ S) ! 5 = of_nat (length p div 256)"
    by (simp_all add: physical_def nth_append)
  show "unat ((ucast ((physical t p @ S) ! 4) AND 0xff :: u32) OR
       push_bit 8 (ucast ((physical t p @ S) ! 5) AND 0xff)) = length p"
    unfolding b by (rule length_word [OF assms])
qed

lemma record_types: "1 \<le> t \<Longrightarrow> t \<le> 4 \<Longrightarrow> t = 1 \<or> t = 2 \<or> t = 3 \<or> t = (4 :: u32)"
proof -
  assume "1 \<le> t" "t \<le> 4"
  then have "1 \<le> unat t" "unat t \<le> 4" by (simp_all add: word_le_nat_alt)
  then have "unat t = 1 \<or> unat t = 2 \<or> unat t = 3 \<or> unat t = 4" by linarith
  then show ?thesis by (auto simp: word_unat_eq_iff)
qed

lemma reading_advance:
  assumes "reading contents r off (q @ S)" "off + length q \<le> kBlockSize"
  shows "reading contents (r\<lparr>r_buffer := drop (length q) (r_buffer r)\<rparr>) (off + length q) S"
  using assms by (auto simp: reading_def)

lemma reading_buffer:
  "reading contents r off (q @ S) \<Longrightarrow> off + length q \<le> kBlockSize \<Longrightarrow>
     r_buffer r = q @ take (kBlockSize - off - length q) S"
  by (auto simp: reading_def)

lemma ReadPhysicalRecord_record:
  assumes "reading contents r off (physical t p @ S)"
    and "off + kHeaderSize + length p \<le> kBlockSize" and t: "t \<noteq> kZeroType" "scast (ucast t :: byte) = t"
  shows "\<exists>r'. ReadPhysicalRecord env result r = (t, p, r') \<and> r_reports r' = r_reports r \<and>
    reading contents r' (off + kHeaderSize + length p) S"
proof -
  let ?r' = "r\<lparr>r_buffer := drop (length (physical t p)) (r_buffer r)\<rparr>"
  let ?S = "take (kBlockSize - off - length (physical t p)) S"
  have buf: "r_buffer r = physical t p @ ?S"
    using assms by (intro reading_buffer [of contents]) simp_all
  have small: "length p < 65536" using assms(2) by (simp add: kBlockSize_def)
  have init: "r_initial_offset r = 0" using assms(1) by (simp add: reading_def)
  have adv: "reading contents ?r' (off + kHeaderSize + length p) S"
    using reading_advance [OF assms(1)] assms(2) by (simp add: add.assoc)
  have crc: "Value (ucast t # p) = crc32c 0 (ucast t # p)"
    using small by (simp add: Value_def Extend_eq)
  have "parse_record result r = (t, p, ?r')"
    unfolding parse_record_def Let_def buf
    by (simp only: physical_header [OF small]) (simp add: init t crc Unmask_Mask remove_prefix_def buf)
  then have "ReadPhysicalRecord env result r = (t, p, ?r')"
    by (subst ReadPhysicalRecord.simps) (simp add: buf)
  with adv show ?thesis by (intro exI [of _ ?r']) simp
qed


text \<open>A refill moves to the start of the next block.\<close>

lemma refill_whole:
  assumes "whole_reads env contents" "reading contents r off S" "\<not> r_eof r"
  obtains st r1 where "refill env r = (st, r1)" "ok st"
    "reading contents r1 0 (drop (kBlockSize - off) S)" "r_reports r1 = r_reports r"
proof -
  obtain st data f where rd: "Read env kBlockSize (r_file r) = (st, data, f)" by (metis prod_cases3)
  let ?d = "take kBlockSize (contents (r_file r))"
  have *: "ok st" "data = ?d" "contents f = drop kBlockSize (contents (r_file r))"
    using assms(1) rd unfolding whole_reads_def by (metis fst_conv snd_conv)+
  let ?r0 = "r\<lparr>r_file := f, r_buffer := ?d,
    r_end_of_buffer_offset := r_end_of_buffer_offset r + of_nat (length ?d)\<rparr>"
  let ?r1 = "if length ?d < kBlockSize then ?r0\<lparr>r_eof := True\<rparr> else ?r0"
  show ?thesis
  proof (rule that [of st ?r1])
    show "refill env r = (st, ?r1)"
      using rd *(1,2) by (simp add: refill_def Let_def)
    show "reading contents ?r1 0 (drop (kBlockSize - off) S)"
      using assms(2,3) *(3) by (auto simp: reading_def)
  qed (use * in auto)
qed

lemma ReadPhysicalRecord_refill:
  assumes "whole_reads env contents" "reading contents r off S" "\<not> r_eof r"
    and "kBlockSize - off < kHeaderSize"
  shows "\<exists>r1. reading contents r1 0 (drop (kBlockSize - off) S) \<and> r_reports r1 = r_reports r \<and>
    (\<forall>result. ReadPhysicalRecord env result r = ReadPhysicalRecord env result r1)"
proof -
  obtain st r1 where 1: "refill env r = (st, r1)" "ok st"
    "reading contents r1 0 (drop (kBlockSize - off) S)" "r_reports r1 = r_reports r"
    by (rule refill_whole [OF assms(1-3)])
  have "length (r_buffer r) < kHeaderSize" using assms(2,4) by (simp add: reading_def)
  then have "ReadPhysicalRecord env result r = ReadPhysicalRecord env result r1" for result
    using 1 assms(3) by (subst ReadPhysicalRecord.simps) simp
  with 1 show ?thesis by blast
qed

lemma ReadPhysicalRecord_eof:
  "r_eof r \<Longrightarrow> length (r_buffer r) < kHeaderSize \<Longrightarrow>
     ReadPhysicalRecord env result r = (kEof, result, r\<lparr>r_buffer := []\<rparr>)"
  by (subst ReadPhysicalRecord.simps) simp

text \<open>The end of the file at a record boundary.\<close>

lemma ReadPhysicalRecord_end:
  assumes "whole_reads env contents" "reading contents r off []"
  shows "\<exists>r'. ReadPhysicalRecord env result r = (kEof, result, r') \<and> r_reports r' = r_reports r"
proof (cases "r_eof r")
  case True
  then show ?thesis using assms by (simp add: reading_def ReadPhysicalRecord_eof kHeaderSize_def)
next
  case False
  then have "kBlockSize - off = 0" using assms(2) by (simp add: reading_def)
  then obtain r1 where 1: "reading contents r1 0 (drop (kBlockSize - off) [])" "r_reports r1 = r_reports r"
    "\<And>result. ReadPhysicalRecord env result r = ReadPhysicalRecord env result r1"
    using ReadPhysicalRecord_refill [OF assms False] by (auto simp: kHeaderSize_def)
  have "r_eof r1" "r_buffer r1 = []" using 1(1) by (simp_all add: reading_def kBlockSize_def)
  then show ?thesis by (simp add: 1 ReadPhysicalRecord_eof kHeaderSize_def)
qed

text \<open>The end of the file inside a physical record.\<close>

lemma ReadPhysicalRecord_truncated:
  assumes "whole_reads env contents" "reading contents r off (take k (physical t p @ S))"
    and "off + kHeaderSize + length p \<le> kBlockSize" and "k < kHeaderSize + length p"
  shows "\<exists>r'. ReadPhysicalRecord env result r = (kEof, result, r') \<and> r_reports r' = r_reports r"
proof -
  let ?S = "take k (physical t p)"
  have S: "take k (physical t p @ S) = ?S" using assms(4) by simp
  have len: "length ?S < kBlockSize - off" using assms(3,4) by simp
  then have eof: "r_eof r" and buf: "r_buffer r = ?S"
    using assms(2-4) unfolding S by (simp_all add: reading_def min_def)
  show ?thesis
  proof (cases "length ?S < kHeaderSize")
    case True
    then show ?thesis by (simp add: eof buf ReadPhysicalRecord_eof)
  next
    case False
    have small: "length p < 65536" using assms(3) by (simp add: kBlockSize_def)
    have h: "?S ! 4 = physical t p ! 4" "?S ! 5 = physical t p ! 5"
      using False assms(4) by (simp_all add: kHeaderSize_def)
    have n: "unat ((ucast (physical t p ! 4) AND 0xff :: u32) OR
        push_bit 8 (ucast (physical t p ! 5) AND 0xff)) = length p"
      using physical_header(5) [OF small, of t "[]"] by (simp only: append_Nil2)
    have "parse_record result r = (kEof, result, r\<lparr>r_buffer := []\<rparr>)"
      unfolding parse_record_def Let_def buf h n using assms(4) eof by simp
    then show ?thesis
      using False by (subst ReadPhysicalRecord.simps) (simp add: buf)
  qed
qed

text \<open>
  The first physical record of a framed record, behind its padding: what the reader returns
  when the file ends after \<open>k\<close> more bytes.
\<close>

definition reads_first ::
  "('f \<Rightarrow> byte list) \<Rightarrow> 'f Reader \<Rightarrow> slice \<Rightarrow> nat \<Rightarrow> nat \<Rightarrow> u32 \<Rightarrow> slice \<Rightarrow> byte list \<Rightarrow>
   u32 \<times> slice \<times> 'f Reader \<Rightarrow> bool" where
  "reads_first contents r result off k t p S res =
     (r_reports (snd (snd res)) = r_reports r \<and>
      (if kHeaderSize + length p \<le> k
       then fst res = t \<and> fst (snd res) = p \<and>
         reading contents (snd (snd res)) (off + kHeaderSize + length p)
           (take (k - (kHeaderSize + length p)) S)
       else fst res = kEof \<and> fst (snd res) = result))"

lemma reads_first_aligned:
  assumes "whole_reads env contents" and r: "reading contents r off (take k (physical t p @ S))"
    and "off + kHeaderSize + length p \<le> kBlockSize" "1 \<le> t" "t \<le> 4"
  shows "reads_first contents r result off k t p S (ReadPhysicalRecord env result r)"
proof (cases "kHeaderSize + length p \<le> k")
  case True
  with r have "reading contents r off (physical t p @ take (k - (kHeaderSize + length p)) S)"
    by simp
  from ReadPhysicalRecord_record [OF this assms(3), of env result] True show ?thesis
    using record_types [OF assms(4,5)] by (auto simp: reads_first_def kZeroType_def)
next
  case False
  with ReadPhysicalRecord_truncated [OF assms(1) r assms(3), of result] show ?thesis
    by (auto simp: reads_first_def)
qed

lemma reads_first_padded:
  assumes env: "whole_reads env contents"
    and r: "reading contents r off (take k (replicate (block_pad off) 0 @ physical t p @ S))"
    and p: "block_start off + kHeaderSize + length p \<le> kBlockSize" and t: "1 \<le> t" "t \<le> 4"
    and k: "block_pad off \<le> k"
  shows "reads_first contents r result (block_start off) (k - block_pad off) t p S
    (ReadPhysicalRecord env result r)"
proof (cases "kBlockSize - off < kHeaderSize")
  case True
  then have pad: "block_pad off = kBlockSize - off" "block_start off = 0"
    by (simp_all add: block_pad_def block_start_def)
  have "\<not> r_eof r" using r k by (auto simp: reading_def pad)
  from ReadPhysicalRecord_refill [OF env r this True] k
  obtain r1 where 1: "reading contents r1 (block_start off) (take (k - block_pad off) (physical t p @ S))"
    "r_reports r1 = r_reports r"
    "ReadPhysicalRecord env result r = ReadPhysicalRecord env result r1"
    by (auto simp: pad drop_take)
  from reads_first_aligned [OF env 1(1) p t, of result] show ?thesis
    unfolding 1(3) reads_first_def 1(2) .
next
  case False
  then have "block_pad off = 0" "block_start off = off" by (simp_all add: block_pad_def block_start_def)
  then show ?thesis using reads_first_aligned [OF env _ _ t, of r off k] r p by simp
qed

lemma ReadPhysicalRecord_in_pad:
  assumes "reading contents r off S" "length S < block_pad off"
  shows "ReadPhysicalRecord env result r = (kEof, result, r\<lparr>r_buffer := []\<rparr>)"
  using assms by (intro ReadPhysicalRecord_eof) (auto simp: reading_def block_pad_def split: if_splits)

text \<open>One turn of the loop for each type.\<close>

lemmas type_codes = kFullType_def kFirstType_def kMiddleType_def kLastType_def kEof_def
  kBadRecord_def kMaxRecordType_def

declare read_loop.simps [simp del]

lemma resyncing_id: "\<not> r_resyncing r \<Longrightarrow> r\<lparr>r_resyncing := False\<rparr> = r"
  by simp

lemma read_loop_eof:
  "ReadPhysicalRecord env fragment r = (kEof, fragment', r') \<Longrightarrow>
   read_loop (Suc f) env fragment scratch in_frag prospective r =
     Some (False, [], r'\<lparr>r_resyncing := False\<rparr>)"
  by (subst read_loop.simps) (simp add: type_codes Let_def)

lemma read_loop_end:
  "ReadPhysicalRecord env fragment r = (fragment_type (\<not> in_frag) True, p, r') \<Longrightarrow>
   \<not> r_resyncing r' \<Longrightarrow> (\<not> in_frag \<longrightarrow> scratch = []) \<Longrightarrow>
   \<exists>x. read_loop (Suc f) env fragment scratch in_frag prospective r =
     Some (True, scratch @ p, r'\<lparr>r_last_record_offset := x\<rparr>)"
  by (subst read_loop.simps, cases in_frag)
    (auto simp: fragment_type_def type_codes Let_def resyncing_id)

lemma read_loop_more:
  "ReadPhysicalRecord env fragment r = (fragment_type (\<not> in_frag) False, p, r') \<Longrightarrow>
   \<not> r_resyncing r' \<Longrightarrow> (\<not> in_frag \<longrightarrow> scratch = []) \<Longrightarrow>
   \<exists>x. read_loop (Suc f) env fragment scratch in_frag prospective r =
     read_loop f env p (scratch @ p) True x r'"
  by (subst read_loop.simps, cases in_frag)
    (auto simp: fragment_type_def type_codes Let_def resyncing_id)

text \<open>
  The loop of \<^verbatim>\<open>ReadRecord\<close> on a framed record of which the file has \<open>k\<close> bytes: all of it,
  or the end of the file and no report.
\<close>

lemma read_loop_framed:
  assumes env: "whole_reads env contents"
  shows "reading contents r off (take k (fst (framed off begin data) @ S)) \<Longrightarrow>
    in_frag = (\<not> begin) \<Longrightarrow> (begin \<Longrightarrow> scratch = []) \<Longrightarrow> fragments_left off data < fuel \<Longrightarrow>
    \<exists>ok rec r'. read_loop fuel env fragment scratch in_frag prospective r = Some (ok, rec, r') \<and>
      r_reports r' = r_reports r \<and>
      (ok \<longleftrightarrow> length (fst (framed off begin data)) \<le> k) \<and>
      (ok \<longrightarrow> rec = scratch @ data \<and>
         reading contents r' (snd (framed off begin data))
           (take (k - length (fst (framed off begin data))) S))"
proof (induction off "begin" data arbitrary: r k scratch in_frag fragment prospective fuel rule: framed.induct)
  case (1 off first data)
  let ?n = "fragment_size off data"
  let ?p = "take ?n data"
  let ?t = "fragment_type first (?n = length data)"
  let ?rest = "if ?n = length data then [] else fst (framed (block_start off + kHeaderSize + ?n) False (drop ?n data))"
  have F: "fst (framed off first data) = replicate (block_pad off) 0 @ physical ?t ?p @ ?rest"
    by (subst framed.simps) (simp add: Let_def split_def)
  have lp: "length ?p = ?n" using fragment_size_le(1) [of off data] by simp
  have room: "block_start off + kHeaderSize + length ?p \<le> kBlockSize"
    using fragment_size_le(2) [of off data] by (simp add: lp)
  have t: "1 \<le> ?t" "?t \<le> 4"
    by (simp_all add: fragment_type_def kFullType_def kFirstType_def kMiddleType_def kLastType_def)
  obtain f where f: "fuel = Suc f" using "1.prems"(4) by (cases fuel) auto
  have nr: "\<not> r_resyncing r" using "1.prems"(1) by (simp add: reading_def)
  show ?case
  proof (cases "block_pad off + kHeaderSize + ?n \<le> k")
    case False
    have "\<exists>r'. ReadPhysicalRecord env fragment r = (kEof, fragment, r') \<and> r_reports r' = r_reports r"
    proof (cases "block_pad off \<le> k")
      case True
      have "\<not> kHeaderSize + length ?p \<le> k - block_pad off" using False True lp by linarith
      then show ?thesis
        using reads_first_padded [OF env _ room t True, of r "?rest @ S" fragment] "1.prems"(1) F
        by (cases "ReadPhysicalRecord env fragment r") (simp add: reads_first_def)
    next
      case False
      then have "ReadPhysicalRecord env fragment r = (kEof, fragment, r\<lparr>r_buffer := []\<rparr>)"
        by (intro ReadPhysicalRecord_in_pad [OF "1.prems"(1)]) simp
      then show ?thesis by simp
    qed
    then obtain r' where "ReadPhysicalRecord env fragment r = (kEof, fragment, r')"
      "r_reports r' = r_reports r" by blast
    moreover have "\<not> length (fst (framed off first data)) \<le> k"
      using False lp by (simp add: F)
    ultimately show ?thesis by (auto simp: f read_loop_eof)
  next
    case True
    then have pad: "block_pad off \<le> k" and more: "kHeaderSize + length ?p \<le> k - block_pad off"
      using lp by linarith+
    obtain r' where rp: "ReadPhysicalRecord env fragment r = (?t, ?p, r')"
      and rep: "r_reports r' = r_reports r"
      and r': "reading contents r' (block_start off + kHeaderSize + ?n)
        (take (k - (block_pad off + kHeaderSize + ?n)) (?rest @ S))"
      using reads_first_padded [OF env _ room t pad, of r "?rest @ S" fragment] "1.prems"(1) F more lp
      by (cases "ReadPhysicalRecord env fragment r") (simp add: reads_first_def diff_diff_eq add.assoc)
    have nr: "\<not> r_resyncing r'" using r' by (simp add: reading_def)
    have first: "first = (\<not> in_frag)" "\<not> in_frag \<longrightarrow> scratch = []" using "1.prems"(2,3) by auto
    show ?thesis
    proof (cases "?n = length data")
      case end': True
      obtain x where "read_loop fuel env fragment scratch in_frag prospective r =
          Some (True, scratch @ data, r'\<lparr>r_last_record_offset := x\<rparr>)"
        using read_loop_end [of env fragment r in_frag ?p r' scratch f prospective] rp nr first end'
        by (auto simp: f)
      moreover have "length (fst (framed off first data)) = block_pad off + kHeaderSize + ?n"
        "snd (framed off first data) = block_start off + kHeaderSize + ?n"
        using end' lp by (simp_all add: F) (simp add: framed.simps [of off first data] Let_def)
      ultimately show ?thesis
        using rep r' True end' by (auto simp: reading_frame)
    next
      case more': False
      obtain x where rl: "read_loop fuel env fragment scratch in_frag prospective r =
          read_loop f env ?p (scratch @ ?p) True x r'"
        using read_loop_more [of env fragment r in_frag ?p r' scratch f prospective] rp nr first more'
        by (auto simp: f)
      let ?k = "k - (block_pad off + kHeaderSize + ?n)"
      let ?off = "block_start off + kHeaderSize + ?n"
      have fr: "framed off first data =
          (replicate (block_pad off) 0 @ physical ?t ?p @ fst (framed ?off False (drop ?n data)),
           snd (framed ?off False (drop ?n data)))"
        using more' by (subst framed.simps) (simp add: Let_def split_def)
      define L where "L = length (fst (framed ?off False (drop ?n data)))"
      have "\<exists>ok rec r''. read_loop f env ?p (scratch @ ?p) True x r' = Some (ok, rec, r'') \<and>
          r_reports r'' = r_reports r' \<and> (ok \<longleftrightarrow> L \<le> ?k) \<and>
          (ok \<longrightarrow> rec = (scratch @ ?p) @ drop ?n data \<and>
             reading contents r'' (snd (framed ?off False (drop ?n data))) (take (?k - L) S))"
        unfolding L_def
        by (rule "1.IH" [OF refl refl refl more']) (use r' more' fragments_left_less [OF more'] "1.prems"(4) f in auto)
      moreover have "length (fst (framed off first data)) = block_pad off + kHeaderSize + ?n + L"
        using lp by (simp add: fr L_def)
      moreover have "L \<le> ?k \<longleftrightarrow> block_pad off + kHeaderSize + ?n + L \<le> k" using True by linarith
      moreover have "?k - L = k - (block_pad off + kHeaderSize + ?n + L)" by (rule diff_diff_left)
      moreover have "snd (framed off first data) = snd (framed ?off False (drop ?n data))"
        by (simp add: fr)
      ultimately show ?thesis using rep by (simp only: rl append.assoc append_take_drop_id)
    qed
  qed
qed

subsection \<open>Reading a whole log\<close>

text \<open>The client's loop: read records until \<^verbatim>\<open>ReadRecord\<close> returns false, at most \<open>m\<close> times.\<close>

fun read_all ::
  "nat \<Rightarrow> nat \<Rightarrow> 'f SequentialFile \<Rightarrow> 'f Reader \<Rightarrow> (slice list \<times> 'f Reader) option" where
  "read_all 0 fuel env r = None"
| "read_all (Suc m) fuel env r =
     (case ReadRecord fuel env r of
        None \<Rightarrow> None
      | Some (found, rec, r) \<Rightarrow>
          if found then map_option (\<lambda>(xs, r). (rec # xs, r)) (read_all m fuel env r)
          else Some ([], r))"

text \<open>The records of which the first \<open>k\<close> bytes of a log have every byte.\<close>

fun complete :: "nat \<Rightarrow> nat \<Rightarrow> slice list \<Rightarrow> slice list" where
  "complete off k [] = []"
| "complete off k (x # xs) =
     (case framed off True x of
        (p, off1) \<Rightarrow> if length p \<le> k then x # complete off1 (k - length p) xs else [])"

lemma read_record_end:
  assumes "whole_reads env contents" "reading contents r off []" "0 < fuel"
  shows "\<exists>r'. ReadRecord fuel env r = Some (False, [], r') \<and> r_reports r' = r_reports r"
proof -
  obtain f where f: "fuel = Suc f" using assms(3) by (cases fuel) auto
  obtain r' where "ReadPhysicalRecord env [] r = (kEof, [], r')" "r_reports r' = r_reports r"
    using ReadPhysicalRecord_end [OF assms(1,2)] by blast
  then show ?thesis
    using assms(2) by (simp add: ReadRecord_def reading_def f read_loop_eof)
qed

lemma read_record_framed:
  assumes "whole_reads env contents"
    and "reading contents r off (take k (fst (framed off True data) @ S))"
    and "2 * length data + 1 < fuel"
  shows "\<exists>ok rec r'. ReadRecord fuel env r = Some (ok, rec, r') \<and>
      r_reports r' = r_reports r \<and>
      (ok \<longleftrightarrow> length (fst (framed off True data)) \<le> k) \<and>
      (ok \<longrightarrow> rec = data \<and>
         reading contents r' (snd (framed off True data))
           (take (k - length (fst (framed off True data))) S))"
proof -
  have "\<not> r_last_record_offset r < r_initial_offset r" using assms(2) by (simp add: reading_def)
  then have "ReadRecord fuel env r = read_loop fuel env [] [] False 0 r"
    by (simp add: ReadRecord_def)
  moreover have "fragments_left off data < fuel" using assms(3) by (simp add: fragments_left_def)
  ultimately show ?thesis
    using read_loop_framed [OF assms(1,2), of False "[]" fuel "[]" 0] by simp
qed

lemma read_all_prefix:
  assumes env: "whole_reads env contents"
  shows "reading contents r off (take k (log_image off rs)) \<Longrightarrow>
    (\<forall>x \<in> set rs. 2 * length x + 1 < fuel) \<Longrightarrow> 0 < fuel \<Longrightarrow>
    \<exists>r'. read_all (Suc (length rs)) fuel env r = Some (complete off k rs, r') \<and>
      r_reports r' = r_reports r"
proof (induction rs arbitrary: off k r)
  case Nil
  then show ?case using read_record_end [OF env, of r off fuel] by auto
next
  case (Cons x xs)
  obtain p off1 where p: "framed off True x = (p, off1)" by fastforce
  obtain ok rec r1 where 1: "ReadRecord fuel env r = Some (ok, rec, r1)"
    "r_reports r1 = r_reports r" "ok \<longleftrightarrow> length p \<le> k"
    "ok \<Longrightarrow> rec = x \<and> reading contents r1 off1 (take (k - length p) (log_image off1 xs))"
    using read_record_framed [OF env, of r off k x "log_image off1 xs" fuel] Cons.prems p by auto
  show ?case
  proof (cases ok)
    case True
    obtain r2 where 2: "read_all (Suc (length xs)) fuel env r1 = Some (complete off1 (k - length p) xs, r2)"
      "r_reports r2 = r_reports r1"
      using Cons.IH [of r1 off1 "k - length p"] 1(4) [OF True] Cons.prems(2,3) by auto
    show ?thesis
      using 1 True 2 by (simp only: length_Cons read_all.simps(2) [of "Suc (length xs)"])
        (auto simp: p)
  next
    case False
    then show ?thesis using 1 by (auto simp: p)
  qed
qed

lemma complete_prefix: "\<exists>ys. rs = complete off k rs @ ys"
  by (induction off k rs rule: complete.induct) (auto split: prod.splits)

lemma complete_all: "length (log_image off rs) \<le> k \<Longrightarrow> complete off k rs = rs"
  by (induction rs arbitrary: off k) (auto split: prod.splits)

lemma complete_append:
  "complete off k (xs @ ys) =
     (if length (log_image off xs) \<le> k
      then xs @ complete (log_end off xs) (k - length (log_image off xs)) ys
      else complete off k xs)"
  by (induction xs arbitrary: off k) (auto simp: diff_diff_eq split: prod.splits)


subsection \<open>Reading any file\<close>

definition unread :: "('f \<Rightarrow> byte list) \<Rightarrow> 'f Reader \<Rightarrow> byte list" where
  "unread contents r = r_buffer r @ contents (r_file r)"

lemma ReportDrop_frame [simp]:
  "r_buffer (ReportDrop n e r) = r_buffer r" "r_file (ReportDrop n e r) = r_file r"
  "r_eof (ReportDrop n e r) = r_eof r" "r_checksum (ReportDrop n e r) = r_checksum r"
  by (simp_all add: ReportDrop_def)

lemma ReportCorruption_frame [simp]:
  "r_buffer (ReportCorruption n e r) = r_buffer r" "r_file (ReportCorruption n e r) = r_file r"
  "r_eof (ReportCorruption n e r) = r_eof r" "r_checksum (ReportCorruption n e r) = r_checksum r"
  by (simp_all add: ReportCorruption_def)

lemma unread_cong [simp]:
  "unread contents (ReportDrop n e r) = unread contents r"
  "unread contents (ReportCorruption n m r) = unread contents r"
  "unread contents (r\<lparr>r_resyncing := b\<rparr>) = unread contents r"
  "unread contents (r\<lparr>r_last_record_offset := x\<rparr>) = unread contents r"
  "unread contents (r\<lparr>r_end_of_buffer_offset := x\<rparr>) = unread contents r"
  by (simp_all add: unread_def)

lemma parse_record_progress:
  assumes "kHeaderSize \<le> length (r_buffer r)"
  shows "length (unread contents (snd (snd (parse_record result r)))) < length (unread contents r)"
proof -
  have 7: "0 < kHeaderSize" by (simp add: kHeaderSize_def)
  then have "r_buffer r \<noteq> []" using assms by auto
  then show ?thesis
    using assms 7 by (auto simp: parse_record_def unread_def Let_def remove_prefix_def)
qed

lemma refill_unread:
  assumes "whole_reads env contents" "length (r_buffer r) < kHeaderSize"
  shows "ok (fst (refill env r)) \<and> length (unread contents (snd (refill env r))) \<le> length (unread contents r)
    \<and> r_checksum (snd (refill env r)) = r_checksum r
    \<and> unread contents (snd (refill env r)) = contents (r_file r)"
proof -
  obtain st data f where rd: "Read env kBlockSize (r_file r) = (st, data, f)" by (metis prod_cases3)
  have *: "ok st" "data = take kBlockSize (contents (r_file r))"
    "contents f = drop kBlockSize (contents (r_file r))"
    using assms(1) rd unfolding whole_reads_def by (metis fst_conv snd_conv)+
  show ?thesis by (auto simp: refill_def rd * Let_def unread_def)
qed

lemma ReadPhysicalRecord_progress:
  assumes "whole_reads env contents"
  shows "fst (ReadPhysicalRecord env result r) = kEof \<or>
    length (unread contents (snd (snd (ReadPhysicalRecord env result r)))) < length (unread contents r)"
  using assms
proof (induction env result r rule: ReadPhysicalRecord.induct)
  case (1 env result r)
  show ?case
  proof (cases "length (r_buffer r) < kHeaderSize \<and> \<not> r_eof r")
    case True
    obtain st r1 where 2: "refill env r = (st, r1)" by fastforce
    then have "ok st" "length (unread contents r1) \<le> length (unread contents r)"
      using refill_unread [OF "1.prems", of r] True by auto
    moreover from this have "ReadPhysicalRecord env result r = ReadPhysicalRecord env result r1"
      using True 2 by (subst ReadPhysicalRecord.simps) simp
    ultimately show ?thesis using "1.IH" [of st r1] "1.prems" True 2 by auto
  next
    case False
    then show ?thesis
      by (subst (1 2) ReadPhysicalRecord.simps) (auto simp: parse_record_progress)
  qed
qed

lemma read_loop_returns:
  assumes "whole_reads env contents"
  shows "length (unread contents r) < fuel \<Longrightarrow>
    read_loop fuel env fragment scratch in_frag prospective r \<noteq> None"
proof (induction fuel arbitrary: fragment scratch in_frag prospective r)
  case 0
  then show ?case by simp
next
  case (Suc fuel)
  obtain t p r1 where 1: "ReadPhysicalRecord env fragment r = (t, p, r1)" by (metis prod_cases3)
  show ?case
  proof (cases "t = kEof")
    case True
    then show ?thesis
      using 1 by (subst read_loop.simps) (simp add: type_codes Let_def)
  next
    case False
    then have less: "length (unread contents r1) < fuel"
      using ReadPhysicalRecord_progress [OF assms, of fragment r] Suc.prems 1 by simp
    have go: "read_loop fuel env f' s' i' p' r' \<noteq> None"
      if "unread contents r' = unread contents r1" for f' s' i' p' r'
      using less that by (intro Suc.IH) simp
    show ?thesis
      using False 1 by (subst read_loop.simps) (simp add: Let_def go del: not_None_eq)
  qed
qed

lemma ReadRecord_returns:
  assumes "whole_reads env contents" "length (unread contents r) < fuel"
  shows "ReadRecord fuel env r \<noteq> None"
proof -
  obtain found r1 where 1: "(if r_last_record_offset r < r_initial_offset r
      then SkipToInitialBlock env r else (True, r)) = (found, r1)" by fastforce
  have "length (unread contents r1) \<le> length (unread contents r)"
  proof (cases "r_last_record_offset r < r_initial_offset r")
    case True
    have "length (contents f') \<le> length (contents f)" if "Skip env n f = (st, f')" for n f st f'
      using assms(1) that unfolding whole_reads_def by (metis diff_le_self length_drop snd_conv)
    then show ?thesis
      using 1 True by (auto simp: SkipToInitialBlock_def Let_def unread_def split: if_splits prod.splits)
  qed (use 1 in simp)
  then have "read_loop fuel env [] [] False 0 r1 \<noteq> None"
    using assms by (intro read_loop_returns) auto
  then show ?thesis by (simp add: ReadRecord_def 1 del: not_None_eq)
qed

text \<open>A record that the reader hands on is a physical record of the file with its checksum.\<close>

lemma length_word_inverse:
  defines "n \<equiv> \<lambda>a b. unat ((ucast (a :: byte) AND 0xff :: u32) OR push_bit 8 (ucast (b :: byte) AND 0xff))"
  shows "n a b < 65536" "of_nat (n a b) = a" "of_nat (n a b div 256) = b"
proof -
  let ?m = "unat a + 256 * unat b"
  have m: "?m < 65536" using byte_lt_256 [of a] byte_lt_256 [of b] by linarith
  have A: "(of_nat ?m :: byte) = a"
  proof (rule word_unat_eq_iff [THEN iffD2])
    have "unat (of_nat ?m :: byte) = ?m mod 256" by (simp only: unat_of_nat take_bit_eq_mod) simp
    then show "unat (of_nat ?m :: byte) = unat a" using byte_lt_256 [of a] by (simp only:) simp
  qed
  have "?m div 256 = unat b" using byte_lt_256 [of a] by simp
  then have B: "(of_nat (?m div 256) :: byte) = b" by (simp only: of_nat_unat ucast_id)
  have e: "n a b = ?m" using length_word [OF m] unfolding A B n_def .
  show "n a b < 65536" "of_nat (n a b) = a" "of_nat (n a b div 256) = b"
    unfolding e by (rule m A B)+
qed

lemma parse_record_sound:
  assumes "kHeaderSize \<le> length (r_buffer r)" "r_checksum r"
    and "parse_record result r = (t, p, r')" "t \<noteq> kEof" "t \<noteq> kBadRecord"
  shows "r_buffer r = physical t p @ r_buffer r' \<and> r_file r' = r_file r"
proof -
  let ?b = "r_buffer r"
  let ?n = "unat ((ucast (?b ! 4) AND 0xff :: u32) OR push_bit 8 (ucast (?b ! 5) AND 0xff))"
  have facts: "kHeaderSize + ?n \<le> length ?b" "t = scast (?b ! 6)" "p = take ?n (drop kHeaderSize ?b)"
    "r_buffer r' = drop (kHeaderSize + ?n) ?b" "r_file r' = r_file r"
    "Value (take (1 + ?n) (drop 6 ?b)) = Unmask (DecodeFixed32 ?b)"
    using assms(2-5)
    by (auto simp: parse_record_def Let_def remove_prefix_def not_less split: if_splits)
  have len: "length p = ?n" using facts(1) by (simp add: facts(3))
  have t: "ucast t = ?b ! 6"
    unfolding facts(2) by (rule bit_word_eqI) (auto simp: bit_simps dest: bit_imp_le_length)
  have 7: "7 \<le> length ?b" using assms(1) by (simp add: kHeaderSize_def)
  have b6: "drop 6 ?b = ?b ! 6 # drop 7 ?b" using Cons_nth_drop_Suc [of 6 ?b] 7 by simp
  have "crc32c 0 (?b ! 6 # p) = Unmask (DecodeFixed32 ?b)"
    using facts(6) length_word_inverse(1) [of "?b ! 4" "?b ! 5"]
    by (simp add: b6 Value_def Extend_eq facts(3) kHeaderSize_def)
  then have "DecodeFixed32 ?b = Mask (crc32c 0 (ucast t # p))" by (simp add: t Mask_Unmask)
  then have crc: "take 4 ?b = EncodeFixed32 (Mask (crc32c 0 (ucast t # p)))"
    using EncodeFixed32_DecodeFixed32 [of "take 4 ?b"] 7 by (simp add: DecodeFixed32_def)
  have "?b = take 4 ?b @ drop 4 ?b" by simp
  also have "drop 4 ?b = ?b ! 4 # ?b ! 5 # ?b ! 6 # drop 7 ?b"
    using Cons_nth_drop_Suc [of 4 ?b] Cons_nth_drop_Suc [of 5 ?b] Cons_nth_drop_Suc [of 6 ?b] 7 by simp
  also have "drop 7 ?b = p @ r_buffer r'"
  proof -
    have "drop 7 ?b = take ?n (drop 7 ?b) @ drop ?n (drop 7 ?b)" by (simp only: append_take_drop_id)
    also have "drop ?n (drop 7 ?b) = r_buffer r'"
      by (simp only: facts(4) kHeaderSize_def drop_drop) (simp add: add.commute)
    finally show ?thesis by (simp only: facts(3)) (simp add: kHeaderSize_def)
  qed
  finally have "?b = physical t p @ r_buffer r'"
    using length_word_inverse(2,3) [of "?b ! 4" "?b ! 5"] by (simp add: physical_def crc t len)
  then show ?thesis using facts(5) by simp
qed


lemma ReadPhysicalRecord_sound:
  assumes "whole_reads env contents"
  shows "r_checksum r \<Longrightarrow> ReadPhysicalRecord env result r = (t, p, r') \<Longrightarrow>
    t \<noteq> kEof \<Longrightarrow> t \<noteq> kBadRecord \<Longrightarrow>
    \<exists>pre. unread contents r = pre @ physical t p @ unread contents r'"
  using assms
proof (induction env result r rule: ReadPhysicalRecord.induct)
  case (1 env result r)
  show ?case
  proof (cases "length (r_buffer r) < kHeaderSize")
    case True
    then have eof: "\<not> r_eof r"
      using "1.prems"(2,3) by (subst (asm) ReadPhysicalRecord.simps) (auto split: if_splits)
    obtain st r1 where 2: "refill env r = (st, r1)" by fastforce
    then have 3: "ok st" "r_checksum r1 = r_checksum r" "unread contents r1 = contents (r_file r)"
      using refill_unread [OF "1.prems"(5) True] by auto
    then have "ReadPhysicalRecord env result r1 = (t, p, r')"
      using "1.prems"(2) True eof 2 by (subst (asm) ReadPhysicalRecord.simps) simp
    then obtain pre where "unread contents r1 = pre @ physical t p @ unread contents r'"
      using "1.IH" [of st r1] True eof 2 3 "1.prems" by auto
    then show ?thesis
      unfolding 3(3) by (intro exI [of _ "r_buffer r @ pre"]) (simp add: unread_def [of _ r])
  next
    case False
    then have "parse_record result r = (t, p, r')"
      using "1.prems"(2) by (subst (asm) ReadPhysicalRecord.simps) simp
    from parse_record_sound [OF _ "1.prems"(1) this "1.prems"(3,4)] False
    have "r_buffer r = physical t p @ r_buffer r' \<and> r_file r' = r_file r" by simp
    then show ?thesis by (intro exI [of _ "[]"]) (simp add: unread_def)
  qed
qed

end
