(* ===== verification/Ldb_Log_Correct.thy ===== *)
theory Ldb_Log_Correct
  imports Ldb_Log_Read
begin

unbundle bit_operations_syntax

text \<open>
  The properties of LevelDB's log: writer and reader together, crashes, reopening, arbitrary
  files.
\<close>

subsection \<open>Properties\<close>

text \<open>Files held in memory, an instance of what the log asks of a file.\<close>

definition memory_writable :: "byte list WritableFile" where
  "memory_writable = \<lparr>Append = (\<lambda>s f. (status_OK, f @ s)), Flush = (\<lambda>f. (status_OK, f))\<rparr>"

definition memory_readable :: "byte list SequentialFile" where
  "memory_readable =
     \<lparr>Read = (\<lambda>n f. (status_OK, take n f, drop n f)), Skip = (\<lambda>n f. (status_OK, drop (unat n) f))\<rparr>"

lemma memory_files: "plain_writable memory_writable id" "whole_reads memory_readable id"
  by (simp_all add: plain_writable_def memory_writable_def whole_reads_def memory_readable_def
      ok_def status_OK_def)

lemma new_log:
  assumes "plain_writable wenv wcontents" "wcontents g = []"
  shows "wcontents (w_dest (add_records wenv rs (mk_Writer g))) = log_image 0 rs"
  using add_records_plain [OF assms(1) writing_new(1), of rs g] assms(2) by (simp add: mk_Writer_def)

text \<open>C13: The records added to a new log file are read back by a reader of that file, all of
  them, in order and with nothing reported, whatever their lengths and however they were
  fragmented over blocks.\<close>

theorem log_roundtrip:
  assumes "plain_writable wenv wcontents" "wcontents g = []"
    and "whole_reads renv rcontents"
    and "rcontents f = wcontents (w_dest (add_records wenv rs (mk_Writer g)))"
    and "\<forall>x \<in> set rs. 2 * length x + 1 < fuel" "0 < fuel"
  shows "\<exists>r. read_all (Suc (length rs)) fuel renv (mk_Reader f True checksum 0) = Some (rs, r) \<and>
    r_reports r = []"
proof -
  have "reading rcontents (mk_Reader f True checksum 0) kBlockSize
      (take (length (log_image kBlockSize rs)) (log_image kBlockSize rs))"
    using reading_new [of rcontents f True checksum] log_image_mod [of kBlockSize rs]
    by (simp add: assms(4) new_log [OF assms(1,2)])
  from read_all_prefix [OF assms(3) this assms(5,6)] show ?thesis
    by (simp only: complete_all [OF order_refl]) (simp add: mk_Reader_def)
qed

lemma log_roundtrip_witness:
  "\<exists>r. read_all 3 6 memory_readable
     (mk_Reader (w_dest (add_records memory_writable [[42], []] (mk_Writer []))) True True 0) =
       Some ([[42], []], r) \<and> r_reports r = []"
  using log_roundtrip [OF memory_files(1) _ memory_files(2), of "[]"
      "w_dest (add_records memory_writable [[42], []] (mk_Writer []))" "[[42], []]" 6 True]
  by (simp add: numeral_3_eq_3)

text \<open>C14: A crash that leaves only the first \<open>k\<close> bytes of a log loses no record whose bytes
  had all been written: the reader returns the records \<open>xs\<close> that were complete, possibly some of
  those added after them, in order, never part of a record, and reports no corruption.\<close>

theorem log_crash_prefix:
  assumes "plain_writable wenv wcontents" "wcontents g = []"
    and "whole_reads renv rcontents"
    and "rcontents f = take k (wcontents (w_dest (add_records wenv (xs @ ys) (mk_Writer g))))"
    and "length (wcontents (w_dest (add_records wenv xs (mk_Writer g)))) \<le> k"
    and "\<forall>x \<in> set xs \<union> set ys. 2 * length x + 1 < fuel" "0 < fuel"
  shows "\<exists>r zs zs'. ys = zs @ zs' \<and> r_reports r = [] \<and>
    read_all (Suc (length (xs @ ys))) fuel renv (mk_Reader f True checksum 0) = Some (xs @ zs, r)"
proof -
  let ?k = "k - length (log_image 0 xs)"
  let ?zs = "complete (log_end 0 xs) ?k ys"
  have "reading rcontents (mk_Reader f True checksum 0) kBlockSize (take k (log_image kBlockSize (xs @ ys)))"
    using reading_new [of rcontents f True checksum] log_image_mod [of kBlockSize "xs @ ys"]
    by (simp add: assms(4) new_log [OF assms(1,2)])
  then obtain r where r: "read_all (Suc (length (xs @ ys))) fuel renv (mk_Reader f True checksum 0) =
      Some (complete kBlockSize k (xs @ ys), r)" "r_reports r = []"
    using read_all_prefix [OF assms(3) _ _ assms(7), of _ kBlockSize k "xs @ ys"] assms(6)
    by (fastforce simp: mk_Reader_def)
  have "complete kBlockSize k (xs @ ys) = complete 0 k (xs @ ys)"
    using framed_mod [of kBlockSize True] by (cases "xs @ ys") (simp_all del: append_is_Nil_conv)
  then have "complete kBlockSize k (xs @ ys) = xs @ ?zs"
    using assms(5) by (simp add: complete_append new_log [OF assms(1,2)])
  with r complete_prefix [of ys "log_end 0 xs" ?k] show ?thesis by (metis append.assoc)
qed

lemma log_crash_prefix_witness:
  "\<exists>r zs zs'. [[1, 2], []] = zs @ zs' \<and> r_reports r = [] \<and>
    read_all 4 6 memory_readable
      (mk_Reader (take 10 (w_dest (add_records memory_writable [[42], [1, 2], []] (mk_Writer [])))) True True 0) =
      Some ([[42]] @ zs, r)"
proof -
  have "length (log_image 0 [[42]]) \<le> 10"
    by (simp add: framed.simps [of 0] Let_def fragment_size_def block_start_def block_pad_def
        kBlockSize_def kHeaderSize_def)
  then have "length (w_dest (add_records memory_writable [[42]] (mk_Writer []))) \<le> 10"
    using new_log [OF memory_files(1), of "[]" "[[42]]"] by simp
  then show ?thesis
    using log_crash_prefix [OF memory_files(1) _ memory_files(2), where g = "[]" and xs = "[[42]]"
        and ys = "[[1, 2], []]" and k = 10 and fuel = 6 and checksum = True
        and f = "take 10 (w_dest (add_records memory_writable [[42], [1, 2], []] (mk_Writer [])))"]
    by (simp add: numeral_eq_Suc)
qed

text \<open>C15: A writer opened on an existing log of known length continues it as the writer that
  wrote it would have: the two files are the same.\<close>

theorem log_reopen:
  assumes "plain_writable env contents" "contents g = []"
    and "w = add_records env xs (mk_Writer g)" "length (contents (w_dest w)) < 2 ^ 64"
  shows "contents (w_dest (add_records env ys
      (mk_Writer_at (w_dest w) (of_nat (length (contents (w_dest w))))))) =
    contents (w_dest (add_records env ys w))"
proof -
  let ?L = "log_image 0 xs"
  have w: "writing w" "w_block_offset w = log_end 0 xs" "contents (w_dest w) = ?L"
    using add_records_plain [OF assms(1) writing_new(1), of xs g] assms(2)
    by (simp_all add: assms(3) mk_Writer_def)
  have "log_end 0 xs \<le> kBlockSize" and mod: "length ?L mod kBlockSize = log_end 0 xs mod kBlockSize"
    using log_end_offset [of 0 xs] by simp_all
  moreover have "w_block_offset (mk_Writer_at (w_dest w) (of_nat (length ?L))) = length ?L mod kBlockSize"
    using assms(4) w(3) by (simp add: mk_Writer_at_def unat_of_nat_small)
  ultimately have "log_image (w_block_offset (mk_Writer_at (w_dest w) (of_nat (length ?L)))) ys =
      log_image (log_end 0 xs) ys"
    using log_image_mod by metis
  then show ?thesis
    using add_records_plain [OF assms(1) writing_new(2), of ys "w_dest w" "of_nat (length ?L)"]
      add_records_plain [OF assms(1) w(1), of ys]
    by (simp add: w(2,3)) (simp add: mk_Writer_at_def w(3))
qed

lemma log_reopen_witness:
  "w_dest (add_records memory_writable [[7]]
      (mk_Writer_at (w_dest (add_records memory_writable [[42]] (mk_Writer []))) 8)) =
    w_dest (add_records memory_writable [[7]] (add_records memory_writable [[42]] (mk_Writer [])))"
proof -
  have "length (log_image 0 [[42]]) = 8"
    by (simp add: framed.simps [of 0] Let_def fragment_size_def block_start_def block_pad_def
        kBlockSize_def kHeaderSize_def)
  then have "length (w_dest (add_records memory_writable [[42]] (mk_Writer []))) = 8"
    using new_log [OF memory_files(1), of "[]" "[[42]]"] by simp
  then show ?thesis
    using log_reopen [OF memory_files(1) _ refl, of "[]" "[[42]]" "[[7]]"] by simp
qed

text \<open>C16: On any file at all, damaged or not, and from any initial offset, \<^verbatim>\<open>ReadRecord\<close> returns:
  it needs at most one turn of its loop for every byte not yet read.\<close>

theorem log_reader_terminates:
  assumes "whole_reads env contents" "length (r_buffer r) + length (contents (r_file r)) < fuel"
  shows "ReadRecord fuel env r \<noteq> None"
  using ReadRecord_returns [OF assms(1)] assms(2) by (simp add: unread_def)

lemma log_reader_terminates_witness:
  "ReadRecord 4 memory_readable (mk_Reader [1, 2, 3] True True 100000) \<noteq> None"
  using log_reader_terminates [OF memory_files(2), of "mk_Reader [1, 2, 3] True True 100000" 4]
  by (simp add: mk_Reader_def)

text \<open>C17: With checksums on, a physical record handed to \<^verbatim>\<open>ReadRecord\<close> stands in the file with
  a header that carries its length, its type and the masked checksum of its type and data;
  what is skipped lies before it and what follows it is still unread.\<close>

theorem log_reader_checks:
  assumes "whole_reads env contents" "r_checksum r"
    and "ReadPhysicalRecord env result r = (t, p, r')" "t \<noteq> kEof" "t \<noteq> kBadRecord"
  shows "\<exists>skipped. r_buffer r @ contents (r_file r) =
    skipped @ physical t p @ r_buffer r' @ contents (r_file r')"
  using ReadPhysicalRecord_sound [OF assms(1-5)] by (simp add: unread_def)

lemma log_reader_checks_witness:
  "\<exists>r' skipped. ReadPhysicalRecord memory_readable [] (mk_Reader (physical 1 [42]) True True 0) = (1, [42], r') \<and>
    physical 1 [42] = skipped @ physical 1 [42] @ r_buffer r' @ r_file r'"
proof -
  let ?r = "mk_Reader (physical 1 [42]) True True 0"
  have "reading id ?r kBlockSize (physical 1 [42] @ [])"
    using reading_new [of id "physical 1 [42]"] by simp
  from ReadPhysicalRecord_refill [OF memory_files(2) this]
  obtain r1 where r1: "reading id r1 0 (physical 1 [42] @ [])"
    "ReadPhysicalRecord memory_readable [] ?r = ReadPhysicalRecord memory_readable [] r1"
    by (auto simp: mk_Reader_def kHeaderSize_def)
  have "(scast (ucast (1 :: u32) :: byte) :: u32) = 1" by simp
  then obtain r' where r': "ReadPhysicalRecord memory_readable [] ?r = (1, [42], r')"
    using ReadPhysicalRecord_record [OF r1(1), of memory_readable "[]"] r1(2)
    by (auto simp: kZeroType_def kHeaderSize_def kBlockSize_def)
  show ?thesis
    using r' log_reader_checks [OF memory_files(2) _ r']
    by (auto simp: type_codes mk_Reader_def)
qed

text \<open>C18: A log that begins with a physical record whose type byte is 5, the in-memory code for the end of
  the file, and whose checksum is right, is empty to a reader from its start that verifies checksums or
  not: the first \<^verbatim>\<open>ReadRecord\<close> ends without a record and without a report, whatever follows.\<close>

theorem log_type_5_ends:
  assumes "whole_reads env contents" "contents f = physical 5 p @ S"
    and "kHeaderSize + length p \<le> kBlockSize" "0 < fuel"
  shows "\<exists>r. ReadRecord fuel env (mk_Reader f True checksum 0) = Some (False, [], r) \<and> r_reports r = []"
proof -
  let ?r = "mk_Reader f True checksum 0 :: 'a Reader"
  obtain n where n: "fuel = Suc n" using assms(4) by (cases fuel) auto
  obtain r1 where r1: "reading contents r1 0 (physical 5 p @ S)" "r_reports r1 = []"
    "ReadPhysicalRecord env [] ?r = ReadPhysicalRecord env [] r1"
    using ReadPhysicalRecord_refill [OF assms(1) reading_new, of f True checksum]
    by (auto simp: assms(2) mk_Reader_def kHeaderSize_def)
  have "(scast (ucast (5 :: u32) :: byte) :: u32) = 5" by simp
  then obtain r2 where r2: "ReadPhysicalRecord env [] ?r = (5, p, r2)" "r_reports r2 = []"
    using ReadPhysicalRecord_record [OF r1(1), of env "[]"] assms(3) r1(2,3) by (auto simp: kZeroType_def)
  have "read_loop fuel env [] [] False 0 ?r = Some (False, [], r2\<lparr>r_resyncing := False\<rparr>)"
    unfolding n by (subst read_loop.simps) (simp add: r2 type_codes Let_def)
  then show ?thesis
    using r2(2) by (simp add: ReadRecord_def mk_Reader_def)
qed

lemma log_type_5_ends_witness:
  "\<exists>r. ReadRecord 1 memory_readable
      (mk_Reader (physical 5 [] @ physical 1 [42]) True True 0) = Some (False, [], r) \<and> r_reports r = []"
  using log_type_5_ends [OF memory_files(2), of _ "[]" "physical 1 [42]" 1 True]
  by (simp add: kHeaderSize_def kBlockSize_def)

end
