(* ===== verification/Ldb_Status_Correct.thy ===== *)
theory Ldb_Status_Correct
  imports Ldb_Status Ldb_Coding_Correct
begin

text \<open>What a \<^verbatim>\<open>Status\<close> reports: its code, its message and its printed form.\<close>

text \<open>The message a status carries.\<close>

definition status_message :: "slice \<Rightarrow> slice \<Rightarrow> slice" where
  "status_message msg msg2 = msg @ (if msg2 = [] then [] else c_string '': '' @ msg2)"

lemma mk_Status_message:
  assumes "length msg + length msg2 + 7 < 2 ^ 32"
  shows "mk_Status code msg msg2 =
    Some (EncodeFixed32 (of_nat (length (status_message msg msg2))) @ [code_byte code] @
      status_message msg msg2)"
proof -
  have l: "unat (of_nat (length msg) :: u32) = length msg" "unat (of_nat (length msg2) :: u32) = length msg2"
    using assms by (simp_all add: unat_of_nat_small)
  show ?thesis
  proof (cases "msg2 = []")
    case True
    then show ?thesis by (simp add: mk_Status_def Let_def l status_message_def)
  next
    case False
    then have "(of_nat (length msg2) :: u32) \<noteq> 0" using l(2) by (metis length_0_conv unat_0)
    moreover have "of_nat (length (status_message msg msg2)) =
        (of_nat (length msg) + (2 + of_nat (length msg2)) :: u32)"
      using False by (simp add: status_message_def c_string_def)
    ultimately show ?thesis
      using False by (simp add: mk_Status_def Let_def l) (simp add: status_message_def)
  qed
qed

lemma code_byte_inj: "code_byte a = code_byte b \<longleftrightarrow> a = b"
  by (auto simp: code_byte_def split: Code.splits)

lemma mk_Status_reports:
  assumes "length msg + length msg2 + 7 < 2 ^ 32" "code \<noteq> kOk"
  shows "\<not> ok (mk_Status code msg msg2) \<and>
    (IsNotFound (mk_Status code msg msg2) \<longleftrightarrow> code = kNotFound) \<and>
    (IsCorruption (mk_Status code msg msg2) \<longleftrightarrow> code = kCorruption) \<and>
    (IsNotSupportedError (mk_Status code msg msg2) \<longleftrightarrow> code = kNotSupported) \<and>
    (IsInvalidArgument (mk_Status code msg msg2) \<longleftrightarrow> code = kInvalidArgument) \<and>
    (IsIOError (mk_Status code msg msg2) \<longleftrightarrow> code = kIOError) \<and>
    status_ToString (mk_Status code msg msg2) =
      status_type (code_byte code) @ msg @ (if msg2 = [] then [] else c_string '': '' @ msg2) \<and>
    copy_Status (mk_Status code msg msg2) = mk_Status code msg msg2"
proof -
  let ?m = "status_message msg msg2"
  have len: "length ?m + 5 < 2 ^ 32"
    using assms(1) by (auto simp: status_message_def c_string_def)
  have s: "mk_Status code msg msg2 = Some (EncodeFixed32 (of_nat (length ?m)) @ [code_byte code] @ ?m)"
    by (rule mk_Status_message [OF assms(1)])
  have c: "status_code (mk_Status code msg msg2) = code_byte code"
    unfolding s by (simp add: status_code_def nth_append)
  have n: "unat (of_nat (length ?m) :: u32) = length ?m"
    using len by (simp add: unat_of_nat_small)
  then have n5: "unat (of_nat (length ?m) + 5 :: u32) = length ?m + 5"
    using len by (subst unat_add_small) simp_all
  have "status_ToString (mk_Status code msg msg2) = status_type (code_byte code) @ ?m"
    using c unfolding s by (simp add: status_ToString_def n)
  moreover have "copy_Status (mk_Status code msg msg2) = mk_Status code msg msg2"
    unfolding s by (simp add: copy_Status_def CopyState_def n5)
  ultimately show ?thesis
    by (auto simp: IsCorruption_def IsNotFound_def IsIOError_def IsNotSupportedError_def IsInvalidArgument_def
        c code_byte_inj status_message_def) (simp add: ok_def s)
qed

text \<open>The status that the function of a code makes, and what the code prints as.\<close>

definition made_status :: "Code \<Rightarrow> slice \<Rightarrow> slice \<Rightarrow> Status" where
  "made_status code msg msg2 =
     (case code of
        kOk \<Rightarrow> status_OK
      | kNotFound \<Rightarrow> NotFound msg msg2
      | kCorruption \<Rightarrow> Corruption msg msg2
      | kNotSupported \<Rightarrow> NotSupported msg msg2
      | kInvalidArgument \<Rightarrow> InvalidArgument msg msg2
      | kIOError \<Rightarrow> IOError msg msg2)"

text \<open>C40: \<^verbatim>\<open>NotFound\<close>, \<^verbatim>\<open>Corruption\<close>, \<^verbatim>\<open>NotSupported\<close>, \<^verbatim>\<open>InvalidArgument\<close> and \<^verbatim>\<open>IOError\<close> make a status that is
  an error, answers the test of its own kind and none of the other four, prints as the words for its
  kind, the message and, when there is one, a colon and the second message, and is unchanged by
  copying; a status of success passes none of the tests and prints as OK.\<close>

theorem Status_reports_message:
  assumes "length msg + length msg2 + 7 < 2 ^ 32" and "s = made_status code msg msg2"
  shows "(ok s \<longleftrightarrow> code = kOk) \<and>
    (IsNotFound s \<longleftrightarrow> code = kNotFound) \<and>
    (IsCorruption s \<longleftrightarrow> code = kCorruption) \<and>
    (IsNotSupportedError s \<longleftrightarrow> code = kNotSupported) \<and>
    (IsInvalidArgument s \<longleftrightarrow> code = kInvalidArgument) \<and>
    (IsIOError s \<longleftrightarrow> code = kIOError) \<and>
    status_ToString s =
      (let message = msg @ (if msg2 = [] then [] else c_string '': '' @ msg2) in
       case code of
         kOk \<Rightarrow> c_string ''OK''
       | kNotFound \<Rightarrow> c_string ''NotFound: '' @ message
       | kCorruption \<Rightarrow> c_string ''Corruption: '' @ message
       | kNotSupported \<Rightarrow> c_string ''Not implemented: '' @ message
       | kInvalidArgument \<Rightarrow> c_string ''Invalid argument: '' @ message
       | kIOError \<Rightarrow> c_string ''IO error: '' @ message) \<and>
    copy_Status s = s"
proof (cases "code = kOk")
  case True
  then show ?thesis
    using assms(2) by (simp add: made_status_def status_OK_def ok_def IsNotFound_def IsCorruption_def IsNotSupportedError_def
        IsInvalidArgument_def IsIOError_def status_code_def code_byte_def status_ToString_def copy_Status_def)
next
  case False
  then have "s = mk_Status code msg msg2"
    using assms(2) by (cases code) (simp_all add: made_status_def NotFound_def Corruption_def NotSupported_def
        InvalidArgument_def IOError_def)
  then show ?thesis
    using mk_Status_reports [OF assms(1) False] False
    by (cases code) (simp_all add: Let_def status_type_def code_byte_def)
qed

lemma Status_reports_message_witness:
  "status_ToString (InvalidArgument (c_string ''bad option'') (c_string ''x'')) =
     c_string ''Invalid argument: bad option: x''"
  using Status_reports_message [of "c_string ''bad option''" "c_string ''x''" _ kInvalidArgument, OF _ refl]
  by (simp add: made_status_def c_string_def)

end
