(* ===== verification/Ldb_Filter.thy ===== *)
theory Ldb_Filter
  imports Ldb_Coding
begin

unbundle bit_operations_syntax

text \<open>
  LevelDB's hash, Bloom filter and filter blocks: \<^verbatim>\<open>util/hash.cc\<close>, \<^verbatim>\<open>util/bloom.cc\<close> and
  \<^verbatim>\<open>table/filter_block.cc\<close> under \<^verbatim>\<open>src/ios/Pods/leveldb-library/\<close>. A \<^verbatim>\<open>FilterPolicy\<close> is
  the record of its operations; \<^verbatim>\<open>CreateFilter\<close> takes the keys and the string it appends to.
\<close>

subsection \<open>Hash\<close>

text \<open>The loop over four bytes at a time: the hash and the bytes left.\<close>

fun hash_words :: "u32 \<Rightarrow> u32 \<Rightarrow> byte list \<Rightarrow> u32 \<times> byte list" where
  "hash_words m h (a # b # c # d # data) =
     (let w = DecodeFixed32 [a, b, c, d];
          h = (h + w) * m;
          h = h XOR drop_bit 16 h
      in hash_words m h data)"
| "hash_words m h data = (h, data)"

definition Hash :: "slice \<Rightarrow> u32 \<Rightarrow> u32" where
  "Hash data seed =
     (let m = 0xc6a4a793; r = 24;
          h = ucast ((ucast seed :: u64) XOR (of_nat (length data) * ucast m));
          (h, rest) = hash_words m h data;
          h = (if length rest = 3 then h + push_bit 16 (ucast (rest ! 2)) else h);
          h = (if length rest \<ge> 2 then h + push_bit 8 (ucast (rest ! 1)) else h)
      in if length rest \<ge> 1 then
           let h = (h + ucast (rest ! 0)) * m in h XOR drop_bit r h
         else h)"

subsection \<open>Bloom filter\<close>

definition BloomHash :: "slice \<Rightarrow> u32" where
  "BloomHash key = Hash key 0xbc9f1d34"

record BloomFilterPolicy =
  bits_per_key :: u64
  k_probes :: nat

text \<open>
  The constructor. The code multiplies by the double 0.69 and truncates; between the clamps at 1
  and at 30, that is below 44 bits per key, the product is not near an integer and truncating
  it is dividing by 100 after multiplying by 69.
\<close>

definition mk_BloomFilterPolicy :: "nat \<Rightarrow> BloomFilterPolicy" where
  "mk_BloomFilterPolicy bpk =
     (let k = bpk * 69 div 100;
          k = (if k < 1 then 1 else k);
          k = (if k > 30 then 30 else k)
      in \<lparr>bits_per_key = of_nat bpk, k_probes = k\<rparr>)"

definition bloom_delta :: "u32 \<Rightarrow> u32" where
  "bloom_delta h = drop_bit 17 h OR push_bit 15 h"

text \<open>The probes of one key: \<open>j\<close> more of them from the hash \<open>h\<close>.\<close>

primrec set_probes :: "nat \<Rightarrow> u64 \<Rightarrow> u32 \<Rightarrow> u32 \<Rightarrow> byte list \<Rightarrow> byte list" where
  "set_probes 0 bits delta h array = array"
| "set_probes (Suc j) bits delta h array =
     (let bitpos = unat (ucast h mod bits) in
      set_probes j bits delta (h + delta)
        (array[bitpos div 8 := array ! (bitpos div 8) OR push_bit (bitpos mod 8) 1]))"

definition bloom_CreateFilter :: "BloomFilterPolicy \<Rightarrow> slice list \<Rightarrow> byte list \<Rightarrow> byte list" where
  "bloom_CreateFilter p keys dst =
     (let bits = of_nat (length keys) * bits_per_key p;
          bits = (if bits < 64 then 64 else bits);
          bytes = (bits + 7) div 8;
          bits = bytes * 8;
          array = fold (\<lambda>key array.
              let h = BloomHash key in set_probes (k_probes p) bits (bloom_delta h) h array)
            keys (replicate (unat bytes) 0)
      in dst @ array @ [of_nat (k_probes p)])"

primrec test_probes :: "nat \<Rightarrow> u64 \<Rightarrow> u32 \<Rightarrow> u32 \<Rightarrow> byte list \<Rightarrow> bool" where
  "test_probes 0 bits delta h array = True"
| "test_probes (Suc j) bits delta h array =
     (let bitpos = unat (ucast h mod bits) in
      if array ! (bitpos div 8) AND push_bit (bitpos mod 8) 1 = 0 then False
      else test_probes j bits delta (h + delta) array)"

definition bloom_KeyMayMatch :: "slice \<Rightarrow> slice \<Rightarrow> bool" where
  "bloom_KeyMayMatch key bloom_filter =
     (let len = length bloom_filter in
      if len < 2 then False
      else
        (let bits = (of_nat len - 1) * 8 :: u64;
             k = scast (bloom_filter ! (len - 1)) :: u64
         in if k > 30 then True
            else (let h = BloomHash key in test_probes (unat k) bits (bloom_delta h) h bloom_filter)))"

subsection \<open>Policies\<close>

record FilterPolicy =
  policy_Name :: slice
  CreateFilter :: "slice list \<Rightarrow> byte list \<Rightarrow> byte list"
  KeyMayMatch :: "slice \<Rightarrow> slice \<Rightarrow> bool"

definition NewBloomFilterPolicy :: "nat \<Rightarrow> FilterPolicy" where
  "NewBloomFilterPolicy bpk =
     \<lparr>policy_Name = map of_char ''leveldb.BuiltinBloomFilter2'',
      CreateFilter = bloom_CreateFilter (mk_BloomFilterPolicy bpk), KeyMayMatch = bloom_KeyMayMatch\<rparr>"

subsection \<open>Building a filter block\<close>

definition kFilterBaseLg :: nat where
  "kFilterBaseLg = 11"

definition kFilterBase :: nat where
  "kFilterBase = 2 ^ kFilterBaseLg"

record FilterBlockBuilder =
  fb_policy :: FilterPolicy
  fb_keys :: "byte list"
  fb_start :: "nat list"
  fb_result :: "byte list"
  fb_filter_offsets :: "u32 list"

definition mk_FilterBlockBuilder :: "FilterPolicy \<Rightarrow> FilterBlockBuilder" where
  "mk_FilterBlockBuilder policy =
     \<lparr>fb_policy = policy, fb_keys = [], fb_start = [], fb_result = [], fb_filter_offsets = []\<rparr>"

definition GenerateFilter :: "FilterBlockBuilder \<Rightarrow> FilterBlockBuilder" where
  "GenerateFilter b =
     (let num_keys = length (fb_start b);
          b1 = b\<lparr>fb_filter_offsets := fb_filter_offsets b @ [of_nat (length (fb_result b))]\<rparr>
      in if num_keys = 0 then b1
         else
           (let start = fb_start b @ [length (fb_keys b)];
                tmp_keys = map (\<lambda>i. take (start ! (i + 1) - start ! i) (drop (start ! i) (fb_keys b)))
                             [0..<num_keys]
            in b1\<lparr>fb_result := CreateFilter (fb_policy b) tmp_keys (fb_result b),
                  fb_keys := [], fb_start := []\<rparr>))"

function StartBlock_loop :: "nat \<Rightarrow> FilterBlockBuilder \<Rightarrow> FilterBlockBuilder" where
  "StartBlock_loop filter_index b =
     (if filter_index > length (fb_filter_offsets b)
      then StartBlock_loop filter_index (GenerateFilter b) else b)"
  by auto

lemma GenerateFilter_offsets [simp]:
  "fb_filter_offsets (GenerateFilter b) = fb_filter_offsets b @ [of_nat (length (fb_result b))]"
  by (simp add: GenerateFilter_def Let_def)

termination StartBlock_loop
  by (relation "measure (\<lambda>(i, b). i - length (fb_filter_offsets b))") auto

declare StartBlock_loop.simps [simp del]

definition StartBlock :: "u64 \<Rightarrow> FilterBlockBuilder \<Rightarrow> FilterBlockBuilder" where
  "StartBlock block_offset b = StartBlock_loop (unat block_offset div kFilterBase) b"

definition AddKey :: "slice \<Rightarrow> FilterBlockBuilder \<Rightarrow> FilterBlockBuilder" where
  "AddKey key b = b\<lparr>fb_start := fb_start b @ [length (fb_keys b)], fb_keys := fb_keys b @ key\<rparr>"

definition filter_Finish :: "FilterBlockBuilder \<Rightarrow> slice" where
  "filter_Finish b =
     (let b = (if fb_start b \<noteq> [] then GenerateFilter b else b);
          array_offset = of_nat (length (fb_result b)) :: u32;
          result = foldl PutFixed32 (fb_result b) (fb_filter_offsets b)
      in PutFixed32 result array_offset @ [of_nat kFilterBaseLg])"

subsection \<open>Reading a filter block\<close>

text \<open>\<open>fr_offset\<close> is the distance of the offset array from the start of the data.\<close>

record FilterBlockReader =
  fr_policy :: FilterPolicy
  fr_data :: slice
  fr_offset :: nat
  fr_num :: nat
  fr_base_lg :: nat

text \<open>
  The constructor; \<^verbatim>\<open>base_lg_\<close> is a \<^verbatim>\<open>size_t\<close> made from a \<^verbatim>\<open>char\<close> of the file.
\<close>

definition mk_FilterBlockReader :: "FilterPolicy \<Rightarrow> slice \<Rightarrow> FilterBlockReader" where
  "mk_FilterBlockReader policy contents =
     (let n = length contents;
          r = \<lparr>fr_policy = policy, fr_data = [], fr_offset = 0, fr_num = 0, fr_base_lg = 0\<rparr>
      in if n < 5 then r
         else
           (let r = r\<lparr>fr_base_lg := unat (scast (contents ! (n - 1)) :: u64)\<rparr>;
                last_word = unat (DecodeFixed32 (drop (n - 5) contents))
            in if last_word > n - 5 then r
               else r\<lparr>fr_data := contents, fr_offset := last_word,
                      fr_num := (n - 5 - last_word) div 4\<rparr>))"

definition filter_KeyMayMatch :: "FilterBlockReader \<Rightarrow> u64 \<Rightarrow> slice \<Rightarrow> bool" where
  "filter_KeyMayMatch r block_offset key =
     (let index = unat (drop_bit (fr_base_lg r) block_offset) in
      if index < fr_num r then
        (let start = unat (DecodeFixed32 (drop (fr_offset r + index * 4) (fr_data r)));
             limit = unat (DecodeFixed32 (drop (fr_offset r + index * 4 + 4) (fr_data r)))
         in if start \<le> limit \<and> limit \<le> fr_offset r then
              KeyMayMatch (fr_policy r) key (take (limit - start) (drop start (fr_data r)))
            else if start = limit then False else True)
      else True)"

end
