(* ===== verification/Ldb_Filter_Correct.thy ===== *)
theory Ldb_Filter_Correct
  imports Ldb_Filter Ldb_Coding_Correct
begin

unbundle bit_operations_syntax

text \<open>
  Filters have no false negatives: the Bloom filter by the bits its probes set and test, and a
  filter block, for any policy with that contract, by an invariant that follows every key from
  the builder's pending keys into the filter the reader consults.
\<close>

subsection \<open>Bits of an array\<close>

definition bit_at :: "byte list \<Rightarrow> nat \<Rightarrow> bool" where
  "bit_at array p = bit (array ! (p div 8)) (p mod 8)"

lemma and_exp_2: "x AND 2 ^ n = 0 \<longleftrightarrow> \<not> bit (x :: byte) n"
  by (rule and_exp_eq_0_iff_not_bit)

lemma bit_at_update:
  assumes "q div 8 < length array"
  shows "bit_at (array[q div 8 := array ! (q div 8) OR 2 ^ (q mod 8)]) p \<longleftrightarrow> bit_at array p \<or> p = q"
proof -
  have "p div 8 = q div 8 \<and> p mod 8 = q mod 8 \<longleftrightarrow> p = q" by (metis div_mult_mod_eq)
  then show ?thesis
    using assms by (cases "p div 8 = q div 8") (auto simp: bit_at_def bit_or_iff bit_exp_iff)
qed

lemma length_set_probes [simp]: "length (set_probes j bits delta h array) = length array"
  by (induction j arbitrary: h array) (simp_all add: Let_def)

text \<open>The position a hash falls on.\<close>

definition probe :: "u64 \<Rightarrow> u32 \<Rightarrow> nat" where
  "probe bits h = unat (ucast h mod bits)"

lemma probe_less: "0 < unat bits \<Longrightarrow> unat bits = 8 * n \<Longrightarrow> probe bits h div 8 < n"
  by (simp add: probe_def unat_mod less_mult_imp_div_less mult.commute)

lemma set_probes_mono:
  "unat bits = 8 * length array \<Longrightarrow> 0 < length array \<Longrightarrow> bit_at array p \<Longrightarrow>
     bit_at (set_probes j bits delta h array) p"
  by (induction j arbitrary: h array)
    (simp_all add: Let_def bit_at_update probe_less [unfolded probe_def])

lemma test_probes_iff:
  "test_probes j bits delta h array \<longleftrightarrow> (\<forall>i<j. bit_at array (probe bits (h + of_nat i * delta)))"
proof (induction j arbitrary: h)
  case 0
  then show ?case by simp
next
  case (Suc j)
  have "(\<forall>i<Suc j. P i) \<longleftrightarrow> P 0 \<and> (\<forall>i<j. P (Suc i))" for P by (auto simp: less_Suc_eq_0_disj)
  then show ?case
    by (simp add: Let_def Suc and_exp_2 bit_at_def probe_def algebra_simps)
qed

lemma set_probes_sets:
  assumes "unat bits = 8 * length array" "0 < length array"
  shows "test_probes j bits delta h (set_probes j bits delta h array)"
  using assms
proof (induction j arbitrary: h array)
  case 0
  then show ?case by simp
next
  case (Suc j)
  let ?p = "probe bits h"
  let ?a = "array[?p div 8 := array ! (?p div 8) OR 2 ^ (?p mod 8)]"
  have "bit_at ?a ?p" using Suc.prems by (simp add: bit_at_update probe_less)
  then have "bit_at (set_probes j bits delta (h + delta) ?a) ?p"
    using Suc.prems by (intro set_probes_mono) simp_all
  then show ?case
    using Suc.IH [of ?a "h + delta"] Suc.prems by (simp add: Let_def probe_def bit_at_def and_exp_2)
qed

subsection \<open>The Bloom filter\<close>

definition bloom_add :: "nat \<Rightarrow> u64 \<Rightarrow> slice \<Rightarrow> byte list \<Rightarrow> byte list" where
  "bloom_add k bits key array =
     set_probes k bits (bloom_delta (BloomHash key)) (BloomHash key) array"

definition bloom_test :: "nat \<Rightarrow> u64 \<Rightarrow> slice \<Rightarrow> byte list \<Rightarrow> bool" where
  "bloom_test k bits key array =
     test_probes k bits (bloom_delta (BloomHash key)) (BloomHash key) array"

lemma length_bloom_adds [simp]: "length (fold (bloom_add k bits) keys array) = length array"
  by (induction keys arbitrary: array) (simp_all add: bloom_add_def)

lemma bloom_adds_mono:
  "unat bits = 8 * length array \<Longrightarrow> 0 < length array \<Longrightarrow> bloom_test k bits key array \<Longrightarrow>
     bloom_test k bits key (fold (bloom_add k' bits) keys array)"
proof (induction keys arbitrary: array)
  case Nil
  then show ?case by simp
next
  case (Cons x keys)
  have "bloom_test k bits key (bloom_add k' bits x array)"
    using Cons.prems by (auto simp: bloom_test_def bloom_add_def test_probes_iff intro: set_probes_mono)
  then show ?case using Cons.IH [of "bloom_add k' bits x array"] Cons.prems
    by (simp add: bloom_add_def)
qed

lemma bloom_adds_test:
  "unat bits = 8 * length array \<Longrightarrow> 0 < length array \<Longrightarrow> key \<in> set keys \<Longrightarrow>
     bloom_test k bits key (fold (bloom_add k bits) keys array)"
proof (induction keys arbitrary: array)
  case Nil
  then show ?case by simp
next
  case (Cons x keys)
  have len: "length (bloom_add k bits x array) = length array" by (simp add: bloom_add_def)
  show ?case
  proof (cases "key = x")
    case True
    then have "bloom_test k bits key (bloom_add k bits x array)"
      using Cons.prems by (simp add: bloom_test_def bloom_add_def set_probes_sets)
    then show ?thesis using Cons.prems len by (simp add: bloom_adds_mono)
  next
    case False
    then show ?thesis
      using Cons.IH [of "bloom_add k bits x array"] Cons.prems len by (simp del: length_greater_0_conv)
  qed
qed

definition max_bloom_keys :: "nat \<Rightarrow> nat" where
  "max_bloom_keys bpk = (2 ^ 64 - 8) div max 1 bpk"

text \<open>The filter as the number of probes, the number of bits and the array.\<close>

lemma bloom_CreateFilter_eq:
  assumes "length keys \<le> max_bloom_keys bpk"
  obtains bytes where "0 < bytes" "bytes < 2 ^ 61"
    "bloom_CreateFilter (mk_BloomFilterPolicy bpk) keys dst =
       dst @ fold (bloom_add (k_probes (mk_BloomFilterPolicy bpk)) (of_nat (8 * bytes))) keys
               (replicate bytes 0) @ [of_nat (k_probes (mk_BloomFilterPolicy bpk))]"
proof -
  have "length keys * bpk \<le> 2 ^ 64 - 8"
  proof -
    have "length keys * max 1 bpk \<le> 2 ^ 64 - 8"
      using assms by (simp add: max_bloom_keys_def less_eq_div_iff_mult_less_eq)
    then show ?thesis by (meson le_trans max.cobounded2 mult_le_mono2)
  qed
  define w :: u64 where "w = of_nat (length keys) * bits_per_key (mk_BloomFilterPolicy bpk)"
  have w: "unat w \<le> 2 ^ 64 - 8"
  proof -
    have "w = of_nat (length keys * bpk)" by (simp add: w_def mk_BloomFilterPolicy_def Let_def)
    then show ?thesis using \<open>length keys * bpk \<le> 2 ^ 64 - 8\<close> unat_of_nat_le le_trans by blast
  qed
  define v where "v = (if w < 64 then 64 else w)"
  have v: "unat v \<le> 2 ^ 64 - 8" "64 \<le> unat v" using w by (auto simp: v_def word_less_nat_alt)
  define bytes where "bytes = (unat v + 7) div 8"
  have u: "unat ((v + 7) div 8) = bytes"
  proof -
    have "unat (v + 7) = unat v + 7" using v by (subst unat_add_small) simp_all
    then show ?thesis by (simp add: unat_div bytes_def)
  qed
  then have m: "(v + 7) div 8 = of_nat bytes" by (metis of_nat_unat ucast_id)
  have n: "unat (of_nat bytes :: u64) = bytes" using u by (simp only: m)
  show ?thesis
  proof (rule that [of bytes])
    show "0 < bytes" "bytes < 2 ^ 61" using v by (auto simp: bytes_def)
    show "bloom_CreateFilter (mk_BloomFilterPolicy bpk) keys dst =
       dst @ fold (bloom_add (k_probes (mk_BloomFilterPolicy bpk)) (of_nat (8 * bytes))) keys
               (replicate bytes 0) @ [of_nat (k_probes (mk_BloomFilterPolicy bpk))]"
      unfolding bloom_CreateFilter_def Let_def w_def [symmetric] v_def [symmetric] u m
      by (simp add: bloom_add_def [abs_def] mult.commute [of _ 8] n)
  qed
qed

lemma k_probes_range: "1 \<le> k_probes (mk_BloomFilterPolicy bpk)" "k_probes (mk_BloomFilterPolicy bpk) \<le> 30"
  by (simp_all add: mk_BloomFilterPolicy_def Let_def)

lemma bloom_match:
  assumes "0 < bytes" "bytes < 2 ^ 61" "length array = bytes" "k \<le> 30"
  shows "bloom_KeyMayMatch key (array @ [of_nat k]) = bloom_test k (of_nat (8 * bytes)) key array"
proof -
  have k: "(scast (of_nat k :: byte) :: u64) = of_nat k"
  proof -
    have "sint (of_nat k :: byte) = int k"
      using assms(4) sint_eq_unat [of 7 "of_nat k :: byte"] by (simp add: unat_of_nat_small)
    then show ?thesis by (metis of_int_of_nat_eq of_int_sint scast_eq)
  qed
  have u: "unat (of_nat k :: u64) = k" using assms(4) by (simp add: unat_of_nat_small)
  then have "\<not> 30 < (of_nat k :: u64)" using assms(4) by (simp add: word_less_nat_alt)
  moreover have "(of_nat (Suc bytes) - 1) * 8 = (of_nat (8 * bytes) :: u64)" by simp
  moreover have "test_probes k bits d h (array @ [x]) = test_probes k bits d h array"
    if "unat bits = 8 * bytes" for bits d h x
    using probe_less [of bits bytes] that assms(1,3)
    by (simp add: test_probes_iff bit_at_def nth_append)
  moreover have "unat (of_nat (8 * bytes) :: u64) = 8 * bytes"
    using assms(2) by (intro unat_of_nat_small) simp
  ultimately show ?thesis
    using assms(1,3) k u
    by (simp add: bloom_KeyMayMatch_def Let_def bloom_test_def nth_append mult.commute [of _ 8])
qed

lemma bloom_no_false_negative:
  assumes "length keys \<le> max_bloom_keys bpk" "key \<in> set keys"
  shows "bloom_KeyMayMatch key (bloom_CreateFilter (mk_BloomFilterPolicy bpk) keys [])"
proof -
  let ?k = "k_probes (mk_BloomFilterPolicy bpk)"
  obtain bytes where b: "0 < bytes" "bytes < 2 ^ 61"
    and f: "bloom_CreateFilter (mk_BloomFilterPolicy bpk) keys [] =
      fold (bloom_add ?k (of_nat (8 * bytes))) keys (replicate bytes 0) @ [of_nat ?k]"
    by (rule bloom_CreateFilter_eq [OF assms(1), of "[]"]) simp
  have "unat (of_nat (8 * bytes) :: u64) = 8 * bytes"
    using b(2) by (intro unat_of_nat_small) simp
  then have "bloom_test ?k (of_nat (8 * bytes)) key
      (fold (bloom_add ?k (of_nat (8 * bytes))) keys (replicate bytes 0))"
    using b(1) assms(2) by (intro bloom_adds_test) simp_all
  then show ?thesis
    unfolding f using bloom_match [OF b, of _ ?k key] k_probes_range by simp
qed

lemma bloom_appends:
  "bloom_CreateFilter (mk_BloomFilterPolicy bpk) keys dst =
     dst @ bloom_CreateFilter (mk_BloomFilterPolicy bpk) keys []"
  by (simp add: bloom_CreateFilter_def Let_def)

subsection \<open>What a filter block asks of its policy\<close>

locale filter_policy =
  fixes pol :: FilterPolicy and max_keys :: nat
  assumes appends: "CreateFilter pol keys dst = dst @ CreateFilter pol keys []"
    and no_false_negative:
      "length keys \<le> max_keys \<Longrightarrow> key \<in> set keys \<Longrightarrow> KeyMayMatch pol key (CreateFilter pol keys [])"

interpretation bloom: filter_policy "NewBloomFilterPolicy bpk" "max_bloom_keys bpk" for bpk
  by unfold_locales
    (simp_all add: NewBloomFilterPolicy_def bloom_no_false_negative, rule bloom_appends)

subsection \<open>The state of a filter block builder\<close>

definition pending_keys :: "FilterBlockBuilder \<Rightarrow> slice list" where
  "pending_keys b =
     (let start = fb_start b @ [length (fb_keys b)] in
      map (\<lambda>i. take (start ! (i + 1) - start ! i) (drop (start ! i) (fb_keys b))) [0..<length (fb_start b)])"

definition starts_ok :: "FilterBlockBuilder \<Rightarrow> bool" where
  "starts_ok b = (\<forall>s \<in> set (fb_start b). s \<le> length (fb_keys b))"

lemma length_pending [simp]: "length (pending_keys b) = length (fb_start b)"
  by (simp add: pending_keys_def Let_def)

lemma starts_ok_AddKey [simp]: "starts_ok b \<Longrightarrow> starts_ok (AddKey k b)"
  by (auto simp: starts_ok_def AddKey_def)

lemma pending_AddKey: "starts_ok b \<Longrightarrow> pending_keys (AddKey k b) = pending_keys b @ [k]"
proof (rule nth_equalityI)
  show "length (pending_keys (AddKey k b)) = length (pending_keys b @ [k])" by (simp add: AddKey_def)
  fix i assume ok: "starts_ok b" and "i < length (pending_keys (AddKey k b))"
  then have i: "i \<le> length (fb_start b)" by (simp add: AddKey_def)
  have le: "j < length (fb_start b) \<Longrightarrow> fb_start b ! j \<le> length (fb_keys b)" for j
    using ok by (simp add: starts_ok_def)
  show "pending_keys (AddKey k b) ! i = (pending_keys b @ [k]) ! i"
    using i le [of i] le [of "Suc i"]
    by (cases "Suc i < length (fb_start b)"; cases "Suc i = length (fb_start b)")
      (auto simp: pending_keys_def AddKey_def Let_def nth_append simp del: upt_Suc)
qed

text \<open>The bounds of the filters, the end of the data last, and the filters they delimit.\<close>

definition bounds :: "FilterBlockBuilder \<Rightarrow> nat list" where
  "bounds b = map unat (fb_filter_offsets b) @ [length (fb_result b)]"

definition filter_at :: "FilterBlockBuilder \<Rightarrow> nat \<Rightarrow> byte list" where
  "filter_at b i = take (bounds b ! Suc i - bounds b ! i) (drop (bounds b ! i) (fb_result b))"

definition filters :: "FilterBlockBuilder \<Rightarrow> nat" where
  "filters b = length (fb_filter_offsets b)"

definition building :: "FilterPolicy \<Rightarrow> FilterBlockBuilder \<Rightarrow> bool" where
  "building pol b = (fb_policy b = pol \<and> starts_ok b \<and> sorted (bounds b))"

lemma building_new: "building pol (mk_FilterBlockBuilder pol)"
  by (simp add: building_def mk_FilterBlockBuilder_def starts_ok_def bounds_def)

lemma length_bounds [simp]: "length (bounds b) = Suc (filters b)"
  by (simp add: bounds_def filters_def)

lemma bounds_le: "building pol b \<Longrightarrow> i \<le> filters b \<Longrightarrow> bounds b ! i \<le> length (fb_result b)"
  using sorted_nth_mono [of "bounds b" i "filters b"]
  by (simp add: building_def) (simp add: bounds_def filters_def nth_append)

lemma building_AddKey [simp]: "building pol b \<Longrightarrow> building pol (AddKey k b)"
  by (simp add: building_def bounds_def) (simp add: AddKey_def)

lemma AddKey_frame [simp]:
  "filters (AddKey k b) = filters b" "filter_at (AddKey k b) i = filter_at b i"
  "fb_result (AddKey k b) = fb_result b"
  by (simp_all add: AddKey_def filters_def filter_at_def bounds_def)

lemma GenerateFilter_frame [simp]:
  "fb_policy (GenerateFilter b) = fb_policy b" "fb_start (GenerateFilter b) = []"
  "filters (GenerateFilter b) = Suc (filters b)"
  by (auto simp: GenerateFilter_def Let_def filters_def)

text \<open>What \<open>GenerateFilter\<close> appends to the data.\<close>

definition new_filter :: "FilterPolicy \<Rightarrow> FilterBlockBuilder \<Rightarrow> byte list" where
  "new_filter pol b = (if fb_start b = [] then [] else CreateFilter pol (pending_keys b) [])"

text \<open>
  A key is covered at an index when the filter there was made of keys it is one of, or when it
  waits for the filter that comes next.
\<close>

definition covered :: "FilterPolicy \<Rightarrow> nat \<Rightarrow> FilterBlockBuilder \<Rightarrow> nat \<Rightarrow> slice \<Rightarrow> bool" where
  "covered pol max_keys b i key =
     (if i < filters b
      then \<exists>ks. key \<in> set ks \<and> length ks \<le> max_keys \<and> filter_at b i = CreateFilter pol ks []
      else i = filters b \<and> key \<in> set (pending_keys b))"

lemma covered_AddKey:
  "starts_ok b \<Longrightarrow> covered pol max_keys b i key \<Longrightarrow> covered pol max_keys (AddKey k b) i key"
  "starts_ok b \<Longrightarrow> covered pol max_keys (AddKey k b) (filters b) k"
  by (auto simp: covered_def pending_AddKey)

text \<open>The blocks of a table: where each starts, and its keys.\<close>

fun build_blocks :: "(u64 \<times> slice list) list \<Rightarrow> FilterBlockBuilder \<Rightarrow> FilterBlockBuilder" where
  "build_blocks [] b = b"
| "build_blocks ((block_offset, keys) # blocks) b =
     build_blocks blocks (fold AddKey keys (StartBlock block_offset b))"

lemma fold_AddKey:
  "building pol b \<Longrightarrow> building pol (fold AddKey ks b)"
  "fb_result (fold AddKey ks b) = fb_result b" "filters (fold AddKey ks b) = filters b"
  "length (fb_start (fold AddKey ks b)) = length (fb_start b) + length ks"
  "building pol b \<Longrightarrow> covered pol max_keys b i key \<Longrightarrow> covered pol max_keys (fold AddKey ks b) i key"
proof (induction ks arbitrary: b)
  case (Cons k ks)
  {
    case 1
    then show ?case using Cons(1) [of "AddKey k b"] by simp
  next
    case 2
    then show ?case by (simp add: Cons)
  next
    case 3
    then show ?case by (simp add: Cons)
  next
    case 4
    then show ?case by (simp add: Cons) (simp add: AddKey_def)
  next
    case 5
    then have "starts_ok b" by (simp add: building_def)
    with 5 show ?case using Cons(5) [of "AddKey k b"] by (simp add: covered_AddKey)
  }
qed simp_all

subsection \<open>The finished block\<close>

definition last_filter :: "FilterBlockBuilder \<Rightarrow> FilterBlockBuilder" where
  "last_filter b = (if fb_start b \<noteq> [] then GenerateFilter b else b)"

lemma PutFixed32_foldl: "foldl PutFixed32 dst xs = dst @ concat (map EncodeFixed32 xs)"
  by (induction xs arbitrary: dst) (simp_all add: PutFixed32_def)

lemma filter_Finish_eq:
  "filter_Finish b = fb_result (last_filter b) @
     concat (map EncodeFixed32 (fb_filter_offsets (last_filter b) @ [of_nat (length (fb_result (last_filter b)))])) @ [11]"
  by (simp add: filter_Finish_def last_filter_def Let_def PutFixed32_foldl PutFixed32_def kFilterBaseLg_def)

lemma length_fixed32s [simp]: "length (concat (map EncodeFixed32 xs)) = 4 * length xs"
  by (induction xs) simp_all

lemma DecodeFixed32_nth:
  "i < length xs \<Longrightarrow> DecodeFixed32 (drop (4 * i) (concat (map EncodeFixed32 xs)) @ r) = xs ! i"
proof (induction xs arbitrary: i)
  case (Cons x xs)
  then show ?case by (cases i) (simp_all add: add.commute [of 4])
qed simp

context filter_policy
begin

lemma result_GenerateFilter:
  "fb_policy b = pol \<Longrightarrow> fb_result (GenerateFilter b) = fb_result b @ new_filter pol b"
  using appends [of "pending_keys b" "fb_result b"]
  by (auto simp: GenerateFilter_def new_filter_def pending_keys_def Let_def)

lemma bounds_GenerateFilter:
  "fb_policy b = pol \<Longrightarrow> length (fb_result b) < 2 ^ 32 \<Longrightarrow>
     bounds (GenerateFilter b) = bounds b @ [length (fb_result (GenerateFilter b))]"
  by (simp add: bounds_def unat_of_nat_small)

lemma building_GenerateFilter:
  assumes "building pol b" "length (fb_result b) < 2 ^ 32"
  shows "building pol (GenerateFilter b)"
proof -
  have pol: "fb_policy b = pol" using assms by (simp add: building_def)
  have "sorted (bounds (GenerateFilter b))"
  proof -
    have "\<forall>x \<in> set (bounds b). x \<le> length (fb_result (GenerateFilter b))"
      using bounds_le [OF assms(1)]
      by (auto simp: result_GenerateFilter [OF pol] in_set_conv_nth less_Suc_eq_le trans_le_add1)
    then show ?thesis
      using assms(1) unfolding bounds_GenerateFilter [OF pol assms(2)]
      by (simp add: building_def sorted_append)
  qed
  then show ?thesis using assms by (simp add: building_def starts_ok_def)
qed

lemma filter_at_GenerateFilter:
  assumes "building pol b" "length (fb_result b) < 2 ^ 32"
  shows "i < filters b \<Longrightarrow> filter_at (GenerateFilter b) i = filter_at b i"
    and "filter_at (GenerateFilter b) (filters b) = new_filter pol b"
proof -
  have pol: "fb_policy b = pol" using assms by (simp add: building_def)
  note bnd = bounds_GenerateFilter [OF pol assms(2)]
  show "filter_at (GenerateFilter b) i = filter_at b i" if "i < filters b"
    using that bounds_le [OF assms(1), of i] bounds_le [OF assms(1), of "Suc i"]
    by (simp add: filter_at_def bnd nth_append result_GenerateFilter [OF pol])
  have "bounds b ! filters b = length (fb_result b)"
    by (simp add: bounds_def filters_def nth_append)
  then show "filter_at (GenerateFilter b) (filters b) = new_filter pol b"
    by (simp add: filter_at_def bnd nth_append result_GenerateFilter [OF pol])
qed

lemma covered_GenerateFilter:
  assumes "building pol b" "length (fb_result b) < 2 ^ 32" "length (fb_start b) \<le> max_keys"
    and "covered pol max_keys b i key"
  shows "covered pol max_keys (GenerateFilter b) i key"
proof (cases "i < filters b")
  case True
  then show ?thesis using assms by (simp add: covered_def filter_at_GenerateFilter)
next
  case False
  then have i: "i = filters b" and key: "key \<in> set (pending_keys b)"
    using assms(4) by (auto simp: covered_def)
  then have "fb_start b \<noteq> []" using length_pending [of b] by (cases "pending_keys b") auto
  then show ?thesis
    using assms(1-3) i key filter_at_GenerateFilter(2) [OF assms(1,2)]
    by (auto simp: covered_def new_filter_def intro!: exI [of _ "pending_keys b"])
qed

lemma GenerateFilter_grows:
  "fb_policy b = pol \<Longrightarrow> length (fb_result b) \<le> length (fb_result (GenerateFilter b))"
  by (simp add: result_GenerateFilter)

lemma StartBlock_loop_policy [simp]: "fb_policy (StartBlock_loop i b) = fb_policy b"
  by (induction i b rule: StartBlock_loop.induct) (subst StartBlock_loop.simps, simp)

lemma StartBlock_loop_grows:
  "fb_policy b = pol \<Longrightarrow> length (fb_result b) \<le> length (fb_result (StartBlock_loop i b))"
proof (induction i b rule: StartBlock_loop.induct)
  case (1 i b)
  then show ?case
    using GenerateFilter_grows [of b] by (subst StartBlock_loop.simps) (auto intro: le_trans)
qed

lemma StartBlock_loop_keeps:
  assumes "building pol b" "length (fb_result (StartBlock_loop i b)) < 2 ^ 32"
    and "length (fb_start b) \<le> max_keys" "filters b \<le> i"
  shows "building pol (StartBlock_loop i b) \<and> filters (StartBlock_loop i b) = i \<and>
    length (fb_start (StartBlock_loop i b)) \<le> length (fb_start b) \<and>
    (\<forall>j key. covered pol max_keys b j key \<longrightarrow> covered pol max_keys (StartBlock_loop i b) j key)"
  using assms
proof (induction i b rule: StartBlock_loop.induct)
  case (1 i b)
  show ?case
  proof (cases "filters b < i")
    case True
    have pol: "fb_policy b = pol" using "1.prems"(1) by (simp add: building_def)
    have e: "StartBlock_loop i b = StartBlock_loop i (GenerateFilter b)"
      using True by (subst StartBlock_loop.simps) (simp add: filters_def)
    have "length (fb_result b) \<le> length (fb_result (StartBlock_loop i b))"
      by (rule StartBlock_loop_grows [OF pol])
    then have small: "length (fb_result b) < 2 ^ 32" using "1.prems"(2) by linarith
    show ?thesis
      using "1.IH" True "1.prems" building_GenerateFilter [OF "1.prems"(1) small]
        covered_GenerateFilter [OF "1.prems"(1) small "1.prems"(3)]
      unfolding e by (auto simp: filters_def [of b])
  next
    case False
    then have "StartBlock_loop i b = b"
      by (subst StartBlock_loop.simps) (simp add: filters_def)
    then show ?thesis using "1.prems" False by simp
  qed
qed

lemma build_blocks_policy [simp]: "fb_policy (build_blocks blocks b) = fb_policy b"
proof -
  have "fb_policy (fold AddKey ks b) = fb_policy b" for ks b
    by (induction ks arbitrary: b) (simp_all add: AddKey_def)
  then show ?thesis by (induction blocks b rule: build_blocks.induct) (simp_all add: StartBlock_def)
qed

lemma build_blocks_grows:
  "fb_policy b = pol \<Longrightarrow> length (fb_result b) \<le> length (fb_result (build_blocks blocks b))"
proof (induction blocks b rule: build_blocks.induct)
  case (2 off keys blocks b)
  have "fb_policy (fold AddKey ks b) = fb_policy b" for ks b
    by (induction ks arbitrary: b) (simp_all add: AddKey_def)
  then show ?case
    using 2 StartBlock_loop_grows [of b "unat off div kFilterBase"]
    by (auto simp: StartBlock_def fold_AddKey intro: le_trans)
qed simp

lemma build_blocks_covers:
  assumes "building pol b" "length (fb_result (build_blocks blocks b)) < 2 ^ 32"
    and "length (fb_start b) + sum_list (map (length o snd) blocks) \<le> max_keys"
    and "sorted (map (unat o fst) blocks)"
    and "\<forall>(off, ks) \<in> set blocks. filters b \<le> unat off div kFilterBase"
  shows "building pol (build_blocks blocks b) \<and>
    length (fb_start (build_blocks blocks b)) \<le> max_keys \<and>
    (\<forall>j key. covered pol max_keys b j key \<longrightarrow> covered pol max_keys (build_blocks blocks b) j key) \<and>
    (\<forall>(off, ks) \<in> set blocks. \<forall>key \<in> set ks.
       covered pol max_keys (build_blocks blocks b) (unat off div kFilterBase) key)"
  using assms
proof (induction blocks b rule: build_blocks.induct)
  case (1 b)
  then show ?case by simp
next
  case (2 off keys blocks b)
  let ?i = "unat off div kFilterBase"
  let ?b1 = "StartBlock off b"
  let ?b2 = "fold AddKey keys ?b1"
  have pol: "fb_policy b = pol" using "2.prems"(1) by (simp add: building_def)
  have "fb_policy (fold AddKey ks b) = fb_policy b" for ks b
    by (induction ks arbitrary: b) (simp_all add: AddKey_def)
  then have "length (fb_result ?b2) \<le> length (fb_result (build_blocks blocks ?b2))"
    using pol by (intro build_blocks_grows) (simp add: StartBlock_def)
  then have "length (fb_result ?b1) < 2 ^ 32" using "2.prems"(2) by (simp add: fold_AddKey)
  from StartBlock_loop_keeps [of b ?i, folded StartBlock_def, OF "2.prems"(1) this] "2.prems"(3,5)
  have b1: "building pol ?b1" "filters ?b1 = ?i" "length (fb_start ?b1) \<le> length (fb_start b)"
    "\<And>j key. covered pol max_keys b j key \<Longrightarrow> covered pol max_keys ?b1 j key"
    by auto
  have own: "covered pol max_keys ?b2 ?i key" if "key \<in> set keys" for key
  proof -
    obtain xs ys where k: "keys = xs @ key # ys" using \<open>key \<in> set keys\<close> by (meson split_list)
    let ?c = "fold AddKey xs ?b1"
    have c: "building pol ?c" "filters ?c = ?i" using b1 by (simp_all add: fold_AddKey)
    then have "starts_ok ?c" by (simp add: building_def)
    from covered_AddKey(2) [OF this, of pol max_keys key] c
    have "covered pol max_keys (AddKey key ?c) ?i key" by simp
    then show ?thesis using fold_AddKey(5) [of pol "AddKey key ?c"] c by (simp add: k)
  qed
  have mono: "unat off div kFilterBase \<le> unat off' div kFilterBase" if "(off', ks') \<in> set blocks" for off' ks'
    using "2.prems"(4) that by (auto intro!: div_le_mono)
  have IH: "building pol (build_blocks blocks ?b2) \<and>
    length (fb_start (build_blocks blocks ?b2)) \<le> max_keys \<and>
    (\<forall>j key. covered pol max_keys ?b2 j key \<longrightarrow> covered pol max_keys (build_blocks blocks ?b2) j key) \<and>
    (\<forall>(off, ks) \<in> set blocks. \<forall>key \<in> set ks.
       covered pol max_keys (build_blocks blocks ?b2) (unat off div kFilterBase) key)"
    by (rule "2.IH") (use b1 "2.prems" mono in \<open>auto simp: fold_AddKey\<close>)
  then show ?case using own b1 fold_AddKey(5) [of pol ?b1] by auto
qed

lemma finished_block_matches:
  assumes "building pol b" "length (filter_Finish b) < 2 ^ 32" "length (fb_start b) \<le> max_keys"
    and "covered pol max_keys b (unat off div kFilterBase) key"
  shows "filter_KeyMayMatch (mk_FilterBlockReader pol (filter_Finish b)) off key"
proof -
  let ?i = "unat off div kFilterBase"
  let ?b = "last_filter b"
  let ?res = "fb_result ?b"
  let ?xs = "fb_filter_offsets ?b @ [of_nat (length ?res)] :: u32 list"
  let ?c = "filter_Finish b"
  have pol: "fb_policy b = pol" using assms(1) by (simp add: building_def)
  have c: "?c = ?res @ concat (map EncodeFixed32 ?xs) @ [11]" by (rule filter_Finish_eq)
  have lenc: "length ?c = length ?res + 4 * filters ?b + 5"
    unfolding c by (simp add: filters_def)
  have res: "length ?res < 2 ^ 32" using assms(2) lenc by linarith
  have "length (fb_result b) \<le> length ?res"
    using GenerateFilter_grows [OF pol] by (simp add: last_filter_def)
  then have small: "length (fb_result b) < 2 ^ 32" using res by linarith
  have b: "building pol ?b"
    using assms(1) building_GenerateFilter [OF assms(1) small] by (simp add: last_filter_def)
  have cov: "covered pol max_keys ?b ?i key"
    using covered_GenerateFilter [OF assms(1) small assms(3,4)] assms(4) by (simp add: last_filter_def)
  have "fb_start ?b = []" by (simp add: last_filter_def)
  then have "pending_keys ?b = []" by (simp add: pending_keys_def)
  with cov have i: "?i < filters ?b" by (auto simp: covered_def split: if_splits)
  with cov obtain ks where ks: "key \<in> set ks" "length ks \<le> max_keys" "filter_at ?b ?i = CreateFilter pol ks []"
    by (auto simp: covered_def)
  have xs: "unat (?xs ! j) = bounds ?b ! j" if "j \<le> filters ?b" for j
    using that res by (auto simp: bounds_def filters_def nth_append unat_of_nat_small)
  have word: "unat (DecodeFixed32 (drop (length ?res + 4 * j) ?c)) = bounds ?b ! j" if "j \<le> filters ?b" for j
  proof -
    have "drop (length ?res + 4 * j) ?c = drop (4 * j) (concat (map EncodeFixed32 ?xs)) @ [11]"
      using that by (simp add: c filters_def)
    moreover have "j < length ?xs" using that by (simp add: filters_def)
    ultimately show ?thesis using DecodeFixed32_nth [of j ?xs "[11]"] xs [OF that] by simp
  qed
  define r where "r = mk_FilterBlockReader pol ?c"
  have "bounds ?b ! filters ?b = length ?res" by (simp add: bounds_def filters_def nth_append)
  then have lw: "unat (DecodeFixed32 (drop (length ?c - 5) ?c)) = length ?res"
    using word [of "filters ?b"] by (simp add: lenc)
  have last: "?c ! (length ?c - 1) = 11" unfolding lenc by (simp add: c nth_append filters_def)
  have r: "fr_policy r = pol" "fr_data r = ?c" "fr_offset r = length ?res" "fr_num r = filters ?b"
    "fr_base_lg r = 11"
    using lw last by (simp_all add: r_def mk_FilterBlockReader_def Let_def lenc)
  have index: "unat (drop_bit 11 off) = ?i"
    by (subst unat_drop_bit_eq) (simp add: drop_bit_eq_div kFilterBase_def kFilterBaseLg_def)
  have le: "bounds ?b ! ?i \<le> bounds ?b ! Suc ?i" "bounds ?b ! Suc ?i \<le> length ?res"
    using b i bounds_le [OF b, of "Suc ?i"] by (auto simp: building_def intro: sorted_nth_mono)
  have at: "take (bounds ?b ! Suc ?i - bounds ?b ! ?i) (drop (bounds ?b ! ?i) ?c) = filter_at ?b ?i"
    using le by (simp add: c filter_at_def)
  have "KeyMayMatch pol key (filter_at ?b ?i)" unfolding ks(3) by (rule no_false_negative [OF ks(2,1)])
  moreover have "unat (DecodeFixed32 (drop (length ?res + ?i * 4) ?c)) = bounds ?b ! ?i"
    using word [of ?i] i by (simp only: mult.commute [of _ 4] less_imp_le)
  moreover have "unat (DecodeFixed32 (drop (length ?res + ?i * 4 + 4) ?c)) = bounds ?b ! Suc ?i"
    using word [of "Suc ?i"] i by (simp only: mult.commute [of _ 4] mult_Suc_right Suc_leI add.assoc add.commute [of 4])
  ultimately show ?thesis
    using i le unfolding filter_KeyMayMatch_def Let_def r_def [symmetric] r index
    by (simp only: at if_True simp_thms)
qed

lemma filter_block_no_false_negative:
  assumes "sorted (map (unat o fst) blocks)" "(off, ks) \<in> set blocks" "key \<in> set ks"
    and "sum_list (map (length o snd) blocks) \<le> max_keys"
    and "length (filter_Finish (build_blocks blocks (mk_FilterBlockBuilder pol))) < 2 ^ 32"
  shows "filter_KeyMayMatch
    (mk_FilterBlockReader pol (filter_Finish (build_blocks blocks (mk_FilterBlockBuilder pol)))) off key"
proof -
  let ?b = "build_blocks blocks (mk_FilterBlockBuilder pol)"
  have "fb_policy ?b = pol" by (simp add: mk_FilterBlockBuilder_def)
  then have "length (fb_result ?b) \<le> length (fb_result (last_filter ?b))"
    using GenerateFilter_grows by (simp add: last_filter_def)
  then have "length (fb_result ?b) < 2 ^ 32" using assms(5) unfolding filter_Finish_eq by simp
  from build_blocks_covers [OF building_new this] assms
  have "building pol ?b" "length (fb_start ?b) \<le> max_keys"
    "covered pol max_keys ?b (unat off div kFilterBase) key"
    by (auto simp: mk_FilterBlockBuilder_def filters_def)
  then show ?thesis using finished_block_matches assms(5) by blast
qed

end

subsection \<open>Properties\<close>

text \<open>C35: A Bloom filter has no false negatives: every key it was made of matches it, whatever the
  bits per key, and appending it to a string leaves the string's bytes as they were.\<close>

theorem bloom_filter_matches:
  assumes "length keys * max 1 bpk \<le> 2 ^ 64 - 8" "key \<in> set keys"
  shows "\<exists>f. bloom_CreateFilter (mk_BloomFilterPolicy bpk) keys dst = dst @ f \<and> bloom_KeyMayMatch key f"
proof -
  have "length keys \<le> max_bloom_keys bpk"
    using assms(1) by (simp add: max_bloom_keys_def less_eq_div_iff_mult_less_eq)
  then show ?thesis using bloom_appends bloom_no_false_negative assms(2) by blast
qed

lemma bloom_filter_matches_witness:
  "\<exists>f. bloom_CreateFilter (mk_BloomFilterPolicy 10) [[1, 2], [], [3]] [9] = [9] @ f \<and> bloom_KeyMayMatch [] f"
  by (rule bloom_filter_matches) simp_all

text \<open>C36: A filter block built with the Bloom policy over the blocks of a table, in the order of
  their offsets, answers yes for every key at the offset of its block: of each key added after
  \<^verbatim>\<open>StartBlock(off)\<close>, \<^verbatim>\<open>KeyMayMatch(off, key)\<close> is true, however many filters the offsets
  skip and however many blocks share one.\<close>

theorem filter_block_matches:
  assumes "sorted (map (unat o fst) blocks)" "(off, ks) \<in> set blocks" "key \<in> set ks"
    and "sum_list (map (length o snd) blocks) * max 1 bpk \<le> 2 ^ 64 - 8"
    and "contents = filter_Finish (build_blocks blocks (mk_FilterBlockBuilder (NewBloomFilterPolicy bpk)))"
    and "length contents < 2 ^ 32"
  shows "filter_KeyMayMatch (mk_FilterBlockReader (NewBloomFilterPolicy bpk) contents) off key"
  unfolding assms(5)
  by (rule bloom.filter_block_no_false_negative [OF assms(1-3)])
    (use assms(4-6) in \<open>simp_all add: max_bloom_keys_def less_eq_div_iff_mult_less_eq\<close>)

lemma length_fold_probes [simp]:
  "length (fold (\<lambda>key. set_probes k bits (f key) (g key)) keys array) = length array"
  by (induction keys arbitrary: array) simp_all

lemma length_CreateFilter:
  "length (bloom_CreateFilter p keys dst) =
     length dst + unat ((max 64 (of_nat (length keys) * bits_per_key p) + 7) div 8) + 1"
  by (auto simp: bloom_CreateFilter_def Let_def max_def)

lemma filter_block_matches_witness:
  "filter_KeyMayMatch (mk_FilterBlockReader (NewBloomFilterPolicy 10)
     (filter_Finish (build_blocks [(0, [[1]]), (5000, [[2], [3]])]
       (mk_FilterBlockBuilder (NewBloomFilterPolicy 10))))) 5000 [3]"
proof (rule filter_block_matches [OF _ _ _ _ refl, where ks = "[[2], [3]]"])
  show "length (filter_Finish (build_blocks [(0, [[1]]), (5000, [[2], [3]])]
      (mk_FilterBlockBuilder (NewBloomFilterPolicy 10)))) < 2 ^ 32"
    unfolding filter_Finish_eq
    by (simp add: StartBlock_def kFilterBase_def kFilterBaseLg_def StartBlock_loop.simps
        mk_FilterBlockBuilder_def AddKey_def last_filter_def GenerateFilter_def NewBloomFilterPolicy_def
        length_CreateFilter mk_BloomFilterPolicy_def Let_def)
qed simp_all

end
