(* ===== verification/Ldb_Dbformat.thy ===== *)
theory Ldb_Dbformat
  imports Ldb_Status Ldb_Filter
begin

unbundle bit_operations_syntax

text \<open>
  LevelDB's comparators and internal keys: \<^verbatim>\<open>include/leveldb/comparator.h\<close>,
  \<^verbatim>\<open>util/comparator.cc\<close>, \<^verbatim>\<open>util/logging.cc\<close>, \<^verbatim>\<open>db/dbformat.h\<close> and
  \<^verbatim>\<open>db/dbformat.cc\<close> under \<^verbatim>\<open>src/ios/Pods/leveldb-library/\<close>. A comparator is the record of
  its operations; the ones that shorten a string in place return it. A value type is the byte
  it is stored as.
\<close>

subsection \<open>Comparators\<close>

record Comparator =
  cmp_Name :: slice
  Compare :: "slice \<Rightarrow> slice \<Rightarrow> int"
  FindShortestSeparator :: "slice \<Rightarrow> slice \<Rightarrow> slice"
  FindShortSuccessor :: "slice \<Rightarrow> slice"

text \<open>The length of the common prefix, counted by the loop from \<open>diff_index\<close>.\<close>

function common_prefix :: "slice \<Rightarrow> slice \<Rightarrow> nat \<Rightarrow> nat \<Rightarrow> nat" where
  "common_prefix start limit min_length diff_index =
     (if diff_index < min_length \<and> start ! diff_index = limit ! diff_index
      then common_prefix start limit min_length (diff_index + 1) else diff_index)"
  by auto
termination by (relation "measure (\<lambda>(s, l, m, d). m - d)") auto

declare common_prefix.simps [simp del]

definition bytewise_Separator :: "slice \<Rightarrow> slice \<Rightarrow> slice" where
  "bytewise_Separator start limit =
     (let min_length = min (length start) (length limit);
          diff_index = common_prefix start limit min_length 0
      in if diff_index \<ge> min_length then start
         else
           (let diff_byte = start ! diff_index in
            if diff_byte < 0xff \<and> unat diff_byte + 1 < unat (limit ! diff_index)
            then take (diff_index + 1) (start[diff_index := start ! diff_index + 1])
            else start))"

text \<open>The loop of \<^verbatim>\<open>FindShortSuccessor\<close> from the index \<open>i\<close>.\<close>

function successor_loop :: "slice \<Rightarrow> nat \<Rightarrow> slice" where
  "successor_loop key i =
     (if i < length key then
        (let byte = key ! i in
         if byte \<noteq> 0xff then take (i + 1) (key[i := byte + 1]) else successor_loop key (i + 1))
      else key)"
  by auto
termination by (relation "measure (\<lambda>(k, i). length k - i)") auto

declare successor_loop.simps [simp del]

definition BytewiseComparator :: Comparator where
  "BytewiseComparator =
     \<lparr>cmp_Name = c_string ''leveldb.BytewiseComparator'', Compare = slice_compare,
      FindShortestSeparator = bytewise_Separator,
      FindShortSuccessor = (\<lambda>key. successor_loop key 0)\<rparr>"

subsection \<open>Printing and reading numbers\<close>

definition AppendNumberTo :: "byte list \<Rightarrow> u64 \<Rightarrow> byte list" where
  "AppendNumberTo str num = str @ decimal_digits (unat num)"

definition NumberToString :: "u64 \<Rightarrow> byte list" where
  "NumberToString num = AppendNumberTo [] num"

definition hex_digit :: "byte \<Rightarrow> byte" where
  "hex_digit d = (if d < 10 then 0x30 + d else 0x61 + (d - 10))"

definition escape_byte :: "byte \<Rightarrow> byte list" where
  "escape_byte c =
     (if 0x20 \<le> c \<and> c \<le> 0x7e then [c]
      else [0x5c, 0x78, hex_digit (drop_bit 4 c), hex_digit (c AND 0x0f)])"

definition AppendEscapedStringTo :: "byte list \<Rightarrow> slice \<Rightarrow> byte list" where
  "AppendEscapedStringTo str value = str @ concat (map escape_byte value)"

definition EscapeString :: "slice \<Rightarrow> byte list" where
  "EscapeString value = AppendEscapedStringTo [] value"

text \<open>
  The loop of \<^verbatim>\<open>ConsumeDecimalNumber\<close>: the value read, or \<^const>\<open>None\<close> when it overflows or
  there is no digit, and the input afterwards.
\<close>

fun consume_digits :: "slice \<Rightarrow> u64 \<Rightarrow> nat \<Rightarrow> u64 option \<times> slice" where
  "consume_digits [] v digits = (if digits > 0 then Some v else None, [])"
| "consume_digits (c # inp) v digits =
     (if 0x30 \<le> c \<and> c \<le> 0x39 then
        (let delta = ucast (c - 0x30) :: u64; kMaxUint64 = NOT 0 :: u64 in
         if v > kMaxUint64 div 10 \<or> v = kMaxUint64 div 10 \<and> delta > kMaxUint64 mod 10
         then (None, c # inp)
         else consume_digits inp (v * 10 + delta) (digits + 1))
      else (if digits > 0 then Some v else None, c # inp))"

definition ConsumeDecimalNumber :: "slice \<Rightarrow> u64 option \<times> slice" where
  "ConsumeDecimalNumber inp = consume_digits inp 0 0"

subsection \<open>Internal keys\<close>

type_synonym ValueType = byte
type_synonym SequenceNumber = u64

definition kTypeDeletion :: ValueType where
  "kTypeDeletion = 0"

definition kTypeValue :: ValueType where
  "kTypeValue = 1"

definition kValueTypeForSeek :: ValueType where
  "kValueTypeForSeek = kTypeValue"

definition kMaxSequenceNumber :: SequenceNumber where
  "kMaxSequenceNumber = push_bit 56 1 - 1"

record ParsedInternalKey =
  pk_user_key :: slice
  pk_sequence :: SequenceNumber
  pk_type :: ValueType

definition PackSequenceAndType :: "u64 \<Rightarrow> ValueType \<Rightarrow> u64" where
  "PackSequenceAndType seq t = push_bit 8 seq OR ucast t"

definition InternalKeyEncodingLength :: "ParsedInternalKey \<Rightarrow> nat" where
  "InternalKeyEncodingLength key = length (pk_user_key key) + 8"

definition AppendInternalKey :: "byte list \<Rightarrow> ParsedInternalKey \<Rightarrow> byte list" where
  "AppendInternalKey result key =
     PutFixed64 (result @ pk_user_key key) (PackSequenceAndType (pk_sequence key) (pk_type key))"

definition ExtractUserKey :: "slice \<Rightarrow> slice" where
  "ExtractUserKey internal_key = take (length internal_key - 8) internal_key"

definition ExtractValueType :: "slice \<Rightarrow> ValueType" where
  "ExtractValueType internal_key =
     (let n = length internal_key; num = DecodeFixed64 (drop (n - 8) internal_key)
      in ucast (num AND 0xff))"

definition ParseInternalKey :: "slice \<Rightarrow> ParsedInternalKey option" where
  "ParseInternalKey internal_key =
     (let n = length internal_key in
      if n < 8 then None
      else
        (let num = DecodeFixed64 (drop (n - 8) internal_key);
             c = ucast (num AND 0xff) :: byte
         in if c \<le> kTypeValue
            then Some \<lparr>pk_user_key = take (n - 8) internal_key, pk_sequence = drop_bit 8 num,
                        pk_type = c\<rparr>
            else None))"

definition Parsed_DebugString :: "ParsedInternalKey \<Rightarrow> byte list" where
  "Parsed_DebugString key =
     c_string [CHR 0x27] @ EscapeString (pk_user_key key) @ c_string [CHR 0x27] @ c_string '' @ '' @
     decimal_digits (unat (pk_sequence key)) @ c_string '' : '' @ decimal_digits (unat (pk_type key))"

definition InternalKey_DebugString :: "slice \<Rightarrow> byte list" where
  "InternalKey_DebugString rep =
     (case ParseInternalKey rep of
        Some parsed \<Rightarrow> Parsed_DebugString parsed
      | None \<Rightarrow> c_string ''(bad)'' @ EscapeString rep)"

text \<open>The class \<^verbatim>\<open>InternalKey\<close> wraps its \<^verbatim>\<open>rep_\<close>.\<close>

definition mk_InternalKey :: "slice \<Rightarrow> SequenceNumber \<Rightarrow> ValueType \<Rightarrow> slice" where
  "mk_InternalKey user_key s t =
     AppendInternalKey [] \<lparr>pk_user_key = user_key, pk_sequence = s, pk_type = t\<rparr>"

text \<open>\<^verbatim>\<open>Encode\<close> asserts that the key has been set; \<^const>\<open>None\<close> is the assertion that fails.\<close>

definition InternalKey_Encode :: "slice \<Rightarrow> slice option" where
  "InternalKey_Encode rep = (if rep = [] then None else Some rep)"

subsection \<open>The internal key comparator\<close>

definition internal_Compare :: "Comparator \<Rightarrow> slice \<Rightarrow> slice \<Rightarrow> int" where
  "internal_Compare user_comparator akey bkey =
     (let r = Compare user_comparator (ExtractUserKey akey) (ExtractUserKey bkey) in
      if r = 0 then
        (let anum = DecodeFixed64 (drop (length akey - 8) akey);
             bnum = DecodeFixed64 (drop (length bkey - 8) bkey)
         in if anum > bnum then - 1 else if anum < bnum then 1 else r)
      else r)"

definition internal_Separator :: "Comparator \<Rightarrow> slice \<Rightarrow> slice \<Rightarrow> slice" where
  "internal_Separator user_comparator start limit =
     (let user_start = ExtractUserKey start; user_limit = ExtractUserKey limit;
          tmp = FindShortestSeparator user_comparator user_start user_limit
      in if length tmp < length user_start \<and> Compare user_comparator user_start tmp < 0
         then PutFixed64 tmp (PackSequenceAndType kMaxSequenceNumber kValueTypeForSeek)
         else start)"

definition internal_Successor :: "Comparator \<Rightarrow> slice \<Rightarrow> slice" where
  "internal_Successor user_comparator key =
     (let user_key = ExtractUserKey key; tmp = FindShortSuccessor user_comparator user_key
      in if length tmp < length user_key \<and> Compare user_comparator user_key tmp < 0
         then PutFixed64 tmp (PackSequenceAndType kMaxSequenceNumber kValueTypeForSeek)
         else key)"

definition InternalKeyComparator :: "Comparator \<Rightarrow> Comparator" where
  "InternalKeyComparator c =
     \<lparr>cmp_Name = c_string ''leveldb.InternalKeyComparator'', Compare = internal_Compare c,
      FindShortestSeparator = internal_Separator c, FindShortSuccessor = internal_Successor c\<rparr>"

subsection \<open>The internal filter policy\<close>

definition InternalFilterPolicy :: "FilterPolicy \<Rightarrow> FilterPolicy" where
  "InternalFilterPolicy user_policy =
     \<lparr>policy_Name = policy_Name user_policy,
      CreateFilter = (\<lambda>keys dst. CreateFilter user_policy (map ExtractUserKey keys) dst),
      KeyMayMatch = (\<lambda>key f. KeyMayMatch user_policy (ExtractUserKey key) f)\<rparr>"

subsection \<open>Lookup keys\<close>

text \<open>The array from \<^verbatim>\<open>start_\<close> to \<^verbatim>\<open>end_\<close> and the distance of \<^verbatim>\<open>kstart_\<close> from its start.\<close>

record LookupKey =
  lk_bytes :: "byte list"
  lk_kstart :: nat

definition mk_LookupKey :: "slice \<Rightarrow> SequenceNumber \<Rightarrow> LookupKey" where
  "mk_LookupKey user_key s =
     (let usize = length user_key; len = EncodeVarint32 (of_nat (usize + 8))
      in \<lparr>lk_bytes = len @ user_key @ EncodeFixed64 (PackSequenceAndType s kValueTypeForSeek),
          lk_kstart = length len\<rparr>)"

definition memtable_key :: "LookupKey \<Rightarrow> slice" where
  "memtable_key k = lk_bytes k"

definition internal_key :: "LookupKey \<Rightarrow> slice" where
  "internal_key k = drop (lk_kstart k) (lk_bytes k)"

definition lookup_user_key :: "LookupKey \<Rightarrow> slice" where
  "lookup_user_key k = take (length (lk_bytes k) - lk_kstart k - 8) (drop (lk_kstart k) (lk_bytes k))"

end
