(* ===== verification/Ldb_Filename.thy ===== *)
theory Ldb_Filename
  imports Ldb_Dbformat
begin

unbundle bit_operations_syntax

text \<open>
  LevelDB's file names and the helpers that write and read whole files:
  \<^verbatim>\<open>db/filename.h\<close>, \<^verbatim>\<open>db/filename.cc\<close> and \<^verbatim>\<open>util/env.cc\<close> under
  \<^verbatim>\<open>src/ios/Pods/leveldb-library/\<close>. An \<^verbatim>\<open>Env\<close> is a parameter: the record of the operations
  the code calls, over a state \<open>'e\<close> of the machine and handles \<open>'h\<close> of open files.
\<close>

subsection \<open>The environment\<close>

record ('h, 'e) Env =
  NewWritableFile :: "slice \<Rightarrow> 'e \<Rightarrow> Status \<times> 'h \<times> 'e"
  NewSequentialFile :: "slice \<Rightarrow> 'e \<Rightarrow> Status \<times> 'h \<times> 'e"
  file_Append :: "'h \<Rightarrow> slice \<Rightarrow> 'e \<Rightarrow> Status \<times> 'e"
  file_Sync :: "'h \<Rightarrow> 'e \<Rightarrow> Status \<times> 'e"
  file_Close :: "'h \<Rightarrow> 'e \<Rightarrow> Status \<times> 'e"
  file_Read :: "'h \<Rightarrow> nat \<Rightarrow> 'e \<Rightarrow> Status \<times> slice \<times> 'e"
  file_delete :: "'h \<Rightarrow> 'e \<Rightarrow> 'e"
  DeleteFile :: "slice \<Rightarrow> 'e \<Rightarrow> Status \<times> 'e"
  RenameFile :: "slice \<Rightarrow> slice \<Rightarrow> 'e \<Rightarrow> Status \<times> 'e"

definition DoWriteStringToFile ::
  "('h, 'e) Env \<Rightarrow> slice \<Rightarrow> slice \<Rightarrow> bool \<Rightarrow> 'e \<Rightarrow> Status \<times> 'e" where
  "DoWriteStringToFile env data fname should_sync e =
     (let (s, file, e) = NewWritableFile env fname e in
      if \<not> ok s then (s, e)
      else
        (let (s, e) = file_Append env file data e;
             (s, e) = (if ok s \<and> should_sync then file_Sync env file e else (s, e));
             (s, e) = (if ok s then file_Close env file e else (s, e));
             e = file_delete env file e
         in if \<not> ok s then (s, snd (DeleteFile env fname e)) else (s, e)))"

definition WriteStringToFile :: "('h, 'e) Env \<Rightarrow> slice \<Rightarrow> slice \<Rightarrow> 'e \<Rightarrow> Status \<times> 'e" where
  "WriteStringToFile env data fname e = DoWriteStringToFile env data fname False e"

definition WriteStringToFileSync :: "('h, 'e) Env \<Rightarrow> slice \<Rightarrow> slice \<Rightarrow> 'e \<Rightarrow> Status \<times> 'e" where
  "WriteStringToFileSync env data fname e = DoWriteStringToFile env data fname True e"

text \<open>The reading loop; on a file that never ends it does not return.\<close>

partial_function (option) read_to_end ::
  "('h, 'e) Env \<Rightarrow> 'h \<Rightarrow> byte list \<Rightarrow> 'e \<Rightarrow> (Status \<times> byte list \<times> 'e) option" where
  "read_to_end env file data e =
     (case file_Read env file 8192 e of (s, fragment, e) \<Rightarrow>
        if \<not> ok s then Some (s, data, e)
        else if fragment = [] then Some (s, data @ fragment, e)
        else read_to_end env file (data @ fragment) e)"

definition ReadFileToString ::
  "('h, 'e) Env \<Rightarrow> slice \<Rightarrow> 'e \<Rightarrow> (Status \<times> byte list \<times> 'e) option" where
  "ReadFileToString env fname e =
     (let (s, file, e) = NewSequentialFile env fname e in
      if \<not> ok s then Some (s, [], e)
      else map_option (\<lambda>(s, data, e). (s, data, file_delete env file e)) (read_to_end env file [] e))"

subsection \<open>File names\<close>

datatype FileType =
  kLogFile | kDBLockFile | kTableFile | kDescriptorFile | kCurrentFile | kTempFile | kInfoLogFile

text \<open>The conversion \<^verbatim>\<open>%06llu\<close>.\<close>

definition print_06 :: "u64 \<Rightarrow> byte list" where
  "print_06 number = (let d = decimal_digits (unat number) in replicate (6 - length d) 0x30 @ d)"

definition MakeFileName :: "slice \<Rightarrow> u64 \<Rightarrow> slice \<Rightarrow> slice" where
  "MakeFileName name number suffix = name @ c_string ''/'' @ print_06 number @ c_string ''.'' @ suffix"

definition LogFileName :: "slice \<Rightarrow> u64 \<Rightarrow> slice" where
  "LogFileName name number = MakeFileName name number (c_string ''log'')"

definition TableFileName :: "slice \<Rightarrow> u64 \<Rightarrow> slice" where
  "TableFileName name number = MakeFileName name number (c_string ''ldb'')"

definition SSTTableFileName :: "slice \<Rightarrow> u64 \<Rightarrow> slice" where
  "SSTTableFileName name number = MakeFileName name number (c_string ''sst'')"

definition DescriptorFileName :: "slice \<Rightarrow> u64 \<Rightarrow> slice" where
  "DescriptorFileName dbname number = dbname @ c_string ''/MANIFEST-'' @ print_06 number"

definition CurrentFileName :: "slice \<Rightarrow> slice" where
  "CurrentFileName dbname = dbname @ c_string ''/CURRENT''"

definition LockFileName :: "slice \<Rightarrow> slice" where
  "LockFileName dbname = dbname @ c_string ''/LOCK''"

definition TempFileName :: "slice \<Rightarrow> u64 \<Rightarrow> slice" where
  "TempFileName dbname number = MakeFileName dbname number (c_string ''dbtmp'')"

definition InfoLogFileName :: "slice \<Rightarrow> slice" where
  "InfoLogFileName dbname = dbname @ c_string ''/LOG''"

definition OldInfoLogFileName :: "slice \<Rightarrow> slice" where
  "OldInfoLogFileName dbname = dbname @ c_string ''/LOG.old''"

definition ParseFileName :: "slice \<Rightarrow> (u64 \<times> FileType) option" where
  "ParseFileName fname =
     (let rest = fname in
      if slice_eq rest (c_string ''CURRENT'') then Some (0, kCurrentFile)
      else if slice_eq rest (c_string ''LOCK'') then Some (0, kDBLockFile)
      else if slice_eq rest (c_string ''LOG'') \<or> slice_eq rest (c_string ''LOG.old'')
      then Some (0, kInfoLogFile)
      else if starts_with rest (c_string ''MANIFEST-'') then
        (case ConsumeDecimalNumber (remove_prefix rest (length (c_string ''MANIFEST-''))) of
           (None, rest) \<Rightarrow> None
         | (Some num, rest) \<Rightarrow> if rest \<noteq> [] then None else Some (num, kDescriptorFile))
      else
        (case ConsumeDecimalNumber rest of
           (None, rest) \<Rightarrow> None
         | (Some num, suffix) \<Rightarrow>
             if slice_eq suffix (c_string ''.log'') then Some (num, kLogFile)
             else if slice_eq suffix (c_string ''.sst'') \<or> slice_eq suffix (c_string ''.ldb'')
             then Some (num, kTableFile)
             else if slice_eq suffix (c_string ''.dbtmp'') then Some (num, kTempFile)
             else None))"

subsection \<open>The current file\<close>

definition SetCurrentFile :: "('h, 'e) Env \<Rightarrow> slice \<Rightarrow> u64 \<Rightarrow> 'e \<Rightarrow> Status \<times> 'e" where
  "SetCurrentFile env dbname descriptor_number e =
     (let contents = remove_prefix (DescriptorFileName dbname descriptor_number) (length dbname + 1);
          tmp = TempFileName dbname descriptor_number;
          (s, e) = WriteStringToFileSync env (contents @ c_string [CHR 0x0A]) tmp e;
          (s, e) = (if ok s then RenameFile env tmp (CurrentFileName dbname) e else (s, e))
      in if \<not> ok s then (s, snd (DeleteFile env tmp e)) else (s, e))"

end
