(* ===== verification/Key_Order.thy ===== *)
theory Key_Order
  imports Prelude
begin

text \<open>
  The contract of a three-way comparison of keys, as \<^verbatim>\<open>memcmp\<close> and LevelDB's comparators give
  it: the sign of the result is a total preorder on the valid keys. Different keys may compare
  equal, as internal keys do whose user keys a comparator does not tell apart. Insertion in a
  sorted list, the abstract view of the structures that keep keys in order, follows from it.
\<close>

locale key_order =
  fixes valid :: "'k \<Rightarrow> bool" and cmp :: "'k \<Rightarrow> 'k \<Rightarrow> int"
  assumes compare_sym: "valid a \<Longrightarrow> valid b \<Longrightarrow> cmp a b < 0 \<longleftrightarrow> 0 < cmp b a"
    and compare_trans:
      "valid a \<Longrightarrow> valid b \<Longrightarrow> valid c \<Longrightarrow> cmp a b \<le> 0 \<Longrightarrow> cmp b c \<le> 0 \<Longrightarrow> cmp a c \<le> 0"
begin

lemma compare_refl: "valid a \<Longrightarrow> cmp a a = 0"
  using compare_sym [of a a] by linarith

lemma compare_not_less: "valid a \<Longrightarrow> valid b \<Longrightarrow> \<not> cmp a b < 0 \<longleftrightarrow> cmp b a \<le> 0"
  using compare_sym [of a b] by linarith

lemma compare_eq_sym: "valid a \<Longrightarrow> valid b \<Longrightarrow> cmp a b = 0 \<longleftrightarrow> cmp b a = 0"
  using compare_sym [of a b] compare_sym [of b a] by linarith

lemma compare_less_trans:
  assumes "valid a" "valid b" "valid c" "cmp a b \<le> 0" "cmp b c < 0"
  shows "cmp a c < 0"
proof (rule ccontr)
  assume "\<not> cmp a c < 0"
  then have "cmp c a \<le> 0" using assms compare_not_less by blast
  then have "cmp c b \<le> 0" using assms compare_trans by blast
  then show False using assms compare_sym [of b c] by linarith
qed

lemma compare_less_le_trans:
  assumes "valid a" "valid b" "valid c" "cmp a b < 0" "cmp b c \<le> 0"
  shows "cmp a c < 0"
proof (rule ccontr)
  assume "\<not> cmp a c < 0"
  then have "cmp c a \<le> 0" using assms compare_not_less by blast
  then have "cmp b a \<le> 0" using assms compare_trans by blast
  then show False using assms compare_sym [of a b] by linarith
qed

lemma compare_eq_trans:
  "valid a \<Longrightarrow> valid b \<Longrightarrow> valid c \<Longrightarrow> cmp a b = 0 \<Longrightarrow> cmp b c = 0 \<Longrightarrow> cmp a c = 0"
  using compare_trans [of a b c] compare_trans [of c b a] compare_eq_sym [of a b]
    compare_eq_sym [of b c] compare_not_less [of a c] by linarith

end

subsection \<open>Keys in order\<close>

definition ascending :: "('k \<Rightarrow> 'k \<Rightarrow> int) \<Rightarrow> 'k list \<Rightarrow> bool" where
  "ascending cmp ks = sorted_wrt (\<lambda>a b. cmp a b < 0) ks"

definition below :: "('k \<Rightarrow> 'k \<Rightarrow> int) \<Rightarrow> 'k \<Rightarrow> 'k list \<Rightarrow> 'k list" where
  "below cmp key ks = takeWhile (\<lambda>a. cmp a key < 0) ks"

definition not_below :: "('k \<Rightarrow> 'k \<Rightarrow> int) \<Rightarrow> 'k \<Rightarrow> 'k list \<Rightarrow> 'k list" where
  "not_below cmp key ks = dropWhile (\<lambda>a. cmp a key < 0) ks"

definition insert_key :: "('k \<Rightarrow> 'k \<Rightarrow> int) \<Rightarrow> 'k \<Rightarrow> 'k list \<Rightarrow> 'k list" where
  "insert_key cmp key ks = below cmp key ks @ key # not_below cmp key ks"

lemma below_not_below [simp]: "below cmp key ks @ not_below cmp key ks = ks"
  by (simp add: below_def not_below_def)

lemma set_insert_key [simp]: "set (insert_key cmp key ks) = insert key (set ks)"
  by (subst (2) below_not_below [symmetric, of ks cmp key]) (simp only: set_append insert_key_def, auto)

lemma below_less: "a \<in> set (below cmp key ks) \<Longrightarrow> cmp a key < 0"
  by (auto simp: below_def dest: set_takeWhileD)

lemma set_below: "a \<in> set (below cmp key ks) \<Longrightarrow> a \<in> set ks"
  by (auto simp: below_def dest: set_takeWhileD)

lemma set_not_below: "a \<in> set (not_below cmp key ks) \<Longrightarrow> a \<in> set ks"
  by (auto simp: not_below_def dest: set_dropWhileD)

context key_order
begin

lemma not_below_ge:
  assumes "ascending cmp ks" "\<forall>a \<in> set ks. valid a" "valid key" "a \<in> set (not_below cmp key ks)"
  shows "\<not> cmp a key < 0"
  using assms
proof (induction ks)
  case (Cons b ks)
  show ?case
  proof (cases "cmp b key < 0")
    case True
    with Cons show ?thesis by (simp add: ascending_def not_below_def)
  next
    case False
    with Cons.prems have "a = b \<or> a \<in> set ks" by (auto simp: not_below_def)
    then show ?thesis
    proof
      assume "a \<in> set ks"
      then have "cmp b a < 0" "valid a" "valid b" using Cons.prems by (auto simp: ascending_def)
      moreover have "cmp key b \<le> 0" using False Cons.prems(2,3) compare_not_less [of b key] by simp
      ultimately have "cmp key a < 0" using compare_less_trans Cons.prems(3) by blast
      then show ?thesis using \<open>valid a\<close> Cons.prems(3) compare_sym [of key a] by simp
    qed (use False in simp)
  qed
qed (simp add: not_below_def)

lemma ascending_insert_key:
  assumes "ascending cmp ks" "\<forall>a \<in> set ks. valid a \<and> cmp key a \<noteq> 0" "valid key"
  shows "ascending cmp (insert_key cmp key ks)"
proof -
  have "sorted_wrt (\<lambda>a b. cmp a b < 0) (below cmp key ks @ not_below cmp key ks)"
    using assms(1) by (simp add: ascending_def)
  moreover have "cmp key a < 0" if "a \<in> set (not_below cmp key ks)" for a
    using not_below_ge [OF assms(1) _ assms(3) that] assms(2,3) set_not_below [OF that]
      compare_not_less [of a key] compare_eq_sym [of a key] by fastforce
  moreover have "cmp a key < 0" if "a \<in> set (below cmp key ks)" for a
    using below_less [OF that] .
  ultimately show ?thesis unfolding ascending_def insert_key_def sorted_wrt_append by auto
qed

lemma ascending_not_equal:
  assumes "ascending cmp ks" "\<forall>a \<in> set ks. valid a" "i < length ks" "j < length ks" "i \<noteq> j"
  shows "cmp (ks ! i) (ks ! j) \<noteq> 0"
proof -
  have less: "cmp (ks ! a) (ks ! b) < 0" if "a < b" "b < length ks" for a b
    using assms(1) that by (simp add: ascending_def sorted_wrt_iff_nth_less)
  have valid: "valid (ks ! i)" "valid (ks ! j)" using assms(2-4) by simp_all
  from assms(5) consider "i < j" | "j < i" by linarith
  then show ?thesis
  proof cases
    case 1
    from less [OF this assms(4)] show ?thesis by simp
  next
    case 2
    from less [OF this assms(3)] show ?thesis using compare_eq_sym [OF valid] by simp
  qed
qed

end

end
