(* ===== verification/Ldb_Dbformat_Correct.thy ===== *)
theory Ldb_Dbformat_Correct
  imports Key_Order Ldb_Dbformat Ldb_Coding_Correct Ldb_Filter_Correct
begin

unbundle bit_operations_syntax

text \<open>
  The contract of a comparator, that the byte order keeps it, that the internal key comparator
  keeps it whenever the user's comparator does, and the same for filter policies. The order of
  internal keys, the short separators and the number parser follow.
\<close>

subsection \<open>The contract of a comparator\<close>

text \<open>
  The laws are those the header states: the comparison is a total preorder, a separator of
  an ordered pair lies from the first and below the second, and a successor is not below its key.
\<close>

locale comparator = key_order valid "Compare cmp"
  for valid :: "slice \<Rightarrow> bool" and cmp :: Comparator +
  assumes separator_between:
      "valid a \<Longrightarrow> valid b \<Longrightarrow> Compare cmp a b < 0 \<Longrightarrow> valid (FindShortestSeparator cmp a b) \<and>
         Compare cmp a (FindShortestSeparator cmp a b) \<le> 0 \<and>
         Compare cmp (FindShortestSeparator cmp a b) b < 0"
    and separator_unordered:
      "valid a \<Longrightarrow> valid b \<Longrightarrow> \<not> Compare cmp a b < 0 \<Longrightarrow> FindShortestSeparator cmp a b = a"
    and successor_above:
      "valid a \<Longrightarrow> valid (FindShortSuccessor cmp a) \<and> Compare cmp a (FindShortSuccessor cmp a) \<le> 0"

subsection \<open>The byte order\<close>

lemma append_less_append [simp]: "p @ a < p @ b \<longleftrightarrow> a < (b :: slice)"
  by (induction p) simp_all

lemma common_prefix_spec:
  assumes "diff_index \<le> min_length" "take diff_index s = take diff_index l"
    and "min_length \<le> length s" "min_length \<le> length l"
    and "d = common_prefix s l min_length diff_index"
  shows "d \<le> min_length \<and> take d s = take d l \<and> (d < min_length \<longrightarrow> s ! d \<noteq> l ! d)"
  using assms
proof (induction s l min_length diff_index rule: common_prefix.induct)
  case (1 s l min_length diff_index)
  show ?case
  proof (cases "diff_index < min_length \<and> s ! diff_index = l ! diff_index")
    case True
    then have "common_prefix s l min_length diff_index = common_prefix s l min_length (diff_index + 1)"
      by (subst common_prefix.simps) simp
    moreover have "take (diff_index + 1) s = take (diff_index + 1) l"
      using True "1.prems" by (simp add: take_Suc_conv_app_nth)
    ultimately show ?thesis using "1.IH" True "1.prems" by simp
  next
    case False
    then have "common_prefix s l min_length diff_index = diff_index"
      by (subst common_prefix.simps) auto
    with False "1.prems" show ?thesis by auto
  qed
qed

text \<open>Either the separator is its argument, or both split after a common prefix.\<close>

lemma bytewise_Separator_cases:
  "bytewise_Separator s l = s \<or>
   (\<exists>p x s' y l'. s = p @ x # s' \<and> l = p @ y # l' \<and> unat x + 1 < unat y \<and>
      bytewise_Separator s l = p @ [x + 1])"
proof -
  let ?m = "min (length s) (length l)"
  define d where "d = common_prefix s l ?m 0"
  have d: "d \<le> ?m" "take d s = take d l" "d < ?m \<Longrightarrow> s ! d \<noteq> l ! d"
    using common_prefix_spec [of 0 ?m s l d] d_def by auto
  show ?thesis
  proof (cases "d < ?m \<and> s ! d < 0xff \<and> unat (s ! d) + 1 < unat (l ! d)")
    case True
    then have "s = take d s @ s ! d # drop (Suc d) s" "l = take d l @ l ! d # drop (Suc d) l"
      by (simp_all add: id_take_nth_drop [symmetric])
    note this [unfolded d(2) [symmetric]]
    moreover have "take (d + 1) (s[d := s ! d + 1]) = take d s @ [s ! d + 1]"
      using True by (simp add: take_Suc_conv_app_nth take_update_cancel)
    then have "bytewise_Separator s l = take d s @ [s ! d + 1]"
      using True unfolding bytewise_Separator_def Let_def d_def [symmetric] by (simp add: min_le_iff_disj not_le)
    ultimately show ?thesis using True by blast
  next
    case False
    then have "bytewise_Separator s l = s"
      by (auto simp: bytewise_Separator_def Let_def d_def [symmetric])
    then show ?thesis ..
  qed
qed

lemma unat_plus_1: "unat (x :: byte) + 1 < unat (y :: byte) \<Longrightarrow> unat (x + 1) = unat x + 1"
  using byte_lt_256 [of y] by (simp add: unat_word_ariths)

lemma byte_increment: "x \<noteq> (0xff :: byte) \<Longrightarrow> x < x + 1"
proof -
  assume "x \<noteq> 0xff"
  then have "unat x \<noteq> 255" by (simp add: word_unat_eq_iff)
  then show ?thesis using byte_lt_256 [of x] by (simp add: word_less_nat_alt unat_word_ariths)
qed

lemma bytewise_Separator_between:
  assumes "s < l"
  shows "s \<le> bytewise_Separator s l \<and> bytewise_Separator s l < l"
  using bytewise_Separator_cases [of s l]
proof
  assume "bytewise_Separator s l = s" then show ?thesis using assms by simp
next
  assume "\<exists>p x s' y l'. s = p @ x # s' \<and> l = p @ y # l' \<and> unat x + 1 < unat y \<and>
      bytewise_Separator s l = p @ [x + 1]"
  then obtain p x s' y l' where e: "s = p @ x # s'" "l = p @ y # l'" "unat x + 1 < unat y"
    "bytewise_Separator s l = p @ [x + 1]" by blast
  then have "x < x + 1" "x + 1 < y" by (simp_all only: word_less_nat_alt unat_plus_1)
  with e show ?thesis by (auto simp: le_less)
qed

lemma bytewise_Separator_unordered: "\<not> s < l \<Longrightarrow> bytewise_Separator s l = s"
  using bytewise_Separator_cases [of s l] by (auto simp: word_less_nat_alt)

lemma length_bytewise_Separator: "length (bytewise_Separator s l) \<le> length s"
  using bytewise_Separator_cases [of s l] by auto

lemma successor_loop_spec:
  "key \<le> successor_loop key i \<and> length (successor_loop key i) \<le> length key"
proof (induction key i rule: successor_loop.induct)
  case (1 key i)
  show ?case
  proof (cases "i < length key \<and> key ! i \<noteq> 0xff")
    case True
    then have "key = take i key @ key ! i # drop (Suc i) key" by (simp add: id_take_nth_drop [symmetric])
    moreover have "successor_loop key i = take i key @ [key ! i + 1]"
      using True by (subst successor_loop.simps) (simp add: take_Suc_conv_app_nth take_update_cancel)
    ultimately show ?thesis
      using True byte_increment [of "key ! i"]
      by (metis append_less_append Cons_less_Cons le_less length_append length_Cons Suc_le_mono list.size(3) le0 nat_add_left_cancel_le)
  next
    case False
    with 1 show ?thesis by (subst (1 2) successor_loop.simps) auto
  qed
qed

lemma Compare_bytewise:
  "Compare BytewiseComparator a b = (if a = b then 0 else if a < b then - 1 else 1)"
  by (simp add: BytewiseComparator_def slice_compare_eq)

subsection \<open>The internal key comparator\<close>

locale internal_comparator = user: comparator valid cmp
  for valid :: "slice \<Rightarrow> bool" and cmp :: Comparator

definition tag_of :: "slice \<Rightarrow> u64" where
  "tag_of key = DecodeFixed64 (drop (length key - 8) key)"

lemma internal_Compare_eq:
  "Compare (InternalKeyComparator c) a b =
     (let r = Compare c (ExtractUserKey a) (ExtractUserKey b) in
      if r = 0 then if tag_of b < tag_of a then - 1 else if tag_of a < tag_of b then 1 else 0 else r)"
  by (simp add: InternalKeyComparator_def internal_Compare_def tag_of_def Let_def)

lemma ExtractUserKey_Put [simp]: "ExtractUserKey (PutFixed64 k t) = k"
  by (simp add: ExtractUserKey_def PutFixed64_def)

lemma tag_of_Put [simp]: "tag_of (PutFixed64 k t) = t"
  by (simp add: tag_of_def PutFixed64_def)

lemma length_ExtractUserKey [simp]: "length (ExtractUserKey k) = length k - 8"
  by (simp add: ExtractUserKey_def)

lemma length_PutFixed64 [simp]: "length (PutFixed64 k t) = length k + 8"
  by (simp add: PutFixed64_def)

text \<open>A separator or successor is either its argument or a strictly larger, shorter user key.\<close>

lemma internal_Separator_cases:
  "internal_Separator c a b = a \<or>
   (let t = FindShortestSeparator c (ExtractUserKey a) (ExtractUserKey b) in
    length t < length (ExtractUserKey a) \<and> Compare c (ExtractUserKey a) t < 0 \<and>
    internal_Separator c a b = PutFixed64 t (PackSequenceAndType kMaxSequenceNumber kValueTypeForSeek))"
  by (simp add: internal_Separator_def Let_def)

lemma internal_Successor_cases:
  "internal_Successor c a = a \<or>
   (let t = FindShortSuccessor c (ExtractUserKey a) in
    length t < length (ExtractUserKey a) \<and> Compare c (ExtractUserKey a) t < 0 \<and>
    internal_Successor c a = PutFixed64 t (PackSequenceAndType kMaxSequenceNumber kValueTypeForSeek))"
  by (simp add: internal_Successor_def Let_def)

sublocale internal_comparator \<subseteq> internal: comparator
  "\<lambda>key. 8 \<le> length key \<and> valid (ExtractUserKey key)" "InternalKeyComparator cmp"
proof
  fix a b c
  assume a: "8 \<le> length a \<and> valid (ExtractUserKey a)" and b: "8 \<le> length b \<and> valid (ExtractUserKey b)"
  show "Compare (InternalKeyComparator cmp) a b < 0 \<longleftrightarrow> 0 < Compare (InternalKeyComparator cmp) b a"
    using a b user.compare_sym [of "ExtractUserKey a" "ExtractUserKey b"]
      user.compare_eq_sym [of "ExtractUserKey a" "ExtractUserKey b"]
    by (auto simp: internal_Compare_eq Let_def split: if_splits)
  assume c: "8 \<le> length c \<and> valid (ExtractUserKey c)"
    and "Compare (InternalKeyComparator cmp) a b \<le> 0" "Compare (InternalKeyComparator cmp) b c \<le> 0"
  then show "Compare (InternalKeyComparator cmp) a c \<le> 0"
    using a b user.compare_less_trans [of "ExtractUserKey a" "ExtractUserKey b" "ExtractUserKey c"]
      user.compare_less_le_trans [of "ExtractUserKey a" "ExtractUserKey b" "ExtractUserKey c"]
      user.compare_eq_trans [of "ExtractUserKey a" "ExtractUserKey b" "ExtractUserKey c"]
    by (auto simp: internal_Compare_eq Let_def split: if_splits)
next
  fix a b
  assume a: "8 \<le> length a \<and> valid (ExtractUserKey a)" and b: "8 \<le> length b \<and> valid (ExtractUserKey b)"
  let ?sep = "FindShortestSeparator (InternalKeyComparator cmp) a b"
  have sep: "?sep = internal_Separator cmp a b" by (simp add: InternalKeyComparator_def)
  note user_sep = user.separator_between [of "ExtractUserKey a" "ExtractUserKey b"]
    user.separator_unordered [of "ExtractUserKey a" "ExtractUserKey b"]
  note user_refl = user.compare_refl [of "ExtractUserKey a"]
  have refl: "Compare (InternalKeyComparator cmp) a a = 0"
    using a user_refl by (simp add: internal_Compare_eq)
  show "\<not> Compare (InternalKeyComparator cmp) a b < 0 \<Longrightarrow> ?sep = a"
    using internal_Separator_cases [of cmp a b] a b user_sep user_refl unfolding sep
    by (auto simp: internal_Compare_eq Let_def split: if_splits)
  show "(8 \<le> length ?sep \<and> valid (ExtractUserKey ?sep)) \<and>
      Compare (InternalKeyComparator cmp) a ?sep \<le> 0 \<and> Compare (InternalKeyComparator cmp) ?sep b < 0"
    if "Compare (InternalKeyComparator cmp) a b < 0"
    using internal_Separator_cases [of cmp a b]
  proof
    assume "internal_Separator cmp a b = a"
    then show ?thesis unfolding sep using that a refl by simp
  next
    assume "let t = FindShortestSeparator cmp (ExtractUserKey a) (ExtractUserKey b) in
      length t < length (ExtractUserKey a) \<and> Compare cmp (ExtractUserKey a) t < 0 \<and>
      internal_Separator cmp a b = PutFixed64 t (PackSequenceAndType kMaxSequenceNumber kValueTypeForSeek)"
    then show ?thesis
      unfolding sep using that a b user_sep user_refl
      by (cases "Compare cmp (ExtractUserKey a) (ExtractUserKey b) < 0")
        (auto simp: internal_Compare_eq Let_def)
  qed
next
  fix a
  assume a: "8 \<le> length a \<and> valid (ExtractUserKey a)"
  have suc: "FindShortSuccessor (InternalKeyComparator cmp) a = internal_Successor cmp a"
    by (simp add: InternalKeyComparator_def)
  show "(8 \<le> length (FindShortSuccessor (InternalKeyComparator cmp) a) \<and>
      valid (ExtractUserKey (FindShortSuccessor (InternalKeyComparator cmp) a))) \<and>
      Compare (InternalKeyComparator cmp) a (FindShortSuccessor (InternalKeyComparator cmp) a) \<le> 0"
    unfolding suc using internal_Successor_cases [of cmp a] a user.successor_above [of "ExtractUserKey a"]
      user.compare_refl [of "ExtractUserKey a"]
    by (auto simp: internal_Compare_eq Let_def)
qed

interpretation bytewise: internal_comparator any BytewiseComparator
proof (unfold_locales, goal_cases)
  case (3 a b)
  then show ?case using bytewise_Separator_between [of a b]
    by (auto simp: any_def Compare_bytewise BytewiseComparator_def [THEN arg_cong [of _ _ FindShortestSeparator]] split: if_splits)
next
  case (4 a b)
  then show ?case using bytewise_Separator_unordered [of a b]
    by (auto simp: any_def Compare_bytewise BytewiseComparator_def [THEN arg_cong [of _ _ FindShortestSeparator]] split: if_splits)
next
  case (5 a)
  then show ?case using successor_loop_spec [of a 0]
    by (auto simp: any_def Compare_bytewise BytewiseComparator_def [THEN arg_cong [of _ _ FindShortSuccessor]])
qed (auto simp: Compare_bytewise split: if_splits)

subsection \<open>The internal filter policy\<close>

locale internal_policy = user: filter_policy pol max_keys
  for pol :: FilterPolicy and max_keys :: nat

sublocale internal_policy \<subseteq> internal: filter_policy "InternalFilterPolicy pol" max_keys
proof
  show "CreateFilter (InternalFilterPolicy pol) keys dst =
      dst @ CreateFilter (InternalFilterPolicy pol) keys []" for keys dst
    by (simp add: InternalFilterPolicy_def) (rule user.appends)
  show "KeyMayMatch (InternalFilterPolicy pol) key (CreateFilter (InternalFilterPolicy pol) keys [])"
    if "length keys \<le> max_keys" "key \<in> set keys" for keys key
    using that by (simp add: InternalFilterPolicy_def user.no_false_negative)
qed

interpretation bloom_keys: internal_policy "NewBloomFilterPolicy bpk" "max_bloom_keys bpk" for bpk
  by unfold_locales

subsection \<open>Tags\<close>

lemma unat_max_sequence: "s \<le> kMaxSequenceNumber \<longleftrightarrow> unat s < 2 ^ 56"
  by (simp add: kMaxSequenceNumber_def word_le_nat_alt push_bit_eq_mult less_Suc_eq_le [symmetric]
      del: less_Suc_eq_le)

lemma unat_PackSequenceAndType:
  assumes "s \<le> kMaxSequenceNumber"
  shows "unat (PackSequenceAndType s t) = unat s * 256 + unat t"
proof -
  have t: "unat (ucast t :: u64) = unat t" by (simp add: unat_ucast_up)
  have "unat s < 2 ^ 56" using assms unat_max_sequence by simp
  then have "unat (push_bit 8 s) = unat s * 256"
    by (simp add: push_bit_eq_mult unat_word_ariths)
  moreover have "PackSequenceAndType s t = ucast t + push_bit 8 s"
    unfolding PackSequenceAndType_def
    by (subst or.commute, rule or_push_bit_eq_add) (rule bit_word_eqI, auto simp: bit_simps dest: bit_imp_le_length)
  ultimately show ?thesis
    using \<open>unat s < 2 ^ 56\<close> byte_lt_256 [of t] by (simp add: t unat_add_small)
qed

lemma unat_low_byte: "unat (ucast (n AND 0xff) :: byte) = unat (n :: u64) mod 256"
proof -
  have "ucast (n AND 0xff) = (ucast n :: byte)"
    by (rule bit_word_eqI) (auto simp: bit_simps numeral_eq_Suc less_Suc_eq)
  then show ?thesis by (simp only: unsigned_ucast_eq) (simp add: take_bit_eq_mod)
qed

lemma unat_drop_tag: "unat (drop_bit 8 (n :: u64)) = unat n div 256"
  by (simp add: unat_drop)

lemma Pack_parts:
  assumes "s \<le> kMaxSequenceNumber"
  shows "drop_bit 8 (PackSequenceAndType s t) = s" "ucast (PackSequenceAndType s t AND 0xff) = t"
  using byte_lt_256 [of t]
  by (simp_all only: word_unat_eq_iff unat_drop_tag unat_low_byte unat_PackSequenceAndType [OF assms])
    simp_all

lemma Pack_of_parts: "PackSequenceAndType (drop_bit 8 n) (ucast (n AND 0xff)) = n"
proof -
  have "drop_bit 8 n \<le> kMaxSequenceNumber"
    using u64_less [of n] unfolding unat_max_sequence unat_drop_tag by (simp add: div_less_iff_less_mult)
  from unat_PackSequenceAndType [OF this] show ?thesis
    by (simp only: word_unat_eq_iff unat_drop_tag unat_low_byte) simp
qed

lemma AppendInternalKey_eq:
  "AppendInternalKey r \<lparr>pk_user_key = u, pk_sequence = s, pk_type = t\<rparr> =
     PutFixed64 (r @ u) (PackSequenceAndType s t)"
  by (simp add: AppendInternalKey_def)

lemma mk_InternalKey_eq: "mk_InternalKey u s t = PutFixed64 u (PackSequenceAndType s t)"
  by (simp add: mk_InternalKey_def AppendInternalKey_eq)

lemma internal_key_mk_LookupKey: "internal_key (mk_LookupKey u s) = mk_InternalKey u s kValueTypeForSeek"
  by (simp add: internal_key_def mk_LookupKey_def Let_def mk_InternalKey_eq PutFixed64_def)

lemma lookup_user_key_mk [simp]: "lookup_user_key (mk_LookupKey u s) = u"
  by (simp add: lookup_user_key_def mk_LookupKey_def Let_def)

lemma memtable_key_mk_LookupKey:
  "memtable_key (mk_LookupKey u s) = PutLengthPrefixedSlice [] (mk_InternalKey u s kValueTypeForSeek)"
  by (simp add: memtable_key_def mk_LookupKey_def Let_def mk_InternalKey_eq PutFixed64_def
      PutLengthPrefixedSlice_def PutVarint32_def)

lemma tag_less_iff:
  assumes "s \<le> kMaxSequenceNumber" "s' \<le> kMaxSequenceNumber"
  shows "PackSequenceAndType s t < PackSequenceAndType s' t' \<longleftrightarrow> s < s' \<or> s = s' \<and> t < t'"
proof -
  have "unat t < 256" "unat t' < 256" by (rule byte_lt_256)+
  then show ?thesis
    unfolding word_less_nat_alt unat_PackSequenceAndType [OF assms(1)]
      unat_PackSequenceAndType [OF assms(2)] word_unat_eq_iff by auto
qed

lemma internal_Compare_mk:
  assumes "s \<le> kMaxSequenceNumber" "s' \<le> kMaxSequenceNumber"
  shows "Compare (InternalKeyComparator BytewiseComparator) (mk_InternalKey u s t) (mk_InternalKey u' s' t') =
    (if u = u' \<and> s = s' \<and> t = t' then 0
     else if u < u' \<or> u = u' \<and> (s' < s \<or> s = s' \<and> t' < t) then - 1 else 1)"
  using assms by (auto simp: internal_Compare_eq Compare_bytewise mk_InternalKey_eq Let_def tag_less_iff)

subsection \<open>Reading numbers\<close>

definition starts_with_digit :: "slice \<Rightarrow> bool" where
  "starts_with_digit s = (case s of [] \<Rightarrow> False | c # _ \<Rightarrow> 0x30 \<le> c \<and> c \<le> 0x39)"

lemma unat_digit: "m < 10 \<Longrightarrow> unat (0x30 + of_nat m :: byte) = 0x30 + m"
  by (simp add: unat_add_small unat_of_nat_small)

lemma consume_digit:
  assumes "10 * n + m < 2 ^ 64" "m < 10"
  shows "consume_digits ((0x30 + of_nat m) # rest) (of_nat n) k =
    consume_digits rest (of_nat (10 * n + m)) (k + 1)"
proof -
  let ?c = "0x30 + of_nat m :: byte"
  have c: "0x30 \<le> ?c \<and> ?c \<le> 0x39" using assms(2) by (simp add: word_le_nat_alt unat_digit)
  have d: "ucast (?c - 0x30) = (of_nat m :: u64)"
    using assms(2) by (simp add: ucast_of_unat unat_of_nat_small)
  have d': "ucast (of_nat m :: byte) = (of_nat m :: u64)"
    using assms(2) by (intro ucast_of_unat) (simp add: unat_of_nat_small)
  have v: "unat (of_nat n :: u64) = n" "unat (of_nat m :: u64) = m"
    using assms by (simp_all add: unat_of_nat_small)
  have max: "(NOT 0 :: u64) div 10 = 0x1999999999999999" "(NOT 0 :: u64) mod 10 = 5" by simp_all
  have "\<not> (of_nat n > (NOT 0 :: u64) div 10 \<or>
      of_nat n = (NOT 0 :: u64) div 10 \<and> of_nat m > (NOT 0 :: u64) mod 10)"
    unfolding max word_less_nat_alt word_unat_eq_iff v using assms(1) by simp
  then show ?thesis by (auto simp: c d d' Let_def mult.commute)
qed

lemma consume_zero: "consume_digits (0x30 # rest) 0 k = consume_digits rest 0 (k + 1)"
  using consume_digit [of 0 0 rest k] by simp

lemma consume_decimal_digits:
  "n < 2 ^ 64 \<Longrightarrow> \<exists>j > 0. consume_digits (decimal_digits n @ rest) 0 k = consume_digits rest (of_nat n) (k + j)"
proof (induction n arbitrary: rest rule: decimal_digits.induct)
  case (1 n)
  show ?case
  proof (cases "n < 10")
    case True
    then have "decimal_digits n = [0x30 + of_nat n]" by (subst decimal_digits.simps) simp
    then show ?thesis using True consume_digit [of 0 n rest k] by (intro exI [of _ 1]) simp
  next
    case False
    then have d: "decimal_digits n = decimal_digits (n div 10) @ [0x30 + of_nat (n mod 10)]"
      by (subst decimal_digits.simps) simp
    have "n div 10 < 2 ^ 64" using "1.prems" by linarith
    from "1.IH" [OF False this] obtain j where j: "j > 0" "consume_digits (decimal_digits (n div 10) @ (0x30 + of_nat (n mod 10)) # rest) 0 k =
      consume_digits ((0x30 + of_nat (n mod 10)) # rest) (of_nat (n div 10)) (k + j)"
      by blast
    note j(2)
    also have "\<dots> = consume_digits rest (of_nat n) (k + j + 1)"
      using "1.prems" by (subst consume_digit) (simp_all del: of_nat_add of_nat_mult)
    finally show ?thesis unfolding d by (intro exI [of _ "j + 1"]) (simp add: add.assoc)
  qed
qed

lemma consume_stop:
  "\<not> starts_with_digit rest \<Longrightarrow> 0 < k \<Longrightarrow> consume_digits rest v k = (Some v, rest)"
  by (cases rest) (auto simp: starts_with_digit_def)

lemma ConsumeDecimalNumber_digits:
  assumes "n < 2 ^ 64" "\<not> starts_with_digit rest"
  shows "ConsumeDecimalNumber (replicate z 0x30 @ decimal_digits n @ rest) = (Some (of_nat n), rest)"
proof -
  have "consume_digits (replicate z 0x30 @ s) 0 k = consume_digits s 0 (k + z)" for s k
    by (induction z arbitrary: k) (simp_all add: consume_zero)
  then show ?thesis
    using consume_decimal_digits [OF assms(1), of rest z] consume_stop [OF assms(2)]
    by (auto simp: ConsumeDecimalNumber_def)
qed

subsection \<open>Properties\<close>

text \<open>C33: Internal keys compare by user key first, in the order of its bytes, then by decreasing sequence
  number, then by decreasing type, and are equal only when all three are.\<close>

theorem internal_key_order:
  assumes "s \<le> kMaxSequenceNumber" "s' \<le> kMaxSequenceNumber"
  shows "Compare (InternalKeyComparator BytewiseComparator) (mk_InternalKey u s t) (mk_InternalKey u' s' t') =
    (if u = u' \<and> s = s' \<and> t = t' then 0
     else if u < u' \<or> u = u' \<and> (s' < s \<or> s = s' \<and> t' < t) then - 1 else 1)"
  by (rule internal_Compare_mk [OF assms])

lemma internal_key_order_witness:
  "Compare (InternalKeyComparator BytewiseComparator) (mk_InternalKey [1, 2] 7 1) (mk_InternalKey [1, 2] 5 0) = - 1"
  by (subst internal_key_order) (simp_all add: unat_max_sequence)

text \<open>C34: Between internal keys in order, with the byte-wise comparator for user keys,
  \<^verbatim>\<open>FindShortestSeparator\<close> returns an internal key that is not
  below the first, is below the second and is no longer than the first, and
  \<^verbatim>\<open>FindShortSuccessor\<close> one that is not below its key and no longer: an index block may use
  either in place of the last key of a data block.\<close>

theorem internal_separator_between:
  assumes "8 \<le> length a" "8 \<le> length b"
    and "Compare (InternalKeyComparator BytewiseComparator) a b < 0"
    and "sep = FindShortestSeparator (InternalKeyComparator BytewiseComparator) a b"
    and "suc = FindShortSuccessor (InternalKeyComparator BytewiseComparator) a"
  shows "Compare (InternalKeyComparator BytewiseComparator) a sep \<le> 0 \<and>
    Compare (InternalKeyComparator BytewiseComparator) sep b < 0 \<and>
    8 \<le> length sep \<and> length sep \<le> length a \<and>
    Compare (InternalKeyComparator BytewiseComparator) a suc \<le> 0 \<and>
    8 \<le> length suc \<and> length suc \<le> length a"
proof -
  have "length (internal_Separator c a b) \<le> length a" "length (internal_Successor c a) \<le> length a" for c
    using internal_Separator_cases [of c a b] internal_Successor_cases [of c a] assms(1)
    by (auto simp: Let_def)
  then show ?thesis
    using bytewise.internal.separator_between [of a b] bytewise.internal.successor_above [of a] assms
    by (simp add: any_def InternalKeyComparator_def)
qed

lemma internal_separator_between_witness:
  "Compare (InternalKeyComparator BytewiseComparator) (mk_InternalKey [1, 2] 7 1)
     (FindShortestSeparator (InternalKeyComparator BytewiseComparator) (mk_InternalKey [1, 2] 7 1)
       (mk_InternalKey [3] 5 1)) \<le> 0"
  by (rule internal_separator_between [where b = "mk_InternalKey [3] 5 1", THEN conjunct1])
    (simp_all add: internal_key_order unat_max_sequence, simp_all add: mk_InternalKey_eq)

text \<open>Parsing takes an appended internal key apart again, and appending the parts of a key that
  parses gives the key back; the accessors agree with the parser.\<close>

lemma internal_key_roundtrip:
  "(s \<le> kMaxSequenceNumber \<and> t \<le> kTypeValue \<longrightarrow>
      ParseInternalKey (mk_InternalKey u s t) = Some \<lparr>pk_user_key = u, pk_sequence = s, pk_type = t\<rparr> \<and>
      ExtractUserKey (mk_InternalKey u s t) = u \<and> ExtractValueType (mk_InternalKey u s t) = t) \<and>
   (ParseInternalKey bs = Some k \<longrightarrow> AppendInternalKey [] k = bs \<and> length bs = InternalKeyEncodingLength k)"
proof
  show "s \<le> kMaxSequenceNumber \<and> t \<le> kTypeValue \<longrightarrow>
      ParseInternalKey (mk_InternalKey u s t) = Some \<lparr>pk_user_key = u, pk_sequence = s, pk_type = t\<rparr> \<and>
      ExtractUserKey (mk_InternalKey u s t) = u \<and> ExtractValueType (mk_InternalKey u s t) = t"
    by (auto simp: mk_InternalKey_eq ParseInternalKey_def ExtractValueType_def Pack_parts Let_def PutFixed64_def
        ExtractUserKey_def)
  show "ParseInternalKey bs = Some k \<longrightarrow> AppendInternalKey [] k = bs \<and> length bs = InternalKeyEncodingLength k"
    by (auto simp: ParseInternalKey_def Let_def AppendInternalKey_eq PutFixed64_def Pack_of_parts EncodeFixed64_DecodeFixed64
        InternalKeyEncodingLength_def split: if_splits)
qed

lemma internal_key_roundtrip_witness:
  "ParseInternalKey (mk_InternalKey [1, 2] 7 1) = Some \<lparr>pk_user_key = [1, 2], pk_sequence = 7, pk_type = 1\<rparr>"
  using internal_key_roundtrip [of 7 1 "[1, 2]" "[]" undefined] by (simp add: unat_max_sequence kTypeValue_def)

text \<open>\<^verbatim>\<open>ConsumeDecimalNumber\<close> reads back what \<^verbatim>\<open>NumberToString\<close> prints, leading zeros or not, up to
  the first byte that is not a digit, for every 64-bit number.\<close>

lemma ConsumeDecimalNumber_print:
  assumes "\<not> starts_with_digit rest"
  shows "ConsumeDecimalNumber (replicate z 0x30 @ NumberToString n @ rest) = (Some n, rest)"
  using ConsumeDecimalNumber_digits [OF u64_less [of n] assms]
  by (simp add: NumberToString_def AppendNumberTo_def)

end
