(* ===== verification/Ldb_Filename_Correct.thy ===== *)
theory Ldb_Filename_Correct
  imports Ldb_Filename Ldb_Dbformat_Correct
begin

unbundle bit_operations_syntax

text \<open>
  Every file name the database makes parses back to its kind and number, and the pointer to
  the current manifest changes in one step, whatever operation of the environment fails.
\<close>

subsection \<open>Names\<close>

lemmas byte_strings = c_string_def of_char_def

lemma decimal_digits_Cons: "\<exists>c cs. decimal_digits n = c # cs \<and> 0x30 \<le> c \<and> c \<le> 0x39"
proof (induction n rule: decimal_digits.induct)
  case (1 n)
  show ?case
  proof (cases "n < 10")
    case True
    then show ?thesis by (subst decimal_digits.simps) (simp add: word_le_nat_alt unat_digit)
  next
    case False
    from 1 [OF this] obtain c cs where "decimal_digits (n div 10) = c # cs \<and> 0x30 \<le> c \<and> c \<le> 0x39" by blast
    with False show ?thesis by (subst decimal_digits.simps) simp
  qed
qed

lemma print_06_Cons: "\<exists>c cs. print_06 n = c # cs \<and> 0x30 \<le> c \<and> c \<le> 0x39"
proof (cases "6 - length (decimal_digits (unat n))")
  case 0
  then show ?thesis using decimal_digits_Cons [of "unat n"] by (simp add: print_06_def)
next
  case (Suc m)
  then show ?thesis by (simp add: print_06_def Let_def)
qed

lemma ConsumeDecimalNumber_print_06:
  "\<not> starts_with_digit rest \<Longrightarrow> ConsumeDecimalNumber (print_06 n @ rest) = (Some n, rest)"
  using ConsumeDecimalNumber_digits [OF u64_less [of n]] by (simp add: print_06_def Let_def)

text \<open>A name that starts with a digit is none of the fixed names.\<close>

lemma ParseFileName_number:
  assumes "\<not> starts_with_digit suffix"
  shows "ParseFileName (print_06 n @ suffix) =
    (if suffix = c_string ''.log'' then Some (n, kLogFile)
     else if suffix = c_string ''.sst'' \<or> suffix = c_string ''.ldb'' then Some (n, kTableFile)
     else if suffix = c_string ''.dbtmp'' then Some (n, kTempFile) else None)"
proof -
  obtain c cs where p: "print_06 n = c # cs" "0x30 \<le> c" "c \<le> 0x39" using print_06_Cons by blast
  then have "c \<noteq> 0x43" "c \<noteq> 0x4c" "c \<noteq> 0x4d" by (auto simp: word_le_nat_alt)
  then have "print_06 n @ suffix \<noteq> c_string ''CURRENT''" "print_06 n @ suffix \<noteq> c_string ''LOCK''"
    "print_06 n @ suffix \<noteq> c_string ''LOG''" "print_06 n @ suffix \<noteq> c_string ''LOG.old''"
    "\<not> starts_with (print_06 n @ suffix) (c_string ''MANIFEST-'')"
    by (auto simp: p byte_strings starts_with_iff)
  then show ?thesis
    by (simp add: ParseFileName_def ConsumeDecimalNumber_print_06 [OF assms])
qed

lemma ParseFileName_descriptor:
  "ParseFileName (c_string ''MANIFEST-'' @ print_06 n) = Some (n, kDescriptorFile)"
  using ConsumeDecimalNumber_print_06 [of "[]" n]
  by (simp add: ParseFileName_def byte_strings starts_with_iff remove_prefix_def starts_with_digit_def)

subsection \<open>The contract of the environment\<close>

text \<open>
  The documented effect of the operations on the contents \<open>view e f\<close> of the files: each changes
  at most the file it names, and changes it as it says when it returns success. An operation
  that fails may leave that file in any state, but a failed rename moves nothing.
\<close>

definition touches :: "('e \<Rightarrow> slice \<Rightarrow> slice option) \<Rightarrow> slice set \<Rightarrow> 'e \<Rightarrow> 'e \<Rightarrow> bool" where
  "touches view fs e e' = (\<forall>g. g \<notin> fs \<longrightarrow> view e' g = view e g)"

definition env_contract ::
  "('h, 'e) Env \<Rightarrow> ('e \<Rightarrow> slice \<Rightarrow> slice option) \<Rightarrow> ('h \<Rightarrow> slice) \<Rightarrow> bool" where
  "env_contract env view name \<longleftrightarrow>
     (\<forall>f e s h e'. NewWritableFile env f e = (s, h, e') \<longrightarrow>
        touches view {f} e e' \<and> (ok s \<longrightarrow> name h = f \<and> view e' f = Some [])) \<and>
     (\<forall>h d e s e'. file_Append env h d e = (s, e') \<longrightarrow>
        touches view {name h} e e' \<and>
        (ok s \<longrightarrow> view e' (name h) = map_option (\<lambda>c. c @ d) (view e (name h)))) \<and>
     (\<forall>h e s e'. file_Sync env h e = (s, e') \<longrightarrow>
        touches view {name h} e e' \<and> (ok s \<longrightarrow> view e' = view e)) \<and>
     (\<forall>h e s e'. file_Close env h e = (s, e') \<longrightarrow>
        touches view {name h} e e' \<and> (ok s \<longrightarrow> view e' = view e)) \<and>
     (\<forall>h e. view (file_delete env h e) = view e) \<and>
     (\<forall>f e. touches view {f} e (snd (DeleteFile env f e))) \<and>
     (\<forall>f g e s e'. RenameFile env f g e = (s, e') \<longrightarrow>
        touches view {f, g} e e' \<and> (if ok s then view e' g = view e f else view e' = view e))"

lemma touches_trans:
  "touches view A e e' \<Longrightarrow> touches view B e' e'' \<Longrightarrow> A \<subseteq> C \<Longrightarrow> B \<subseteq> C \<Longrightarrow> touches view C e e''"
  unfolding touches_def by (metis subsetD)

lemma touches_refl [simp]: "touches view A e e"
  by (simp add: touches_def)

lemma touches_viewD: "view e' = view e \<Longrightarrow> touches view A e e'"
  by (simp add: touches_def)

lemma env_contractD:
  assumes "env_contract env view name"
  shows "NewWritableFile env f e = (s, h, e') \<Longrightarrow>
      touches view {f} e e' \<and> (ok s \<longrightarrow> name h = f \<and> view e' f = Some [])"
    and "file_Append env h d e = (s, e') \<Longrightarrow>
      touches view {name h} e e' \<and>
      (ok s \<longrightarrow> view e' (name h) = map_option (\<lambda>c. c @ d) (view e (name h)))"
    and "file_Sync env h e = (s, e') \<Longrightarrow>
      touches view {name h} e e' \<and> (ok s \<longrightarrow> view e' = view e)"
    and "file_Close env h e = (s, e') \<Longrightarrow>
      touches view {name h} e e' \<and> (ok s \<longrightarrow> view e' = view e)"
    and "view (file_delete env h e) = view e"
    and "touches view {f} e (snd (DeleteFile env f e))"
    and "RenameFile env f g e = (s, e') \<Longrightarrow>
      touches view {f, g} e e' \<and> (if ok s then view e' g = view e f else view e' = view e)"
  using assms unfolding env_contract_def by (simp_all only:, elim conjE, meson+)

lemma DoWriteStringToFile_effect:
  assumes c: "env_contract env view name" and w: "DoWriteStringToFile env data fname sync e = (s, e')"
  shows "touches view {fname} e e' \<and> (ok s \<longrightarrow> view e' fname = Some data)"
proof -
  obtain s1 h e1 where o: "NewWritableFile env fname e = (s1, h, e1)" by (metis prod_cases3)
  obtain s2 e2 where a: "file_Append env h data e1 = (s2, e2)" by (metis surj_pair)
  obtain s3 e3 where y: "(if ok s2 \<and> sync then file_Sync env h e2 else (s2, e2)) = (s3, e3)" by (metis surj_pair)
  obtain s4 e4 where l: "(if ok s3 then file_Close env h e3 else (s3, e3)) = (s4, e4)" by (metis surj_pair)
  define e5 where "e5 = file_delete env h e4"
  have t1: "touches view {fname} e e1" and n: "ok s1 \<Longrightarrow> name h = fname" "ok s1 \<Longrightarrow> view e1 fname = Some []"
    using env_contractD(1) [OF c o] by blast+
  show ?thesis
  proof (cases "ok s1")
    case False
    then show ?thesis using w o t1 by (auto simp: DoWriteStringToFile_def)
  next
    case True
    note n = n [OF True]
    have t2: "touches view {fname} e1 e2" and v2: "ok s2 \<longrightarrow> view e2 fname = Some data"
      using env_contractD(2) [OF c a] n by auto
    have t3: "touches view {fname} e2 e3" and v3: "ok s3 \<longrightarrow> ok s2 \<and> view e3 = view e2"
      using env_contractD(3) [OF c, of h e2 s3 e3] y n by (auto split: if_splits)
    have t4: "touches view {fname} e3 e4" and v4: "ok s4 \<longrightarrow> ok s3 \<and> view e4 = view e3"
      using env_contractD(4) [OF c, of h e3 s4 e4] l n by (auto split: if_splits)
    have v5: "view e5 = view e4" unfolding e5_def by (rule env_contractD(5) [OF c])
    have t6: "touches view {fname} e5 (snd (DeleteFile env fname e5))"
      by (rule env_contractD(6) [OF c])
    have t5: "touches view {fname} e e5"
      using t1 t2 t3 t4 v5 by (simp add: touches_def)
    have "DoWriteStringToFile env data fname sync e =
        (if \<not> ok s4 then (s4, snd (DeleteFile env fname e5)) else (s4, e5))"
      unfolding DoWriteStringToFile_def o prod.case Let_def a y l using True by (simp add: e5_def)
    then show ?thesis using w t5 touches_trans [OF t5 t6 order_refl order_refl] v2 v3 v4 v5
      by (auto split: if_splits)
  qed
qed

lemma CurrentFileName_neq_Temp: "CurrentFileName db \<noteq> TempFileName db n"
proof -
  obtain c cs where "print_06 n = c # cs" "0x30 \<le> c" "c \<le> 0x39" using print_06_Cons by blast
  then show ?thesis
    by (auto simp: CurrentFileName_def TempFileName_def MakeFileName_def byte_strings word_le_nat_alt)
qed

subsection \<open>Properties\<close>

text \<open>C37: Every name the database gives a file, without the directory, parses to the kind of file and the
  number it was made of, for all 64-bit numbers, also 0, which the code asserts it is not given for the
  numbered names.\<close>

theorem ParseFileName_owned:
  "ParseFileName (drop (length db + 1) (LogFileName db n)) = Some (n, kLogFile) \<and>
   ParseFileName (drop (length db + 1) (TableFileName db n)) = Some (n, kTableFile) \<and>
   ParseFileName (drop (length db + 1) (SSTTableFileName db n)) = Some (n, kTableFile) \<and>
   ParseFileName (drop (length db + 1) (DescriptorFileName db n)) = Some (n, kDescriptorFile) \<and>
   ParseFileName (drop (length db + 1) (TempFileName db n)) = Some (n, kTempFile) \<and>
   ParseFileName (drop (length db + 1) (CurrentFileName db)) = Some (0, kCurrentFile) \<and>
   ParseFileName (drop (length db + 1) (LockFileName db)) = Some (0, kDBLockFile) \<and>
   ParseFileName (drop (length db + 1) (InfoLogFileName db)) = Some (0, kInfoLogFile) \<and>
   ParseFileName (drop (length db + 1) (OldInfoLogFileName db)) = Some (0, kInfoLogFile)"
proof -
  have slash: "drop (length db + 1) (db @ c_string ''/'' @ rest) = rest" for rest
    by (simp add: byte_strings)
  have numbered: "drop (length db + 1) (MakeFileName db n suffix) = print_06 n @ c_string ''.'' @ suffix" for suffix
    by (simp add: MakeFileName_def byte_strings)
  have fixed: "drop (length db + 1) (db @ c_string (c # s)) = c_string s" for c s
    by (simp add: byte_strings)
  have desc: "drop (length db + 1) (DescriptorFileName db n) = c_string ''MANIFEST-'' @ print_06 n"
    by (simp add: DescriptorFileName_def byte_strings)
  have dot: "\<not> starts_with_digit (c_string ''.'' @ suffix)" for suffix
    by (simp add: starts_with_digit_def byte_strings)
  show ?thesis
    unfolding LogFileName_def TableFileName_def SSTTableFileName_def TempFileName_def CurrentFileName_def
      LockFileName_def InfoLogFileName_def OldInfoLogFileName_def numbered fixed desc
      ParseFileName_number [OF dot] ParseFileName_descriptor
    by (simp add: byte_strings ParseFileName_def)
qed

text \<open>C38: In an environment whose operations do what they document and change nothing else, and whose
  renaming, as POSIX has it, changes nothing when it fails: whatever operation fails, \<^verbatim>\<open>SetCurrentFile\<close> either returns success and
  the CURRENT file holds the name of the new manifest and a newline, or returns an error and CURRENT
  is as it was; no other file but the temporary one is touched.\<close>

theorem SetCurrentFile_atomic:
  assumes "env_contract env view name" "SetCurrentFile env db n e = (s, e')"
  shows "view e' (CurrentFileName db) =
      (if ok s then Some (c_string ''MANIFEST-'' @ print_06 n @ [10]) else view e (CurrentFileName db)) \<and>
    touches view {CurrentFileName db, TempFileName db n} e e'"
proof -
  let ?tmp = "TempFileName db n" and ?cur = "CurrentFileName db"
  let ?data = "remove_prefix (DescriptorFileName db n) (length db + 1) @ c_string [CHR 0x0A]"
  have data: "?data = c_string ''MANIFEST-'' @ print_06 n @ [10]"
    by (simp add: DescriptorFileName_def remove_prefix_def byte_strings)
  obtain s1 e1 where w: "WriteStringToFileSync env ?data ?tmp e = (s1, e1)" by (metis surj_pair)
  then have 1: "touches view {?tmp} e e1" "ok s1 \<Longrightarrow> view e1 ?tmp = Some ?data"
    using DoWriteStringToFile_effect [OF assms(1)] by (auto simp: WriteStringToFileSync_def)
  obtain s2 e2 where r: "(if ok s1 then RenameFile env ?tmp ?cur e1 else (s1, e1)) = (s2, e2)"
    by (metis surj_pair)
  have rename: "RenameFile env ?tmp ?cur e1 = (s2, e2) \<Longrightarrow> touches view {?tmp, ?cur} e1 e2 \<and>
      (if ok s2 then view e2 ?cur = view e1 ?tmp else view e2 = view e1)"
    by (rule env_contractD(7) [OF assms(1)])
  have 2: "touches view {?tmp, ?cur} e1 e2"
    "view e2 ?cur = (if ok s2 then view e1 ?tmp else view e1 ?cur)" "ok s2 \<Longrightarrow> ok s1"
    using rename r by (auto split: if_splits)
  have 3: "touches view {?tmp} e2 (snd (DeleteFile env ?tmp e2))"
    by (rule env_contractD(6) [OF assms(1)])
  have "SetCurrentFile env db n e = (if \<not> ok s2 then (s2, snd (DeleteFile env ?tmp e2)) else (s2, e2))"
    unfolding SetCurrentFile_def Let_def w prod.case r ..
  then show ?thesis
    using assms(2) 1 2 3 CurrentFileName_neq_Temp [of db n] unfolding data
    by (auto simp: touches_def split: if_splits)
qed

text \<open>An environment in memory, whose files are a map.\<close>

definition memory_env :: "(slice, slice \<Rightarrow> slice option) Env" where
  "memory_env =
     \<lparr>NewWritableFile = (\<lambda>f e. (status_OK, f, e(f \<mapsto> []))),
      NewSequentialFile = (\<lambda>f e. (status_OK, f, e)),
      file_Append = (\<lambda>f d e. (status_OK, e(f := map_option (\<lambda>c. c @ d) (e f)))),
      file_Sync = (\<lambda>f e. (status_OK, e)), file_Close = (\<lambda>f e. (status_OK, e)),
      file_Read = (\<lambda>f n e. (status_OK, [], e)), file_delete = (\<lambda>f e. e),
      DeleteFile = (\<lambda>f e. (status_OK, e(f := None))),
      RenameFile = (\<lambda>f g e. (status_OK, e(g := e f, f := (if f = g then e f else None))))\<rparr>"

lemma SetCurrentFile_atomic_witness:
  "snd (SetCurrentFile memory_env [0x64] 3 Map.empty) (CurrentFileName [0x64]) =
     Some (c_string ''MANIFEST-'' @ print_06 3 @ [10])"
proof -
  have c: "env_contract memory_env (\<lambda>e. e) (\<lambda>f. f)"
    by (simp add: env_contract_def memory_env_def touches_def ok_def status_OK_def)
  obtain s e' where r: "SetCurrentFile memory_env [0x64] 3 Map.empty = (s, e')" by (metis surj_pair)
  then have "ok s"
    by (auto simp: SetCurrentFile_def WriteStringToFileSync_def DoWriteStringToFile_def memory_env_def
        ok_def status_OK_def Let_def)
  then show ?thesis using SetCurrentFile_atomic [OF c r] r by simp
qed

end
