(* ===== verification/Ldb_Skiplist.thy ===== *)
theory Ldb_Skiplist
  imports Prelude
begin

unbundle bit_operations_syntax

text \<open>
  LevelDB's skip list, \<^verbatim>\<open>db/skiplist.h\<close>, and the generator of its heights, \<^verbatim>\<open>util/random.h\<close>,
  under \<^verbatim>\<open>src/ios/Pods/leveldb-library/\<close>. The nodes are a store, a list that grows as the
  arena does: a node pointer is an index in it and the null pointer is \<^const>\<open>None\<close>. The loops that follow links return \<^const>\<open>None\<close> when
  they do not end. Readers and the writer run one after another.
\<close>

subsection \<open>Random numbers\<close>

definition mk_Random :: "u32 \<Rightarrow> u32" where
  "mk_Random s =
     (let seed = s AND 0x7fffffff in if seed = 0 \<or> seed = 2147483647 then 1 else seed)"

text \<open>\<^verbatim>\<open>Next\<close> returns the new seed.\<close>

definition Random_Next :: "u32 \<Rightarrow> u32" where
  "Random_Next seed =
     (let M = 2147483647 :: u32; A = 16807 :: u64;
          product = ucast seed * A;
          seed = ucast (drop_bit 31 product + (product AND ucast M))
      in if seed > M then seed - M else seed)"

definition Uniform :: "u32 \<Rightarrow> u32 \<Rightarrow> u32 \<times> u32" where
  "Uniform n seed = (let seed = Random_Next seed in (seed mod n, seed))"

definition OneIn :: "u32 \<Rightarrow> u32 \<Rightarrow> bool \<times> u32" where
  "OneIn n seed = (let seed = Random_Next seed in (seed mod n = 0, seed))"

definition Skewed :: "nat \<Rightarrow> u32 \<Rightarrow> u32 \<times> u32" where
  "Skewed max_log seed =
     (let (b, seed) = Uniform (of_nat max_log + 1) seed in Uniform (push_bit (unat b) 1) seed)"

subsection \<open>Nodes\<close>

record 'k Node =
  node_key :: 'k
  next_links :: "nat option list"

record 'k SkipList =
  sl_nodes :: "'k Node list"
  sl_max_height :: nat
  sl_rnd :: u32

definition kMaxHeight :: nat where
  "kMaxHeight = 12"

definition head_node :: nat where
  "head_node = 0"

definition key_of :: "'k Node list \<Rightarrow> nat \<Rightarrow> 'k" where
  "key_of nodes x = node_key (nodes ! x)"

definition node_Next :: "'k Node list \<Rightarrow> nat \<Rightarrow> nat \<Rightarrow> nat option" where
  "node_Next nodes x n = next_links (nodes ! x) ! n"

definition node_SetNext :: "'k Node list \<Rightarrow> nat \<Rightarrow> nat \<Rightarrow> nat option \<Rightarrow> 'k Node list" where
  "node_SetNext nodes x n y =
     nodes[x := (nodes ! x)\<lparr>next_links := (next_links (nodes ! x))[n := y]\<rparr>]"

text \<open>The links of a new node are set before it is reached.\<close>

definition NewNode :: "'k \<Rightarrow> nat \<Rightarrow> 'k Node list \<Rightarrow> nat \<times> 'k Node list" where
  "NewNode key h nodes =
     (length nodes, nodes @ [\<lparr>node_key = key, next_links = replicate h None\<rparr>])"

definition mk_SkipList :: "'k \<Rightarrow> 'k SkipList" where
  "mk_SkipList any_key =
     \<lparr>sl_nodes = snd (NewNode any_key kMaxHeight []), sl_max_height = 1, sl_rnd = mk_Random 0xdeadbeef\<rparr>"

function RandomHeight_loop :: "nat \<Rightarrow> u32 \<Rightarrow> nat \<times> u32" where
  "RandomHeight_loop h rnd =
     (if h < kMaxHeight then
        (let rnd = Random_Next rnd in
         if rnd mod 4 = 0 then RandomHeight_loop (h + 1) rnd else (h, rnd))
      else (h, rnd))"
  by auto
termination by (relation "measure (\<lambda>(h, rnd). kMaxHeight - h)") auto

declare RandomHeight_loop.simps [simp del]

definition RandomHeight :: "u32 \<Rightarrow> nat \<times> u32" where
  "RandomHeight rnd = RandomHeight_loop 1 rnd"

subsection \<open>Searches\<close>

definition KeyIsAfterNode :: "('k \<Rightarrow> 'k \<Rightarrow> int) \<Rightarrow> 'k Node list \<Rightarrow> 'k \<Rightarrow> nat option \<Rightarrow> bool" where
  "KeyIsAfterNode cmp nodes key n =
     (case n of None \<Rightarrow> False | Some n \<Rightarrow> cmp (key_of nodes n) key < 0)"

text \<open>\<open>prev\<close> is \<^const>\<open>None\<close> where the code passes a null pointer.\<close>

partial_function (option) find_ge_loop ::
  "('k \<Rightarrow> 'k \<Rightarrow> int) \<Rightarrow> 'k Node list \<Rightarrow> 'k \<Rightarrow> nat list option \<Rightarrow> nat \<Rightarrow> nat \<Rightarrow>
   (nat option \<times> nat list option) option" where
  "find_ge_loop cmp nodes key prev x level =
     (let next = node_Next nodes x level in
      if KeyIsAfterNode cmp nodes key next
      then find_ge_loop cmp nodes key prev (the next) level
      else
        (let prev = map_option (\<lambda>p. p[level := x]) prev in
         if level = 0 then Some (next, prev)
         else find_ge_loop cmp nodes key prev x (level - 1)))"

definition FindGreaterOrEqual ::
  "('k \<Rightarrow> 'k \<Rightarrow> int) \<Rightarrow> 'k SkipList \<Rightarrow> 'k \<Rightarrow> nat list option \<Rightarrow>
   (nat option \<times> nat list option) option" where
  "FindGreaterOrEqual cmp s key prev =
     find_ge_loop cmp (sl_nodes s) key prev head_node (sl_max_height s - 1)"

partial_function (option) find_less_loop ::
  "('k \<Rightarrow> 'k \<Rightarrow> int) \<Rightarrow> 'k Node list \<Rightarrow> 'k \<Rightarrow> nat \<Rightarrow> nat \<Rightarrow> nat option" where
  "find_less_loop cmp nodes key x level =
     (let next = node_Next nodes x level in
      if next = None \<or> cmp (key_of nodes (the next)) key \<ge> 0
      then (if level = 0 then Some x else find_less_loop cmp nodes key x (level - 1))
      else find_less_loop cmp nodes key (the next) level)"

definition FindLessThan :: "('k \<Rightarrow> 'k \<Rightarrow> int) \<Rightarrow> 'k SkipList \<Rightarrow> 'k \<Rightarrow> nat option" where
  "FindLessThan cmp s key = find_less_loop cmp (sl_nodes s) key head_node (sl_max_height s - 1)"

partial_function (option) find_last_loop :: "'k Node list \<Rightarrow> nat \<Rightarrow> nat \<Rightarrow> nat option" where
  "find_last_loop nodes x level =
     (case node_Next nodes x level of
        None \<Rightarrow> if level = 0 then Some x else find_last_loop nodes x (level - 1)
      | Some next \<Rightarrow> find_last_loop nodes next level)"

definition FindLast :: "'k SkipList \<Rightarrow> nat option" where
  "FindLast s = find_last_loop (sl_nodes s) head_node (sl_max_height s - 1)"

subsection \<open>Insertion\<close>

text \<open>The loop that links the node \<open>x\<close> from level \<open>i\<close> on, \<open>n\<close> levels.\<close>

primrec link_levels :: "nat \<Rightarrow> nat \<Rightarrow> nat \<Rightarrow> nat list \<Rightarrow> 'k Node list \<Rightarrow> 'k Node list" where
  "link_levels 0 i x prev nodes = nodes"
| "link_levels (Suc n) i x prev nodes =
     (let nodes = node_SetNext nodes x i (node_Next nodes (prev ! i) i);
          nodes = node_SetNext nodes (prev ! i) i (Some x)
      in link_levels n (i + 1) x prev nodes)"

definition Insert :: "('k \<Rightarrow> 'k \<Rightarrow> int) \<Rightarrow> 'k \<Rightarrow> 'k SkipList \<Rightarrow> 'k SkipList option" where
  "Insert cmp key s =
     (case FindGreaterOrEqual cmp s key (Some (replicate kMaxHeight head_node)) of
        None \<Rightarrow> None
      | Some (x, prev) \<Rightarrow>
          (let prev = the prev;
               (h, rnd) = RandomHeight (sl_rnd s);
               prev = (if h > sl_max_height s
                       then fold (\<lambda>i prev. prev[i := head_node]) [sl_max_height s ..< h] prev
                       else prev);
               max_height = (if h > sl_max_height s then h else sl_max_height s);
               (x, nodes) = NewNode key h (sl_nodes s)
           in Some \<lparr>sl_nodes = link_levels h 0 x prev nodes, sl_max_height = max_height, sl_rnd = rnd\<rparr>))"

definition Contains :: "('k \<Rightarrow> 'k \<Rightarrow> int) \<Rightarrow> 'k SkipList \<Rightarrow> 'k \<Rightarrow> bool option" where
  "Contains cmp s key =
     (case FindGreaterOrEqual cmp s key None of
        None \<Rightarrow> None
      | Some (x, _) \<Rightarrow>
          Some (case x of None \<Rightarrow> False | Some x \<Rightarrow> cmp key (key_of (sl_nodes s) x) = 0))"

subsection \<open>Iterators\<close>

text \<open>An iterator over a list is its node. The operations return it; a search that does not end
  gives \<^const>\<open>None\<close> outside.\<close>

type_synonym sl_Iterator = "nat option"

definition sl_Valid :: "sl_Iterator \<Rightarrow> bool" where
  "sl_Valid it = (it \<noteq> None)"

definition sl_key :: "'k SkipList \<Rightarrow> sl_Iterator \<Rightarrow> 'k" where
  "sl_key s it = key_of (sl_nodes s) (the it)"

definition sl_Next :: "'k SkipList \<Rightarrow> sl_Iterator \<Rightarrow> sl_Iterator" where
  "sl_Next s it = node_Next (sl_nodes s) (the it) 0"

definition sl_Prev :: "('k \<Rightarrow> 'k \<Rightarrow> int) \<Rightarrow> 'k SkipList \<Rightarrow> sl_Iterator \<Rightarrow> sl_Iterator option" where
  "sl_Prev cmp s it =
     map_option (\<lambda>n. if n = head_node then None else Some n) (FindLessThan cmp s (sl_key s it))"

definition sl_Seek :: "('k \<Rightarrow> 'k \<Rightarrow> int) \<Rightarrow> 'k SkipList \<Rightarrow> 'k \<Rightarrow> sl_Iterator option" where
  "sl_Seek cmp s target = map_option fst (FindGreaterOrEqual cmp s target None)"

definition sl_SeekToFirst :: "'k SkipList \<Rightarrow> sl_Iterator" where
  "sl_SeekToFirst s = node_Next (sl_nodes s) head_node 0"

definition sl_SeekToLast :: "'k SkipList \<Rightarrow> sl_Iterator option" where
  "sl_SeekToLast s = map_option (\<lambda>n. if n = head_node then None else Some n) (FindLast s)"

end
