(* ===== verification/Ldb_Memtable.thy ===== *)
theory Ldb_Memtable
  imports Ldb_Dbformat Ldb_Skiplist
begin

unbundle bit_operations_syntax

text \<open>
  LevelDB's memory table, \<^verbatim>\<open>db/memtable.h\<close> and \<^verbatim>\<open>db/memtable.cc\<close> under
  \<^verbatim>\<open>src/ios/Pods/leveldb-library/\<close>: a skip list of encoded entries. A key of the list, in the
  code a pointer to an entry in the arena, is the bytes from there on. The outer option of the operations is
  that of the skip list's searches.
\<close>

text \<open>The file's own \<^verbatim>\<open>GetLengthPrefixedSlice\<close>: the slice and the bytes after it.\<close>

definition prefixed_slice_at :: "byte list \<Rightarrow> slice \<times> byte list" where
  "prefixed_slice_at data =
     (case GetVarint32Ptr (take 5 data) of
        None \<Rightarrow> ([], [])
      | Some (len, r) \<Rightarrow>
          let p = drop (length (take 5 data) - length r) data
          in (take (unat len) p, drop (unat len) p))"

definition mem_KeyComparator :: "Comparator \<Rightarrow> byte list \<Rightarrow> byte list \<Rightarrow> int" where
  "mem_KeyComparator cmp aptr bptr =
     (let a = fst (prefixed_slice_at aptr); b = fst (prefixed_slice_at bptr)
      in Compare (InternalKeyComparator cmp) a b)"

definition EncodeKey :: "slice \<Rightarrow> byte list" where
  "EncodeKey target = PutVarint32 [] (of_nat (length target)) @ target"

record MemTable =
  mt_comparator :: Comparator
  mt_refs :: int
  mt_table :: "byte list SkipList"

definition mk_MemTable :: "Comparator \<Rightarrow> MemTable" where
  "mk_MemTable cmp = \<lparr>mt_comparator = cmp, mt_refs = 0, mt_table = mk_SkipList []\<rparr>"

definition mem_Ref :: "MemTable \<Rightarrow> MemTable" where
  "mem_Ref m = m\<lparr>mt_refs := mt_refs m + 1\<rparr>"

text \<open>\<^const>\<open>None\<close> when the last reference went and the table deleted itself.\<close>

definition mem_Unref :: "MemTable \<Rightarrow> MemTable option" where
  "mem_Unref m =
     (let m = m\<lparr>mt_refs := mt_refs m - 1\<rparr> in if mt_refs m \<le> 0 then None else Some m)"

definition mem_Add ::
  "SequenceNumber \<Rightarrow> ValueType \<Rightarrow> slice \<Rightarrow> slice \<Rightarrow> MemTable \<Rightarrow> MemTable option" where
  "mem_Add s t key value m =
     (let key_size = length key; val_size = length value; internal_key_size = key_size + 8;
          buf = EncodeVarint32 (of_nat internal_key_size) @ key @
                EncodeFixed64 (push_bit 8 s OR ucast t) @
                EncodeVarint32 (of_nat val_size) @ value
      in map_option (\<lambda>table. m\<lparr>mt_table := table\<rparr>)
           (Insert (mem_KeyComparator (mt_comparator m)) buf (mt_table m)))"

text \<open>\<open>value\<close> and \<open>s\<close> are the objects \<^verbatim>\<open>Get\<close> writes to.\<close>

definition mem_Get ::
  "MemTable \<Rightarrow> LookupKey \<Rightarrow> byte list \<Rightarrow> Status \<Rightarrow> (bool \<times> byte list \<times> Status) option" where
  "mem_Get m key value s =
     map_option (\<lambda>iter.
       if \<not> sl_Valid iter then (False, value, s)
       else
         (let entry = sl_key (mt_table m) iter in
          case GetVarint32Ptr (take 5 entry) of
            None \<Rightarrow> (False, value, s)
          | Some (key_length, r) \<Rightarrow>
              let key_ptr = drop (length (take 5 entry) - length r) entry in
              if Compare (mt_comparator m) (take (unat (key_length - 8)) key_ptr)
                   (lookup_user_key key) = 0
              then
                (let tag = DecodeFixed64 (drop (unat key_length - 8) key_ptr);
                     t = ucast (tag AND 0xff) :: byte
                 in if t = kTypeValue
                    then (True, fst (prefixed_slice_at (drop (unat key_length) key_ptr)), s)
                    else if t = kTypeDeletion then (True, value, NotFound [] [])
                    else (False, value, s))
              else (False, value, s)))
       (sl_Seek (mem_KeyComparator (mt_comparator m)) (mt_table m) (memtable_key key))"

subsection \<open>Iterators\<close>

text \<open>A \<^verbatim>\<open>MemTableIterator\<close> is the iterator of the skip list; its operations decode the entry.\<close>

definition mti_Seek :: "MemTable \<Rightarrow> slice \<Rightarrow> sl_Iterator option" where
  "mti_Seek m k = sl_Seek (mem_KeyComparator (mt_comparator m)) (mt_table m) (EncodeKey k)"

definition mti_SeekToFirst :: "MemTable \<Rightarrow> sl_Iterator" where
  "mti_SeekToFirst m = sl_SeekToFirst (mt_table m)"

definition mti_SeekToLast :: "MemTable \<Rightarrow> sl_Iterator option" where
  "mti_SeekToLast m = sl_SeekToLast (mt_table m)"

definition mti_Next :: "MemTable \<Rightarrow> sl_Iterator \<Rightarrow> sl_Iterator" where
  "mti_Next m it = sl_Next (mt_table m) it"

definition mti_Prev :: "MemTable \<Rightarrow> sl_Iterator \<Rightarrow> sl_Iterator option" where
  "mti_Prev m it = sl_Prev (mem_KeyComparator (mt_comparator m)) (mt_table m) it"

definition mti_key :: "MemTable \<Rightarrow> sl_Iterator \<Rightarrow> slice" where
  "mti_key m it = fst (prefixed_slice_at (sl_key (mt_table m) it))"

definition mti_value :: "MemTable \<Rightarrow> sl_Iterator \<Rightarrow> slice" where
  "mti_value m it = fst (prefixed_slice_at (snd (prefixed_slice_at (sl_key (mt_table m) it))))"

end
