(* ===== verification/Ldb_Write_Batch.thy ===== *)
theory Ldb_Write_Batch
  imports Ldb_Memtable Ldb_Coding_Correct
begin

unbundle bit_operations_syntax

text \<open>
  LevelDB's write batches, \<^verbatim>\<open>include/leveldb/write_batch.h\<close>,
  \<^verbatim>\<open>db/write_batch_internal.h\<close> and \<^verbatim>\<open>db/write_batch.cc\<close> under
  \<^verbatim>\<open>src/ios/Pods/leveldb-library/\<close>. A batch is its \<^verbatim>\<open>rep_\<close>. A \<^verbatim>\<open>Handler\<close> is the record of
  its operations on a state \<open>'h\<close>.
\<close>

definition wb_kHeader :: nat where
  "wb_kHeader = 12"

definition wb_Clear :: "byte list" where
  "wb_Clear = replicate wb_kHeader 0"

definition wb_Count :: "byte list \<Rightarrow> int" where
  "wb_Count rep = sint (DecodeFixed32 (drop 8 rep))"

definition wb_SetCount :: "byte list \<Rightarrow> int \<Rightarrow> byte list" where
  "wb_SetCount rep n = take 8 rep @ EncodeFixed32 (of_int n) @ drop 12 rep"

definition wb_Sequence :: "byte list \<Rightarrow> SequenceNumber" where
  "wb_Sequence rep = DecodeFixed64 rep"

definition wb_SetSequence :: "byte list \<Rightarrow> SequenceNumber \<Rightarrow> byte list" where
  "wb_SetSequence rep s = EncodeFixed64 s @ drop 8 rep"

definition wb_Put :: "slice \<Rightarrow> slice \<Rightarrow> byte list \<Rightarrow> byte list" where
  "wb_Put key value rep =
     PutLengthPrefixedSlice
       (PutLengthPrefixedSlice (wb_SetCount rep (wb_Count rep + 1) @ [kTypeValue]) key) value"

definition wb_Delete :: "slice \<Rightarrow> byte list \<Rightarrow> byte list" where
  "wb_Delete key rep =
     PutLengthPrefixedSlice (wb_SetCount rep (wb_Count rep + 1) @ [kTypeDeletion]) key"

record 'h Handler =
  handler_Put :: "slice \<Rightarrow> slice \<Rightarrow> 'h \<Rightarrow> 'h"
  handler_Delete :: "slice \<Rightarrow> 'h \<Rightarrow> 'h"

lemma GetLengthPrefixedSlice_shorter:
  "GetLengthPrefixedSlice input = (s, r) \<Longrightarrow> length r \<le> length input"
  by (auto simp: GetLengthPrefixedSlice_def remove_prefix_def split: option.splits if_splits
      dest!: varint32.dec_shorter intro: order_trans [OF diff_le_self])

text \<open>The loop of \<^verbatim>\<open>Iterate\<close>: an error, or the number of entries found.\<close>

function iterate_loop :: "'h Handler \<Rightarrow> slice \<Rightarrow> int \<Rightarrow> 'h \<Rightarrow> (Status + int) \<times> 'h" where
  "iterate_loop handler [] found h = (Inr found, h)"
| "iterate_loop handler (tag # input) found h =
     (let found = found + 1 in
      if tag = kTypeValue then
        (case GetLengthPrefixedSlice input of
           (None, _) \<Rightarrow> (Inl (Corruption (c_string ''bad WriteBatch Put'') []), h)
         | (Some key, input) \<Rightarrow>
             (case GetLengthPrefixedSlice input of
                (None, _) \<Rightarrow> (Inl (Corruption (c_string ''bad WriteBatch Put'') []), h)
              | (Some val, input) \<Rightarrow> iterate_loop handler input found (handler_Put handler key val h)))
      else if tag = kTypeDeletion then
        (case GetLengthPrefixedSlice input of
           (None, _) \<Rightarrow> (Inl (Corruption (c_string ''bad WriteBatch Delete'') []), h)
         | (Some key, input) \<Rightarrow> iterate_loop handler input found (handler_Delete handler key h))
      else (Inl (Corruption (c_string ''unknown WriteBatch tag'') []), h))"
  by pat_completeness auto

termination
  by (relation "measure (\<lambda>(handler, input, found, h). length input)")
    (auto dest!: sym [of "(_, _)" "GetLengthPrefixedSlice _"] GetLengthPrefixedSlice_shorter)

declare iterate_loop.simps(2) [simp del]

definition wb_Iterate :: "'h Handler \<Rightarrow> byte list \<Rightarrow> 'h \<Rightarrow> Status \<times> 'h" where
  "wb_Iterate handler rep h =
     (if length rep < wb_kHeader
      then (Corruption (c_string ''malformed WriteBatch (too small)'') [], h)
      else
        (case iterate_loop handler (remove_prefix rep wb_kHeader) 0 h of
           (Inl s, h) \<Rightarrow> (s, h)
         | (Inr found, h) \<Rightarrow>
             if found \<noteq> wb_Count rep
             then (Corruption (c_string ''WriteBatch has wrong count'') [], h)
             else (status_OK, h)))"

text \<open>The state of a \<^verbatim>\<open>MemTableInserter\<close>, \<^const>\<open>None\<close> once an insertion did not end.\<close>

type_synonym inserter = "(SequenceNumber \<times> MemTable) option"

definition MemTableInserter :: "inserter Handler" where
  "MemTableInserter =
     \<lparr>handler_Put = (\<lambda>key val h. case h of
          None \<Rightarrow> None
        | Some (s, mem) \<Rightarrow> map_option (\<lambda>mem. (s + 1, mem)) (mem_Add s kTypeValue key val mem)),
      handler_Delete = (\<lambda>key h. case h of
          None \<Rightarrow> None
        | Some (s, mem) \<Rightarrow> map_option (\<lambda>mem. (s + 1, mem)) (mem_Add s kTypeDeletion key [] mem))\<rparr>"

definition wb_InsertInto :: "byte list \<Rightarrow> MemTable \<Rightarrow> (Status \<times> MemTable) option" where
  "wb_InsertInto rep memtable =
     (case wb_Iterate MemTableInserter rep (Some (wb_Sequence rep, memtable)) of
        (s, h) \<Rightarrow> map_option (\<lambda>(_, mem). (s, mem)) h)"

definition wb_SetContents :: "slice \<Rightarrow> byte list" where
  "wb_SetContents contents = contents"

definition wb_Contents :: "byte list \<Rightarrow> slice" where
  "wb_Contents rep = rep"

definition wb_ByteSize :: "byte list \<Rightarrow> nat" where
  "wb_ByteSize rep = length rep"

definition wb_Append :: "byte list \<Rightarrow> byte list \<Rightarrow> byte list" where
  "wb_Append dst src =
     wb_SetCount dst (wb_Count dst + wb_Count src) @ drop wb_kHeader src"

end
