(* ===== verification/Ldb_Skiplist_Correct.thy ===== *)
theory Ldb_Skiplist_Correct
  imports Ldb_Skiplist Key_Order "HOL-Library.Multiset"
begin

text \<open>
  The skip list keeps its keys in order. Its links are described by one list of nodes: the
  chain at level \<open>i\<close> is that list without the nodes whose tower is not higher than \<open>i\<close>. The searches
  follow one induction over it, an insertion puts a node into it, and the lists of keys it
  stands for are those of insertion in a sorted list.
\<close>

subsection \<open>Chains of links\<close>

primrec chain :: "(nat \<Rightarrow> nat option) \<Rightarrow> nat \<Rightarrow> nat list \<Rightarrow> bool" where
  "chain f x [] = (f x = None)"
| "chain f x (y # ys) = (f x = Some y \<and> chain f y ys)"

definition first_of :: "nat list \<Rightarrow> nat option" where
  "first_of xs = (case xs of [] \<Rightarrow> None | x # _ \<Rightarrow> Some x)"

lemma first_of_simps [simp]: "first_of [] = None" "first_of (x # xs) = Some x"
  by (simp_all add: first_of_def)

lemma first_of_in: "first_of xs = Some x \<Longrightarrow> x \<in> set xs"
  by (cases xs) simp_all

lemma first_of_drop [simp]: "i < length xs \<Longrightarrow> first_of (drop i xs) = Some (xs ! i)"
  by (metis Cons_nth_drop_Suc first_of_simps(2))

lemma chain_at: "chain f x (us @ vs) \<Longrightarrow> f (last (x # us)) = first_of vs"
proof (induction us arbitrary: x)
  case Nil
  then show ?case by (cases vs) simp_all
qed simp

lemma chain_cong: "(\<And>y. y \<in> set (x # ys) \<Longrightarrow> f y = g y) \<Longrightarrow> chain f x ys \<longleftrightarrow> chain g x ys"
  by (induction ys arbitrary: x) auto

text \<open>A new node \<open>n\<close> linked in after the nodes \<open>us\<close>.\<close>

lemma chain_insert:
  assumes "chain f x (us @ vs)" "distinct (x # us @ vs)" "n \<notin> set (x # us @ vs)"
    and "g n = f (last (x # us))" "g (last (x # us)) = Some n"
    and "\<And>y. y \<in> set (x # us @ vs) \<Longrightarrow> y \<noteq> last (x # us) \<Longrightarrow> g y = f y"
  shows "chain g x (us @ n # vs)"
  using assms
proof (induction us arbitrary: x)
  case Nil
  have "chain g n vs"
  proof (cases vs)
    case (Cons v vs')
    then have "chain g v vs' \<longleftrightarrow> chain f v vs'" using Nil.prems(2,6) by (intro chain_cong) auto
    then show ?thesis using Nil.prems(1,4) Cons by simp
  qed (use Nil in simp)
  then show ?case using Nil.prems(5) by simp
next
  case (Cons u us)
  have "chain g u (us @ n # vs)" by (rule Cons.IH) (use Cons.prems in \<open>auto split: if_splits\<close>)
  moreover have "last (u # us) \<noteq> x" using Cons.prems(2) last_in_set [of "u # us"] by auto
  then have "g x = f x" using Cons.prems(6) [of x] by simp
  ultimately show ?case using Cons.prems(1) by simp
qed

subsection \<open>The shape of a skip list\<close>

definition tower :: "'k Node list \<Rightarrow> nat \<Rightarrow> nat" where
  "tower nodes n = length (next_links (nodes ! n))"

definition at_level :: "'k Node list \<Rightarrow> nat \<Rightarrow> nat list \<Rightarrow> nat list" where
  "at_level nodes i xs = filter (\<lambda>n. i < tower nodes n) xs"

definition skiplist_of :: "'k SkipList \<Rightarrow> nat list \<Rightarrow> bool" where
  "skiplist_of s xs \<longleftrightarrow>
     (let nodes = sl_nodes s in
      nodes \<noteq> [] \<and> tower nodes head_node = kMaxHeight \<and>
      1 \<le> sl_max_height s \<and> sl_max_height s \<le> kMaxHeight \<and>
      distinct xs \<and> set xs = {1 ..< length nodes} \<and>
      (\<forall>n \<in> set xs. 1 \<le> tower nodes n \<and> tower nodes n \<le> sl_max_height s) \<and>
      (\<forall>i < kMaxHeight. chain (\<lambda>x. node_Next nodes x i) head_node (at_level nodes i xs)))"

definition keys_of :: "'k SkipList \<Rightarrow> nat list \<Rightarrow> 'k list" where
  "keys_of s xs = map (key_of (sl_nodes s)) xs"

lemma at_level_append [simp]: "at_level nodes i (xs @ ys) = at_level nodes i xs @ at_level nodes i ys"
  by (simp add: at_level_def)

lemma at_level_simps [simp]:
  "at_level nodes i [] = []"
  "at_level nodes i (x # xs) = (if i < tower nodes x then x # at_level nodes i xs else at_level nodes i xs)"
  by (simp_all add: at_level_def)

lemma set_at_level: "n \<in> set (at_level nodes i xs) \<longleftrightarrow> n \<in> set xs \<and> i < tower nodes n"
  by (auto simp: at_level_def)

lemma last_at_level:
  "i < tower nodes (last (x # us)) \<Longrightarrow> last (x # at_level nodes i us) = last (x # us)"
  by (induction us rule: rev_induct) auto

lemma skiplist_of_Next:
  assumes "skiplist_of s xs" "xs = us @ vs" "i < kMaxHeight" "i < tower (sl_nodes s) (last (head_node # us))"
  shows "node_Next (sl_nodes s) (last (head_node # us)) i = first_of (at_level (sl_nodes s) i vs)"
proof -
  have "chain (\<lambda>x. node_Next (sl_nodes s) x i) head_node
      (at_level (sl_nodes s) i us @ at_level (sl_nodes s) i vs)"
    using assms(1-3) by (simp add: skiplist_of_def Let_def)
  from chain_at [OF this] show ?thesis by (simp only: last_at_level [OF assms(4)])
qed

lemma at_level_0: "skiplist_of s xs \<Longrightarrow> set vs \<subseteq> set xs \<Longrightarrow> at_level (sl_nodes s) 0 vs = vs"
proof -
  assume "skiplist_of s xs" "set vs \<subseteq> set xs"
  then have "\<forall>n \<in> set vs. 1 \<le> tower (sl_nodes s) n" unfolding skiplist_of_def Let_def by blast
  then show ?thesis unfolding at_level_def by (intro filter_True) fastforce
qed

subsection \<open>Searches\<close>

text \<open>
  The induction every search follows: \<open>P\<close> holds of the nodes \<open>A\<close> to pass, in front of the nodes \<open>B\<close>
  where it does not. At a level the search moves to the next node while \<open>P\<close> holds of it, then goes a level down; it is
  then at the last node of \<open>A\<close> in that level.
\<close>

lemma descend:
  assumes wf: "skiplist_of s xs" and xs: "xs = A @ B" and P: "\<forall>a \<in> set A. P a" "\<forall>b \<in> set B. \<not> P b"
    and step: "\<And>x q level. node_Next (sl_nodes s) x level = Some q \<Longrightarrow> P q \<Longrightarrow> Q q level \<Longrightarrow> Q x level"
    and down: "\<And>x level. \<forall>q. node_Next (sl_nodes s) x level = Some q \<longrightarrow> \<not> P q \<Longrightarrow>
      x = last (head_node # at_level (sl_nodes s) level A) \<Longrightarrow> 0 < level \<Longrightarrow> Q x (level - 1) \<Longrightarrow> Q x level"
    and stop: "\<And>x. \<forall>q. node_Next (sl_nodes s) x 0 = Some q \<longrightarrow> \<not> P q \<Longrightarrow>
      x = last (head_node # A) \<Longrightarrow> node_Next (sl_nodes s) x 0 = first_of B \<Longrightarrow> Q x 0"
    and "A = us @ vs" "level < kMaxHeight" "level < tower (sl_nodes s) (last (head_node # us))"
  shows "Q (last (head_node # us)) level"
  using assms(8-10)
proof (induction "level + length vs" arbitrary: us vs level rule: less_induct)
  case less
  let ?n = "sl_nodes s" and ?x = "last (head_node # us)"
  have next_x: "node_Next ?n ?x level = first_of (at_level ?n level vs @ at_level ?n level B)"
    using skiplist_of_Next [OF wf, of us "vs @ B"] less.prems xs by simp
  show ?case
  proof (cases "at_level ?n level vs")
    case (Cons q qs)
    then obtain v1 v2 where v: "vs = v1 @ q # v2" "level < tower ?n q"
      unfolding at_level_def filter_eq_Cons_iff by blast
    have "Q (last (head_node # us @ v1 @ [q])) level"
      by (rule less.hyps [where vs = v2]) (use less.prems v in simp_all)
    moreover have "P q" using P(1) less.prems(1) v(1) by simp
    ultimately show ?thesis using step [of ?x level q] next_x Cons by simp
  next
    case Nil
    then have next_B: "node_Next ?n ?x level = first_of (at_level ?n level B)" using next_x by simp
    then have stuck: "\<forall>q. node_Next ?n ?x level = Some q \<longrightarrow> \<not> P q"
      using P(2) by (auto dest: first_of_in simp: set_at_level)
    have x: "?x = last (head_node # at_level ?n level A)"
      using Nil less.prems by (simp only: at_level_append append_Nil2 last_at_level)
    show ?thesis
    proof (cases level)
      case 0
      have "at_level ?n 0 A = A" "at_level ?n 0 B = B" using at_level_0 [OF wf] xs by auto
      then show ?thesis using stop [of ?x] stuck x next_B 0 by simp
    next
      case (Suc l)
      have "Q ?x l" by (rule less.hyps [where vs = vs]) (use less.prems Suc in simp_all)
      then show ?thesis using down [of ?x level] stuck x Suc by simp
    qed
  qed
qed

text \<open>What a search from the head stores in \<open>prev\<close>, from the level it starts at.\<close>

definition predecessor :: "'k Node list \<Rightarrow> nat list \<Rightarrow> nat \<Rightarrow> nat" where
  "predecessor nodes A i = last (head_node # at_level nodes i A)"

definition set_predecessors :: "'k Node list \<Rightarrow> nat list \<Rightarrow> nat \<Rightarrow> nat list \<Rightarrow> nat list" where
  "set_predecessors nodes A level p =
     map (\<lambda>i. if i \<le> level then predecessor nodes A i else p ! i) [0..<length p]"

lemma set_predecessors_0: "set_predecessors nodes A 0 = (\<lambda>p. p[0 := predecessor nodes A 0])"
  by (rule ext, rule nth_equalityI) (auto simp: set_predecessors_def nth_list_update)

lemma set_predecessors_Suc:
  "0 < level \<Longrightarrow> set_predecessors nodes A (level - 1) (p[level := predecessor nodes A level]) =
     set_predecessors nodes A level p"
  by (rule nth_equalityI) (auto simp: set_predecessors_def nth_list_update)

lemma skiplist_of_start:
  "skiplist_of s xs \<Longrightarrow> sl_max_height s - 1 < kMaxHeight \<and>
     sl_max_height s - 1 < tower (sl_nodes s) (last (head_node # []))"
  by (auto simp: skiplist_of_def Let_def)

lemma descend_from_head:
  assumes wf: "skiplist_of s xs" and xs: "xs = A @ B" and P: "\<forall>a \<in> set A. P a" "\<forall>b \<in> set B. \<not> P b"
    and step: "\<And>x q level. node_Next (sl_nodes s) x level = Some q \<Longrightarrow> P q \<Longrightarrow> Q q level \<Longrightarrow> Q x level"
    and down: "\<And>x level. \<forall>q. node_Next (sl_nodes s) x level = Some q \<longrightarrow> \<not> P q \<Longrightarrow>
      x = last (head_node # at_level (sl_nodes s) level A) \<Longrightarrow> 0 < level \<Longrightarrow> Q x (level - 1) \<Longrightarrow> Q x level"
    and stop: "\<And>x. \<forall>q. node_Next (sl_nodes s) x 0 = Some q \<longrightarrow> \<not> P q \<Longrightarrow>
      x = last (head_node # A) \<Longrightarrow> node_Next (sl_nodes s) x 0 = first_of B \<Longrightarrow> Q x 0"
  shows "Q head_node (sl_max_height s - 1)"
proof -
  have "Q (last (head_node # [])) (sl_max_height s - 1)"
    by (rule descend [OF wf xs P, where Q = Q and vs = A])
      (fact step, fact down, fact stop, use skiplist_of_start [OF wf] in simp_all)
  then show ?thesis by simp
qed

lemma find_ge_spec:
  assumes wf: "skiplist_of s xs" and xs: "xs = A @ B"
    and A: "\<forall>a \<in> set A. cmp (key_of (sl_nodes s) a) key < 0"
    and B: "\<forall>b \<in> set B. \<not> cmp (key_of (sl_nodes s) b) key < 0"
  shows "FindGreaterOrEqual cmp s key prev =
    Some (first_of B, map_option (set_predecessors (sl_nodes s) A (sl_max_height s - 1)) prev)"
proof -
  let ?Q = "\<lambda>x level. \<forall>prev. find_ge_loop cmp (sl_nodes s) key prev x level =
    Some (first_of B, map_option (set_predecessors (sl_nodes s) A level) prev)"
  have "?Q head_node (sl_max_height s - 1)"
  proof (rule descend_from_head [OF wf xs A B, where Q = ?Q])
    fix x q level
    assume "node_Next (sl_nodes s) x level = Some q" "cmp (key_of (sl_nodes s) q) key < 0" "?Q q level"
    then show "?Q x level" by (subst find_ge_loop.simps) (simp add: KeyIsAfterNode_def)
  next
    fix x level
    assume stuck: "\<forall>q. node_Next (sl_nodes s) x level = Some q \<longrightarrow> \<not> cmp (key_of (sl_nodes s) q) key < 0"
      and "x = last (head_node # at_level (sl_nodes s) level A)" and level: "0 < level" and Q: "?Q x (level - 1)"
    then have x: "x = predecessor (sl_nodes s) A level" by (simp add: predecessor_def)
    from stuck have "\<not> KeyIsAfterNode cmp (sl_nodes s) key (node_Next (sl_nodes s) x level)"
      by (simp add: KeyIsAfterNode_def split: option.split)
    then show "?Q x level"
      using Q level set_predecessors_Suc [OF level, of "sl_nodes s" A]
      by (subst find_ge_loop.simps)
        (simp add: Let_def option.map_comp comp_def flip: x)
  next
    fix x
    assume "\<forall>q. node_Next (sl_nodes s) x 0 = Some q \<longrightarrow> \<not> cmp (key_of (sl_nodes s) q) key < 0"
      and x: "x = last (head_node # A)" and n: "node_Next (sl_nodes s) x 0 = first_of B"
    then have "\<not> KeyIsAfterNode cmp (sl_nodes s) key (node_Next (sl_nodes s) x 0)"
      by (simp add: KeyIsAfterNode_def split: option.split)
    moreover have "predecessor (sl_nodes s) A 0 = x"
      using x xs by (simp add: predecessor_def at_level_0 [OF wf])
    ultimately show "?Q x 0"
      by (subst find_ge_loop.simps) (simp add: Let_def n set_predecessors_0)
  qed
  then show ?thesis by (simp add: FindGreaterOrEqual_def)
qed

lemma find_less_spec:
  assumes wf: "skiplist_of s xs" and xs: "xs = A @ B"
    and A: "\<forall>a \<in> set A. cmp (key_of (sl_nodes s) a) key < 0"
    and B: "\<forall>b \<in> set B. \<not> cmp (key_of (sl_nodes s) b) key < 0"
  shows "FindLessThan cmp s key = Some (last (head_node # A))"
proof -
  let ?Q = "\<lambda>x level. find_less_loop cmp (sl_nodes s) key x level = Some (last (head_node # A))"
  have "?Q head_node (sl_max_height s - 1)"
    by (rule descend_from_head [OF wf xs A B, where Q = ?Q]; (subst find_less_loop.simps)?)
      (use skiplist_of_start [OF wf] in \<open>auto simp: Let_def not_less\<close>)
  then show ?thesis by (simp add: FindLessThan_def)
qed

lemma find_last_spec:
  assumes wf: "skiplist_of s xs"
  shows "FindLast s = Some (last (head_node # xs))"
proof -
  let ?Q = "\<lambda>x level. find_last_loop (sl_nodes s) x level = Some (last (head_node # xs))"
  have "?Q head_node (sl_max_height s - 1)"
    by (rule descend_from_head [OF wf, of xs "[]" "\<lambda>_. True", where Q = ?Q]; (subst find_last_loop.simps)?)
      (use skiplist_of_start [OF wf] in \<open>auto split: option.split\<close>)
  then show ?thesis by (simp add: FindLast_def)
qed

subsection \<open>Insertion\<close>

lemma node_SetNext_simps [simp]:
  "length (node_SetNext nodes x i v) = length nodes"
  "tower (node_SetNext nodes x i v) y = tower nodes y"
  "key_of (node_SetNext nodes x i v) y = key_of nodes y"
  by (cases "x < length nodes";
      auto simp: node_SetNext_def tower_def key_of_def nth_list_update not_less list_update_beyond)+

lemma node_Next_SetNext:
  "node_Next (node_SetNext nodes x i v) y j =
     (if y = x \<and> j = i \<and> x < length nodes \<and> i < tower nodes x then v else node_Next nodes y j)"
proof (cases "x < length nodes")
  case True
  then show ?thesis
    by (auto simp: node_SetNext_def node_Next_def tower_def nth_list_update not_less list_update_beyond)
next
  case False
  then show ?thesis by (simp add: node_SetNext_def list_update_beyond)
qed

text \<open>Each level is linked on its own: \<open>x\<close> goes after \<open>prev ! j\<close> and before what followed it.\<close>

lemma link_levels_effect:
  assumes "\<forall>j. i \<le> j \<and> j < i + n \<longrightarrow>
      prev ! j < length nodes \<and> j < tower nodes (prev ! j) \<and> prev ! j \<noteq> x"
    and "x < length nodes" "i + n \<le> tower nodes x"
  shows "length (link_levels n i x prev nodes) = length nodes \<and>
    tower (link_levels n i x prev nodes) y = tower nodes y \<and>
    key_of (link_levels n i x prev nodes) y = key_of nodes y \<and>
    node_Next (link_levels n i x prev nodes) y j =
      (if i \<le> j \<and> j < i + n
       then if y = x then node_Next nodes (prev ! j) j
            else if y = prev ! j then Some x else node_Next nodes y j
       else node_Next nodes y j)"
  using assms
proof (induction n arbitrary: i nodes)
  case (Suc n)
  let ?n1 = "node_SetNext nodes x i (node_Next nodes (prev ! i) i)"
  let ?n2 = "node_SetNext ?n1 (prev ! i) i (Some x)"
  have "prev ! i < length nodes" "i < tower nodes (prev ! i)" "prev ! i \<noteq> x"
    using Suc.prems(1) by auto
  moreover have "link_levels (Suc n) i x prev nodes = link_levels n (i + 1) x prev ?n2"
    by (simp add: Let_def)
  moreover have "\<forall>j. i + 1 \<le> j \<and> j < i + 1 + n \<longrightarrow>
      prev ! j < length ?n2 \<and> j < tower ?n2 (prev ! j) \<and> prev ! j \<noteq> x"
    using Suc.prems(1) by simp
  note Suc.IH [OF this]
  ultimately show ?case
    using Suc.prems(2,3) by (auto simp: node_Next_SetNext le_less_Suc_eq not_less_eq_eq)
qed auto

lemma RandomHeight_loop_bounds:
  "1 \<le> h \<Longrightarrow> h \<le> kMaxHeight \<Longrightarrow>
     1 \<le> fst (RandomHeight_loop h rnd) \<and> fst (RandomHeight_loop h rnd) \<le> kMaxHeight"
proof (induction h rnd rule: RandomHeight_loop.induct)
  case (1 h rnd)
  then show ?case by (subst (1 2) RandomHeight_loop.simps) (simp add: Let_def)
qed

lemma RandomHeight_bounds: "1 \<le> fst (RandomHeight rnd) \<and> fst (RandomHeight rnd) \<le> kMaxHeight"
  unfolding RandomHeight_def by (rule RandomHeight_loop_bounds) (simp_all add: kMaxHeight_def)

lemma fold_set_head:
  "length (fold (\<lambda>i p. p[i := head_node]) [m ..< n] p) = length p \<and>
   (j < length p \<longrightarrow> fold (\<lambda>i p. p[i := head_node]) [m ..< n] p ! j = (if m \<le> j \<and> j < n then head_node else p ! j))"
  by (induction n) (auto simp: nth_list_update le_Suc_eq less_Suc_eq)

lemma predecessor_in: "predecessor nodes A i \<in> insert head_node (set A)"
  using last_in_set [of "head_node # at_level nodes i A"] by (auto simp: predecessor_def set_at_level)

lemma predecessor_tower:
  "i < tower nodes head_node \<Longrightarrow> i < tower nodes (predecessor nodes A i)"
  using last_in_set [of "head_node # at_level nodes i A"] by (auto simp: predecessor_def set_at_level)

text \<open>The links after an insertion, level by level.\<close>

lemma skiplist_of_insert:
  assumes wf: "skiplist_of s xs" and xs: "xs = A @ B"
    and h: "1 \<le> h" "h \<le> kMaxHeight"
    and prev: "\<forall>i < h. prev ! i = predecessor (sl_nodes s) A i"
    and n: "n = length (sl_nodes s)"
    and s': "s' = \<lparr>sl_nodes = link_levels h 0 n prev (snd (NewNode key h (sl_nodes s))),
      sl_max_height = max h (sl_max_height s), sl_rnd = rnd\<rparr>"
  shows "skiplist_of s' (A @ n # B) \<and> keys_of s' (A @ n # B) = keys_of s A @ key # keys_of s B"
proof -
  let ?old = "sl_nodes s"
  let ?new = "snd (NewNode key h ?old)" let ?nodes = "sl_nodes s'"
  have nodes: "?new = ?old @ [\<lparr>node_key = key, next_links = replicate h None\<rparr>]" "?nodes = link_levels h 0 n prev ?new"
    by (simp_all add: NewNode_def s')
  have shape: "?old \<noteq> []" "tower ?old head_node = kMaxHeight" "1 \<le> sl_max_height s" "sl_max_height s \<le> kMaxHeight"
    "distinct xs" "set xs = {1 ..< n}" "\<forall>n \<in> set xs. 1 \<le> tower ?old n \<and> tower ?old n \<le> sl_max_height s"
    "\<forall>i < kMaxHeight. chain (\<lambda>x. node_Next ?old x i) head_node (at_level ?old i xs)"
    using wf unfolding skiplist_of_def Let_def n by blast+
  have inside: "y < n" if "y \<in> insert head_node (set xs)" for y
    using that shape(1,6) n by (auto simp: head_node_def)
  have grow: "tower ?new y = tower ?old y" "key_of ?new y = key_of ?old y" "node_Next ?new y j = node_Next ?old y j"
    if "y < n" for y j
    using that by (simp_all add: nodes tower_def key_of_def node_Next_def nth_append n)
  have n_new: "tower ?new n = h" "key_of ?new n = key" "length ?new = n + 1"
    by (simp_all add: nodes tower_def key_of_def n)
  have pred: "predecessor ?old A j < n" for j
    using predecessor_in [of ?old A j] inside xs by auto
  have "\<forall>j. 0 \<le> j \<and> j < 0 + h \<longrightarrow> prev ! j < length ?new \<and> j < tower ?new (prev ! j) \<and> prev ! j \<noteq> n"
    using prev pred predecessor_tower [of _ ?old A] shape(2) h(2) by (auto simp: n_new grow less_Suc_eq)
  note effect = link_levels_effect [OF this]
  have eff: "length ?nodes = n + 1" "tower ?nodes y = tower ?new y" "key_of ?nodes y = key_of ?new y"
    "node_Next ?nodes y j =
      (if j < h then if y = n then node_Next ?new (prev ! j) j
                     else if y = prev ! j then Some n else node_Next ?new y j
       else node_Next ?new y j)" for y j
    using effect [of y j] n_new unfolding nodes(2) by simp_all
  have levels: "at_level ?nodes i ys = at_level ?old i ys" if "set ys \<subseteq> set xs" for i ys
    unfolding at_level_def using that inside by (intro filter_cong) (auto simp: eff grow)
  have A: "set A \<subseteq> set xs" "set B \<subseteq> set xs" using xs by auto
  have "chain (\<lambda>x. node_Next ?nodes x i) head_node (at_level ?nodes i (A @ n # B))" if "i < kMaxHeight" for i
  proof (cases "i < h")
    case True
    have old: "chain (\<lambda>x. node_Next ?old x i) head_node (at_level ?old i A @ at_level ?old i B)"
      using shape(8) that xs by simp
    have in_xs: "set (at_level ?old i A @ at_level ?old i B) \<subseteq> set xs" using A by (auto simp: set_at_level)
    have "distinct (at_level ?old i xs)" using shape(5) by (simp add: at_level_def)
    then have d: "distinct (head_node # at_level ?old i A @ at_level ?old i B)"
      using in_xs shape(6) xs by (auto simp: head_node_def)
    have p: "last (head_node # at_level ?old i A) = predecessor ?old A i" by (simp add: predecessor_def)
    have "chain (\<lambda>x. node_Next ?nodes x i) head_node (at_level ?old i A @ n # at_level ?old i B)"
    proof (rule chain_insert [OF old d])
      show "n \<notin> set (head_node # at_level ?old i A @ at_level ?old i B)" using in_xs inside by fastforce
      show "node_Next ?nodes n i = node_Next ?old (last (head_node # at_level ?old i A)) i"
        unfolding p using True prev pred by (simp add: eff grow)
      show "node_Next ?nodes (last (head_node # at_level ?old i A)) i = Some n"
        unfolding p using True prev pred [of i] by (simp add: eff)
      show "node_Next ?nodes y i = node_Next ?old y i"
        if "y \<in> set (head_node # at_level ?old i A @ at_level ?old i B)"
          and "y \<noteq> last (head_node # at_level ?old i A)" for y
      proof -
        have "y < n" using that(1) in_xs by (intro inside) auto
        then show ?thesis using that(2) True prev unfolding p by (simp add: eff grow)
      qed
    qed
    then show ?thesis using True A by (simp add: levels eff n_new)
  next
    case False
    then have "at_level ?nodes i (A @ n # B) = at_level ?old i xs"
      using A by (simp add: levels eff n_new xs)
    moreover have "chain (\<lambda>x. node_Next ?nodes x i) head_node (at_level ?old i xs) \<longleftrightarrow>
        chain (\<lambda>x. node_Next ?old x i) head_node (at_level ?old i xs)"
      using False inside by (intro chain_cong) (auto simp: eff grow set_at_level)
    ultimately show ?thesis using shape(8) that by simp
  qed
  then have "\<forall>i < kMaxHeight. chain (\<lambda>x. node_Next ?nodes x i) head_node (at_level ?nodes i (A @ n # B))"
    by blast
  moreover have same: "tower ?nodes y = tower ?old y" "key_of ?nodes y = key_of ?old y"
    if "y \<in> insert head_node (set xs)" for y
    using inside [OF that] by (simp_all add: eff grow)
  have mh: "sl_max_height s' = max h (sl_max_height s)" by (simp add: s')
  have "\<forall>y \<in> set (A @ n # B). 1 \<le> tower ?nodes y \<and> tower ?nodes y \<le> sl_max_height s'"
    using shape(7) h(1) A same by (auto simp: eff n_new xs le_max_iff_disj mh)
  moreover have "1 \<le> n" using shape(1) by (simp add: n Suc_le_eq)
  then have "{1 ..< length ?nodes} = insert n {1 ..< n}" unfolding eff(1) by auto
  then have "set (A @ n # B) = {1 ..< length ?nodes}"
    unfolding shape(6) [symmetric] xs by simp
  moreover have "distinct (A @ n # B)" using shape(5,6) xs by auto
  moreover have "?nodes \<noteq> []" using eff(1) by auto
  moreover have "tower ?nodes head_node = kMaxHeight" using same(1) shape(2) by simp
  moreover have "1 \<le> sl_max_height s'" "sl_max_height s' \<le> kMaxHeight" using shape(3,4) h by (simp_all add: s')
  ultimately have "skiplist_of s' (A @ n # B)" unfolding skiplist_of_def Let_def by blast
  moreover have "keys_of s' (A @ n # B) = keys_of s A @ key # keys_of s B"
    using A same(2) by (auto simp: keys_of_def eff n_new)
  ultimately show ?thesis ..
qed

subsection \<open>Sorted lists of keys\<close>

text \<open>A skip list stands for a list of keys in order.\<close>

definition represents :: "('k \<Rightarrow> bool) \<Rightarrow> ('k \<Rightarrow> 'k \<Rightarrow> int) \<Rightarrow> 'k SkipList \<Rightarrow> nat list \<Rightarrow> bool" where
  "represents valid cmp s xs \<longleftrightarrow>
     skiplist_of s xs \<and> ascending cmp (keys_of s xs) \<and> (\<forall>k \<in> set (keys_of s xs). valid k)"

text \<open>An iterator at position \<open>i\<close> of the list, at its end when it is not valid.\<close>

definition iter_at :: "nat list \<Rightarrow> sl_Iterator \<Rightarrow> nat \<Rightarrow> bool" where
  "iter_at xs it i \<longleftrightarrow> i \<le> length xs \<and> it = first_of (drop i xs)"

lemma iter_at_less: "iter_at xs it i \<Longrightarrow> i < length xs \<Longrightarrow> it = Some (xs ! i)"
  by (simp add: iter_at_def)

lemma iter_at_end: "iter_at xs it (length xs) \<longleftrightarrow> it = None"
  by (simp add: iter_at_def)

lemma iter_at_Valid: "iter_at xs it i \<Longrightarrow> sl_Valid it \<longleftrightarrow> i < length xs"
  by (cases "i < length xs") (auto simp: sl_Valid_def iter_at_def)

lemma iter_at_key: "iter_at xs it i \<Longrightarrow> i < length xs \<Longrightarrow> sl_key s it = keys_of s xs ! i"
  by (drule (1) iter_at_less) (simp add: sl_key_def keys_of_def)

lemma length_keys_of [simp]: "length (keys_of s xs) = length xs"
  by (simp add: keys_of_def)

lemma keys_of_Nil [simp]: "keys_of s [] = []"
  by (simp add: keys_of_def)

lemma head_not_in: "skiplist_of s xs \<Longrightarrow> head_node \<notin> set xs"
  by (auto simp: skiplist_of_def Let_def head_node_def)

lemma skiplist_of_mk: "skiplist_of (mk_SkipList k) []"
  by (simp add: skiplist_of_def mk_SkipList_def NewNode_def tower_def head_node_def kMaxHeight_def node_Next_def)

lemma represents_mk: "represents valid cmp (mk_SkipList k) []"
  by (simp add: represents_def skiplist_of_mk ascending_def keys_of_def)

lemma sl_SeekToFirst_at: "skiplist_of s xs \<Longrightarrow> iter_at xs (sl_SeekToFirst s) 0"
  using skiplist_of_Next [of s xs "[]" xs 0] skiplist_of_start [of s xs]
  by (auto simp: iter_at_def sl_SeekToFirst_def at_level_0 kMaxHeight_def dest: less_imp_le)

lemma sl_Next_at:
  assumes "skiplist_of s xs" "iter_at xs it i" "i < length xs"
  shows "iter_at xs (sl_Next s it) (i + 1)"
proof -
  have xs: "xs = take (Suc i) xs @ drop (Suc i) xs" by simp
  have last: "last (head_node # take (Suc i) xs) = xs ! i"
    using assms(3) by (simp add: take_Suc_conv_app_nth)
  have "0 < tower (sl_nodes s) (xs ! i)"
    using assms(1,3) nth_mem [of i xs] unfolding skiplist_of_def Let_def by fastforce
  with skiplist_of_Next [OF assms(1) xs, of 0]
  have "node_Next (sl_nodes s) (xs ! i) 0 = first_of (at_level (sl_nodes s) 0 (drop (Suc i) xs))"
    unfolding last by (simp add: kMaxHeight_def)
  also have "at_level (sl_nodes s) 0 (drop (Suc i) xs) = drop (Suc i) xs"
    by (rule at_level_0 [OF assms(1)]) (rule set_drop_subset)
  finally show ?thesis
    using assms(3) iter_at_less [OF assms(2,3)] by (simp add: iter_at_def sl_Next_def)
qed

lemma last_or_head: "last (head_node # ys) = (if ys = [] then head_node else last ys)"
  by simp

lemma sl_SeekToLast_at:
  assumes "skiplist_of s xs"
  shows "\<exists>it. sl_SeekToLast s = Some it \<and> iter_at xs it (length xs - 1)"
  using find_last_spec [OF assms] head_not_in [OF assms]
  by (cases xs rule: rev_cases) (auto simp: sl_SeekToLast_def iter_at_def)

context key_order
begin

lemma split_at_key:
  assumes "represents valid cmp s xs" "valid key"
    and "A = takeWhile (\<lambda>a. cmp (key_of (sl_nodes s) a) key < 0) xs"
    and "B = dropWhile (\<lambda>a. cmp (key_of (sl_nodes s) a) key < 0) xs"
  shows "xs = A @ B" "keys_of s A = below cmp key (keys_of s xs)" "keys_of s B = not_below cmp key (keys_of s xs)"
    "\<forall>a \<in> set A. cmp (key_of (sl_nodes s) a) key < 0" "\<forall>b \<in> set B. \<not> cmp (key_of (sl_nodes s) b) key < 0"
proof -
  show "xs = A @ B" "keys_of s A = below cmp key (keys_of s xs)"
    and B: "keys_of s B = not_below cmp key (keys_of s xs)"
    by (simp_all add: assms(3,4) keys_of_def below_def not_below_def takeWhile_map dropWhile_map comp_def)
  show "\<forall>a \<in> set A. cmp (key_of (sl_nodes s) a) key < 0" by (auto simp: assms(3) dest: set_takeWhileD)
  have "\<forall>b \<in> set (keys_of s B). \<not> cmp b key < 0"
    unfolding B using not_below_ge [OF _ _ assms(2)] assms(1) unfolding represents_def by blast
  then show "\<forall>b \<in> set B. \<not> cmp (key_of (sl_nodes s) b) key < 0" by (simp add: keys_of_def)
qed

lemma Insert_spec:
  assumes r: "represents valid cmp s xs" and key: "valid key" "\<forall>k \<in> set (keys_of s xs). cmp key k \<noteq> 0"
  shows "\<exists>s' xs'. Insert cmp key s = Some s' \<and> represents valid cmp s' xs' \<and>
    keys_of s' xs' = insert_key cmp key (keys_of s xs)"
proof -
  define A where "A = takeWhile (\<lambda>a. cmp (key_of (sl_nodes s) a) key < 0) xs"
  define B where "B = dropWhile (\<lambda>a. cmp (key_of (sl_nodes s) a) key < 0) xs"
  note split = split_at_key [OF r key(1) A_def B_def]
  have wf: "skiplist_of s xs" using r by (simp add: represents_def)
  then have max: "1 \<le> sl_max_height s" "sl_max_height s \<le> kMaxHeight"
    and low: "\<forall>n \<in> set xs. tower (sl_nodes s) n \<le> sl_max_height s"
    unfolding skiplist_of_def Let_def by blast+
  obtain h rnd where h: "RandomHeight (sl_rnd s) = (h, rnd)" by (metis surj_pair)
  with RandomHeight_bounds [of "sl_rnd s"] have h_bounds: "1 \<le> h" "h \<le> kMaxHeight" by simp_all
  define found where "found = set_predecessors (sl_nodes s) A (sl_max_height s - 1) (replicate kMaxHeight head_node)"
  define prev where "prev = (if h > sl_max_height s
    then fold (\<lambda>i prev. prev[i := head_node]) [sl_max_height s ..< h] found else found)"
  let ?s' = "\<lparr>sl_nodes = link_levels h 0 (length (sl_nodes s)) prev (snd (NewNode key h (sl_nodes s))),
    sl_max_height = max h (sl_max_height s), sl_rnd = rnd\<rparr>"
  have ins: "Insert cmp key s = Some ?s'"
    using find_ge_spec [where cmp = cmp and key = key, OF wf split(1,4,5), of "Some (replicate kMaxHeight head_node)"]
    by (simp add: Insert_def h Let_def found_def prev_def NewNode_def max_def)
  have top: "predecessor (sl_nodes s) A i = head_node" if "sl_max_height s \<le> i" for i
  proof -
    have "at_level (sl_nodes s) i A = []"
      unfolding at_level_def filter_empty_conv using low that split(1)
      by (metis Un_iff leD le_trans set_append)
    then show ?thesis by (simp add: predecessor_def)
  qed
  have found: "length found = kMaxHeight" "i < kMaxHeight \<Longrightarrow> found ! i = predecessor (sl_nodes s) A i" for i
    using max(1) top [of i] by (auto simp: found_def set_predecessors_def)
  have "\<forall>i < h. prev ! i = predecessor (sl_nodes s) A i"
    using found h_bounds(2) top by (auto simp: prev_def fold_set_head [THEN conjunct2, rule_format])
  from skiplist_of_insert [OF wf split(1) h_bounds this refl refl]
  have "skiplist_of ?s' (A @ length (sl_nodes s) # B)"
    "keys_of ?s' (A @ length (sl_nodes s) # B) = insert_key cmp key (keys_of s xs)"
    by (simp_all add: insert_key_def split(2,3))
  moreover have "ascending cmp (insert_key cmp key (keys_of s xs))"
    using ascending_insert_key r key by (simp add: represents_def)
  ultimately have "represents valid cmp ?s' (A @ length (sl_nodes s) # B)"
    using r key(1) by (simp add: represents_def)
  with ins \<open>keys_of ?s' _ = _\<close> show ?thesis by blast
qed

lemma sl_Seek_spec:
  assumes r: "represents valid cmp s xs" and key: "valid key"
  shows "\<exists>it. sl_Seek cmp s key = Some it \<and> iter_at xs it (length (below cmp key (keys_of s xs)))"
proof -
  note split = split_at_key [OF r key refl refl]
  have wf: "skiplist_of s xs" using r by (simp add: represents_def)
  have "length (below cmp key (keys_of s xs)) = length (takeWhile (\<lambda>a. cmp (key_of (sl_nodes s) a) key < 0) xs)"
    unfolding split(2) [symmetric] by simp
  then show ?thesis
    using find_ge_spec [where cmp = cmp and key = key, OF wf split(1,4,5), of None]
    by (simp add: sl_Seek_def iter_at_def length_takeWhile_le flip: dropWhile_eq_drop)
qed

lemma Contains_spec:
  assumes r: "represents valid cmp s xs" and key: "valid key"
  shows "Contains cmp s key = Some (\<exists>k \<in> set (keys_of s xs). cmp key k = 0)"
proof -
  define A where "A = takeWhile (\<lambda>a. cmp (key_of (sl_nodes s) a) key < 0) xs"
  define B where "B = dropWhile (\<lambda>a. cmp (key_of (sl_nodes s) a) key < 0) xs"
  note split = split_at_key [OF r key A_def B_def]
  have wf: "skiplist_of s xs" and keys: "\<forall>k \<in> set (keys_of s xs). valid k"
    and asc: "ascending cmp (keys_of s (A @ B))"
    using r split(1) by (simp_all add: represents_def)
  have A: "cmp key k \<noteq> 0" if "k \<in> set (keys_of s A)" for k
    using that split(1,4) keys key compare_eq_sym [of key k] by (fastforce simp: keys_of_def)
  have "(\<exists>k \<in> set (keys_of s xs). cmp key k = 0) \<longleftrightarrow> (\<exists>k \<in> set (keys_of s B). cmp key k = 0)"
    using A by (auto simp: split(1) keys_of_def)
  also have "\<dots> \<longleftrightarrow> (case first_of B of None \<Rightarrow> False | Some x \<Rightarrow> cmp key (key_of (sl_nodes s) x) = 0)"
  proof (cases B)
    case (Cons b B')
    let ?b = "key_of (sl_nodes s) b"
    have b: "valid ?b" "cmp key ?b \<le> 0"
      using keys key split(1,5) Cons compare_not_less [of ?b key] by (auto simp: keys_of_def)
    have "\<forall>k \<in> set (keys_of s B'). cmp key k < 0"
    proof
      fix k
      assume "k \<in> set (keys_of s B')"
      then have "cmp ?b k < 0" "valid k"
        using asc keys split(1) by (auto simp: Cons ascending_def keys_of_def sorted_wrt_append)
      then show "cmp key k < 0" using compare_less_trans [OF key b(1) _ b(2)] by blast
    qed
    then show ?thesis by (auto simp: Cons keys_of_def)
  qed (simp add: keys_of_def)
  finally show ?thesis using find_ge_spec [where cmp = cmp and key = key, OF wf split(1,4,5), of None] by (simp add: Contains_def)
qed

lemma sl_Prev_at:
  assumes r: "represents valid cmp s xs" and it: "iter_at xs it i" "i < length xs"
  shows "\<exists>it'. sl_Prev cmp s it = Some it' \<and> (if i = 0 then it' = None else iter_at xs it' (i - 1))"
proof -
  let ?key = "keys_of s xs ! i"
  have wf: "skiplist_of s xs" using r by (simp add: represents_def)
  have key: "sl_key s it = ?key" "valid ?key"
    using iter_at_key [OF it] it(2) r by (simp_all add: represents_def)
  have asc: "cmp (keys_of s xs ! a) (keys_of s xs ! b) < 0" if "a < b" "b < length xs" for a b
    using r that by (simp add: represents_def ascending_def sorted_wrt_iff_nth_less)
  have nth: "key_of (sl_nodes s) (xs ! j) = keys_of s xs ! j" if "j < length xs" for j
    using that by (simp add: keys_of_def)
  have "\<forall>a \<in> set (take i xs). cmp (key_of (sl_nodes s) a) ?key < 0"
    using asc it(2) nth by (auto simp: in_set_conv_nth)
  moreover have "\<not> cmp (keys_of s xs ! j) ?key < 0" if "i \<le> j" "j < length xs" for j
    using that asc [of i j] key(2) r compare_sym [of "keys_of s xs ! j" ?key] compare_refl [OF key(2)]
    by (cases "i = j") (auto simp: represents_def)
  then have "\<forall>b \<in> set (drop i xs). \<not> cmp (key_of (sl_nodes s) b) ?key < 0"
    using nth by (auto simp: in_set_conv_nth)
  ultimately have "FindLessThan cmp s ?key = Some (last (head_node # take i xs))"
    using find_less_spec [OF wf, of "take i xs" "drop i xs"] by simp
  moreover have "last (take i xs) = xs ! (i - 1) \<and> xs ! (i - 1) \<noteq> head_node" if "i \<noteq> 0"
  proof -
    have "xs ! (i - 1) \<in> set xs" using that it(2) by (intro nth_mem) linarith
    then have "xs ! (i - 1) \<noteq> head_node" using head_not_in [OF wf] by metis
    moreover have "take i xs \<noteq> []" using that it(2) by auto
    ultimately show ?thesis using that it(2) by (simp add: last_conv_nth)
  qed
  ultimately show ?thesis
    using it(2)
    by (cases "i = 0") (auto simp: sl_Prev_def key(1) iter_at_def)
qed

end

subsection \<open>Whole lists\<close>

primrec insert_all :: "('k \<Rightarrow> 'k \<Rightarrow> int) \<Rightarrow> 'k list \<Rightarrow> 'k SkipList \<Rightarrow> 'k SkipList option" where
  "insert_all cmp [] s = Some s"
| "insert_all cmp (k # ks) s =
     (case Insert cmp k s of None \<Rightarrow> None | Some s \<Rightarrow> insert_all cmp ks s)"

text \<open>The keys an iterator passes in at most \<open>n\<close> moves.\<close>

primrec walk_next :: "nat \<Rightarrow> 'k SkipList \<Rightarrow> sl_Iterator \<Rightarrow> 'k list" where
  "walk_next 0 s it = []"
| "walk_next (Suc n) s it = (if sl_Valid it then sl_key s it # walk_next n s (sl_Next s it) else [])"

primrec walk_prev :: "('k \<Rightarrow> 'k \<Rightarrow> int) \<Rightarrow> nat \<Rightarrow> 'k SkipList \<Rightarrow> sl_Iterator option \<Rightarrow> 'k list" where
  "walk_prev cmp 0 s it = []"
| "walk_prev cmp (Suc n) s it =
     (case it of
        None \<Rightarrow> []
      | Some it \<Rightarrow> if sl_Valid it then sl_key s it # walk_prev cmp n s (sl_Prev cmp s it) else [])"

definition pairwise_unequal :: "('k \<Rightarrow> 'k \<Rightarrow> int) \<Rightarrow> 'k list \<Rightarrow> bool" where
  "pairwise_unequal cmp ks = sorted_wrt (\<lambda>a b. cmp b a \<noteq> 0) ks"

lemma mset_insert_key [simp]: "mset (insert_key cmp k ks) = add_mset k (mset ks)"
  by (subst (2) below_not_below [symmetric, of ks cmp k]) (simp only: mset_append insert_key_def, simp)

lemma walk_next_at:
  "skiplist_of s xs \<Longrightarrow> iter_at xs it i \<Longrightarrow> length xs < i + n \<Longrightarrow> walk_next n s it = drop i (keys_of s xs)"
proof (induction n arbitrary: it i)
  case 0
  then show ?case by (simp add: iter_at_def)
next
  case (Suc n)
  show ?case
  proof (cases "i < length xs")
    case True
    have "walk_next n s (sl_Next s it) = drop (i + 1) (keys_of s xs)"
      by (rule Suc.IH [OF Suc.prems(1) sl_Next_at]) (use Suc.prems True in simp_all)
    then show ?thesis
      using True iter_at_key [OF Suc.prems(2) True, of s] iter_at_Valid [OF Suc.prems(2)]
        Cons_nth_drop_Suc [of i "keys_of s xs"] by simp
  next
    case False
    then show ?thesis using Suc.prems(2) iter_at_Valid [OF Suc.prems(2)] by simp
  qed
qed

context key_order
begin

lemma walk_prev_at:
  "represents valid cmp s xs \<Longrightarrow> iter_at xs it i \<Longrightarrow> i < length xs \<Longrightarrow> i + 1 < n \<Longrightarrow>
     walk_prev cmp n s (Some it) = rev (take (i + 1) (keys_of s xs))"
proof (induction n arbitrary: it i)
  case (Suc n)
  obtain it' where it': "sl_Prev cmp s it = Some it'" "if i = 0 then it' = None else iter_at xs it' (i - 1)"
    using sl_Prev_at [OF Suc.prems(1-3)] by blast
  have "walk_prev cmp n s (Some it') = rev (take i (keys_of s xs))"
  proof (cases i)
    case 0
    then show ?thesis using it'(2) Suc.prems(4) by (cases n) (simp_all add: sl_Valid_def)
  next
    case (Suc j)
    then show ?thesis using Suc.IH [OF Suc.prems(1), of it' j] it'(2) Suc.prems by simp
  qed
  then show ?case
    using it'(1) iter_at_key [OF Suc.prems(2,3), of s] iter_at_Valid [OF Suc.prems(2)] Suc.prems(3)
    by (simp add: take_Suc_conv_app_nth)
qed simp

lemma insert_all_spec:
  assumes "represents valid cmp s xs" "\<forall>k \<in> set ks. valid k" "pairwise_unequal cmp ks"
    and "\<forall>k \<in> set ks. \<forall>a \<in> set (keys_of s xs). cmp k a \<noteq> 0"
  shows "\<exists>s' xs'. insert_all cmp ks s = Some s' \<and> represents valid cmp s' xs' \<and>
    keys_of s' xs' = fold (insert_key cmp) ks (keys_of s xs)"
  using assms
proof (induction ks arbitrary: s xs)
  case (Cons k ks)
  obtain s1 xs1 where 1: "Insert cmp k s = Some s1" "represents valid cmp s1 xs1"
    "keys_of s1 xs1 = insert_key cmp k (keys_of s xs)"
    using Insert_spec [OF Cons.prems(1), of k] Cons.prems by auto
  have "\<exists>s' xs'. insert_all cmp ks s1 = Some s' \<and> represents valid cmp s' xs' \<and>
      keys_of s' xs' = fold (insert_key cmp) ks (keys_of s1 xs1)"
    by (rule Cons.IH [OF 1(2)]) (use Cons.prems 1(3) in \<open>auto simp: pairwise_unequal_def\<close>)
  then show ?case using 1 by simp
qed auto

lemma mset_fold_insert_key: "mset (fold (insert_key cmp) ks ys) = mset ks + mset ys"
  by (induction ks arbitrary: ys) simp_all

lemma insert_all_observed:
  assumes "\<forall>k \<in> set ks. valid k" "pairwise_unequal cmp ks"
  shows "\<exists>s ys. insert_all cmp ks (mk_SkipList any_key) = Some s \<and> mset ys = mset ks \<and> ascending cmp ys \<and>
    walk_next (length ks + 1) s (sl_SeekToFirst s) = ys \<and>
    walk_prev cmp (length ks + 1) s (sl_SeekToLast s) = rev ys \<and>
    (\<forall>k. valid k \<longrightarrow> Contains cmp s k = Some (\<exists>a \<in> set ks. cmp k a = 0))"
proof -
  obtain s xs where s: "insert_all cmp ks (mk_SkipList any_key) = Some s" "represents valid cmp s xs"
    "keys_of s xs = fold (insert_key cmp) ks []"
    using insert_all_spec [OF represents_mk assms, of any_key] by (simp, blast)
  then have m: "mset (keys_of s xs) = mset ks" by (simp add: mset_fold_insert_key)
  then have len: "length xs = length ks" by (metis length_keys_of size_mset)
  have wf: "skiplist_of s xs" and asc: "ascending cmp (keys_of s xs)" using s(2) by (simp_all add: represents_def)
  obtain it where it: "sl_SeekToLast s = Some it" "iter_at xs it (length xs - 1)"
    using sl_SeekToLast_at [OF wf] by blast
  have "walk_next (length ks + 1) s (sl_SeekToFirst s) = keys_of s xs"
    using walk_next_at [OF wf sl_SeekToFirst_at [OF wf], of "length ks + 1"] len by simp
  moreover have "walk_prev cmp (length ks + 1) s (Some it) = rev (keys_of s xs)"
  proof (cases "xs = []")
    case True
    then show ?thesis using it(2) len by (simp add: iter_at_def sl_Valid_def keys_of_def)
  next
    case False
    then show ?thesis
      using walk_prev_at [OF s(2) it(2), of "length ks + 1"] len by (cases xs) simp_all
  qed
  moreover have "set ks = set (keys_of s xs)" using m by (metis set_mset_mset)
  then have "\<forall>k. valid k \<longrightarrow> Contains cmp s k = Some (\<exists>a \<in> set ks. cmp k a = 0)"
    using Contains_spec [OF s(2)] by simp
  ultimately show ?thesis
    using s(1) m asc it(1) by (intro exI [of _ s] exI [of _ "keys_of s xs"]) simp
qed

end

subsection \<open>Properties\<close>

text \<open>C32: Inserting keys that differ pairwise into an empty skip list succeeds whatever heights the random
  numbers give, every search ends, and the list is then the keys in order: forward iteration from
  the first and backward iteration from the last pass through all of them and stop, and
  \<^verbatim>\<open>Contains\<close> answers whether some key compares equal.\<close>

theorem skiplist_keeps_order:
  assumes "key_order valid cmp" "\<forall>k \<in> set ks. valid k" "pairwise_unequal cmp ks"
  shows "\<exists>s ys. insert_all cmp ks (mk_SkipList any_key) = Some s \<and> mset ys = mset ks \<and> ascending cmp ys \<and>
    walk_next (length ks + 1) s (sl_SeekToFirst s) = ys \<and>
    walk_prev cmp (length ks + 1) s (sl_SeekToLast s) = rev ys \<and>
    (\<forall>k. valid k \<longrightarrow> Contains cmp s k = Some (\<exists>a \<in> set ks. cmp k a = 0))"
  by (rule key_order.insert_all_observed [OF assms])

lemma skiplist_keeps_order_witness:
  "\<exists>s ys. insert_all (\<lambda>a b. a - b) [3, 1, 2 :: int] (mk_SkipList 0) = Some s \<and> mset ys = mset [3, 1, 2] \<and>
     walk_next (length [3, 1, 2 :: int] + 1) s (sl_SeekToFirst s) = ys"
proof -
  have k: "key_order (\<lambda>_. True) (\<lambda>a b. a - b :: int)" by unfold_locales auto
  have "pairwise_unequal (\<lambda>a b. a - b) [3, 1, 2 :: int]" by (simp add: pairwise_unequal_def)
  from skiplist_keeps_order [OF k _ this, of 0] show ?thesis by blast
qed

end
