(* ===== verification/Ldb_Memtable_Correct.thy ===== *)
theory Ldb_Memtable_Correct
  imports Ldb_Memtable Ldb_Skiplist_Correct Ldb_Dbformat_Correct
begin

unbundle bit_operations_syntax

text \<open>
  A lookup in the memory table returns the newest entry for the user key that the snapshot sees:
  entries are in the order of their internal keys, the skip list finds the first that is not
  below the lookup key, and that one is it.
\<close>

subsection \<open>Entries\<close>

definition mem_entry :: "SequenceNumber \<Rightarrow> ValueType \<Rightarrow> slice \<Rightarrow> slice \<Rightarrow> byte list" where
  "mem_entry s t k v =
     PutLengthPrefixedSlice [] (mk_InternalKey k s t) @ PutLengthPrefixedSlice [] v"

lemma EncodeVarint32_take_5:
  "GetVarint32Ptr (take 5 (EncodeVarint32 n @ bs)) = Some (n, take (5 - length (EncodeVarint32 n)) bs)"
  "length (take 5 (EncodeVarint32 n @ bs)) - length (take (5 - length (EncodeVarint32 n)) bs) =
     length (EncodeVarint32 n)"
proof -
  have "length (EncodeVarint32 n) \<le> 5" by (simp add: EncodeVarint32_eq length_varint_bytes_u32)
  then show "GetVarint32Ptr (take 5 (EncodeVarint32 n @ bs)) = Some (n, take (5 - length (EncodeVarint32 n)) bs)"
    "length (take 5 (EncodeVarint32 n @ bs)) - length (take (5 - length (EncodeVarint32 n)) bs) =
      length (EncodeVarint32 n)"
    by simp_all
qed

lemma prefixed_slice_at_Put [simp]:
  "short_slice k \<Longrightarrow> prefixed_slice_at (PutLengthPrefixedSlice [] k @ r) = (k, r)"
  using EncodeVarint32_take_5 [of "of_nat (length k)" "k @ r"]
  by (simp add: prefixed_slice_at_def PutLengthPrefixedSlice_def PutVarint32_def Let_def short_slice_def
      unat_of_nat_small del: length_take)

lemma prefixed_slice_at_Put_exact [simp]:
  "short_slice k \<Longrightarrow> prefixed_slice_at (PutLengthPrefixedSlice [] k) = (k, [])"
  using prefixed_slice_at_Put [of k "[]"] by simp

lemma length_mk_InternalKey [simp]: "length (mk_InternalKey k s t) = length k + 8"
  by (simp add: mk_InternalKey_eq)

lemma ExtractUserKey_mk [simp]: "ExtractUserKey (mk_InternalKey k s t) = k"
  by (simp add: mk_InternalKey_eq)

definition short_key :: "slice \<Rightarrow> bool" where
  "short_key k = (length k + 8 < 2 ^ 32)"

lemma short_key_slice: "short_key k \<Longrightarrow> short_slice (mk_InternalKey k s t)"
  by (simp add: short_key_def short_slice_def)

lemma prefixed_slice_at_entry [simp]:
  "short_key k \<Longrightarrow> prefixed_slice_at (mem_entry s t k v) = (mk_InternalKey k s t, PutLengthPrefixedSlice [] v)"
  by (simp add: mem_entry_def short_key_slice)

lemma mem_Add_eq:
  "mem_Add s t k v m =
     map_option (\<lambda>table. m\<lparr>mt_table := table\<rparr>)
       (Insert (mem_KeyComparator (mt_comparator m)) (mem_entry s t k v) (mt_table m))"
  by (simp add: mem_Add_def mem_entry_def Let_def PutLengthPrefixedSlice_def PutVarint32_def mk_InternalKey_eq
      PutFixed64_def PackSequenceAndType_def)

subsection \<open>The order of entries\<close>

lemma key_order_pullback:
  assumes "key_order valid cmp"
  shows "key_order (\<lambda>x. valid (f x)) (\<lambda>x y. cmp (f x) (f y))"
proof -
  from assms show ?thesis unfolding key_order_def by blast
qed

sublocale internal_comparator \<subseteq> entries: key_order
  "\<lambda>e. 8 \<le> length (fst (prefixed_slice_at e)) \<and> valid (ExtractUserKey (fst (prefixed_slice_at e)))"
  "mem_KeyComparator cmp"
proof -
  have c: "mem_KeyComparator cmp =
      (\<lambda>a b. Compare (InternalKeyComparator cmp) (fst (prefixed_slice_at a)) (fst (prefixed_slice_at b)))"
    by (intro ext) (simp add: mem_KeyComparator_def)
  show "key_order (\<lambda>e. 8 \<le> length (fst (prefixed_slice_at e)) \<and> valid (ExtractUserKey (fst (prefixed_slice_at e))))
      (mem_KeyComparator cmp)"
    unfolding c by (rule key_order_pullback [OF internal.key_order_axioms])
qed

context key_order
begin

lemma seek_least:
  assumes r: "represents valid cmp s xs" and key: "valid key"
    and seek: "sl_Seek cmp s key = Some it"
  shows "if sl_Valid it
    then sl_key s it \<in> set (keys_of s xs) \<and> \<not> cmp (sl_key s it) key < 0 \<and>
      (\<forall>k \<in> set (keys_of s xs). \<not> cmp k key < 0 \<longrightarrow> cmp (sl_key s it) k \<le> 0)
    else \<forall>k \<in> set (keys_of s xs). cmp k key < 0"
proof -
  let ?ks = "keys_of s xs"
  let ?A = "below cmp key ?ks" and ?B = "not_below cmp key ?ks"
  have asc: "ascending cmp ?ks" and valid: "\<forall>k \<in> set ?ks. valid k" using r by (simp_all add: represents_def)
  have ks: "?A @ ?B = ?ks" by simp
  have at: "iter_at xs it (length ?A)" using sl_Seek_spec [OF r key] seek by auto
  have len: "length xs = length ?A + length ?B" by (metis ks length_append length_keys_of)
  show ?thesis
  proof (cases ?B)
    case Nil
    then have "\<not> sl_Valid it" using iter_at_Valid [OF at] len by simp
    moreover have "?ks = ?A" using ks Nil by simp
    ultimately show ?thesis using below_less [of _ cmp key ?ks] by auto
  next
    case (Cons b B)
    then have less: "length ?A < length xs" using len by simp
    have "?ks ! length ?A = b" using Cons ks by (metis nth_append_length)
    then have it: "sl_Valid it" "sl_key s it = b"
      using iter_at_Valid [OF at] iter_at_key [OF at less, of s] less by simp_all
    have b: "b \<in> set ?ks" "\<not> cmp b key < 0"
      using Cons set_not_below [of b cmp key ?ks] not_below_ge [OF asc valid key, of b] by simp_all
    have "cmp b k \<le> 0" if "k \<in> set ?ks" "\<not> cmp k key < 0" for k
    proof -
      have "k \<notin> set ?A" using that(2) by (auto dest: below_less)
      then have "k \<in> set ?B" using that(1) ks by (metis Un_iff set_append)
      moreover have "sorted_wrt (\<lambda>a b. cmp a b < 0) (?A @ ?B)" using asc ks by (simp add: ascending_def)
      ultimately show ?thesis
        using compare_refl [of b] b(1) valid by (auto simp: Cons sorted_wrt_append)
    qed
    then show ?thesis using it b by simp
  qed
qed

end

subsection \<open>Lookups\<close>

type_synonym addition = "SequenceNumber \<times> ValueType \<times> slice \<times> slice"

definition good_addition :: "addition \<Rightarrow> bool" where
  "good_addition a =
     (case a of (s, t, k, v) \<Rightarrow> s \<le> kMaxSequenceNumber \<and> t \<le> kTypeValue \<and> short_key k \<and> short_slice v)"

definition entry_of :: "addition \<Rightarrow> byte list" where
  "entry_of a = (case a of (s, t, k, v) \<Rightarrow> mem_entry s t k v)"

primrec add_all :: "addition list \<Rightarrow> MemTable \<Rightarrow> MemTable option" where
  "add_all [] m = Some m"
| "add_all (a # as) m =
     (case a of (s, t, k, v) \<Rightarrow>
        (case mem_Add s t k v m of None \<Rightarrow> None | Some m \<Rightarrow> add_all as m))"

lemma add_all_eq:
  "add_all as m =
     map_option (\<lambda>table. m\<lparr>mt_table := table\<rparr>)
       (insert_all (mem_KeyComparator (mt_comparator m)) (map entry_of as) (mt_table m))"
proof (induction as arbitrary: m)
  case (Cons a as)
  obtain s t k v where a: "a = (s, t, k, v)" by (metis prod_cases4)
  then show ?case
    using Cons.IH by (auto simp: mem_Add_eq entry_of_def option.map_comp comp_def split: option.split)
qed simp

text \<open>The entry a snapshot sees: for the key, not after the snapshot, and newer than all such others.\<close>

definition newest :: "addition list \<Rightarrow> slice \<Rightarrow> SequenceNumber \<Rightarrow> addition \<Rightarrow> bool" where
  "newest as u snap a \<longleftrightarrow>
     (case a of (s, t, k, v) \<Rightarrow> a \<in> set as \<and> k = u \<and> s \<le> snap \<and>
        (\<forall>(s', t', k', v') \<in> set as. k' = u \<and> s' \<le> snap \<longrightarrow> s' < s \<or> s' = s \<and> t' \<le> t))"

lemma mem_Compare_entries:
  assumes "good_addition (s, t, k, v)" "good_addition (s', t', k', v')"
  shows "mem_KeyComparator BytewiseComparator (mem_entry s t k v) (mem_entry s' t' k' v') =
    (if k = k' \<and> s = s' \<and> t = t' then 0
     else if k < k' \<or> k = k' \<and> (s' < s \<or> s = s' \<and> t' < t) then - 1 else 1)"
  using assms by (simp add: mem_KeyComparator_def good_addition_def internal_Compare_mk)

lemma mem_Compare_lookup:
  assumes "good_addition (s, t, k, v)" "short_key u" "snap \<le> kMaxSequenceNumber"
  shows "mem_KeyComparator BytewiseComparator (mem_entry s t k v) (memtable_key (mk_LookupKey u snap)) < 0 \<longleftrightarrow>
    k < u \<or> k = u \<and> snap < s"
  using assms
  by (auto simp: mem_KeyComparator_def good_addition_def memtable_key_mk_LookupKey short_key_slice
      internal_Compare_mk kValueTypeForSeek_def kTypeValue_def)

lemma ValueType_le: "t \<le> kTypeValue \<longleftrightarrow> t = kTypeValue \<or> t = kTypeDeletion"
proof -
  have "t \<le> kTypeValue \<longleftrightarrow> unat t \<le> 1" by (simp add: kTypeValue_def word_le_nat_alt)
  also have "\<dots> \<longleftrightarrow> unat t = 1 \<or> unat t = 0" by linarith
  finally show ?thesis by (simp add: kTypeValue_def kTypeDeletion_def word_unat_eq_iff)
qed

lemma pairwise_unequal_inj:
  assumes "pairwise_unequal cmp (map f as)" "a \<in> set as" "b \<in> set as"
    and "cmp (f a) (f b) = 0" "cmp (f b) (f a) = 0"
  shows "a = b"
  using assms by (induction as) (auto simp: pairwise_unequal_def)

text \<open>What \<^verbatim>\<open>Get\<close> does with the entry it finds.\<close>

lemma mem_Get_entry:
  assumes seek: "sl_Seek (mem_KeyComparator BytewiseComparator) (mt_table m) (memtable_key (mk_LookupKey u snap)) = Some it"
    and m: "mt_comparator m = BytewiseComparator"
    and it: "sl_Valid it" "sl_key (mt_table m) it = mem_entry s t k v" and good: "good_addition (s, t, k, v)"
  shows "mem_Get m (mk_LookupKey u snap) val st =
    Some (if k = u then if t = kTypeValue then (True, v, st) else (True, val, NotFound [] []) else (False, val, st))"
proof -
  let ?ik = "mk_InternalKey k s t"
  have s: "s \<le> kMaxSequenceNumber" and t: "t = kTypeValue \<or> t = kTypeDeletion"
    and short: "short_key k" "short_slice v"
    using good by (auto simp: good_addition_def ValueType_le)
  have small: "length k + 8 < 2 ^ LENGTH(32)" using short(1) by (simp add: short_key_def)
  then have "length k < 2 ^ LENGTH(32)" by linarith
  then have len: "unat (of_nat (length k + 8) :: u32) = length k + 8" "unat (of_nat (length k + 8) - 8 :: u32) = length k"
    using unat_of_nat_small [OF small] unat_of_nat_small [of "length k", where 'a = 32] by simp_all
  let ?rest = "?ik @ PutLengthPrefixedSlice [] v"
  have e: "mem_entry s t k v = EncodeVarint32 (of_nat (length k + 8)) @ ?rest"
    by (simp add: mem_entry_def PutLengthPrefixedSlice_def PutVarint32_def)
  have ik: "take (length k) ?rest = k" "drop (length k + 8) ?rest = PutLengthPrefixedSlice [] v"
    "DecodeFixed64 (drop (length k) ?rest) = PackSequenceAndType s t"
    by (simp_all add: mk_InternalKey_eq PutFixed64_def)
  have p: "drop (length (take 5 (mem_entry s t k v)) -
        length (take (5 - length (EncodeVarint32 (of_nat (length k + 8)))) ?rest)) (mem_entry s t k v) = ?rest"
    unfolding e EncodeVarint32_take_5(2) by simp
  have v: "GetVarint32Ptr (take 5 (mem_entry s t k v)) =
      Some (of_nat (length k + 8), take (5 - length (EncodeVarint32 (of_nat (length k + 8)))) ?rest)"
    unfolding e by (rule EncodeVarint32_take_5(1))
  show ?thesis
    unfolding mem_Get_def m seek option.map(2) it(2) v prod.case option.case Let_def p len ik Pack_parts [OF s]
      add_diff_cancel_right'
    using it(1) t short(2) by (auto simp: Compare_bytewise kTypeValue_def kTypeDeletion_def)
qed

lemma add_all_succeeds:
  assumes "\<forall>a \<in> set as. good_addition a"
    and "pairwise_unequal (mem_KeyComparator BytewiseComparator) (map entry_of as)"
  shows "\<exists>m. add_all as (mk_MemTable BytewiseComparator) = Some m"
proof -
  have "\<forall>e \<in> set (map entry_of as). 8 \<le> length (fst (prefixed_slice_at e)) \<and> any (ExtractUserKey (fst (prefixed_slice_at e)))"
    using assms(1) by (fastforce simp: good_addition_def entry_of_def any_def)
  from bytewise.entries.insert_all_spec [OF represents_mk this assms(2), of "[]"]
  show ?thesis by (auto simp: add_all_eq mk_MemTable_def)
qed

lemma mem_Get_newest:
  assumes good: "\<forall>a \<in> set as. good_addition a" and m: "add_all as (mk_MemTable BytewiseComparator) = Some m"
    and un: "pairwise_unequal (mem_KeyComparator BytewiseComparator) (map entry_of as)"
    and u: "short_key u" "snap \<le> kMaxSequenceNumber"
  shows "(\<forall>s t k v. newest as u snap (s, t, k, v) \<longrightarrow>
      mem_Get m (mk_LookupKey u snap) val st =
        Some (if t = kTypeValue then (True, v, st) else (True, val, NotFound [] []))) \<and>
    ((\<forall>(s, t, k, v) \<in> set as. k = u \<longrightarrow> snap < s) \<longrightarrow>
      mem_Get m (mk_LookupKey u snap) val st = Some (False, val, st))"
proof -
  let ?cmp = "mem_KeyComparator BytewiseComparator" let ?target = "memtable_key (mk_LookupKey u snap)"
  have valid_entry: "8 \<le> length (fst (prefixed_slice_at (entry_of a))) \<and> any (ExtractUserKey (fst (prefixed_slice_at (entry_of a))))"
    if "good_addition a" for a
    using that by (cases a) (simp add: good_addition_def entry_of_def any_def)
  have valid_target: "8 \<le> length (fst (prefixed_slice_at ?target)) \<and> any (ExtractUserKey (fst (prefixed_slice_at ?target)))"
    using u by (simp add: memtable_key_mk_LookupKey short_key_slice any_def)
  from m obtain table where table: "insert_all ?cmp (map entry_of as) (mk_SkipList []) = Some table"
    and mt: "mt_table m = table" "mt_comparator m = BytewiseComparator"
    by (auto simp: add_all_eq mk_MemTable_def)
  obtain xs where xs: "represents (\<lambda>e. 8 \<le> length (fst (prefixed_slice_at e)) \<and>
      any (ExtractUserKey (fst (prefixed_slice_at e)))) ?cmp table xs"
    "keys_of table xs = fold (insert_key ?cmp) (map entry_of as) []"
    using bytewise.entries.insert_all_spec [OF represents_mk _ un, of "[]"] good valid_entry table by auto
  have "mset (keys_of table xs) = mset (map entry_of as)"
    unfolding xs(2) by (simp add: bytewise.entries.mset_fold_insert_key)
  then have keys: "set (keys_of table xs) = entry_of ` set as" by (metis image_set set_mset_mset)
  obtain it where seek: "sl_Seek ?cmp table ?target = Some it"
    using bytewise.entries.sl_Seek_spec [OF xs(1) valid_target] by blast
  note least = bytewise.entries.seek_least [OF xs(1) valid_target seek, unfolded keys]
  have look: "?cmp (entry_of (s, t, k, v)) ?target < 0 \<longleftrightarrow> k < u \<or> k = u \<and> snap < s" if "(s, t, k, v) \<in> set as" for s t k v
    using mem_Compare_lookup [OF _ u] good that by (auto simp: entry_of_def)
  have order: "?cmp (entry_of (s, t, k, v)) (entry_of (s', t', k', v')) \<le> 0 \<longleftrightarrow>
      k < k' \<or> k = k' \<and> (s' < s \<or> s = s' \<and> t' \<le> t)" if "(s, t, k, v) \<in> set as" "(s', t', k', v') \<in> set as"
    for s t k v s' t' k' v'
    using mem_Compare_entries [of s t k v s' t' k' v'] good that by (auto simp: entry_of_def)
  show ?thesis
  proof (cases "sl_Valid it")
    case False
    then have "mem_Get m (mk_LookupKey u snap) val st = Some (False, val, st)"
      by (simp add: mem_Get_def mt seek)
    moreover have "\<not> newest as u snap a" for a
      using least False look by (cases a) (fastforce simp: newest_def not_less)
    ultimately show ?thesis by blast
  next
    case True
    with least obtain s0 t0 k0 v0 where f: "(s0, t0, k0, v0) \<in> set as" "sl_key table it = entry_of (s0, t0, k0, v0)"
      "\<not> ?cmp (entry_of (s0, t0, k0, v0)) ?target < 0"
      "\<forall>k \<in> entry_of ` set as. \<not> ?cmp k ?target < 0 \<longrightarrow> ?cmp (entry_of (s0, t0, k0, v0)) k \<le> 0"
      by (auto split: if_splits)
    have "u \<le> k0" "k0 = u \<Longrightarrow> s0 \<le> snap" using f(3) look [OF f(1)] by auto
    have get: "mem_Get m (mk_LookupKey u snap) val st =
      Some (if k0 = u then if t0 = kTypeValue then (True, v0, st) else (True, val, NotFound [] []) else (False, val, st))"
      using mem_Get_entry [of m u snap it s0 t0 k0 v0] seek mt True f(1,2) good by (simp add: entry_of_def)
    have below: "k0 < k \<or> k0 = k \<and> (s < s0 \<or> s0 = s \<and> t \<le> t0)"
      if "(s, t, k, v) \<in> set as" "\<not> (k < u \<or> k = u \<and> snap < s)" for s t k v
      using f(4) look [OF that(1)] order [OF f(1) that(1)] that by (metis imageI)
    show ?thesis
    proof (intro conjI allI impI)
      fix s t k v
      assume n: "newest as u snap (s, t, k, v)"
      then have "k0 < k \<or> k0 = k \<and> (s < s0 \<or> s0 = s \<and> t \<le> t0)" "k = u"
        using below [of s t k v] by (auto simp: newest_def)
      moreover from this have "s0 < s \<or> s0 = s \<and> t0 \<le> t" if "k0 = u"
        using n f(1) \<open>k0 = u \<Longrightarrow> s0 \<le> snap\<close> that by (fastforce simp: newest_def)
      ultimately have "k0 = u" "s0 = s" "t0 = t" using \<open>u \<le> k0\<close> by auto
      have "(s, t, k, v) \<in> set as" "k = u" using n by (auto simp: newest_def)
      moreover have "good_addition (s, t, k, v)" "good_addition (s0, t0, k0, v0)"
        using good f(1) \<open>(s, t, k, v) \<in> set as\<close> by blast+
      then have "?cmp (entry_of (s, t, k, v)) (entry_of (s0, t0, k0, v0)) = 0"
        "?cmp (entry_of (s0, t0, k0, v0)) (entry_of (s, t, k, v)) = 0"
        using mem_Compare_entries \<open>k = u\<close> \<open>k0 = u\<close> \<open>s0 = s\<close> \<open>t0 = t\<close> by (simp_all add: entry_of_def)
      ultimately have "(s, t, k, v) = (s0, t0, k0, v0)" using pairwise_unequal_inj [OF un _ f(1)] by blast
      then have same: "v0 = v" by simp
      show "mem_Get m (mk_LookupKey u snap) val st =
          Some (if t = kTypeValue then (True, v, st) else (True, val, NotFound [] []))"
        using get \<open>k0 = u\<close> \<open>t0 = t\<close> same by simp
    next
      assume "\<forall>(s, t, k, v) \<in> set as. k = u \<longrightarrow> snap < s"
      then show "mem_Get m (mk_LookupKey u snap) val st = Some (False, val, st)"
        using get f(1) \<open>k0 = u \<Longrightarrow> s0 \<le> snap\<close> by (cases "k0 = u") (auto simp: not_less)
    qed
  qed
qed

end
