(* ===== verification/Ldb_Write_Batch_Correct.thy ===== *)
theory Ldb_Write_Batch_Correct
  imports Ldb_Write_Batch Ldb_Memtable_Correct
begin

unbundle bit_operations_syntax

text \<open>
  A write batch plays back the operations put into it, in order, and once it is inserted into
  a memory table a lookup at a snapshot sees the last operation on the key up to it.
\<close>

subsection \<open>The operations of a batch\<close>

datatype batch_write = BPut slice slice | BDelete slice

fun apply_write :: "batch_write \<Rightarrow> byte list \<Rightarrow> byte list" where
  "apply_write (BPut k v) rep = wb_Put k v rep"
| "apply_write (BDelete k) rep = wb_Delete k rep"

fun run_write :: "'h Handler \<Rightarrow> batch_write \<Rightarrow> 'h \<Rightarrow> 'h" where
  "run_write handler (BPut k v) h = handler_Put handler k v h"
| "run_write handler (BDelete k) h = handler_Delete handler k h"

fun write_bytes :: "batch_write \<Rightarrow> byte list" where
  "write_bytes (BPut k v) = kTypeValue # PutLengthPrefixedSlice [] k @ PutLengthPrefixedSlice [] v"
| "write_bytes (BDelete k) = kTypeDeletion # PutLengthPrefixedSlice [] k"

fun short_write :: "batch_write \<Rightarrow> bool" where
  "short_write (BPut k v) = (short_slice k \<and> short_slice v)"
| "short_write (BDelete k) = short_slice k"

definition batch_of :: "batch_write list \<Rightarrow> byte list" where
  "batch_of ws = fold apply_write ws wb_Clear"

definition batch_rep :: "byte list \<Rightarrow> batch_write list \<Rightarrow> byte list" where
  "batch_rep seq ws = seq @ EncodeFixed32 (of_nat (length ws)) @ concat (map write_bytes ws)"

lemma PutLengthPrefixedSlice_append: "PutLengthPrefixedSlice dst k = dst @ PutLengthPrefixedSlice [] k"
  by (simp add: PutLengthPrefixedSlice_def PutVarint32_def)

lemma wb_Count_rep: "length seq = 8 \<Longrightarrow> wb_Count (batch_rep seq ws) = sint (of_nat (length ws) :: u32)"
  by (simp add: wb_Count_def batch_rep_def)

lemma wb_SetCount_rep:
  "length seq = 8 \<Longrightarrow> wb_SetCount (batch_rep seq ws) n = seq @ EncodeFixed32 (of_int n) @ concat (map write_bytes ws)"
  by (simp add: wb_SetCount_def batch_rep_def)

lemma wb_increment:
  "length seq = 8 \<Longrightarrow> wb_SetCount (batch_rep seq ws) (wb_Count (batch_rep seq ws) + 1) =
     seq @ EncodeFixed32 (of_nat (length ws + 1)) @ concat (map write_bytes ws)"
  by (simp add: wb_Count_rep wb_SetCount_rep add.commute)

lemma apply_write_rep:
  "length seq = 8 \<Longrightarrow> apply_write w (batch_rep seq ws) = batch_rep seq (ws @ [w])"
  by (cases w)
    (simp_all add: wb_Put_def wb_Delete_def wb_increment PutLengthPrefixedSlice_append [of "_ @ _"] del: of_nat_add,
      simp_all add: batch_rep_def)

lemma fold_apply_write:
  "length seq = 8 \<Longrightarrow> fold apply_write us (batch_rep seq ws) = batch_rep seq (ws @ us)"
  by (induction us arbitrary: ws) (simp_all add: apply_write_rep)

lemma batch_of_eq: "batch_of ws = batch_rep (replicate 8 0) ws"
proof -
  have "EncodeFixed32 0 = replicate 4 0" by code_simp
  then have clear: "wb_Clear = batch_rep (replicate 8 0) []"
    by (simp add: wb_Clear_def wb_kHeader_def batch_rep_def numeral_eq_Suc)
  show ?thesis
    unfolding batch_of_def clear by (simp only: fold_apply_write [OF length_replicate] append_Nil)
qed

lemma wb_SetSequence_rep:
  "length seq = 8 \<Longrightarrow> wb_SetSequence (batch_rep seq ws) s = batch_rep (EncodeFixed64 s) ws"
  by (simp add: wb_SetSequence_def batch_rep_def)

lemma wb_Append_rep:
  "length seq = 8 \<Longrightarrow> length seq' = 8 \<Longrightarrow>
     wb_Append (batch_rep seq ws) (batch_rep seq' us) = batch_rep seq (ws @ us)"
  by (simp add: wb_Append_def wb_Count_rep wb_SetCount_rep) (simp add: batch_rep_def wb_kHeader_def)

lemma iterate_loop_writes:
  "\<forall>w \<in> set ws. short_write w \<Longrightarrow>
     iterate_loop handler (concat (map write_bytes ws) @ rest) found h =
     iterate_loop handler rest (found + int (length ws)) (fold (run_write handler) ws h)"
proof (induction ws arbitrary: found h)
  case (Cons w ws)
  then show ?case
    by (cases w) (simp_all add: iterate_loop.simps(2) GetLengthPrefixedSlice_Put kTypeValue_def kTypeDeletion_def
        add.assoc add.commute [of 1])
qed simp

lemma sint_count: "n < 2 ^ 31 \<Longrightarrow> sint (of_nat n :: u32) = int n"
  by (simp add: signed_of_nat signed_take_bit_int_eq_self)

lemma wb_Iterate_rep:
  assumes "length seq = 8" "\<forall>w \<in> set ws. short_write w" "length ws < 2 ^ 31"
  shows "wb_Iterate handler (batch_rep seq ws) h = (status_OK, fold (run_write handler) ws h)"
proof -
  have "remove_prefix (batch_rep seq ws) wb_kHeader = concat (map write_bytes ws)"
    "\<not> length (batch_rep seq ws) < wb_kHeader"
    using assms(1) by (simp_all add: batch_rep_def wb_kHeader_def remove_prefix_def)
  then show ?thesis
    using assms(1) iterate_loop_writes [OF assms(2), of handler "[]" 0 h]
    by (simp add: wb_Iterate_def wb_Count_rep sint_count [OF assms(3)])
qed

subsection \<open>Insertion into a memory table\<close>

fun addition_of :: "SequenceNumber \<Rightarrow> batch_write \<Rightarrow> addition" where
  "addition_of s (BPut k v) = (s, kTypeValue, k, v)"
| "addition_of s (BDelete k) = (s, kTypeDeletion, k, [])"

definition additions :: "SequenceNumber \<Rightarrow> batch_write list \<Rightarrow> addition list" where
  "additions s ws = map (\<lambda>i. addition_of (s + of_nat i) (ws ! i)) [0..<length ws]"

lemma additions_Cons: "additions s (w # ws) = addition_of s w # additions (s + 1) ws"
  by (simp add: additions_def map_upt_Suc add.assoc add.commute [of 1] del: upt_Suc)

lemma in_additions:
  "a \<in> set (additions s ws) \<longleftrightarrow> (\<exists>i < length ws. a = addition_of (s + of_nat i) (ws ! i))"
  by (auto simp: additions_def)

lemma additions_Nil [simp]: "additions s [] = []"
  by (simp add: additions_def)

lemma inserter_steps [simp]:
  "run_write MemTableInserter w None = None"
  "handler_Put MemTableInserter k v (Some (s, m)) = map_option (\<lambda>m. (s + 1, m)) (mem_Add s kTypeValue k v m)"
  "handler_Delete MemTableInserter k (Some (s, m)) = map_option (\<lambda>m. (s + 1, m)) (mem_Add s kTypeDeletion k [] m)"
  by (cases w; simp add: MemTableInserter_def)+

lemma fold_inserter_None [simp]: "fold (run_write MemTableInserter) ws None = None"
  by (induction ws) simp_all

lemma fold_inserter:
  "fold (run_write MemTableInserter) ws (Some (s, m)) =
     map_option (\<lambda>m. (s + of_nat (length ws), m)) (add_all (additions s ws) m)"
proof (induction ws arbitrary: s m)
  case (Cons w ws)
  show ?case
  proof (cases w)
    case (BPut k v)
    then show ?thesis
      using Cons by (cases "mem_Add s kTypeValue k v m")
        (simp_all add: additions_Cons add.assoc add.commute [of 1])
  next
    case (BDelete k)
    then show ?thesis
      using Cons by (cases "mem_Add s kTypeDeletion k [] m")
        (simp_all add: additions_Cons add.assoc add.commute [of 1])
  qed
qed simp

fun write_key :: "batch_write \<Rightarrow> slice" where
  "write_key (BPut k v) = k"
| "write_key (BDelete k) = k"

definition last_write :: "batch_write list \<Rightarrow> slice \<Rightarrow> batch_write option" where
  "last_write ws u =
     (let xs = filter (\<lambda>w. write_key w = u) ws in if xs = [] then None else Some (last xs))"

text \<open>Batches small enough for their keys to be encoded and their sequence numbers to exist.\<close>

definition good_batch :: "SequenceNumber \<Rightarrow> batch_write list \<Rightarrow> bool" where
  "good_batch s ws \<longleftrightarrow>
     unat s + length ws \<le> 2 ^ 56 \<and> length ws < 2 ^ 31 \<and>
     (\<forall>w \<in> set ws. short_write w \<and> short_key (write_key w))"

lemma unat_seq:
  "unat s + length ws \<le> 2 ^ 56 \<Longrightarrow> i < length ws \<Longrightarrow> unat (s + of_nat i :: SequenceNumber) = unat s + i"
  by (subst unat_add_small) (simp_all add: unat_of_nat_small)

lemma addition_fst: "addition_of s w = (s', t', k', v') \<longleftrightarrow>
    s' = s \<and> k' = write_key w \<and> (t', v') = (case w of BPut k v \<Rightarrow> (kTypeValue, v) | BDelete k \<Rightarrow> (kTypeDeletion, []))"
  by (cases w) auto

lemma good_additions: "good_batch s ws \<Longrightarrow> a \<in> set (additions s ws) \<Longrightarrow> good_addition a"
proof -
  assume g: "good_batch s ws" and "a \<in> set (additions s ws)"
  then obtain i where i: "i < length ws" "a = addition_of (s + of_nat i) (ws ! i)" by (auto simp: additions_def)
  have "s + of_nat i \<le> kMaxSequenceNumber"
    using g i(1) unat_seq [of s ws i] by (simp add: unat_max_sequence good_batch_def)
  then show ?thesis
    using g i(1) nth_mem [OF i(1)] unfolding i(2)
    by (cases "ws ! i") (auto simp: good_addition_def good_batch_def kTypeValue_def kTypeDeletion_def short_slice_def)
qed

lemma additions_unequal:
  assumes "good_batch s ws"
  shows "pairwise_unequal (mem_KeyComparator BytewiseComparator) (map entry_of (additions s ws))"
  unfolding pairwise_unequal_def sorted_wrt_iff_nth_less
proof (intro allI impI)
  fix i j
  assume "i < j" and "j < length (map entry_of (additions s ws))"
  then have ij: "i < j" "j < length (additions s ws)" by simp_all
  obtain s1 t1 k1 v1 where a: "additions s ws ! i = (s1, t1, k1, v1)" by (metis prod_cases4)
  obtain s2 t2 k2 v2 where b: "additions s ws ! j = (s2, t2, k2, v2)" by (metis prod_cases4)
  have len: "i < length ws" "j < length ws" using ij by (simp_all add: additions_def)
  have "s1 = s + of_nat i" "s2 = s + of_nat j" using a b len by (simp_all add: additions_def addition_fst)
  then have "s1 \<noteq> s2"
    using assms ij(1) len unat_seq [of s ws i] unat_seq [of s ws j] by (auto simp: good_batch_def)
  moreover have "good_addition (s1, t1, k1, v1)" "good_addition (s2, t2, k2, v2)"
    using good_additions [OF assms] nth_mem [of i "additions s ws"] nth_mem [of j "additions s ws"] a b ij by auto
  ultimately show "mem_KeyComparator BytewiseComparator (map entry_of (additions s ws) ! j)
      (map entry_of (additions s ws) ! i) \<noteq> 0"
    using mem_Compare_entries ij by (simp add: a b entry_of_def)
qed

lemma last_write_snoc:
  "last_write (ws @ [x]) u = (if write_key x = u then Some x else last_write ws u)"
  by (simp add: last_write_def)

lemma last_write_Some:
  "last_write ws u = Some w \<Longrightarrow>
     \<exists>i < length ws. ws ! i = w \<and> write_key w = u \<and> (\<forall>j < length ws. i < j \<longrightarrow> write_key (ws ! j) \<noteq> u)"
proof (induction ws rule: rev_induct)
  case (snoc x ws)
  show ?case
  proof (cases "write_key x = u")
    case True
    then show ?thesis using snoc.prems by (intro exI [of _ "length ws"]) (simp add: last_write_snoc)
  next
    case False
    then obtain i where "i < length ws" "ws ! i = w" "write_key w = u"
      "\<forall>j < length ws. i < j \<longrightarrow> write_key (ws ! j) \<noteq> u"
      using snoc by (auto simp: last_write_snoc)
    then show ?thesis using False by (intro exI [of _ i]) (auto simp: nth_append less_Suc_eq)
  qed
qed (simp add: last_write_def)

lemma last_write_None: "last_write ws u = None \<longleftrightarrow> (\<forall>w \<in> set ws. write_key w \<noteq> u)"
  by (simp add: last_write_def Let_def filter_empty_conv)

lemma snapshot_sees:
  assumes g: "good_batch s ws" and j: "j < length ws" and i: "i < length ws"
  shows "s + of_nat i \<le> s + of_nat j \<longleftrightarrow> i \<le> j" "s + of_nat i < s + of_nat j \<longleftrightarrow> i < j"
  using g unat_seq [OF _ i, of s] unat_seq [OF _ j, of s]
  by (simp_all add: good_batch_def word_le_nat_alt word_less_nat_alt)

lemma newest_addition:
  assumes g: "good_batch s ws" and j: "j < length ws" and "last_write (take (Suc j) ws) u = Some w"
  shows "\<exists>i. newest (additions s ws) u (s + of_nat j) (addition_of (s + of_nat i) w)"
proof -
  obtain i where i: "i \<le> j" "ws ! i = w" "write_key w = u" "\<forall>n \<le> j. i < n \<longrightarrow> write_key (ws ! n) \<noteq> u"
    using assms(2) last_write_Some [OF assms(3)] by (auto simp: less_Suc_eq_le)
  then have len: "i < length ws" using j by simp
  obtain s0 t k v where a: "addition_of (s + of_nat i) w = (s0, t, k, v)" by (metis prod_cases4)
  then have head: "s0 = s + of_nat i" "k = u" using i(3) by (simp_all add: addition_fst)
  have "(s0, t, k, v) \<in> set (additions s ws)" using len i(2) a by (metis in_additions)
  moreover have "s0 \<le> s + of_nat j" using snapshot_sees(1) [OF g j len] i(1) head by simp
  moreover have "\<forall>(s', t', k', v') \<in> set (additions s ws). k' = u \<and> s' \<le> s + of_nat j \<longrightarrow>
      s' < s0 \<or> s' = s0 \<and> t' \<le> t"
  proof clarify
    fix s' t' v'
    assume in_as: "(s', t', u, v') \<in> set (additions s ws)" and seen: "s' \<le> s + of_nat j"
      and not_new: "\<not> (s' = s0 \<and> t' \<le> t)"
    obtain n where n: "n < length ws" "(s', t', u, v') = addition_of (s + of_nat n) (ws ! n)"
      using in_as unfolding in_additions by blast
    then have s': "s' = s + of_nat n" "write_key (ws ! n) = u" by (auto simp: addition_fst dest: sym)
    then have "n \<le> j" using seen snapshot_sees(1) [OF g j n(1)] by simp
    then have "n < i \<or> n = i" using i(4) s'(2) by fastforce
    moreover have "n \<noteq> i" using not_new n(2) a i(2) by auto
    ultimately show "s' < s0" using snapshot_sees(2) [OF g len n(1)] by (simp add: s'(1) head)
  qed
  ultimately have "newest (additions s ws) u (s + of_nat j) (s0, t, k, v)"
    unfolding newest_def prod.case using head(2) by blast
  then show ?thesis using a by metis
qed

subsection \<open>Properties\<close>

text \<open>C31: Iterating over a batch passes the handler the operations that were put into it, in order, and
  succeeds; the batch counts them, keeps the sequence number it is given, and appending a batch to
  another is the batch of both.\<close>

theorem write_batch_roundtrip:
  assumes "\<forall>w \<in> set ws. short_write w" "length ws < 2 ^ 31"
  shows "wb_Iterate handler (wb_SetSequence (batch_of ws) s) h = (status_OK, fold (run_write handler) ws h) \<and>
    wb_Count (batch_of ws) = int (length ws) \<and> wb_Sequence (wb_SetSequence (batch_of ws) s) = s \<and>
    wb_Append (batch_of ws) (batch_of us) = batch_of (ws @ us)"
  using wb_Iterate_rep [OF _ assms, of "EncodeFixed64 s"] sint_count [OF assms(2)]
  by (simp add: batch_of_eq wb_SetSequence_rep wb_Append_rep wb_Count_rep) (simp add: wb_Sequence_def batch_rep_def)

lemma write_batch_roundtrip_witness:
  "wb_Count (batch_of [BPut [1] [2], BDelete [1]]) = 2"
  using write_batch_roundtrip [of "[BPut [1] [2], BDelete [1]]", THEN conjunct2, THEN conjunct1]
  by (simp add: short_slice_def)

text \<open>C30: Inserting a batch with sequence number \<open>s\<close> into a new memory table succeeds, whatever the
  heights drawn, and a lookup at the snapshot \<open>s + j\<close> sees the first \<open>j + 1\<close> operations: it returns
  the value of the last one of them on the key if that is a put, not found if it is a delete, and
  leaves the question open if there is none.\<close>

theorem write_batch_visible:
  assumes "good_batch s ws" "j < length ws" "short_key u"
  shows "\<exists>m. wb_InsertInto (wb_SetSequence (batch_of ws) s) (mk_MemTable BytewiseComparator) = Some (status_OK, m) \<and>
    mem_Get m (mk_LookupKey u (s + of_nat j)) val st =
      Some (case last_write (take (Suc j) ws) u of
              None \<Rightarrow> (False, val, st)
            | Some (BPut k v) \<Rightarrow> (True, v, st)
            | Some (BDelete k) \<Rightarrow> (True, val, NotFound [] []))"
proof -
  let ?as = "additions s ws" and ?rep = "wb_SetSequence (batch_of ws) s"
  have good: "\<forall>a \<in> set ?as. good_addition a" using good_additions [OF assms(1)] by blast
  have un: "pairwise_unequal (mem_KeyComparator BytewiseComparator) (map entry_of ?as)"
    by (rule additions_unequal [OF assms(1)])
  obtain m where m: "add_all ?as (mk_MemTable BytewiseComparator) = Some m"
    using add_all_succeeds [OF good un] by blast
  have rep: "?rep = batch_rep (EncodeFixed64 s) ws" by (simp add: batch_of_eq wb_SetSequence_rep)
  have "wb_Iterate MemTableInserter ?rep h = (status_OK, fold (run_write MemTableInserter) ws h)" for h
    unfolding rep using assms(1) by (intro wb_Iterate_rep) (auto simp: good_batch_def)
  moreover have "wb_Sequence ?rep = s" unfolding rep by (simp add: wb_Sequence_def batch_rep_def)
  ultimately have ins: "wb_InsertInto ?rep (mk_MemTable BytewiseComparator) = Some (status_OK, m)"
    by (simp add: wb_InsertInto_def fold_inserter m)
  have snap: "s + of_nat j \<le> kMaxSequenceNumber"
    using assms unat_seq [of s ws j] by (simp add: unat_max_sequence good_batch_def)
  note get = mem_Get_newest [OF good m un assms(3) snap, of val st]
  show ?thesis
  proof (cases "last_write (take (Suc j) ws) u")
    case None
    have "ws ! i \<in> set (take (Suc j) ws)" if "i \<le> j" for i
      using that assms(2) by (auto simp: in_set_conv_nth intro!: exI [of _ i])
    with None have none: "\<forall>i \<le> j. write_key (ws ! i) \<noteq> u" by (auto simp: last_write_None)
    have "s + of_nat j < s'" if in_as: "(s', t, u, v) \<in> set ?as" for s' t v
    proof -
      obtain i where i: "i < length ws" "(s', t, u, v) = addition_of (s + of_nat i) (ws ! i)"
        using in_as unfolding in_additions by blast
      then have "s' = s + of_nat i" "write_key (ws ! i) = u" by (auto simp: addition_fst dest: sym)
      then show ?thesis using none snapshot_sees(1) [OF assms(1,2) i(1)] by (auto simp: not_le)
    qed
    then show ?thesis using ins get None by fastforce
  next
    case (Some w)
    obtain i where "newest ?as u (s + of_nat j) (addition_of (s + of_nat i) w)"
      using newest_addition [OF assms(1,2) Some] by blast
    then show ?thesis
      using ins get Some by (cases w) (auto simp: kTypeValue_def kTypeDeletion_def)
  qed
qed

lemma write_batch_visible_witness:
  "\<exists>m. wb_InsertInto (wb_SetSequence (batch_of [BPut [1] [2], BDelete [1]]) 5) (mk_MemTable BytewiseComparator) =
      Some (status_OK, m) \<and>
    mem_Get m (mk_LookupKey [1] (5 + of_nat 0)) [] status_OK = Some (True, [2], status_OK)"
  using write_batch_visible [of 5 "[BPut [1] [2], BDelete [1]]" 0 "[1]" "[]" status_OK]
  by (simp add: good_batch_def short_slice_def short_key_def last_write_def)

end
