(* ===== verification/Ldb_Block.thy ===== *)
theory Ldb_Block
  imports Ldb_Dbformat
begin

unbundle bit_operations_syntax

text \<open>
  LevelDB's table blocks, \<^verbatim>\<open>table/block_builder.h\<close>, \<^verbatim>\<open>table/block_builder.cc\<close>,
  \<^verbatim>\<open>table/block.h\<close> and \<^verbatim>\<open>table/block.cc\<close> under \<^verbatim>\<open>src/ios/Pods/leveldb-library/\<close>. A pointer
  into a block is its distance from \<^verbatim>\<open>data_\<close>. Blocks are below 4 GB, where the offsets
  and indices the code keeps in 32 bits do not wrap; they are natural numbers here. What is read
  from the file keeps its 32 bits.
\<close>

subsection \<open>Building\<close>

record BlockBuilder =
  bb_interval :: int
  bb_buffer :: "byte list"
  bb_restarts :: "u32 list"
  bb_counter :: int
  bb_finished :: bool
  bb_last_key :: slice

definition mk_BlockBuilder :: "int \<Rightarrow> BlockBuilder" where
  "mk_BlockBuilder block_restart_interval =
     \<lparr>bb_interval = block_restart_interval, bb_buffer = [], bb_restarts = [0], bb_counter = 0,
      bb_finished = False, bb_last_key = []\<rparr>"

definition bb_Reset :: "BlockBuilder \<Rightarrow> BlockBuilder" where
  "bb_Reset b =
     b\<lparr>bb_buffer := [], bb_restarts := [0], bb_counter := 0, bb_finished := False, bb_last_key := []\<rparr>"

definition CurrentSizeEstimate :: "BlockBuilder \<Rightarrow> nat" where
  "CurrentSizeEstimate b = length (bb_buffer b) + length (bb_restarts b) * 4 + 4"

definition bb_Finish :: "BlockBuilder \<Rightarrow> slice \<times> BlockBuilder" where
  "bb_Finish b =
     (let buffer = foldl PutFixed32 (bb_buffer b) (bb_restarts b);
          buffer = PutFixed32 buffer (of_nat (length (bb_restarts b)))
      in (buffer, b\<lparr>bb_buffer := buffer, bb_finished := True\<rparr>))"

text \<open>The loop that counts the shared bytes is that of the byte comparator.\<close>

definition bb_Add :: "slice \<Rightarrow> slice \<Rightarrow> BlockBuilder \<Rightarrow> BlockBuilder" where
  "bb_Add key val b =
     (let last_key_piece = bb_last_key b;
          (shared, b) =
            (if bb_counter b < bb_interval b then
               (let min_length = min (length last_key_piece) (length key)
                in (common_prefix last_key_piece key min_length 0, b))
             else
               (0, b\<lparr>bb_restarts := bb_restarts b @ [of_nat (length (bb_buffer b))], bb_counter := 0\<rparr>));
          non_shared = length key - shared;
          buffer = PutVarint32 (bb_buffer b) (of_nat shared);
          buffer = PutVarint32 buffer (of_nat non_shared);
          buffer = PutVarint32 buffer (of_nat (length val))
      in b\<lparr>bb_buffer := buffer @ drop shared key @ val,
           bb_last_key := take shared (bb_last_key b) @ drop shared key,
           bb_counter := bb_counter b + 1\<rparr>)"

definition bb_empty :: "BlockBuilder \<Rightarrow> bool" where
  "bb_empty b = (bb_buffer b = [])"

subsection \<open>Reading\<close>

text \<open>A block whose size is 0 is malformed. The offset of the restarts is then not set.\<close>

record Block =
  bk_data :: "byte list"
  bk_size :: nat
  bk_restart_offset :: nat

definition NumRestarts :: "byte list \<Rightarrow> nat \<Rightarrow> u32" where
  "NumRestarts data sz = DecodeFixed32 (drop (sz - 4) data)"

definition mk_Block :: "slice \<Rightarrow> Block" where
  "mk_Block contents =
     (let sz = length contents; bad = \<lparr>bk_data = contents, bk_size = 0, bk_restart_offset = 0\<rparr>
      in if sz < 4 then bad
         else
           (let max_restarts_allowed = (sz - 4) div 4; n = unat (NumRestarts contents sz)
            in if n > max_restarts_allowed then bad
               else \<lparr>bk_data = contents, bk_size = sz, bk_restart_offset = sz - (1 + n) * 4\<rparr>))"

text \<open>
  \<^verbatim>\<open>DecodeEntry\<close> on the bytes from \<open>p\<close> to the limit: the three lengths and the bytes left. The sum
  in the last check is one of 32 bits.
\<close>

definition DecodeEntry :: "byte list \<Rightarrow> (u32 \<times> u32 \<times> u32 \<times> byte list) option" where
  "DecodeEntry p =
     (if length p < 3 then None
      else
        (let shared = ucast (p ! 0) :: u32; non_shared = ucast (p ! 1) :: u32;
             value_length = ucast (p ! 2) :: u32;
             decoded =
               (if shared OR non_shared OR value_length < 128
                then Some (shared, non_shared, value_length, drop 3 p)
                else
                  (case GetVarint32Ptr p of None \<Rightarrow> None
                   | Some (shared, p) \<Rightarrow>
                       (case GetVarint32Ptr p of None \<Rightarrow> None
                        | Some (non_shared, p) \<Rightarrow>
                            (case GetVarint32Ptr p of None \<Rightarrow> None
                             | Some (value_length, p) \<Rightarrow> Some (shared, non_shared, value_length, p)))))
         in case decoded of None \<Rightarrow> None
            | Some (shared, non_shared, value_length, p) \<Rightarrow>
                if of_nat (length p) < non_shared + value_length then None
                else Some (shared, non_shared, value_length, p)))"

text \<open>An iterator; \<open>it_value\<close> is the place and length of the value in the data, once one was read.\<close>

record Iter =
  it_comparator :: Comparator
  it_data :: "byte list"
  it_restarts :: nat
  it_num_restarts :: nat
  it_current :: nat
  it_restart_index :: nat
  it_key :: "byte list"
  it_value :: "(nat \<times> nat) option"
  it_status :: Status

definition mk_Iter :: "Comparator \<Rightarrow> byte list \<Rightarrow> nat \<Rightarrow> nat \<Rightarrow> Iter" where
  "mk_Iter cmp data restarts num_restarts =
     \<lparr>it_comparator = cmp, it_data = data, it_restarts = restarts, it_num_restarts = num_restarts,
      it_current = restarts, it_restart_index = num_restarts, it_key = [], it_value = None,
      it_status = status_OK\<rparr>"

definition NextEntryOffset :: "Iter \<Rightarrow> nat" where
  "NextEntryOffset it = (case it_value it of None \<Rightarrow> 0 | Some (pos, len) \<Rightarrow> pos + len)"

definition GetRestartPoint :: "Iter \<Rightarrow> nat \<Rightarrow> nat" where
  "GetRestartPoint it index = unat (DecodeFixed32 (drop (it_restarts it + index * 4) (it_data it)))"

definition SeekToRestartPoint :: "nat \<Rightarrow> Iter \<Rightarrow> Iter" where
  "SeekToRestartPoint index it =
     it\<lparr>it_key := [], it_restart_index := index, it_value := Some (GetRestartPoint it index, 0)\<rparr>"

definition it_Valid :: "Iter \<Rightarrow> bool" where
  "it_Valid it = (it_current it < it_restarts it)"

definition it_value_slice :: "Iter \<Rightarrow> slice" where
  "it_value_slice it =
     (case it_value it of None \<Rightarrow> [] | Some (pos, len) \<Rightarrow> take len (drop pos (it_data it)))"

definition CorruptionError :: "Iter \<Rightarrow> Iter" where
  "CorruptionError it =
     it\<lparr>it_current := it_restarts it, it_restart_index := it_num_restarts it,
        it_status := Corruption (c_string ''bad entry in block'') [], it_key := [], it_value := None\<rparr>"

text \<open>The loop that moves the restart index up to the current entry.\<close>

function advance_restart :: "Iter \<Rightarrow> nat \<Rightarrow> nat" where
  "advance_restart it index =
     (if index + 1 < it_num_restarts it \<and> GetRestartPoint it (index + 1) < it_current it
      then advance_restart it (index + 1) else index)"
  by auto
termination by (relation "measure (\<lambda>(it, index). it_num_restarts it - index)") auto

declare advance_restart.simps [simp del]

definition ParseNextKey :: "Iter \<Rightarrow> bool \<times> Iter" where
  "ParseNextKey it =
     (let it = it\<lparr>it_current := NextEntryOffset it\<rparr> in
      if it_current it \<ge> it_restarts it
      then (False, it\<lparr>it_current := it_restarts it, it_restart_index := it_num_restarts it\<rparr>)
      else
        (case DecodeEntry (take (it_restarts it - it_current it) (drop (it_current it) (it_data it))) of
           None \<Rightarrow> (False, CorruptionError it)
         | Some (shared, non_shared, value_length, p) \<Rightarrow>
             if length (it_key it) < unat shared then (False, CorruptionError it)
             else
               (let pos = min (it_restarts it) (length (it_data it)) - length p;
                    it = it\<lparr>it_key := take (unat shared) (it_key it) @
                                take (unat non_shared) (drop pos (it_data it)),
                            it_value := Some (pos + unat non_shared, unat value_length)\<rparr>
                in (True, it\<lparr>it_restart_index := advance_restart it (it_restart_index it)\<rparr>))))"

lemma GetVarint32Ptr_shorter: "GetVarint32Ptr p = Some (v, r) \<Longrightarrow> length r < length p"
proof -
  have loop: "get_varint_loop k s (w :: u32) p = Some (v, r) \<Longrightarrow> length r < length p" for k s w p
    by (induction k s w p rule: get_varint_loop.induct) (auto simp: Let_def split: if_splits)
  assume "GetVarint32Ptr p = Some (v, r)"
  then show ?thesis
    by (auto simp: GetVarint32Ptr_def GetVarint32PtrFallback_def Let_def split: list.splits if_splits
        dest: loop intro: less_SucI)
qed

lemma DecodeEntry_shorter: "DecodeEntry p = Some (s, n, v, r) \<Longrightarrow> length r < length p"
  by (auto simp: DecodeEntry_def Let_def split: if_splits option.splits
      dest!: GetVarint32Ptr_shorter)

lemma ParseNextKey_moves:
  assumes "ParseNextKey it = (True, it')"
  shows "NextEntryOffset it < NextEntryOffset it'" "NextEntryOffset it < it_restarts it"
    "it_restarts it' = it_restarts it"
  using assms
  by (auto simp: ParseNextKey_def Let_def NextEntryOffset_def split: if_splits option.splits prod.splits
      dest!: DecodeEntry_shorter)

lemma ParseNextKey_measure:
  "ParseNextKey it = (True, it') \<Longrightarrow>
     it_restarts it' - NextEntryOffset it' < it_restarts it - NextEntryOffset it"
  using ParseNextKey_moves [of it it'] by linarith

text \<open>The loop of \<^verbatim>\<open>Prev\<close> and \<^verbatim>\<open>SeekToLast\<close>: parse entries up to the one that ends at the bound.\<close>

function skip_entries :: "nat \<Rightarrow> Iter \<Rightarrow> Iter" where
  "skip_entries bound it =
     (case ParseNextKey it of (b, it') \<Rightarrow>
        if b \<and> NextEntryOffset it' < bound then skip_entries bound it' else it')"
  by auto
termination
  by (relation "measure (\<lambda>(bound, it). it_restarts it - NextEntryOffset it)")
    (auto dest!: sym [of _ "ParseNextKey _"] intro: ParseNextKey_measure)

declare skip_entries.simps [simp del]

definition it_Next :: "Iter \<Rightarrow> Iter" where
  "it_Next it = snd (ParseNextKey it)"

text \<open>The loop that finds a restart point before the entry at \<open>original\<close>.\<close>

primrec restart_before :: "Iter \<Rightarrow> nat \<Rightarrow> nat \<Rightarrow> nat option" where
  "restart_before it original 0 = (if GetRestartPoint it 0 \<ge> original then None else Some 0)"
| "restart_before it original (Suc index) =
     (if GetRestartPoint it (Suc index) \<ge> original then restart_before it original index
      else Some (Suc index))"

definition it_Prev :: "Iter \<Rightarrow> Iter" where
  "it_Prev it =
     (let original = it_current it in
      case restart_before it original (it_restart_index it) of
        None \<Rightarrow> it\<lparr>it_current := it_restarts it, it_restart_index := it_num_restarts it\<rparr>
      | Some index \<Rightarrow> skip_entries original (SeekToRestartPoint index (it\<lparr>it_restart_index := index\<rparr>)))"

text \<open>The binary search in the restart array, \<^const>\<open>None\<close> when it meets a corrupted entry.\<close>

function seek_restart :: "Iter \<Rightarrow> slice \<Rightarrow> nat \<Rightarrow> nat \<Rightarrow> nat option" where
  "seek_restart it target left right =
     (if left < right then
        (let mid = (left + right + 1) div 2;
             region_offset = GetRestartPoint it mid
         in case DecodeEntry (take (it_restarts it - region_offset) (drop region_offset (it_data it))) of
              None \<Rightarrow> None
            | Some (shared, non_shared, value_length, p) \<Rightarrow>
                if shared \<noteq> 0 then None
                else
                  (let pos = min (it_restarts it) (length (it_data it)) - length p;
                       mid_key = take (unat non_shared) (drop pos (it_data it))
                   in if Compare (it_comparator it) mid_key target < 0
                      then seek_restart it target mid right
                      else seek_restart it target left (mid - 1)))
      else Some left)"
  by auto
termination by (relation "measure (\<lambda>(it, target, left, right). right - left)") auto

declare seek_restart.simps [simp del]

text \<open>The linear search for the first key that is not below the target.\<close>

function seek_linear :: "slice \<Rightarrow> Iter \<Rightarrow> Iter" where
  "seek_linear target it =
     (case ParseNextKey it of (b, it') \<Rightarrow>
        if \<not> b then it'
        else if Compare (it_comparator it') (it_key it') target \<ge> 0 then it'
        else seek_linear target it')"
  by auto
termination
  by (relation "measure (\<lambda>(target, it). it_restarts it - NextEntryOffset it)")
    (auto dest!: sym [of _ "ParseNextKey _"] intro: ParseNextKey_measure)

declare seek_linear.simps [simp del]

definition it_Seek :: "slice \<Rightarrow> Iter \<Rightarrow> Iter" where
  "it_Seek target it =
     (case seek_restart it target 0 (it_num_restarts it - 1) of
        None \<Rightarrow> CorruptionError it
      | Some left \<Rightarrow> seek_linear target (SeekToRestartPoint left it))"

definition it_SeekToFirst :: "Iter \<Rightarrow> Iter" where
  "it_SeekToFirst it = snd (ParseNextKey (SeekToRestartPoint 0 it))"

definition it_SeekToLast :: "Iter \<Rightarrow> Iter" where
  "it_SeekToLast it =
     skip_entries (it_restarts it) (SeekToRestartPoint (it_num_restarts it - 1) it)"

text \<open>What \<^verbatim>\<open>NewIterator\<close> makes: an iterator that only reports an error, an empty one, or one
  over the block.\<close>

datatype BlockIterator = ErrorIterator Status | EmptyIterator | BlockIter Iter

definition NewIterator :: "Comparator \<Rightarrow> Block \<Rightarrow> BlockIterator" where
  "NewIterator cmp block =
     (if bk_size block < 4 then ErrorIterator (Corruption (c_string ''bad block contents'') [])
      else
        (let num_restarts = unat (NumRestarts (bk_data block) (bk_size block)) in
         if num_restarts = 0 then EmptyIterator
         else BlockIter (mk_Iter cmp (bk_data block) (bk_restart_offset block) num_restarts)))"

end
