(* ===== verification/Ldb_Block_Correct.thy ===== *)
theory Ldb_Block_Correct
  imports Ldb_Block Ldb_Dbformat_Correct
begin

unbundle bit_operations_syntax

text \<open>
  A block that was built is read back: forwards, backwards and from a key on. The layout of a
  block is a list of entries, each with the number of bytes it shares with the key before, and the
  indices of the entries at restart points; the reader's steps follow it entry by entry.
\<close>

subsection \<open>One entry\<close>

type_synonym block_entry = "nat \<times> slice \<times> slice"

definition entry_shared :: "block_entry \<Rightarrow> nat" where
  "entry_shared e = fst e"

definition entry_key :: "block_entry \<Rightarrow> slice" where
  "entry_key e = fst (snd e)"

definition entry_value :: "block_entry \<Rightarrow> slice" where
  "entry_value e = snd (snd e)"

lemmas entry_simps = entry_shared_def entry_key_def entry_value_def

definition entry_bytes :: "block_entry \<Rightarrow> byte list" where
  "entry_bytes e =
     EncodeVarint32 (of_nat (entry_shared e)) @
     EncodeVarint32 (of_nat (length (entry_key e) - entry_shared e)) @
     EncodeVarint32 (of_nat (length (entry_value e))) @
     drop (entry_shared e) (entry_key e) @ entry_value e"

definition entries_bytes :: "block_entry list \<Rightarrow> byte list" where
  "entries_bytes es = concat (map entry_bytes es)"

definition offset_of :: "block_entry list \<Rightarrow> nat \<Rightarrow> nat" where
  "offset_of es i = length (entries_bytes (take i es))"

lemma entries_bytes_simps [simp]:
  "entries_bytes [] = []" "entries_bytes (xs @ ys) = entries_bytes xs @ entries_bytes ys"
  "entries_bytes [e] = entry_bytes e"
  by (simp_all add: entries_bytes_def)

lemma offset_of_0 [simp]: "offset_of es 0 = 0"
  by (simp add: offset_of_def)

lemma offset_of_all [simp]: "length es \<le> i \<Longrightarrow> offset_of es i = length (entries_bytes es)"
  by (simp add: offset_of_def)

lemma offset_of_Suc: "i < length es \<Longrightarrow> offset_of es (Suc i) = offset_of es i + length (entry_bytes (es ! i))"
  by (simp add: offset_of_def take_Suc_conv_app_nth)

lemma EncodeVarint32_not_Nil: "0 < length (EncodeVarint32 v)"
  using varint32.enc_not_Nil [of v] by (simp add: any_def)

lemma length_entry_bytes: "3 \<le> length (entry_bytes e)"
proof -
  have "1 \<le> length (EncodeVarint32 v)" for v using EncodeVarint32_not_Nil [of v] by linarith
  from this [of "of_nat (entry_shared e)"] this [of "of_nat (length (entry_key e) - entry_shared e)"]
    this [of "of_nat (length (entry_value e))"]
  show ?thesis unfolding entry_bytes_def length_append by linarith
qed

lemma offset_of_mono: "i \<le> j \<Longrightarrow> offset_of es i \<le> offset_of es j"
proof (induction j)
  case (Suc j)
  then show ?case by (cases "j < length es") (auto simp: offset_of_Suc le_Suc_eq)
qed simp

lemma offset_of_less: "i < j \<Longrightarrow> i < length es \<Longrightarrow> offset_of es i < offset_of es j"
  using offset_of_mono [of "Suc i" j es] length_entry_bytes [of "es ! i"] by (simp add: offset_of_Suc)

lemma drop_offset_of: "drop (offset_of es i) (entries_bytes es) = entries_bytes (drop i es)"
proof -
  have "entries_bytes es = entries_bytes (take i es) @ entries_bytes (drop i es)"
    by (metis append_take_drop_id entries_bytes_simps(2))
  then show ?thesis by (simp add: offset_of_def)
qed

text \<open>The path for three short lengths changes nothing.\<close>

definition decode_lengths :: "byte list \<Rightarrow> (u32 \<times> u32 \<times> u32 \<times> byte list) option" where
  "decode_lengths p =
     (case GetVarint32Ptr p of None \<Rightarrow> None
      | Some (shared, p) \<Rightarrow>
          (case GetVarint32Ptr p of None \<Rightarrow> None
           | Some (non_shared, p) \<Rightarrow>
               (case GetVarint32Ptr p of None \<Rightarrow> None
                | Some (value_length, p) \<Rightarrow> Some (shared, non_shared, value_length, p))))"

lemma less_128_and: "(w :: u32) < 128 \<Longrightarrow> w AND 128 = 0"
proof -
  assume "w < 128"
  then have w: "take_bit 7 w = w" by (intro take_bit_idI) (simp add: word_less_nat_alt)
  have "take_bit 7 w AND 128 = 0"
    by (rule bit_word_eqI) (auto simp: bit_simps bit_128 simp del: bit_numeral_word_iff)
  then show ?thesis by (simp only: w)
qed

lemma or_less_128: "(a :: u32) OR b < 128 \<Longrightarrow> a AND 128 = 0 \<and> b AND 128 = 0"
  using less_128_and [of "a OR b"] by (simp add: bit.conj_disj_distrib2 or_eq_0_iff)

lemma DecodeEntry_eq:
  assumes "3 \<le> length p"
  shows "DecodeEntry p =
    (case decode_lengths p of None \<Rightarrow> None
     | Some (shared, non_shared, value_length, p) \<Rightarrow>
         if of_nat (length p) < non_shared + value_length then None
         else Some (shared, non_shared, value_length, p))"
proof (cases "ucast (p ! 0) OR ucast (p ! 1) OR ucast (p ! 2) < (128 :: u32)")
  case True
  obtain a b c q where p: "p = a # b # c # q"
    using assms by (metis Suc_le_length_iff numeral_3_eq_3)
  have "(ucast a :: u32) AND 128 = 0" "(ucast b :: u32) AND 128 = 0" "(ucast c :: u32) AND 128 = 0"
    using or_less_128 [of "ucast a OR ucast b" "ucast c"] or_less_128 [of "ucast a" "ucast b"] True
      less_128_and [of "ucast a OR ucast b OR ucast c"]
    by (simp_all add: p bit.conj_disj_distrib2 or_eq_0_iff)
  then have "decode_lengths p = Some (ucast a, ucast b, ucast c, q)"
    by (simp add: decode_lengths_def GetVarint32Ptr_def p)
  then show ?thesis using True by (simp add: DecodeEntry_def p)
next
  case False
  then show ?thesis using assms by (simp add: DecodeEntry_def decode_lengths_def Let_def)
qed

lemma DecodeEntry_entry:
  assumes "p = drop (entry_shared e) (entry_key e) @ entry_value e @ rest" "length p < 2 ^ 32"
  shows "DecodeEntry (entry_bytes e @ rest) =
    Some (of_nat (entry_shared e), of_nat (length (entry_key e) - entry_shared e),
      of_nat (length (entry_value e)), p)"
proof -
  have "decode_lengths (entry_bytes e @ rest) =
      Some (of_nat (entry_shared e), of_nat (length (entry_key e) - entry_shared e),
        of_nat (length (entry_value e)), p)"
    by (simp add: decode_lengths_def entry_bytes_def assms(1))
  moreover have "\<not> (of_nat (length p) :: u32) <
      of_nat (length (entry_key e) - entry_shared e) + of_nat (length (entry_value e))"
    unfolding of_nat_add [symmetric] word_less_nat_alt using assms
    by (subst (1 2) unat_of_nat_small) simp_all
  ultimately show ?thesis
    using length_entry_bytes [of e] by (simp add: DecodeEntry_eq)
qed

subsection \<open>The layout of a block\<close>

definition block_bytes :: "block_entry list \<Rightarrow> nat list \<Rightarrow> byte list" where
  "block_bytes es rs =
     entries_bytes es @ concat (map EncodeFixed32 (map (\<lambda>r. of_nat (offset_of es r)) rs)) @
     EncodeFixed32 (of_nat (length rs))"

text \<open>The key before an entry, as the reader has it when it comes to it.\<close>

definition key_before :: "block_entry list \<Rightarrow> nat \<Rightarrow> slice" where
  "key_before es i = (if i = 0 then [] else entry_key (es ! (i - 1)))"

definition shares :: "slice \<Rightarrow> block_entry \<Rightarrow> bool" where
  "shares k e \<longleftrightarrow> entry_shared e \<le> length k \<and> take (entry_shared e) k = take (entry_shared e) (entry_key e)"

definition block_layout :: "block_entry list \<Rightarrow> nat list \<Rightarrow> bool" where
  "block_layout es rs \<longleftrightarrow>
     (\<forall>i < length es. entry_shared (es ! i) \<le> length (entry_key (es ! i)) \<and> shares (key_before es i) (es ! i)) \<and>
     rs \<noteq> [] \<and> hd rs = 0 \<and>
     (es = [] \<longrightarrow> rs = [0]) \<and>
     (\<forall>r \<in> set rs. es \<noteq> [] \<longrightarrow> r < length es \<and> entry_shared (es ! r) = 0)"

lemma length_block_bytes: "length (block_bytes es rs) = length (entries_bytes es) + 4 * length rs + 4"
  by (simp add: block_bytes_def del: map_map)

lemma length_entry_parts:
  "entry_shared e \<le> length (entry_key e) \<Longrightarrow>
     length (entry_key e) - entry_shared e + length (entry_value e) < length (entry_bytes e)"
proof -
  have "0 < length (EncodeVarint32 (of_nat (entry_shared e)))" by (rule EncodeVarint32_not_Nil)
  then show ?thesis unfolding entry_bytes_def length_append length_drop by linarith
qed

lemma drop_Cons_offset:
  "i < length es \<Longrightarrow> drop (offset_of es i) (entries_bytes es) =
     entry_bytes (es ! i) @ entries_bytes (drop (Suc i) es)"
  unfolding drop_offset_of by (subst Cons_nth_drop_Suc [symmetric]) (simp_all add: entries_bytes_def)

text \<open>A key is made of bytes stored in its entry and those before it.\<close>

lemma length_key_before:
  assumes "block_layout es rs"
  shows "i \<le> length es \<Longrightarrow> length (key_before es i) \<le> offset_of es i"
proof (induction i)
  case (Suc i)
  then have i: "i < length es" by simp
  then have "entry_shared (es ! i) \<le> length (entry_key (es ! i))" "entry_shared (es ! i) \<le> length (key_before es i)"
    using assms by (auto simp: block_layout_def shares_def)
  then show ?case
    using Suc.IH i length_entry_parts [of "es ! i"] by (simp add: key_before_def [of _ "Suc i"] offset_of_Suc)
qed (simp add: key_before_def)

subsection \<open>Steps of the reader\<close>

definition iter_over :: "Comparator \<Rightarrow> block_entry list \<Rightarrow> nat list \<Rightarrow> Iter \<Rightarrow> bool" where
  "iter_over cmp es rs it \<longleftrightarrow>
     it_comparator it = cmp \<and> it_data it = block_bytes es rs \<and> it_restarts it = length (entries_bytes es) \<and>
     it_num_restarts it = length rs \<and> it_status it = status_OK"

text \<open>About to parse entry \<open>i\<close>, and at entry \<open>i\<close>.\<close>

definition iter_before :: "Comparator \<Rightarrow> block_entry list \<Rightarrow> nat list \<Rightarrow> Iter \<Rightarrow> nat \<Rightarrow> bool" where
  "iter_before cmp es rs it i \<longleftrightarrow>
     iter_over cmp es rs it \<and> i \<le> length es \<and> NextEntryOffset it = offset_of es i \<and>
     (i < length es \<longrightarrow> shares (it_key it) (es ! i)) \<and> it_restart_index it < length rs"

definition iter_at_entry :: "Comparator \<Rightarrow> block_entry list \<Rightarrow> nat list \<Rightarrow> Iter \<Rightarrow> nat \<Rightarrow> bool" where
  "iter_at_entry cmp es rs it i \<longleftrightarrow>
     iter_before cmp es rs it (Suc i) \<and> i < length es \<and> it_current it = offset_of es i \<and>
     it_key it = entry_key (es ! i) \<and> it_value_slice it = entry_value (es ! i)"

definition iter_done :: "Comparator \<Rightarrow> block_entry list \<Rightarrow> nat list \<Rightarrow> Iter \<Rightarrow> bool" where
  "iter_done cmp es rs it \<longleftrightarrow> iter_over cmp es rs it \<and> \<not> it_Valid it"

lemma entry_at_Valid: "iter_at_entry cmp es rs it i \<Longrightarrow> it_Valid it"
  using offset_of_less [of i "length es" es]
  by (simp add: iter_at_entry_def iter_before_def iter_over_def it_Valid_def)

lemma GetRestartPoint_layout:
  assumes "iter_over cmp es rs it" "r < length rs" "length (block_bytes es rs) < 2 ^ 32"
  shows "GetRestartPoint it r = offset_of es (rs ! r)"
proof -
  let ?xs = "map (\<lambda>r. of_nat (offset_of es r)) rs :: u32 list"
  have "drop (it_restarts it + r * 4) (it_data it) =
      drop (4 * r) (concat (map EncodeFixed32 ?xs)) @ EncodeFixed32 (of_nat (length rs))"
    using assms(1,2) by (simp add: iter_over_def block_bytes_def mult.commute del: map_map)
  then have "GetRestartPoint it r = unat (?xs ! r)"
    using DecodeFixed32_nth [of r ?xs] assms(2) by (simp add: GetRestartPoint_def del: map_map)
  moreover have "offset_of es (rs ! r) \<le> length (entries_bytes es)"
    by (metis nat_le_linear offset_of_all offset_of_mono)
  then have "offset_of es (rs ! r) < 2 ^ 32" using assms(3) by (simp add: length_block_bytes)
  ultimately show ?thesis using assms(2) by (simp add: unat_of_nat_small)
qed

lemma advance_restart_bound: "index < it_num_restarts it \<Longrightarrow> advance_restart it index < it_num_restarts it"
proof (induction it index rule: advance_restart.induct)
  case (1 it index)
  then show ?case by (subst advance_restart.simps) auto
qed

lemma entry_region:
  assumes "i < length es" "k = length (entries_bytes es)"
  shows "take (k - offset_of es i) (drop (offset_of es i) (block_bytes es rs)) =
    entry_bytes (es ! i) @ entries_bytes (drop (Suc i) es)"
proof -
  have "offset_of es i \<le> k" using offset_of_mono [of i "length es" es] assms by simp
  then have "take (k - offset_of es i) (drop (offset_of es i) (block_bytes es rs)) =
      drop (offset_of es i) (entries_bytes es)"
    unfolding block_bytes_def assms(2) by simp
  then show ?thesis using drop_Cons_offset [OF assms(1)] by simp
qed

text \<open>The bytes after the three lengths of an entry, from where they start in the data.\<close>

lemma entry_tail:
  assumes "i < length es" "p = drop (entry_shared (es ! i)) (entry_key (es ! i)) @ entry_value (es ! i) @
      entries_bytes (drop (Suc i) es)" and "entry_shared (es ! i) \<le> length (entry_key (es ! i))"
    and pos: "pos = length (entries_bytes es) - length p"
  shows "take (length p) (drop pos (block_bytes es rs)) = p"
    "pos + (length (entry_key (es ! i)) - entry_shared (es ! i)) + length (entry_value (es ! i)) = offset_of es (Suc i)"
    "length p \<le> length (entries_bytes es)"
proof -
  define q where "q = EncodeVarint32 (of_nat (entry_shared (es ! i))) @
     EncodeVarint32 (of_nat (length (entry_key (es ! i)) - entry_shared (es ! i))) @
     EncodeVarint32 (of_nat (length (entry_value (es ! i))))"
  have qp: "drop (offset_of es i) (entries_bytes es) = q @ p"
    using drop_Cons_offset [OF assms(1)] by (simp add: entry_bytes_def q_def assms(2))
  have "offset_of es i \<le> length (entries_bytes es)" using offset_of_mono [of i "length es" es] assms(1) by simp
  moreover have "length (entries_bytes es) - offset_of es i = length q + length p"
    using qp by (metis length_append length_drop)
  ultimately have len: "length (entries_bytes es) = offset_of es i + length q + length p" by linarith
  then show "length p \<le> length (entries_bytes es)" by simp
  have p': "pos = offset_of es i + length q" using len pos by simp
  have "drop pos (entries_bytes es) = drop (length q) (drop (offset_of es i) (entries_bytes es))"
    unfolding p' by (simp add: add.commute)
  also have "\<dots> = p" unfolding qp by simp
  finally have "drop pos (entries_bytes es) = p" .
  then show "take (length p) (drop pos (block_bytes es rs)) = p"
    using p' len by (simp add: block_bytes_def)
  show "pos + (length (entry_key (es ! i)) - entry_shared (es ! i)) + length (entry_value (es ! i)) = offset_of es (Suc i)"
    unfolding p' offset_of_Suc [OF assms(1)] by (simp add: entry_bytes_def q_def)
qed

lemma entry_decoded:
  assumes layout: "block_layout es rs" and small: "length (block_bytes es rs) < 2 ^ 32" and i: "i < length es"
    and e: "e = es ! i" "n = length (entries_bytes es)"
    and sizes: "sh = entry_shared e" "ns = length (entry_key e) - sh" "vl = length (entry_value e)"
  shows "\<exists>p. DecodeEntry (take (n - offset_of es i) (drop (offset_of es i) (block_bytes es rs))) =
      Some (of_nat sh, of_nat ns, of_nat vl, p) \<and>
    take ns (drop (n - length p) (block_bytes es rs)) = drop sh (entry_key e) \<and>
    take vl (drop (n - length p + ns) (block_bytes es rs)) = entry_value e \<and>
    n - length p + ns + vl = offset_of es (Suc i)"
    and "unat (of_nat sh :: u32) = sh" "unat (of_nat ns :: u32) = ns" "unat (of_nat vl :: u32) = vl"
proof -
  let ?k = "entry_key e" and ?v = "entry_value e"
  define p where "p = drop sh ?k @ ?v @ entries_bytes (drop (Suc i) es)"
  have p: "p = drop (entry_shared (es ! i)) (entry_key (es ! i)) @ entry_value (es ! i) @ entries_bytes (drop (Suc i) es)"
    by (simp add: p_def e sizes)
  have sh: "entry_shared (es ! i) \<le> length (entry_key (es ! i))" using layout i by (simp add: block_layout_def)
  note tail = entry_tail [OF i p sh refl, folded e, folded sizes]
  have tail_end: "n - length p + ns + vl = offset_of es (Suc i)"
    using entry_tail(2) [OF i p sh refl] unfolding sizes e by simp
  have n: "n < 2 ^ 32" using small by (simp add: length_block_bytes e)
  have "DecodeEntry (take (n - offset_of es i) (drop (offset_of es i) (block_bytes es rs))) =
      Some (of_nat sh, of_nat ns, of_nat vl, p)"
    unfolding entry_region [OF i e(2)] sizes e(1) by (rule DecodeEntry_entry [OF p]) (use tail(3) n in linarith)
  moreover have "take ns (drop (n - length p) (block_bytes es rs)) = drop sh ?k"
  proof -
    have "take ns (drop (n - length p) (block_bytes es rs)) =
        take ns (take (length p) (drop (n - length p) (block_bytes es rs)))"
      by (simp add: p_def min_def sizes)
    also have "\<dots> = drop sh ?k" unfolding tail(1) by (simp add: p_def sizes)
    finally show ?thesis .
  qed
  moreover have "take vl (drop (n - length p + ns) (block_bytes es rs)) = ?v"
  proof -
    have "take vl (drop (n - length p + ns) (block_bytes es rs)) =
        take vl (drop ns (take (length p) (drop (n - length p) (block_bytes es rs))))"
      by (simp add: drop_take p_def add.commute min_def sizes)
    also have "\<dots> = ?v" unfolding tail(1) by (simp add: p_def sizes)
    finally show ?thesis .
  qed
  ultimately show "\<exists>p. DecodeEntry (take (n - offset_of es i) (drop (offset_of es i) (block_bytes es rs))) =
      Some (of_nat sh, of_nat ns, of_nat vl, p) \<and>
    take ns (drop (n - length p) (block_bytes es rs)) = drop sh (entry_key e) \<and>
    take vl (drop (n - length p + ns) (block_bytes es rs)) = entry_value e \<and>
    n - length p + ns + vl = offset_of es (Suc i)"
    by (intro exI [of _ p] conjI tail_end)
  have "length ?k \<le> offset_of es (Suc i)"
    using length_key_before [OF layout, of "Suc i"] i by (simp add: key_before_def e)
  also have "\<dots> \<le> n" using offset_of_mono [of "Suc i" "length es" es] i by (simp add: e)
  finally have "length ?k < 2 ^ 32" using n by linarith
  then have "sh < 2 ^ LENGTH(32)" "ns < 2 ^ LENGTH(32)"
    using sh unfolding sizes(1,2) e(1) by simp_all
  moreover have "vl < 2 ^ 32" using tail(3) n unfolding p_def length_append sizes by linarith
  then have "vl < 2 ^ LENGTH(32)" by simp
  ultimately show "unat (of_nat sh :: u32) = sh" "unat (of_nat ns :: u32) = ns" "unat (of_nat vl :: u32) = vl"
    by (simp_all only: unat_of_nat_small)
qed

lemma ParseNextKey_entry:
  assumes layout: "block_layout es rs" and small: "length (block_bytes es rs) < 2 ^ 32"
    and before: "iter_before cmp es rs it i" and i: "i < length es"
  shows "\<exists>it'. ParseNextKey it = (True, it') \<and> iter_at_entry cmp es rs it' i"
proof -
  define n where "n = length (entries_bytes es)"
  define sh where "sh = entry_shared (es ! i)"
  define ns where "ns = length (entry_key (es ! i)) - sh"
  define vl where "vl = length (entry_value (es ! i))"
  have over: "iter_over cmp es rs it" and next_i: "NextEntryOffset it = offset_of es i"
    and shared: "shares (it_key it) (es ! i)" and ri: "it_restart_index it < length rs"
    using before i by (simp_all add: iter_before_def)
  have it: "it_data it = block_bytes es rs" "it_restarts it = n" "it_num_restarts it = length rs"
    using over by (simp_all add: iter_over_def n_def)
  have off: "offset_of es i < n" using offset_of_less [of i "length es" es] i by (simp add: n_def)
  note decoded = entry_decoded [OF layout small i refl n_def sh_def ns_def vl_def]
  from decoded(1) obtain p where dec:
      "DecodeEntry (take (n - offset_of es i) (drop (offset_of es i) (block_bytes es rs))) =
        Some (of_nat sh, of_nat ns, of_nat vl, p)"
    and k: "take ns (drop (n - length p) (block_bytes es rs)) = drop sh (entry_key (es ! i))"
    and v: "take vl (drop (n - length p + ns) (block_bytes es rs)) = entry_value (es ! i)"
    and next': "n - length p + ns + vl = offset_of es (Suc i)"
    by blast
  define pos where "pos = n - length p"
  have key: "take sh (entry_key (es ! i)) @ take ns (drop pos (block_bytes es rs)) = entry_key (es ! i)"
    by (simp add: k pos_def)
  let ?it1 = "it\<lparr>it_current := offset_of es i, it_key := entry_key (es ! i), it_value := Some (pos + ns, vl)\<rparr>"
  let ?it2 = "?it1\<lparr>it_restart_index := advance_restart ?it1 (it_restart_index it)\<rparr>"
  have "n \<le> length (block_bytes es rs)" by (simp add: length_block_bytes n_def)
  then have parse: "ParseNextKey it = (True, ?it2)"
    using off shared
    by (simp add: ParseNextKey_def Let_def next_i it dec decoded(2-4) shares_def min_absorb1 pos_def [symmetric] key
        flip: sh_def)
  have "advance_restart ?it1 (it_restart_index it) < length rs"
    using advance_restart_bound [of "it_restart_index it" ?it1] ri it(3) by simp
  moreover have "Suc i < length es \<Longrightarrow> shares (entry_key (es ! i)) (es ! Suc i)"
    using layout by (auto simp: block_layout_def key_before_def dest: spec [of _ "Suc i"])
  ultimately have "iter_at_entry cmp es rs ?it2 i"
    using over i next' v
    by (simp add: iter_at_entry_def iter_before_def iter_over_def NextEntryOffset_def it_value_slice_def pos_def)
  with parse show ?thesis by blast
qed

lemma ParseNextKey_end:
  assumes "iter_before cmp es rs it (length es)"
  shows "\<exists>it'. ParseNextKey it = (False, it') \<and> iter_done cmp es rs it'"
  using assms by (simp add: ParseNextKey_def iter_before_def iter_over_def iter_done_def it_Valid_def)

lemma SeekToRestartPoint_before:
  assumes layout: "block_layout es rs" and small: "length (block_bytes es rs) < 2 ^ 32"
    and over: "iter_over cmp es rs it" and r: "r < length rs"
  shows "iter_before cmp es rs (SeekToRestartPoint r it) (rs ! r)"
proof -
  have "rs = [0] \<Longrightarrow> r = 0" using r by simp
  then have "(es = [] \<longrightarrow> rs ! r = 0) \<and> (es \<noteq> [] \<longrightarrow> rs ! r < length es \<and> entry_shared (es ! (rs ! r)) = 0)"
    using layout r nth_mem [OF r] by (simp add: block_layout_def)
  then show ?thesis
    using over r GetRestartPoint_layout [OF over r small]
    by (cases "es = []") (simp_all add: iter_before_def iter_over_def SeekToRestartPoint_def NextEntryOffset_def shares_def)
qed

subsection \<open>Iterating\<close>

text \<open>The entries an iterator passes in at most \<open>n\<close> moves.\<close>

primrec block_forward :: "nat \<Rightarrow> Iter \<Rightarrow> (slice \<times> slice) list" where
  "block_forward 0 it = []"
| "block_forward (Suc n) it =
     (if it_Valid it then (it_key it, it_value_slice it) # block_forward n (it_Next it) else [])"

primrec block_backward :: "nat \<Rightarrow> Iter \<Rightarrow> (slice \<times> slice) list" where
  "block_backward 0 it = []"
| "block_backward (Suc n) it =
     (if it_Valid it then (it_key it, it_value_slice it) # block_backward n (it_Prev it) else [])"

definition entry_pair :: "block_entry \<Rightarrow> slice \<times> slice" where
  "entry_pair e = snd e"

lemma entry_pair_eq: "entry_pair e = (entry_key e, entry_value e)"
  by (simp add: entry_pair_def entry_simps)

lemma iter_done_Valid: "iter_done cmp es rs it \<Longrightarrow> \<not> it_Valid it"
  by (simp add: iter_done_def)

text \<open>Parsing goes to the next entry, or past the last.\<close>

lemma ParseNextKey_before:
  assumes "block_layout es rs" "length (block_bytes es rs) < 2 ^ 32" "iter_before cmp es rs it i"
  shows "if i < length es then \<exists>it'. ParseNextKey it = (True, it') \<and> iter_at_entry cmp es rs it' i
    else \<exists>it'. ParseNextKey it = (False, it') \<and> iter_done cmp es rs it'"
proof (cases "i < length es")
  case True
  then show ?thesis using ParseNextKey_entry [OF assms] by simp
next
  case False
  then have "i = length es" using assms(3) by (simp add: iter_before_def)
  then show ?thesis using ParseNextKey_end assms(3) by simp
qed

lemma block_forward_from:
  assumes layout: "block_layout es rs" and small: "length (block_bytes es rs) < 2 ^ 32"
  shows "iter_before cmp es rs it i \<Longrightarrow> length es < i + n \<Longrightarrow>
    block_forward n (snd (ParseNextKey it)) = map entry_pair (drop i es)"
proof (induction n arbitrary: it i)
  case 0
  then show ?case by (simp add: iter_before_def)
next
  case (Suc n)
  show ?case
  proof (cases "i < length es")
    case True
    then obtain it' where it': "ParseNextKey it = (True, it')" "iter_at_entry cmp es rs it' i"
      using ParseNextKey_before [OF layout small Suc.prems(1)] by auto
    then have "block_forward n (it_Next it') = map entry_pair (drop (Suc i) es)"
      using Suc.IH [of it' "Suc i"] Suc.prems(2) by (simp add: iter_at_entry_def it_Next_def)
    moreover have "drop i es = es ! i # drop (Suc i) es" using True by (simp add: Cons_nth_drop_Suc)
    ultimately show ?thesis
      using it' entry_at_Valid [OF it'(2)] by (simp add: iter_at_entry_def entry_pair_eq)
  next
    case False
    then obtain it' where "ParseNextKey it = (False, it')" "iter_done cmp es rs it'"
      using ParseNextKey_before [OF layout small Suc.prems(1)] by auto
    then show ?thesis using False by (simp add: iter_done_def)
  qed
qed

lemma skip_entries_to:
  assumes layout: "block_layout es rs" and small: "length (block_bytes es rs) < 2 ^ 32"
  shows "iter_before cmp es rs it j \<Longrightarrow> j \<le> i \<Longrightarrow> i < length es \<Longrightarrow>
    iter_at_entry cmp es rs (skip_entries (offset_of es (Suc i)) it) i"
proof (induction "i - j" arbitrary: it j)
  case 0
  then obtain it' where it': "ParseNextKey it = (True, it')" "iter_at_entry cmp es rs it' i"
    using ParseNextKey_entry [OF layout small, of cmp it i] by auto
  then show ?case by (subst skip_entries.simps) (auto simp: iter_at_entry_def iter_before_def)
next
  case (Suc d)
  then have "j < i" by simp
  then obtain it' where it': "ParseNextKey it = (True, it')" "iter_at_entry cmp es rs it' j"
    using ParseNextKey_entry [OF layout small Suc.prems(1)] Suc.prems(3) by auto
  then have "NextEntryOffset it' < offset_of es (Suc i)"
    using offset_of_less [of "Suc j" "Suc i" es] \<open>j < i\<close> Suc.prems(3) by (simp add: iter_at_entry_def iter_before_def)
  moreover have "iter_at_entry cmp es rs (skip_entries (offset_of es (Suc i)) it') i"
    by (rule Suc.hyps(1) [of "Suc j"]) (use Suc it' \<open>j < i\<close> in \<open>simp_all add: iter_at_entry_def\<close>)
  ultimately show ?case using it' by (subst skip_entries.simps) simp
qed

lemma restart_before_spec:
  "(\<exists>r \<le> index. GetRestartPoint it r < original) \<Longrightarrow>
     \<exists>r \<le> index. restart_before it original index = Some r \<and> GetRestartPoint it r < original"
  by (induction index) (auto simp: le_Suc_eq)

lemma restart_before_None:
  "(\<forall>r \<le> index. original \<le> GetRestartPoint it r) \<Longrightarrow> restart_before it original index = None"
  by (induction index) (auto simp: le_Suc_eq)

lemma it_Prev_at:
  assumes layout: "block_layout es rs" and small: "length (block_bytes es rs) < 2 ^ 32"
    and at: "iter_at_entry cmp es rs it i"
  shows "if i = 0 then iter_done cmp es rs (it_Prev it) else iter_at_entry cmp es rs (it_Prev it) (i - 1)"
proof -
  have over: "iter_over cmp es rs it" and i: "i < length es" and cur: "it_current it = offset_of es i"
    and ri: "it_restart_index it < length rs"
    using at by (simp_all add: iter_at_entry_def iter_before_def)
  have "rs \<noteq> []" "hd rs = 0" using layout by (simp_all add: block_layout_def)
  then have 0: "GetRestartPoint it 0 = 0"
    using GetRestartPoint_layout [OF over _ small, of 0] by (simp add: hd_conv_nth)
  show ?thesis
  proof (cases i)
    case 0
    then have "restart_before it 0 (it_restart_index it) = None" by (intro restart_before_None) simp
    then show ?thesis using 0 over cur
      by (simp add: it_Prev_def iter_done_def iter_over_def it_Valid_def)
  next
    case (Suc j)
    moreover have "es \<noteq> []" using i by auto
    ultimately have "0 < offset_of es i" using offset_of_less [of 0 i es] by simp
    then obtain r where r: "r \<le> it_restart_index it" "restart_before it (offset_of es i) (it_restart_index it) = Some r"
      "GetRestartPoint it r < offset_of es i"
      using restart_before_spec [of "it_restart_index it" it "offset_of es i"] 0 by fastforce
    then have r_len: "r < length rs" using ri by simp
    let ?it = "it\<lparr>it_restart_index := r\<rparr>"
    have over': "iter_over cmp es rs ?it" using over by (simp add: iter_over_def)
    have "rs ! r < i"
      using r(3) GetRestartPoint_layout [OF over r_len small] offset_of_mono [of i "rs ! r" es] by linarith
    then have "rs ! r \<le> j" using Suc by simp
    then have "iter_at_entry cmp es rs (skip_entries (offset_of es (Suc j)) (SeekToRestartPoint r ?it)) j"
      using skip_entries_to [OF layout small SeekToRestartPoint_before [OF layout small over' r_len]] i Suc by simp
    then show ?thesis using Suc r(2) by (simp add: it_Prev_def cur)
  qed
qed

lemma block_backward_from:
  assumes layout: "block_layout es rs" and small: "length (block_bytes es rs) < 2 ^ 32"
  shows "iter_at_entry cmp es rs it i \<Longrightarrow> i + 1 < n \<Longrightarrow>
    block_backward n it = rev (map entry_pair (take (Suc i) es))"
proof (induction n arbitrary: it i)
  case (Suc n)
  note prev = it_Prev_at [OF layout small Suc.prems(1)]
  have i: "i < length es" using Suc.prems(1) by (simp add: iter_at_entry_def)
  have "block_backward n (it_Prev it) = rev (map entry_pair (take i es))"
  proof (cases i)
    case 0
    then show ?thesis using prev Suc.prems(2) by (cases n) (simp_all add: iter_done_def)
  next
    case (Suc j)
    then show ?thesis using Suc.IH [of "it_Prev it" j] prev Suc.prems(2) by simp
  qed
  then show ?case
    using Suc.prems(1) i entry_at_Valid [OF Suc.prems(1)]
    by (simp add: iter_at_entry_def entry_pair_eq take_Suc_conv_app_nth)
qed simp

subsection \<open>Seeking\<close>

lemma keys_below:
  assumes "key_order valid (Compare c)"
    and "ascending (Compare c) (map entry_key es)" "\<forall>e \<in> set es. valid (entry_key e)" "valid target"
    and "j < length es" "Compare c (entry_key (es ! j)) target < 0" "i \<le> j"
  shows "Compare c (entry_key (es ! i)) target < 0"
proof (cases "i = j")
  case False
  then have "i < j" using assms(7) by simp
  then have "Compare c (entry_key (es ! i)) (entry_key (es ! j)) < 0"
    using assms(2,5) by (simp add: ascending_def sorted_wrt_iff_nth_less)
  then show ?thesis
    using key_order.compare_less_trans [OF assms(1), of "entry_key (es ! i)" "entry_key (es ! j)" target] assms(3-6)
      \<open>i < j\<close> by simp
qed (use assms(6) in simp)

lemma seek_linear_spec:
  assumes layout: "block_layout es rs" and small: "length (block_bytes es rs) < 2 ^ 32"
  shows "iter_before c es rs it j \<Longrightarrow>
    \<forall>i < j. Compare c (entry_key (es ! i)) target < 0 \<Longrightarrow>
    i = length (takeWhile (\<lambda>e. Compare c (entry_key e) target < 0) es) \<Longrightarrow>
    if i < length es then iter_at_entry c es rs (seek_linear target it) i
    else iter_done c es rs (seek_linear target it)"
proof (induction "length es - j" arbitrary: it j rule: less_induct)
  case less
  have len: "i \<le> length es" unfolding less.prems(3) by (rule length_takeWhile_le)
  have below: "Compare c (entry_key (es ! n)) target < 0" if "n < i" for n
    using that nth_mem [of n "takeWhile (\<lambda>e. Compare c (entry_key e) target < 0) es"] takeWhile_nth [of n]
    unfolding less.prems(3) by (metis set_takeWhileD)
  have stop: "\<not> Compare c (entry_key (es ! i)) target < 0" if "i < length es"
    using that nth_length_takeWhile unfolding less.prems(3) by blast
  have j: "j \<le> length es" "it_comparator it = c" using less.prems(1) by (simp_all add: iter_before_def iter_over_def)
  have "j \<le> i" using stop less.prems(2) j(1) by (meson not_le_imp_less order_less_le_trans)
  show ?case
  proof (cases "j < length es")
    case True
    then obtain it' where it': "ParseNextKey it = (True, it')" "iter_at_entry c es rs it' j"
      using ParseNextKey_entry [OF layout small less.prems(1)] by auto
    then have key: "it_key it' = entry_key (es ! j)" "it_comparator it' = c"
      by (simp_all add: iter_at_entry_def iter_before_def iter_over_def)
    show ?thesis
    proof (cases "j = i")
      case True
      then have "seek_linear target it = it'"
        using it' key stop \<open>j < length es\<close> by (subst seek_linear.simps) simp
      then show ?thesis using it' True \<open>j < length es\<close> by simp
    next
      case False
      then have "j < i" using \<open>j \<le> i\<close> by simp
      then have "seek_linear target it = seek_linear target it'"
        using it' key below [OF \<open>j < i\<close>] by (subst seek_linear.simps) simp
      moreover have "if i < length es then iter_at_entry c es rs (seek_linear target it') i
          else iter_done c es rs (seek_linear target it')"
        by (rule less.hyps [of "Suc j"])
          (use it' \<open>j < length es\<close> below \<open>j < i\<close> less.prems(3) in \<open>auto simp: iter_at_entry_def\<close>)
      ultimately show ?thesis by simp
    qed
  next
    case False
    then have "j = length es" using j(1) by simp
    then obtain it' where "ParseNextKey it = (False, it')" "iter_done c es rs it'"
      using ParseNextKey_end less.prems(1) by blast
    then show ?thesis using \<open>j \<le> i\<close> \<open>j = length es\<close> len by (subst (1 2) seek_linear.simps) simp
  qed
qed

lemma seek_restart_step:
  assumes layout: "block_layout es rs" and small: "length (block_bytes es rs) < 2 ^ 32"
    and over: "iter_over c es rs it" and es: "es \<noteq> []"
    and mid: "mid = (left + right + 1) div 2" "left < right" "right < length rs"
  shows "seek_restart it target left right =
    (if Compare c (entry_key (es ! (rs ! mid))) target < 0 then seek_restart it target mid right
     else seek_restart it target left (mid - 1))"
proof -
  let ?i = "rs ! mid"
  have m: "mid < length rs" using mid by linarith
  have i: "?i < length es" and sh: "entry_shared (es ! ?i) = 0"
    using layout es nth_mem [OF m] by (simp_all add: block_layout_def)
  define n where "n = length (entries_bytes es)"
  have it: "it_data it = block_bytes es rs" "it_restarts it = n" "it_comparator it = c"
    using over by (simp_all add: iter_over_def n_def)
  note decoded = entry_decoded [OF layout small i refl n_def refl refl refl]
  from decoded(1) obtain p where dec:
      "DecodeEntry (take (n - offset_of es ?i) (drop (offset_of es ?i) (block_bytes es rs))) =
        Some (0, of_nat (length (entry_key (es ! ?i))), of_nat (length (entry_value (es ! ?i))), p)"
    and k: "take (length (entry_key (es ! ?i))) (drop (n - length p) (block_bytes es rs)) = entry_key (es ! ?i)"
    by (auto simp: sh)
  have "n \<le> length (block_bytes es rs)" by (simp add: length_block_bytes n_def)
  then show ?thesis
    using mid(2) decoded(3)
    by (subst seek_restart.simps)
      (simp add: mid(1) [symmetric, simplified] GetRestartPoint_layout [OF over m small] it dec k sh min_absorb1 del: seek_restart.simps)
qed

lemma seek_restart_spec:
  assumes layout: "block_layout es rs" and small: "length (block_bytes es rs) < 2 ^ 32"
    and over: "iter_over c es rs it"
  shows "left \<le> right \<Longrightarrow> right < length rs \<Longrightarrow>
    left = 0 \<or> Compare c (entry_key (es ! (rs ! left))) target < 0 \<Longrightarrow>
    \<exists>l < length rs. seek_restart it target left right = Some l \<and>
      (l = 0 \<or> Compare c (entry_key (es ! (rs ! l))) target < 0)"
proof (induction "right - left" arbitrary: left right rule: less_induct)
  case less
  show ?case
  proof (cases "left < right")
    case True
    have "es \<noteq> []" using layout True less.prems(2) by (auto simp: block_layout_def)
    define mid where "mid = (left + right + 1) div 2"
    have mid: "left < mid" "mid \<le> right" using True by (simp_all add: mid_def)
    note step = seek_restart_step [OF layout small over \<open>es \<noteq> []\<close> mid_def True less.prems(2)]
    show ?thesis
    proof (cases "Compare c (entry_key (es ! (rs ! mid))) target < 0")
      case True
      then show ?thesis using step less.hyps [of right mid] mid less.prems(2) by simp
    next
      case False
      then show ?thesis using step less.hyps [of "mid - 1" left] mid less.prems by simp
    qed
  next
    case False
    then show ?thesis using less.prems by (subst seek_restart.simps) auto
  qed
qed

lemma it_Seek_spec:
  assumes layout: "block_layout es rs" and small: "length (block_bytes es rs) < 2 ^ 32"
    and over: "iter_over c es rs it" and order: "key_order valid (Compare c)"
    and keys: "ascending (Compare c) (map entry_key es)" "\<forall>e \<in> set es. valid (entry_key e)" "valid target"
    and i: "i = length (takeWhile (\<lambda>e. Compare c (entry_key e) target < 0) es)"
  shows "if i < length es then iter_at_entry c es rs (it_Seek target it) i
    else iter_done c es rs (it_Seek target it)"
proof -
  have "0 < length rs" using layout by (simp add: block_layout_def)
  then obtain l where l: "l < length rs" "seek_restart it target 0 (length rs - 1) = Some l"
    "l = 0 \<or> Compare c (entry_key (es ! (rs ! l))) target < 0"
    using seek_restart_spec [OF layout small over, of 0 "length rs - 1" target] by auto
  note before = SeekToRestartPoint_before [OF layout small over l(1)]
  have "\<forall>i < rs ! l. Compare c (entry_key (es ! i)) target < 0"
  proof (cases "l = 0")
    case True
    have "rs ! 0 = 0" using layout by (simp add: block_layout_def) (metis hd_conv_nth)
    then show ?thesis using True by simp
  next
    case False
    then have "es \<noteq> []" using layout l(1) by (auto simp: block_layout_def)
    then have "rs ! l < length es" using layout l(1) by (simp add: block_layout_def)
    then show ?thesis using keys_below [OF order keys, of "rs ! l"] l(3) False by simp
  qed
  then have "if i < length es then iter_at_entry c es rs (seek_linear target (SeekToRestartPoint l it)) i
      else iter_done c es rs (seek_linear target (SeekToRestartPoint l it))"
    by (rule seek_linear_spec [OF layout small before _ i])
  moreover have "it_Seek target it = seek_linear target (SeekToRestartPoint l it)"
    using l(2) over by (simp add: it_Seek_def iter_over_def)
  ultimately show ?thesis by simp
qed

subsection \<open>The builder\<close>

definition built :: "BlockBuilder \<Rightarrow> block_entry list \<Rightarrow> nat list \<Rightarrow> bool" where
  "built b es rs \<longleftrightarrow>
     block_layout es rs \<and> bb_buffer b = entries_bytes es \<and>
     bb_restarts b = map (\<lambda>r. of_nat (offset_of es r)) rs \<and>
     bb_last_key b = key_before es (length es) \<and> 1 \<le> bb_interval b \<and> (es = [] \<longrightarrow> bb_counter b = 0)"

lemma built_empty: "1 \<le> interval \<Longrightarrow> built (mk_BlockBuilder interval) [] [0]"
  by (simp add: built_def block_layout_def mk_BlockBuilder_def key_before_def)

lemma built_Reset: "1 \<le> bb_interval b \<Longrightarrow> built (bb_Reset b) [] [0]"
  by (simp add: built_def block_layout_def bb_Reset_def key_before_def)

lemma key_before_append: "i \<le> length es \<Longrightarrow> key_before (es @ xs) i = key_before es i"
  by (cases i) (simp_all add: key_before_def nth_append)

lemma key_before_0 [simp]: "key_before es 0 = []"
  by (simp add: key_before_def)

lemma offset_of_append: "i \<le> length es \<Longrightarrow> offset_of (es @ xs) i = offset_of es i"
  by (simp add: offset_of_def)

lemma block_layout_append:
  assumes "block_layout es rs" "entry_shared e \<le> length (entry_key e)" "shares (key_before es (length es)) e"
    and "rs' = rs \<or> rs' = rs @ [length es] \<and> es \<noteq> [] \<and> entry_shared e = 0"
  shows "block_layout (es @ [e]) rs'"
proof -
  have "shares (key_before (es @ [e]) i) ((es @ [e]) ! i) \<and>
      entry_shared ((es @ [e]) ! i) \<le> length (entry_key ((es @ [e]) ! i))" if "i < Suc (length es)" for i
    using that assms(1-3) by (auto simp: block_layout_def less_Suc_eq nth_append key_before_append)
  moreover have "entry_shared e = 0" if "es = []" using assms(3) that by (simp add: shares_def key_before_def)
  then have "r < Suc (length es) \<and> entry_shared ((es @ [e]) ! r) = 0" if "r \<in> set rs'" for r
    using that assms(1,4) by (cases "es = []") (auto simp: block_layout_def nth_append less_Suc_eq)
  moreover have "rs' \<noteq> []" "hd rs' = 0" using assms(1,4) by (auto simp: block_layout_def)
  ultimately show ?thesis by (simp add: block_layout_def)
qed

lemma block_restarts_bound: "block_layout es rs \<Longrightarrow> r \<in> set rs \<Longrightarrow> r \<le> length es"
  by (cases "es = []") (auto simp: block_layout_def less_imp_le)

lemma bb_Add_built:
  assumes "built b es rs"
  shows "\<exists>e rs'. entry_pair e = (key, val) \<and> built (bb_Add key val b) (es @ [e]) rs'"
proof -
  define shared where
    "shared = (if bb_counter b < bb_interval b
       then common_prefix (bb_last_key b) key (min (length (bb_last_key b)) (length key)) 0 else 0)"
  define e where "e = (shared, key, val)"
  define rs' where "rs' = (if bb_counter b < bb_interval b then rs else rs @ [length es])"
  have inv: "block_layout es rs" "bb_buffer b = entries_bytes es"
    "bb_restarts b = map (\<lambda>r. of_nat (offset_of es r)) rs" "bb_last_key b = key_before es (length es)"
    "1 \<le> bb_interval b" "es = [] \<longrightarrow> bb_counter b = 0"
    using assms by (simp_all add: built_def)
  have sh: "shared \<le> length key" "shared \<le> length (bb_last_key b)" "take shared (bb_last_key b) = take shared key"
    using common_prefix_spec [of 0 "min (length (bb_last_key b)) (length key)" "bb_last_key b" key shared]
    by (auto simp: shared_def)
  have "shares (key_before es (length es)) e"
    using sh(2,3) by (simp add: shares_def e_def entry_simps inv(4))
  then have layout: "block_layout (es @ [e]) rs'"
    using sh(1) inv(1,5,6)
    by (intro block_layout_append [of es rs]) (auto simp: e_def entry_simps rs'_def shared_def)
  have buffer: "bb_buffer (bb_Add key val b) = entries_bytes (es @ [e])"
    unfolding bb_Add_def by (simp add: Let_def inv(2) e_def entry_bytes_def entry_simps PutVarint32_def shared_def)
  have "bb_restarts (bb_Add key val b) = bb_restarts b @
      (if bb_counter b < bb_interval b then [] else [of_nat (length (bb_buffer b))])"
    unfolding bb_Add_def by (simp add: Let_def)
  also have "\<dots> = map (\<lambda>r. of_nat (offset_of (es @ [e]) r)) rs'"
    using block_restarts_bound [OF inv(1)]
    by (simp add: inv(2,3) rs'_def offset_of_append)
  finally have restarts: "bb_restarts (bb_Add key val b) = map (\<lambda>r. of_nat (offset_of (es @ [e]) r)) rs'" .
  have "bb_last_key (bb_Add key val b) = take shared (bb_last_key b) @ drop shared key"
    unfolding bb_Add_def by (simp add: Let_def shared_def)
  then have last: "bb_last_key (bb_Add key val b) = key_before (es @ [e]) (length (es @ [e]))"
    using sh(3) by (simp add: key_before_def e_def entry_simps)
  have "bb_interval (bb_Add key val b) = bb_interval b" unfolding bb_Add_def by (simp add: Let_def)
  then have "built (bb_Add key val b) (es @ [e]) rs'"
    unfolding built_def using layout buffer restarts last inv(5) by simp
  moreover have "entry_pair e = (key, val)" by (simp add: entry_pair_def e_def)
  ultimately show ?thesis by blast
qed

definition bb_add_all :: "(slice \<times> slice) list \<Rightarrow> BlockBuilder \<Rightarrow> BlockBuilder" where
  "bb_add_all kvs b = foldl (\<lambda>b (key, val). bb_Add key val b) b kvs"

lemma bb_add_all_built:
  "built b es rs \<Longrightarrow> \<exists>es' rs'. map entry_pair es' = map entry_pair es @ kvs \<and> built (bb_add_all kvs b) es' rs'"
proof (induction kvs arbitrary: b es rs)
  case Nil
  then show ?case by (auto simp: bb_add_all_def)
next
  case (Cons kv kvs)
  obtain k v where kv: "kv = (k, v)" by force
  obtain e rs1 where e: "entry_pair e = (k, v)" "built (bb_Add k v b) (es @ [e]) rs1"
    using bb_Add_built [OF Cons.prems] by blast
  obtain es' rs' where "map entry_pair es' = map entry_pair (es @ [e]) @ kvs" "built (bb_add_all kvs (bb_Add k v b)) es' rs'"
    using Cons.IH [OF e(2)] by blast
  then show ?case using e(1) kv by (intro exI [of _ es'] exI [of _ rs']) (simp add: bb_add_all_def)
qed

lemma bb_Finish_built:
  "built b es rs \<Longrightarrow> fst (bb_Finish b) = block_bytes es rs"
  by (simp add: built_def bb_Finish_def block_bytes_def Let_def PutFixed32_foldl PutFixed32_def)

lemma built_size: "built b es rs \<Longrightarrow> CurrentSizeEstimate b = length (fst (bb_Finish b))"
  by (simp add: bb_Finish_built length_block_bytes CurrentSizeEstimate_def) (simp add: built_def)

subsection \<open>The block that was built\<close>

lemma mk_Block_built:
  assumes layout: "block_layout es rs" and small: "length (block_bytes es rs) < 2 ^ 32"
  shows "mk_Block (block_bytes es rs) = \<lparr>bk_data = block_bytes es rs, bk_size = length (block_bytes es rs),
      bk_restart_offset = length (entries_bytes es)\<rparr>"
    and "NumRestarts (block_bytes es rs) (length (block_bytes es rs)) = of_nat (length rs)"
    and "unat (of_nat (length rs) :: u32) = length rs"
proof -
  let ?c = "block_bytes es rs"
  have len: "length ?c = length (entries_bytes es) + 4 * length rs + 4" by (rule length_block_bytes)
  show n: "unat (of_nat (length rs) :: u32) = length rs"
    using len small by (intro unat_of_nat_small) simp
  have "drop (length ?c - 4) ?c = EncodeFixed32 (of_nat (length rs))"
    unfolding len by (simp add: block_bytes_def del: map_map)
  then show num: "NumRestarts ?c (length ?c) = of_nat (length rs)"
    by (simp add: NumRestarts_def)
  have "length rs \<le> (length ?c - 4) div 4" unfolding len by simp
  then show "mk_Block ?c = \<lparr>bk_data = ?c, bk_size = length ?c, bk_restart_offset = length (entries_bytes es)\<rparr>"
    unfolding mk_Block_def Let_def num n by (simp add: len)
qed

lemma NewIterator_built:
  assumes layout: "block_layout es rs" and small: "length (block_bytes es rs) < 2 ^ 32"
  shows "\<exists>it. NewIterator c (mk_Block (block_bytes es rs)) = BlockIter it \<and> iter_over c es rs it"
proof -
  have "rs \<noteq> []" using layout by (simp add: block_layout_def)
  moreover have "4 \<le> length (block_bytes es rs)" by (simp add: length_block_bytes)
  ultimately have "NewIterator c (mk_Block (block_bytes es rs)) =
      BlockIter (mk_Iter c (block_bytes es rs) (length (entries_bytes es)) (length rs))"
    unfolding NewIterator_def mk_Block_built(1) [OF assms] by (simp add: mk_Block_built(2,3) [OF assms])
  then show ?thesis by (simp add: iter_over_def mk_Iter_def)
qed

text \<open>An iterator over what was added, and a layout that explains the bytes.\<close>

lemma built_block:
  assumes "1 \<le> bb_interval b" "contents = fst (bb_Finish (bb_add_all kvs (bb_Reset b)))" "length contents < 2 ^ 32"
  shows "\<exists>es rs it. map entry_pair es = kvs \<and> block_layout es rs \<and> length (block_bytes es rs) < 2 ^ 32 \<and>
    NewIterator c (mk_Block contents) = BlockIter it \<and> iter_over c es rs it"
proof -
  obtain es rs where built: "map entry_pair es = kvs" "built (bb_add_all kvs (bb_Reset b)) es rs"
    using bb_add_all_built [OF built_Reset [OF assms(1)], of kvs] by auto
  have c: "contents = block_bytes es rs" using bb_Finish_built [OF built(2)] assms(2) by simp
  have "block_layout es rs" using built(2) by (simp add: built_def)
  with NewIterator_built [of es rs c] built(1) assms(3) show ?thesis unfolding c by blast
qed

lemma iter_at_forward:
  assumes layout: "block_layout es rs" and small: "length (block_bytes es rs) < 2 ^ 32"
    and at: "iter_at_entry c es rs it i" and n: "length es < i + n"
  shows "block_forward n it = map entry_pair (drop i es)"
proof (cases n)
  case (Suc m)
  have i: "i < length es" using at by (simp add: iter_at_entry_def)
  have "block_forward m (it_Next it) = map entry_pair (drop (Suc i) es)"
    unfolding it_Next_def using at n Suc
    by (intro block_forward_from [OF layout small]) (auto simp: iter_at_entry_def)
  moreover have "drop i es = es ! i # drop (Suc i) es" using i by (simp add: Cons_nth_drop_Suc)
  ultimately show ?thesis
    using at Suc entry_at_Valid [OF at] by (simp add: iter_at_entry_def entry_pair_eq)
qed (use at n in \<open>simp add: iter_at_entry_def\<close>)

lemma it_SeekToFirst_forward:
  assumes layout: "block_layout es rs" and small: "length (block_bytes es rs) < 2 ^ 32"
    and over: "iter_over c es rs it" and n: "length es < n"
  shows "block_forward n (it_SeekToFirst it) = map entry_pair es"
proof -
  have "0 < length rs" "rs ! 0 = 0" using layout by (auto simp: block_layout_def hd_conv_nth)
  then have "iter_before c es rs (SeekToRestartPoint 0 it) 0"
    using SeekToRestartPoint_before [OF layout small over] by metis
  then show ?thesis
    using block_forward_from [OF layout small] n unfolding it_SeekToFirst_def by fastforce
qed

lemma it_SeekToLast_spec:
  assumes layout: "block_layout es rs" and small: "length (block_bytes es rs) < 2 ^ 32"
    and over: "iter_over c es rs it"
  shows "if es = [] then iter_done c es rs (it_SeekToLast it)
    else iter_at_entry c es rs (it_SeekToLast it) (length es - 1)"
proof -
  have r: "length rs - 1 < length rs" using layout by (simp add: block_layout_def)
  have rest: "it_restarts it = length (entries_bytes es)" "it_num_restarts it = length rs"
    using over by (simp_all add: iter_over_def)
  note before = SeekToRestartPoint_before [OF layout small over r]
  show ?thesis
  proof (cases es rule: rev_cases)
    case Nil
    then have "iter_before c es rs (SeekToRestartPoint (length rs - 1) it) (length es)"
      using before by (simp add: iter_before_def)
    then have "iter_done c es rs (it_SeekToLast it)"
      using ParseNextKey_end unfolding it_SeekToLast_def rest by (subst skip_entries.simps) fastforce
    then show ?thesis using Nil by simp
  next
    case (snoc es' e)
    have i: "length es' < length es" "offset_of es (Suc (length es')) = length (entries_bytes es)" by (simp_all add: snoc)
    have "rs ! (length rs - 1) \<le> length es'"
      using block_restarts_bound layout r snoc nth_mem [OF r] unfolding block_layout_def by fastforce
    then have "iter_at_entry c es rs (it_SeekToLast it) (length es')"
      using skip_entries_to [OF layout small before _ i(1)] unfolding it_SeekToLast_def rest i(2) by blast
    then show ?thesis by (simp add: snoc)
  qed
qed

lemma it_SeekToLast_backward:
  assumes layout: "block_layout es rs" and small: "length (block_bytes es rs) < 2 ^ 32"
    and over: "iter_over c es rs it" and n: "length es < n"
  shows "block_backward n (it_SeekToLast it) = rev (map entry_pair es)"
proof (cases "es = []")
  case True
  then show ?thesis using it_SeekToLast_spec [OF layout small over] n by (cases n) (simp_all add: iter_done_def)
next
  case False
  then have "iter_at_entry c es rs (it_SeekToLast it) (length es - 1)" "Suc (length es - 1) = length es"
    using it_SeekToLast_spec [OF layout small over] by simp_all
  then show ?thesis using block_backward_from [OF layout small, of c _ "length es - 1" n] n by simp
qed

lemma it_Seek_forward:
  assumes layout: "block_layout es rs" and small: "length (block_bytes es rs) < 2 ^ 32"
    and over: "iter_over c es rs it" and order: "key_order valid (Compare c)"
    and keys: "ascending (Compare c) (map entry_key es)" "\<forall>e \<in> set es. valid (entry_key e)" "valid target"
    and n: "length es < n"
  shows "block_forward n (it_Seek target it) =
      dropWhile (\<lambda>(k, v). Compare c k target < 0) (map entry_pair es)"
    and "it_status (it_Seek target it) = status_OK"
proof -
  define i where "i = length (takeWhile (\<lambda>e. Compare c (entry_key e) target < 0) es)"
  note spec = it_Seek_spec [OF layout small over order keys i_def]
  have drop: "drop i (map entry_pair es) = dropWhile (\<lambda>(k, v). Compare c k target < 0) (map entry_pair es)"
    by (simp add: i_def dropWhile_eq_drop [symmetric] dropWhile_map o_def entry_pair_eq flip: drop_map)
      (simp add: dropWhile_eq_drop drop_map)
  show "it_status (it_Seek target it) = status_OK"
    using spec by (auto simp: iter_at_entry_def iter_before_def iter_over_def iter_done_def split: if_splits)
  show "block_forward n (it_Seek target it) =
      dropWhile (\<lambda>(k, v). Compare c k target < 0) (map entry_pair es)"
  proof (cases "i < length es")
    case True
    then have "block_forward n (it_Seek target it) = map entry_pair (drop i es)"
      using spec n by (intro iter_at_forward [OF layout small]) auto
    then show ?thesis using drop by (simp add: drop_map)
  next
    case False
    then have "iter_done c es rs (it_Seek target it)" using spec by simp
    then have "block_forward n (it_Seek target it) = []" by (cases n) (simp_all add: iter_done_def)
    then show ?thesis unfolding drop [symmetric] using False by simp
  qed
qed

subsection \<open>Properties of blocks\<close>

text \<open>C26: a block built from any keys and values, of less than 4 GB and in ascending order or not, has the size the builder
  estimated, and its iterator gives back exactly what was added: from the first entry on, in
  order, and from the last entry back, in reverse.\<close>

theorem block_roundtrip:
  assumes "1 \<le> bb_interval b" and "contents = fst (bb_Finish (bb_add_all kvs (bb_Reset b)))"
    and "length contents < 2 ^ 32"
  shows "length contents = CurrentSizeEstimate (bb_add_all kvs (bb_Reset b)) \<and>
    (\<exists>it. NewIterator cmp (mk_Block contents) = BlockIter it \<and>
      block_forward (length kvs + 1) (it_SeekToFirst it) = kvs \<and>
      block_backward (length kvs + 1) (it_SeekToLast it) = rev kvs)"
proof -
  obtain es rs it where b: "map entry_pair es = kvs" "block_layout es rs" "length (block_bytes es rs) < 2 ^ 32"
    "NewIterator cmp (mk_Block contents) = BlockIter it" "iter_over cmp es rs it"
    using built_block [OF assms] by blast
  have n: "length es < length kvs + 1" using b(1) by auto
  have "\<exists>es rs. built (bb_add_all kvs (bb_Reset b)) es rs"
    using bb_add_all_built [OF built_Reset [OF assms(1)], of kvs] by blast
  then have "length contents = CurrentSizeEstimate (bb_add_all kvs (bb_Reset b))"
    using built_size assms(2) by auto
  then show ?thesis
    using it_SeekToFirst_forward [OF b(2,3,5) n] it_SeekToLast_backward [OF b(2,3,5) n] b(1,4) by blast
qed

lemma block_roundtrip_witness:
  "\<exists>it. NewIterator BytewiseComparator
      (mk_Block (fst (bb_Finish (bb_add_all [([1, 2], [7]), ([1, 2, 3], []), ([2], [8, 9])] (bb_Reset (mk_BlockBuilder 2)))))) =
      BlockIter it \<and>
    block_backward (length [([1, 2], [7]), ([1, 2, 3], []), ([2 :: byte], [8 :: byte, 9])] + 1) (it_SeekToLast it) =
      rev [([1, 2], [7]), ([1, 2, 3], []), ([2], [8, 9])]"
proof -
  have 1: "1 \<le> bb_interval (mk_BlockBuilder 2)" by (simp add: mk_BlockBuilder_def)
  have "length (fst (bb_Finish (bb_add_all [([1, 2], [7]), ([1, 2, 3], []), ([2], [8, 9])] (bb_Reset (mk_BlockBuilder 2))))) < 2 ^ 32"
    by (rule le_less_trans [of _ 50], code_simp, simp)
  from block_roundtrip [OF 1 refl this, of BytewiseComparator] show ?thesis by blast
qed

text \<open>C27: seeking in a block whose keys ascend goes to the first key that is not below the target,
  or past the end when all are below it, without an error: what is then left to iterate is
  exactly the entries from the target on.\<close>

theorem block_seek:
  assumes "1 \<le> bb_interval b" and "contents = fst (bb_Finish (bb_add_all kvs (bb_Reset b)))"
    and "length contents < 2 ^ 32" and "key_order valid (Compare cmp)"
    and "ascending (Compare cmp) (map fst kvs)" and "\<forall>(k, v) \<in> set kvs. valid k" and "valid target"
  shows "\<exists>it. NewIterator cmp (mk_Block contents) = BlockIter it \<and>
    block_forward (length kvs + 1) (it_Seek target it) = dropWhile (\<lambda>(k, v). Compare cmp k target < 0) kvs \<and>
    it_status (it_Seek target it) = status_OK"
proof -
  obtain es rs it where b: "map entry_pair es = kvs" "block_layout es rs" "length (block_bytes es rs) < 2 ^ 32"
    "NewIterator cmp (mk_Block contents) = BlockIter it" "iter_over cmp es rs it"
    using built_block [OF assms(1-3)] by blast
  have n: "length es < length kvs + 1" using b(1) by auto
  have keys: "map fst kvs = map entry_key es" unfolding b(1) [symmetric] by (simp add: entry_pair_eq)
  have valid: "\<forall>e \<in> set es. valid (entry_key e)"
    using assms(6) unfolding b(1) [symmetric] by (auto simp: entry_pair_eq)
  show ?thesis
    using it_Seek_forward [OF b(2,3,5) assms(4) assms(5) [unfolded keys] valid assms(7) n] b(1,4) by blast
qed

lemma block_seek_witness:
  "\<exists>it. NewIterator BytewiseComparator
      (mk_Block (fst (bb_Finish (bb_add_all [([1, 2], [7]), ([1, 2, 3], []), ([2], [8, 9])] (bb_Reset (mk_BlockBuilder 2)))))) =
      BlockIter it \<and>
    block_forward (length [([1, 2], [7]), ([1, 2, 3], []), ([2 :: byte], [8 :: byte, 9])] + 1) (it_Seek [1, 2, 0] it) =
      dropWhile (\<lambda>(k, v). Compare BytewiseComparator k [1, 2, 0] < 0) [([1, 2], [7]), ([1, 2, 3], []), ([2], [8, 9])]"
proof -
  let ?kvs = "[([1, 2], [7]), ([1, 2, 3], []), ([2], [8, 9])] :: (slice \<times> slice) list"
  have 1: "1 \<le> bb_interval (mk_BlockBuilder 2)" by (simp add: mk_BlockBuilder_def)
  have 2: "length (fst (bb_Finish (bb_add_all ?kvs (bb_Reset (mk_BlockBuilder 2))))) < 2 ^ 32"
    by (rule le_less_trans [of _ 50], code_simp, simp)
  have 3: "ascending (Compare BytewiseComparator) (map fst ?kvs)"
    by (simp add: ascending_def Compare_bytewise)
  have 4: "\<forall>(k, v) \<in> set ?kvs. any k" "any [1, 2, 0 :: byte]" by (simp_all add: any_def)
  from block_seek [OF 1 refl 2 bytewise.user.key_order_axioms 3 4] show ?thesis by blast
qed

text \<open>The sum of the two lengths is one of 32 bits: a corrupted entry whose lengths wrap passes the
  check although it says that 4 GB of the key follow.\<close>

lemma DecodeEntry_wraps:
  "DecodeEntry [0, 0xff, 0xff, 0xff, 0xff, 0x0f, 1] = Some (0, 0xffffffff, 1, [])"
  by code_simp

end
