(* ===== verification/Ldb_Version_Edit.thy ===== *)
theory Ldb_Version_Edit
  imports Ldb_Dbformat "HOL-Library.Product_Lexorder" "HOL-Library.Monad_Syntax"
begin

unbundle bit_operations_syntax

text \<open>
  The edits of LevelDB's descriptor log, \<^verbatim>\<open>db/version_edit.h\<close> and \<^verbatim>\<open>db/version_edit.cc\<close> under
  \<^verbatim>\<open>src/ios/Pods/leveldb-library/\<close>: what changes from one version of the database to the next. The
  set of deleted files is ordered by level and number, as \<^verbatim>\<open>std::set\<close> iterates over it.
\<close>

definition kNumLevels :: int where
  "kNumLevels = 7"

record FileMetaData =
  fm_refs :: int
  fm_allowed_seeks :: int
  fm_number :: u64
  fm_file_size :: u64
  fm_smallest :: slice
  fm_largest :: slice

text \<open>The constructor leaves the number unset; every use sets it.\<close>

definition mk_FileMetaData :: "u64 \<Rightarrow> FileMetaData" where
  "mk_FileMetaData number =
     \<lparr>fm_refs = 0, fm_allowed_seeks = 2 ^ 30, fm_number = number, fm_file_size = 0,
      fm_smallest = [], fm_largest = []\<rparr>"

record VersionEdit =
  ve_comparator :: slice
  ve_log_number :: u64
  ve_prev_log_number :: u64
  ve_next_file_number :: u64
  ve_last_sequence :: SequenceNumber
  has_comparator :: bool
  has_log_number :: bool
  has_prev_log_number :: bool
  has_next_file_number :: bool
  has_last_sequence :: bool
  compact_pointers :: "(int \<times> slice) list"
  deleted_files :: "(int \<times> u64) set"
  new_files :: "(int \<times> FileMetaData) list"

subsection \<open>Building an edit\<close>

text \<open>\<^verbatim>\<open>Clear\<close> does not touch the compaction pointers.\<close>

definition ve_Clear :: "VersionEdit \<Rightarrow> VersionEdit" where
  "ve_Clear e =
     e\<lparr>ve_comparator := [], ve_log_number := 0, ve_prev_log_number := 0, ve_last_sequence := 0,
       ve_next_file_number := 0, has_comparator := False, has_log_number := False,
       has_prev_log_number := False, has_next_file_number := False, has_last_sequence := False,
       deleted_files := {}, new_files := []\<rparr>"

definition mk_VersionEdit :: VersionEdit where
  "mk_VersionEdit =
     ve_Clear \<lparr>ve_comparator = [], ve_log_number = 0, ve_prev_log_number = 0,
       ve_next_file_number = 0, ve_last_sequence = 0, has_comparator = False, has_log_number = False,
       has_prev_log_number = False, has_next_file_number = False, has_last_sequence = False,
       compact_pointers = [], deleted_files = {}, new_files = []\<rparr>"

definition SetComparatorName :: "slice \<Rightarrow> VersionEdit \<Rightarrow> VersionEdit" where
  "SetComparatorName name e = e\<lparr>has_comparator := True, ve_comparator := name\<rparr>"

definition SetLogNumber :: "u64 \<Rightarrow> VersionEdit \<Rightarrow> VersionEdit" where
  "SetLogNumber num e = e\<lparr>has_log_number := True, ve_log_number := num\<rparr>"

definition SetPrevLogNumber :: "u64 \<Rightarrow> VersionEdit \<Rightarrow> VersionEdit" where
  "SetPrevLogNumber num e = e\<lparr>has_prev_log_number := True, ve_prev_log_number := num\<rparr>"

definition SetNextFile :: "u64 \<Rightarrow> VersionEdit \<Rightarrow> VersionEdit" where
  "SetNextFile num e = e\<lparr>has_next_file_number := True, ve_next_file_number := num\<rparr>"

definition SetLastSequence :: "SequenceNumber \<Rightarrow> VersionEdit \<Rightarrow> VersionEdit" where
  "SetLastSequence s e = e\<lparr>has_last_sequence := True, ve_last_sequence := s\<rparr>"

definition SetCompactPointer :: "int \<Rightarrow> slice \<Rightarrow> VersionEdit \<Rightarrow> VersionEdit" where
  "SetCompactPointer level key e = e\<lparr>compact_pointers := compact_pointers e @ [(level, key)]\<rparr>"

definition AddFile :: "int \<Rightarrow> u64 \<Rightarrow> u64 \<Rightarrow> slice \<Rightarrow> slice \<Rightarrow> VersionEdit \<Rightarrow> VersionEdit" where
  "AddFile level file_number file_size smallest largest e =
     (let f = (mk_FileMetaData file_number)
            \<lparr>fm_file_size := file_size, fm_smallest := smallest, fm_largest := largest\<rparr>
      in e\<lparr>new_files := new_files e @ [(level, f)]\<rparr>)"

definition ve_DeleteFile :: "int \<Rightarrow> u64 \<Rightarrow> VersionEdit \<Rightarrow> VersionEdit" where
  "ve_DeleteFile level file_number e = e\<lparr>deleted_files := insert (level, file_number) (deleted_files e)\<rparr>"

subsection \<open>Encoding\<close>

datatype Tag = kComparator | kLogNumber | kNextFileNumber | kLastSequence | kCompactPointer
  | kDeletedFile | kNewFile | kPrevLogNumber

definition tag_number :: "Tag \<Rightarrow> u32" where
  "tag_number t =
     (case t of kComparator \<Rightarrow> 1 | kLogNumber \<Rightarrow> 2 | kNextFileNumber \<Rightarrow> 3 | kLastSequence \<Rightarrow> 4
              | kCompactPointer \<Rightarrow> 5 | kDeletedFile \<Rightarrow> 6 | kNewFile \<Rightarrow> 7 | kPrevLogNumber \<Rightarrow> 9)"

definition put_number :: "bool \<Rightarrow> Tag \<Rightarrow> u64 \<Rightarrow> byte list \<Rightarrow> byte list" where
  "put_number has t number dst = (if has then PutVarint64 (PutVarint32 dst (tag_number t)) number else dst)"

text \<open>A key that was never set, or that was decoded from a slice of length zero, fails the assertion of
  \<^verbatim>\<open>InternalKey::Encode\<close>; encoding is then \<^const>\<open>None\<close>.\<close>

definition put_compact_pointer :: "byte list \<Rightarrow> int \<times> slice \<Rightarrow> byte list option" where
  "put_compact_pointer dst = (\<lambda>(level, key).
     let dst = PutVarint32 dst (tag_number kCompactPointer);
         dst = PutVarint32 dst (of_int level)
     in do { k \<leftarrow> InternalKey_Encode key; Some (PutLengthPrefixedSlice dst k) })"

definition put_deleted_file :: "byte list \<Rightarrow> int \<times> u64 \<Rightarrow> byte list" where
  "put_deleted_file dst = (\<lambda>(level, number).
     let dst = PutVarint32 dst (tag_number kDeletedFile);
         dst = PutVarint32 dst (of_int level)
     in PutVarint64 dst number)"

definition put_new_file :: "byte list \<Rightarrow> int \<times> FileMetaData \<Rightarrow> byte list option" where
  "put_new_file dst = (\<lambda>(level, f).
     let dst = PutVarint32 dst (tag_number kNewFile);
         dst = PutVarint32 dst (of_int level);
         dst = PutVarint64 dst (fm_number f);
         dst = PutVarint64 dst (fm_file_size f)
     in do { smallest \<leftarrow> InternalKey_Encode (fm_smallest f);
             let dst = PutLengthPrefixedSlice dst smallest;
             largest \<leftarrow> InternalKey_Encode (fm_largest f);
             Some (PutLengthPrefixedSlice dst largest) })"

text \<open>The loops over the compaction pointers and over the new files.\<close>

fun put_all :: "(byte list \<Rightarrow> 'a \<Rightarrow> byte list option) \<Rightarrow> byte list \<Rightarrow> 'a list \<Rightarrow> byte list option" where
  "put_all put dst [] = Some dst"
| "put_all put dst (x # xs) = do { dst \<leftarrow> put dst x; put_all put dst xs }"

definition ve_EncodeTo :: "VersionEdit \<Rightarrow> byte list \<Rightarrow> byte list option" where
  "ve_EncodeTo e dst =
     (let dst = (if has_comparator e
                 then PutLengthPrefixedSlice (PutVarint32 dst (tag_number kComparator)) (ve_comparator e)
                 else dst);
          dst = put_number (has_log_number e) kLogNumber (ve_log_number e) dst;
          dst = put_number (has_prev_log_number e) kPrevLogNumber (ve_prev_log_number e) dst;
          dst = put_number (has_next_file_number e) kNextFileNumber (ve_next_file_number e) dst;
          dst = put_number (has_last_sequence e) kLastSequence (ve_last_sequence e) dst
      in do { dst \<leftarrow> put_all put_compact_pointer dst (compact_pointers e);
              let dst = foldl put_deleted_file dst (sorted_list_of_set (deleted_files e));
              put_all put_new_file dst (new_files e) })"

subsection \<open>Decoding\<close>

text \<open>The readers return what they read and the input left, or nothing. The input after a failure is
  not looked at.\<close>

definition get_slice :: "slice \<Rightarrow> (slice \<times> slice) option" where
  "get_slice input =
     (case GetLengthPrefixedSlice input of (None, _) \<Rightarrow> None | (Some str, input) \<Rightarrow> Some (str, input))"

definition GetInternalKey :: "slice \<Rightarrow> (slice \<times> slice) option" where
  "GetInternalKey input = do { (str, input) \<leftarrow> get_slice input; Some (str, input) }"

definition GetLevel :: "slice \<Rightarrow> (int \<times> slice) option" where
  "GetLevel input =
     do { (v, input) \<leftarrow> GetVarint32 input;
          if uint v < kNumLevels then Some (uint v, input) else None }"

text \<open>One turn of the loop: the message of the error, or the input left and the edit.\<close>

definition get_number ::
  "string \<Rightarrow> slice \<Rightarrow> (u64 \<Rightarrow> VersionEdit) \<Rightarrow> string + (slice \<times> VersionEdit)" where
  "get_number msg input f =
     (case GetVarint64 input of None \<Rightarrow> Inl msg | Some (number, input) \<Rightarrow> Inr (input, f number))"

definition edit_step :: "u32 \<Rightarrow> slice \<Rightarrow> VersionEdit \<Rightarrow> string + (slice \<times> VersionEdit)" where
  "edit_step tag input e =
     (if tag = tag_number kComparator then
        (case get_slice input of
           Some (str, input) \<Rightarrow> Inr (input, e\<lparr>ve_comparator := str, has_comparator := True\<rparr>)
         | None \<Rightarrow> Inl ''comparator name'')
      else if tag = tag_number kLogNumber then
        get_number ''log number'' input (\<lambda>n. e\<lparr>ve_log_number := n, has_log_number := True\<rparr>)
      else if tag = tag_number kPrevLogNumber then
        get_number ''previous log number'' input
          (\<lambda>n. e\<lparr>ve_prev_log_number := n, has_prev_log_number := True\<rparr>)
      else if tag = tag_number kNextFileNumber then
        get_number ''next file number'' input
          (\<lambda>n. e\<lparr>ve_next_file_number := n, has_next_file_number := True\<rparr>)
      else if tag = tag_number kLastSequence then
        get_number ''last sequence number'' input
          (\<lambda>n. e\<lparr>ve_last_sequence := n, has_last_sequence := True\<rparr>)
      else if tag = tag_number kCompactPointer then
        (case do { (level, input) \<leftarrow> GetLevel input;
                   (key, input) \<leftarrow> GetInternalKey input;
                   Some (level, key, input) } of
           Some (level, key, input) \<Rightarrow>
             Inr (input, e\<lparr>compact_pointers := compact_pointers e @ [(level, key)]\<rparr>)
         | None \<Rightarrow> Inl ''compaction pointer'')
      else if tag = tag_number kDeletedFile then
        (case do { (level, input) \<leftarrow> GetLevel input;
                   (number, input) \<leftarrow> GetVarint64 input;
                   Some (level, number, input) } of
           Some (level, number, input) \<Rightarrow>
             Inr (input, e\<lparr>deleted_files := insert (level, number) (deleted_files e)\<rparr>)
         | None \<Rightarrow> Inl ''deleted file'')
      else if tag = tag_number kNewFile then
        (case do { (level, input) \<leftarrow> GetLevel input;
                   (number, input) \<leftarrow> GetVarint64 input;
                   (file_size, input) \<leftarrow> GetVarint64 input;
                   (smallest, input) \<leftarrow> GetInternalKey input;
                   (largest, input) \<leftarrow> GetInternalKey input;
                   Some (level, (mk_FileMetaData number)\<lparr>fm_file_size := file_size,
                     fm_smallest := smallest, fm_largest := largest\<rparr>, input) } of
           Some (level, f, input) \<Rightarrow> Inr (input, e\<lparr>new_files := new_files e @ [(level, f)]\<rparr>)
         | None \<Rightarrow> Inl ''new-file entry'')
      else Inl ''unknown tag'')"

lemma get_varint_loop_length: "get_varint_loop k s w p = Some (v, r) \<Longrightarrow> length r < length p"
  by (induction k s w p rule: get_varint_loop.induct) (auto simp: Let_def split: if_splits)

lemma GetVarint_length:
  "GetVarint32 p = Some (v, r) \<Longrightarrow> length r < length p"
  "GetVarint64 p = Some (w, r) \<Longrightarrow> length r < length p"
  by (auto simp: GetVarint32_def GetVarint32Ptr_def GetVarint32PtrFallback_def GetVarint64_def
      GetVarint64Ptr_def Let_def dest: get_varint_loop_length split: list.splits if_splits)

lemma get_slice_length: "get_slice p = Some (str, r) \<Longrightarrow> length r < length p"
  by (auto simp: get_slice_def GetLengthPrefixedSlice_def remove_prefix_def split: option.splits if_splits
      dest!: GetVarint_length(1))

lemma edit_step_length: "edit_step tag input e = Inr (input', e') \<Longrightarrow> length input' < length input"
  by (auto simp: edit_step_def get_number_def GetLevel_def GetInternalKey_def bind_eq_Some_conv
      split: if_splits option.splits dest!: GetVarint_length get_slice_length)

text \<open>The loop returns the message, if there is one, and the edit as far as it was read.\<close>

function ve_decode_loop :: "slice \<Rightarrow> VersionEdit \<Rightarrow> string option \<times> VersionEdit" where
  "ve_decode_loop input e =
     (case GetVarint32 input of
        None \<Rightarrow> (if input \<noteq> [] then Some ''invalid tag'' else None, e)
      | Some (tag, input) \<Rightarrow>
          (case edit_step tag input e of
             Inl msg \<Rightarrow> (Some msg, e)
           | Inr (input, e) \<Rightarrow> ve_decode_loop input e))"
  by auto
termination
  by (relation "measure (\<lambda>(input, e). length input)")
    (auto dest!: GetVarint_length(1) edit_step_length)

declare ve_decode_loop.simps [simp del]

definition ve_DecodeFrom :: "slice \<Rightarrow> VersionEdit \<Rightarrow> Status \<times> VersionEdit" where
  "ve_DecodeFrom src e =
     (case ve_decode_loop src (ve_Clear e) of
        (None, e) \<Rightarrow> (status_OK, e)
      | (Some msg, e) \<Rightarrow> (Corruption (c_string ''VersionEdit'') (c_string msg), e))"

subsection \<open>Printing\<close>

definition ve_DebugString :: "VersionEdit \<Rightarrow> byte list" where
  "ve_DebugString e =
     c_string ''VersionEdit {'' @
     (if has_comparator e then [0x0A] @ c_string ''  Comparator: '' @ ve_comparator e else []) @
     (if has_log_number e then AppendNumberTo ([0x0A] @ c_string ''  LogNumber: '') (ve_log_number e) else []) @
     (if has_prev_log_number e
      then AppendNumberTo ([0x0A] @ c_string ''  PrevLogNumber: '') (ve_prev_log_number e) else []) @
     (if has_next_file_number e
      then AppendNumberTo ([0x0A] @ c_string ''  NextFile: '') (ve_next_file_number e) else []) @
     (if has_last_sequence e
      then AppendNumberTo ([0x0A] @ c_string ''  LastSeq: '') (ve_last_sequence e) else []) @
     concat (map (\<lambda>(level, key).
       AppendNumberTo ([0x0A] @ c_string ''  CompactPointer: '') (of_int level) @ c_string '' '' @
       InternalKey_DebugString key) (compact_pointers e)) @
     concat (map (\<lambda>(level, number).
       AppendNumberTo (AppendNumberTo ([0x0A] @ c_string ''  DeleteFile: '') (of_int level) @ c_string '' '')
         number) (sorted_list_of_set (deleted_files e))) @
     concat (map (\<lambda>(level, f).
       AppendNumberTo (AppendNumberTo (AppendNumberTo ([0x0A] @ c_string ''  AddFile: '') (of_int level) @
         c_string '' '') (fm_number f) @ c_string '' '') (fm_file_size f) @ c_string '' '' @
       InternalKey_DebugString (fm_smallest f) @ c_string '' .. '' @ InternalKey_DebugString (fm_largest f))
       (new_files e)) @
     [0x0A] @ c_string ''}'' @ [0x0A]"

end
