(* ===== verification/Ldb_Version_Edit_Correct.thy ===== *)
theory Ldb_Version_Edit_Correct
  imports Ldb_Version_Edit Ldb_Coding_Correct
begin

unbundle bit_operations_syntax

text \<open>
  An edit is read back from what it was encoded to. Its entries are codes in the sense of
  \<^verbatim>\<open>Prefix_Codec\<close>: pairs of a level and a key, and of a level and a number.
\<close>

subsection \<open>The codes of the entries\<close>

definition valid_level :: "int \<Rightarrow> bool" where
  "valid_level l \<longleftrightarrow> 0 \<le> l \<and> l < kNumLevels"

definition encode_level :: "int \<Rightarrow> byte list" where
  "encode_level l = EncodeVarint32 (of_int l)"

lemma get_slice_eq: "get_slice = read_slice"
  by (rule ext) (simp add: get_slice_def read_slice_def)

lemma GetInternalKey_eq: "GetInternalKey = read_slice"
  by (rule ext) (auto simp: GetInternalKey_def get_slice_eq split: bind_splits)

interpretation level_codec: prefix_codec valid_level encode_level GetLevel
proof
  show "GetLevel (encode_level x @ r) = Some (x, r)" if "valid_level x" for x r
    using that by (simp add: GetLevel_def encode_level_def GetVarint32_def valid_level_def kNumLevels_def
        uint_word_of_int take_bit_int_eq_self)
  show "\<exists>vs. vs \<noteq> [] \<and> bs = vs @ r" if "GetLevel bs = Some (x, r)" for bs x r
    using that by (auto simp: GetLevel_def bind_eq_Some_conv split: if_splits dest: varint32.dec_consumes)
qed

interpretation key_codec: prefix_codec short_slice "PutLengthPrefixedSlice []" GetInternalKey
  unfolding GetInternalKey_eq by unfold_locales

interpretation level_key: codec_pair valid_level encode_level GetLevel
    short_slice "PutLengthPrefixedSlice []" GetInternalKey
  by unfold_locales

interpretation level_number: codec_pair valid_level encode_level GetLevel any EncodeVarint64 GetVarint64
  by unfold_locales

lemma put_appends:
  "PutVarint32 dst v = dst @ EncodeVarint32 v" "PutVarint64 dst w = dst @ EncodeVarint64 w"
  "PutLengthPrefixedSlice dst s = dst @ PutLengthPrefixedSlice [] s"
  by (simp_all add: PutVarint32_def PutVarint64_def PutLengthPrefixedSlice_def)

subsection \<open>Entries\<close>

definition valid_file :: "FileMetaData \<Rightarrow> bool" where
  "valid_file f \<longleftrightarrow> fm_refs f = 0 \<and> fm_allowed_seeks f = 2 ^ 30 \<and>
     short_slice (fm_smallest f) \<and> short_slice (fm_largest f)"

text \<open>The bytes of an entry after its tag, and the readers on them.\<close>

lemma GetLevel_encode [simp]:
  "valid_level l \<Longrightarrow> GetLevel (EncodeVarint32 (of_int l) @ r) = Some (l, r)"
  using level_codec.dec_enc [of l r] by (simp add: encode_level_def)

lemma get_slice_encode [simp]:
  "short_slice s \<Longrightarrow> get_slice (PutLengthPrefixedSlice [] s @ r) = Some (s, r)"
  "short_slice s \<Longrightarrow> GetInternalKey (PutLengthPrefixedSlice [] s @ r) = Some (s, r)"
  using lp_slice.dec_enc [of s r] by (simp_all add: get_slice_eq GetInternalKey_eq)

lemma decode_tag:
  "ve_decode_loop (EncodeVarint32 tag @ r) e =
    (case edit_step tag r e of Inl msg \<Rightarrow> (Some msg, e) | Inr (input, e) \<Rightarrow> ve_decode_loop input e)"
  by (subst ve_decode_loop.simps) (simp add: varint32.dec_enc any_def)

lemma decode_comparator:
  "short_slice c \<Longrightarrow> ve_decode_loop (EncodeVarint32 (tag_number kComparator) @ PutLengthPrefixedSlice [] c @ r) e =
    ve_decode_loop r (e\<lparr>ve_comparator := c, has_comparator := True\<rparr>)"
  by (simp add: decode_tag edit_step_def)

lemma decode_numbers:
  "ve_decode_loop (EncodeVarint32 (tag_number kLogNumber) @ EncodeVarint64 n @ r) e =
    ve_decode_loop r (e\<lparr>ve_log_number := n, has_log_number := True\<rparr>)"
  "ve_decode_loop (EncodeVarint32 (tag_number kPrevLogNumber) @ EncodeVarint64 n @ r) e =
    ve_decode_loop r (e\<lparr>ve_prev_log_number := n, has_prev_log_number := True\<rparr>)"
  "ve_decode_loop (EncodeVarint32 (tag_number kNextFileNumber) @ EncodeVarint64 n @ r) e =
    ve_decode_loop r (e\<lparr>ve_next_file_number := n, has_next_file_number := True\<rparr>)"
  "ve_decode_loop (EncodeVarint32 (tag_number kLastSequence) @ EncodeVarint64 n @ r) e =
    ve_decode_loop r (e\<lparr>ve_last_sequence := n, has_last_sequence := True\<rparr>)"
  by (simp_all add: decode_tag edit_step_def get_number_def tag_number_def)

text \<open>The bytes of an entry with keys, which is written if the keys are set.\<close>

definition pointer_bytes :: "int \<times> slice \<Rightarrow> byte list" where
  "pointer_bytes = (\<lambda>(l, k). EncodeVarint32 (tag_number kCompactPointer) @ EncodeVarint32 (of_int l) @
     PutLengthPrefixedSlice [] k)"

definition file_bytes :: "int \<times> FileMetaData \<Rightarrow> byte list" where
  "file_bytes = (\<lambda>(l, f). EncodeVarint32 (tag_number kNewFile) @ EncodeVarint32 (of_int l) @
     EncodeVarint64 (fm_number f) @ EncodeVarint64 (fm_file_size f) @
     PutLengthPrefixedSlice [] (fm_smallest f) @ PutLengthPrefixedSlice [] (fm_largest f))"

definition set_pointer :: "int \<times> slice \<Rightarrow> bool" where
  "set_pointer = (\<lambda>(l, k). k \<noteq> [])"

definition set_file :: "int \<times> FileMetaData \<Rightarrow> bool" where
  "set_file = (\<lambda>(l, f). fm_smallest f \<noteq> [] \<and> fm_largest f \<noteq> [])"

lemma put_entries:
  "put_compact_pointer dst p = (if set_pointer p then Some (dst @ pointer_bytes p) else None)"
  "put_deleted_file dst q = dst @ put_deleted_file [] q"
  "put_new_file dst x = (if set_file x then Some (dst @ file_bytes x) else None)"
  by (cases p, simp add: put_compact_pointer_def pointer_bytes_def set_pointer_def InternalKey_Encode_def
      PutVarint32_def PutLengthPrefixedSlice_def)
    (cases q, simp add: put_deleted_file_def Let_def PutVarint32_def PutVarint64_def,
     cases x, simp add: put_new_file_def file_bytes_def set_file_def InternalKey_Encode_def Let_def
       PutVarint32_def PutVarint64_def PutLengthPrefixedSlice_def)

lemma put_all_entries:
  assumes "\<And>dst x. put dst x = (if P x then Some (dst @ bytes x) else None)"
  shows "put_all put dst xs = (if \<forall>x \<in> set xs. P x then Some (dst @ concat (map bytes xs)) else None)"
  by (induction xs arbitrary: dst) (simp_all add: assms)

lemma decode_compact_pointer:
  "valid_level l \<Longrightarrow> short_slice k \<Longrightarrow> ve_decode_loop (pointer_bytes (l, k) @ r) e =
    ve_decode_loop r (e\<lparr>compact_pointers := compact_pointers e @ [(l, k)]\<rparr>)"
  by (simp add: pointer_bytes_def decode_tag edit_step_def tag_number_def)

lemma decode_deleted_file:
  "valid_level l \<Longrightarrow> ve_decode_loop (put_deleted_file [] (l, n) @ r) e =
    ve_decode_loop r (e\<lparr>deleted_files := insert (l, n) (deleted_files e)\<rparr>)"
  by (simp add: put_deleted_file_def PutVarint32_def PutVarint64_def Let_def decode_tag edit_step_def
      tag_number_def)

lemma valid_file_eq:
  "valid_file f \<Longrightarrow> (mk_FileMetaData (fm_number f))\<lparr>fm_file_size := fm_file_size f,
     fm_smallest := fm_smallest f, fm_largest := fm_largest f\<rparr> = f"
  by (simp add: valid_file_def mk_FileMetaData_def)

lemma decode_new_file:
  "valid_level l \<Longrightarrow> valid_file f \<Longrightarrow> ve_decode_loop (file_bytes (l, f) @ r) e =
    ve_decode_loop r (e\<lparr>new_files := new_files e @ [(l, f)]\<rparr>)"
  using valid_file_eq [of f]
  by (simp add: file_bytes_def decode_tag edit_step_def tag_number_def) (simp add: valid_file_def)

subsection \<open>Whole edits\<close>

text \<open>What the constructor and the setters make: a field that was not set has its cleared value.\<close>

definition good_edit :: "VersionEdit \<Rightarrow> bool" where
  "good_edit e \<longleftrightarrow>
     short_slice (ve_comparator e) \<and>
     (\<not> has_comparator e \<longrightarrow> ve_comparator e = []) \<and> (\<not> has_log_number e \<longrightarrow> ve_log_number e = 0) \<and>
     (\<not> has_prev_log_number e \<longrightarrow> ve_prev_log_number e = 0) \<and>
     (\<not> has_next_file_number e \<longrightarrow> ve_next_file_number e = 0) \<and>
     (\<not> has_last_sequence e \<longrightarrow> ve_last_sequence e = 0) \<and>
     (\<forall>(l, k) \<in> set (compact_pointers e). valid_level l \<and> short_slice k) \<and>
     finite (deleted_files e) \<and> (\<forall>(l, n) \<in> deleted_files e. valid_level l) \<and>
     (\<forall>(l, f) \<in> set (new_files e). valid_level l \<and> valid_file f)"

lemma good_edit_built:
  "good_edit mk_VersionEdit"
  "good_edit e \<Longrightarrow> short_slice name \<Longrightarrow> good_edit (SetComparatorName name e)"
  "good_edit e \<Longrightarrow> good_edit (SetLogNumber n e)"
  "good_edit e \<Longrightarrow> good_edit (SetPrevLogNumber n e)"
  "good_edit e \<Longrightarrow> good_edit (SetNextFile n e)"
  "good_edit e \<Longrightarrow> good_edit (SetLastSequence n e)"
  "good_edit e \<Longrightarrow> valid_level l \<Longrightarrow> short_slice k \<Longrightarrow> good_edit (SetCompactPointer l k e)"
  "good_edit e \<Longrightarrow> valid_level l \<Longrightarrow> good_edit (ve_DeleteFile l n e)"
  "good_edit e \<Longrightarrow> valid_level l \<Longrightarrow> short_slice a \<Longrightarrow> short_slice b \<Longrightarrow> good_edit (AddFile l n sz a b e)"
  "good_edit e \<Longrightarrow> good_edit (ve_Clear e)"
  by (auto simp: good_edit_def mk_VersionEdit_def ve_Clear_def SetComparatorName_def SetLogNumber_def
      SetPrevLogNumber_def SetNextFile_def SetLastSequence_def SetCompactPointer_def ve_DeleteFile_def
      AddFile_def Let_def valid_file_def mk_FileMetaData_def short_slice_def)

lemma foldl_put:
  "(\<And>dst x. put dst x = dst @ put [] x) \<Longrightarrow> foldl put dst xs = dst @ concat (map (put []) xs)"
proof (induction xs arbitrary: dst)
  case (Cons x xs)
  have "foldl put dst (x # xs) = put dst x @ concat (map (put []) xs)"
    using Cons.IH [OF Cons.prems] by simp
  then show ?case by (simp only: Cons.prems [of dst x] list.map concat.simps append_assoc)
qed simp

lemma decode_entries:
  "(\<And>x r e. x \<in> set xs \<Longrightarrow> ve_decode_loop (bytes x @ r) e = ve_decode_loop r (upd x e)) \<Longrightarrow>
    ve_decode_loop (concat (map bytes xs) @ r) e = ve_decode_loop r (fold upd xs e)"
  by (induction xs arbitrary: e) simp_all

lemma fold_entries:
  "fold (\<lambda>(l, k) e. e\<lparr>compact_pointers := compact_pointers e @ [(l, k)]\<rparr>) ps e =
    e\<lparr>compact_pointers := compact_pointers e @ ps\<rparr>"
  "fold (\<lambda>(l, n) e. e\<lparr>deleted_files := insert (l, n) (deleted_files e)\<rparr>) ds e =
    e\<lparr>deleted_files := set ds \<union> deleted_files e\<rparr>"
  "fold (\<lambda>(l, f) e. e\<lparr>new_files := new_files e @ [(l, f)]\<rparr>) fs e =
    e\<lparr>new_files := new_files e @ fs\<rparr>"
proof -
  show "fold (\<lambda>(l, k) e. e\<lparr>compact_pointers := compact_pointers e @ [(l, k)]\<rparr>) ps e =
      e\<lparr>compact_pointers := compact_pointers e @ ps\<rparr>"
    by (induction ps arbitrary: e) auto
  show "fold (\<lambda>(l, n) e. e\<lparr>deleted_files := insert (l, n) (deleted_files e)\<rparr>) ds e =
      e\<lparr>deleted_files := set ds \<union> deleted_files e\<rparr>"
    by (induction ds arbitrary: e) auto
  show "fold (\<lambda>(l, f) e. e\<lparr>new_files := new_files e @ [(l, f)]\<rparr>) fs e =
      e\<lparr>new_files := new_files e @ fs\<rparr>"
    by (induction fs arbitrary: e) auto
qed

lemma decode_optional:
  assumes "\<And>r e. ve_decode_loop (bs @ r) e = ve_decode_loop r (f e)"
  shows "ve_decode_loop ((if has then bs else []) @ r) e = ve_decode_loop r (if has then f e else e)"
  using assms by simp

lemma put_number_eq:
  "put_number has t n dst = dst @ (if has then EncodeVarint32 (tag_number t) @ EncodeVarint64 n else [])"
  by (simp add: put_number_def PutVarint32_def PutVarint64_def)

text \<open>What an edit is encoded to, and when it is: all the internal keys in it are set.\<close>

definition edit_bytes :: "VersionEdit \<Rightarrow> byte list" where
  "edit_bytes e =
     (if has_comparator e then EncodeVarint32 (tag_number kComparator) @ PutLengthPrefixedSlice [] (ve_comparator e)
      else []) @
     (if has_log_number e then EncodeVarint32 (tag_number kLogNumber) @ EncodeVarint64 (ve_log_number e) else []) @
     (if has_prev_log_number e
      then EncodeVarint32 (tag_number kPrevLogNumber) @ EncodeVarint64 (ve_prev_log_number e) else []) @
     (if has_next_file_number e
      then EncodeVarint32 (tag_number kNextFileNumber) @ EncodeVarint64 (ve_next_file_number e) else []) @
     (if has_last_sequence e
      then EncodeVarint32 (tag_number kLastSequence) @ EncodeVarint64 (ve_last_sequence e) else []) @
     concat (map pointer_bytes (compact_pointers e)) @
     concat (map (put_deleted_file []) (sorted_list_of_set (deleted_files e))) @
     concat (map file_bytes (new_files e))"

definition keys_set :: "VersionEdit \<Rightarrow> bool" where
  "keys_set e \<longleftrightarrow> (\<forall>(l, k) \<in> set (compact_pointers e). k \<noteq> []) \<and>
     (\<forall>(l, f) \<in> set (new_files e). fm_smallest f \<noteq> [] \<and> fm_largest f \<noteq> [])"

lemma ve_EncodeTo_eq: "ve_EncodeTo e dst = (if keys_set e then Some (dst @ edit_bytes e) else None)"
proof -
  have "(if has_comparator e then PutLengthPrefixedSlice (PutVarint32 dst (tag_number kComparator)) (ve_comparator e)
      else dst) = dst @ (if has_comparator e then EncodeVarint32 (tag_number kComparator) @
        PutLengthPrefixedSlice [] (ve_comparator e) else [])"
    by (simp add: PutVarint32_def PutLengthPrefixedSlice_def)
  then show ?thesis
    unfolding ve_EncodeTo_def Let_def put_number_eq
    by (simp add: foldl_put [of put_deleted_file, OF put_entries(2)] put_all_entries [OF put_entries(1)]
        put_all_entries [OF put_entries(3)] keys_set_def set_pointer_def set_file_def edit_bytes_def)
qed

lemma ve_decode_encoded:
  assumes "good_edit e"
  shows "ve_decode_loop (edit_bytes e) (ve_Clear e0) =
    (None, e\<lparr>compact_pointers := compact_pointers e0 @ compact_pointers e\<rparr>)"
proof -
  let ?c = "if has_comparator e then (ve_Clear e0)\<lparr>ve_comparator := ve_comparator e, has_comparator := True\<rparr> else ve_Clear e0"
  let ?l = "if has_log_number e then ?c\<lparr>ve_log_number := ve_log_number e, has_log_number := True\<rparr> else ?c"
  let ?p = "if has_prev_log_number e
    then ?l\<lparr>ve_prev_log_number := ve_prev_log_number e, has_prev_log_number := True\<rparr> else ?l"
  let ?n = "if has_next_file_number e
    then ?p\<lparr>ve_next_file_number := ve_next_file_number e, has_next_file_number := True\<rparr> else ?p"
  let ?s = "if has_last_sequence e
    then ?n\<lparr>ve_last_sequence := ve_last_sequence e, has_last_sequence := True\<rparr> else ?n"
  have good: "short_slice (ve_comparator e)" "\<forall>(l, k) \<in> set (compact_pointers e). valid_level l \<and> short_slice k"
    "finite (deleted_files e)" "\<forall>(l, n) \<in> deleted_files e. valid_level l"
    "\<forall>(l, f) \<in> set (new_files e). valid_level l \<and> valid_file f"
    using assms by (simp_all add: good_edit_def)
  have "ve_decode_loop (edit_bytes e) (ve_Clear e0) =
      ve_decode_loop [] (fold (\<lambda>(l, f) e. e\<lparr>new_files := new_files e @ [(l, f)]\<rparr>) (new_files e)
        (fold (\<lambda>(l, n) e. e\<lparr>deleted_files := insert (l, n) (deleted_files e)\<rparr>) (sorted_list_of_set (deleted_files e))
          (fold (\<lambda>(l, k) e. e\<lparr>compact_pointers := compact_pointers e @ [(l, k)]\<rparr>) (compact_pointers e) ?s)))"
    (is "_ = ?rhs")
  proof -
    have files: "ve_decode_loop (concat (map file_bytes (new_files e))) e1 =
        ve_decode_loop [] (fold (\<lambda>(l, f) e. e\<lparr>new_files := new_files e @ [(l, f)]\<rparr>) (new_files e) e1)" for e1
      using decode_entries [of "new_files e" file_bytes
          "\<lambda>(l, f) e. e\<lparr>new_files := new_files e @ [(l, f)]\<rparr>" "[]" e1] good(5)
      by (fastforce simp: decode_new_file)
    have deleted: "ve_decode_loop (concat (map (put_deleted_file []) (sorted_list_of_set (deleted_files e))) @ r) e1 =
        ve_decode_loop r (fold (\<lambda>(l, n) e. e\<lparr>deleted_files := insert (l, n) (deleted_files e)\<rparr>)
          (sorted_list_of_set (deleted_files e)) e1)" for r e1
      using good(3,4) by (intro decode_entries) (auto simp: decode_deleted_file)
    have pointers: "ve_decode_loop (concat (map pointer_bytes (compact_pointers e)) @ r) e1 =
        ve_decode_loop r (fold (\<lambda>(l, k) e. e\<lparr>compact_pointers := compact_pointers e @ [(l, k)]\<rparr>)
          (compact_pointers e) e1)" for r e1
      using good(2) by (intro decode_entries) (auto simp: decode_compact_pointer)
    show ?thesis
      unfolding edit_bytes_def
      by (subst decode_optional, simp add: decode_comparator good(1), (subst decode_optional, simp add: decode_numbers)+,
        simp only: pointers deleted files)
  qed
  also have "?rhs = ve_decode_loop []
      (?s\<lparr>compact_pointers := compact_pointers ?s @ compact_pointers e,
          deleted_files := deleted_files e \<union> deleted_files ?s, new_files := new_files ?s @ new_files e\<rparr>)"
    unfolding fold_entries using good(3) by simp
  also have "\<dots> = (None, ?s\<lparr>compact_pointers := compact_pointers ?s @ compact_pointers e,
          deleted_files := deleted_files e \<union> deleted_files ?s, new_files := new_files ?s @ new_files e\<rparr>)"
    by (subst ve_decode_loop.simps) (simp add: varint32.dec_Nil)
  also have "?s\<lparr>compact_pointers := compact_pointers ?s @ compact_pointers e,
          deleted_files := deleted_files e \<union> deleted_files ?s, new_files := new_files ?s @ new_files e\<rparr> =
      e\<lparr>compact_pointers := compact_pointers e0 @ compact_pointers e\<rparr>"
    using assms by (cases e) (auto simp: good_edit_def ve_Clear_def)
  finally show ?thesis .
qed



subsection \<open>What can be decoded\<close>

lemma get_slice_short: "get_slice input = Some (str, r) \<Longrightarrow> short_slice str"
  using u32_less
  by (auto simp: get_slice_def GetLengthPrefixedSlice_def short_slice_def split: option.splits if_splits
      intro: le_less_trans)

lemma GetInternalKey_short: "GetInternalKey input = Some (str, r) \<Longrightarrow> short_slice str"
  using get_slice_short by (auto simp: GetInternalKey_def bind_eq_Some_conv)

lemma GetLevel_valid: "GetLevel input = Some (l, r) \<Longrightarrow> valid_level l"
  by (auto simp: GetLevel_def valid_level_def bind_eq_Some_conv split: if_splits)

lemma good_edit_updates:
  assumes "good_edit e"
  shows "short_slice c \<Longrightarrow> good_edit (e\<lparr>ve_comparator := c, has_comparator := True\<rparr>)"
    "good_edit (e\<lparr>ve_log_number := n, has_log_number := True\<rparr>)"
    "good_edit (e\<lparr>ve_prev_log_number := n, has_prev_log_number := True\<rparr>)"
    "good_edit (e\<lparr>ve_next_file_number := n, has_next_file_number := True\<rparr>)"
    "good_edit (e\<lparr>ve_last_sequence := n, has_last_sequence := True\<rparr>)"
    "valid_level l \<Longrightarrow> short_slice k \<Longrightarrow> good_edit (e\<lparr>compact_pointers := compact_pointers e @ [(l, k)]\<rparr>)"
    "valid_level l \<Longrightarrow> good_edit (e\<lparr>deleted_files := insert (l, n) (deleted_files e)\<rparr>)"
    "valid_level l \<Longrightarrow> short_slice a \<Longrightarrow> short_slice b \<Longrightarrow>
      good_edit (e\<lparr>new_files := new_files e @ [(l, (mk_FileMetaData n)\<lparr>fm_file_size := sz,
        fm_smallest := a, fm_largest := b\<rparr>)]\<rparr>)"
  using assms by (auto simp: good_edit_def valid_file_def mk_FileMetaData_def)

definition good_result :: "string + (slice \<times> VersionEdit) \<Rightarrow> bool" where
  "good_result r \<longleftrightarrow> (case r of Inl msg \<Rightarrow> True | Inr (input, e) \<Rightarrow> good_edit e)"

lemma good_result_intros:
  "good_result x \<Longrightarrow> good_result y \<Longrightarrow> good_result (if b then x else y)"
  "good_result (Inl msg)"
  "good_edit e \<Longrightarrow> good_result (Inr (input, e))"
  "good_result y \<Longrightarrow> (\<And>x. r = Some x \<Longrightarrow> good_result (f x)) \<Longrightarrow> good_result (case r of None \<Rightarrow> y | Some x \<Rightarrow> f x)"
  "(\<And>a b. p = (a, b) \<Longrightarrow> good_result (g a b)) \<Longrightarrow> good_result (case p of (a, b) \<Rightarrow> g a b)"
  by (auto simp: good_result_def split: option.split prod.split)

lemma edit_step_good:
  assumes good: "good_edit e" and step: "edit_step tag input e = Inr (r, e')"
  shows "good_edit e'"
proof -
  have "good_result (edit_step tag input e)"
    unfolding edit_step_def get_number_def
    by (intro good_result_intros good_edit_updates [OF good])
      (auto simp: bind_eq_Some_conv elim: get_slice_short GetInternalKey_short GetLevel_valid
        intro!: good_edit_updates [OF good])
  then show ?thesis using step by (simp add: good_result_def)
qed

lemma ve_decode_loop_good: "good_edit e \<Longrightarrow> good_edit (snd (ve_decode_loop input e))"
proof (induction input e rule: ve_decode_loop.induct)
  case (1 input e)
  then show ?case
    by (subst ve_decode_loop.simps) (auto split: option.split sum.split dest: edit_step_good)
qed

lemma good_edit_decoded: "good_edit e0 \<Longrightarrow> good_edit (snd (ve_DecodeFrom src e0))"
  using ve_decode_loop_good [OF good_edit_built(10), of e0 src]
  by (auto simp: ve_DecodeFrom_def split: prod.split option.split)

lemma keys_set_built:
  "keys_set mk_VersionEdit"
  "keys_set e \<Longrightarrow> keys_set (SetComparatorName name e)"
  "keys_set e \<Longrightarrow> keys_set (SetLogNumber n e)"
  "keys_set e \<Longrightarrow> keys_set (SetPrevLogNumber n e)"
  "keys_set e \<Longrightarrow> keys_set (SetNextFile n e)"
  "keys_set e \<Longrightarrow> keys_set (SetLastSequence n e)"
  "keys_set (SetCompactPointer l k e) \<longleftrightarrow> k \<noteq> [] \<and> keys_set e"
  "keys_set e \<Longrightarrow> keys_set (ve_DeleteFile l n e)"
  "keys_set (AddFile l n sz a b e) \<longleftrightarrow> a \<noteq> [] \<and> b \<noteq> [] \<and> keys_set e"
  "keys_set e \<Longrightarrow> keys_set (ve_Clear e)"
  by (auto simp: keys_set_def mk_VersionEdit_def ve_Clear_def SetComparatorName_def SetLogNumber_def
      SetPrevLogNumber_def SetNextFile_def SetLastSequence_def SetCompactPointer_def ve_DeleteFile_def
      AddFile_def Let_def mk_FileMetaData_def)

lemma encode_decode:
  assumes "good_edit e"
  shows "case ve_EncodeTo e [] of
      None \<Rightarrow> \<not> keys_set e
    | Some bytes \<Rightarrow> keys_set e \<and>
        ve_DecodeFrom bytes e0 = (status_OK, e\<lparr>compact_pointers := compact_pointers e0 @ compact_pointers e\<rparr>)"
  by (simp add: ve_EncodeTo_eq ve_DecodeFrom_def ve_decode_encoded [OF assms])

subsection \<open>Properties\<close>

text \<open>C28: An edit whose levels are below the number of levels and whose names and keys are shorter than
  \<open>2\<^sup>3\<^sup>2\<close> bytes, which is what the constructor, the setters and \<^verbatim>\<open>Clear\<close> build of such arguments, is
  encoded exactly when none of its internal keys is empty; otherwise the assertion of
  \<^verbatim>\<open>InternalKey::Encode\<close> fails. It is then read back field for field, with one exception: \<^verbatim>\<open>Clear\<close>
  keeps the compaction pointers, so an edit that is read into comes out with those it had before in
  front of those read.\<close>

theorem version_edit_roundtrip:
  assumes "good_edit e"
  shows "case ve_EncodeTo e [] of
      None \<Rightarrow> \<not> keys_set e
    | Some bytes \<Rightarrow> keys_set e \<and>
        ve_DecodeFrom bytes e0 = (status_OK, e\<lparr>compact_pointers := compact_pointers e0 @ compact_pointers e\<rparr>)"
  by (rule encode_decode [OF assms])

lemma version_edit_roundtrip_witness:
  "\<exists>bytes. ve_EncodeTo (AddFile 2 7 100 [1] [2] (ve_DeleteFile 1 3 (SetLogNumber 9 mk_VersionEdit))) [] = Some bytes \<and>
     ve_DecodeFrom bytes (SetCompactPointer 1 [5] mk_VersionEdit) =
       (status_OK, (AddFile 2 7 100 [1] [2] (ve_DeleteFile 1 3 (SetLogNumber 9 mk_VersionEdit)))
         \<lparr>compact_pointers := [(1, [5])]\<rparr>)"
proof -
  let ?e = "AddFile 2 7 100 [1] [2] (ve_DeleteFile 1 3 (SetLogNumber 9 mk_VersionEdit))"
  have "good_edit ?e" by (simp add: good_edit_built valid_level_def kNumLevels_def short_slice_def)
  moreover have "keys_set ?e" by (simp add: keys_set_built)
  moreover have "compact_pointers (SetCompactPointer 1 [5] mk_VersionEdit) @ compact_pointers ?e = [(1, [5])]"
    by (simp add: AddFile_def ve_DeleteFile_def SetLogNumber_def SetCompactPointer_def mk_VersionEdit_def ve_Clear_def Let_def)
  ultimately show ?thesis
    using version_edit_roundtrip [of ?e "SetCompactPointer 1 [5] mk_VersionEdit"] by (auto split: option.splits)
qed

text \<open>C29: Whatever bytes are decoded, intact or not, the edit that is left, complete or cut short by an
  error, has its levels in range, keys of 32-bit lengths and cleared values where nothing was set. But
  its keys need not be set: a slice of length zero is accepted as an internal key, without an error,
  and such an edit fails an assertion when it is encoded again, as the two bytes after the tag of a
  compaction pointer show. Every edit without such a key can be encoded and decoded again.\<close>

theorem version_edit_decoded_good:
  assumes "good_edit e0"
  shows "(let e = snd (ve_DecodeFrom src e0) in good_edit e \<and>
      (case ve_EncodeTo e [] of
         None \<Rightarrow> \<not> keys_set e
       | Some bytes \<Rightarrow> keys_set e \<and> ve_DecodeFrom bytes mk_VersionEdit = (status_OK, e))) \<and>
    (let empty_key = ve_DecodeFrom [5, 1, 0] mk_VersionEdit in
      empty_key = (status_OK, SetCompactPointer 1 [] mk_VersionEdit) \<and> ve_EncodeTo (snd empty_key) [] = None)"
proof -
  let ?e = "snd (ve_DecodeFrom src e0)"
  have "compact_pointers mk_VersionEdit = []" by (simp add: mk_VersionEdit_def ve_Clear_def)
  moreover have "good_edit ?e" by (rule good_edit_decoded [OF assms])
  ultimately have "good_edit ?e \<and> (case ve_EncodeTo ?e [] of None \<Rightarrow> \<not> keys_set ?e
      | Some bytes \<Rightarrow> keys_set ?e \<and> ve_DecodeFrom bytes mk_VersionEdit = (status_OK, ?e))"
    using encode_decode [of ?e mk_VersionEdit] by (auto split: option.splits)
  moreover have "ve_DecodeFrom [5, 1, 0] mk_VersionEdit = (status_OK, SetCompactPointer 1 [] mk_VersionEdit)"
    by code_simp
  moreover have "ve_EncodeTo (SetCompactPointer 1 [] mk_VersionEdit) [] = None"
    by (simp add: ve_EncodeTo_eq keys_set_built)
  ultimately show ?thesis by (simp add: Let_def)
qed

lemma version_edit_decoded_good_witness:
  "good_edit (snd (ve_DecodeFrom [6, 9, 1] mk_VersionEdit))"
  using version_edit_decoded_good [OF good_edit_built(1), of "[6, 9, 1]"] by (simp add: Let_def)

end
