(* ===== verification/Ldb_Iterator.thy ===== *)
theory Ldb_Iterator
  imports Ldb_Block "HOL-Library.Monad_Syntax"
begin

text \<open>
  The iterators of LevelDB's tables: the interface of \<^verbatim>\<open>include/leveldb/iterator.h\<close> with
  \<^verbatim>\<open>table/iterator.cc\<close>, the caching wrapper of \<^verbatim>\<open>table/iterator_wrapper.h\<close> and the two-level
  iterator of \<^verbatim>\<open>table/two_level_iterator.cc\<close> under \<^verbatim>\<open>src/ios/Pods/leveldb-library/\<close>. An iterator is
  a state \<open>'i\<close> and the record of its virtual methods. What the methods share with the rest of the
  program, such as a block cache, is an environment \<open>'e\<close> passed through; a method that moves the
  iterator returns \<^const>\<open>None\<close> when it does not return, or follows a null pointer.
\<close>

subsection \<open>The interface\<close>

record ('i, 'e) Iterator =
  io_Valid :: "'i \<Rightarrow> bool"
  io_SeekToFirst :: "'i \<Rightarrow> 'e \<Rightarrow> ('i \<times> 'e) option"
  io_SeekToLast :: "'i \<Rightarrow> 'e \<Rightarrow> ('i \<times> 'e) option"
  io_Seek :: "slice \<Rightarrow> 'i \<Rightarrow> 'e \<Rightarrow> ('i \<times> 'e) option"
  io_Next :: "'i \<Rightarrow> 'e \<Rightarrow> ('i \<times> 'e) option"
  io_Prev :: "'i \<Rightarrow> 'e \<Rightarrow> ('i \<times> 'e) option"
  io_key :: "'i \<Rightarrow> slice"
  io_value :: "'i \<Rightarrow> slice"
  io_status :: "'i \<Rightarrow> Status"
  io_Destroy :: "'i \<Rightarrow> 'e \<Rightarrow> 'e"

text \<open>The cleanup functions of an iterator, in the order its destructor runs them: the first one
  stays in front, each later one goes just behind it.\<close>

fun RegisterCleanup :: "'c \<Rightarrow> 'c list \<Rightarrow> 'c list" where
  "RegisterCleanup c [] = [c]"
| "RegisterCleanup c (first # rest) = first # c # rest"

definition run_cleanups :: "('c \<Rightarrow> 'e \<Rightarrow> 'e) \<Rightarrow> 'c list \<Rightarrow> 'e \<Rightarrow> 'e" where
  "run_cleanups run cleanups e = fold run cleanups e"

subsection \<open>Block iterators\<close>

text \<open>The iterators that \<^verbatim>\<open>Block::NewIterator\<close> and \<^verbatim>\<open>NewErrorIterator\<close> make. The empty one only has a
  status; its \<^verbatim>\<open>Next\<close>, \<^verbatim>\<open>Prev\<close>, \<^verbatim>\<open>key\<close> and \<^verbatim>\<open>value\<close> must not be called.\<close>

fun bi_Valid :: "BlockIterator \<Rightarrow> bool" where
  "bi_Valid (BlockIter it) = it_Valid it"
| "bi_Valid b = False"

fun bi_key :: "BlockIterator \<Rightarrow> slice" where
  "bi_key (BlockIter it) = it_key it"
| "bi_key b = []"

fun bi_value :: "BlockIterator \<Rightarrow> slice" where
  "bi_value (BlockIter it) = it_value_slice it"
| "bi_value b = []"

fun bi_status :: "BlockIterator \<Rightarrow> Status" where
  "bi_status (BlockIter it) = it_status it"
| "bi_status (ErrorIterator s) = s"
| "bi_status EmptyIterator = status_OK"

fun bi_move :: "(Iter \<Rightarrow> Iter) \<Rightarrow> BlockIterator \<Rightarrow> BlockIterator" where
  "bi_move f (BlockIter it) = BlockIter (f it)"
| "bi_move f b = b"

text \<open>A block iterator with its cleanup functions, run by \<open>run\<close>.\<close>

definition block_iterator :: "('c \<Rightarrow> 'e \<Rightarrow> 'e) \<Rightarrow> (BlockIterator \<times> 'c list, 'e) Iterator" where
  "block_iterator run =
     \<lparr>io_Valid = (\<lambda>(b, cs). bi_Valid b),
      io_SeekToFirst = (\<lambda>(b, cs) e. Some ((bi_move it_SeekToFirst b, cs), e)),
      io_SeekToLast = (\<lambda>(b, cs) e. Some ((bi_move it_SeekToLast b, cs), e)),
      io_Seek = (\<lambda>target (b, cs) e. Some ((bi_move (it_Seek target) b, cs), e)),
      io_Next = (\<lambda>(b, cs) e. Some ((bi_move it_Next b, cs), e)),
      io_Prev = (\<lambda>(b, cs) e. Some ((bi_move it_Prev b, cs), e)),
      io_key = (\<lambda>(b, cs). bi_key b), io_value = (\<lambda>(b, cs). bi_value b),
      io_status = (\<lambda>(b, cs). bi_status b),
      io_Destroy = (\<lambda>(b, cs) e. run_cleanups run cs e)\<rparr>"

subsection \<open>The wrapper\<close>

record 'i IteratorWrapper =
  wr_iter :: "'i option"
  wr_valid :: bool
  wr_key :: slice

definition wr_Update :: "('i, 'e) Iterator \<Rightarrow> 'i \<Rightarrow> 'i IteratorWrapper \<Rightarrow> 'i IteratorWrapper" where
  "wr_Update ops i w =
     (let w = w\<lparr>wr_iter := Some i, wr_valid := io_Valid ops i\<rparr>
      in if wr_valid w then w\<lparr>wr_key := io_key ops i\<rparr> else w)"

text \<open>The old iterator is deleted.\<close>

definition wr_Set ::
  "('i, 'e) Iterator \<Rightarrow> 'i option \<Rightarrow> 'i IteratorWrapper \<Rightarrow> 'e \<Rightarrow> 'i IteratorWrapper \<times> 'e" where
  "wr_Set ops iter w e =
     (let e = (case wr_iter w of None \<Rightarrow> e | Some old \<Rightarrow> io_Destroy ops old e)
      in case iter of
           None \<Rightarrow> (w\<lparr>wr_iter := None, wr_valid := False\<rparr>, e)
         | Some i \<Rightarrow> (wr_Update ops i w, e))"

definition mk_IteratorWrapper :: "('i, 'e) Iterator \<Rightarrow> 'i option \<Rightarrow> 'i IteratorWrapper" where
  "mk_IteratorWrapper ops iter =
     (let w = \<lparr>wr_iter = None, wr_valid = False, wr_key = []\<rparr>
      in case iter of None \<Rightarrow> w | Some i \<Rightarrow> wr_Update ops i w)"

definition wr_move ::
  "('i, 'e) Iterator \<Rightarrow> ('i \<Rightarrow> 'e \<Rightarrow> ('i \<times> 'e) option) \<Rightarrow> 'i IteratorWrapper \<Rightarrow> 'e \<Rightarrow>
   ('i IteratorWrapper \<times> 'e) option" where
  "wr_move ops move w e =
     do { i \<leftarrow> wr_iter w;
          (i, e) \<leftarrow> move i e;
          Some (wr_Update ops i w, e) }"

definition wr_Next where "wr_Next ops = wr_move ops (io_Next ops)"
definition wr_Prev where "wr_Prev ops = wr_move ops (io_Prev ops)"
definition wr_Seek where "wr_Seek ops target = wr_move ops (io_Seek ops target)"
definition wr_SeekToFirst where "wr_SeekToFirst ops = wr_move ops (io_SeekToFirst ops)"
definition wr_SeekToLast where "wr_SeekToLast ops = wr_move ops (io_SeekToLast ops)"

definition wr_value :: "('i, 'e) Iterator \<Rightarrow> 'i IteratorWrapper \<Rightarrow> slice" where
  "wr_value ops w = (case wr_iter w of None \<Rightarrow> [] | Some i \<Rightarrow> io_value ops i)"

definition wr_status :: "('i, 'e) Iterator \<Rightarrow> 'i IteratorWrapper \<Rightarrow> Status" where
  "wr_status ops w = (case wr_iter w of None \<Rightarrow> status_OK | Some i \<Rightarrow> io_status ops i)"

subsection \<open>The two-level iterator\<close>

text \<open>What every method uses: the two interfaces and the function that opens a block.\<close>

record ('i, 'd, 'e) TwoLevel =
  index_ops :: "('i, 'e) Iterator"
  data_ops :: "('d, 'e) Iterator"
  block_function :: "slice \<Rightarrow> 'e \<Rightarrow> 'd \<times> 'e"

record ('i, 'd) TwoLevelIterator =
  tl_status :: Status
  tl_index :: "'i IteratorWrapper"
  tl_data :: "'d IteratorWrapper"
  tl_data_block_handle :: slice

definition NewTwoLevelIterator :: "('i, 'd, 'e) TwoLevel \<Rightarrow> 'i \<Rightarrow> ('i, 'd) TwoLevelIterator" where
  "NewTwoLevelIterator T index_iter =
     \<lparr>tl_status = status_OK, tl_index = mk_IteratorWrapper (index_ops T) (Some index_iter),
      tl_data = mk_IteratorWrapper (data_ops T) None, tl_data_block_handle = []\<rparr>"

definition SaveError :: "Status \<Rightarrow> ('i, 'd) TwoLevelIterator \<Rightarrow> ('i, 'd) TwoLevelIterator" where
  "SaveError s t = (if ok (tl_status t) \<and> \<not> ok s then t\<lparr>tl_status := s\<rparr> else t)"

definition SetDataIterator ::
  "('i, 'd, 'e) TwoLevel \<Rightarrow> 'd option \<Rightarrow> ('i, 'd) TwoLevelIterator \<Rightarrow> 'e \<Rightarrow>
   ('i, 'd) TwoLevelIterator \<times> 'e" where
  "SetDataIterator T data_iter t e =
     (let t = (if wr_iter (tl_data t) \<noteq> None then SaveError (wr_status (data_ops T) (tl_data t)) t else t);
          (w, e) = wr_Set (data_ops T) data_iter (tl_data t) e
      in (t\<lparr>tl_data := w\<rparr>, e))"

definition InitDataBlock ::
  "('i, 'd, 'e) TwoLevel \<Rightarrow> ('i, 'd) TwoLevelIterator \<Rightarrow> 'e \<Rightarrow> ('i, 'd) TwoLevelIterator \<times> 'e" where
  "InitDataBlock T t e =
     (if \<not> wr_valid (tl_index t) then SetDataIterator T None t e
      else
        (let handle = wr_value (index_ops T) (tl_index t) in
         if wr_iter (tl_data t) \<noteq> None \<and> slice_compare handle (tl_data_block_handle t) = 0 then (t, e)
         else
           (let (iter, e) = block_function T handle e
            in SetDataIterator T (Some iter) (t\<lparr>tl_data_block_handle := handle\<rparr>) e)))"

text \<open>Moving an inner iterator; the data iterator only when there is one.\<close>

definition move_index ::
  "('i IteratorWrapper \<Rightarrow> 'e \<Rightarrow> ('i IteratorWrapper \<times> 'e) option) \<Rightarrow> ('i, 'd) TwoLevelIterator \<Rightarrow> 'e \<Rightarrow>
   (('i, 'd) TwoLevelIterator \<times> 'e) option" where
  "move_index move t e = do { (w, e) \<leftarrow> move (tl_index t) e; Some (t\<lparr>tl_index := w\<rparr>, e) }"

definition move_data ::
  "('d IteratorWrapper \<Rightarrow> 'e \<Rightarrow> ('d IteratorWrapper \<times> 'e) option) \<Rightarrow> ('i, 'd) TwoLevelIterator \<Rightarrow> 'e \<Rightarrow>
   (('i, 'd) TwoLevelIterator \<times> 'e) option" where
  "move_data move t e = do { (w, e) \<leftarrow> move (tl_data t) e; Some (t\<lparr>tl_data := w\<rparr>, e) }"

definition move_data_if where
  "move_data_if move t e = (if wr_iter (tl_data t) \<noteq> None then move_data move t e else Some (t, e))"

text \<open>The three steps that the loops below and the seeks share: move in the index, open the block it is
  at, and move in the block if there is one.\<close>

definition enter_block ::
  "('i, 'd, 'e) TwoLevel \<Rightarrow>
   ('i IteratorWrapper \<Rightarrow> 'e \<Rightarrow> ('i IteratorWrapper \<times> 'e) option) \<Rightarrow>
   ('d IteratorWrapper \<Rightarrow> 'e \<Rightarrow> ('d IteratorWrapper \<times> 'e) option) \<Rightarrow>
   ('i, 'd) TwoLevelIterator \<Rightarrow> 'e \<Rightarrow> (('i, 'd) TwoLevelIterator \<times> 'e) option" where
  "enter_block T index_move data_move t e =
     do { (t, e) \<leftarrow> move_index index_move t e;
          (t, e) \<leftarrow> Some (InitDataBlock T t e);
          move_data_if data_move t e }"

partial_function (option) SkipEmptyDataBlocksForward ::
  "('i, 'd, 'e) TwoLevel \<Rightarrow> ('i, 'd) TwoLevelIterator \<Rightarrow> 'e \<Rightarrow> (('i, 'd) TwoLevelIterator \<times> 'e) option"
where
  "SkipEmptyDataBlocksForward T t e =
     (if wr_iter (tl_data t) = None \<or> \<not> wr_valid (tl_data t) then
        (if \<not> wr_valid (tl_index t) then Some (SetDataIterator T None t e)
         else
           do { (t, e) \<leftarrow> enter_block T (wr_Next (index_ops T)) (wr_SeekToFirst (data_ops T)) t e;
                SkipEmptyDataBlocksForward T t e })
      else Some (t, e))"

partial_function (option) SkipEmptyDataBlocksBackward ::
  "('i, 'd, 'e) TwoLevel \<Rightarrow> ('i, 'd) TwoLevelIterator \<Rightarrow> 'e \<Rightarrow> (('i, 'd) TwoLevelIterator \<times> 'e) option"
where
  "SkipEmptyDataBlocksBackward T t e =
     (if wr_iter (tl_data t) = None \<or> \<not> wr_valid (tl_data t) then
        (if \<not> wr_valid (tl_index t) then Some (SetDataIterator T None t e)
         else
           do { (t, e) \<leftarrow> enter_block T (wr_Prev (index_ops T)) (wr_SeekToLast (data_ops T)) t e;
                SkipEmptyDataBlocksBackward T t e })
      else Some (t, e))"

definition tl_Seek where
  "tl_Seek T target t e =
     do { (t, e) \<leftarrow> enter_block T (wr_Seek (index_ops T) target) (wr_Seek (data_ops T) target) t e;
          SkipEmptyDataBlocksForward T t e }"

definition tl_SeekToFirst where
  "tl_SeekToFirst T t e =
     do { (t, e) \<leftarrow> enter_block T (wr_SeekToFirst (index_ops T)) (wr_SeekToFirst (data_ops T)) t e;
          SkipEmptyDataBlocksForward T t e }"

definition tl_SeekToLast where
  "tl_SeekToLast T t e =
     do { (t, e) \<leftarrow> enter_block T (wr_SeekToLast (index_ops T)) (wr_SeekToLast (data_ops T)) t e;
          SkipEmptyDataBlocksBackward T t e }"

definition tl_Next where
  "tl_Next T t e =
     do { (t, e) \<leftarrow> move_data (wr_Next (data_ops T)) t e;
          SkipEmptyDataBlocksForward T t e }"

definition tl_Prev where
  "tl_Prev T t e =
     do { (t, e) \<leftarrow> move_data (wr_Prev (data_ops T)) t e;
          SkipEmptyDataBlocksBackward T t e }"

definition tl_status_of :: "('i, 'd, 'e) TwoLevel \<Rightarrow> ('i, 'd) TwoLevelIterator \<Rightarrow> Status" where
  "tl_status_of T t =
     (if \<not> ok (wr_status (index_ops T) (tl_index t)) then wr_status (index_ops T) (tl_index t)
      else if wr_iter (tl_data t) \<noteq> None \<and> \<not> ok (wr_status (data_ops T) (tl_data t))
      then wr_status (data_ops T) (tl_data t)
      else tl_status t)"

text \<open>Deleting the iterator deletes the inner ones, the data iterator, declared last, first.\<close>

definition tl_Destroy :: "('i, 'd, 'e) TwoLevel \<Rightarrow> ('i, 'd) TwoLevelIterator \<Rightarrow> 'e \<Rightarrow> 'e" where
  "tl_Destroy T t e =
     (let e = (case wr_iter (tl_data t) of None \<Rightarrow> e | Some d \<Rightarrow> io_Destroy (data_ops T) d e)
      in case wr_iter (tl_index t) of None \<Rightarrow> e | Some i \<Rightarrow> io_Destroy (index_ops T) i e)"

definition two_level_iterator :: "('i, 'd, 'e) TwoLevel \<Rightarrow> (('i, 'd) TwoLevelIterator, 'e) Iterator" where
  "two_level_iterator T =
     \<lparr>io_Valid = (\<lambda>t. wr_valid (tl_data t)),
      io_SeekToFirst = tl_SeekToFirst T, io_SeekToLast = tl_SeekToLast T, io_Seek = tl_Seek T,
      io_Next = tl_Next T, io_Prev = tl_Prev T,
      io_key = (\<lambda>t. wr_key (tl_data t)), io_value = (\<lambda>t. wr_value (data_ops T) (tl_data t)),
      io_status = tl_status_of T, io_Destroy = tl_Destroy T\<rparr>"

end
