(* ===== verification/Ldb_Format.thy ===== *)
theory Ldb_Format
  imports Ldb_Iterator Ldb_Log
begin

unbundle bit_operations_syntax

text \<open>
  The file format of LevelDB's tables, \<^verbatim>\<open>table/format.h\<close> and \<^verbatim>\<open>table/format.cc\<close>, with the options of
  \<^verbatim>\<open>include/leveldb/options.h\<close>, \<^verbatim>\<open>util/options.cc\<close> and the compressor of \<^verbatim>\<open>port/port_posix.h\<close> under
  \<^verbatim>\<open>src/ios/Pods/leveldb-library/\<close>. The build does not define \<^verbatim>\<open>SNAPPY\<close>. Files and the block cache
  are parameters: records of the operations the code calls. The options here are those that tables
  read: without the environment, the log and the snapshot.
\<close>

subsection \<open>Options\<close>

datatype CompressionType = kNoCompression | kSnappyCompression

definition compression_byte :: "CompressionType \<Rightarrow> byte" where
  "compression_byte t = (case t of kNoCompression \<Rightarrow> 0 | kSnappyCompression \<Rightarrow> 1)"

text \<open>A cache of blocks with handles \<open>'h\<close> and state \<open>'c\<close>.\<close>

record ('h, 'c) Cache =
  cache_Insert :: "slice \<Rightarrow> Block \<Rightarrow> nat \<Rightarrow> 'c \<Rightarrow> 'h \<times> 'c"
  cache_Lookup :: "slice \<Rightarrow> 'c \<Rightarrow> 'h option \<times> 'c"
  cache_Release :: "'h \<Rightarrow> 'c \<Rightarrow> 'c"
  cache_Value :: "'h \<Rightarrow> 'c \<Rightarrow> Block"
  cache_NewId :: "'c \<Rightarrow> u64 \<times> 'c"

record ('h, 'c) Options =
  opt_comparator :: Comparator
  create_if_missing :: bool
  error_if_exists :: bool
  paranoid_checks :: bool
  write_buffer_size :: nat
  max_open_files :: int
  block_cache :: "('h, 'c) Cache option"
  block_size :: nat
  block_restart_interval :: int
  max_file_size :: nat
  compression :: CompressionType
  reuse_logs :: bool
  opt_filter_policy :: "FilterPolicy option"

definition mk_Options :: "('h, 'c) Options" where
  "mk_Options =
     \<lparr>opt_comparator = BytewiseComparator, create_if_missing = False, error_if_exists = False,
      paranoid_checks = False, write_buffer_size = 4 * 2 ^ 20, max_open_files = 1000,
      block_cache = None, block_size = 4096, block_restart_interval = 16,
      max_file_size = 2 * 2 ^ 20, compression = kSnappyCompression, reuse_logs = False,
      opt_filter_policy = None\<rparr>"

record ReadOptions =
  verify_checksums :: bool
  fill_cache :: bool

definition mk_ReadOptions :: ReadOptions where
  "mk_ReadOptions = \<lparr>verify_checksums = False, fill_cache = True\<rparr>"

subsection \<open>The compressor\<close>

definition Snappy_Compress :: "slice \<Rightarrow> byte list option" where
  "Snappy_Compress input = None"

definition Snappy_GetUncompressedLength :: "slice \<Rightarrow> u64 option" where
  "Snappy_GetUncompressedLength input = None"

definition Snappy_Uncompress :: "slice \<Rightarrow> byte list option" where
  "Snappy_Uncompress input = None"

subsection \<open>Block handles and the footer\<close>

record BlockHandle =
  bh_offset :: u64
  bh_size :: u64

definition mk_BlockHandle :: BlockHandle where
  "mk_BlockHandle = \<lparr>bh_offset = NOT 0, bh_size = NOT 0\<rparr>"

definition kMaxEncodedLength :: nat where
  "kMaxEncodedLength = 10 + 10"

definition handle_EncodeTo :: "BlockHandle \<Rightarrow> byte list \<Rightarrow> byte list" where
  "handle_EncodeTo h dst = PutVarint64 (PutVarint64 dst (bh_offset h)) (bh_size h)"

text \<open>The status, the handle as far as it was read, and the input left.\<close>

definition handle_DecodeFrom :: "slice \<Rightarrow> BlockHandle \<Rightarrow> Status \<times> BlockHandle \<times> slice" where
  "handle_DecodeFrom input h =
     (let bad = Corruption (c_string ''bad block handle'') [] in
      case GetVarint64 input of
        None \<Rightarrow> (bad, h, input)
      | Some (offset, input) \<Rightarrow>
          (let h = h\<lparr>bh_offset := offset\<rparr> in
           case GetVarint64 input of
             None \<Rightarrow> (bad, h, input)
           | Some (sz, input) \<Rightarrow> (status_OK, h\<lparr>bh_size := sz\<rparr>, input)))"

record Footer =
  metaindex_handle :: BlockHandle
  index_handle :: BlockHandle

definition mk_Footer :: Footer where
  "mk_Footer = \<lparr>metaindex_handle = mk_BlockHandle, index_handle = mk_BlockHandle\<rparr>"

definition footer_kEncodedLength :: nat where
  "footer_kEncodedLength = 2 * kMaxEncodedLength + 8"

definition kTableMagicNumber :: u64 where
  "kTableMagicNumber = 0xdb4775248b80fb57"

text \<open>\<^verbatim>\<open>resize\<close> cuts the string or fills it up with zero bytes.\<close>

definition resize :: "byte list \<Rightarrow> nat \<Rightarrow> byte list" where
  "resize s n = take n s @ replicate (n - length s) 0"

definition footer_EncodeTo :: "Footer \<Rightarrow> byte list \<Rightarrow> byte list" where
  "footer_EncodeTo f dst =
     (let dst = handle_EncodeTo (metaindex_handle f) dst;
          dst = handle_EncodeTo (index_handle f) dst;
          dst = resize dst (2 * kMaxEncodedLength);
          dst = PutFixed32 dst (ucast (kTableMagicNumber AND 0xffffffff))
      in PutFixed32 dst (ucast (drop_bit 32 kTableMagicNumber)))"

definition footer_DecodeFrom :: "slice \<Rightarrow> Footer \<Rightarrow> Status \<times> Footer \<times> slice" where
  "footer_DecodeFrom input f =
     (let magic_ptr = footer_kEncodedLength - 8;
          magic_lo = DecodeFixed32 (drop magic_ptr input);
          magic_hi = DecodeFixed32 (drop (magic_ptr + 4) input);
          magic = push_bit 32 (ucast magic_hi) OR ucast magic_lo :: u64;
          rest = drop (magic_ptr + 8) input
      in if magic \<noteq> kTableMagicNumber
         then (Corruption (c_string ''not an sstable (bad magic number)'') [], f, input)
         else
           (let (s, h, input) = handle_DecodeFrom input (metaindex_handle f);
                f = f\<lparr>metaindex_handle := h\<rparr>
            in if \<not> ok s then (s, f, input)
               else
                 (let (s, h, input) = handle_DecodeFrom input (index_handle f);
                      f = f\<lparr>index_handle := h\<rparr>
                  in if ok s then (s, f, rest) else (s, f, input))))"

subsection \<open>Reading a block\<close>

definition kBlockTrailerSize :: u64 where
  "kBlockTrailerSize = 5"

record BlockContents =
  bc_data :: slice
  bc_cachable :: bool
  bc_heap_allocated :: bool

text \<open>A file read at random places: from an offset, up to so many bytes. The flag says whether the
  result lies in the caller's buffer.\<close>

record RandomAccessFile =
  raf_Read :: "u64 \<Rightarrow> u64 \<Rightarrow> Status \<times> slice \<times> bool"

definition empty_contents :: BlockContents where
  "empty_contents = \<lparr>bc_data = [], bc_cachable = False, bc_heap_allocated = False\<rparr>"

definition ReadBlock :: "RandomAccessFile \<Rightarrow> ReadOptions \<Rightarrow> BlockHandle \<Rightarrow> Status \<times> BlockContents" where
  "ReadBlock f options handle =
     (let n = bh_size handle;
          (s, contents, in_buf) = raf_Read f (bh_offset handle) (n + kBlockTrailerSize)
      in if \<not> ok s then (s, empty_contents)
         else if of_nat (length contents) \<noteq> n + kBlockTrailerSize
         then (Corruption (c_string ''truncated block read'') [], empty_contents)
         else if verify_checksums options \<and>
             Value (take (unat n + 1) contents) \<noteq> Unmask (DecodeFixed32 (drop (unat n + 1) contents))
         then (Corruption (c_string ''block checksum mismatch'') [], empty_contents)
         else
           (let data = take (unat n) contents; type = contents ! unat n in
            if type = compression_byte kNoCompression then
              (status_OK, \<lparr>bc_data = data, bc_cachable = in_buf, bc_heap_allocated = in_buf\<rparr>)
            else if type = compression_byte kSnappyCompression then
              (let corrupted = (Corruption (c_string ''corrupted compressed block contents'') [], empty_contents) in
               case Snappy_GetUncompressedLength data of
                 None \<Rightarrow> corrupted
               | Some ulength \<Rightarrow>
                   (case Snappy_Uncompress data of
                      None \<Rightarrow> corrupted
                    | Some ubuf \<Rightarrow>
                        (status_OK, \<lparr>bc_data = take (unat ulength) ubuf, bc_cachable = True,
                                     bc_heap_allocated = True\<rparr>)))
            else (Corruption (c_string ''bad block type'') [], empty_contents)))"

end
