(* ===== verification/Ldb_Table.thy ===== *)
theory Ldb_Table
  imports Ldb_Format
begin

unbundle bit_operations_syntax

text \<open>
  Reading LevelDB's tables: \<^verbatim>\<open>table/table.cc\<close> under \<^verbatim>\<open>src/ios/Pods/leveldb-library/\<close>. The state
  passed through is that of the block cache.
\<close>

record ('h, 'c) Table =
  tab_options :: "('h, 'c) Options"
  tab_file :: RandomAccessFile
  tab_cache_id :: u64
  tab_filter :: "FilterBlockReader option"
  tab_metaindex_handle :: BlockHandle
  tab_index_block :: Block

subsection \<open>Opening\<close>

text \<open>The options that \<^verbatim>\<open>Open\<close>, \<^verbatim>\<open>ReadMeta\<close> and \<^verbatim>\<open>ReadFilter\<close> read blocks with.\<close>

definition meta_options :: "('h, 'c) Options \<Rightarrow> ReadOptions" where
  "meta_options options =
     (if paranoid_checks options then mk_ReadOptions\<lparr>verify_checksums := True\<rparr> else mk_ReadOptions)"

definition ReadFilter :: "slice \<Rightarrow> ('h, 'c) Table \<Rightarrow> ('h, 'c) Table" where
  "ReadFilter filter_handle_value t =
     (let (s, filter_handle, v) = handle_DecodeFrom filter_handle_value mk_BlockHandle in
      if \<not> ok s then t
      else
        (let (s, block) = ReadBlock (tab_file t) (meta_options (tab_options t)) filter_handle in
         if \<not> ok s then t
         else
           (case opt_filter_policy (tab_options t) of
              None \<Rightarrow> t
            | Some policy \<Rightarrow> t\<lparr>tab_filter := Some (mk_FilterBlockReader policy (bc_data block))\<rparr>)))"

definition ReadMeta :: "Footer \<Rightarrow> ('h, 'c) Table \<Rightarrow> ('h, 'c) Table" where
  "ReadMeta footer t =
     (case opt_filter_policy (tab_options t) of
        None \<Rightarrow> t
      | Some policy \<Rightarrow>
          (let (s, contents) = ReadBlock (tab_file t) (meta_options (tab_options t)) (metaindex_handle footer) in
           if \<not> ok s then t
           else
             (let meta = mk_Block (bc_data contents);
                  key = c_string ''filter.'' @ policy_Name policy;
                  iter = bi_move (it_Seek key) (NewIterator BytewiseComparator meta)
              in if bi_Valid iter \<and> slice_eq (bi_key iter) key then ReadFilter (bi_value iter) t else t)))"

definition table_Open ::
  "('h, 'c) Options \<Rightarrow> RandomAccessFile \<Rightarrow> u64 \<Rightarrow> 'c \<Rightarrow> Status \<times> ('h, 'c) Table option \<times> 'c" where
  "table_Open options f sz e =
     (if unat sz < footer_kEncodedLength
      then (Corruption (c_string ''file is too short to be an sstable'') [], None, e)
      else
        (let (s, footer_input, in_buf) = raf_Read f (sz - of_nat footer_kEncodedLength) (of_nat footer_kEncodedLength) in
         if \<not> ok s then (s, None, e)
         else
           (let (s, footer, input) = footer_DecodeFrom footer_input mk_Footer in
            if \<not> ok s then (s, None, e)
            else
              (let (s, contents) = ReadBlock f (meta_options options) (index_handle footer) in
               if ok s then
                 (let index_block = mk_Block (bc_data contents);
                      (id, e) = (case block_cache options of None \<Rightarrow> (0, e) | Some cache \<Rightarrow> cache_NewId cache e);
                      t = \<lparr>tab_options = options, tab_file = f, tab_cache_id = id, tab_filter = None,
                           tab_metaindex_handle = metaindex_handle footer, tab_index_block = index_block\<rparr>
                  in (s, Some (ReadMeta footer t), e))
               else (s, None, e)))))"

subsection \<open>Iterating\<close>

text \<open>What the iterator of a block does when it is deleted.\<close>

datatype 'h Cleanup = DeleteBlock | ReleaseBlock 'h

definition run_cleanup :: "('h, 'c) Cache option \<Rightarrow> 'h Cleanup \<Rightarrow> 'c \<Rightarrow> 'c" where
  "run_cleanup cache c e =
     (case (c, cache) of (ReleaseBlock h, Some cache) \<Rightarrow> cache_Release cache h e | _ \<Rightarrow> e)"

definition block_cache_key :: "u64 \<Rightarrow> BlockHandle \<Rightarrow> slice" where
  "block_cache_key cache_id handle = EncodeFixed64 cache_id @ EncodeFixed64 (bh_offset handle)"

text \<open>The block of a handle, with the handle of the cache that keeps it, if one does.\<close>

definition read_through ::
  "('h, 'c) Table \<Rightarrow> ReadOptions \<Rightarrow> BlockHandle \<Rightarrow> 'c \<Rightarrow> Status \<times> Block option \<times> 'h option \<times> 'c" where
  "read_through t options handle e =
     (case block_cache (tab_options t) of
        None \<Rightarrow>
          (let (s, contents) = ReadBlock (tab_file t) options handle
           in (s, if ok s then Some (mk_Block (bc_data contents)) else None, None, e))
      | Some cache \<Rightarrow>
          (let key = block_cache_key (tab_cache_id t) handle;
               (cache_handle, e) = cache_Lookup cache key e
           in case cache_handle of
                Some h \<Rightarrow> (status_OK, Some (cache_Value cache h e), Some h, e)
              | None \<Rightarrow>
                  (let (s, contents) = ReadBlock (tab_file t) options handle in
                   if ok s then
                     (let block = mk_Block (bc_data contents) in
                      if bc_cachable contents \<and> fill_cache options then
                        (let (h, e) = cache_Insert cache key block (bk_size block) e
                         in (s, Some block, Some h, e))
                      else (s, Some block, None, e))
                   else (s, None, None, e))))"

definition BlockReader ::
  "('h, 'c) Table \<Rightarrow> ReadOptions \<Rightarrow> slice \<Rightarrow> 'c \<Rightarrow> (BlockIterator \<times> 'h Cleanup list) \<times> 'c" where
  "BlockReader t options index_value e =
     (let (s, handle, input) = handle_DecodeFrom index_value mk_BlockHandle;
          (s, block, cache_handle, e) =
            (if ok s then read_through t options handle e else (s, None, None, e))
      in case block of
           Some block \<Rightarrow>
             (let iter = NewIterator (opt_comparator (tab_options t)) block
              in case cache_handle of
                   None \<Rightarrow> ((iter, RegisterCleanup DeleteBlock []), e)
                 | Some h \<Rightarrow> ((iter, RegisterCleanup (ReleaseBlock h) []), e))
         | None \<Rightarrow> ((ErrorIterator s, []), e))"

definition table_levels ::
  "('h, 'c) Table \<Rightarrow> ReadOptions \<Rightarrow>
   (BlockIterator \<times> 'h Cleanup list, BlockIterator \<times> 'h Cleanup list, 'c) TwoLevel" where
  "table_levels t options =
     (let ops = block_iterator (run_cleanup (block_cache (tab_options t)))
      in \<lparr>index_ops = ops, data_ops = ops, block_function = BlockReader t options\<rparr>)"

definition index_iterator :: "('h, 'c) Table \<Rightarrow> BlockIterator \<times> 'h Cleanup list" where
  "index_iterator t = (NewIterator (opt_comparator (tab_options t)) (tab_index_block t), [])"

definition table_NewIterator ::
  "('h, 'c) Table \<Rightarrow> ReadOptions \<Rightarrow>
   (BlockIterator \<times> 'h Cleanup list, BlockIterator \<times> 'h Cleanup list) TwoLevelIterator" where
  "table_NewIterator t options = NewTwoLevelIterator (table_levels t options) (index_iterator t)"

subsection \<open>Looking up a key\<close>

text \<open>The status, and the key and value handed to \<^verbatim>\<open>saver\<close>, if it is called.\<close>

definition InternalGet ::
  "('h, 'c) Table \<Rightarrow> ReadOptions \<Rightarrow> slice \<Rightarrow> 'c \<Rightarrow> Status \<times> (slice \<times> slice) option \<times> 'c" where
  "InternalGet t options k e =
     (let iiter = bi_move (it_Seek k) (fst (index_iterator t));
          (s, saved, e) =
            (if bi_Valid iiter then
               (let handle_value = bi_value iiter;
                    (hs, handle, rest) = handle_DecodeFrom handle_value mk_BlockHandle
                in if (case tab_filter t of
                         None \<Rightarrow> False
                       | Some flt \<Rightarrow> ok hs \<and> \<not> filter_KeyMayMatch flt (bh_offset handle) k)
                   then (status_OK, None, e)
                   else
                     (let ((block_iter, cleanups), e) = BlockReader t options (bi_value iiter) e;
                          block_iter = bi_move (it_Seek k) block_iter;
                          saved = (if bi_Valid block_iter then Some (bi_key block_iter, bi_value block_iter)
                                   else None)
                      in (bi_status block_iter, saved,
                          run_cleanups (run_cleanup (block_cache (tab_options t))) cleanups e)))
             else (status_OK, None, e))
      in (if ok s then bi_status iiter else s, saved, e))"

definition ApproximateOffsetOf :: "('h, 'c) Table \<Rightarrow> slice \<Rightarrow> u64" where
  "ApproximateOffsetOf t key =
     (let index_iter = bi_move (it_Seek key) (fst (index_iterator t)) in
      if bi_Valid index_iter then
        (let (s, handle, input) = handle_DecodeFrom (bi_value index_iter) mk_BlockHandle
         in if ok s then bh_offset handle else bh_offset (tab_metaindex_handle t))
      else bh_offset (tab_metaindex_handle t))"

end
