(* ===== verification/Ldb_Iterator_Correct.thy ===== *)
theory Ldb_Iterator_Correct
  imports Ldb_Iterator Ldb_Coding_Correct
begin

text \<open>
  The contract of an iterator: it stands for a list of keys with values and is at one of them or at
  none, and every move goes to the position the interface documents, and returns. What a client
  sees follows from the contract alone. The two-level iterator keeps it when the iterators below
  do, which makes it an instance again.
\<close>

subsection \<open>Positions\<close>

type_synonym entries = "(slice \<times> slice) list"

definition pos_of :: "entries \<Rightarrow> nat \<Rightarrow> nat option" where
  "pos_of xs n = (if n < length xs then Some n else None)"

definition last_pos :: "entries \<Rightarrow> nat option" where
  "last_pos xs = (if xs = [] then None else Some (length xs - 1))"

definition prev_pos :: "nat \<Rightarrow> nat option" where
  "prev_pos n = (if n = 0 then None else Some (n - 1))"

definition seek_pos :: "(slice \<Rightarrow> slice \<Rightarrow> bool) \<Rightarrow> slice \<Rightarrow> entries \<Rightarrow> nat option" where
  "seek_pos below target xs = pos_of xs (length (takeWhile (\<lambda>(k, v). below k target) xs))"

definition moved ::
  "('i \<Rightarrow> entries \<Rightarrow> nat option \<Rightarrow> bool) \<Rightarrow> ('e \<Rightarrow> bool) \<Rightarrow> entries \<Rightarrow> nat option \<Rightarrow> ('i \<times> 'e) option \<Rightarrow> bool"
where
  "moved repr envok xs p r \<longleftrightarrow> (\<exists>i e. r = Some (i, e) \<and> repr i xs p \<and> envok e)"

lemma movedI: "repr i xs p \<Longrightarrow> envok e \<Longrightarrow> moved repr envok xs p (Some (i, e))"
  by (simp add: moved_def)

lemma movedE:
  assumes "moved repr envok xs p r"
  obtains i e where "r = Some (i, e)" "repr i xs p" "envok e"
  using assms by (auto simp: moved_def)

lemma moved_bind:
  assumes "moved repr envok xs p r" "\<And>i e. repr i xs p \<Longrightarrow> envok e \<Longrightarrow> moved repr' envok ys q (f i e)"
  shows "moved repr' envok ys q (r \<bind> (\<lambda>(i, e). f i e))"
  using assms by (auto simp: moved_def)

lemma takeWhile_none: "(\<And>x. x \<in> set xs \<Longrightarrow> \<not> P x) \<Longrightarrow> takeWhile P xs = []"
  by (cases xs) auto

subsection \<open>The contract\<close>

locale iterator =
  fixes ops :: "('i, 'e) Iterator"
    and repr :: "'i \<Rightarrow> entries \<Rightarrow> nat option \<Rightarrow> bool"
    and envok :: "'e \<Rightarrow> bool"
    and below :: "slice \<Rightarrow> slice \<Rightarrow> bool"
    and target_ok :: "slice \<Rightarrow> bool"
  assumes in_range: "repr i xs (Some n) \<Longrightarrow> n < length xs"
    and valid_iff: "repr i xs p \<Longrightarrow> io_Valid ops i \<longleftrightarrow> p \<noteq> None"
    and entry: "repr i xs (Some n) \<Longrightarrow> (io_key ops i, io_value ops i) = xs ! n"
    and status: "repr i xs p \<Longrightarrow> io_status ops i = status_OK"
    and first: "repr i xs p \<Longrightarrow> envok e \<Longrightarrow> moved repr envok xs (pos_of xs 0) (io_SeekToFirst ops i e)"
    and last: "repr i xs p \<Longrightarrow> envok e \<Longrightarrow> moved repr envok xs (last_pos xs) (io_SeekToLast ops i e)"
    and seek: "repr i xs p \<Longrightarrow> envok e \<Longrightarrow> target_ok t \<Longrightarrow>
      moved repr envok xs (seek_pos below t xs) (io_Seek ops t i e)"
    and "next": "repr i xs (Some n) \<Longrightarrow> envok e \<Longrightarrow> moved repr envok xs (pos_of xs (n + 1)) (io_Next ops i e)"
    and prev: "repr i xs (Some n) \<Longrightarrow> envok e \<Longrightarrow> moved repr envok xs (prev_pos n) (io_Prev ops i e)"
    and destroy: "repr i xs p \<Longrightarrow> envok e \<Longrightarrow> envok (io_Destroy ops i e)"

text \<open>What a client reads from an iterator on: the entries met in at most \<open>n\<close> moves.\<close>

primrec read_on ::
  "('i, 'e) Iterator \<Rightarrow> ('i \<Rightarrow> 'e \<Rightarrow> ('i \<times> 'e) option) \<Rightarrow> nat \<Rightarrow> 'i \<Rightarrow> 'e \<Rightarrow> (entries \<times> 'i \<times> 'e) option"
where
  "read_on ops move 0 i e = Some ([], i, e)"
| "read_on ops move (Suc n) i e =
     (if io_Valid ops i then
        do { (i', e) \<leftarrow> move i e;
             (xs, i'', e) \<leftarrow> read_on ops move n i' e;
             Some ((io_key ops i, io_value ops i) # xs, i'', e) }
      else Some ([], i, e))"

definition read_forward where "read_forward ops = read_on ops (io_Next ops)"
definition read_backward where "read_backward ops = read_on ops (io_Prev ops)"

context iterator
begin

lemma read_forward_from:
  "repr i xs p \<Longrightarrow> envok e \<Longrightarrow> length xs < m + n \<Longrightarrow> p = pos_of xs m \<Longrightarrow>
    \<exists>i' e'. read_forward ops n i e = Some (drop m xs, i', e') \<and> repr i' xs None \<and> envok e'"
proof (induction n arbitrary: i e m p)
  case 0
  then show ?case by (auto simp: read_forward_def pos_of_def)
next
  case (Suc n)
  show ?case
  proof (cases "m < length xs")
    case True
    then have p: "p = Some m" using Suc.prems(4) by (simp add: pos_of_def)
    then obtain i1 e1 where step: "io_Next ops i e = Some (i1, e1)" "repr i1 xs (pos_of xs (m + 1))" "envok e1"
      using "next" Suc.prems(1,2) by (metis moved_def)
    obtain i' e' where "read_forward ops n i1 e1 = Some (drop (m + 1) xs, i', e')" "repr i' xs None" "envok e'"
      using Suc.IH [OF step(2,3) _ refl] Suc.prems(3) by auto
    moreover have "drop m xs = xs ! m # drop (m + 1) xs" using True by (simp add: Cons_nth_drop_Suc)
    moreover have "(io_key ops i, io_value ops i) = xs ! m" using entry Suc.prems(1) p by blast
    ultimately show ?thesis
      using step(1) p valid_iff [OF Suc.prems(1)] by (simp add: read_forward_def)
  next
    case False
    then show ?thesis
      using valid_iff [OF Suc.prems(1)] Suc.prems by (auto simp: read_forward_def pos_of_def)
  qed
qed

lemma read_backward_from:
  "repr i xs (Some m) \<Longrightarrow> envok e \<Longrightarrow> m < n \<Longrightarrow>
    \<exists>i' e'. read_backward ops n i e = Some (rev (take (Suc m) xs), i', e') \<and> repr i' xs None \<and> envok e'"
proof (induction n arbitrary: i e m)
  case (Suc n)
  obtain i1 e1 where step: "io_Prev ops i e = Some (i1, e1)" "repr i1 xs (prev_pos m)" "envok e1"
    using prev Suc.prems(1,2) by (metis moved_def)
  have "\<exists>i' e'. read_backward ops n i1 e1 = Some (rev (take m xs), i', e') \<and> repr i' xs None \<and> envok e'"
  proof (cases m)
    case 0
    then have "\<not> io_Valid ops i1" using valid_iff [OF step(2)] by (simp add: prev_pos_def)
    then show ?thesis using step(2,3) 0 by (cases n) (simp_all add: read_backward_def prev_pos_def)
  next
    case (Suc k)
    then show ?thesis using Suc.IH [of i1 k e1] step(2,3) Suc.prems(3) by (simp add: prev_pos_def)
  qed
  moreover have "take (Suc m) xs = take m xs @ [xs ! m]"
    using in_range [OF Suc.prems(1)] by (simp add: take_Suc_conv_app_nth)
  moreover have "(io_key ops i, io_value ops i) = xs ! m" using entry Suc.prems(1) by blast
  ultimately show ?case
    using step(1) valid_iff [OF Suc.prems(1)] by (auto simp: read_backward_def)
qed simp

text \<open>Whole scans: every move returns, the scan gives the entries, and it ends invalid and without an
  error.\<close>

lemma at_end: "repr i xs None \<Longrightarrow> \<not> io_Valid ops i \<and> io_status ops i = status_OK"
  using valid_iff status by blast

lemma scan_forward:
  assumes "repr i xs p" "envok e" "length xs < n"
  shows "\<exists>j e1 k e2. io_SeekToFirst ops i e = Some (j, e1) \<and> read_forward ops n j e1 = Some (xs, k, e2) \<and>
    \<not> io_Valid ops k \<and> io_status ops k = status_OK"
proof -
  obtain j e1 where j: "io_SeekToFirst ops i e = Some (j, e1)" "repr j xs (pos_of xs 0)" "envok e1"
    using first [OF assms(1,2)] by (rule movedE)
  show ?thesis using read_forward_from [OF j(2,3), of 0 n] assms(3) j(1) at_end by fastforce
qed

lemma scan_backward:
  assumes "repr i xs p" "envok e" "length xs < n"
  shows "\<exists>j e1 k e2. io_SeekToLast ops i e = Some (j, e1) \<and> read_backward ops n j e1 = Some (rev xs, k, e2) \<and>
    \<not> io_Valid ops k \<and> io_status ops k = status_OK"
proof -
  obtain j e1 where j: "io_SeekToLast ops i e = Some (j, e1)" "repr j xs (last_pos xs)" "envok e1"
    using last [OF assms(1,2)] by (rule movedE)
  show ?thesis
  proof (cases "xs = []")
    case True
    then have "repr j xs None" using j(2) by (simp add: last_pos_def)
    then show ?thesis using True j(1) at_end assms(3) by (cases n) (fastforce simp: read_backward_def)+
  next
    case False
    then have "repr j xs (Some (length xs - 1))" "length xs - 1 < n" "take (Suc (length xs - 1)) xs = xs"
      using j(2) assms(3) by (simp_all add: last_pos_def)
    then show ?thesis using read_backward_from [of j xs "length xs - 1" e1 n] j(1,3) at_end by fastforce
  qed
qed

lemma scan_from:
  assumes "repr i xs p" "envok e" "length xs < n" "target_ok t"
  shows "\<exists>j e1 k e2. io_Seek ops t i e = Some (j, e1) \<and>
    read_forward ops n j e1 = Some (dropWhile (\<lambda>(k, v). below k t) xs, k, e2) \<and>
    \<not> io_Valid ops k \<and> io_status ops k = status_OK"
proof -
  obtain j e1 where j: "io_Seek ops t i e = Some (j, e1)" "repr j xs (seek_pos below t xs)" "envok e1"
    using seek [OF assms(1,2,4)] by (rule movedE)
  show ?thesis
    using read_forward_from [OF j(2,3) _ seek_pos_def, of n] assms(3) j(1) at_end
    by (fastforce simp: dropWhile_eq_drop)
qed

text \<open>The wrapper keeps what it caches up to date.\<close>

definition wrapped :: "'i IteratorWrapper \<Rightarrow> entries \<Rightarrow> nat option \<Rightarrow> bool" where
  "wrapped w xs p \<longleftrightarrow> (\<exists>i. wr_iter w = Some i \<and> repr i xs p \<and> (wr_valid w \<longleftrightarrow> p \<noteq> None) \<and>
     (\<forall>n. p = Some n \<longrightarrow> wr_key w = fst (xs ! n)))"

lemma wr_Update_wrapped: "repr i xs p \<Longrightarrow> wrapped (wr_Update ops i w) xs p"
  using valid_iff [of i xs p] entry [of i xs]
  by (auto simp: wrapped_def wr_Update_def Let_def dest: entry [THEN sym])

lemma wr_move_wrapped:
  assumes "wrapped w xs p" "envok e" "\<And>i e. repr i xs p \<Longrightarrow> envok e \<Longrightarrow> moved repr envok xs q (move i e)"
  shows "moved wrapped envok xs q (wr_move ops move w e)"
proof -
  obtain i where i: "wr_iter w = Some i" "repr i xs p" using assms(1) by (auto simp: wrapped_def)
  have "moved wrapped envok xs q (move i e \<bind> (\<lambda>(i, e). Some (wr_Update ops i w, e)))"
    by (rule moved_bind [OF assms(3) [OF i(2) assms(2)]]) (intro movedI wr_Update_wrapped)
  then show ?thesis using i(1) by (simp add: wr_move_def)
qed

lemma wrapped_moves:
  assumes "wrapped w xs p" "envok e"
  shows "moved wrapped envok xs (pos_of xs 0) (wr_SeekToFirst ops w e)"
    "moved wrapped envok xs (last_pos xs) (wr_SeekToLast ops w e)"
    "target_ok t \<Longrightarrow> moved wrapped envok xs (seek_pos below t xs) (wr_Seek ops t w e)"
    "p = Some n \<Longrightarrow> moved wrapped envok xs (pos_of xs (n + 1)) (wr_Next ops w e)"
    "p = Some n \<Longrightarrow> moved wrapped envok xs (prev_pos n) (wr_Prev ops w e)"
  using assms wr_move_wrapped [OF assms] first last seek "next" prev
  by (auto simp: wr_SeekToFirst_def wr_SeekToLast_def wr_Seek_def wr_Next_def wr_Prev_def)

lemma wrapped_observed:
  "wrapped w xs p \<Longrightarrow> wr_valid w \<longleftrightarrow> p \<noteq> None"
  "wrapped w xs p \<Longrightarrow> wr_status ops w = status_OK"
  "wrapped w xs p \<Longrightarrow> wr_iter w \<noteq> None"
  "wrapped w xs (Some n) \<Longrightarrow> n < length xs \<and> wr_key w = fst (xs ! n) \<and> wr_value ops w = snd (xs ! n)"
  using status in_range entry [THEN sym]
  by (auto simp: wrapped_def wr_status_def wr_value_def)

end

subsection \<open>The two-level iterator\<close>

text \<open>
  The index lists, for every block, a key that separates it from the blocks after it, and a handle,
  which stands for the entries of the block. The blocks are not empty.
\<close>

locale two_level = index: iterator iops irepr envok below target_ok + data: iterator dops drepr envok below target_ok
  for iops :: "('i, 'e) Iterator" and irepr and envok :: "'e \<Rightarrow> bool" and below and target_ok
    and dops :: "('d, 'e) Iterator" and drepr +
  fixes open_block :: "slice \<Rightarrow> 'e \<Rightarrow> 'd \<times> 'e"
    and contents :: "slice \<Rightarrow> entries option"
  assumes opened: "contents h = Some ys \<Longrightarrow> envok e \<Longrightarrow>
    \<exists>d e' p. open_block h e = (d, e') \<and> drepr d ys p \<and> envok e'"

context two_level
begin

definition T :: "('i, 'd, 'e) TwoLevel" where
  "T = \<lparr>index_ops = iops, data_ops = dops, block_function = open_block\<rparr>"

lemma T_simps [simp]: "index_ops T = iops" "data_ops T = dops" "block_function T = open_block"
  by (simp_all add: T_def)

definition block_of :: "slice \<times> slice \<Rightarrow> entries" where
  "block_of kh = the (contents (snd kh))"

definition start :: "entries \<Rightarrow> nat \<Rightarrow> nat" where
  "start ixs b = length (concat (map block_of (take b ixs)))"

definition blocks_ok :: "entries \<Rightarrow> bool" where
  "blocks_ok ixs \<longleftrightarrow> (\<forall>(k, h) \<in> set ixs. contents h \<noteq> None \<and> contents h \<noteq> Some [])"

definition separated :: "entries \<Rightarrow> bool" where
  "separated ixs \<longleftrightarrow> (\<forall>m < length ixs. \<forall>t. target_ok t \<longrightarrow>
     (below (fst (ixs ! m)) t \<longrightarrow> (\<forall>(k, v) \<in> set (block_of (ixs ! m)). below k t)) \<and>
     (\<not> below (fst (ixs ! m)) t \<longrightarrow>
       (\<forall>m' < length ixs. m < m' \<longrightarrow> (\<forall>(k, v) \<in> set (block_of (ixs ! m')). \<not> below k t))))"

lemma block_of_ok:
  "blocks_ok ixs \<Longrightarrow> b < length ixs \<Longrightarrow> contents (snd (ixs ! b)) = Some (block_of (ixs ! b)) \<and> block_of (ixs ! b) \<noteq> []"
  by (force simp: blocks_ok_def block_of_def dest: nth_mem)

text \<open>The states between the steps: at a block and a place in it, past the end, and with any old
  data iterator.\<close>

definition data_none :: "('i, 'd) TwoLevelIterator \<Rightarrow> bool" where
  "data_none t \<longleftrightarrow> wr_iter (tl_data t) = None \<and> \<not> wr_valid (tl_data t)"

definition on_block :: "('i, 'd) TwoLevelIterator \<Rightarrow> entries \<Rightarrow> nat \<Rightarrow> nat option \<Rightarrow> bool" where
  "on_block t ixs b p \<longleftrightarrow> index.wrapped (tl_index t) ixs (Some b) \<and>
     data.wrapped (tl_data t) (block_of (ixs ! b)) p \<and> tl_data_block_handle t = snd (ixs ! b) \<and>
     tl_status t = status_OK"

definition off_end :: "('i, 'd) TwoLevelIterator \<Rightarrow> entries \<Rightarrow> bool" where
  "off_end t ixs \<longleftrightarrow> index.wrapped (tl_index t) ixs None \<and> data_none t \<and> tl_status t = status_OK"

definition any_data :: "('i, 'd) TwoLevelIterator \<Rightarrow> bool" where
  "any_data t \<longleftrightarrow> tl_status t = status_OK \<and>
     (data_none t \<or> (\<exists>ys p. contents (tl_data_block_handle t) = Some ys \<and> data.wrapped (tl_data t) ys p))"

definition old_data :: "('i, 'd) TwoLevelIterator \<Rightarrow> bool" where
  "old_data t \<longleftrightarrow> tl_status t = status_OK \<and> (data_none t \<or> (\<exists>ys p. data.wrapped (tl_data t) ys p))"

lemma any_data_old: "any_data t \<Longrightarrow> old_data t"
  by (auto simp: any_data_def old_data_def)

definition tl_repr :: "('i, 'd) TwoLevelIterator \<Rightarrow> entries \<Rightarrow> nat option \<Rightarrow> bool" where
  "tl_repr t xs p \<longleftrightarrow> (\<exists>ixs. blocks_ok ixs \<and> separated ixs \<and> xs = concat (map block_of ixs) \<and>
     (case p of None \<Rightarrow> off_end t ixs
      | Some n \<Rightarrow> \<exists>b j. on_block t ixs b (Some j) \<and> n = start ixs b + j))"

lemma data_none_status: "data_none t \<Longrightarrow> wr_status dops (tl_data t) = status_OK"
  by (simp add: data_none_def wr_status_def)

lemma old_data_status: "old_data t \<Longrightarrow> wr_status dops (tl_data t) = status_OK"
  using data.wrapped_observed(2) data_none_status by (auto simp: old_data_def)

lemma destroy_data:
  "old_data t \<Longrightarrow> envok e \<Longrightarrow>
     envok (case wr_iter (tl_data t) of None \<Rightarrow> e | Some old \<Rightarrow> io_Destroy dops old e)"
  by (auto simp: old_data_def data_none_def data.wrapped_def dest: data.destroy split: option.split)

lemma SetDataIterator_eq:
  "old_data t \<Longrightarrow> SetDataIterator T d t e =
    (t\<lparr>tl_data := fst (wr_Set dops d (tl_data t) e)\<rparr>, snd (wr_Set dops d (tl_data t) e))"
  using old_data_status [of t]
  by (simp add: SetDataIterator_def SaveError_def Let_def split_beta ok_def status_OK_def old_data_def)

lemma wr_Set_env: "snd (wr_Set ops d w e) = (case wr_iter w of None \<Rightarrow> e | Some old \<Rightarrow> io_Destroy ops old e)"
  by (simp add: wr_Set_def Let_def split: option.split)

lemma set_none:
  assumes "index.wrapped (tl_index t) ixs None" "old_data t" "envok e"
  shows "\<exists>t' e'. SetDataIterator T None t e = (t', e') \<and> off_end t' ixs \<and> envok e'"
  using assms destroy_data [of t e]
  by (simp add: SetDataIterator_eq off_end_def wr_Set_env)
    (simp add: wr_Set_def Let_def data_none_def old_data_def)

lemma init_none:
  assumes "index.wrapped (tl_index t) ixs None" "any_data t" "envok e"
  shows "\<exists>t' e'. InitDataBlock T t e = (t', e') \<and> off_end t' ixs \<and> envok e'"
  using set_none [OF assms(1) any_data_old assms(3)] assms(2) index.wrapped_observed(1) [OF assms(1)]
  by (simp add: InitDataBlock_def)

lemma init_block:
  assumes at: "index.wrapped (tl_index t) ixs (Some b)" and any: "any_data t" and e: "envok e" and ok: "blocks_ok ixs"
  shows "\<exists>t' e' p. InitDataBlock T t e = (t', e') \<and> on_block t' ixs b p \<and> envok e'"
proof -
  define h where "h = snd (ixs ! b)"
  have b: "b < length ixs" "wr_valid (tl_index t)" "wr_value iops (tl_index t) = h"
    using index.wrapped_observed(1,4) [OF at] by (auto simp: h_def)
  have h: "contents h = Some (block_of (ixs ! b))" using block_of_ok [OF ok b(1)] by (simp add: h_def)
  show ?thesis
  proof (cases "wr_iter (tl_data t) \<noteq> None \<and> h = tl_data_block_handle t")
    case True
    then obtain ys p where "contents h = Some ys" "data.wrapped (tl_data t) ys p" "tl_status t = status_OK"
      using any by (auto simp: any_data_def data_none_def)
    then have "on_block t ixs b p" using True at h by (simp add: on_block_def h_def)
    then show ?thesis using True b e by (auto simp: InitDataBlock_def slice_compare_eq)
  next
    case False
    obtain d e1 p where d: "open_block h e = (d, e1)" "drepr d (block_of (ixs ! b)) p" "envok e1"
      using opened [OF h e] by blast
    let ?t = "t\<lparr>tl_data_block_handle := h\<rparr>"
    have eq: "InitDataBlock T t e = SetDataIterator T (Some d) ?t e1"
      using False b d(1) by (auto simp: InitDataBlock_def slice_compare_eq Let_def)
    have old: "old_data ?t" using any by (auto simp: any_data_def old_data_def data_none_def)
    have "data.wrapped (fst (wr_Set dops (Some d) (tl_data t) e1)) (block_of (ixs ! b)) p"
      using data.wr_Update_wrapped [OF d(2)] by (simp add: wr_Set_def Let_def)
    then have "on_block (fst (SetDataIterator T (Some d) ?t e1)) ixs b p"
      using at any by (simp add: SetDataIterator_eq [OF old] on_block_def any_data_def) (simp add: h_def)
    moreover have "envok (snd (SetDataIterator T (Some d) ?t e1))"
      using destroy_data [OF old d(3)] by (simp add: SetDataIterator_eq [OF old] wr_Set_env)
    ultimately show ?thesis unfolding eq by (metis prod.collapse)
  qed
qed

lemma on_block_any: "on_block t ixs b p \<Longrightarrow> blocks_ok ixs \<Longrightarrow> any_data t"
  using index.in_range block_of_ok index.wrapped_observed(4)
  by (fastforce simp: on_block_def any_data_def)

lemma off_end_any: "off_end t ixs \<Longrightarrow> any_data t"
  by (simp add: off_end_def any_data_def)

text \<open>Moving the index iterator, opening the block it is at and moving in it.\<close>

lemma enter_block_spec:
  assumes any: "any_data t" and e: "envok e" and ok: "blocks_ok ixs"
    and index: "moved index.wrapped envok ixs q (mi (tl_index t) e)"
    and data: "\<And>w b p e. data.wrapped w (block_of (ixs ! b)) p \<Longrightarrow> q = Some b \<Longrightarrow> b < length ixs \<Longrightarrow> envok e \<Longrightarrow>
      moved data.wrapped envok (block_of (ixs ! b)) (f b) (md w e)"
  shows "\<exists>t' e'. enter_block T mi md t e = Some (t', e') \<and> envok e' \<and> (case q of None \<Rightarrow> off_end t' ixs | Some b \<Rightarrow> on_block t' ixs b (f b))"
proof -
  obtain w e1 where w: "mi (tl_index t) e = Some (w, e1)" "index.wrapped w ixs q" "envok e1"
    using index by (rule movedE)
  let ?t = "t\<lparr>tl_index := w\<rparr>"
  have mi: "move_index mi t e = Some (?t, e1)" by (simp add: move_index_def w(1))
  have at: "index.wrapped (tl_index ?t) ixs q" using w(2) by simp
  have any': "any_data ?t" using any by (simp add: any_data_def data_none_def)
  show ?thesis
  proof (cases q)
    case None
    obtain t2 e2 where t2: "InitDataBlock T ?t e1 = (t2, e2)" "off_end t2 ixs" "envok e2"
      using init_none [OF _ any' w(3), of ixs] at None by blast
    then have "move_data_if md t2 e2 = Some (t2, e2)" by (simp add: move_data_if_def off_end_def data_none_def)
    then show ?thesis using t2 None by (simp add: enter_block_def mi)
  next
    case (Some b)
    obtain t2 e2 p where t2: "InitDataBlock T ?t e1 = (t2, e2)" "on_block t2 ixs b p" "envok e2"
      using init_block [OF _ any' w(3) ok, of b] at Some by blast
    then have d: "data.wrapped (tl_data t2) (block_of (ixs ! b)) p" by (simp add: on_block_def)
    have b: "b < length ixs" using index.wrapped_observed(4) at Some by blast
    obtain w3 e3 where w3: "md (tl_data t2) e2 = Some (w3, e3)" "data.wrapped w3 (block_of (ixs ! b)) (f b)" "envok e3"
      using data [OF d Some b t2(3)] by (rule movedE)
    have "move_data_if md t2 e2 = Some (t2\<lparr>tl_data := w3\<rparr>, e3)"
      using data.wrapped_observed(3) [OF d] w3(1) by (simp add: move_data_if_def move_data_def)
    then show ?thesis using t2 w3 Some by (simp add: enter_block_def mi on_block_def)
  qed
qed

lemma pos_of_0: "xs \<noteq> [] \<Longrightarrow> pos_of xs 0 = Some 0"
  by (simp add: pos_of_def)

text \<open>The loops stop at once in a block, and move to the next one from its end.\<close>

lemma skip_on:
  assumes "on_block t ixs b (Some j)"
  shows "SkipEmptyDataBlocksForward T t e = Some (t, e)" "SkipEmptyDataBlocksBackward T t e = Some (t, e)"
proof -
  have "wr_iter (tl_data t) \<noteq> None" "wr_valid (tl_data t)"
    using assms data.wrapped_observed(1,3) unfolding on_block_def by blast+
  then show "SkipEmptyDataBlocksForward T t e = Some (t, e)" "SkipEmptyDataBlocksBackward T t e = Some (t, e)"
    by (auto simp: SkipEmptyDataBlocksForward.simps SkipEmptyDataBlocksBackward.simps)
qed

lemma skip_off:
  assumes "off_end t ixs" "envok e"
  shows "\<exists>t' e'. SkipEmptyDataBlocksForward T t e = Some (t', e') \<and> off_end t' ixs \<and> envok e'"
    "\<exists>t' e'. SkipEmptyDataBlocksBackward T t e = Some (t', e') \<and> off_end t' ixs \<and> envok e'"
proof -
  have w: "index.wrapped (tl_index t) ixs None" "old_data t" "data_none t"
    using assms(1) by (simp_all add: off_end_def old_data_def)
  then have "wr_iter (tl_data t) = None" "\<not> wr_valid (tl_index t)"
    using index.wrapped_observed(1) by (simp_all add: data_none_def)
  then show "\<exists>t' e'. SkipEmptyDataBlocksForward T t e = Some (t', e') \<and> off_end t' ixs \<and> envok e'"
    "\<exists>t' e'. SkipEmptyDataBlocksBackward T t e = Some (t', e') \<and> off_end t' ixs \<and> envok e'"
    using set_none [OF w(1,2) assms(2)]
    by (auto simp: SkipEmptyDataBlocksForward.simps SkipEmptyDataBlocksBackward.simps)
qed

definition fwd :: "entries \<Rightarrow> nat \<Rightarrow> ('i, 'd) TwoLevelIterator \<Rightarrow> bool" where
  "fwd ixs b t \<longleftrightarrow> (if b < length ixs then on_block t ixs b (Some 0) else off_end t ixs)"

lemma skip_forward:
  assumes on: "on_block t ixs b None" and ok: "blocks_ok ixs" and e: "envok e"
  shows "\<exists>t' e'. SkipEmptyDataBlocksForward T t e = Some (t', e') \<and> fwd ixs (b + 1) t' \<and> envok e'"
proof -
  have w: "index.wrapped (tl_index t) ixs (Some b)" "data.wrapped (tl_data t) (block_of (ixs ! b)) None"
    using on by (simp_all add: on_block_def)
  then have v: "wr_valid (tl_index t)" "\<not> wr_valid (tl_data t)"
    using index.wrapped_observed(1) data.wrapped_observed(1) by blast+
  have "\<exists>t' e'. enter_block T (wr_Next iops) (wr_SeekToFirst dops) t e = Some (t', e') \<and> envok e' \<and>
      (case pos_of ixs (b + 1) of None \<Rightarrow> off_end t' ixs | Some b \<Rightarrow> on_block t' ixs b (Some 0))"
  proof (rule enter_block_spec [OF on_block_any [OF on ok] e ok])
    show "moved index.wrapped envok ixs (pos_of ixs (b + 1)) (wr_Next iops (tl_index t) e)"
      by (rule index.wrapped_moves(4) [OF w(1) e refl])
    show "moved data.wrapped envok (block_of (ixs ! c)) (Some 0) (wr_SeekToFirst dops u e)"
      if "data.wrapped u (block_of (ixs ! c)) p" "c < length ixs" "envok e" for u c p e
      using data.wrapped_moves(1) [OF that(1,3)] block_of_ok [OF ok that(2)] by (simp add: pos_of_0)
  qed
  then obtain t1 e1 where t1: "enter_block T (wr_Next iops) (wr_SeekToFirst dops) t e = Some (t1, e1)" "envok e1" "fwd ixs (b + 1) t1"
    by (auto simp: fwd_def pos_of_def split: if_splits)
  have "SkipEmptyDataBlocksForward T t e = SkipEmptyDataBlocksForward T t1 e1"
    using v t1(1) by (subst SkipEmptyDataBlocksForward.simps) simp
  then show ?thesis
    using t1(2,3) skip_on(1) [of t1 ixs "b + 1" 0 e1] skip_off(1) [of t1 ixs e1] by (auto simp: fwd_def split: if_splits)
qed

definition bwd :: "entries \<Rightarrow> nat option \<Rightarrow> ('i, 'd) TwoLevelIterator \<Rightarrow> bool" where
  "bwd ixs q t \<longleftrightarrow>
     (case q of None \<Rightarrow> off_end t ixs | Some b \<Rightarrow> on_block t ixs b (Some (length (block_of (ixs ! b)) - 1)))"

lemma last_pos_block: "blocks_ok ixs \<Longrightarrow> b < length ixs \<Longrightarrow>
    last_pos (block_of (ixs ! b)) = Some (length (block_of (ixs ! b)) - 1)"
  using block_of_ok [of ixs b] by (simp add: last_pos_def)

lemma skip_backward:
  assumes on: "on_block t ixs b None" and ok: "blocks_ok ixs" and e: "envok e"
  shows "\<exists>t' e'. SkipEmptyDataBlocksBackward T t e = Some (t', e') \<and> bwd ixs (prev_pos b) t' \<and> envok e'"
proof -
  have w: "index.wrapped (tl_index t) ixs (Some b)" "data.wrapped (tl_data t) (block_of (ixs ! b)) None"
    using on by (simp_all add: on_block_def)
  then have v: "wr_valid (tl_index t)" "\<not> wr_valid (tl_data t)"
    using index.wrapped_observed(1) data.wrapped_observed(1) by blast+
  have "\<exists>t' e'. enter_block T (wr_Prev iops) (wr_SeekToLast dops) t e = Some (t', e') \<and> envok e' \<and>
      (case prev_pos b of None \<Rightarrow> off_end t' ixs | Some b \<Rightarrow> on_block t' ixs b (last_pos (block_of (ixs ! b))))"
    by (rule enter_block_spec [OF on_block_any [OF on ok] e ok])
      (rule index.wrapped_moves(5) [OF w(1) e refl], rule data.wrapped_moves(2))
  then obtain t1 e1 where t1: "enter_block T (wr_Prev iops) (wr_SeekToLast dops) t e = Some (t1, e1)" "envok e1"
    "case prev_pos b of None \<Rightarrow> off_end t1 ixs | Some b \<Rightarrow> on_block t1 ixs b (last_pos (block_of (ixs ! b)))"
    by blast
  have b: "b < length ixs" using index.wrapped_observed(4) [OF w(1)] by simp
  have bwd: "bwd ixs (prev_pos b) t1"
    using t1(3) b last_pos_block [OF ok, of "b - 1"] by (auto simp: bwd_def prev_pos_def)
  have "SkipEmptyDataBlocksBackward T t e = SkipEmptyDataBlocksBackward T t1 e1"
    using v t1(1) by (subst SkipEmptyDataBlocksBackward.simps) simp
  then show ?thesis
    using t1(2) bwd skip_on(2) [of t1 ixs] skip_off(2) [of t1 ixs e1] by (auto simp: bwd_def split: option.splits)
qed

text \<open>Places in a block and in the whole list.\<close>

lemma start_simps:
  "start ixs 0 = 0" "b < length ixs \<Longrightarrow> start ixs (Suc b) = start ixs b + length (block_of (ixs ! b))"
  "length ixs \<le> b \<Longrightarrow> start ixs b = length (concat (map block_of ixs))"
  by (simp_all add: start_def take_Suc_conv_app_nth)

lemma start_mono: "b \<le> c \<Longrightarrow> start ixs b \<le> start ixs c"
proof (induction c)
  case (Suc c)
  then show ?case by (cases "c < length ixs") (auto simp: start_simps le_Suc_eq)
qed simp

lemma concat_split:
  "b < length ixs \<Longrightarrow> concat (map block_of ixs) =
    concat (map block_of (take b ixs)) @ block_of (ixs ! b) @ concat (map block_of (drop (Suc b) ixs))"
  by (subst (1) id_take_nth_drop [of b ixs]) simp_all

lemma nth_start:
  assumes "b < length ixs" "j < length (block_of (ixs ! b))"
  shows "concat (map block_of ixs) ! (start ixs b + j) = block_of (ixs ! b) ! j"
    "start ixs b + j < length (concat (map block_of ixs))"
  unfolding concat_split [OF assms(1)] start_def using assms(2) by (simp_all add: nth_append)

lemma tl_reprI:
  assumes "blocks_ok ixs" "separated ixs" "xs = concat (map block_of ixs)"
  shows "on_block t ixs b (Some j) \<Longrightarrow> tl_repr t xs (Some (start ixs b + j))"
    "off_end t ixs \<Longrightarrow> tl_repr t xs None"
    "fwd ixs b t \<Longrightarrow> tl_repr t xs (pos_of xs (start ixs b))"
    "bwd ixs q t \<Longrightarrow> q = prev_pos b \<Longrightarrow> b \<le> length ixs \<Longrightarrow> tl_repr t xs (prev_pos (start ixs b))"
proof -
  show on: "tl_repr t xs (Some (start ixs b + j))" if "on_block t ixs b (Some j)" for b j
    using that assms by (auto simp: tl_repr_def)
  show off: "tl_repr t xs None" if "off_end t ixs" using that assms by (auto simp: tl_repr_def)
  show "tl_repr t xs (pos_of xs (start ixs b))" if "fwd ixs b t"
  proof (cases "b < length ixs")
    case True
    then have "start ixs b < length xs"
      using nth_start(2) [of b ixs 0] block_of_ok [OF assms(1)] assms(3) by simp
    then show ?thesis using on [of b 0] that True by (simp add: fwd_def pos_of_def)
  next
    case False
    then show ?thesis using off that assms(3) by (simp add: fwd_def pos_of_def start_simps)
  qed
  show "tl_repr t xs (prev_pos (start ixs b))" if "bwd ixs q t" "q = prev_pos b" "b \<le> length ixs"
  proof (cases b)
    case 0
    then show ?thesis using off that by (simp add: bwd_def prev_pos_def start_simps)
  next
    case (Suc c)
    then have "start ixs b = start ixs c + length (block_of (ixs ! c))" "block_of (ixs ! c) \<noteq> []"
      using that(3) block_of_ok [OF assms(1), of c] by (simp_all add: start_simps)
    then have "prev_pos (start ixs b) = Some (start ixs c + (length (block_of (ixs ! c)) - 1))"
      by (cases "block_of (ixs ! c)") (simp_all add: prev_pos_def)
    then show ?thesis using on [of c "length (block_of (ixs ! c)) - 1"] that Suc
      by (simp add: bwd_def prev_pos_def)
  qed
qed

lemma tl_reprE:
  assumes "tl_repr t xs (Some n)"
  obtains ixs b j where "blocks_ok ixs" "separated ixs" "xs = concat (map block_of ixs)"
    "on_block t ixs b (Some j)" "n = start ixs b + j" "b < length ixs" "j < length (block_of (ixs ! b))"
proof -
  obtain ixs b j where *: "blocks_ok ixs" "separated ixs" "xs = concat (map block_of ixs)"
    "on_block t ixs b (Some j)" "n = start ixs b + j"
    using assms by (auto simp: tl_repr_def)
  moreover have "b < length ixs" "j < length (block_of (ixs ! b))"
    using index.wrapped_observed(4) data.wrapped_observed(4) *(4) unfolding on_block_def by blast+
  ultimately show ?thesis using that by blast
qed

lemma tl_repr_any:
  assumes "tl_repr t xs p"
  obtains ixs q where "blocks_ok ixs" "separated ixs" "xs = concat (map block_of ixs)" "any_data t"
    "index.wrapped (tl_index t) ixs q"
proof (cases p)
  case None
  then show ?thesis using assms that off_end_any by (auto simp: tl_repr_def off_end_def)
next
  case (Some n)
  with assms obtain ixs b j where "blocks_ok ixs" "separated ixs" "xs = concat (map block_of ixs)"
    "on_block t ixs b (Some j)" by (auto elim: tl_reprE)
  then show ?thesis using that on_block_any by (auto simp: on_block_def)
qed

lemma move_data_spec:
  assumes on: "on_block t ixs b p" and m: "moved data.wrapped envok (block_of (ixs ! b)) q (md (tl_data t) e)"
  shows "\<exists>t' e'. move_data md t e = Some (t', e') \<and> on_block t' ixs b q \<and> envok e'"
  using m on by (auto simp: move_data_def on_block_def elim!: movedE)

lemma tl_first:
  assumes "tl_repr t xs p" "envok e"
  shows "moved tl_repr envok xs (pos_of xs 0) (tl_SeekToFirst T t e)"
proof -
  obtain ixs q where ixs: "blocks_ok ixs" "separated ixs" "xs = concat (map block_of ixs)" "any_data t"
    "index.wrapped (tl_index t) ixs q"
    using assms(1) by (rule tl_repr_any)
  have "\<exists>t' e'. enter_block T (wr_SeekToFirst iops) (wr_SeekToFirst dops) t e = Some (t', e') \<and> envok e' \<and>
      (case pos_of ixs 0 of None \<Rightarrow> off_end t' ixs | Some b \<Rightarrow> on_block t' ixs b (Some 0))"
  proof (rule enter_block_spec [OF ixs(4) assms(2) ixs(1)])
    show "moved index.wrapped envok ixs (pos_of ixs 0) (wr_SeekToFirst iops (tl_index t) e)"
      by (rule index.wrapped_moves(1) [OF ixs(5) assms(2)])
    show "moved data.wrapped envok (block_of (ixs ! c)) (Some 0) (wr_SeekToFirst dops u e)"
      if "data.wrapped u (block_of (ixs ! c)) p" "c < length ixs" "envok e" for u c p e
      using data.wrapped_moves(1) [OF that(1,3)] block_of_ok [OF ixs(1) that(2)] by (simp add: pos_of_0)
  qed
  then obtain t1 e1 where t1: "enter_block T (wr_SeekToFirst iops) (wr_SeekToFirst dops) t e = Some (t1, e1)"
    "envok e1" "fwd ixs 0 t1"
    by (auto simp: fwd_def pos_of_def split: if_splits)
  then obtain t2 e2 where "SkipEmptyDataBlocksForward T t1 e1 = Some (t2, e2)" "fwd ixs 0 t2" "envok e2"
    using skip_on(1) [of t1 ixs 0 0] skip_off(1) [of t1 ixs e1] by (auto simp: fwd_def split: if_splits)
  moreover from this have "tl_repr t2 xs (pos_of xs 0)"
    using tl_reprI(3) [OF ixs(1-3), of 0 t2] by (simp add: start_simps)
  ultimately show ?thesis using t1(1) by (simp add: tl_SeekToFirst_def moved_def)
qed

lemma tl_last:
  assumes "tl_repr t xs p" "envok e"
  shows "moved tl_repr envok xs (last_pos xs) (tl_SeekToLast T t e)"
proof -
  obtain ixs q where ixs: "blocks_ok ixs" "separated ixs" "xs = concat (map block_of ixs)" "any_data t"
    "index.wrapped (tl_index t) ixs q"
    using assms(1) by (rule tl_repr_any)
  have "\<exists>t' e'. enter_block T (wr_SeekToLast iops) (wr_SeekToLast dops) t e = Some (t', e') \<and> envok e' \<and>
      (case last_pos ixs of None \<Rightarrow> off_end t' ixs | Some b \<Rightarrow> on_block t' ixs b (last_pos (block_of (ixs ! b))))"
    by (rule enter_block_spec [OF ixs(4) assms(2) ixs(1)])
      (rule index.wrapped_moves(2) [OF ixs(5) assms(2)], rule data.wrapped_moves(2))
  then obtain t1 e1 where t1: "enter_block T (wr_SeekToLast iops) (wr_SeekToLast dops) t e = Some (t1, e1)" "envok e1"
    "case last_pos ixs of None \<Rightarrow> off_end t1 ixs | Some b \<Rightarrow> on_block t1 ixs b (last_pos (block_of (ixs ! b)))"
    by blast
  have pos: "last_pos ixs = prev_pos (length ixs)" by (simp add: last_pos_def prev_pos_def)
  have "bwd ixs (prev_pos (length ixs)) t1"
    using t1(3) last_pos_block [OF ixs(1), of "length ixs - 1"] unfolding pos by (auto simp: bwd_def prev_pos_def)
  then obtain t2 e2 where t2: "SkipEmptyDataBlocksBackward T t1 e1 = Some (t2, e2)" "bwd ixs (prev_pos (length ixs)) t2" "envok e2"
    using t1(2) skip_on(2) [of t1 ixs] skip_off(2) [of t1 ixs e1] by (auto simp: bwd_def split: option.splits)
  have "tl_repr t2 xs (prev_pos (start ixs (length ixs)))"
    by (rule tl_reprI(4) [OF ixs(1-3) t2(2) refl]) simp
  moreover have "prev_pos (start ixs (length ixs)) = last_pos xs"
    using ixs(3) by (simp add: start_simps prev_pos_def last_pos_def)
  ultimately show ?thesis using t1(1) t2 by (simp add: tl_SeekToLast_def moved_def)
qed

lemma tl_next:
  assumes "tl_repr t xs (Some n)" "envok e"
  shows "moved tl_repr envok xs (pos_of xs (n + 1)) (tl_Next T t e)"
proof -
  obtain ixs b j where ixs: "blocks_ok ixs" "separated ixs" "xs = concat (map block_of ixs)"
    "on_block t ixs b (Some j)" "n = start ixs b + j" "b < length ixs" "j < length (block_of (ixs ! b))"
    using assms(1) by (rule tl_reprE)
  have d: "data.wrapped (tl_data t) (block_of (ixs ! b)) (Some j)" using ixs(4) by (simp add: on_block_def)
  obtain t1 e1 where t1: "move_data (wr_Next dops) t e = Some (t1, e1)"
    "on_block t1 ixs b (pos_of (block_of (ixs ! b)) (j + 1))" "envok e1"
    using move_data_spec [where md = "wr_Next dops", OF ixs(4) data.wrapped_moves(4) [OF d assms(2) refl]] by blast
  show ?thesis
  proof (cases "j + 1 < length (block_of (ixs ! b))")
    case True
    then have on: "on_block t1 ixs b (Some (j + 1))" using t1(2) by (simp add: pos_of_def)
    have "pos_of xs (n + 1) = Some (start ixs b + (j + 1))"
      using nth_start(2) [OF ixs(6) True] ixs(3,5) by (simp add: pos_of_def)
    then show ?thesis
      using skip_on(1) [OF on, of e1] t1 tl_reprI(1) [OF ixs(1-3) on] by (simp add: tl_Next_def moved_def)
  next
    case False
    then have "on_block t1 ixs b None" using t1(2) by (simp add: pos_of_def)
    then obtain t2 e2 where t2: "SkipEmptyDataBlocksForward T t1 e1 = Some (t2, e2)" "fwd ixs (b + 1) t2" "envok e2"
      using skip_forward [OF _ ixs(1) t1(3)] by blast
    have "n + 1 = start ixs (b + 1)" using False ixs(5-7) by (simp add: start_simps)
    then show ?thesis using t1(1) t2 tl_reprI(3) [OF ixs(1-3) t2(2)] by (simp add: tl_Next_def moved_def)
  qed
qed

lemma tl_prev:
  assumes "tl_repr t xs (Some n)" "envok e"
  shows "moved tl_repr envok xs (prev_pos n) (tl_Prev T t e)"
proof -
  obtain ixs b j where ixs: "blocks_ok ixs" "separated ixs" "xs = concat (map block_of ixs)"
    "on_block t ixs b (Some j)" "n = start ixs b + j" "b < length ixs" "j < length (block_of (ixs ! b))"
    using assms(1) by (rule tl_reprE)
  have d: "data.wrapped (tl_data t) (block_of (ixs ! b)) (Some j)" using ixs(4) by (simp add: on_block_def)
  obtain t1 e1 where t1: "move_data (wr_Prev dops) t e = Some (t1, e1)" "on_block t1 ixs b (prev_pos j)" "envok e1"
    using move_data_spec [where md = "wr_Prev dops", OF ixs(4) data.wrapped_moves(5) [OF d assms(2) refl]] by blast
  show ?thesis
  proof (cases j)
    case (Suc i)
    then have on: "on_block t1 ixs b (Some i)" using t1(2) by (simp add: prev_pos_def)
    then show ?thesis
      using skip_on(2) [OF on, of e1] t1 tl_reprI(1) [OF ixs(1-3) on] Suc ixs(5)
      by (simp add: tl_Prev_def moved_def prev_pos_def)
  next
    case 0
    then have "on_block t1 ixs b None" using t1(2) by (simp add: prev_pos_def)
    then obtain t2 e2 where t2: "SkipEmptyDataBlocksBackward T t1 e1 = Some (t2, e2)" "bwd ixs (prev_pos b) t2" "envok e2"
      using skip_backward [OF _ ixs(1) t1(3)] by blast
    have "tl_repr t2 xs (prev_pos (start ixs b))"
      by (rule tl_reprI(4) [OF ixs(1-3) t2(2) refl]) (use ixs(6) in simp)
    then show ?thesis using t1(1) t2 0 ixs(5) by (simp add: tl_Prev_def moved_def)
  qed
qed

text \<open>Seeking in the index and then in the block.\<close>

lemma takeWhile_blocks:
  assumes ok: "blocks_ok ixs" and sep: "separated ixs" and t: "target_ok t"
    and b: "b = length (takeWhile (\<lambda>(k, v). below k t) ixs)"
    and j: "b < length ixs \<Longrightarrow> j = length (takeWhile (\<lambda>(k, v). below k t) (block_of (ixs ! b)))"
    and j0: "\<not> b < length ixs \<Longrightarrow> j = 0"
  shows "length (takeWhile (\<lambda>(k, v). below k t) (concat (map block_of ixs))) = start ixs b + j"
proof -
  let ?P = "\<lambda>(k, v). below k t"
  have le: "b \<le> length ixs" unfolding b by (rule length_takeWhile_le)
  have below: "?P (ixs ! m)" if "m < b" for m
    using that nth_mem [of m "takeWhile ?P ixs"] takeWhile_nth [of m ?P ixs] unfolding b by (metis set_takeWhileD)
  have before: "\<forall>x \<in> set (concat (map block_of (take b ixs))). ?P x"
  proof
    fix x
    assume "x \<in> set (concat (map block_of (take b ixs)))"
    then obtain kh where kh: "kh \<in> set (take b ixs)" "x \<in> set (block_of kh)" by auto
    then obtain m where m: "m < b" "m < length ixs" "kh = ixs ! m" by (auto simp: in_set_conv_nth)
    have "below (fst (ixs ! m)) t" using below [OF m(1)] by (simp add: split_beta)
    then show "?P x" using sep t m(2,3) kh(2) unfolding separated_def by blast
  qed
  have split: "concat (map block_of ixs) = concat (map block_of (take b ixs)) @ concat (map block_of (drop b ixs))"
    by (metis append_take_drop_id concat_append map_append)
  have "length (takeWhile ?P (concat (map block_of ixs))) =
      start ixs b + length (takeWhile ?P (concat (map block_of (drop b ixs))))"
    unfolding split using before by (subst takeWhile_append2) (auto simp: start_def)
  moreover have "length (takeWhile ?P (concat (map block_of (drop b ixs)))) = j"
  proof (cases "b < length ixs")
    case True
    let ?B = "block_of (ixs ! b)" and ?R = "concat (map block_of (drop (Suc b) ixs))"
    have drop: "drop b ixs = ixs ! b # drop (Suc b) ixs" using True by (simp add: Cons_nth_drop_Suc)
    have "\<not> ?P (ixs ! b)" using True nth_length_takeWhile [of ?P ixs] unfolding b by simp
    then have nb: "\<not> below (fst (ixs ! b)) t" by (simp add: split_beta)
    have "\<not> ?P x" if "x \<in> set ?R" for x
    proof -
      from that obtain kh where kh: "kh \<in> set (drop (Suc b) ixs)" "x \<in> set (block_of kh)" by auto
      then obtain n where "n < length ixs - Suc b" "kh = ixs ! (Suc b + n)" by (auto simp: in_set_conv_nth)
      then have "Suc b + n < length ixs" "b < Suc b + n" "x \<in> set (block_of (ixs ! (Suc b + n)))"
        using kh(2) by simp_all
      then show ?thesis using sep t True nb unfolding separated_def by blast
    qed
    then have R: "takeWhile ?P ?R = []" by (intro takeWhile_none) blast
    have "takeWhile ?P (?B @ ?R) = takeWhile ?P ?B"
    proof (cases "\<forall>x \<in> set ?B. ?P x")
      case True
      then have "takeWhile ?P ?B = ?B" by (simp add: takeWhile_eq_all_conv)
      moreover have "takeWhile ?P (?B @ ?R) = ?B @ takeWhile ?P ?R" using True by (intro takeWhile_append2) auto
      ultimately show ?thesis by (simp only: R append_Nil2)
    next
      case False
      then show ?thesis by (auto intro: takeWhile_append1)
    qed
    then show ?thesis using j [OF True] drop by simp
  next
    case False
    then show ?thesis using j0 by simp
  qed
  ultimately show ?thesis by simp
qed

lemma tl_seek:
  assumes "tl_repr t xs p" "envok e" "target_ok target"
  shows "moved tl_repr envok xs (seek_pos below target xs) (tl_Seek T target t e)"
proof -
  obtain ixs q where ixs: "blocks_ok ixs" "separated ixs" "xs = concat (map block_of ixs)" "any_data t"
    "index.wrapped (tl_index t) ixs q"
    using assms(1) by (rule tl_repr_any)
  define b where "b = length (takeWhile (\<lambda>(k, v). below k target) ixs)"
  define j where "j = (if b < length ixs then length (takeWhile (\<lambda>(k, v). below k target) (block_of (ixs ! b))) else 0)"
  have len: "length (takeWhile (\<lambda>(k, v). below k target) xs) = start ixs b + j"
    unfolding ixs(3) by (rule takeWhile_blocks [OF ixs(1,2) assms(3) b_def]) (simp_all add: j_def)
  have "\<exists>t' e'. enter_block T (wr_Seek iops target) (wr_Seek dops target) t e = Some (t', e') \<and> envok e' \<and>
      (case seek_pos below target ixs of None \<Rightarrow> off_end t' ixs
       | Some b \<Rightarrow> on_block t' ixs b (seek_pos below target (block_of (ixs ! b))))"
    by (rule enter_block_spec [OF ixs(4) assms(2) ixs(1)])
      (rule index.wrapped_moves(3) [OF ixs(5) assms(2,3)], rule data.wrapped_moves(3) [OF _ _ assms(3)])
  then obtain t1 e1 where t1: "enter_block T (wr_Seek iops target) (wr_Seek dops target) t e = Some (t1, e1)" "envok e1"
    "case pos_of ixs b of None \<Rightarrow> off_end t1 ixs | Some b \<Rightarrow> on_block t1 ixs b (seek_pos below target (block_of (ixs ! b)))"
    unfolding seek_pos_def [of below target ixs] b_def [symmetric] by blast
  have "\<exists>t2 e2. SkipEmptyDataBlocksForward T t1 e1 = Some (t2, e2) \<and> envok e2 \<and> tl_repr t2 xs (pos_of xs (start ixs b + j))"
  proof (cases "b < length ixs")
    case True
    then have on: "on_block t1 ixs b (pos_of (block_of (ixs ! b)) j)"
      using t1(3) by (simp add: pos_of_def seek_pos_def j_def)
    show ?thesis
    proof (cases "j < length (block_of (ixs ! b))")
      case j: True
      then have on: "on_block t1 ixs b (Some j)" using on by (simp add: pos_of_def)
      have "start ixs b + j < length xs" using nth_start(2) [OF True j] ixs(3) by simp
      then show ?thesis using skip_on(1) [OF on, of e1] t1(2) tl_reprI(1) [OF ixs(1-3) on] by (simp add: pos_of_def)
    next
      case False
      then have "on_block t1 ixs b None" using on by (simp add: pos_of_def)
      then obtain t2 e2 where t2: "SkipEmptyDataBlocksForward T t1 e1 = Some (t2, e2)" "fwd ixs (b + 1) t2" "envok e2"
        using skip_forward [OF _ ixs(1) t1(2)] by blast
      have "j \<le> length (block_of (ixs ! b))" using True by (simp add: j_def length_takeWhile_le)
      then have "start ixs b + j = start ixs (b + 1)" using False True by (simp add: start_simps)
      then show ?thesis using t2 tl_reprI(3) [OF ixs(1-3) t2(2)] by simp
    qed
  next
    case False
    then have off: "off_end t1 ixs" using t1(3) by (simp add: pos_of_def)
    have "\<not> start ixs b + j < length xs" using False ixs(3) by (simp add: start_simps j_def)
    then show ?thesis using skip_off(1) [OF off t1(2)] tl_reprI(2) [OF ixs(1-3)] by (auto simp: pos_of_def)
  qed
  then show ?thesis using t1(1) len by (auto simp: tl_Seek_def moved_def seek_pos_def)
qed

lemma tl_destroy: "tl_repr t xs p \<Longrightarrow> envok e \<Longrightarrow> envok (tl_Destroy T t e)"
  using index.destroy destroy_data [of t e]
  by (elim tl_repr_any) (auto simp: tl_Destroy_def Let_def index.wrapped_def dest!: any_data_old split: option.splits)

lemma tl_observed:
  assumes "tl_repr t xs (Some n)"
  shows "n < length xs" "wr_valid (tl_data t)" "(wr_key (tl_data t), wr_value dops (tl_data t)) = xs ! n"
proof -
  obtain ixs b j where ixs: "blocks_ok ixs" "separated ixs" "xs = concat (map block_of ixs)"
    "on_block t ixs b (Some j)" "n = start ixs b + j" "b < length ixs" "j < length (block_of (ixs ! b))"
    using assms(1) by (rule tl_reprE)
  have d: "data.wrapped (tl_data t) (block_of (ixs ! b)) (Some j)" using ixs(4) by (simp add: on_block_def)
  show "n < length xs" "wr_valid (tl_data t)" "(wr_key (tl_data t), wr_value dops (tl_data t)) = xs ! n"
    using nth_start [OF ixs(6,7)] data.wrapped_observed(1,4) [OF d] ixs(3,5) by simp_all
qed

lemma tl_status: "tl_repr t xs p \<Longrightarrow> tl_status_of T t = status_OK"
proof (elim tl_repr_any)
  fix ixs q
  assume "any_data t" "index.wrapped (tl_index t) ixs q"
  then show "tl_status_of T t = status_OK"
    using old_data_status [OF any_data_old] index.wrapped_observed(2)
    by (simp add: tl_status_of_def ok_def status_OK_def any_data_def)
qed

lemma tl_invalid: "tl_repr t xs None \<Longrightarrow> \<not> wr_valid (tl_data t)"
  by (auto simp: tl_repr_def off_end_def data_none_def)

lemma NewTwoLevelIterator_repr:
  assumes "irepr i ixs None" "blocks_ok ixs" "separated ixs"
  shows "tl_repr (NewTwoLevelIterator T i) (concat (map block_of ixs)) None"
  using assms index.wr_Update_wrapped [OF assms(1)]
  by (auto simp: tl_repr_def NewTwoLevelIterator_def mk_IteratorWrapper_def off_end_def data_none_def Let_def)

end

sublocale two_level \<subseteq> tl: iterator "two_level_iterator T" tl_repr envok below target_ok
proof (unfold_locales, goal_cases)
  case (2 t xs p)
  then show ?case using tl_observed(2) [of t xs] tl_invalid [of t xs]
    by (cases p) (auto simp: two_level_iterator_def)
next
  case (8 t xs n e)
  then show ?case using tl_next [of t xs n e] by (simp add: two_level_iterator_def)
qed (simp_all add: two_level_iterator_def tl_observed tl_status tl_destroy tl_first tl_last tl_seek tl_prev)

subsection \<open>Cursors\<close>

text \<open>A client walks over an iterator by its five moves and looks at it after each. What it must see
  is what a cursor over the list of entries shows; moving on from no entry is not allowed.\<close>

datatype iterator_move = ToFirst | ToLast | ToKey slice | ToNext | ToPrev

fun cursor_move :: "(slice \<Rightarrow> slice \<Rightarrow> bool) \<Rightarrow> entries \<Rightarrow> iterator_move \<Rightarrow> nat option \<Rightarrow> nat option option" where
  "cursor_move lt xs ToFirst p = Some (pos_of xs 0)"
| "cursor_move lt xs ToLast p = Some (last_pos xs)"
| "cursor_move lt xs (ToKey t) p = Some (seek_pos lt t xs)"
| "cursor_move lt xs ToNext p = map_option (\<lambda>n. pos_of xs (n + 1)) p"
| "cursor_move lt xs ToPrev p = map_option prev_pos p"

primrec cursor_walk ::
  "(slice \<Rightarrow> slice \<Rightarrow> bool) \<Rightarrow> entries \<Rightarrow> iterator_move list \<Rightarrow> nat option \<Rightarrow> (slice \<times> slice) option list option" where
  "cursor_walk lt xs [] p = Some []"
| "cursor_walk lt xs (m # ms) p =
     do { p \<leftarrow> cursor_move lt xs m p;
          obs \<leftarrow> cursor_walk lt xs ms p;
          Some (map_option ((!) xs) p # obs) }"

fun iterator_step :: "('i, 'e) Iterator \<Rightarrow> iterator_move \<Rightarrow> 'i \<Rightarrow> 'e \<Rightarrow> ('i \<times> 'e) option" where
  "iterator_step ops ToFirst = io_SeekToFirst ops"
| "iterator_step ops ToLast = io_SeekToLast ops"
| "iterator_step ops (ToKey t) = io_Seek ops t"
| "iterator_step ops ToNext = io_Next ops"
| "iterator_step ops ToPrev = io_Prev ops"

primrec iterator_walk ::
  "('i, 'e) Iterator \<Rightarrow> iterator_move list \<Rightarrow> 'i \<Rightarrow> 'e \<Rightarrow> ((slice \<times> slice) option list \<times> 'i \<times> 'e) option" where
  "iterator_walk ops [] i e = Some ([], i, e)"
| "iterator_walk ops (m # ms) i e =
     do { (i, e) \<leftarrow> iterator_step ops m i e;
          (obs, j, e) \<leftarrow> iterator_walk ops ms i e;
          Some ((if io_Valid ops i then Some (io_key ops i, io_value ops i) else None) # obs, j, e) }"

context iterator
begin

lemma step_cursor:
  assumes "repr i xs p" "envok e" "cursor_move below xs m p = Some q" "\<And>t. m = ToKey t \<Longrightarrow> target_ok t"
  shows "moved repr envok xs q (iterator_step ops m i e)"
  using assms first [OF assms(1,2)] last [OF assms(1,2)] seek [OF assms(1,2)] "next" prev by (cases m) auto

lemma walk_cursor:
  "repr i xs p \<Longrightarrow> envok e \<Longrightarrow> cursor_walk below xs ms p = Some obs \<Longrightarrow> (\<And>t. ToKey t \<in> set ms \<Longrightarrow> target_ok t) \<Longrightarrow>
    \<exists>j q e'. iterator_walk ops ms i e = Some (obs, j, e') \<and> repr j xs q \<and> envok e'"
proof (induction ms arbitrary: i p e obs)
  case (Cons m ms)
  from Cons.prems(3) obtain q rest where q: "cursor_move below xs m p = Some q" "cursor_walk below xs ms q = Some rest"
    "obs = map_option ((!) xs) q # rest" by (auto simp: bind_eq_Some_conv)
  obtain j e1 where j: "iterator_step ops m i e = Some (j, e1)" "repr j xs q" "envok e1"
    using step_cursor [OF Cons.prems(1,2) q(1)] Cons.prems(4) by (auto elim: movedE)
  obtain k r e2 where "iterator_walk ops ms j e1 = Some (rest, k, e2)" "repr k xs r" "envok e2"
    using Cons.IH [OF j(2,3) q(2)] Cons.prems(4) by auto
  moreover have "(if io_Valid ops j then Some (io_key ops j, io_value ops j) else None) = map_option ((!) xs) q"
    using j(2) valid_iff [OF j(2)] entry by (cases q) auto
  ultimately show ?case using j(1) q(3) by auto
qed auto

end

end
