(* ===== verification/Ldb_Table_Builder.thy ===== *)
theory Ldb_Table_Builder
  imports Ldb_Format
begin

unbundle bit_operations_syntax

text \<open>
  Writing LevelDB's tables: \<^verbatim>\<open>table/table_builder.cc\<close> under \<^verbatim>\<open>src/ios/Pods/leveldb-library/\<close>.
  The file behind \<^verbatim>\<open>WritableFile\<close> is a parameter. A block builder keeps the restart interval of the
  options it points to.
\<close>

record ('f, 'h, 'c) TableBuilder =
  tb_options :: "('h, 'c) Options"
  tb_index_block_options :: "('h, 'c) Options"
  tb_file :: 'f
  tb_offset :: u64
  tb_status :: Status
  tb_data_block :: BlockBuilder
  tb_index_block :: BlockBuilder
  tb_last_key :: slice
  tb_num_entries :: int
  tb_closed :: bool
  tb_filter_block :: "FilterBlockBuilder option"
  tb_pending_index_entry :: bool
  tb_pending_handle :: BlockHandle
  tb_compressed_output :: "byte list"

definition mk_Rep :: "('h, 'c) Options \<Rightarrow> 'f \<Rightarrow> ('f, 'h, 'c) TableBuilder" where
  "mk_Rep opt f =
     (let index_options = opt\<lparr>block_restart_interval := 1\<rparr>
      in \<lparr>tb_options = opt, tb_index_block_options = index_options, tb_file = f, tb_offset = 0,
          tb_status = status_OK, tb_data_block = mk_BlockBuilder (block_restart_interval opt),
          tb_index_block = mk_BlockBuilder (block_restart_interval index_options), tb_last_key = [],
          tb_num_entries = 0, tb_closed = False,
          tb_filter_block = map_option mk_FilterBlockBuilder (opt_filter_policy opt),
          tb_pending_index_entry = False, tb_pending_handle = mk_BlockHandle,
          tb_compressed_output = []\<rparr>)"

definition mk_TableBuilder :: "('h, 'c) Options \<Rightarrow> 'f \<Rightarrow> ('f, 'h, 'c) TableBuilder" where
  "mk_TableBuilder options f =
     (let r = mk_Rep options f in r\<lparr>tb_filter_block := map_option (StartBlock 0) (tb_filter_block r)\<rparr>)"

text \<open>\<open>same_comparator\<close> says whether the two options point to the same comparator.\<close>

definition ChangeOptions ::
  "bool \<Rightarrow> ('h, 'c) Options \<Rightarrow> ('f, 'h, 'c) TableBuilder \<Rightarrow> Status \<times> ('f, 'h, 'c) TableBuilder" where
  "ChangeOptions same_comparator options r =
     (if \<not> same_comparator then (InvalidArgument (c_string ''changing comparator while building table'') [], r)
      else
        (let index_options = options\<lparr>block_restart_interval := 1\<rparr>
         in (status_OK, r\<lparr>tb_options := options, tb_index_block_options := index_options,
              tb_data_block := (tb_data_block r)\<lparr>bb_interval := block_restart_interval options\<rparr>,
              tb_index_block := (tb_index_block r)\<lparr>bb_interval := 1\<rparr>\<rparr>)))"

definition WriteRawBlock ::
  "'f WritableFile \<Rightarrow> slice \<Rightarrow> CompressionType \<Rightarrow> ('f, 'h, 'c) TableBuilder \<Rightarrow>
   BlockHandle \<times> ('f, 'h, 'c) TableBuilder" where
  "WriteRawBlock env block_contents type r =
     (let handle = \<lparr>bh_offset = tb_offset r, bh_size = of_nat (length block_contents)\<rparr>;
          (s, f) = Append env block_contents (tb_file r);
          r = r\<lparr>tb_status := s, tb_file := f\<rparr>
      in if ok s then
           (let crc = Extend (Value block_contents) [compression_byte type];
                trailer = compression_byte type # EncodeFixed32 (Mask crc);
                (s, f) = Append env trailer (tb_file r);
                r = r\<lparr>tb_status := s, tb_file := f\<rparr>
            in (handle,
                if ok s
                then r\<lparr>tb_offset := tb_offset r + (of_nat (length block_contents) + kBlockTrailerSize)\<rparr>
                else r))
         else (handle, r))"

text \<open>The handle of the block that was written, its builder afterwards, and the table builder.\<close>

definition WriteBlock ::
  "'f WritableFile \<Rightarrow> BlockBuilder \<Rightarrow> ('f, 'h, 'c) TableBuilder \<Rightarrow>
   BlockHandle \<times> BlockBuilder \<times> ('f, 'h, 'c) TableBuilder" where
  "WriteBlock env block r =
     (let (raw, block) = bb_Finish block;
          (block_contents, type, r) =
            (case compression (tb_options r) of
               kNoCompression \<Rightarrow> (raw, kNoCompression, r)
             | kSnappyCompression \<Rightarrow>
                 (case Snappy_Compress raw of
                    None \<Rightarrow> (raw, kNoCompression, r)
                  | Some compressed \<Rightarrow>
                      (let r = r\<lparr>tb_compressed_output := compressed\<rparr>
                       in if length compressed < length raw - length raw div 8
                          then (compressed, kSnappyCompression, r) else (raw, kNoCompression, r))));
          (handle, r) = WriteRawBlock env block_contents type r
      in (handle, bb_Reset block, r\<lparr>tb_compressed_output := []\<rparr>))"

definition tb_Flush :: "'f WritableFile \<Rightarrow> ('f, 'h, 'c) TableBuilder \<Rightarrow> ('f, 'h, 'c) TableBuilder" where
  "tb_Flush env r =
     (if \<not> ok (tb_status r) then r
      else if bb_empty (tb_data_block r) then r
      else
        (let (handle, block, r) = WriteBlock env (tb_data_block r) r;
             r = r\<lparr>tb_pending_handle := handle, tb_data_block := block\<rparr>;
             r = (if ok (tb_status r) then
                    (let (s, f) = Flush env (tb_file r)
                     in r\<lparr>tb_pending_index_entry := True, tb_status := s, tb_file := f\<rparr>)
                  else r)
         in r\<lparr>tb_filter_block := map_option (StartBlock (tb_offset r)) (tb_filter_block r)\<rparr>))"

definition tb_Add ::
  "'f WritableFile \<Rightarrow> slice \<Rightarrow> slice \<Rightarrow> ('f, 'h, 'c) TableBuilder \<Rightarrow> ('f, 'h, 'c) TableBuilder" where
  "tb_Add env key val r =
     (if \<not> ok (tb_status r) then r
      else
        (let r = (if tb_pending_index_entry r then
                    (let last_key = FindShortestSeparator (opt_comparator (tb_options r)) (tb_last_key r) key;
                         handle_encoding = handle_EncodeTo (tb_pending_handle r) []
                     in r\<lparr>tb_last_key := last_key,
                          tb_index_block := bb_Add last_key handle_encoding (tb_index_block r),
                          tb_pending_index_entry := False\<rparr>)
                  else r);
             r = r\<lparr>tb_filter_block := map_option (AddKey key) (tb_filter_block r)\<rparr>;
             r = r\<lparr>tb_last_key := key, tb_num_entries := tb_num_entries r + 1,
                   tb_data_block := bb_Add key val (tb_data_block r)\<rparr>;
             estimated_block_size = CurrentSizeEstimate (tb_data_block r)
         in if estimated_block_size \<ge> block_size (tb_options r) then tb_Flush env r else r))"

definition WriteFilterBlock ::
  "'f WritableFile \<Rightarrow> ('f, 'h, 'c) TableBuilder \<Rightarrow> BlockHandle \<times> ('f, 'h, 'c) TableBuilder" where
  "WriteFilterBlock env r =
     (case tb_filter_block r of
        None \<Rightarrow> (mk_BlockHandle, r)
      | Some b \<Rightarrow>
          if ok (tb_status r) then WriteRawBlock env (filter_Finish b) kNoCompression r
          else (mk_BlockHandle, r))"

text \<open>A policy that \<^verbatim>\<open>ChangeOptions\<close> has taken away, which the code would follow as a null pointer, adds no
  entry here.\<close>

definition WriteMetaindexBlock ::
  "'f WritableFile \<Rightarrow> BlockHandle \<Rightarrow> ('f, 'h, 'c) TableBuilder \<Rightarrow> BlockHandle \<times> ('f, 'h, 'c) TableBuilder"
where
  "WriteMetaindexBlock env filter_block_handle r =
     (if ok (tb_status r) then
        (let block = mk_BlockBuilder (block_restart_interval (tb_options r));
             block = (case (tb_filter_block r, opt_filter_policy (tb_options r)) of
                        (Some b, Some policy) \<Rightarrow>
                          bb_Add (c_string ''filter.'' @ policy_Name policy)
                            (handle_EncodeTo filter_block_handle []) block
                      | _ \<Rightarrow> block);
             (handle, block, r) = WriteBlock env block r
         in (handle, r))
      else (mk_BlockHandle, r))"

definition WriteIndexBlock ::
  "'f WritableFile \<Rightarrow> ('f, 'h, 'c) TableBuilder \<Rightarrow> BlockHandle \<times> ('f, 'h, 'c) TableBuilder" where
  "WriteIndexBlock env r =
     (if ok (tb_status r) then
        (let r = (if tb_pending_index_entry r then
                    (let last_key = FindShortSuccessor (opt_comparator (tb_options r)) (tb_last_key r);
                         handle_encoding = handle_EncodeTo (tb_pending_handle r) []
                     in r\<lparr>tb_last_key := last_key,
                          tb_index_block := bb_Add last_key handle_encoding (tb_index_block r),
                          tb_pending_index_entry := False\<rparr>)
                  else r);
             (handle, block, r) = WriteBlock env (tb_index_block r) r
         in (handle, r\<lparr>tb_index_block := block\<rparr>))
      else (mk_BlockHandle, r))"

definition WriteFooter ::
  "'f WritableFile \<Rightarrow> BlockHandle \<Rightarrow> BlockHandle \<Rightarrow> ('f, 'h, 'c) TableBuilder \<Rightarrow> ('f, 'h, 'c) TableBuilder"
where
  "WriteFooter env metaindex_block_handle index_block_handle r =
     (if ok (tb_status r) then
        (let footer = mk_Footer\<lparr>metaindex_handle := metaindex_block_handle,
                                 index_handle := index_block_handle\<rparr>;
             footer_encoding = footer_EncodeTo footer [];
             (s, f) = Append env footer_encoding (tb_file r);
             r = r\<lparr>tb_status := s, tb_file := f\<rparr>
         in if ok s then r\<lparr>tb_offset := tb_offset r + of_nat (length footer_encoding)\<rparr> else r)
      else r)"

definition tb_Finish ::
  "'f WritableFile \<Rightarrow> ('f, 'h, 'c) TableBuilder \<Rightarrow> Status \<times> ('f, 'h, 'c) TableBuilder" where
  "tb_Finish env r =
     (let r = tb_Flush env r;
          r = r\<lparr>tb_closed := True\<rparr>;
          (filter_block_handle, r) = WriteFilterBlock env r;
          (metaindex_block_handle, r) = WriteMetaindexBlock env filter_block_handle r;
          (index_block_handle, r) = WriteIndexBlock env r;
          r = WriteFooter env metaindex_block_handle index_block_handle r
      in (tb_status r, r))"

definition Abandon :: "('f, 'h, 'c) TableBuilder \<Rightarrow> ('f, 'h, 'c) TableBuilder" where
  "Abandon r = r\<lparr>tb_closed := True\<rparr>"

definition NumEntries :: "('f, 'h, 'c) TableBuilder \<Rightarrow> u64" where
  "NumEntries r = of_int (tb_num_entries r)"

definition FileSize :: "('f, 'h, 'c) TableBuilder \<Rightarrow> u64" where
  "FileSize r = tb_offset r"

end
