(* ===== verification/Ldb_Format_Correct.thy ===== *)
theory Ldb_Format_Correct
  imports Ldb_Format Ldb_Coding_Correct Ldb_Crc32c_Correct
begin

unbundle bit_operations_syntax

text \<open>
  Handles and footers are read back, and \<^verbatim>\<open>ReadBlock\<close> returns the block that was written at the place
  a handle names. A handle is a code in the sense of \<^verbatim>\<open>Prefix_Codec\<close>, a pair of two varints.
\<close>

subsection \<open>Handles and footers\<close>

interpretation handle_codec: codec_pair any EncodeVarint64 GetVarint64 any EncodeVarint64 GetVarint64
  by unfold_locales

lemma handle_EncodeTo_eq: "handle_EncodeTo h dst = dst @ EncodeVarint64 (bh_offset h) @ EncodeVarint64 (bh_size h)"
  by (simp add: handle_EncodeTo_def PutVarint64_def)

lemma length_handle: "length (handle_EncodeTo h []) \<le> 20"
  using length_varint_bytes_64 [of "bh_offset h"] length_varint_bytes_64 [of "bh_size h"]
  by (simp add: handle_EncodeTo_eq EncodeVarint64_eq)

lemma handle_DecodeFrom_dec_pair:
  "ok (fst (handle_DecodeFrom input h)) \<longleftrightarrow> dec_pair GetVarint64 GetVarint64 input \<noteq> None"
  "dec_pair GetVarint64 GetVarint64 input = Some ((a, b), r) \<Longrightarrow>
     handle_DecodeFrom input h = (status_OK, h\<lparr>bh_offset := a, bh_size := b\<rparr>, r)"
  by (auto simp: handle_DecodeFrom_def dec_pair_def Let_def ok_def status_OK_def Corruption_def mk_Status_def
      split: option.splits)

lemma handle_roundtrip [simp]:
  "handle_DecodeFrom (handle_EncodeTo h [] @ r) h0 = (status_OK, h, r)"
  using handle_codec.pair.dec_enc [of "(bh_offset h, bh_size h)" r]
    handle_DecodeFrom_dec_pair(2) [of "handle_EncodeTo h [] @ r" "bh_offset h" "bh_size h" r h0]
  by (simp add: any_def handle_EncodeTo_eq)

lemma handle_roundtrip_exact [simp]:
  "handle_DecodeFrom (handle_EncodeTo h []) h0 = (status_OK, h, [])"
  using handle_roundtrip [of h "[]" h0] by simp

lemma ok_status [simp]: "ok status_OK"
  by (simp add: ok_def status_OK_def)

lemma footer_parts:
  "\<exists>pad. footer_EncodeTo f [] = handle_EncodeTo (metaindex_handle f) [] @ handle_EncodeTo (index_handle f) [] @ pad @
      EncodeFixed32 0x8b80fb57 @ EncodeFixed32 0xdb477524 \<and>
    length (handle_EncodeTo (metaindex_handle f) [] @ handle_EncodeTo (index_handle f) [] @ pad) = 40"
proof -
  let ?m = "handle_EncodeTo (metaindex_handle f) []" and ?i = "handle_EncodeTo (index_handle f) []"
  have "handle_EncodeTo (index_handle f) ?m = ?m @ ?i" by (simp add: handle_EncodeTo_eq)
  moreover have "length (?m @ ?i) \<le> 40" using length_handle [of "metaindex_handle f"] length_handle [of "index_handle f"] by simp
  ultimately show ?thesis
    by (intro exI [of _ "replicate (40 - length (?m @ ?i)) 0"])
      (simp add: footer_EncodeTo_def Let_def resize_def kMaxEncodedLength_def PutFixed32_def kTableMagicNumber_def)
qed

lemma length_footer: "length (footer_EncodeTo f []) = 48"
  using footer_parts [of f] by auto

lemma drop_exact: "length xs = n \<Longrightarrow> drop n (xs @ ys) = ys"
  by simp

lemma footer_roundtrip: "footer_DecodeFrom (footer_EncodeTo f []) f0 = (status_OK, f, [])"
proof -
  obtain pad where pad: "footer_EncodeTo f [] = handle_EncodeTo (metaindex_handle f) [] @ handle_EncodeTo (index_handle f) [] @ pad @
      EncodeFixed32 0x8b80fb57 @ EncodeFixed32 0xdb477524"
    "length (handle_EncodeTo (metaindex_handle f) [] @ handle_EncodeTo (index_handle f) [] @ pad) = 40"
    using footer_parts by blast
  have p: "footer_kEncodedLength - 8 = 40" by (simp add: footer_kEncodedLength_def kMaxEncodedLength_def)
  have d40: "drop 40 (footer_EncodeTo f []) = EncodeFixed32 0x8b80fb57 @ EncodeFixed32 0xdb477524"
    using drop_exact [OF pad(2), of "EncodeFixed32 0x8b80fb57 @ EncodeFixed32 0xdb477524"]
    unfolding pad(1) append_assoc .
  have d44: "drop (40 + 4) (footer_EncodeTo f []) = EncodeFixed32 0xdb477524"
    using arg_cong [OF d40, of "drop 4"] by (simp add: add.commute)
  have magic: "push_bit 32 (ucast (0xdb477524 :: u32)) OR ucast (0x8b80fb57 :: u32) = kTableMagicNumber"
    by (simp add: kTableMagicNumber_def)
  show ?thesis
    unfolding footer_DecodeFrom_def Let_def p d40 d44 DecodeFixed_EncodeFixed DecodeFixed_EncodeFixed_exact magic
    using pad by (simp add: length_footer)
qed

subsection \<open>Blocks in a file\<close>

definition raw_block :: "slice \<Rightarrow> byte list" where
  "raw_block data = data @ compression_byte kNoCompression # EncodeFixed32 (Mask (Extend (Value data) [compression_byte kNoCompression]))"

lemma length_raw_block [simp]: "length (raw_block data) = length data + 5"
  by (simp add: raw_block_def)

text \<open>What a file reads, by its documentation: the bytes from the offset, as many as there are.\<close>

definition reads :: "RandomAccessFile \<Rightarrow> byte list \<Rightarrow> bool" where
  "reads f bytes \<longleftrightarrow>
     (\<forall>off n. fst (raf_Read f off n) = status_OK \<and> fst (snd (raf_Read f off n)) = take (unat n) (drop (unat off) bytes))"

definition located :: "byte list \<Rightarrow> BlockHandle \<Rightarrow> slice \<Rightarrow> bool" where
  "located bytes h data \<longleftrightarrow> (\<exists>pre post. bytes = pre @ raw_block data @ post \<and>
     h = \<lparr>bh_offset = of_nat (length pre), bh_size = of_nat (length data)\<rparr>)"

lemma located_append: "located bytes h data \<Longrightarrow> located (bytes @ rest) h data"
  unfolding located_def by (metis append.assoc)

lemma located_end:
  "located (bytes @ raw_block data) \<lparr>bh_offset = of_nat (length bytes), bh_size = of_nat (length data)\<rparr> data"
  unfolding located_def by (metis append_Nil2)

lemma unat_of_nat_32: "n < 2 ^ 32 \<Longrightarrow> unat (of_nat n :: u64) = n"
  by (rule unat_of_nat_small) simp

lemma ReadBlock_located:
  assumes f: "reads f bytes" and at: "located bytes h data" and small: "length bytes < 2 ^ 32"
  shows "\<exists>c. ReadBlock f options h = (status_OK, c) \<and> bc_data c = data"
proof -
  obtain pre post where bytes: "bytes = pre @ raw_block data @ post"
    and h: "h = \<lparr>bh_offset = of_nat (length pre), bh_size = of_nat (length data)\<rparr>"
    using at by (auto simp: located_def)
  have len: "length pre + length data + 5 \<le> length bytes" by (simp add: bytes)
  have u: "unat (of_nat (length pre) :: u64) = length pre" "unat (of_nat (length data) :: u64) = length data"
    "unat (of_nat (length data + 5) :: u64) = length data + 5"
    using len small by - (rule unat_of_nat_32, linarith)+
  have n: "bh_size h + kBlockTrailerSize = of_nat (length data + 5)" by (simp add: h kBlockTrailerSize_def)
  obtain inb where read: "raf_Read f (bh_offset h) (bh_size h + kBlockTrailerSize) = (status_OK, raw_block data, inb)"
  proof -
    have "fst (snd (raf_Read f (bh_offset h) (bh_size h + kBlockTrailerSize))) = raw_block data"
      using f [unfolded reads_def, THEN spec, THEN spec, THEN conjunct2, of "bh_offset h" "bh_size h + kBlockTrailerSize"]
      unfolding n u(3) by (simp add: h u(1) bytes)
    moreover have "fst (raf_Read f (bh_offset h) (bh_size h + kBlockTrailerSize)) = status_OK" using f by (simp add: reads_def)
    ultimately show ?thesis using that by (metis prod.collapse)
  qed
  have "of_nat (length (raw_block data)) = bh_size h + kBlockTrailerSize" unfolding n by simp
  moreover have "take (unat (bh_size h) + 1) (raw_block data) = data @ [compression_byte kNoCompression]"
    by (simp add: h u raw_block_def)
  moreover have "drop (unat (bh_size h) + 1) (raw_block data) =
      EncodeFixed32 (Mask (Extend (Value data) [compression_byte kNoCompression]))"
    by (simp add: h u raw_block_def)
  moreover have "Extend (Value data) [compression_byte kNoCompression] = Value (data @ [compression_byte kNoCompression])"
    using Extend_append [of data "[compression_byte kNoCompression]"] len small by simp
  moreover have "raw_block data ! unat (bh_size h) = compression_byte kNoCompression" "take (unat (bh_size h)) (raw_block data) = data"
    by (simp_all add: h u raw_block_def)
  ultimately show ?thesis
    by (simp add: ReadBlock_def read Let_def Unmask_Mask)
qed

end
