(* ===== verification/Ldb_Table_Builder_Correct.thy ===== *)
theory Ldb_Table_Builder_Correct
  imports Ldb_Table_Builder Ldb_Format_Correct Ldb_Block_Correct Ldb_Log_Write
begin

unbundle bit_operations_syntax

text \<open>
  What a table builder writes. The invariant ties the builder's state to the blocks written so far,
  the index entries made for them and the entries of the block being built; the image of a finished
  table is what a reader needs to know of it.
\<close>

subsection \<open>The invariant\<close>

definition block_at :: "byte list \<Rightarrow> BlockHandle \<Rightarrow> (slice \<times> slice) list \<Rightarrow> bool" where
  "block_at bytes h xs \<longleftrightarrow>
     (\<exists>es rs. map entry_pair es = xs \<and> block_layout es rs \<and> located bytes h (block_bytes es rs))"

lemma block_at_append: "block_at bytes h xs \<Longrightarrow> block_at (bytes @ rest) h xs"
  using located_append unfolding block_at_def by blast

type_synonym blocks = "(BlockHandle \<times> (slice \<times> slice) list) list"

definition all_entries :: "blocks \<Rightarrow> (slice \<times> slice) list \<Rightarrow> (slice \<times> slice) list" where
  "all_entries blocks cur = concat (map snd blocks) @ cur"

text \<open>The index entries of the blocks: a separator that no key of its block exceeds and that is below
  every later key, and the block's handle.\<close>

definition separates ::
  "(slice \<Rightarrow> bool) \<Rightarrow> Comparator \<Rightarrow> slice \<Rightarrow> (slice \<times> slice) list \<Rightarrow> (slice \<times> slice) list \<Rightarrow> bool" where
  "separates valid cmp sep xs later \<longleftrightarrow> valid sep \<and> (\<forall>(k, v) \<in> set xs. Compare cmp k sep \<le> 0) \<and>
     (\<forall>(k, v) \<in> set later. Compare cmp sep k < 0)"

fun indexes ::
  "(slice \<Rightarrow> bool) \<Rightarrow> Comparator \<Rightarrow> (slice \<times> slice) list \<Rightarrow> blocks \<Rightarrow> (slice \<times> slice) list \<Rightarrow> bool" where
  "indexes valid cmp [] [] cur \<longleftrightarrow> True"
| "indexes valid cmp ((sep, handle) # ixs) ((h, xs) # blocks) cur \<longleftrightarrow>
     handle = handle_EncodeTo h [] \<and> separates valid cmp sep xs (all_entries blocks cur) \<and>
     indexes valid cmp ixs blocks cur"
| "indexes valid cmp _ _ cur \<longleftrightarrow> False"

definition filter_of :: "FilterPolicy option \<Rightarrow> blocks \<Rightarrow> u64 \<Rightarrow> slice list \<Rightarrow> FilterBlockBuilder option" where
  "filter_of pol blocks off keys =
     map_option (\<lambda>pol. build_blocks (map (\<lambda>(h, xs). (bh_offset h, map fst xs)) blocks @ [(off, keys)])
       (mk_FilterBlockBuilder pol)) pol"

definition in_order :: "(slice \<Rightarrow> bool) \<Rightarrow> Comparator \<Rightarrow> (slice \<times> slice) list \<Rightarrow> bool" where
  "in_order valid cmp xs \<longleftrightarrow> ascending (Compare cmp) (map fst xs) \<and> (\<forall>(k, v) \<in> set xs. valid k)"

definition blocks_at :: "byte list \<Rightarrow> blocks \<Rightarrow> bool" where
  "blocks_at bytes blocks \<longleftrightarrow> (\<forall>(h, xs) \<in> set blocks. xs \<noteq> [] \<and> block_at bytes h xs) \<and>
     (length bytes < 2 ^ 32 \<longrightarrow> sorted_wrt (<) (map (unat o bh_offset o fst) blocks @ [length bytes]))"

definition building_table ::
  "(slice \<Rightarrow> bool) \<Rightarrow> ('h, 'c) Options \<Rightarrow> byte list \<Rightarrow> ('f, 'h, 'c) TableBuilder \<Rightarrow> blocks \<Rightarrow>
   (slice \<times> slice) list \<Rightarrow> (slice \<times> slice) list \<Rightarrow> bool" where
  "building_table valid opts bytes r blocks ixs cur \<longleftrightarrow>
     tb_options r = opts \<and> tb_status r = status_OK \<and> tb_offset r = of_nat (length bytes) \<and>
     blocks_at bytes blocks \<and>
     (\<exists>es rs. built (tb_data_block r) es rs \<and> map entry_pair es = cur) \<and>
     (\<exists>es rs. built (tb_index_block r) es rs \<and> map entry_pair es = ixs) \<and>
     in_order valid (opt_comparator opts) (all_entries blocks cur) \<and>
     (all_entries blocks cur \<noteq> [] \<longrightarrow> tb_last_key r = fst (last (all_entries blocks cur))) \<and>
     (if tb_pending_index_entry r
      then cur = [] \<and> blocks \<noteq> [] \<and> tb_pending_handle r = fst (last blocks) \<and>
        indexes valid (opt_comparator opts) ixs (butlast blocks) (snd (last blocks))
      else (blocks = [] \<or> cur \<noteq> []) \<and> indexes valid (opt_comparator opts) ixs blocks cur) \<and>
     tb_filter_block r = filter_of (opt_filter_policy opts) blocks (tb_offset r) (map fst cur)"

text \<open>Simplification of the parts.\<close>

lemma all_entries_snoc: "all_entries (blocks @ [(h, xs)]) cur = all_entries blocks (xs @ cur)"
  by (simp add: all_entries_def)

lemma all_entries_Cons: "all_entries ((h, xs) # blocks) cur = xs @ all_entries blocks cur"
  by (simp add: all_entries_def)

lemma all_entries_append: "all_entries blocks (xs @ ys) = all_entries blocks xs @ ys"
  by (simp add: all_entries_def)

lemma indexes_snoc:
  "indexes valid cmp ixs blocks xs \<Longrightarrow> separates valid cmp sep xs [] \<Longrightarrow>
     indexes valid cmp (ixs @ [(sep, handle_EncodeTo h [])]) (blocks @ [(h, xs)]) []"
  by (induction valid cmp ixs blocks xs rule: indexes.induct)
    (simp_all add: all_entries_def separates_def)

text \<open>A later key that is above all separators keeps the index.\<close>

lemma indexes_later:
  "indexes valid cmp ixs blocks cur \<Longrightarrow> (\<And>sep h. (sep, h) \<in> set ixs \<Longrightarrow> Compare cmp sep key < 0) \<Longrightarrow>
     indexes valid cmp ixs blocks (cur @ [(key, val)])"
  by (induction valid cmp ixs blocks cur rule: indexes.induct)
    (auto simp: separates_def all_entries_append)

lemma indexes_length: "indexes valid cmp ixs blocks cur \<Longrightarrow> length ixs = length blocks"
  by (induction valid cmp ixs blocks cur rule: indexes.induct) auto

lemma indexes_valid: "indexes valid cmp ixs blocks cur \<Longrightarrow> (sep, h) \<in> set ixs \<Longrightarrow> valid sep"
  by (induction valid cmp ixs blocks cur rule: indexes.induct) (auto simp: separates_def)

text \<open>Every separator is below the keys being built, if there are any.\<close>

lemma indexes_below:
  "indexes valid cmp ixs blocks cur \<Longrightarrow> (sep, h) \<in> set ixs \<Longrightarrow> (k, v) \<in> set cur \<Longrightarrow> Compare cmp sep k < 0"
  by (induction valid cmp ixs blocks cur rule: indexes.induct) (auto simp: separates_def all_entries_def)

lemma build_blocks_snoc:
  "build_blocks (blocks @ [(off, keys)]) b = fold AddKey keys (StartBlock off (build_blocks blocks b))"
  by (induction blocks b rule: build_blocks.induct) simp_all

lemma build_blocks_snoc2:
  "build_blocks (blocks @ [x, (off, keys)]) b = fold AddKey keys (StartBlock off (build_blocks (blocks @ [x]) b))"
  using build_blocks_snoc [of "blocks @ [x]"] by simp

lemma filter_of_key:
  "filter_of pol blocks off (keys @ [key]) = map_option (AddKey key) (filter_of pol blocks off keys)"
  by (cases pol) (simp_all add: filter_of_def build_blocks_snoc)

lemma filter_of_block:
  "filter_of pol (blocks @ [(h, xs)]) off [] = map_option (StartBlock off) (filter_of pol blocks (bh_offset h) (map fst xs))"
  by (cases pol) (simp_all add: filter_of_def build_blocks_snoc2)

subsection \<open>Writing blocks\<close>

lemma plain_Append:
  assumes "plain_writable env contents"
  obtains f' where "Append env s f = (status_OK, f')" "contents f' = contents f @ s"
  using assms that by (cases "Append env s f") (auto simp: plain_writable_def ok_def status_OK_def, metis fst_conv snd_conv)

lemma plain_Flush:
  assumes "plain_writable env contents"
  obtains f' where "Flush env f = (status_OK, f')" "contents f' = contents f"
  using assms that by (cases "Flush env f") (auto simp: plain_writable_def ok_def status_OK_def, metis fst_conv snd_conv)

lemma WriteRawBlock_effect:
  assumes env: "plain_writable env contents" and r: "tb_offset r = of_nat (length (contents (tb_file r)))"
  shows "\<exists>f'. WriteRawBlock env data kNoCompression r =
      (\<lparr>bh_offset = tb_offset r, bh_size = of_nat (length data)\<rparr>,
       r\<lparr>tb_status := status_OK, tb_file := f', tb_offset := of_nat (length (contents f'))\<rparr>) \<and>
    contents f' = contents (tb_file r) @ raw_block data"
proof -
  let ?trailer = "compression_byte kNoCompression # EncodeFixed32 (Mask (Extend (Value data) [compression_byte kNoCompression]))"
  obtain f1 where f1: "Append env data (tb_file r) = (status_OK, f1)" "contents f1 = contents (tb_file r) @ data"
    using plain_Append [OF env] by blast
  obtain f2 where f2: "Append env ?trailer f1 = (status_OK, f2)" "contents f2 = contents f1 @ ?trailer"
    using plain_Append [OF env] by blast
  have c: "contents f2 = contents (tb_file r) @ raw_block data" using f1 f2 by (simp add: raw_block_def)
  then have "tb_offset r + (of_nat (length data) + kBlockTrailerSize) = of_nat (length (contents f2))"
    by (simp add: r kBlockTrailerSize_def)
  then have "WriteRawBlock env data kNoCompression r = (\<lparr>bh_offset = tb_offset r, bh_size = of_nat (length data)\<rparr>,
       r\<lparr>tb_status := status_OK, tb_file := f2, tb_offset := of_nat (length (contents f2))\<rparr>)"
    by (simp add: WriteRawBlock_def Let_def f1(1) f2(1))
  then show ?thesis using c by blast
qed

lemma bb_Reset_Finish: "bb_Reset (snd (bb_Finish b)) = bb_Reset b"
  by (simp add: bb_Reset_def bb_Finish_def Let_def)

lemma WriteBlock_effect:
  assumes env: "plain_writable env contents" and r: "tb_offset r = of_nat (length (contents (tb_file r)))"
    and b: "built b es rs"
  shows "\<exists>f'. WriteBlock env b r =
      (\<lparr>bh_offset = tb_offset r, bh_size = of_nat (length (block_bytes es rs))\<rparr>, bb_Reset b,
       r\<lparr>tb_status := status_OK, tb_file := f', tb_offset := of_nat (length (contents f')), tb_compressed_output := []\<rparr>) \<and>
    contents f' = contents (tb_file r) @ raw_block (block_bytes es rs)"
proof -
  obtain f' where f': "WriteRawBlock env (block_bytes es rs) kNoCompression r =
      (\<lparr>bh_offset = tb_offset r, bh_size = of_nat (length (block_bytes es rs))\<rparr>,
       r\<lparr>tb_status := status_OK, tb_file := f', tb_offset := of_nat (length (contents f'))\<rparr>)"
    "contents f' = contents (tb_file r) @ raw_block (block_bytes es rs)"
    using WriteRawBlock_effect [OF env r] by blast
  have fin: "bb_Finish b = (block_bytes es rs, snd (bb_Finish b))"
    using bb_Finish_built [OF b] by (metis prod.collapse)
  have "WriteBlock env b r = (\<lparr>bh_offset = tb_offset r, bh_size = of_nat (length (block_bytes es rs))\<rparr>, bb_Reset b,
       r\<lparr>tb_status := status_OK, tb_file := f', tb_offset := of_nat (length (contents f')), tb_compressed_output := []\<rparr>)"
    by (subst WriteBlock_def, subst fin)
      (simp add: Let_def f'(1) Snappy_Compress_def bb_Reset_Finish split: CompressionType.split)
  then show ?thesis using f'(2) by blast
qed

text \<open>A handle is that of the bytes so far.\<close>

lemma block_at_end:
  assumes "built b es rs" "map entry_pair es = xs"
  shows "block_at (bytes @ raw_block (block_bytes es rs))
    \<lparr>bh_offset = of_nat (length bytes), bh_size = of_nat (length (block_bytes es rs))\<rparr> xs"
  using assms located_end unfolding block_at_def built_def by blast

subsection \<open>The steps of the builder\<close>

lemma building_init:
  assumes "1 \<le> block_restart_interval opts" "contents f = []"
  shows "building_table valid opts (contents (tb_file (mk_TableBuilder opts f))) (mk_TableBuilder opts f) [] [] []"
proof -
  have "\<exists>rs. built (mk_BlockBuilder (block_restart_interval opts)) [] rs" "\<exists>rs. built (mk_BlockBuilder 1) [] rs"
    using built_empty assms(1) by fastforce+
  then show ?thesis
    using assms(2)
    by (cases "opt_filter_policy opts")
      (auto simp: building_table_def mk_TableBuilder_def mk_Rep_def Let_def blocks_at_def all_entries_def
        in_order_def ascending_def filter_of_def)
qed

text \<open>Flushing moves the entries being built to a block of the file.\<close>

lemma blocks_at_snoc:
  assumes "blocks_at bytes blocks" "block_at (bytes @ raw) h xs" "xs \<noteq> []" "bh_offset h = of_nat (length bytes)" "raw \<noteq> []"
  shows "blocks_at (bytes @ raw) (blocks @ [(h, xs)])"
proof -
  have "sorted_wrt (<) (map (unat o bh_offset o fst) (blocks @ [(h, xs)]) @ [length (bytes @ raw)])"
    if "length (bytes @ raw) < 2 ^ 32"
  proof -
    have u: "unat (bh_offset h) = length bytes" using that assms(4) unat_of_nat_32 [of "length bytes"] by simp
    have "sorted_wrt (<) (map (unat o bh_offset o fst) blocks @ [length bytes])"
      using assms(1) that by (simp add: blocks_at_def)
    then show ?thesis using assms(5) by (auto simp: sorted_wrt_append u)
  qed
  then show ?thesis using assms block_at_append unfolding blocks_at_def by fastforce
qed

lemma entries_bytes_Nil_iff: "entries_bytes es = [] \<longleftrightarrow> es = []"
  by (cases es) (use length_entry_bytes [of "hd es"] in \<open>auto simp: entries_bytes_def\<close>)

lemma tb_Flush_effect:
  assumes env: "plain_writable env contents" and inv: "building_table valid opts (contents (tb_file r)) r blocks ixs cur"
    and cur: "cur \<noteq> []"
  shows "\<exists>h. building_table valid opts (contents (tb_file (tb_Flush env r))) (tb_Flush env r) (blocks @ [(h, cur)]) ixs [] \<and>
    tb_pending_index_entry (tb_Flush env r)"
proof -
  have off: "tb_offset r = of_nat (length (contents (tb_file r)))" and st: "tb_status r = status_OK"
    using inv by (simp_all add: building_table_def)
  obtain es rs where b: "built (tb_data_block r) es rs" "map entry_pair es = cur"
    using inv by (auto simp: building_table_def)
  have pend: "\<not> tb_pending_index_entry r" using inv cur by (auto simp: building_table_def)
  define h where "h = \<lparr>bh_offset = tb_offset r, bh_size = of_nat (length (block_bytes es rs))\<rparr>"
  obtain f1 where f1: "WriteBlock env (tb_data_block r) r = (h, bb_Reset (tb_data_block r),
       r\<lparr>tb_status := status_OK, tb_file := f1, tb_offset := of_nat (length (contents f1)), tb_compressed_output := []\<rparr>)"
    "contents f1 = contents (tb_file r) @ raw_block (block_bytes es rs)"
    using WriteBlock_effect [OF env off b(1)] unfolding h_def by blast
  obtain f2 where f2: "Flush env f1 = (status_OK, f2)" "contents f2 = contents f1" using plain_Flush [OF env] by blast
  have "\<not> bb_empty (tb_data_block r)"
    using b cur by (auto simp: bb_empty_def built_def entries_bytes_Nil_iff)
  then have r': "tb_Flush env r = r\<lparr>tb_status := status_OK, tb_file := f2, tb_offset := of_nat (length (contents f2)),
      tb_compressed_output := [], tb_pending_handle := h, tb_data_block := bb_Reset (tb_data_block r),
      tb_pending_index_entry := True,
      tb_filter_block := map_option (StartBlock (of_nat (length (contents f2)))) (tb_filter_block r)\<rparr>"
    by (simp add: tb_Flush_def st f1(1) f2 Let_def)
  have "1 \<le> bb_interval (tb_data_block r)" using b(1) by (simp add: built_def)
  then have reset: "built (bb_Reset (tb_data_block r)) [] [0]" by (rule built_Reset)
  have "blocks_at (contents f2) (blocks @ [(h, cur)])"
    unfolding f2(2) f1(2) using inv block_at_end [OF b, of "contents (tb_file r)"] cur
    by (intro blocks_at_snoc) (simp_all add: building_table_def h_def off raw_block_def)
  then have "building_table valid opts (contents f2) (tb_Flush env r) (blocks @ [(h, cur)]) ixs []"
    using inv reset pend cur unfolding r'
    by (auto simp: building_table_def all_entries_snoc filter_of_block h_def)
  then show ?thesis unfolding r' by auto
qed

lemma tb_Flush_empty:
  assumes inv: "building_table valid opts bytes r blocks ixs []"
  shows "tb_Flush env r = r"
proof -
  obtain es rs where b: "built (tb_data_block r) es rs" "map entry_pair es = []"
    using inv by (auto simp: building_table_def)
  then have "bb_empty (tb_data_block r)" by (simp add: bb_empty_def built_def)
  then show ?thesis by (simp add: tb_Flush_def)
qed

text \<open>An added entry, before the block is flushed because it is full.\<close>

definition before_flush :: "slice \<Rightarrow> slice \<Rightarrow> ('f, 'h, 'c) TableBuilder \<Rightarrow> ('f, 'h, 'c) TableBuilder" where
  "before_flush key val r =
     (let r = (if tb_pending_index_entry r then
                 (let last_key = FindShortestSeparator (opt_comparator (tb_options r)) (tb_last_key r) key;
                      handle_encoding = handle_EncodeTo (tb_pending_handle r) []
                  in r\<lparr>tb_last_key := last_key,
                       tb_index_block := bb_Add last_key handle_encoding (tb_index_block r),
                       tb_pending_index_entry := False\<rparr>)
               else r);
          r = r\<lparr>tb_filter_block := map_option (AddKey key) (tb_filter_block r)\<rparr>
      in r\<lparr>tb_last_key := key, tb_num_entries := tb_num_entries r + 1,
           tb_data_block := bb_Add key val (tb_data_block r)\<rparr>)"

lemma tb_Add_before_flush:
  "tb_status r = status_OK \<Longrightarrow> tb_Add env key val r =
    (if CurrentSizeEstimate (tb_data_block (before_flush key val r)) \<ge> block_size (tb_options (before_flush key val r))
     then tb_Flush env (before_flush key val r) else before_flush key val r)"
  by (simp add: tb_Add_def before_flush_def Let_def)

context comparator
begin

lemma last_below:
  assumes "in_order valid cmp (xs @ [(key, val)])" "(k, v) \<in> set xs"
  shows "Compare cmp k key < 0" "valid k" "valid key"
  using assms by (auto simp: in_order_def ascending_def sorted_wrt_append)

text \<open>No key exceeds the last one.\<close>

lemma le_last:
  assumes "in_order valid cmp xs" "(k, v) \<in> set xs"
  shows "Compare cmp k (fst (last xs)) \<le> 0"
proof -
  have "xs \<noteq> []" using assms(2) by auto
  then obtain ys y where xs: "xs = ys @ [y]" by (cases xs rule: rev_cases) auto
  show ?thesis
  proof (cases "(k, v) = y")
    case True
    then show ?thesis using assms compare_refl [of k] by (force simp: xs in_order_def)
  next
    case False
    then have "(k, v) \<in> set ys" using assms(2) xs by auto
    then show ?thesis using last_below(1) [of ys "fst y" "snd y" k v] assms(1) xs by simp
  qed
qed

lemma separates_next:
  assumes "in_order valid cmp (xs @ [(key, val)])" "xs \<noteq> []" "ys \<noteq> []" "set ys \<subseteq> set xs" "last ys = last xs"
    and sep: "sep = FindShortestSeparator cmp (fst (last xs)) key"
  shows "separates valid cmp sep ys [] \<and> Compare cmp sep key < 0"
proof -
  have l: "valid (fst (last xs))" "valid key" "Compare cmp (fst (last xs)) key < 0"
    using last_below [OF assms(1), of "fst (last xs)" "snd (last xs)"] last_in_set [OF assms(2)] by simp_all
  have s: "valid sep" "Compare cmp (fst (last xs)) sep \<le> 0" "Compare cmp sep key < 0"
    using separator_between [OF l] by (simp_all add: sep)
  have xs: "in_order valid cmp xs" using assms(1) by (auto simp: in_order_def ascending_def sorted_wrt_append)
  have "Compare cmp k sep \<le> 0" if "(k, v) \<in> set ys" for k v
    using le_last [OF xs, of k v] that assms(4) compare_trans [of k "fst (last xs)" sep] l(1) s(1,2)
      last_below(2) [OF assms(1), of k v] by blast
  then show ?thesis using s by (auto simp: separates_def)
qed

lemma seps_below:
  assumes idx: "indexes valid cmp ixs blocks cur" and cur: "cur \<noteq> []"
    and order: "in_order valid cmp (cur @ [(key, val)])" and sep: "(sep, h) \<in> set ixs"
  shows "Compare cmp sep key < 0"
proof -
  have "hd cur \<in> set cur" using cur by simp
  then obtain k v where kv: "(k, v) \<in> set cur" by (metis surj_pair)
  have "Compare cmp sep k < 0" by (rule indexes_below [OF idx sep kv])
  moreover have "Compare cmp k key < 0" "valid k" "valid key" using last_below [OF order kv] by simp_all
  ultimately show ?thesis
    using compare_less_trans [of sep k key] indexes_valid [OF idx sep] by simp
qed

lemma in_order_suffix: "in_order valid c (xs @ ys) \<Longrightarrow> in_order valid c ys"
  by (auto simp: in_order_def ascending_def sorted_wrt_append)

lemma all_entries_butlast:
  "blocks \<noteq> [] \<Longrightarrow> all_entries blocks [] = concat (map snd (butlast blocks)) @ snd (last blocks)"
  by (cases blocks rule: rev_cases) (simp_all add: all_entries_def)

lemma built_Add:
  assumes "\<exists>es rs. built b es rs \<and> map entry_pair es = xs"
  shows "\<exists>es rs. built (bb_Add key val b) es rs \<and> map entry_pair es = xs @ [(key, val)]"
proof -
  obtain es rs where "built b es rs" "map entry_pair es = xs" using assms by blast
  then obtain e rs' where "built (bb_Add key val b) (es @ [e]) rs'" "entry_pair e = (key, val)"
    using bb_Add_built [of b es rs key val] by blast
  then show ?thesis using \<open>map entry_pair es = xs\<close> by (intro exI [of _ "es @ [e]"] exI [of _ rs']) simp
qed

lemma before_flush_effect:
  assumes inv: "building_table valid opts bytes r blocks ixs cur" and c: "opt_comparator opts = cmp"
    and order: "in_order valid cmp (all_entries blocks cur @ [(key, val)])"
  shows "\<exists>ixs'. building_table valid opts bytes (before_flush key val r) blocks ixs' (cur @ [(key, val)]) \<and>
    tb_file (before_flush key val r) = tb_file r"
proof -
  let ?r = "before_flush key val r"
  have data: "\<exists>es rs. built (bb_Add key val (tb_data_block r)) es rs \<and> map entry_pair es = cur @ [(key, val)]"
    and index: "\<exists>es rs. built (tb_index_block r) es rs \<and> map entry_pair es = ixs"
    and opts: "tb_options r = opts"
    using inv built_Add by (auto simp: building_table_def)
  have last: "fst (last (all_entries blocks (cur @ [(key, val)]))) = key" by (simp add: all_entries_def)
  have flt: "map_option (AddKey key) (tb_filter_block r) =
      filter_of (opt_filter_policy opts) blocks (tb_offset r) (map fst (cur @ [(key, val)]))"
    using inv by (simp add: building_table_def filter_of_key)
  show ?thesis
  proof (cases "tb_pending_index_entry r")
    case True
    then have p: "cur = []" "blocks \<noteq> []" "tb_pending_handle r = fst (last blocks)"
      "indexes valid cmp ixs (butlast blocks) (snd (last blocks))"
      using inv c by (simp_all add: building_table_def)
    define xs where "xs = snd (last blocks)"
    have xs: "xs \<noteq> []" using inv p(2) last_in_set [OF p(2)] by (auto simp: building_table_def blocks_at_def xs_def split_beta)
    have all: "all_entries blocks [] = concat (map snd (butlast blocks)) @ xs"
      using all_entries_butlast [OF p(2)] by (simp add: xs_def)
    have lk: "tb_last_key r = fst (last (all_entries blocks []))"
      using inv p(1) all xs by (simp add: building_table_def)
    define sep where "sep = FindShortestSeparator cmp (tb_last_key r) key"
    have sep: "separates valid cmp sep xs []" "Compare cmp sep key < 0"
      using separates_next [of "all_entries blocks []" key val xs sep] order p(1) xs all lk
      by (simp_all add: sep_def)
    define ixs' where "ixs' = ixs @ [(sep, handle_EncodeTo (fst (last blocks)) [])]"
    have "butlast blocks @ [(fst (last blocks), xs)] = blocks" using p(2) by (simp add: xs_def)
    then have "indexes valid cmp ixs' blocks []"
      using indexes_snoc [OF p(4) [folded xs_def] sep(1), of "fst (last blocks)"] by (simp add: ixs'_def)
    moreover have "Compare cmp s key < 0" if "(s, h) \<in> set ixs'" for s h
      using that sep(2) seps_below [OF p(4) [folded xs_def] xs, of key val s h] order all p(1)
        in_order_suffix [of cmp "concat (map snd (butlast blocks))" "xs @ [(key, val)]"]
      by (auto simp: ixs'_def)
    ultimately have "indexes valid cmp ixs' blocks ([] @ [(key, val)])" by (rule indexes_later)
    moreover have "\<exists>es rs. built (tb_index_block ?r) es rs \<and> map entry_pair es = ixs'"
      using built_Add [OF index] True by (simp add: before_flush_def Let_def opts c sep_def ixs'_def p(3))
    moreover have "in_order valid cmp (all_entries blocks [(key, val)])"
      using order p(1) all_entries_append [of blocks "[]" "[(key, val)]"] by simp
    ultimately have "building_table valid opts bytes ?r blocks ixs' (cur @ [(key, val)])"
      using inv data last flt c p(1) True
      unfolding building_table_def
      by (simp add: before_flush_def Let_def all_entries_append)
    moreover have "tb_file ?r = tb_file r" by (simp add: before_flush_def Let_def)
    ultimately show ?thesis by blast
  next
    case False
    then have p: "blocks = [] \<or> cur \<noteq> []" "indexes valid cmp ixs blocks cur"
      using inv c by (simp_all add: building_table_def)
    have "Compare cmp s key < 0" if "(s, h) \<in> set ixs" for s h
    proof (cases "blocks = []")
      case True
      then show ?thesis using p(2) that indexes_length [OF p(2)] by simp
    next
      case False
      then show ?thesis using seps_below [OF p(2) _ _ that, of key val] p(1) order
          in_order_suffix [of cmp "concat (map snd blocks)" "cur @ [(key, val)]"] by (simp add: all_entries_def)
    qed
    then have "indexes valid cmp ixs blocks (cur @ [(key, val)])" by (rule indexes_later [OF p(2)])
    then have "building_table valid opts bytes ?r blocks ixs (cur @ [(key, val)])"
      using inv data last flt order c False index
      unfolding building_table_def
      by (simp add: before_flush_def Let_def all_entries_append)
    moreover have "tb_file ?r = tb_file r" using False by (simp add: before_flush_def Let_def)
    ultimately show ?thesis by blast
  qed
qed

lemma tb_Add_effect:
  assumes env: "plain_writable env contents"
    and inv: "building_table valid opts (contents (tb_file r)) r blocks ixs cur" and c: "opt_comparator opts = cmp"
    and order: "in_order valid cmp (all_entries blocks cur @ [(key, val)])"
  shows "\<exists>blocks' ixs' cur'. building_table valid opts (contents (tb_file (tb_Add env key val r))) (tb_Add env key val r) blocks' ixs' cur' \<and>
    all_entries blocks' cur' = all_entries blocks cur @ [(key, val)]"
proof -
  have st: "tb_status r = status_OK" using inv by (simp add: building_table_def)
  obtain ixs' where bf: "building_table valid opts (contents (tb_file r)) (before_flush key val r) blocks ixs' (cur @ [(key, val)])"
    "tb_file (before_flush key val r) = tb_file r"
    using before_flush_effect [OF inv c order] by blast
  have "cur @ [(key, val)] \<noteq> []" by simp
  from tb_Flush_effect [OF env _ this, of valid opts "before_flush key val r" blocks ixs'] bf
  obtain h where "building_table valid opts (contents (tb_file (tb_Flush env (before_flush key val r))))
      (tb_Flush env (before_flush key val r)) (blocks @ [(h, cur @ [(key, val)])]) ixs' []"
    by auto
  moreover have "all_entries (blocks @ [(h, cur @ [(key, val)])]) [] = all_entries blocks cur @ [(key, val)]"
    "all_entries blocks (cur @ [(key, val)]) = all_entries blocks cur @ [(key, val)]"
    by (simp_all add: all_entries_def)
  ultimately show ?thesis
    unfolding tb_Add_before_flush [OF st] using bf by (cases "CurrentSizeEstimate (tb_data_block (before_flush key val r)) \<ge>
      block_size (tb_options (before_flush key val r))") (simp, blast, simp, blast)
qed

end

definition add_entries :: "'f WritableFile \<Rightarrow> (slice \<times> slice) list \<Rightarrow> ('f, 'h, 'c) TableBuilder \<Rightarrow> ('f, 'h, 'c) TableBuilder" where
  "add_entries env kvs r = foldl (\<lambda>r (key, val). tb_Add env key val r) r kvs"

context comparator
begin

lemma add_entries_effect:
  assumes env: "plain_writable env contents" and c: "opt_comparator opts = cmp"
  shows "building_table valid opts (contents (tb_file r)) r blocks ixs cur \<Longrightarrow>
    in_order valid cmp (all_entries blocks cur @ kvs) \<Longrightarrow>
    \<exists>blocks' ixs' cur'. building_table valid opts (contents (tb_file (add_entries env kvs r))) (add_entries env kvs r) blocks' ixs' cur' \<and>
      all_entries blocks' cur' = all_entries blocks cur @ kvs"
proof (induction kvs arbitrary: r blocks ixs cur)
  case Nil
  then show ?case by (auto simp: add_entries_def)
next
  case (Cons kv kvs)
  obtain k v where kv: "kv = (k, v)" by force
  have "in_order valid cmp (all_entries blocks cur @ [(k, v)])"
    using Cons.prems(2) by (auto simp: kv in_order_def ascending_def sorted_wrt_append)
  then obtain blocks' ixs' cur' where
    *: "building_table valid opts (contents (tb_file (tb_Add env k v r))) (tb_Add env k v r) blocks' ixs' cur'"
    "all_entries blocks' cur' = all_entries blocks cur @ [(k, v)]"
    using tb_Add_effect [OF env Cons.prems(1) c] by blast
  have "in_order valid cmp (all_entries blocks' cur' @ kvs)" using Cons.prems(2) by (simp add: *(2) kv)
  from Cons.IH [OF *(1) this] show ?case by (simp add: *(2) kv add_entries_def)
qed

end

subsection \<open>Finishing\<close>

definition wrote :: "('f \<Rightarrow> byte list) \<Rightarrow> ('f, 'h, 'c) TableBuilder \<Rightarrow> ('f, 'h, 'c) TableBuilder \<Rightarrow> bool" where
  "wrote contents r r' \<longleftrightarrow> tb_status r' = status_OK \<and> tb_offset r' = of_nat (length (contents (tb_file r'))) \<and>
     (\<exists>tail. contents (tb_file r') = contents (tb_file r) @ tail)"

definition filter_entry :: "('h, 'c) Options \<Rightarrow> BlockHandle \<Rightarrow> (slice \<times> slice) list" where
  "filter_entry opts h = (case opt_filter_policy opts of None \<Rightarrow> []
     | Some policy \<Rightarrow> [(c_string ''filter.'' @ policy_Name policy, handle_EncodeTo h [])])"

text \<open>What a reader finds in a finished table: the data, blocks of the entries in order, an index of
  the blocks, the filters of the blocks' keys, and the footer that leads to them.\<close>

definition table_image ::
  "(slice \<Rightarrow> bool) \<Rightarrow> ('h, 'c) Options \<Rightarrow> byte list \<Rightarrow> blocks \<Rightarrow> (slice \<times> slice) list \<Rightarrow> Footer \<Rightarrow>
   BlockHandle \<Rightarrow> bool" where
  "table_image valid opts bytes blocks ixs ft fh \<longleftrightarrow>
     (\<exists>data rest. bytes = data @ rest @ footer_EncodeTo ft [] \<and> blocks_at data blocks \<and>
        block_at (data @ rest) (index_handle ft) ixs \<and> indexes valid (opt_comparator opts) ixs blocks [] \<and>
        block_at (data @ rest) (metaindex_handle ft) (filter_entry opts fh) \<and>
        (\<forall>b. filter_of (opt_filter_policy opts) blocks (of_nat (length data)) [] = Some b \<longrightarrow>
           located (data @ rest) fh (filter_Finish b)))"

lemma WriteFilterBlock_effect:
  assumes env: "plain_writable env contents" and r: "tb_offset r = of_nat (length (contents (tb_file r)))"
    and st: "tb_status r = status_OK"
  shows "\<exists>h f'. WriteFilterBlock env r = (h, r\<lparr>tb_file := f', tb_offset := of_nat (length (contents f'))\<rparr>) \<and>
    (\<exists>tail. contents f' = contents (tb_file r) @ tail) \<and>
    (\<forall>b. tb_filter_block r = Some b \<longrightarrow> located (contents f') h (filter_Finish b))"
proof (cases "tb_filter_block r")
  case None
  then show ?thesis
    by (intro exI [of _ mk_BlockHandle] exI [of _ "tb_file r"]) (simp add: WriteFilterBlock_def r [symmetric])
next
  case (Some b)
  obtain f' where f': "WriteRawBlock env (filter_Finish b) kNoCompression r =
      (\<lparr>bh_offset = tb_offset r, bh_size = of_nat (length (filter_Finish b))\<rparr>,
       r\<lparr>tb_status := status_OK, tb_file := f', tb_offset := of_nat (length (contents f'))\<rparr>)"
    "contents f' = contents (tb_file r) @ raw_block (filter_Finish b)"
    using WriteRawBlock_effect [OF env r] by blast
  have "WriteFilterBlock env r = (\<lparr>bh_offset = tb_offset r, bh_size = of_nat (length (filter_Finish b))\<rparr>,
      r\<lparr>tb_file := f', tb_offset := of_nat (length (contents f'))\<rparr>)"
    using Some f'(1) st by (simp add: WriteFilterBlock_def)
  moreover have "located (contents f') \<lparr>bh_offset = tb_offset r, bh_size = of_nat (length (filter_Finish b))\<rparr> (filter_Finish b)"
    unfolding f'(2) r by (rule located_end)
  ultimately show ?thesis using Some f'(2)
    by - (rule exI, rule exI [of _ f'], rule conjI, assumption, simp)
qed

lemma WriteMetaindexBlock_effect:
  assumes env: "plain_writable env contents" and r: "tb_offset r = of_nat (length (contents (tb_file r)))"
    and st: "tb_status r = status_OK" and opts: "tb_options r = opts" "1 \<le> block_restart_interval opts"
    and flt: "tb_filter_block r = None \<longleftrightarrow> opt_filter_policy opts = None"
  shows "\<exists>m f'. WriteMetaindexBlock env h r =
      (m, r\<lparr>tb_file := f', tb_offset := of_nat (length (contents f')), tb_compressed_output := []\<rparr>) \<and>
    (\<exists>tail. contents f' = contents (tb_file r) @ tail) \<and> block_at (contents f') m (filter_entry opts h)"
proof -
  define b where "b = bb_add_all (filter_entry opts h) (mk_BlockBuilder (block_restart_interval opts))"
  obtain es rs where es: "map entry_pair es = filter_entry opts h" "built b es rs"
    using bb_add_all_built [OF built_empty [OF opts(2)], of "filter_entry opts h"] by (auto simp: b_def)
  obtain f' where f': "WriteBlock env b r =
      (\<lparr>bh_offset = tb_offset r, bh_size = of_nat (length (block_bytes es rs))\<rparr>, bb_Reset b,
       r\<lparr>tb_status := status_OK, tb_file := f', tb_offset := of_nat (length (contents f')), tb_compressed_output := []\<rparr>)"
    "contents f' = contents (tb_file r) @ raw_block (block_bytes es rs)"
    using WriteBlock_effect [OF env r es(2)] by blast
  have "WriteMetaindexBlock env h r = (let (handle, block, r) = WriteBlock env b r in (handle, r))"
    using st flt opts by (auto simp: WriteMetaindexBlock_def b_def bb_add_all_def filter_entry_def split: option.splits)
  also have "\<dots> = (\<lparr>bh_offset = tb_offset r, bh_size = of_nat (length (block_bytes es rs))\<rparr>,
      r\<lparr>tb_file := f', tb_offset := of_nat (length (contents f')), tb_compressed_output := []\<rparr>)"
    using st by (simp add: f'(1))
  finally have w: "WriteMetaindexBlock env h r = (\<lparr>bh_offset = tb_offset r, bh_size = of_nat (length (block_bytes es rs))\<rparr>,
      r\<lparr>tb_file := f', tb_offset := of_nat (length (contents f')), tb_compressed_output := []\<rparr>)" .
  show ?thesis
    using w f'(2) block_at_end [OF es(2,1), of "contents (tb_file r)"] r
    by - (rule exI, rule exI [of _ f'], rule conjI, assumption, simp)
qed

context comparator
begin

lemma WriteIndexBlock_effect:
  assumes env: "plain_writable env contents" and r: "tb_offset r = of_nat (length (contents (tb_file r)))"
    and c: "opt_comparator opts = cmp"
    and inv: "building_table valid opts bytes r' blocks ixs []"
    and frame: "tb_status r = status_OK" "tb_options r = opts" "tb_index_block r = tb_index_block r'"
      "tb_last_key r = tb_last_key r'" "tb_pending_index_entry r = tb_pending_index_entry r'"
      "tb_pending_handle r = tb_pending_handle r'"
  shows "\<exists>i r1 ixs'. WriteIndexBlock env r = (i, r1) \<and> wrote contents r r1 \<and>
    block_at (contents (tb_file r1)) i ixs' \<and> indexes valid cmp ixs' blocks []"
proof -
  define r0 where "r0 = (if tb_pending_index_entry r then
      r\<lparr>tb_last_key := FindShortSuccessor (opt_comparator (tb_options r)) (tb_last_key r),
        tb_index_block := bb_Add (FindShortSuccessor (opt_comparator (tb_options r)) (tb_last_key r))
          (handle_EncodeTo (tb_pending_handle r) []) (tb_index_block r),
        tb_pending_index_entry := False\<rparr> else r)"
  have index: "\<exists>es rs. built (tb_index_block r) es rs \<and> map entry_pair es = ixs"
    using inv frame(3) by (simp add: building_table_def)
  have "\<exists>es rs ixs'. built (tb_index_block r0) es rs \<and> map entry_pair es = ixs' \<and> indexes valid cmp ixs' blocks []"
  proof (cases "tb_pending_index_entry r")
    case True
    then have p: "blocks \<noteq> []" "tb_pending_handle r = fst (last blocks)"
      "indexes valid cmp ixs (butlast blocks) (snd (last blocks))"
      using inv c frame by (simp_all add: building_table_def)
    define xs where "xs = snd (last blocks)"
    define key where "key = tb_last_key r"
    have xs: "xs \<noteq> []" using inv last_in_set [OF p(1)] by (auto simp: building_table_def blocks_at_def xs_def split_beta)
    have all: "all_entries blocks [] = concat (map snd (butlast blocks)) @ xs"
      using all_entries_butlast [OF p(1)] by (simp add: xs_def)
    have "in_order valid cmp (all_entries blocks [])" using inv c by (simp add: building_table_def)
    then have ord: "in_order valid cmp xs" unfolding all by (rule in_order_suffix)
    have key: "key = fst (last xs)" using inv xs frame(4) by (simp add: building_table_def all key_def)
    have "valid key" using ord last_in_set [OF xs] by (auto simp: in_order_def key split_beta)
    then have s: "valid (FindShortSuccessor cmp key)" "Compare cmp key (FindShortSuccessor cmp key) \<le> 0"
      using successor_above by blast+
    have "Compare cmp k (FindShortSuccessor cmp key) \<le> 0" if "(k, v) \<in> set xs" for k v
      using compare_trans [of k key "FindShortSuccessor cmp key"] le_last [OF ord that] that ord s \<open>valid key\<close>
      by (auto simp: in_order_def key)
    then have "separates valid cmp (FindShortSuccessor cmp key) xs []" using s by (auto simp: separates_def)
    moreover have "butlast blocks @ [(fst (last blocks), xs)] = blocks" using p(1) by (simp add: xs_def)
    ultimately have "indexes valid cmp (ixs @ [(FindShortSuccessor cmp key, handle_EncodeTo (fst (last blocks)) [])]) blocks []"
      using indexes_snoc [OF p(3) [folded xs_def], of "FindShortSuccessor cmp key" "fst (last blocks)"] by simp
    then show ?thesis
      using built_Add [OF index, of "FindShortSuccessor cmp key" "handle_EncodeTo (fst (last blocks)) []"] True c frame(2)
      by (auto simp: r0_def p(2) key_def)
  next
    case False
    then show ?thesis using inv index c frame by (auto simp: r0_def building_table_def)
  qed
  then obtain es rs ixs' where es: "built (tb_index_block r0) es rs" "map entry_pair es = ixs'" "indexes valid cmp ixs' blocks []"
    by blast
  have r0: "tb_offset r0 = of_nat (length (contents (tb_file r0)))" "tb_file r0 = tb_file r"
    using r by (simp_all add: r0_def)
  obtain f' where f': "WriteBlock env (tb_index_block r0) r0 =
      (\<lparr>bh_offset = tb_offset r0, bh_size = of_nat (length (block_bytes es rs))\<rparr>, bb_Reset (tb_index_block r0),
       r0\<lparr>tb_status := status_OK, tb_file := f', tb_offset := of_nat (length (contents f')), tb_compressed_output := []\<rparr>)"
    "contents f' = contents (tb_file r0) @ raw_block (block_bytes es rs)"
    using WriteBlock_effect [OF env r0(1) es(1)] by blast
  have "WriteIndexBlock env r = (let (handle, block, r) = WriteBlock env (tb_index_block r0) r0
      in (handle, r\<lparr>tb_index_block := block\<rparr>))"
    using frame(1) by (simp add: WriteIndexBlock_def r0_def Let_def)
  then have "WriteIndexBlock env r = (\<lparr>bh_offset = tb_offset r0, bh_size = of_nat (length (block_bytes es rs))\<rparr>,
      r0\<lparr>tb_status := status_OK, tb_file := f', tb_offset := of_nat (length (contents f')), tb_compressed_output := [],
         tb_index_block := bb_Reset (tb_index_block r0)\<rparr>)"
    by (simp add: f'(1))
  then show ?thesis
    using f'(2) block_at_end [OF es(1,2), of "contents (tb_file r0)"] r0 es(3) by (auto simp: wrote_def)
qed

end

lemma WriteFooter_effect:
  assumes env: "plain_writable env contents" and r: "tb_offset r = of_nat (length (contents (tb_file r)))"
    and st: "tb_status r = status_OK"
  shows "wrote contents r (WriteFooter env m i r) \<and> contents (tb_file (WriteFooter env m i r)) =
    contents (tb_file r) @ footer_EncodeTo \<lparr>metaindex_handle = m, index_handle = i\<rparr> []"
proof -
  have f: "mk_Footer\<lparr>metaindex_handle := m, index_handle := i\<rparr> = \<lparr>metaindex_handle = m, index_handle = i\<rparr>"
    by (simp add: mk_Footer_def)
  obtain f' where f': "Append env (footer_EncodeTo \<lparr>metaindex_handle = m, index_handle = i\<rparr> []) (tb_file r) = (status_OK, f')"
    "contents f' = contents (tb_file r) @ footer_EncodeTo \<lparr>metaindex_handle = m, index_handle = i\<rparr> []"
    using plain_Append [OF env] by blast
  show ?thesis using f' st r unfolding WriteFooter_def f by (simp add: wrote_def Let_def)
qed

lemma table_imageI:
  assumes "contents r0 = data" "blocks_at data blocks"
    and f1: "contents r1 = contents r0 @ t1"
      "\<And>b. filter_of (opt_filter_policy opts) blocks (of_nat (length data)) [] = Some b \<Longrightarrow> located (contents r1) fh (filter_Finish b)"
    and f2: "contents r2 = contents r1 @ t2" "block_at (contents r2) m (filter_entry opts fh)"
    and f3: "contents r3 = contents r2 @ t3" "block_at (contents r3) i ixs"
    and idx: "indexes valid (opt_comparator opts) ixs blocks []"
  shows "table_image valid opts (contents r3 @ footer_EncodeTo \<lparr>metaindex_handle = m, index_handle = i\<rparr> []) blocks ixs
    \<lparr>metaindex_handle = m, index_handle = i\<rparr> fh"
proof -
  have c: "contents r3 = data @ (t1 @ t2 @ t3)" using assms(1) f1(1) f2(1) f3(1) by simp
  have "located (contents r3) fh (filter_Finish b)"
    if "filter_of (opt_filter_policy opts) blocks (of_nat (length data)) [] = Some b" for b
    using located_append [OF f1(2) [OF that], of "t2 @ t3"] f2(1) f3(1) by simp
  moreover have "block_at (contents r3) m (filter_entry opts fh)" using block_at_append [OF f2(2)] f3(1) by simp
  ultimately show ?thesis
    using assms(2) f3(2) idx unfolding table_image_def
    by - (rule exI [of _ data], rule exI [of _ "t1 @ t2 @ t3"], simp add: c)
qed

context comparator
begin

lemma flushed:
  assumes env: "plain_writable env contents" and inv: "building_table valid opts (contents (tb_file r)) r blocks ixs cur"
  shows "\<exists>blocks'. building_table valid opts (contents (tb_file (tb_Flush env r))) (tb_Flush env r) blocks' ixs [] \<and>
    all_entries blocks' [] = all_entries blocks cur"
proof (cases "cur = []")
  case True
  then show ?thesis using inv tb_Flush_empty [of valid opts _ r blocks ixs env] by auto
next
  case False
  then show ?thesis using tb_Flush_effect [OF env inv] by (fastforce simp: all_entries_snoc)
qed

lemma building_table_closed:
  "building_table valid opts bytes (r\<lparr>tb_closed := closed\<rparr>) blocks ixs cur \<longleftrightarrow>
    building_table valid opts bytes r blocks ixs cur"
  unfolding building_table_def by simp

lemma tb_Finish_effect:
  assumes env: "plain_writable env contents" and inv: "building_table valid opts (contents (tb_file r)) r blocks ixs cur"
    and c: "opt_comparator opts = cmp" and interval: "1 \<le> block_restart_interval opts"
  shows "\<exists>r' blocks' ixs' ft fh. tb_Finish env r = (status_OK, r') \<and>
    FileSize r' = of_nat (length (contents (tb_file r'))) \<and>
    table_image valid opts (contents (tb_file r')) blocks' ixs' ft fh \<and> all_entries blocks' [] = all_entries blocks cur"
proof -
  obtain blocks' where r0: "building_table valid opts (contents (tb_file (tb_Flush env r))) (tb_Flush env r) blocks' ixs []"
    "all_entries blocks' [] = all_entries blocks cur"
    using flushed [OF env inv] by blast
  define r0 where "r0 = (tb_Flush env r)\<lparr>tb_closed := True\<rparr>"
  have b0: "building_table valid opts (contents (tb_file r0)) r0 blocks' ixs []"
    using r0(1) by (simp add: r0_def building_table_closed)
  have s0: "tb_offset r0 = of_nat (length (contents (tb_file r0)))" "tb_status r0 = status_OK" "tb_options r0 = opts"
    "blocks_at (contents (tb_file r0)) blocks'"
    "tb_filter_block r0 = filter_of (opt_filter_policy opts) blocks' (of_nat (length (contents (tb_file r0)))) []"
    using b0 by (simp_all add: building_table_def)
  obtain fh f1 t1 where w1: "WriteFilterBlock env r0 = (fh, r0\<lparr>tb_file := f1, tb_offset := of_nat (length (contents f1))\<rparr>)"
    "contents f1 = contents (tb_file r0) @ t1" "\<forall>b. tb_filter_block r0 = Some b \<longrightarrow> located (contents f1) fh (filter_Finish b)"
    using WriteFilterBlock_effect [OF env s0(1,2)] by blast
  define r1 where "r1 = r0\<lparr>tb_file := f1, tb_offset := of_nat (length (contents f1))\<rparr>"
  have s1: "tb_offset r1 = of_nat (length (contents (tb_file r1)))" "tb_status r1 = status_OK" "tb_options r1 = opts"
    "tb_filter_block r1 = None \<longleftrightarrow> opt_filter_policy opts = None"
    using s0(2,3,5) by (simp_all add: r1_def filter_of_def)
  obtain m f2 t2 where w2: "WriteMetaindexBlock env fh r1 =
      (m, r1\<lparr>tb_file := f2, tb_offset := of_nat (length (contents f2)), tb_compressed_output := []\<rparr>)"
    "contents f2 = contents (tb_file r1) @ t2" "block_at (contents f2) m (filter_entry opts fh)"
    using WriteMetaindexBlock_effect [OF env s1(1-3) interval s1(4)] by blast
  define r2 where "r2 = r1\<lparr>tb_file := f2, tb_offset := of_nat (length (contents f2)), tb_compressed_output := []\<rparr>"
  have s2: "tb_offset r2 = of_nat (length (contents (tb_file r2)))" "tb_status r2 = status_OK" "tb_options r2 = opts"
    using s1 by (simp_all add: r2_def)
  obtain i r3 ixs' where w3: "WriteIndexBlock env r2 = (i, r3)" "wrote contents r2 r3"
    "block_at (contents (tb_file r3)) i ixs'" "indexes valid cmp ixs' blocks' []"
    using WriteIndexBlock_effect [OF env s2(1) c b0 s2(2,3)] by (auto simp: r2_def r1_def)
  obtain t3 where s3: "tb_offset r3 = of_nat (length (contents (tb_file r3)))" "tb_status r3 = status_OK"
    "contents (tb_file r3) = contents f2 @ t3"
    using w3(2) by (auto simp: wrote_def r2_def)
  define r4 where "r4 = WriteFooter env m i r3"
  have w4: "wrote contents r3 r4" "contents (tb_file r4) = contents (tb_file r3) @ footer_EncodeTo \<lparr>metaindex_handle = m, index_handle = i\<rparr> []"
    using WriteFooter_effect [OF env s3(1,2)] by (simp_all add: r4_def)
  have "table_image valid opts (contents (tb_file r4)) blocks' ixs' \<lparr>metaindex_handle = m, index_handle = i\<rparr> fh"
    unfolding w4(2)
    by (rule table_imageI [where contents = contents, OF refl s0(4) w1(2) _ _ w2(3) s3(3) w3(3)])
      (use w1(3) w2(2) w3(4) s0(5) c in \<open>simp_all add: r1_def\<close>)
  moreover have "tb_Finish env r = (status_OK, r4)"
    using w4(1) unfolding tb_Finish_def by (simp add: Let_def r0_def [symmetric] w1(1) r1_def [symmetric] w2(1) r2_def [symmetric]
      w3(1) r4_def [symmetric] wrote_def)
  moreover have "FileSize r4 = of_nat (length (contents (tb_file r4)))" using w4(1) by (simp add: FileSize_def wrote_def)
  ultimately show ?thesis using r0(2) by blast
qed

end

text \<open>Building a table of some entries.\<close>

definition build_table ::
  "'f WritableFile \<Rightarrow> ('h, 'c) Options \<Rightarrow> (slice \<times> slice) list \<Rightarrow> 'f \<Rightarrow> Status \<times> ('f, 'h, 'c) TableBuilder" where
  "build_table env opts kvs f = tb_Finish env (add_entries env kvs (mk_TableBuilder opts f))"

context comparator
begin

lemma build_table_image:
  assumes env: "plain_writable env contents" "contents f = []"
    and opts: "opt_comparator opts = cmp" "1 \<le> block_restart_interval opts"
    and order: "in_order valid cmp kvs"
  shows "\<exists>r blocks ixs ft fh. build_table env opts kvs f = (status_OK, r) \<and>
    FileSize r = of_nat (length (contents (tb_file r))) \<and>
    table_image valid opts (contents (tb_file r)) blocks ixs ft fh \<and> all_entries blocks [] = kvs"
proof -
  have "in_order valid cmp (all_entries [] [] @ kvs)" using order by (simp add: all_entries_def)
  then obtain blocks ixs cur where b: "building_table valid opts (contents (tb_file (add_entries env kvs (mk_TableBuilder opts f))))
      (add_entries env kvs (mk_TableBuilder opts f)) blocks ixs cur" "all_entries blocks cur = all_entries [] [] @ kvs"
    using add_entries_effect [OF env(1) opts(1) building_init [where contents = contents and f = f, OF opts(2) env(2)]]
    by blast
  show ?thesis using tb_Finish_effect [OF env(1) b(1) opts] b(2) by (simp add: build_table_def all_entries_def [of "[]"])
qed

end

end
