(* ===== verification/Ldb_Block_Iterator.thy ===== *)
theory Ldb_Block_Iterator
  imports Ldb_Table Ldb_Block_Correct Ldb_Iterator_Correct Ldb_Table_Builder_Correct
begin

text \<open>
  The iterator of a block keeps the contract of iterators: it stands for the entries of the block
  it was made for. The block cache, whose entries its cleanup functions release, comes with the
  laws that tables rely on.
\<close>

subsection \<open>Block iterators\<close>

definition iter_pos :: "Comparator \<Rightarrow> block_entry list \<Rightarrow> nat list \<Rightarrow> Iter \<Rightarrow> nat option \<Rightarrow> bool" where
  "iter_pos cmp es rs it p \<longleftrightarrow>
     (case p of None \<Rightarrow> iter_done cmp es rs it | Some n \<Rightarrow> iter_at_entry cmp es rs it n)"

definition small_layout :: "block_entry list \<Rightarrow> nat list \<Rightarrow> bool" where
  "small_layout es rs \<longleftrightarrow> block_layout es rs \<and> length (block_bytes es rs) < 2 ^ 32"

lemma small_layoutD: "small_layout es rs \<Longrightarrow> block_layout es rs" "small_layout es rs \<Longrightarrow> length (block_bytes es rs) < 2 ^ 32"
  by (simp_all add: small_layout_def)

lemma iter_pos_over: "iter_pos cmp es rs it p \<Longrightarrow> iter_over cmp es rs it"
  by (auto simp: iter_pos_def iter_done_def iter_at_entry_def iter_before_def split: option.splits)

lemma ParseNextKey_pos:
  assumes "small_layout es rs" "iter_before cmp es rs it i"
  shows "iter_pos cmp es rs (snd (ParseNextKey it)) (pos_of (map entry_pair es) i)"
  using ParseNextKey_before [OF small_layoutD [OF assms(1)] assms(2)]
  by (auto simp: iter_pos_def pos_of_def split: if_splits)

lemma iter_moves:
  assumes lay: "small_layout es rs" and pos: "iter_pos cmp es rs it p"
  shows "iter_pos cmp es rs (it_SeekToFirst it) (pos_of (map entry_pair es) 0)"
    and "iter_pos cmp es rs (it_SeekToLast it) (last_pos (map entry_pair es))"
    and "p = Some n \<Longrightarrow> iter_pos cmp es rs (it_Next it) (pos_of (map entry_pair es) (Suc n))"
    and "p = Some n \<Longrightarrow> iter_pos cmp es rs (it_Prev it) (prev_pos n)"
proof -
  note layout = small_layoutD [OF lay] and over = iter_pos_over [OF pos]
  have "0 < length rs" "rs ! 0 = 0" using layout(1) by (auto simp: block_layout_def hd_conv_nth)
  then have "iter_before cmp es rs (SeekToRestartPoint 0 it) 0"
    using SeekToRestartPoint_before [OF layout over] by metis
  then show "iter_pos cmp es rs (it_SeekToFirst it) (pos_of (map entry_pair es) 0)"
    unfolding it_SeekToFirst_def by (rule ParseNextKey_pos [OF lay])
  show "iter_pos cmp es rs (it_SeekToLast it) (last_pos (map entry_pair es))"
    using it_SeekToLast_spec [OF layout over] by (simp add: iter_pos_def last_pos_def split: if_splits)
  show "iter_pos cmp es rs (it_Next it) (pos_of (map entry_pair es) (Suc n))" if "p = Some n"
    using ParseNextKey_pos [OF lay, of cmp it "Suc n"] pos that
    by (simp add: iter_pos_def it_Next_def iter_at_entry_def)
  show "iter_pos cmp es rs (it_Prev it) (prev_pos n)" if "p = Some n"
    using it_Prev_at [OF layout, of cmp it n] pos that by (simp add: iter_pos_def prev_pos_def split: if_splits)
qed

lemma iter_observed:
  assumes "iter_pos cmp es rs it p"
  shows "it_Valid it \<longleftrightarrow> p \<noteq> None" "it_status it = status_OK"
    "p = Some n \<Longrightarrow> n < length es \<and> (it_key it, it_value_slice it) = entry_pair (es ! n)"
  using assms iter_pos_over [OF assms] entry_at_Valid [of cmp es rs it]
  by (auto simp: iter_pos_def iter_done_def iter_over_def iter_at_entry_def entry_pair_eq split: option.splits)

text \<open>The entries of a block in order, and where the iterator is.\<close>

definition block_repr ::
  "(slice \<Rightarrow> bool) \<Rightarrow> Comparator \<Rightarrow> BlockIterator \<times> 'c list \<Rightarrow> entries \<Rightarrow> nat option \<Rightarrow> bool" where
  "block_repr valid cmp i xs p \<longleftrightarrow> key_order valid (Compare cmp) \<and> in_order valid cmp xs \<and>
     (\<exists>it cs es rs. i = (BlockIter it, cs) \<and> map entry_pair es = xs \<and> small_layout es rs \<and> iter_pos cmp es rs it p)"

lemma block_reprE:
  assumes "block_repr valid cmp i xs p"
  obtains it cs es rs where "i = (BlockIter it, cs)" "xs = map entry_pair es" "small_layout es rs"
    "iter_pos cmp es rs it p" "key_order valid (Compare cmp)" "in_order valid cmp (map entry_pair es)"
  using assms unfolding block_repr_def by blast

lemma block_reprI:
  "small_layout es rs \<Longrightarrow> iter_pos cmp es rs it p \<Longrightarrow> key_order valid (Compare cmp) \<Longrightarrow>
    in_order valid cmp (map entry_pair es) \<Longrightarrow> block_repr valid cmp (BlockIter it, cs) (map entry_pair es) p"
  unfolding block_repr_def by blast

lemma it_Seek_pos:
  assumes "small_layout es rs" "iter_pos cmp es rs it p" "key_order valid (Compare cmp)"
    "in_order valid cmp (map entry_pair es)" "valid target"
  shows "iter_pos cmp es rs (it_Seek target it) (seek_pos (\<lambda>k t. Compare cmp k t < 0) target (map entry_pair es))"
proof -
  have keys: "ascending (Compare cmp) (map entry_key es)" "\<forall>e \<in> set es. valid (entry_key e)"
    using assms(4) by (auto simp: in_order_def entry_pair_eq o_def)
  have "(\<lambda>(k, v). Compare cmp k target < 0) \<circ> entry_pair = (\<lambda>e. Compare cmp (entry_key e) target < 0)"
    by (simp add: entry_pair_eq o_def)
  then show ?thesis
    using it_Seek_spec [OF small_layoutD [OF assms(1)] iter_pos_over [OF assms(2)] assms(3) keys assms(5) refl]
    by (simp add: iter_pos_def seek_pos_def pos_of_def takeWhile_map split: if_splits)
qed

subsection \<open>The block cache\<close>

text \<open>What the table relies on, by the documentation of \<^verbatim>\<open>Cache\<close>. \<open>coherent al\<close> says that the cache only
  holds blocks that its clients may insert, \<open>al\<close> saying which under which key: what a lookup finds is
  such a block; releasing a handle leaves what keys map to; no key begins with a new id, so that the
  client who asked for it may decide what is inserted under such keys.\<close>

definition cache_laws :: "('h, 'c) Cache \<Rightarrow> ((slice \<Rightarrow> Block \<Rightarrow> bool) \<Rightarrow> 'c \<Rightarrow> bool) \<Rightarrow> bool" where
  "cache_laws cache coherent \<longleftrightarrow> (\<forall>al e. coherent al e \<longrightarrow>
     (\<forall>k. coherent al (snd (cache_Lookup cache k e)) \<and>
        (\<forall>h. fst (cache_Lookup cache k e) = Some h \<longrightarrow> al k (cache_Value cache h (snd (cache_Lookup cache k e))))) \<and>
     (\<forall>k b n. al k b \<longrightarrow> coherent al (snd (cache_Insert cache k b n e))) \<and>
     (\<forall>h. coherent al (cache_Release cache h e)) \<and>
     (\<forall>al'. (\<forall>k b. take 8 k = EncodeFixed64 (fst (cache_NewId cache e)) \<or> al' k b = al k b) \<longrightarrow>
        coherent al' (snd (cache_NewId cache e))))"

definition cache_ok ::
  "('h, 'c) Cache option \<Rightarrow> ((slice \<Rightarrow> Block \<Rightarrow> bool) \<Rightarrow> 'c \<Rightarrow> bool) \<Rightarrow> (slice \<Rightarrow> Block \<Rightarrow> bool) \<Rightarrow> 'c \<Rightarrow> bool" where
  "cache_ok cache coherent al e \<longleftrightarrow> (case cache of None \<Rightarrow> True | Some c \<Rightarrow> cache_laws c coherent \<and> coherent al e)"

lemma cache_lawsD:
  assumes "cache_laws cache coherent" "coherent al e"
  shows "coherent al (snd (cache_Lookup cache k e))"
    "fst (cache_Lookup cache k e) = Some h \<Longrightarrow> al k (cache_Value cache h (snd (cache_Lookup cache k e)))"
    "al k b \<Longrightarrow> coherent al (snd (cache_Insert cache k b n e))"
    "coherent al (cache_Release cache h e)"
    "(\<And>k b. take 8 k \<noteq> EncodeFixed64 (fst (cache_NewId cache e)) \<Longrightarrow> al' k b = al k b) \<Longrightarrow>
       coherent al' (snd (cache_NewId cache e))"
proof -
  note laws = assms(1) [unfolded cache_laws_def, THEN spec, THEN spec, THEN mp, OF assms(2)]
  show "coherent al (snd (cache_Lookup cache k e))" using laws by blast
  show "fst (cache_Lookup cache k e) = Some h \<Longrightarrow> al k (cache_Value cache h (snd (cache_Lookup cache k e)))"
    using laws [THEN conjunct1, THEN spec, THEN conjunct2, THEN spec] by (rule mp)
  show "al k b \<Longrightarrow> coherent al (snd (cache_Insert cache k b n e))"
    using laws [THEN conjunct2, THEN conjunct1] by blast
  show "coherent al (cache_Release cache h e)" using laws by blast
  show "(\<And>k b. take 8 k \<noteq> EncodeFixed64 (fst (cache_NewId cache e)) \<Longrightarrow> al' k b = al k b) \<Longrightarrow>
       coherent al' (snd (cache_NewId cache e))"
    using laws [THEN conjunct2, THEN conjunct2, THEN conjunct2, THEN spec, of al'] by metis
qed

lemma run_cleanup_ok: "cache_ok cache coherent al e \<Longrightarrow> cache_ok cache coherent al (run_cleanup cache c e)"
  by (cases cache; cases c) (simp_all add: cache_ok_def run_cleanup_def cache_lawsD(4))

lemma run_cleanups_ok: "cache_ok cache coherent al e \<Longrightarrow> cache_ok cache coherent al (run_cleanups (run_cleanup cache) cs e)"
  unfolding run_cleanups_def by (induction cs arbitrary: e) (simp_all add: run_cleanup_ok)

text \<open>The iterator of a block keeps the contract.\<close>

interpretation block_it: iterator "block_iterator (run_cleanup cache)" "block_repr valid cmp"
  "\<lambda>e. P \<and> cache_ok cache coherent al e" "\<lambda>k t. Compare cmp k t < 0" valid
  for cache valid cmp P coherent al
proof (unfold_locales, goal_cases)
  case 1
  then show ?case by (elim block_reprE) (use iter_observed(3) in fastforce)
next
  case 2
  then show ?case by (elim block_reprE) (use iter_observed(1) in \<open>fastforce simp: block_iterator_def\<close>)
next
  case 3
  then show ?case by (elim block_reprE) (use iter_observed(3) in \<open>fastforce simp: block_iterator_def\<close>)
next
  case 4
  then show ?case by (elim block_reprE) (use iter_observed(2) in \<open>fastforce simp: block_iterator_def\<close>)
next
  case 5
  then show ?case by (elim block_reprE conjE) (simp add: block_iterator_def, intro conjI movedI block_reprI iter_moves)
next
  case 6
  then show ?case by (elim block_reprE conjE) (simp add: block_iterator_def, intro conjI movedI block_reprI iter_moves)
next
  case 7
  then show ?case by (elim block_reprE conjE) (simp add: block_iterator_def, intro conjI movedI block_reprI it_Seek_pos)
next
  case 8
  then show ?case by (elim block_reprE conjE) (simp add: block_iterator_def, intro conjI movedI block_reprI iter_moves(3) [OF _ _ refl])
next
  case 9
  then show ?case by (elim block_reprE conjE) (simp add: block_iterator_def, intro conjI movedI block_reprI iter_moves(4) [OF _ _ refl])
next
  case 10
  then show ?case by (simp add: block_iterator_def run_cleanups_ok split: prod.splits)
qed

end
