(* ===== verification/Ldb_Table_Read.thy ===== *)
theory Ldb_Table_Read
  imports Ldb_Block_Iterator Ldb_Filter_Correct
begin

text \<open>
  Reading the image of a table: \<^verbatim>\<open>Open\<close> finds the index, the metaindex and the filters, the table's
  iterator is an instance of the two-level iterator on the block iterators and \<^verbatim>\<open>BlockReader\<close>, and
  \<^verbatim>\<open>InternalGet\<close> comes to the entry that is sought.
\<close>

subsection \<open>The index\<close>

lemma indexes_nth:
  "indexes valid cmp ixs blocks cur \<Longrightarrow> m < length ixs \<Longrightarrow>
    snd (ixs ! m) = handle_EncodeTo (fst (blocks ! m)) [] \<and> valid (fst (ixs ! m)) \<and>
    (\<forall>(k, v) \<in> set (snd (blocks ! m)). Compare cmp k (fst (ixs ! m)) \<le> 0) \<and>
    (\<forall>m' < length blocks. m < m' \<longrightarrow> (\<forall>(k, v) \<in> set (snd (blocks ! m')). Compare cmp (fst (ixs ! m)) k < 0))"
proof (induction valid cmp ixs blocks cur arbitrary: m rule: indexes.induct)
  case (2 valid cmp sep handle ixs h xs blocks cur)
  show ?case
  proof (cases m)
    case 0
    have "(k, v) \<in> set (all_entries blocks cur)" if "(k, v) \<in> set (snd (blocks ! n))" "n < length blocks" for k v n
      using that by (force simp: all_entries_def)
    then show ?thesis using 2(2) 0 by (force simp: separates_def nth_Cons split: nat.splits)
  next
    case (Suc n)
    then have IH: "snd (ixs ! n) = handle_EncodeTo (fst (blocks ! n)) [] \<and> valid (fst (ixs ! n)) \<and>
        (\<forall>(k, v) \<in> set (snd (blocks ! n)). Compare cmp k (fst (ixs ! n)) \<le> 0) \<and>
        (\<forall>m' < length blocks. n < m' \<longrightarrow> (\<forall>(k, v) \<in> set (snd (blocks ! m')). Compare cmp (fst (ixs ! n)) k < 0))"
      using 2 by simp
    then show ?thesis using Suc by (auto simp: nth_Cons split: nat.splits)
  qed
qed simp_all

lemma nth_all_entries:
  "m < length blocks \<Longrightarrow> (k, v) \<in> set (snd (blocks ! m)) \<Longrightarrow> (k, v) \<in> set (all_entries blocks cur)"
  by (force simp: all_entries_def)

context comparator
begin

lemma indexes_in_order:
  assumes idx: "indexes valid cmp ixs blocks cur" and ne: "\<forall>(h, xs) \<in> set blocks. xs \<noteq> []"
    and keys: "\<forall>(k, v) \<in> set (all_entries blocks cur). valid k"
  shows "in_order valid cmp ixs"
proof -
  note len = indexes_length [OF idx]
  have "Compare cmp (fst (ixs ! m)) (fst (ixs ! m')) < 0" if m: "m < m'" "m' < length ixs" for m m'
  proof -
    have "blocks ! m' \<in> set blocks" using m len by simp
    then have "snd (blocks ! m') \<noteq> []" using ne by (auto simp: split_beta)
    then have "hd (snd (blocks ! m')) \<in> set (snd (blocks ! m'))" by simp
    then obtain k v where kv: "(k, v) \<in> set (snd (blocks ! m'))" by (metis surj_pair)
    then have "valid k" using nth_all_entries [of m' blocks k v cur] m len keys by auto
    moreover have "Compare cmp (fst (ixs ! m)) k < 0" "Compare cmp k (fst (ixs ! m')) \<le> 0"
      "valid (fst (ixs ! m))" "valid (fst (ixs ! m'))"
      using indexes_nth [OF idx, of m] indexes_nth [OF idx, of m'] kv m len by auto
    ultimately show ?thesis using compare_less_le_trans by blast
  qed
  then have "ascending (Compare cmp) (map fst ixs)" by (simp add: ascending_def sorted_wrt_iff_nth_less)
  moreover have "valid sep" if "(sep, h) \<in> set ixs" for sep h using indexes_valid [OF idx that] .
  ultimately show ?thesis by (auto simp: in_order_def)
qed

end

subsection \<open>An open table\<close>

definition holds_block :: "(slice \<times> slice) list \<Rightarrow> Block \<Rightarrow> bool" where
  "holds_block xs b \<longleftrightarrow> (\<exists>es rs. map entry_pair es = xs \<and> small_layout es rs \<and> b = mk_Block (block_bytes es rs))"

text \<open>What the cache may hold under the table's keys.\<close>

definition allows_blocks :: "(slice \<Rightarrow> Block \<Rightarrow> bool) \<Rightarrow> u64 \<Rightarrow> blocks \<Rightarrow> bool" where
  "allows_blocks al cache_id blocks \<longleftrightarrow>
     (\<forall>(h, xs) \<in> set blocks. \<forall>b. al (block_cache_key cache_id h) b \<longleftrightarrow> holds_block xs b)"

definition open_table ::
  "(slice \<Rightarrow> bool) \<Rightarrow> Comparator \<Rightarrow> byte list \<Rightarrow> blocks \<Rightarrow> (slice \<Rightarrow> Block \<Rightarrow> bool) \<Rightarrow> ('h, 'c) Table \<Rightarrow> bool"
where
  "open_table valid cmp bytes blocks al t \<longleftrightarrow>
     opt_comparator (tab_options t) = cmp \<and> reads (tab_file t) bytes \<and> length bytes < 2 ^ 32 \<and>
     (\<forall>(h, xs) \<in> set blocks. xs \<noteq> [] \<and> block_at bytes h xs) \<and> distinct (map fst blocks) \<and>
     allows_blocks al (tab_cache_id t) blocks \<and>
     key_order valid (Compare cmp) \<and> in_order valid cmp (all_entries blocks [])"

definition table_env ::
  "(slice \<Rightarrow> bool) \<Rightarrow> Comparator \<Rightarrow> byte list \<Rightarrow> blocks \<Rightarrow> (slice \<Rightarrow> Block \<Rightarrow> bool) \<Rightarrow> ('h, 'c) Table \<Rightarrow>
   ((slice \<Rightarrow> Block \<Rightarrow> bool) \<Rightarrow> 'c \<Rightarrow> bool) \<Rightarrow> 'c \<Rightarrow> bool" where
  "table_env valid cmp bytes blocks al t coherent e \<longleftrightarrow> open_table valid cmp bytes blocks al t \<and>
     cache_ok (block_cache (tab_options t)) coherent al e"

definition block_contents :: "blocks \<Rightarrow> slice \<Rightarrow> (slice \<times> slice) list option" where
  "block_contents blocks = map_of (map (\<lambda>(h, xs). (handle_EncodeTo h [], xs)) blocks)"

lemma holds_blockD:
  assumes "holds_block xs b" "key_order valid (Compare cmp)" "in_order valid cmp xs"
  shows "\<exists>it. NewIterator cmp b = BlockIter it \<and> block_repr valid cmp (BlockIter it, cs) xs None"
proof -
  obtain es rs where es: "map entry_pair es = xs" "small_layout es rs" "b = mk_Block (block_bytes es rs)"
    using assms(1) unfolding holds_block_def by blast
  obtain it where it: "NewIterator cmp b = BlockIter it" "iter_over cmp es rs it"
    using NewIterator_built [OF small_layoutD [OF es(2)]] es(3) by blast
  have "\<not> it_Valid it"
    using it(1) by (auto simp: NewIterator_def Let_def mk_Iter_def it_Valid_def split: if_splits)
  then have "iter_pos cmp es rs it None" using it(2) by (simp add: iter_pos_def iter_done_def)
  then show ?thesis using it(1) block_reprI [OF es(2) _ assms(2)] assms(3) es(1) by blast
qed

lemma ReadBlock_holds:
  assumes "reads f bytes" "block_at bytes h xs" "length bytes < 2 ^ 32"
  shows "\<exists>c. ReadBlock f options h = (status_OK, c) \<and> holds_block xs (mk_Block (bc_data c))"
proof -
  obtain es rs where es: "map entry_pair es = xs" "block_layout es rs" "located bytes h (block_bytes es rs)"
    using assms(2) unfolding block_at_def by blast
  obtain c where c: "ReadBlock f options h = (status_OK, c)" "bc_data c = block_bytes es rs"
    using ReadBlock_located [OF assms(1) es(3) assms(3)] by blast
  have "length (block_bytes es rs) \<le> length bytes" using es(3) by (auto simp: located_def)
  then have "small_layout es rs" using es(2) assms(3) by (simp add: small_layout_def)
  then have "holds_block xs (mk_Block (bc_data c))" using es(1) c(2) by (auto simp: holds_block_def)
  then show ?thesis using c(1) by blast
qed

lemma block_cache_key_inject:
  "block_cache_key cid h = block_cache_key cid h' \<longleftrightarrow> bh_offset h = bh_offset h'"
  using DecodeFixed_EncodeFixed_exact(2) by (metis block_cache_key_def same_append_eq)

lemma read_through_holds:
  assumes env: "table_env valid cmp bytes blocks al t coherent e" and h: "(h, xs) \<in> set blocks"
  shows "\<exists>b hd e'. read_through t options h e = (status_OK, Some b, hd, e') \<and> holds_block xs b \<and>
    table_env valid cmp bytes blocks al t coherent e'"
proof -
  have t: "reads (tab_file t) bytes" "block_at bytes h xs" "length bytes < 2 ^ 32"
      "\<And>b. al (block_cache_key (tab_cache_id t) h) b \<longleftrightarrow> holds_block xs b"
    using env h by (auto simp: table_env_def open_table_def allows_blocks_def)
  obtain c where c: "ReadBlock (tab_file t) options h = (status_OK, c)" "holds_block xs (mk_Block (bc_data c))"
    using ReadBlock_holds [OF t(1-3)] by blast
  show ?thesis
  proof (cases "block_cache (tab_options t)")
    case None
    then show ?thesis using c env by (simp add: read_through_def)
  next
    case (Some cache)
    define k where "k = block_cache_key (tab_cache_id t) h"
    have laws: "cache_laws cache coherent" "coherent al e"
      and env': "\<And>e'. coherent al e' \<Longrightarrow> table_env valid cmp bytes blocks al t coherent e'"
      using env Some by (auto simp: table_env_def cache_ok_def)
    obtain hd e1 where look: "cache_Lookup cache k e = (hd, e1)" by force
    have e1: "coherent al e1" using cache_lawsD(1) [OF laws, of k] look by simp
    show ?thesis
    proof (cases hd)
      case None
      have "al k (mk_Block (bc_data c))" using t(4) c(2) by (simp add: k_def)
      then have "coherent al (snd (cache_Insert cache k (mk_Block (bc_data c)) n e1))" for n
        using cache_lawsD(3) [OF laws(1) e1] by blast
      then show ?thesis using None look Some c e1 env'
        by (auto simp: read_through_def k_def [symmetric] Let_def split: prod.splits) (metis snd_conv)
    next
      case (Some x)
      have "al k (cache_Value cache x e1)" using cache_lawsD(2) [OF laws, of k x] look Some by simp
      then have "holds_block xs (cache_Value cache x e1)" using t(4) by (simp add: k_def)
      then show ?thesis using Some look \<open>block_cache (tab_options t) = Some cache\<close> e1 env'
        by (simp add: read_through_def k_def [symmetric] Let_def)
    qed
  qed
qed

lemma block_contents_iff:
  "block_contents blocks v = Some xs \<Longrightarrow> \<exists>h. (h, xs) \<in> set blocks \<and> v = handle_EncodeTo h []"
  by (auto simp: block_contents_def dest!: map_of_SomeD)

lemma in_order_block:
  assumes "in_order valid cmp (all_entries blocks cur)" "(h, xs) \<in> set blocks"
  shows "in_order valid cmp xs"
proof -
  obtain as bs where "blocks = as @ (h, xs) # bs" using assms(2) by (meson split_list)
  then show ?thesis using assms(1) by (auto simp: all_entries_def in_order_def ascending_def sorted_wrt_append)
qed

text \<open>Opening the block that a handle of the index names.\<close>

lemma BlockReader_opens:
  fixes t :: "('h, 'c) Table"
  assumes "block_contents blocks v = Some xs" and env: "table_env valid cmp bytes blocks al t coherent e"
  shows "\<exists>d e'. BlockReader t options v e = (d, e') \<and> block_repr valid cmp d xs None \<and>
    table_env valid cmp bytes blocks al t coherent e'"
proof -
  obtain h where h: "(h, xs) \<in> set blocks" "v = handle_EncodeTo h []" using block_contents_iff [OF assms(1)] by blast
  obtain b hd e' where b: "read_through t options h e = (status_OK, Some b, hd, e')" "holds_block xs b"
    "table_env valid cmp bytes blocks al t coherent e'"
    using read_through_holds [OF env h(1)] by blast
  have t: "opt_comparator (tab_options t) = cmp" "key_order valid (Compare cmp)" "in_order valid cmp xs"
    using env in_order_block [OF _ h(1)] by (auto simp: table_env_def open_table_def)
  obtain it where "NewIterator cmp b = BlockIter it" "\<And>cs :: 'h Cleanup list. block_repr valid cmp (BlockIter it, cs) xs None"
    using holds_blockD [OF b(2) t(2,3)] by (metis BlockIterator.inject(2))
  then show ?thesis using b(1,3) h(2) t(1) by (cases hd) (simp_all add: BlockReader_def)
qed

interpretation table_it: two_level "block_iterator (run_cleanup (block_cache (tab_options t)))" "block_repr valid cmp"
  "\<lambda>e. open_table valid cmp bytes blocks al t \<and> cache_ok (block_cache (tab_options t)) coherent al e"
  "\<lambda>k t. Compare cmp k t < 0" valid "block_iterator (run_cleanup (block_cache (tab_options t)))" "block_repr valid cmp"
  "BlockReader t options" "block_contents blocks"
  for t :: "('h, 'c) Table" and valid cmp bytes blocks al coherent options
proof
  fix v xs e
  assume "block_contents blocks v = Some xs" "open_table valid cmp bytes blocks al t \<and>
    cache_ok (block_cache (tab_options t)) coherent al e"
  then show "\<exists>d e' p. BlockReader t options v e = (d, e') \<and> block_repr valid cmp d xs p \<and> open_table valid cmp bytes blocks al t \<and>
      cache_ok (block_cache (tab_options t)) coherent al e'"
    using BlockReader_opens [of blocks v xs valid cmp bytes al t coherent e options] unfolding table_env_def by blast
qed

subsection \<open>Opening a table\<close>

lemma any_filter_at:
  assumes "blocks_at data blocks" "length data < 2 ^ 32" "off = of_nat (length data)"
    and laws: "filter_policy pol max_keys" "length (all_entries blocks []) \<le> max_keys"
    and b: "filter_of (Some pol) blocks off [] = Some b" "length (filter_Finish b) < 2 ^ 32"
    and key: "(h, xs) \<in> set blocks" "(k, v) \<in> set xs"
  shows "filter_KeyMayMatch (mk_FilterBlockReader pol (filter_Finish b)) (bh_offset h) k"
proof -
  define bl where "bl = map (\<lambda>(h, xs). (bh_offset h, map fst xs)) blocks @ [(off, [])]"
  have b: "b = build_blocks bl (mk_FilterBlockBuilder pol)" "length (filter_Finish (build_blocks bl (mk_FilterBlockBuilder pol))) < 2 ^ 32"
    using b by (simp_all add: filter_of_def bl_def)
  have "unat off = length data" using assms(2,3) unat_of_nat_32 by simp
  then have "map (unat o fst) bl = map (unat o bh_offset o fst) blocks @ [length data]"
    by (auto simp: bl_def o_def split_beta)
  moreover have "sorted_wrt (<) (map (unat o bh_offset o fst) blocks @ [length data])"
    using assms(1,2) by (simp add: blocks_at_def)
  ultimately have "sorted (map (unat o fst) bl)" by (metis strict_sorted_imp_sorted)
  moreover have "(bh_offset h, map fst xs) \<in> set bl" "k \<in> set (map fst xs)" using key by (force simp: bl_def)+
  moreover have "sum_list (map (length o snd) bl) = length (all_entries blocks [])"
    by (simp add: bl_def all_entries_def length_concat o_def split_beta)
  ultimately show ?thesis
    unfolding b(1) using filter_policy.filter_block_no_false_negative [OF laws(1)] laws(2) b(2) by metis
qed

definition filter_matches :: "blocks \<Rightarrow> ('h, 'c) Table \<Rightarrow> bool" where
  "filter_matches blocks t \<longleftrightarrow> (\<forall>flt. tab_filter t = Some flt \<longrightarrow>
     (\<forall>(h, xs) \<in> set blocks. \<forall>(k, v) \<in> set xs. filter_KeyMayMatch flt (bh_offset h) k))"

text \<open>The filter policy, if there is one, keeps its contract for so many keys.\<close>

definition policy_covers :: "('h, 'c) Options \<Rightarrow> nat \<Rightarrow> bool" where
  "policy_covers opts n \<longleftrightarrow> (\<forall>pol. opt_filter_policy opts = Some pol \<longrightarrow>
     (\<exists>max_keys. filter_policy pol max_keys \<and> n \<le> max_keys))"

text \<open>Looking for the filter's name in the metaindex block.\<close>

lemma metaindex_seek:
  assumes "holds_block [(name, v)] b"
  shows "bi_Valid (bi_move (it_Seek name) (NewIterator BytewiseComparator b))"
    "bi_key (bi_move (it_Seek name) (NewIterator BytewiseComparator b)) = name"
    "bi_value (bi_move (it_Seek name) (NewIterator BytewiseComparator b)) = v"
proof -
  have "in_order any BytewiseComparator [(name, v)]" by (simp add: in_order_def ascending_def any_def)
  then obtain it where it: "NewIterator BytewiseComparator b = BlockIter it"
    "block_repr any BytewiseComparator (BlockIter it, [] :: unit list) [(name, v)] None"
    using holds_blockD [OF assms bytewise.user.key_order_axioms] by metis
  from it(2) obtain es rs where es: "[(name, v)] = map entry_pair es" "small_layout es rs" "iter_pos BytewiseComparator es rs it None"
    "in_order any BytewiseComparator (map entry_pair es)"
    by (elim block_reprE) auto
  have "any name" by (simp add: any_def)
  then have "iter_pos BytewiseComparator es rs (it_Seek name it) (Some 0)"
    using it_Seek_pos [OF es(2,3) bytewise.user.key_order_axioms es(4), of name]
    by (simp add: es(1) [symmetric] seek_pos_def pos_of_def Compare_bytewise)
  moreover have "length (map entry_pair es) = 1" "map entry_pair es ! 0 = (name, v)" unfolding es(1) [symmetric] by simp_all
  then have first: "entry_pair (es ! 0) = (name, v)" by simp
  ultimately show "bi_Valid (bi_move (it_Seek name) (NewIterator BytewiseComparator b))"
    "bi_key (bi_move (it_Seek name) (NewIterator BytewiseComparator b)) = name"
    "bi_value (bi_move (it_Seek name) (NewIterator BytewiseComparator b)) = v"
    using iter_observed(1,3) [of BytewiseComparator es rs "it_Seek name it" "Some 0"] first by (simp_all add: it(1))
qed

lemma ReadMeta_image:
  assumes image: "table_image valid opts bytes blocks ixs ft fh" and f: "reads f bytes" "length bytes < 2 ^ 32"
    and t: "tab_options t = opts" "tab_file t = f" "tab_filter t = None"
  shows "\<exists>flt. ReadMeta ft t = t\<lparr>tab_filter := flt\<rparr> \<and>
    (\<forall>r. flt = Some r \<longrightarrow> (\<exists>pol data b. opt_filter_policy opts = Some pol \<and> r = mk_FilterBlockReader pol (filter_Finish b) \<and>
       blocks_at data blocks \<and> length data < 2 ^ 32 \<and> length (filter_Finish b) < 2 ^ 32 \<and>
       filter_of (Some pol) blocks (of_nat (length data)) [] = Some b))"
proof (cases "opt_filter_policy opts")
  case None
  then show ?thesis by (intro exI [of _ None]) (simp add: ReadMeta_def t)
next
  case (Some pol)
  obtain data rest where d: "bytes = data @ rest @ footer_EncodeTo ft []" "blocks_at data blocks"
    "block_at (data @ rest) (metaindex_handle ft) (filter_entry opts fh)"
    "\<And>b. filter_of (opt_filter_policy opts) blocks (of_nat (length data)) [] = Some b \<Longrightarrow> located (data @ rest) fh (filter_Finish b)"
    using image unfolding table_image_def by blast
  obtain b where b: "filter_of (Some pol) blocks (of_nat (length data)) [] = Some b" by (simp add: filter_of_def)
  have loc: "located bytes fh (filter_Finish b)"
    using located_append [OF d(4)] b Some d(1) by simp
  have "block_at bytes (metaindex_handle ft) (filter_entry opts fh)" using block_at_append [OF d(3)] d(1) by simp
  then obtain c where c: "ReadBlock f (meta_options opts) (metaindex_handle ft) = (status_OK, c)"
    "holds_block [(c_string ''filter.'' @ policy_Name pol, handle_EncodeTo fh [])] (mk_Block (bc_data c))"
    using ReadBlock_holds [OF f(1) _ f(2)] Some by (fastforce simp: filter_entry_def)
  obtain c' where c': "ReadBlock f (meta_options opts) fh = (status_OK, c')" "bc_data c' = filter_Finish b"
    using ReadBlock_located [OF f(1) loc f(2)] by blast
  have "ReadMeta ft t = t\<lparr>tab_filter := Some (mk_FilterBlockReader pol (filter_Finish b))\<rparr>"
    using Some metaindex_seek [OF c(2)]
    by (simp add: ReadMeta_def ReadFilter_def t c(1) c' Let_def slice_eq_def)
  moreover have "length data < 2 ^ 32" using d(1) f(2) by simp
  moreover have "length (filter_Finish b) < 2 ^ 32" using loc f(2) by (auto simp: located_def)
  ultimately show ?thesis using Some b d(2) by blast
qed


lemma footer_of_image:
  assumes "table_image valid opts bytes blocks ixs ft fh"
  shows "48 \<le> length bytes" "drop (length bytes - 48) bytes = footer_EncodeTo ft []"
    "block_at bytes (index_handle ft) ixs"
proof -
  obtain data rest where d: "bytes = (data @ rest) @ footer_EncodeTo ft []" "block_at (data @ rest) (index_handle ft) ixs"
    using assms unfolding table_image_def by auto
  show "48 \<le> length bytes" "drop (length bytes - 48) bytes = footer_EncodeTo ft []"
    unfolding d(1) by (simp_all add: length_footer)
  show "block_at bytes (index_handle ft) ixs" unfolding d(1) by (rule block_at_append [OF d(2)])
qed

lemma raf_Read_reads:
  assumes "reads f bytes"
  obtains b where "raf_Read f off n = (status_OK, take (unat n) (drop (unat off) bytes), b)"
  using assms that unfolding reads_def by (metis prod.collapse)

lemma new_id_ok:
  assumes "cache_ok cache coherent al0 e"
    and "(cid, e') = (case cache of None \<Rightarrow> (0, e) | Some c \<Rightarrow> cache_NewId c e)" and "distinct (map (bh_offset o fst) blocks)"
  shows "\<exists>al. allows_blocks al cid blocks \<and> cache_ok cache coherent al e'"
proof -
  define al where "al = (\<lambda>k b. if take 8 k = EncodeFixed64 cid then \<exists>(h, xs) \<in> set blocks. k = block_cache_key cid h \<and> holds_block xs b
    else al0 k b)"
  have key: "take 8 (block_cache_key cid h) = EncodeFixed64 cid" for h by (simp add: block_cache_key_def)
  have "xs = xs'" if "(h, xs) \<in> set blocks" "(h', xs') \<in> set blocks" "bh_offset h = bh_offset h'" for h h' xs xs'
    using assms(3) that inj_on_eq_iff [of "bh_offset o fst" "set blocks" "(h, xs)" "(h', xs')"]
    by (simp add: distinct_map)
  then have "allows_blocks al cid blocks"
    unfolding allows_blocks_def al_def key by (auto simp: block_cache_key_inject)
  moreover have "cache_ok cache coherent al e'"
  proof (cases cache)
    case (Some c)
    then have "cache_laws c coherent" "coherent al0 e" and "cid = fst (cache_NewId c e)" "e' = snd (cache_NewId c e)"
      using assms(1,2) by (simp_all add: cache_ok_def) (metis fst_conv, metis snd_conv)
    then show ?thesis using Some cache_lawsD(5) [of c coherent al0 e al] by (simp add: cache_ok_def al_def)
  qed (simp add: cache_ok_def)
  ultimately show ?thesis by blast
qed

context comparator
begin

lemma table_Open_image:
  assumes image: "table_image valid opts bytes blocks ixs ft fh" and f: "reads f bytes" "length bytes < 2 ^ 32"
    and c: "opt_comparator opts = cmp" and order: "in_order valid cmp (all_entries blocks [])"
    and cache: "cache_ok (block_cache opts) coherent al0 e"
  shows "\<exists>t al e1. table_Open opts f (of_nat (length bytes)) e = (status_OK, Some t, e1) \<and>
    table_env valid cmp bytes blocks al t coherent e1 \<and> holds_block ixs (tab_index_block t) \<and>
    in_order valid cmp ixs \<and> indexes valid cmp ixs blocks [] \<and>
    (policy_covers opts (length (all_entries blocks [])) \<longrightarrow> filter_matches blocks t)"
proof -
  note footer = footer_of_image [OF image]
  have len: "unat (of_nat (length bytes) :: u64) = length bytes" using f(2) by (rule unat_of_nat_32)
  then have off: "unat (of_nat (length bytes) - 48 :: u64) = length bytes - 48"
    using footer(1) by (simp add: unat_sub word_le_nat_alt)
  obtain inb where "raf_Read f (of_nat (length bytes) - 48) 48 = (status_OK, footer_EncodeTo ft [], inb)"
    using raf_Read_reads [OF f(1), of "of_nat (length bytes) - 48" 48] unfolding off footer(2)
    by (force simp: length_footer)
  moreover obtain contents where contents: "ReadBlock f (meta_options opts) (index_handle ft) = (status_OK, contents)"
    "holds_block ixs (mk_Block (bc_data contents))"
    using ReadBlock_holds [OF f(1) footer(3) f(2)] by blast
  moreover obtain cid e1 where new_id: "(cid, e1) = (case block_cache opts of None \<Rightarrow> (0, e) | Some c \<Rightarrow> cache_NewId c e)"
    by (metis surj_pair)
  define t0 where "t0 = \<lparr>tab_options = opts, tab_file = f, tab_cache_id = cid, tab_filter = None,
    tab_metaindex_handle = metaindex_handle ft, tab_index_block = mk_Block (bc_data contents)\<rparr>"
  have "tab_options t0 = opts" "tab_file t0 = f" "tab_filter t0 = None" by (simp_all add: t0_def)
  from ReadMeta_image [OF image f this] obtain flt' where meta: "ReadMeta ft t0 = t0\<lparr>tab_filter := flt'\<rparr>"
    "\<forall>r. flt' = Some r \<longrightarrow> (\<exists>pol data b. opt_filter_policy opts = Some pol \<and> r = mk_FilterBlockReader pol (filter_Finish b) \<and>
       blocks_at data blocks \<and> length data < 2 ^ 32 \<and> length (filter_Finish b) < 2 ^ 32 \<and>
       filter_of (Some pol) blocks (of_nat (length data)) [] = Some b)" by blast
  ultimately have "table_Open opts f (of_nat (length bytes)) e = (status_OK, Some (ReadMeta ft t0), e1)"
    using footer(1) len
    by (simp add: table_Open_def footer_kEncodedLength_def kMaxEncodedLength_def Let_def footer_roundtrip t0_def
        flip: new_id)
  moreover obtain data where data: "blocks_at data blocks" "length data < 2 ^ 32" "\<exists>rest. bytes = data @ rest"
    using image f(2) unfolding table_image_def by auto
  have offsets: "sorted_wrt (<) (map (unat o bh_offset o fst) blocks)" using data(1,2) by (auto simp: blocks_at_def sorted_wrt_append)
  then have "distinct (map (unat o bh_offset o fst) blocks)" by (simp add: strict_sorted_iff)
  then have distinct: "distinct (map (bh_offset o fst) blocks)" "distinct (map fst blocks)"
    by (auto simp: distinct_map inj_on_def)
  obtain al where al: "allows_blocks al cid blocks" "cache_ok (block_cache opts) coherent al e1"
    using new_id_ok [OF cache new_id distinct(1)] by blast
  have fields: "tab_options (ReadMeta ft t0) = opts" "tab_file (ReadMeta ft t0) = f" "tab_cache_id (ReadMeta ft t0) = cid"
    "tab_index_block (ReadMeta ft t0) = mk_Block (bc_data contents)" "tab_filter (ReadMeta ft t0) = flt'"
    unfolding meta(1) by (simp_all add: t0_def)
  have "xs \<noteq> [] \<and> block_at bytes h xs" if "(h, xs) \<in> set blocks" for h xs
    using data(1,3) that block_at_append [of data h xs] by (auto simp: blocks_at_def)
  then have "open_table valid cmp bytes blocks al (ReadMeta ft t0)"
    using c f distinct(2) al(1) key_order_axioms order by (auto simp: open_table_def fields)
  then have "table_env valid cmp bytes blocks al (ReadMeta ft t0) coherent e1"
    using al(2) by (simp add: table_env_def fields)
  moreover have "holds_block ixs (tab_index_block (ReadMeta ft t0))" using contents(2) by (simp add: fields)
  moreover have idx: "indexes valid cmp ixs blocks []" using image c by (auto simp: table_image_def)
  moreover have "in_order valid cmp ixs"
    using indexes_in_order [OF idx] data(1) order by (auto simp: blocks_at_def in_order_def)
  moreover have "filter_KeyMayMatch r (bh_offset h) k"
    if flt: "policy_covers opts (length (all_entries blocks []))" and r: "flt' = Some r" and key: "(h, xs) \<in> set blocks" "(k, v) \<in> set xs" for r h xs k v
  proof -
    obtain pol data b where p: "opt_filter_policy opts = Some pol" "r = mk_FilterBlockReader pol (filter_Finish b)"
      "blocks_at data blocks" "length data < 2 ^ 32" "length (filter_Finish b) < 2 ^ 32"
      "filter_of (Some pol) blocks (of_nat (length data)) [] = Some b"
      using meta(2) r by blast
    obtain max_keys where "filter_policy pol max_keys" "length (all_entries blocks []) \<le> max_keys" using flt p(1) by (auto simp: policy_covers_def)
    then show ?thesis unfolding p(2) by (rule any_filter_at [OF p(3,4) refl _ _ p(6,5) key])
  qed
  then have "policy_covers opts (length (all_entries blocks [])) \<longrightarrow> filter_matches blocks (ReadMeta ft t0)"
    by (auto simp: filter_matches_def fields)
  ultimately show ?thesis by blast
qed

end

subsection \<open>Reading an open table\<close>

context comparator
begin

lemma index_of_blocks:
  assumes t: "open_table valid cmp bytes blocks al t" and idx: "indexes valid cmp ixs blocks []"
  shows "m < length ixs \<Longrightarrow> block_contents blocks (snd (ixs ! m)) = Some (snd (blocks ! m))"
    "m < length ixs \<Longrightarrow> table_it.block_of blocks (ixs ! m) = snd (blocks ! m)"
    "table_it.blocks_ok blocks ixs" "table_it.separated cmp valid blocks ixs"
    "concat (map (table_it.block_of blocks) ixs) = all_entries blocks []"
proof -
  note len = indexes_length [OF idx]
  have "handle_EncodeTo h [] = handle_EncodeTo h' [] \<Longrightarrow> h = h'" for h h' :: BlockHandle
    using handle_roundtrip_exact by (metis prod.inject)
  then have inj: "inj (\<lambda>h. handle_EncodeTo h [])" by (simp add: inj_on_def)
  have keys: "map fst (map (\<lambda>(h, xs). (handle_EncodeTo h [], xs)) blocks) = map (\<lambda>h. handle_EncodeTo h []) (map fst blocks)"
    by (simp add: split_beta)
  have "distinct (map (\<lambda>h. handle_EncodeTo h []) (map fst blocks))"
    using t inj unfolding distinct_map [of _ "map fst blocks"] by (auto simp: open_table_def intro: inj_on_subset)
  then have "distinct (map fst (map (\<lambda>(h, xs). (handle_EncodeTo h [], xs)) blocks))" unfolding keys .
  from map_of_eq_Some_iff [OF this] show c: "block_contents blocks (snd (ixs ! m)) = Some (snd (blocks ! m))" if "m < length ixs" for m
    using indexes_nth [OF idx that] nth_mem [of m blocks] that len unfolding block_contents_def by (force simp: split_beta)
  then show block: "table_it.block_of blocks (ixs ! m) = snd (blocks ! m)" if "m < length ixs" for m
    using that by (simp add: table_it.block_of_def)
  have ne: "snd (blocks ! m) \<noteq> []" if "m < length blocks" for m
    using t nth_mem [OF that] by (auto simp: open_table_def split_beta)
  show "table_it.blocks_ok blocks ixs"
    unfolding table_it.blocks_ok_def using c ne len by (fastforce simp: in_set_conv_nth)
  have vk: "valid k" if "m < length blocks" "(k, v) \<in> set (snd (blocks ! m))" for m k v
    using t nth_all_entries [OF that, of "[]"] by (auto simp: open_table_def in_order_def)
  show "table_it.separated cmp valid blocks ixs"
    unfolding table_it.separated_def
  proof (intro allI impI conjI ballI, safe)
    fix m t k v
    assume m: "m < length ixs" and t: "valid t"
    note sep = indexes_nth [OF idx m]
    show "Compare cmp k t < 0" if "Compare cmp (fst (ixs ! m)) t < 0" "(k, v) \<in> set (table_it.block_of blocks (ixs ! m))"
      using compare_less_trans [of k "fst (ixs ! m)" t] that sep t vk [of m k v] m len block [OF m] by auto
    fix m'
    assume m': "m' < length ixs" "m < m'" "(k, v) \<in> set (table_it.block_of blocks (ixs ! m'))"
      "\<not> Compare cmp (fst (ixs ! m)) t < 0" "Compare cmp k t < 0"
    then have "Compare cmp (fst (ixs ! m)) k < 0" "valid k" "valid (fst (ixs ! m))"
      using sep vk [of m' k v] block [OF m'(1)] len by auto
    then show False
      using compare_less_trans [of "fst (ixs ! m)" k t] m'(4,5) t by simp
  qed
  show "concat (map (table_it.block_of blocks) ixs) = all_entries blocks []"
  proof -
    have "map (table_it.block_of blocks) ixs = map snd blocks"
      by (rule nth_equalityI) (simp_all add: len block)
    then show ?thesis by (simp add: all_entries_def)
  qed
qed

lemma table_iterator:
  assumes env: "table_env valid cmp bytes blocks al t coherent e" and index: "holds_block ixs (tab_index_block t)"
    and order: "in_order valid cmp ixs" and idx: "indexes valid cmp ixs blocks []"
  shows "table_it.tl_repr valid cmp blocks (table_NewIterator t ro) (all_entries blocks []) None"
proof -
  have t: "open_table valid cmp bytes blocks al t" "opt_comparator (tab_options t) = cmp"
    using env by (auto simp: table_env_def open_table_def)
  have "block_repr valid cmp (index_iterator t) ixs None"
    using holds_blockD [OF index key_order_axioms order] t(2) by (metis index_iterator_def)
  from table_it.NewTwoLevelIterator_repr [OF this, of blocks t ro] index_of_blocks(3-5) [OF t(1) idx]
  show ?thesis by (simp add: table_NewIterator_def table_levels_def Let_def table_it.T_def)
qed

end

lemma table_ops: "two_level_iterator (table_it.T t ro) = two_level_iterator (table_levels t ro)"
  by (simp add: table_levels_def Let_def table_it.T_def)

text \<open>Seeking in a block.\<close>

definition sought :: "Comparator \<Rightarrow> slice \<Rightarrow> (slice \<times> slice) list \<Rightarrow> nat" where
  "sought cmp k xs = length (takeWhile (\<lambda>(k', v). Compare cmp k' k < 0) xs)"

lemma bi_Seek_found:
  assumes "block_repr valid cmp (b, cs) xs p" "valid k"
  shows "bi_Valid (bi_move (it_Seek k) b) \<longleftrightarrow> sought cmp k xs < length xs" "bi_status (bi_move (it_Seek k) b) = status_OK"
    "sought cmp k xs < length xs \<Longrightarrow> (bi_key (bi_move (it_Seek k) b), bi_value (bi_move (it_Seek k) b)) = xs ! sought cmp k xs"
proof -
  obtain it es rs where b: "b = BlockIter it" "xs = map entry_pair es" "small_layout es rs" "iter_pos cmp es rs it p"
    "key_order valid (Compare cmp)" "in_order valid cmp (map entry_pair es)"
    using assms(1) by (elim block_reprE) auto
  have "iter_pos cmp es rs (it_Seek k it) (pos_of xs (sought cmp k xs))"
    using it_Seek_pos [OF b(3-6) assms(2)] by (simp add: seek_pos_def sought_def b(2))
  note seen = iter_observed(1,2) [OF this] iter_observed(3) [OF this, of "sought cmp k xs"]
  show "bi_Valid (bi_move (it_Seek k) b) \<longleftrightarrow> sought cmp k xs < length xs" "bi_status (bi_move (it_Seek k) b) = status_OK"
    using seen(1,2) by (simp_all add: b(1) pos_of_def)
  assume "sought cmp k xs < length xs"
  then show "(bi_key (bi_move (it_Seek k) b), bi_value (bi_move (it_Seek k) b)) = xs ! sought cmp k xs"
    using seen(3) by (simp add: b(1) pos_of_def) (simp add: b(2))
qed

lemma hd_dropWhile_nth: "length (takeWhile P xs) < length xs \<Longrightarrow> dropWhile P xs \<noteq> [] \<and> hd (dropWhile P xs) = xs ! length (takeWhile P xs)"
  by (simp add: dropWhile_eq_drop hd_drop_conv_nth)

text \<open>A key that is in the list is what is sought.\<close>

lemma sought_key:
  assumes "key_order valid (Compare cmp)" "in_order valid cmp xs" "(k, v) \<in> set xs"
  shows "sought cmp k xs < length xs \<and> xs ! sought cmp k xs = (k, v)"
proof -
  obtain as bs where xs: "xs = as @ (k, v) # bs" using assms(3) by (meson split_list)
  have k: "\<not> Compare cmp k k < 0" using key_order.compare_refl [OF assms(1), of k] assms(2) by (auto simp: in_order_def xs)
  have as: "\<And>x. x \<in> set as \<Longrightarrow> (\<lambda>(k', v). Compare cmp k' k < 0) x"
    using assms(2) by (auto simp: in_order_def xs ascending_def sorted_wrt_append)
  have "sought cmp k xs = length as"
    unfolding xs sought_def using k by (subst takeWhile_append2 [OF as]) simp_all
  then show ?thesis by (simp add: xs)
qed

context comparator
begin

text \<open>The index leads to the block of a key.\<close>

lemma sought_block:
  assumes t: "open_table valid cmp bytes blocks al t" and idx: "indexes valid cmp ixs blocks []"
    and kv: "(k, v) \<in> set (all_entries blocks [])"
  shows "sought cmp k ixs < length ixs \<and> (k, v) \<in> set (snd (blocks ! sought cmp k ixs))"
proof -
  have "\<exists>bl \<in> set blocks. (k, v) \<in> set (snd bl)" using kv by (simp add: all_entries_def)
  then obtain bl where "bl \<in> set blocks" "(k, v) \<in> set (snd bl)" by blast
  then obtain m where m: "m < length blocks" "(k, v) \<in> set (snd (blocks ! m))" by (metis in_set_conv_nth)
  then have len: "m < length ixs" using indexes_length [OF idx] by simp
  have k: "valid k" using t kv by (auto simp: open_table_def in_order_def)
  have ix: "Compare cmp k (fst (ixs ! m)) \<le> 0" "valid (fst (ixs ! m))"
    using indexes_nth [OF idx len] m by auto
  have "Compare cmp (fst (ixs ! b)) k < 0" if "b < m" for b
    using indexes_nth [OF idx, of b] that m len by auto
  moreover have "\<not> Compare cmp (fst (ixs ! m)) k < 0" using compare_not_less [OF ix(2) k] ix(1) by simp
  ultimately have "takeWhile (\<lambda>(k', v). Compare cmp k' k < 0) ixs = take m ixs"
    using len by (intro takeWhile_eq_take_P_nth) (simp_all add: split_beta)
  then have "sought cmp k ixs = m" using len by (simp add: sought_def)
  then show ?thesis using m len by simp
qed

text \<open>What is sought in the block that the index leads to is what is sought in the table.\<close>

lemma sought_in_table:
  assumes t: "open_table valid cmp bytes blocks al t" and idx: "indexes valid cmp ixs blocks []" and k: "valid k"
    and b: "b = sought cmp k ixs" "b < length ixs" and j: "j = sought cmp k (snd (blocks ! b))" "j < length (snd (blocks ! b))"
  shows "dropWhile (\<lambda>(k', v). Compare cmp k' k < 0) (all_entries blocks []) \<noteq> [] \<and>
    hd (dropWhile (\<lambda>(k', v). Compare cmp k' k < 0) (all_entries blocks [])) = snd (blocks ! b) ! j"
proof -
  note facts = index_of_blocks [OF t idx]
  have block_b: "table_it.block_of blocks (ixs ! b) = snd (blocks ! b)" using facts(2) [OF b(2)] .
  have "length (takeWhile (\<lambda>(k', v). Compare cmp k' k < 0) (all_entries blocks [])) = table_it.start blocks ixs b + j"
    unfolding facts(5) [symmetric]
    by (rule table_it.takeWhile_blocks [OF facts(3,4) k]) (use b j block_b in \<open>simp_all add: sought_def\<close>)
  moreover have "table_it.start blocks ixs b + j < length (all_entries blocks [])"
    "all_entries blocks [] ! (table_it.start blocks ixs b + j) = snd (blocks ! b) ! j"
    using table_it.nth_start [OF b(2), of j blocks] j(2) block_b unfolding facts(5) by simp_all
  ultimately show ?thesis using hd_dropWhile_nth by metis
qed

text \<open>Opening the sought block and seeking in it.\<close>

lemma block_lookup:
  assumes env: "table_env valid cmp bytes blocks al t coherent e" and idx: "indexes valid cmp ixs blocks []" and k: "valid k"
    and b: "b < length ixs"
  shows "\<exists>bi cs e'. BlockReader t ro (snd (ixs ! b)) e = ((bi, cs), e') \<and> bi_status (bi_move (it_Seek k) bi) = status_OK \<and>
    (if bi_Valid (bi_move (it_Seek k) bi) then Some (bi_key (bi_move (it_Seek k) bi), bi_value (bi_move (it_Seek k) bi)) else None) =
    (if sought cmp k (snd (blocks ! b)) < length (snd (blocks ! b))
     then Some (snd (blocks ! b) ! sought cmp k (snd (blocks ! b))) else None)"
proof -
  have t: "open_table valid cmp bytes blocks al t" using env by (simp add: table_env_def)
  obtain d e1 where d: "BlockReader t ro (snd (ixs ! b)) e = (d, e1)" "block_repr valid cmp d (snd (blocks ! b)) None"
    using BlockReader_opens [OF index_of_blocks(1) [OF t idx b] env] by blast
  obtain bi cs where dd: "d = (bi, cs)" by force
  show ?thesis using bi_Seek_found [OF d(2) [unfolded dd] k] d(1) dd by auto
qed

lemma InternalGet_cases:
  assumes env: "table_env valid cmp bytes blocks al t coherent e" and index: "holds_block ixs (tab_index_block t)"
    and order: "in_order valid cmp ixs" and idx: "indexes valid cmp ixs blocks []" and k: "valid k"
    and b: "b = sought cmp k ixs" and xs: "xs = snd (blocks ! b)"
  shows "\<exists>saved e'. InternalGet t ro k e = (status_OK, saved, e') \<and>
    (if b < length ixs \<and> (\<forall>flt. tab_filter t = Some flt \<longrightarrow> filter_KeyMayMatch flt (bh_offset (fst (blocks ! b))) k) \<and>
       sought cmp k xs < length xs
     then saved = Some (xs ! sought cmp k xs) else saved = None)"
proof -
  have c: "opt_comparator (tab_options t) = cmp" using env by (auto simp: table_env_def open_table_def)
  obtain it where it: "NewIterator cmp (tab_index_block t) = BlockIter it"
    "block_repr valid cmp (BlockIter it, [] :: unit list) ixs None"
    using holds_blockD [OF index key_order_axioms order] by metis
  define ii where "ii = bi_move (it_Seek k) (BlockIter it)"
  have start: "bi_move (it_Seek k) (fst (index_iterator t)) = ii" by (simp add: ii_def index_iterator_def c it(1))
  note seen = bi_Seek_found [OF it(2) k, folded ii_def b]
  show ?thesis
  proof (cases "b < length ixs")
    case True
    then have val: "bi_value ii = snd (ixs ! b)" using seen(3) by (metis snd_conv)
    have handle: "handle_DecodeFrom (snd (ixs ! b)) mk_BlockHandle = (status_OK, fst (blocks ! b), [])"
      using indexes_nth [OF idx True] by simp
    obtain bi cs e1 where look: "BlockReader t ro (snd (ixs ! b)) e = ((bi, cs), e1)"
      "bi_status (bi_move (it_Seek k) bi) = status_OK"
      "(if bi_Valid (bi_move (it_Seek k) bi) then Some (bi_key (bi_move (it_Seek k) bi), bi_value (bi_move (it_Seek k) bi)) else None) =
        (if sought cmp k xs < length xs then Some (xs ! sought cmp k xs) else None)"
      using block_lookup [OF env idx k True, of ro] xs by blast
    show ?thesis
      using seen(1,2) True look(2)
      by (simp add: InternalGet_def start val handle look(1) look(3) split: option.splits)
  next
    case False
    then show ?thesis using seen(1,2) by (simp add: InternalGet_def start)
  qed
qed

lemma InternalGet_found:
  assumes env: "table_env valid cmp bytes blocks al t coherent e" and index: "holds_block ixs (tab_index_block t)"
    and order: "in_order valid cmp ixs" and idx: "indexes valid cmp ixs blocks []" and k: "valid k"
  shows "\<exists>saved e'. InternalGet t ro k e = (status_OK, saved, e') \<and>
    (saved = None \<or> dropWhile (\<lambda>(k', v). Compare cmp k' k < 0) (all_entries blocks []) \<noteq> [] \<and>
       saved = Some (hd (dropWhile (\<lambda>(k', v). Compare cmp k' k < 0) (all_entries blocks [])))) \<and>
    (filter_matches blocks t \<longrightarrow> (\<forall>v. (k, v) \<in> set (all_entries blocks []) \<longrightarrow> saved = Some (k, v)))"
proof -
  define b where "b = sought cmp k ixs"
  define xs where "xs = snd (blocks ! b)"
  have t: "open_table valid cmp bytes blocks al t" using env by (simp add: table_env_def)
  obtain saved e' where s: "InternalGet t ro k e = (status_OK, saved, e')"
    "if b < length ixs \<and> (\<forall>flt. tab_filter t = Some flt \<longrightarrow> filter_KeyMayMatch flt (bh_offset (fst (blocks ! b))) k) \<and>
       sought cmp k xs < length xs
     then saved = Some (xs ! sought cmp k xs) else saved = None"
    using InternalGet_cases [OF env index order idx k b_def xs_def, of ro] by blast
  have first: "saved = None \<or> dropWhile (\<lambda>(k', v). Compare cmp k' k < 0) (all_entries blocks []) \<noteq> [] \<and>
      saved = Some (hd (dropWhile (\<lambda>(k', v). Compare cmp k' k < 0) (all_entries blocks [])))"
    using s(2) sought_in_table [OF t idx k b_def _ refl] unfolding xs_def by (auto split: if_splits)
  have "saved = Some (k, v)" if flt: "filter_matches blocks t" and kv: "(k, v) \<in> set (all_entries blocks [])" for v
  proof -
    have b: "b < length ixs" "(k, v) \<in> set xs" using sought_block [OF t idx kv] by (simp_all add: b_def xs_def)
    then have bl: "blocks ! b \<in> set blocks" using indexes_length [OF idx] by simp
    have "in_order valid cmp xs"
      using in_order_block [of valid cmp blocks "[]" "fst (blocks ! b)" xs] t bl by (simp add: open_table_def xs_def)
    then have "sought cmp k xs < length xs" "xs ! sought cmp k xs = (k, v)"
      using sought_key [OF key_order_axioms _ b(2)] by simp_all
    moreover have "filter_KeyMayMatch f (bh_offset (fst (blocks ! b))) k" if "tab_filter t = Some f" for f
      using flt that bl b(2) by (fastforce simp: filter_matches_def xs_def)
    ultimately show ?thesis using s(2) b(1) by simp
  qed
  then show ?thesis using s(1) first by blast
qed

end

end
