(* ===== verification/Ldb_Table_Correct.thy ===== *)
theory Ldb_Table_Correct
  imports Ldb_Table_Read Ldb_Log_Correct
begin

text \<open>
  Tables written and read back: iterating, seeking, looking up. An instance in memory, with a block
  cache and a Bloom filter, shows that what the properties ask of the environment can be had.
\<close>

subsection \<open>Building and reading\<close>

lemma built_and_opened:
  assumes cmp: "comparator valid cmp" and kvs: "in_order valid cmp kvs"
    and opts: "opt_comparator opts = cmp" "1 \<le> block_restart_interval opts"
    and env: "plain_writable env contents" "contents f0 = []"
    and table: "build_table env opts kvs f0 = (s, r)" "length (contents (tb_file r)) < 2 ^ 32"
    and f: "reads f (contents (tb_file r))"
    and cache: "cache_ok (block_cache opts) coherent al0 e"
  obtains t e1 blocks al ixs where "s = status_OK" "FileSize r = of_nat (length (contents (tb_file r)))"
    "table_Open opts f (FileSize r) e = (status_OK, Some t, e1)"
    "table_env valid cmp (contents (tb_file r)) blocks al t coherent e1" "holds_block ixs (tab_index_block t)"
    "in_order valid cmp ixs" "indexes valid cmp ixs blocks []" "all_entries blocks [] = kvs"
    "policy_covers opts (length kvs) \<Longrightarrow> filter_matches blocks t"
proof -
  obtain blocks ixs ft fh where b: "s = status_OK" "FileSize r = of_nat (length (contents (tb_file r)))"
    "table_image valid opts (contents (tb_file r)) blocks ixs ft fh" "all_entries blocks [] = kvs"
    using comparator.build_table_image [OF cmp env opts kvs] table(1) by auto
  show ?thesis
    using comparator.table_Open_image [OF cmp b(3) f table(2) opts(1) _ cache] b kvs that by auto
qed

text \<open>C21: a table built from keys in ascending order and read back from the file: the builder reports no
  error and the file's size, \<^verbatim>\<open>Table::Open\<close> accepts the file, and the table's iterator, whatever
  the options for reading, gives exactly the keys and values that were added: from the first on in
  order, and from the last on in reverse. Every move returns, and the iterator ends without an error.
  The file must be smaller than 4 GB, and a block cache must keep its contract.\<close>

theorem table_roundtrip:
  assumes "comparator valid cmp" and "in_order valid cmp kvs"
    and "opt_comparator opts = cmp" and "1 \<le> block_restart_interval opts"
    and "plain_writable env contents" and "contents f0 = []"
    and "build_table env opts kvs f0 = (s, r)" and "length (contents (tb_file r)) < 2 ^ 32"
    and "reads f (contents (tb_file r))" and "cache_ok (block_cache opts) coherent al e"
  shows "s = status_OK \<and> FileSize r = of_nat (length (contents (tb_file r))) \<and>
    (\<exists>t e1. table_Open opts f (FileSize r) e = (status_OK, Some t, e1) \<and>
      (\<exists>i e2 j e3. io_SeekToFirst (two_level_iterator (table_levels t ro)) (table_NewIterator t ro) e1 = Some (i, e2) \<and>
        read_forward (two_level_iterator (table_levels t ro)) (length kvs + 1) i e2 = Some (kvs, j, e3) \<and>
        \<not> io_Valid (two_level_iterator (table_levels t ro)) j \<and>
        io_status (two_level_iterator (table_levels t ro)) j = status_OK) \<and>
      (\<exists>i e2 j e3. io_SeekToLast (two_level_iterator (table_levels t ro)) (table_NewIterator t ro) e1 = Some (i, e2) \<and>
        read_backward (two_level_iterator (table_levels t ro)) (length kvs + 1) i e2 = Some (rev kvs, j, e3) \<and>
        \<not> io_Valid (two_level_iterator (table_levels t ro)) j \<and>
        io_status (two_level_iterator (table_levels t ro)) j = status_OK))"
proof -
  obtain t e1 blocks al ixs where t: "s = status_OK" "FileSize r = of_nat (length (contents (tb_file r)))"
    "table_Open opts f (FileSize r) e = (status_OK, Some t, e1)"
    "table_env valid cmp (contents (tb_file r)) blocks al t coherent e1" "holds_block ixs (tab_index_block t)"
    "in_order valid cmp ixs" "indexes valid cmp ixs blocks []" "all_entries blocks [] = kvs"
    by (rule built_and_opened [OF assms])
  note repr = comparator.table_iterator [OF assms(1) t(4-7), of ro, unfolded t(8)]
  have n: "length kvs < length kvs + 1" by simp
  show ?thesis
    using t(1-3) table_it.tl.scan_forward [OF repr t(4) [unfolded table_env_def] n]
      table_it.tl.scan_backward [OF repr t(4) [unfolded table_env_def] n]
    unfolding table_ops by blast
qed

text \<open>C23: seeking in such a table goes to the first key that is not below the target, across the blocks:
  what is then left to iterate is exactly the entries from the target on.\<close>

theorem table_seek:
  assumes "comparator valid cmp" and "in_order valid cmp kvs"
    and "opt_comparator opts = cmp" and "1 \<le> block_restart_interval opts"
    and "plain_writable env contents" and "contents f0 = []"
    and "build_table env opts kvs f0 = (s, r)" and "length (contents (tb_file r)) < 2 ^ 32"
    and "reads f (contents (tb_file r))" and "cache_ok (block_cache opts) coherent al e"
    and "valid target"
  shows "\<exists>t e1 i e2 j e3. table_Open opts f (FileSize r) e = (status_OK, Some t, e1) \<and>
    io_Seek (two_level_iterator (table_levels t ro)) target (table_NewIterator t ro) e1 = Some (i, e2) \<and>
    read_forward (two_level_iterator (table_levels t ro)) (length kvs + 1) i e2 =
      Some (dropWhile (\<lambda>(k, v). Compare cmp k target < 0) kvs, j, e3) \<and>
    io_status (two_level_iterator (table_levels t ro)) j = status_OK"
proof -
  obtain t e1 blocks al ixs where t: "s = status_OK" "FileSize r = of_nat (length (contents (tb_file r)))"
    "table_Open opts f (FileSize r) e = (status_OK, Some t, e1)"
    "table_env valid cmp (contents (tb_file r)) blocks al t coherent e1" "holds_block ixs (tab_index_block t)"
    "in_order valid cmp ixs" "indexes valid cmp ixs blocks []" "all_entries blocks [] = kvs"
    by (rule built_and_opened [OF assms(1-10)])
  note repr = comparator.table_iterator [OF assms(1) t(4-7), of ro, unfolded t(8)]
  have n: "length kvs < length kvs + 1" by simp
  show ?thesis
    using t(3) table_it.tl.scan_from [OF repr t(4) [unfolded table_env_def] n assms(11)]
    unfolding table_ops by blast
qed

text \<open>C22: looking up a key in such a table finds it with its value, the filters notwithstanding, if the
  filter policy keeps its contract; for any key, what the table hands to the caller is the first
  entry that is not below the key, or nothing. The status is OK in every case.\<close>

theorem table_get:
  assumes "comparator valid cmp" and "in_order valid cmp kvs"
    and "opt_comparator opts = cmp" and "1 \<le> block_restart_interval opts"
    and "plain_writable env contents" and "contents f0 = []"
    and "build_table env opts kvs f0 = (s, r)" and "length (contents (tb_file r)) < 2 ^ 32"
    and "reads f (contents (tb_file r))" and "cache_ok (block_cache opts) coherent al e"
    and "policy_covers opts (length kvs)" and "valid k"
  shows "\<exists>t e1 saved e2. table_Open opts f (FileSize r) e = (status_OK, Some t, e1) \<and>
    InternalGet t ro k e1 = (status_OK, saved, e2) \<and>
    (\<forall>v. (k, v) \<in> set kvs \<longrightarrow> saved = Some (k, v)) \<and>
    (saved = None \<or> dropWhile (\<lambda>(k', v). Compare cmp k' k < 0) kvs \<noteq> [] \<and>
       saved = Some (hd (dropWhile (\<lambda>(k', v). Compare cmp k' k < 0) kvs)))"
proof -
  obtain t e1 blocks al ixs where t: "s = status_OK" "FileSize r = of_nat (length (contents (tb_file r)))"
    "table_Open opts f (FileSize r) e = (status_OK, Some t, e1)"
    "table_env valid cmp (contents (tb_file r)) blocks al t coherent e1" "holds_block ixs (tab_index_block t)"
    "in_order valid cmp ixs" "indexes valid cmp ixs blocks []" "all_entries blocks [] = kvs"
    "filter_matches blocks t"
    by (rule built_and_opened [OF assms(1-10)]) (use assms(11) in blast)
  show ?thesis
    using comparator.InternalGet_found [OF assms(1) t(4-7) assms(12), of ro] t(3,9) unfolding t(8) by blast
qed

subsection \<open>An instance\<close>

text \<open>A cache that keeps all blocks in a list, and a file in memory.\<close>

definition list_cache :: "(Block, u64 \<times> (slice \<times> Block) list) Cache" where
  "list_cache = \<lparr>cache_Insert = (\<lambda>k b charge (n, m). (b, (n, (k, b) # m))),
     cache_Lookup = (\<lambda>k (n, m). (map_of m k, (n, m))), cache_Release = (\<lambda>h e. e), cache_Value = (\<lambda>h e. h),
     cache_NewId = (\<lambda>(n, m). (n, (n + 1, filter (\<lambda>(k, b). take 8 k \<noteq> EncodeFixed64 n) m)))\<rparr>"

definition list_coherent :: "(slice \<Rightarrow> Block \<Rightarrow> bool) \<Rightarrow> u64 \<times> (slice \<times> Block) list \<Rightarrow> bool" where
  "list_coherent al e \<longleftrightarrow> (\<forall>(k, b) \<in> set (snd e). al k b)"

lemma list_cache_laws: "cache_laws list_cache list_coherent"
  unfolding cache_laws_def list_coherent_def list_cache_def by (fastforce dest: map_of_SomeD)

definition memory_random :: "byte list \<Rightarrow> RandomAccessFile" where
  "memory_random bytes = \<lparr>raf_Read = (\<lambda>off n. (status_OK, take (unat n) (drop (unat off) bytes), True))\<rparr>"

lemma memory_random_reads: "reads (memory_random bytes) bytes"
  by (simp add: reads_def memory_random_def)

definition sample_options :: "(Block, u64 \<times> (slice \<times> Block) list) Options" where
  "sample_options =
     \<lparr>opt_comparator = BytewiseComparator, create_if_missing = False, error_if_exists = False,
      paranoid_checks = True, write_buffer_size = 9, max_open_files = 9, block_cache = Some list_cache,
      block_size = 20, block_restart_interval = 2, max_file_size = 9, compression = kSnappyCompression,
      reuse_logs = False, opt_filter_policy = Some (NewBloomFilterPolicy 1)\<rparr>"

definition sample_entries :: "(slice \<times> slice) list" where
  "sample_entries = [([1], [7]), ([1, 2], [8]), ([3], [])]"

lemma sample_in_order: "in_order any BytewiseComparator sample_entries"
  by (simp add: sample_entries_def in_order_def ascending_def any_def Compare_bytewise)

lemma sample_setup:
  "opt_comparator sample_options = BytewiseComparator" "1 \<le> block_restart_interval sample_options"
  "cache_ok (block_cache sample_options) list_coherent (\<lambda>k b. False) (0, [])"
  "policy_covers sample_options (length sample_entries)"
  using bloom.filter_policy_axioms [of 1] list_cache_laws
  by (auto simp: sample_options_def cache_ok_def list_coherent_def policy_covers_def sample_entries_def max_bloom_keys_def)

abbreviation sample_table :: "(byte list, Block, u64 \<times> (slice \<times> Block) list) TableBuilder" where
  "sample_table \<equiv> snd (build_table memory_writable sample_options sample_entries [])"

lemma sample_small: "length (tb_file sample_table) < 2 ^ 32"
  by (rule le_less_trans [of _ 500], code_simp, simp)

lemma sample_file:
  "length (id (tb_file sample_table)) < 2 ^ 32 \<longleftrightarrow> length (tb_file sample_table) < 2 ^ 32"
  "reads (memory_random (tb_file sample_table)) (id (tb_file sample_table))" "id [] = []"
  by (simp_all add: memory_random_reads)

lemma sample_built:
  "build_table memory_writable sample_options sample_entries [] =
     (fst (build_table memory_writable sample_options sample_entries []), sample_table)"
  by simp

lemma table_roundtrip_witness:
  "\<exists>t e1. table_Open sample_options (memory_random (tb_file sample_table)) (FileSize sample_table) (0, []) =
      (status_OK, Some t, e1) \<and>
    (\<exists>i e2 j e3. io_SeekToLast (two_level_iterator (table_levels t mk_ReadOptions)) (table_NewIterator t mk_ReadOptions) e1 = Some (i, e2) \<and>
      read_backward (two_level_iterator (table_levels t mk_ReadOptions)) (length sample_entries + 1) i e2 =
        Some ([([3], []), ([1, 2], [8]), ([1], [7])], j, e3))"
  using table_roundtrip [OF bytewise.user.comparator_axioms sample_in_order sample_setup(1,2) memory_files(1) sample_file(3) sample_built
      sample_file(1) [THEN iffD2, OF sample_small] sample_file(2) sample_setup(3), where ro = mk_ReadOptions]
  by (auto simp: sample_entries_def)

lemma table_seek_witness:
  "\<exists>t e1 i e2 j e3. table_Open sample_options (memory_random (tb_file sample_table)) (FileSize sample_table) (0, []) =
      (status_OK, Some t, e1) \<and>
    io_Seek (two_level_iterator (table_levels t mk_ReadOptions)) [1, 1] (table_NewIterator t mk_ReadOptions) e1 = Some (i, e2) \<and>
    read_forward (two_level_iterator (table_levels t mk_ReadOptions)) (length sample_entries + 1) i e2 =
      Some ([([1, 2], [8]), ([3], [])], j, e3)"
proof -
  have "dropWhile (\<lambda>(k, v). Compare BytewiseComparator k [1, 1] < 0) sample_entries = [([1, 2], [8]), ([3], [])]"
    by (simp add: sample_entries_def Compare_bytewise)
  moreover have "any [1, 1 :: byte]" by (simp add: any_def)
  ultimately show ?thesis
    using table_seek [OF bytewise.user.comparator_axioms sample_in_order sample_setup(1,2) memory_files(1) sample_file(3) sample_built
      sample_file(1) [THEN iffD2, OF sample_small] sample_file(2) sample_setup(3), of "[1, 1]" mk_ReadOptions]
    by auto
qed

lemma table_get_witness:
  "\<exists>t e1 e2. table_Open sample_options
      (memory_random (tb_file sample_table))
      (FileSize sample_table) (0, []) = (status_OK, Some t, e1) \<and>
    InternalGet t mk_ReadOptions [1, 2] e1 = (status_OK, Some ([1, 2], [8]), e2)"
proof -
  have "any [1, 2 :: byte]" "([1, 2], [8]) \<in> set sample_entries" by (simp_all add: any_def sample_entries_def)
  then show ?thesis
    using table_get [OF bytewise.user.comparator_axioms sample_in_order sample_setup(1,2) memory_files(1) sample_file(3) sample_built
      sample_file(1) [THEN iffD2, OF sample_small] sample_file(2) sample_setup(3) sample_setup(4), of "[1, 2]" mk_ReadOptions]
    by auto
qed

end
