(* ===== verification/Ldb_Merger.thy ===== *)
theory Ldb_Merger
  imports Ldb_Iterator Ldb_Dbformat
begin

text \<open>
  The merging iterator of LevelDB, \<^verbatim>\<open>table/merger.cc\<close> under \<^verbatim>\<open>src/ios/Pods/leveldb-library/\<close>: the
  entries of several iterators in the order of their keys. A pointer to a child is its index; a null
  pointer that is followed makes a method return \<^const>\<open>None\<close>.
\<close>

datatype MergeDirection = mi_kForward | mi_kReverse

record 'i MergingIterator =
  mi_children :: "'i IteratorWrapper list"
  mi_current :: "nat option"
  mi_direction :: MergeDirection

definition mk_MergingIterator :: "('i, 'e) Iterator \<Rightarrow> 'i list \<Rightarrow> 'i MergingIterator" where
  "mk_MergingIterator ops children =
     \<lparr>mi_children = map (\<lambda>i. mk_IteratorWrapper ops (Some i)) children, mi_current = None,
      mi_direction = mi_kForward\<rparr>"

text \<open>The loops over the children: \<open>move\<close> is applied to each, with its index.\<close>

fun move_children ::
  "(nat \<Rightarrow> 'i IteratorWrapper \<Rightarrow> 'e \<Rightarrow> ('i IteratorWrapper \<times> 'e) option) \<Rightarrow> nat \<Rightarrow>
   'i IteratorWrapper list \<Rightarrow> 'e \<Rightarrow> ('i IteratorWrapper list \<times> 'e) option" where
  "move_children move i [] e = Some ([], e)"
| "move_children move i (child # children) e =
     do { (child, e) \<leftarrow> move i child e;
          (children, e) \<leftarrow> move_children move (i + 1) children e;
          Some (child # children, e) }"

definition smallest_step :: "Comparator \<Rightarrow> 'i IteratorWrapper list \<Rightarrow> nat \<Rightarrow> nat option \<Rightarrow> nat option" where
  "smallest_step cmp children i smallest =
     (if wr_valid (children ! i) then
        (case smallest of
           None \<Rightarrow> Some i
         | Some j \<Rightarrow> if Compare cmp (wr_key (children ! i)) (wr_key (children ! j)) < 0 then Some i else Some j)
      else smallest)"

definition FindSmallest :: "Comparator \<Rightarrow> 'i MergingIterator \<Rightarrow> 'i MergingIterator" where
  "FindSmallest cmp m =
     m\<lparr>mi_current := fold (smallest_step cmp (mi_children m)) [0..<length (mi_children m)] None\<rparr>"

definition largest_step :: "Comparator \<Rightarrow> 'i IteratorWrapper list \<Rightarrow> nat \<Rightarrow> nat option \<Rightarrow> nat option" where
  "largest_step cmp children i largest =
     (if wr_valid (children ! i) then
        (case largest of
           None \<Rightarrow> Some i
         | Some j \<Rightarrow> if Compare cmp (wr_key (children ! i)) (wr_key (children ! j)) > 0 then Some i else Some j)
      else largest)"

definition FindLargest :: "Comparator \<Rightarrow> 'i MergingIterator \<Rightarrow> 'i MergingIterator" where
  "FindLargest cmp m =
     m\<lparr>mi_current := fold (largest_step cmp (mi_children m)) (rev [0..<length (mi_children m)]) None\<rparr>"

definition mi_SeekToFirst where
  "mi_SeekToFirst cmp ops m e =
     do { (children, e) \<leftarrow> move_children (\<lambda>i. wr_SeekToFirst ops) 0 (mi_children m) e;
          Some ((FindSmallest cmp (m\<lparr>mi_children := children\<rparr>))\<lparr>mi_direction := mi_kForward\<rparr>, e) }"

definition mi_SeekToLast where
  "mi_SeekToLast cmp ops m e =
     do { (children, e) \<leftarrow> move_children (\<lambda>i. wr_SeekToLast ops) 0 (mi_children m) e;
          Some ((FindLargest cmp (m\<lparr>mi_children := children\<rparr>))\<lparr>mi_direction := mi_kReverse\<rparr>, e) }"

definition mi_Seek where
  "mi_Seek cmp ops target m e =
     do { (children, e) \<leftarrow> move_children (\<lambda>i. wr_Seek ops target) 0 (mi_children m) e;
          Some ((FindSmallest cmp (m\<lparr>mi_children := children\<rparr>))\<lparr>mi_direction := mi_kForward\<rparr>, e) }"

definition mi_key :: "'i MergingIterator \<Rightarrow> slice" where
  "mi_key m = (case mi_current m of None \<Rightarrow> [] | Some c \<Rightarrow> wr_key (mi_children m ! c))"

definition mi_value :: "('i, 'e) Iterator \<Rightarrow> 'i MergingIterator \<Rightarrow> slice" where
  "mi_value ops m = (case mi_current m of None \<Rightarrow> [] | Some c \<Rightarrow> wr_value ops (mi_children m ! c))"

text \<open>Changing direction: a child that is not the current one is moved behind the key, or before it.\<close>

definition move_behind ::
  "Comparator \<Rightarrow> ('i, 'e) Iterator \<Rightarrow> slice \<Rightarrow> 'i IteratorWrapper \<Rightarrow> 'e \<Rightarrow> ('i IteratorWrapper \<times> 'e) option" where
  "move_behind cmp ops key child e =
     do { (child, e) \<leftarrow> wr_Seek ops key child e;
          if wr_valid child \<and> Compare cmp key (wr_key child) = 0 then wr_Next ops child e else Some (child, e) }"

definition move_before ::
  "('i, 'e) Iterator \<Rightarrow> slice \<Rightarrow> 'i IteratorWrapper \<Rightarrow> 'e \<Rightarrow> ('i IteratorWrapper \<times> 'e) option" where
  "move_before ops key child e =
     do { (child, e) \<leftarrow> wr_Seek ops key child e;
          if wr_valid child then wr_Prev ops child e else wr_SeekToLast ops child e }"

definition others ::
  "nat \<Rightarrow> ('i IteratorWrapper \<Rightarrow> 'e \<Rightarrow> ('i IteratorWrapper \<times> 'e) option) \<Rightarrow> nat \<Rightarrow> 'i IteratorWrapper \<Rightarrow>
   'e \<Rightarrow> ('i IteratorWrapper \<times> 'e) option" where
  "others current move i child e = (if i \<noteq> current then move child e else Some (child, e))"

definition mi_Next where
  "mi_Next cmp ops m e =
     do { c \<leftarrow> mi_current m;
          (children, e) \<leftarrow>
            (if mi_direction m \<noteq> mi_kForward
             then move_children (others c (move_behind cmp ops (mi_key m))) 0 (mi_children m) e
             else Some (mi_children m, e));
          (child, e) \<leftarrow> wr_Next ops (children ! c) e;
          Some (FindSmallest cmp (m\<lparr>mi_children := children[c := child], mi_direction := mi_kForward\<rparr>), e) }"

definition mi_Prev where
  "mi_Prev cmp ops m e =
     do { c \<leftarrow> mi_current m;
          (children, e) \<leftarrow>
            (if mi_direction m \<noteq> mi_kReverse
             then move_children (others c (move_before ops (mi_key m))) 0 (mi_children m) e
             else Some (mi_children m, e));
          (child, e) \<leftarrow> wr_Prev ops (children ! c) e;
          Some (FindLargest cmp (m\<lparr>mi_children := children[c := child], mi_direction := mi_kReverse\<rparr>), e) }"

text \<open>The status of the first child that has an error, or else of the last.\<close>

fun status_loop :: "('i, 'e) Iterator \<Rightarrow> Status \<Rightarrow> 'i IteratorWrapper list \<Rightarrow> Status" where
  "status_loop ops status [] = status"
| "status_loop ops status (child # children) =
     (let status = wr_status ops child in if \<not> ok status then status else status_loop ops status children)"

definition mi_status :: "('i, 'e) Iterator \<Rightarrow> 'i MergingIterator \<Rightarrow> Status" where
  "mi_status ops m = status_loop ops status_OK (mi_children m)"

text \<open>The array of the children is destroyed from its end.\<close>

definition mi_Destroy :: "('i, 'e) Iterator \<Rightarrow> 'i MergingIterator \<Rightarrow> 'e \<Rightarrow> 'e" where
  "mi_Destroy ops m e =
     fold (\<lambda>child e. case wr_iter child of None \<Rightarrow> e | Some i \<Rightarrow> io_Destroy ops i e) (rev (mi_children m)) e"

definition merging_iterator :: "Comparator \<Rightarrow> ('i, 'e) Iterator \<Rightarrow> ('i MergingIterator, 'e) Iterator" where
  "merging_iterator cmp ops =
     \<lparr>io_Valid = (\<lambda>m. mi_current m \<noteq> None),
      io_SeekToFirst = mi_SeekToFirst cmp ops, io_SeekToLast = mi_SeekToLast cmp ops, io_Seek = mi_Seek cmp ops,
      io_Next = mi_Next cmp ops, io_Prev = mi_Prev cmp ops, io_key = mi_key, io_value = mi_value ops,
      io_status = mi_status ops, io_Destroy = mi_Destroy ops\<rparr>"

text \<open>What \<^verbatim>\<open>NewMergingIterator\<close> makes of no child, one child, or several.\<close>

datatype 'i Merged = NoChildren | OnlyChild 'i | Merging "'i MergingIterator"

definition NewMergingIterator :: "('i, 'e) Iterator \<Rightarrow> 'i list \<Rightarrow> 'i Merged" where
  "NewMergingIterator ops children =
     (case children of
        [] \<Rightarrow> NoChildren
      | [i] \<Rightarrow> OnlyChild i
      | _ \<Rightarrow> Merging (mk_MergingIterator ops children))"

definition merged_move ::
  "('i \<Rightarrow> 'e \<Rightarrow> ('i \<times> 'e) option) \<Rightarrow> ('i MergingIterator \<Rightarrow> 'e \<Rightarrow> ('i MergingIterator \<times> 'e) option) \<Rightarrow>
   'i Merged \<Rightarrow> 'e \<Rightarrow> ('i Merged \<times> 'e) option" where
  "merged_move only merge m e =
     (case m of
        NoChildren \<Rightarrow> Some (NoChildren, e)
      | OnlyChild i \<Rightarrow> do { (i, e) \<leftarrow> only i e; Some (OnlyChild i, e) }
      | Merging m \<Rightarrow> do { (m, e) \<leftarrow> merge m e; Some (Merging m, e) })"

definition merged_get :: "'a \<Rightarrow> ('i \<Rightarrow> 'a) \<Rightarrow> ('i MergingIterator \<Rightarrow> 'a) \<Rightarrow> 'i Merged \<Rightarrow> 'a" where
  "merged_get none only merge m = (case m of NoChildren \<Rightarrow> none | OnlyChild i \<Rightarrow> only i | Merging m \<Rightarrow> merge m)"

definition merged_iterator :: "Comparator \<Rightarrow> ('i, 'e) Iterator \<Rightarrow> ('i Merged, 'e) Iterator" where
  "merged_iterator cmp ops =
     (let merge = merging_iterator cmp ops in
      \<lparr>io_Valid = merged_get False (io_Valid ops) (io_Valid merge),
       io_SeekToFirst = merged_move (io_SeekToFirst ops) (io_SeekToFirst merge),
       io_SeekToLast = merged_move (io_SeekToLast ops) (io_SeekToLast merge),
       io_Seek = (\<lambda>target. merged_move (io_Seek ops target) (io_Seek merge target)),
       io_Next = merged_move (io_Next ops) (io_Next merge),
       io_Prev = merged_move (io_Prev ops) (io_Prev merge),
       io_key = merged_get [] (io_key ops) (io_key merge),
       io_value = merged_get [] (io_value ops) (io_value merge),
       io_status = merged_get status_OK (io_status ops) (io_status merge),
       io_Destroy = merged_get (\<lambda>e. e) (io_Destroy ops) (io_Destroy merge)\<rparr>)"

end
