(* ===== verification/Ldb_Merger_Correct.thy ===== *)
theory Ldb_Merger_Correct
  imports Ldb_Merger Ldb_Table_Read
begin

text \<open>
  The merging iterator keeps the contract of iterators: over children that do, whose keys are all
  different, it stands for the merged list. A position in the merged list splits every child's list;
  a child is in front of the position, at the first of its entries that is not before it, or behind
  it, at the last one that is.
\<close>

subsection \<open>Splitting a list of entries\<close>

text \<open>A part of a list without repetitions, and how many of its entries are among the first \<open>n\<close>.\<close>

definition part_of :: "'a list \<Rightarrow> 'a list \<Rightarrow> bool" where
  "part_of xs zs \<longleftrightarrow> xs = filter (\<lambda>x. x \<in> set xs) zs"

definition among :: "'a list \<Rightarrow> 'a list \<Rightarrow> nat \<Rightarrow> nat" where
  "among zs xs n = length (filter (\<lambda>x. x \<in> set xs) (take n zs))"

lemma among_0 [simp]: "among zs xs 0 = 0"
  by (simp add: among_def)

lemma among_all: "part_of xs zs \<Longrightarrow> length zs \<le> n \<Longrightarrow> among zs xs n = length xs"
  by (simp add: among_def part_of_def)

lemma among_Suc: "n < length zs \<Longrightarrow> among zs xs (Suc n) = among zs xs n + (if zs ! n \<in> set xs then 1 else 0)"
  by (simp add: among_def take_Suc_conv_app_nth)

lemma part_split:
  "part_of xs zs \<Longrightarrow> xs = filter (\<lambda>x. x \<in> set xs) (take n zs) @ filter (\<lambda>x. x \<in> set xs) (drop n zs)"
  unfolding part_of_def by (metis append_take_drop_id filter_append)

lemma among_le: "part_of xs zs \<Longrightarrow> among zs xs n \<le> length xs"
  using part_split [of xs zs n] by (metis le_add1 length_append among_def)

lemma take_among: "part_of xs zs \<Longrightarrow> take (among zs xs n) xs = filter (\<lambda>x. x \<in> set xs) (take n zs)"
  using part_split [of xs zs n] by (metis append_eq_conv_conj among_def)

lemma drop_among: "part_of xs zs \<Longrightarrow> drop (among zs xs n) xs = filter (\<lambda>x. x \<in> set xs) (drop n zs)"
  using part_split [of xs zs n] by (metis append_eq_conv_conj among_def)

lemma nth_among:
  assumes "part_of xs zs" "n < length zs" "zs ! n \<in> set xs"
  shows "among zs xs n < length xs" "xs ! among zs xs n = zs ! n"
proof -
  have "drop (among zs xs n) xs = zs ! n # filter (\<lambda>x. x \<in> set xs) (drop (Suc n) zs)"
    using assms(2,3) unfolding drop_among [OF assms(1)] by (simp add: Cons_nth_drop_Suc [symmetric])
  then show "among zs xs n < length xs" "xs ! among zs xs n = zs ! n"
    by (metis drop_eq_Nil list.distinct(1) not_le_imp_less, metis hd_drop_conv_nth list.sel(1) drop_eq_Nil list.distinct(1) not_le_imp_less)
qed

lemma nth_in_front:
  assumes "part_of xs zs" "among zs xs n < length xs"
  shows "xs ! among zs xs n \<in> set (drop n zs)"
proof -
  have "xs ! among zs xs n \<in> set (drop (among zs xs n) xs)"
    using assms(2) by (metis Cons_nth_drop_Suc list.set_intros(1))
  then show ?thesis unfolding drop_among [OF assms(1)] by simp
qed

lemma nth_behind:
  assumes "part_of xs zs" "0 < among zs xs n"
  shows "xs ! (among zs xs n - 1) \<in> set (take n zs)"
proof -
  have "among zs xs n - 1 < length (take (among zs xs n) xs)" using assms among_le [of xs zs n] by simp
  then have "take (among zs xs n) xs ! (among zs xs n - 1) \<in> set (take (among zs xs n) xs)" by (rule nth_mem)
  moreover have "take (among zs xs n) xs ! (among zs xs n - 1) = xs ! (among zs xs n - 1)" using assms(2) by simp
  ultimately show ?thesis unfolding take_among [OF assms(1)] by simp
qed

text \<open>A predicate that holds of a first part of the list.\<close>

lemma among_takeWhile:
  assumes "part_of xs zs" "n = length (takeWhile P zs)" "\<And>x. x \<in> set (drop n zs) \<Longrightarrow> \<not> P x"
  shows "length (takeWhile P xs) = among zs xs n"
proof -
  have "takeWhile P (filter (\<lambda>x. x \<in> set xs) (take n zs) @ filter (\<lambda>x. x \<in> set xs) (drop n zs)) =
      filter (\<lambda>x. x \<in> set xs) (take n zs) @ takeWhile P (filter (\<lambda>x. x \<in> set xs) (drop n zs))"
    using assms(2) by (intro takeWhile_append2) (auto simp: takeWhile_eq_take [symmetric] dest: set_takeWhileD)
  moreover have "takeWhile P (filter (\<lambda>x. x \<in> set xs) (drop n zs)) = []"
    using assms(3) by (intro takeWhile_none) auto
  ultimately show ?thesis using part_split [OF assms(1), of n] by (simp add: among_def)
qed

lemma in_drop_nth: "x \<in> set (drop n zs) \<Longrightarrow> x \<noteq> zs ! n \<Longrightarrow> \<exists>j. n < j \<and> j < length zs \<and> x = zs ! j"
proof -
  assume "x \<in> set (drop n zs)" "x \<noteq> zs ! n"
  then obtain i where i: "i < length zs - n" "x = zs ! (n + i)" by (auto simp: in_set_conv_nth)
  then show ?thesis using \<open>x \<noteq> zs ! n\<close> by (intro exI [of _ "n + i"]) (cases i, auto)
qed

subsection \<open>The best child\<close>

text \<open>A child whose key beats every other valid one is found, whatever the order of the loop.\<close>

lemma fold_best:
  assumes step: "\<And>i s. f i s = (if good i then (case s of None \<Rightarrow> Some i | Some j \<Rightarrow> if R i j then Some i else Some j) else s)"
    and c: "good c" and R: "\<And>i. i \<in> set is \<Longrightarrow> good i \<Longrightarrow> i \<noteq> c \<Longrightarrow> R c i \<and> \<not> R i c" "\<not> R c c"
  shows "c \<in> set is \<and> (s = None \<or> (\<exists>j. s = Some j \<and> (j = c \<or> R c j))) \<or> s = Some c \<Longrightarrow> fold f is s = Some c"
  using R(1)
proof (induction "is" arbitrary: s)
  case Nil
  then show ?case by simp
next
  case (Cons i "is")
  have "c \<in> set is \<and> (f i s = None \<or> (\<exists>j. f i s = Some j \<and> (j = c \<or> R c j))) \<or> f i s = Some c"
    using Cons.prems c R(2) by (cases "i = c") (auto simp: step split: option.splits)
  then show ?case using Cons.IH [of "f i s"] Cons.prems(2) by simp
qed

lemma fold_no_good:
  assumes "\<And>i s. i \<in> set is \<Longrightarrow> f i s = s"
  shows "fold f is s = s"
  using assms by (induction "is" arbitrary: s) auto

subsection \<open>Lists in order\<close>

lemma in_order_nth:
  "in_order valid cmp zs \<Longrightarrow> i < j \<Longrightarrow> j < length zs \<Longrightarrow>
    Compare cmp (fst (zs ! i)) (fst (zs ! j)) < 0 \<and> valid (fst (zs ! i)) \<and> valid (fst (zs ! j))"
  by (auto simp: in_order_def ascending_def sorted_wrt_iff_nth_less split_beta)

lemma in_order_refl:
  assumes "key_order valid (Compare cmp)" "in_order valid cmp zs" "n < length zs"
  shows "Compare cmp (fst (zs ! n)) (fst (zs ! n)) = 0"
proof -
  have "valid (fst (zs ! n))" using assms(2) nth_mem [OF assms(3)] by (auto simp: in_order_def split_beta)
  then show ?thesis by (rule key_order.compare_refl [OF assms(1)])
qed

lemma drop_takeWhile_below:
  assumes "key_order valid (Compare cmp)" "in_order valid cmp zs" "valid t"
    and n: "n = length (takeWhile (\<lambda>(k, v). Compare cmp k t < 0) zs)" and x: "x \<in> set (drop n zs)"
  shows "\<not> (\<lambda>(k, v). Compare cmp k t < 0) x"
proof -
  have "n < length zs" using x by (cases "n < length zs") auto
  then have "\<not> (\<lambda>(k, v). Compare cmp k t < 0) (zs ! n)"
    unfolding n by (rule nth_length_takeWhile)
  then have stop: "\<not> Compare cmp (fst (zs ! n)) t < 0" by (simp add: split_beta)
  show ?thesis
  proof (cases "x = zs ! n")
    case False
    then obtain j where "n < j" "j < length zs" "x = zs ! j" using in_drop_nth [OF x] by blast
    then show ?thesis
      using in_order_nth [OF assms(2), of n j] stop key_order.compare_less_trans [OF assms(1), of "fst (zs ! n)" "fst (zs ! j)" t] assms(3)
      by (auto simp: split_beta)
  qed (use stop in \<open>simp add: split_beta\<close>)
qed

subsection \<open>The children\<close>

text \<open>The merged list: every entry belongs to exactly one child.\<close>

definition merges :: "entries list \<Rightarrow> entries \<Rightarrow> bool" where
  "merges xss zs \<longleftrightarrow> (\<forall>xs \<in> set xss. part_of xs zs) \<and> set zs = \<Union> (set (map set xss)) \<and>
     (\<forall>i < length xss. \<forall>j < length xss. i \<noteq> j \<longrightarrow> set (xss ! i) \<inter> set (xss ! j) = {})"

locale merging = child: iterator ops repr envok "\<lambda>k t. Compare cmp k t < 0" valid
  for cmp :: Comparator and ops :: "('i, 'e) Iterator" and repr and envok :: "'e \<Rightarrow> bool" and valid :: "slice \<Rightarrow> bool"

context merging
begin

definition children_at :: "'i IteratorWrapper list \<Rightarrow> entries list \<Rightarrow> (nat \<Rightarrow> nat option) \<Rightarrow> bool" where
  "children_at ws xss p \<longleftrightarrow> length ws = length xss \<and> (\<forall>i < length ws. child.wrapped (ws ! i) (xss ! i) (p i))"

definition front :: "entries \<Rightarrow> entries list \<Rightarrow> nat \<Rightarrow> nat \<Rightarrow> nat option" where
  "front zs xss n i = pos_of (xss ! i) (among zs (xss ! i) n)"

definition behind :: "entries \<Rightarrow> entries list \<Rightarrow> nat \<Rightarrow> nat \<Rightarrow> nat option" where
  "behind zs xss n i = prev_pos (among zs (xss ! i) n)"

lemma move_children_spec:
  assumes "\<And>j w e. j < length ws \<Longrightarrow> w = ws ! j \<Longrightarrow> envok e \<Longrightarrow> moved child.wrapped envok (xss ! (i + j)) (p (i + j)) (move (i + j) w e)"
    and "envok e"
  shows "\<exists>ws' e'. move_children move i ws e = Some (ws', e') \<and> envok e' \<and> length ws' = length ws \<and>
    (\<forall>j < length ws. child.wrapped (ws' ! j) (xss ! (i + j)) (p (i + j)))"
  using assms
proof (induction ws arbitrary: i e)
  case (Cons w ws)
  obtain w' e1 where w': "move i w e = Some (w', e1)" "child.wrapped w' (xss ! i) (p i)" "envok e1"
    using Cons.prems(1) [of 0 w e] Cons.prems(2) by (auto simp: moved_def)
  have "moved child.wrapped envok (xss ! (i + 1 + j)) (p (i + 1 + j)) (move (i + 1 + j) v e)"
    if "j < length ws" "v = ws ! j" "envok e" for j v e
    using Cons.prems(1) [of "Suc j" v e] that by simp
  from Cons.IH [OF this w'(3)] obtain ws' e2 where
    ws': "move_children move (i + 1) ws e1 = Some (ws', e2)" "envok e2" "length ws' = length ws"
    "\<forall>j < length ws. child.wrapped (ws' ! j) (xss ! (i + 1 + j)) (p (i + 1 + j))" by auto
  have "\<forall>j < length (w # ws). child.wrapped ((w' # ws') ! j) (xss ! (i + j)) (p (i + j))"
    using ws'(4) w'(2) by (auto simp: nth_Cons split: nat.splits)
  then show ?case using w'(1) ws'(1-3) by (intro exI [of _ "w' # ws'"] exI [of _ e2]) simp
qed simp

lemma move_children_at:
  assumes "children_at ws xss p" "envok e"
    and "\<And>i e. i < length ws \<Longrightarrow> envok e \<Longrightarrow> moved child.wrapped envok (xss ! i) (q i) (move i (ws ! i) e)"
  obtains ws' e' where "move_children move 0 ws e = Some (ws', e')" "envok e'" "children_at ws' xss q"
  using move_children_spec [of ws xss 0 q move e] assms by (auto simp: children_at_def)

definition mi_repr :: "'i MergingIterator \<Rightarrow> entries \<Rightarrow> nat option \<Rightarrow> bool" where
  "mi_repr m zs p \<longleftrightarrow> key_order valid (Compare cmp) \<and> in_order valid cmp zs \<and>
     (\<exists>xss. merges xss zs \<and>
        (case p of
           None \<Rightarrow> mi_current m = None \<and> (\<exists>q. children_at (mi_children m) xss q)
         | Some n \<Rightarrow> n < length zs \<and> (\<exists>c < length xss. mi_current m = Some c \<and> zs ! n \<in> set (xss ! c) \<and>
             children_at (mi_children m) xss
               (\<lambda>i. if i = c \<or> mi_direction m = mi_kForward then front zs xss n i else behind zs xss n i))))"

lemma owner:
  assumes "merges xss zs" "n < length zs"
  obtains c where "c < length xss" "zs ! n \<in> set (xss ! c)" "\<And>i. i < length xss \<Longrightarrow> i \<noteq> c \<Longrightarrow> zs ! n \<notin> set (xss ! i)"
proof -
  have "\<exists>xs \<in> set xss. zs ! n \<in> set xs" using assms nth_mem [OF assms(2)] by (auto simp: merges_def)
  then obtain c where c: "c < length xss" "zs ! n \<in> set (xss ! c)" by (metis in_set_conv_nth)
  then show ?thesis using that assms(1) by (fastforce simp: merges_def)
qed

lemma parts: "merges xss zs \<Longrightarrow> i < length xss \<Longrightarrow> part_of (xss ! i) zs"
  by (simp add: merges_def)

lemma children_at_cong: "(\<And>i. i < length xss \<Longrightarrow> p i = q i) \<Longrightarrow> children_at ws xss p \<longleftrightarrow> children_at ws xss q"
  by (auto simp: children_at_def)

lemma child_key:
  assumes "children_at ws xss p" "i < length ws" "p i = Some j"
  shows "wr_valid (ws ! i)" "wr_key (ws ! i) = fst (xss ! i ! j)" "j < length (xss ! i)"
  using assms child.wrapped_observed(1,4) [of "ws ! i" "xss ! i"] by (fastforce simp: children_at_def)+

lemma child_invalid: "children_at ws xss p \<Longrightarrow> i < length ws \<Longrightarrow> p i = None \<Longrightarrow> \<not> wr_valid (ws ! i)"
  using child.wrapped_observed(1) by (fastforce simp: children_at_def)

lemma FindSmallest_at:
  assumes order: "key_order valid (Compare cmp)" "in_order valid cmp zs" and mg: "merges xss zs"
    and at: "children_at (mi_children m) xss (front zs xss n)"
  shows "mi_repr ((FindSmallest cmp m)\<lparr>mi_direction := mi_kForward\<rparr>) zs (pos_of zs n)"
proof (cases "n < length zs")
  case True
  let ?ws = "mi_children m"
  have len: "length ?ws = length xss" using at by (simp add: children_at_def)
  obtain c where c: "c < length xss" "zs ! n \<in> set (xss ! c)" "\<And>i. i < length xss \<Longrightarrow> i \<noteq> c \<Longrightarrow> zs ! n \<notin> set (xss ! i)"
    using owner [OF mg True] by blast
  have "front zs xss n c = Some (among zs (xss ! c) n)" "xss ! c ! among zs (xss ! c) n = zs ! n"
    using nth_among [OF parts [OF mg c(1)] True c(2)] by (simp_all add: front_def pos_of_def)
  then have cc: "wr_valid (?ws ! c)" "wr_key (?ws ! c) = fst (zs ! n)"
    using child_key [OF at, of c] c(1) len by simp_all
  have less: "Compare cmp (wr_key (?ws ! c)) (wr_key (?ws ! i)) < 0 \<and> \<not> Compare cmp (wr_key (?ws ! i)) (wr_key (?ws ! c)) < 0"
    if i: "i < length xss" "wr_valid (?ws ! i)" "i \<noteq> c" for i
  proof -
    have "front zs xss n i \<noteq> None" using child_invalid [OF at] i(1,2) len by metis
    then have f: "among zs (xss ! i) n < length (xss ! i)" "front zs xss n i = Some (among zs (xss ! i) n)"
      by (auto simp: front_def pos_of_def split: if_splits)
    then have key: "wr_key (?ws ! i) = fst (xss ! i ! among zs (xss ! i) n)" using child_key(2) [OF at] i(1) len by simp
    have mem: "xss ! i ! among zs (xss ! i) n \<in> set (drop n zs)" "xss ! i ! among zs (xss ! i) n \<noteq> zs ! n"
      using nth_in_front [OF parts [OF mg i(1)] f(1)] c(3) [OF i(1,3)] nth_mem [OF f(1)] by auto
    then obtain j where "n < j" "j < length zs" "xss ! i ! among zs (xss ! i) n = zs ! j"
      using in_drop_nth [OF mem] by blast
    then show ?thesis
      using in_order_nth [OF order(2), of n j] key_order.compare_sym [OF order(1), of "fst (zs ! n)" "fst (zs ! j)"] cc(2) key by simp
  qed
  have "fold (smallest_step cmp ?ws) [0..<length ?ws] None = Some c"
    by (rule fold_best [where good = "\<lambda>i. wr_valid (?ws ! i)" and R = "\<lambda>i j. Compare cmp (wr_key (?ws ! i)) (wr_key (?ws ! j)) < 0"])
      (use less cc c(1) len in_order_refl [OF order True] in \<open>auto simp: smallest_step_def split: option.split\<close>)
  then show ?thesis
    using True order mg at c(1,2) by (auto simp: mi_repr_def FindSmallest_def pos_of_def)
next
  case False
  then have "front zs xss n i = None" if "i < length xss" for i
    using among_all [OF parts [OF mg that], of n] by (simp add: front_def pos_of_def)
  then have "fold (smallest_step cmp (mi_children m)) [0..<length (mi_children m)] None = None"
    using child_invalid [OF at] at by (intro fold_no_good) (auto simp: smallest_step_def children_at_def)
  then show ?thesis
    using False order mg at by (auto simp: mi_repr_def FindSmallest_def pos_of_def)
qed

lemma FindLargest_at:
  assumes order: "key_order valid (Compare cmp)" "in_order valid cmp zs" and mg: "merges xss zs"
    and at: "children_at (mi_children m) xss (behind zs xss n)" and n: "n \<le> length zs"
  shows "mi_repr ((FindLargest cmp m)\<lparr>mi_direction := mi_kReverse\<rparr>) zs (prev_pos n)"
proof (cases n)
  case 0
  then have "fold (largest_step cmp (mi_children m)) (rev [0..<length (mi_children m)]) None = None"
    using child_invalid [OF at] by (intro fold_no_good) (auto simp: largest_step_def behind_def prev_pos_def)
  then show ?thesis
    using 0 order mg at by (auto simp: mi_repr_def FindLargest_def prev_pos_def)
next
  case (Suc k)
  let ?ws = "mi_children m"
  have k: "k < length zs" using n Suc by simp
  have len: "length ?ws = length xss" using at by (simp add: children_at_def)
  obtain c where c: "c < length xss" "zs ! k \<in> set (xss ! c)" "\<And>i. i < length xss \<Longrightarrow> i \<noteq> c \<Longrightarrow> zs ! k \<notin> set (xss ! i)"
    using owner [OF mg k] by blast
  have pos: "behind zs xss n i = (if i = c then front zs xss k i else behind zs xss k i)" if "i < length xss" for i
    using among_Suc [OF k, of "xss ! i"] c(2,3) that nth_among(1) [OF parts [OF mg that] k]
    by (auto simp: behind_def front_def prev_pos_def pos_of_def Suc)
  have "front zs xss k c = Some (among zs (xss ! c) k)" "xss ! c ! among zs (xss ! c) k = zs ! k"
    using nth_among [OF parts [OF mg c(1)] k c(2)] by (simp_all add: front_def pos_of_def)
  then have cc: "wr_valid (?ws ! c)" "wr_key (?ws ! c) = fst (zs ! k)"
    using child_key [OF at, of c] c(1) len pos [OF c(1)] by simp_all
  have less: "Compare cmp (wr_key (?ws ! c)) (wr_key (?ws ! i)) > 0 \<and> \<not> Compare cmp (wr_key (?ws ! i)) (wr_key (?ws ! c)) > 0"
    if i: "i < length xss" "wr_valid (?ws ! i)" "i \<noteq> c" for i
  proof -
    have "behind zs xss n i \<noteq> None" using child_invalid [OF at] i(1,2) len by metis
    then have f: "0 < among zs (xss ! i) k" "behind zs xss n i = Some (among zs (xss ! i) k - 1)"
      using pos [OF i(1)] i(3) by (auto simp: behind_def prev_pos_def split: if_splits)
    then have key: "wr_key (?ws ! i) = fst (xss ! i ! (among zs (xss ! i) k - 1))" using child_key(2) [OF at] i(1) len by simp
    obtain j where "j < k" "xss ! i ! (among zs (xss ! i) k - 1) = zs ! j"
      using nth_behind [OF parts [OF mg i(1)] f(1)] by (auto simp: in_set_conv_nth)
    then show ?thesis
      using in_order_nth [OF order(2), of j k] k key_order.compare_sym [OF order(1), of "fst (zs ! j)" "fst (zs ! k)"] cc(2) key
      by simp
  qed
  have "fold (largest_step cmp ?ws) (rev [0..<length ?ws]) None = Some c"
    by (rule fold_best [where good = "\<lambda>i. wr_valid (?ws ! i)" and R = "\<lambda>i j. Compare cmp (wr_key (?ws ! i)) (wr_key (?ws ! j)) > 0"])
      (use less cc c(1) len in_order_refl [OF order k] in \<open>auto simp: largest_step_def split: option.split\<close>)
  moreover have "children_at ?ws xss (\<lambda>i. if i = c then front zs xss k i else behind zs xss k i)"
    using at pos children_at_cong [of xss "behind zs xss n"] by simp
  ultimately show ?thesis
    using Suc k order mg c(1,2) by (auto simp: mi_repr_def FindLargest_def prev_pos_def)
qed

end

subsection \<open>The moves\<close>

context merging
begin

lemma mi_repr_any:
  assumes "mi_repr m zs p"
  obtains xss q where "key_order valid (Compare cmp)" "in_order valid cmp zs" "merges xss zs" "children_at (mi_children m) xss q"
  using assms that by (cases p) (auto simp: mi_repr_def)

lemma mi_repr_at:
  assumes "mi_repr m zs (Some n)"
  obtains xss c where "key_order valid (Compare cmp)" "in_order valid cmp zs" "merges xss zs" "n < length zs" "c < length xss"
    "mi_current m = Some c" "zs ! n \<in> set (xss ! c)" "mi_key m = fst (zs ! n)" "mi_value ops m = snd (zs ! n)"
    "children_at (mi_children m) xss
       (\<lambda>i. if i = c \<or> mi_direction m = mi_kForward then front zs xss n i else behind zs xss n i)"
proof -
  obtain xss c where r: "key_order valid (Compare cmp)" "in_order valid cmp zs" "merges xss zs" "n < length zs" "c < length xss"
    "mi_current m = Some c" "zs ! n \<in> set (xss ! c)"
    "children_at (mi_children m) xss
       (\<lambda>i. if i = c \<or> mi_direction m = mi_kForward then front zs xss n i else behind zs xss n i)"
    using assms by (auto simp: mi_repr_def)
  have "child.wrapped (mi_children m ! c) (xss ! c) (front zs xss n c)" using r(5,8) by (auto simp: children_at_def)
  moreover have "front zs xss n c = Some (among zs (xss ! c) n)" "xss ! c ! among zs (xss ! c) n = zs ! n"
    using nth_among [OF parts [OF r(3,5)] r(4,7)] by (simp_all add: front_def pos_of_def)
  ultimately show ?thesis using that [OF r(1-7) _ _ r(8)] child.wrapped_observed(4) r(6) by (fastforce simp: mi_key_def mi_value_def)
qed

lemma seek_front:
  assumes "key_order valid (Compare cmp)" "in_order valid cmp zs" "valid t" "merges xss zs" "i < length xss"
  shows "seek_pos (\<lambda>k t. Compare cmp k t < 0) t (xss ! i) =
    front zs xss (length (takeWhile (\<lambda>(k, v). Compare cmp k t < 0) zs)) i"
  unfolding seek_pos_def front_def
  by (subst among_takeWhile [OF parts [OF assms(4,5)] refl]) (use drop_takeWhile_below [OF assms(1-3) refl] in auto)

lemma takeWhile_key:
  assumes "key_order valid (Compare cmp)" "in_order valid cmp zs" "n < length zs"
  shows "length (takeWhile (\<lambda>(k, v). Compare cmp k (fst (zs ! n)) < 0) zs) = n" "valid (fst (zs ! n))"
proof -
  have "takeWhile (\<lambda>(k, v). Compare cmp k (fst (zs ! n)) < 0) zs = take n zs"
    using in_order_nth [OF assms(2) _ assms(3)] in_order_refl [OF assms]
    by (intro takeWhile_eq_take_P_nth) (simp_all add: split_beta)
  then show "length (takeWhile (\<lambda>(k, v). Compare cmp k (fst (zs ! n)) < 0) zs) = n" using assms(3) by simp
  show "valid (fst (zs ! n))" using assms(2) nth_mem [OF assms(3)] by (auto simp: in_order_def split_beta)
qed

lemma FindSmallest_update:
  "FindSmallest cmp (m\<lparr>mi_direction := d\<rparr>) = (FindSmallest cmp m)\<lparr>mi_direction := d\<rparr>"
  "FindLargest cmp (m\<lparr>mi_direction := d\<rparr>) = (FindLargest cmp m)\<lparr>mi_direction := d\<rparr>"
  by (simp_all add: FindSmallest_def FindLargest_def)

lemma mi_first:
  assumes "mi_repr m zs p" "envok e"
  shows "moved mi_repr envok zs (pos_of zs 0) (mi_SeekToFirst cmp ops m e)"
proof -
  obtain xss q where r: "key_order valid (Compare cmp)" "in_order valid cmp zs" "merges xss zs" "children_at (mi_children m) xss q"
    using assms(1) by (rule mi_repr_any)
  obtain ws e1 where ws: "move_children (\<lambda>i. wr_SeekToFirst ops) 0 (mi_children m) e = Some (ws, e1)" "envok e1"
    "children_at ws xss (front zs xss 0)"
    by (rule move_children_at [OF r(4) assms(2), where q = "front zs xss 0" and move = "\<lambda>i. wr_SeekToFirst ops"])
      (use r(4) child.wrapped_moves(1) in \<open>auto simp: children_at_def front_def\<close>)
  then show ?thesis
    using FindSmallest_at [OF r(1-3), of "m\<lparr>mi_children := ws\<rparr>" 0] by (simp add: mi_SeekToFirst_def moved_def)
qed

lemma mi_last:
  assumes "mi_repr m zs p" "envok e"
  shows "moved mi_repr envok zs (last_pos zs) (mi_SeekToLast cmp ops m e)"
proof -
  obtain xss q where r: "key_order valid (Compare cmp)" "in_order valid cmp zs" "merges xss zs" "children_at (mi_children m) xss q"
    using assms(1) by (rule mi_repr_any)
  have last: "last_pos ys = prev_pos (length ys)" for ys :: entries by (simp add: last_pos_def prev_pos_def)
  have "behind zs xss (length zs) i = last_pos (xss ! i)" if "i < length xss" for i
    using among_all [OF parts [OF r(3) that] order_refl] by (simp add: behind_def last)
  then obtain ws e1 where ws: "move_children (\<lambda>i. wr_SeekToLast ops) 0 (mi_children m) e = Some (ws, e1)" "envok e1"
    "children_at ws xss (behind zs xss (length zs))"
    by (rule_tac move_children_at [OF r(4) assms(2), where q = "behind zs xss (length zs)" and move = "\<lambda>i. wr_SeekToLast ops"])
      (use r(4) child.wrapped_moves(2) in \<open>auto simp: children_at_def\<close>)
  then show ?thesis
    using FindLargest_at [OF r(1-3), of "m\<lparr>mi_children := ws\<rparr>" "length zs"] by (simp add: mi_SeekToLast_def moved_def last)
qed

lemma mi_seek:
  assumes "mi_repr m zs p" "envok e" "valid t"
  shows "moved mi_repr envok zs (seek_pos (\<lambda>k t. Compare cmp k t < 0) t zs) (mi_Seek cmp ops t m e)"
proof -
  obtain xss q where r: "key_order valid (Compare cmp)" "in_order valid cmp zs" "merges xss zs" "children_at (mi_children m) xss q"
    using assms(1) by (rule mi_repr_any)
  let ?n = "length (takeWhile (\<lambda>(k, v). Compare cmp k t < 0) zs)"
  obtain ws e1 where ws: "move_children (\<lambda>i. wr_Seek ops t) 0 (mi_children m) e = Some (ws, e1)" "envok e1"
    "children_at ws xss (front zs xss ?n)"
    by (rule move_children_at [OF r(4) assms(2), where q = "front zs xss ?n" and move = "\<lambda>i. wr_Seek ops t"])
      (use r(4) child.wrapped_moves(3) seek_front [OF r(1,2) assms(3) r(3)] assms(3) in \<open>fastforce simp: children_at_def\<close>)
  then show ?thesis
    using FindSmallest_at [OF r(1-3), of "m\<lparr>mi_children := ws\<rparr>" ?n] by (simp add: mi_Seek_def moved_def seek_pos_def)
qed

text \<open>A child that is sought at the key is in front of it.\<close>

lemma seek_key:
  assumes "key_order valid (Compare cmp)" "in_order valid cmp zs" "merges xss zs" "n < length zs" "i < length xss"
    and "child.wrapped w (xss ! i) p" "envok e"
  shows "moved child.wrapped envok (xss ! i) (front zs xss n i) (wr_Seek ops (fst (zs ! n)) w e)"
  using child.wrapped_moves(3) [OF assms(6,7), of "fst (zs ! n)"] takeWhile_key [OF assms(1,2,4)]
    seek_front [OF assms(1,2) _ assms(3,5), of "fst (zs ! n)"] by simp

lemma move_behind_at:
  assumes "key_order valid (Compare cmp)" "in_order valid cmp zs" "merges xss zs" "n < length zs" "i < length xss"
    and "zs ! n \<notin> set (xss ! i)" and "child.wrapped w (xss ! i) p" "envok e"
  shows "moved child.wrapped envok (xss ! i) (front zs xss n i) (move_behind cmp ops (fst (zs ! n)) w e)"
proof -
  obtain w' e' where w': "wr_Seek ops (fst (zs ! n)) w e = Some (w', e')" "child.wrapped w' (xss ! i) (front zs xss n i)" "envok e'"
    using seek_key [OF assms(1-5,7,8)] by (rule movedE)
  have "\<not> (wr_valid w' \<and> Compare cmp (fst (zs ! n)) (wr_key w') = 0)"
  proof
    assume v: "wr_valid w' \<and> Compare cmp (fst (zs ! n)) (wr_key w') = 0"
    then have "front zs xss n i \<noteq> None" using child.wrapped_observed(1) [OF w'(2)] by simp
    then have f: "front zs xss n i = Some (among zs (xss ! i) n)" "among zs (xss ! i) n < length (xss ! i)"
      by (auto simp: front_def pos_of_def split: if_splits)
    then have key: "wr_key w' = fst (xss ! i ! among zs (xss ! i) n)" using child.wrapped_observed(4) w'(2) by simp
    have mem: "xss ! i ! among zs (xss ! i) n \<in> set (drop n zs)" "xss ! i ! among zs (xss ! i) n \<noteq> zs ! n"
      using nth_in_front [OF parts [OF assms(3,5)] f(2)] assms(6) nth_mem [OF f(2)] by auto
    then obtain j where "n < j" "j < length zs" "xss ! i ! among zs (xss ! i) n = zs ! j" using in_drop_nth [OF mem] by blast
    then show False using in_order_nth [OF assms(2), of n j] v key by simp
  qed
  then show ?thesis using w' unfolding move_behind_def by (auto simp: moved_def)
qed

lemma move_before_at:
  assumes "key_order valid (Compare cmp)" "in_order valid cmp zs" "merges xss zs" "n < length zs" "i < length xss"
    and "child.wrapped w (xss ! i) p" "envok e"
  shows "moved child.wrapped envok (xss ! i) (behind zs xss n i) (move_before ops (fst (zs ! n)) w e)"
proof -
  obtain w' e' where w': "wr_Seek ops (fst (zs ! n)) w e = Some (w', e')" "child.wrapped w' (xss ! i) (front zs xss n i)" "envok e'"
    using seek_key [OF assms] by (rule movedE)
  show ?thesis
  proof (cases "among zs (xss ! i) n < length (xss ! i)")
    case True
    then have "front zs xss n i = Some (among zs (xss ! i) n)" by (simp add: front_def pos_of_def)
    moreover from this have "wr_valid w'" using child.wrapped_observed(1) [OF w'(2)] by simp
    ultimately show ?thesis
      using w'(1) child.wrapped_moves(5) [OF w'(2,3)] by (simp add: move_before_def behind_def)
  next
    case False
    then have "among zs (xss ! i) n = length (xss ! i)" using among_le [OF parts [OF assms(3,5)], of n] by simp
    then have "behind zs xss n i = last_pos (xss ! i)" "front zs xss n i = None"
      by (simp_all add: behind_def front_def pos_of_def last_pos_def prev_pos_def)
    moreover from this have "\<not> wr_valid w'" using child.wrapped_observed(1) [OF w'(2)] by simp
    ultimately show ?thesis using w'(1) child.wrapped_moves(2) [OF w'(2,3)] by (simp add: move_before_def)
  qed
qed

text \<open>The other children after a change of direction, and all of them when the current one has moved.\<close>

lemma others_at:
  assumes at: "children_at (mi_children m) xss p" "p c = front zs xss n c" and e: "envok e"
    and move: "\<And>i w q e. i < length xss \<Longrightarrow> i \<noteq> c \<Longrightarrow> child.wrapped w (xss ! i) q \<Longrightarrow> envok e \<Longrightarrow>
      moved child.wrapped envok (xss ! i) (r i) (move w e)"
  shows "\<exists>ws e'. move_children (others c move) 0 (mi_children m) e = Some (ws, e') \<and> envok e' \<and>
    children_at ws xss (\<lambda>i. if i = c then front zs xss n i else r i)"
proof -
  have "moved child.wrapped envok (xss ! i) (if i = c then front zs xss n i else r i) (others c move i (mi_children m ! i) e)"
    if i: "i < length (mi_children m)" "envok e" for i e
  proof -
    have w: "i < length xss" "child.wrapped (mi_children m ! i) (xss ! i) (p i)" using at(1) that(1) by (auto simp: children_at_def)
    show ?thesis
    proof (cases "i = c")
      case True
      then show ?thesis using w(2) at(2) that(2) by (simp add: others_def movedI)
    next
      case False
      then show ?thesis using move [OF w(1) False w(2) that(2)] by (simp add: others_def)
    qed
  qed
  then show ?thesis
    by (rule move_children_at [OF at(1) e, where q = "\<lambda>i. if i = c then front zs xss n i else r i" and move = "others c move"]) (assumption+, intro exI conjI, assumption+)
qed

lemma current_moved:
  assumes at: "children_at ws xss p" and c: "c < length xss" and w: "child.wrapped w (xss ! c) (q c)"
    and rest: "\<And>i. i < length xss \<Longrightarrow> i \<noteq> c \<Longrightarrow> p i = q i"
  shows "children_at (ws[c := w]) xss q"
  using assms by (auto simp: children_at_def nth_list_update)

lemma mi_next:
  assumes "mi_repr m zs (Some n)" "envok e"
  shows "moved mi_repr envok zs (pos_of zs (n + 1)) (mi_Next cmp ops m e)"
proof -
  obtain xss c where r: "key_order valid (Compare cmp)" "in_order valid cmp zs" "merges xss zs" "n < length zs" "c < length xss"
    "mi_current m = Some c" "zs ! n \<in> set (xss ! c)" "mi_key m = fst (zs ! n)" "mi_value ops m = snd (zs ! n)"
    "children_at (mi_children m) xss
       (\<lambda>i. if i = c \<or> mi_direction m = mi_kForward then front zs xss n i else behind zs xss n i)"
    using assms(1) by (rule mi_repr_at)
  have other: "zs ! n \<notin> set (xss ! i)" if "i < length xss" "i \<noteq> c" for i
    using r(3,5,7) that by (fastforce simp: merges_def)
  obtain ws e1 where ws: "(if mi_direction m \<noteq> mi_kForward
       then move_children (others c (move_behind cmp ops (mi_key m))) 0 (mi_children m) e
       else Some (mi_children m, e)) = Some (ws, e1)" "envok e1" "children_at ws xss (front zs xss n)"
  proof (cases "mi_direction m = mi_kForward")
    case True
    then show ?thesis using that r(10) assms(2) by simp
  next
    case False
    then show ?thesis
      using that others_at [OF r(10) _ assms(2), where zs = zs and r = "front zs xss n" and n = n and c = c and move = "move_behind cmp ops (mi_key m)"]
        move_behind_at [OF r(1-4) _ other] r(8) by auto
  qed
  have fc: "front zs xss n c = Some (among zs (xss ! c) n)"
    using nth_among(1) [OF parts [OF r(3,5)] r(4,7)] by (simp add: front_def pos_of_def)
  have "child.wrapped (ws ! c) (xss ! c) (front zs xss n c)" using ws(3) r(5) by (simp add: children_at_def)
  then obtain w e2 where w: "wr_Next ops (ws ! c) e1 = Some (w, e2)"
    "child.wrapped w (xss ! c) (pos_of (xss ! c) (among zs (xss ! c) n + 1))" "envok e2"
    using child.wrapped_moves(4) [OF _ ws(2) fc] by (blast elim: movedE)
  have "children_at (ws[c := w]) xss (front zs xss (n + 1))"
    by (rule current_moved [OF ws(3) r(5)]) (use w(2) among_Suc [OF r(4)] r(7) other in \<open>simp_all add: front_def\<close>)
  then show ?thesis
    using FindSmallest_at [OF r(1-3), of "m\<lparr>mi_children := ws[c := w]\<rparr>" "n + 1"] r(6) ws(1) w(1,3)
    by (simp add: mi_Next_def moved_def FindSmallest_update)
qed

lemma mi_prev:
  assumes "mi_repr m zs (Some n)" "envok e"
  shows "moved mi_repr envok zs (prev_pos n) (mi_Prev cmp ops m e)"
proof -
  obtain xss c where r: "key_order valid (Compare cmp)" "in_order valid cmp zs" "merges xss zs" "n < length zs" "c < length xss"
    "mi_current m = Some c" "zs ! n \<in> set (xss ! c)" "mi_key m = fst (zs ! n)" "mi_value ops m = snd (zs ! n)"
    "children_at (mi_children m) xss
       (\<lambda>i. if i = c \<or> mi_direction m = mi_kForward then front zs xss n i else behind zs xss n i)"
    using assms(1) by (rule mi_repr_at)
  obtain ws e1 where ws: "(if mi_direction m \<noteq> mi_kReverse
       then move_children (others c (move_before ops (mi_key m))) 0 (mi_children m) e
       else Some (mi_children m, e)) = Some (ws, e1)" "envok e1"
    "children_at ws xss (\<lambda>i. if i = c then front zs xss n i else behind zs xss n i)"
  proof (cases "mi_direction m = mi_kReverse")
    case True
    then show ?thesis using that r(10) assms(2) by simp
  next
    case False
    then show ?thesis
      using that others_at [OF r(10) _ assms(2), where zs = zs and r = "behind zs xss n" and n = n and c = c and move = "move_before ops (mi_key m)"]
        move_before_at [OF r(1-4)] r(8) by auto
  qed
  have fc: "front zs xss n c = Some (among zs (xss ! c) n)"
    using nth_among(1) [OF parts [OF r(3,5)] r(4,7)] by (simp add: front_def pos_of_def)
  have "child.wrapped (ws ! c) (xss ! c) (front zs xss n c)" using ws(3) r(5) by (auto simp: children_at_def)
  then obtain w e2 where w: "wr_Prev ops (ws ! c) e1 = Some (w, e2)"
    "child.wrapped w (xss ! c) (prev_pos (among zs (xss ! c) n))" "envok e2"
    using child.wrapped_moves(5) [OF _ ws(2) fc] by (blast elim: movedE)
  have "children_at (ws[c := w]) xss (behind zs xss n)"
    by (rule current_moved [OF ws(3) r(5)]) (use w(2) in \<open>simp_all add: behind_def\<close>)
  then show ?thesis
    using FindLargest_at [OF r(1-3), of "m\<lparr>mi_children := ws[c := w]\<rparr>" n] r(4,6) ws(1) w(1,3)
    by (simp add: mi_Prev_def moved_def FindSmallest_update)
qed

lemma mi_status_ok:
  assumes "mi_repr m zs p"
  shows "mi_status ops m = status_OK"
proof -
  have "status_loop ops status_OK ws = status_OK" if "\<forall>w \<in> set ws. wr_status ops w = status_OK" for ws
    using that by (induction ws) simp_all
  moreover obtain xss q where "children_at (mi_children m) xss q" using assms by (rule mi_repr_any)
  then have "\<forall>w \<in> set (mi_children m). wr_status ops w = status_OK"
    using child.wrapped_observed(2) by (metis children_at_def in_set_conv_nth)
  ultimately show ?thesis by (simp add: mi_status_def)
qed

lemma mi_destroy:
  assumes "mi_repr m zs p" "envok e"
  shows "envok (mi_Destroy ops m e)"
proof -
  have "envok (fold (\<lambda>w e. case wr_iter w of None \<Rightarrow> e | Some i \<Rightarrow> io_Destroy ops i e) ws e)"
    if "\<forall>w \<in> set ws. \<exists>xs q. child.wrapped w xs q" "envok e" for ws e
    using that
  proof (induction ws arbitrary: e)
    case (Cons w ws)
    then obtain xs q where "child.wrapped w xs q" by auto
    then have "envok (case wr_iter w of None \<Rightarrow> e | Some i \<Rightarrow> io_Destroy ops i e)"
      using child.destroy Cons.prems(2) by (auto simp: child.wrapped_def)
    then show ?case using Cons by simp
  qed simp
  moreover obtain xss q where "children_at (mi_children m) xss q" using assms(1) by (rule mi_repr_any)
  then have "\<forall>w \<in> set (rev (mi_children m)). \<exists>xs q. child.wrapped w xs q"
    by (metis children_at_def in_set_conv_nth set_rev)
  ultimately show ?thesis using assms(2) by (simp add: mi_Destroy_def)
qed

lemma mi_observed:
  assumes "mi_repr m zs p"
  shows "mi_current m \<noteq> None \<longleftrightarrow> p \<noteq> None" "p = Some n \<Longrightarrow> n < length zs \<and> (mi_key m, mi_value ops m) = zs ! n"
proof -
  show "mi_current m \<noteq> None \<longleftrightarrow> p \<noteq> None" using assms by (cases p) (auto simp: mi_repr_def)
  assume "p = Some n"
  then have "mi_repr m zs (Some n)" using assms by simp
  then show "n < length zs \<and> (mi_key m, mi_value ops m) = zs ! n" by (rule mi_repr_at) simp
qed

lemma mk_MergingIterator_repr:
  assumes "key_order valid (Compare cmp)" "in_order valid cmp zs" "merges xss zs"
    and "length is = length xss" "\<And>i. i < length is \<Longrightarrow> \<exists>p. repr (is ! i) (xss ! i) p"
  shows "mi_repr (mk_MergingIterator ops is) zs None"
proof -
  obtain q where "\<And>i. i < length is \<Longrightarrow> repr (is ! i) (xss ! i) (q i)" using assms(5) by metis
  then have "children_at (mi_children (mk_MergingIterator ops is)) xss q"
    using child.wr_Update_wrapped assms(4) by (auto simp: children_at_def mk_MergingIterator_def mk_IteratorWrapper_def Let_def)
  then show ?thesis using assms(1-3) by (auto simp: mi_repr_def mk_MergingIterator_def)
qed

end

sublocale merging \<subseteq> merge: iterator "merging_iterator cmp ops" mi_repr envok "\<lambda>k t. Compare cmp k t < 0" valid
proof (unfold_locales, goal_cases)
  case (2 m zs p)
  then show ?case using mi_observed(1) by (simp add: merging_iterator_def)
next
  case (8 m zs n e)
  then show ?case using mi_next [of m zs n e] by (simp add: merging_iterator_def)
qed (simp_all add: merging_iterator_def mi_observed(2) mi_status_ok mi_first mi_last mi_seek mi_prev mi_destroy)

subsection \<open>No child and one child\<close>

context merging
begin

fun merged_repr :: "'i Merged \<Rightarrow> entries \<Rightarrow> nat option \<Rightarrow> bool" where
  "merged_repr NoChildren xs p \<longleftrightarrow> xs = [] \<and> p = None"
| "merged_repr (OnlyChild i) xs p \<longleftrightarrow> repr i xs p"
| "merged_repr (Merging m) xs p \<longleftrightarrow> mi_repr m xs p"

lemma merged_move_moved:
  assumes "merged_repr m xs p"
    and "m = NoChildren \<Longrightarrow> xs = [] \<Longrightarrow> p = None \<Longrightarrow> q = None"
    and "\<And>i. repr i xs p \<Longrightarrow> moved repr envok xs q (only i e)"
    and "\<And>m. mi_repr m xs p \<Longrightarrow> moved mi_repr envok xs q (merge m e)" and "envok e"
  shows "moved merged_repr envok xs q (merged_move only merge m e)"
  using assms by (cases m) (fastforce simp: merged_move_def moved_def)+

lemma NewMergingIterator_repr:
  assumes "key_order valid (Compare cmp)" "in_order valid cmp zs" "merges xss zs"
    and "length its = length xss" "\<And>i. i < length its \<Longrightarrow> repr (its ! i) (xss ! i) None"
  shows "merged_repr (NewMergingIterator ops its) zs None"
proof -
  consider "its = []" | i where "its = [i]" | i j js where "its = i # j # js" by (metis neq_Nil_conv)
  then show ?thesis
  proof cases
    case 1
    then show ?thesis using assms(3,4) by (simp add: NewMergingIterator_def merges_def)
  next
    case 2
    then have "length xss = Suc 0" using assms(4) by simp
    then obtain xs where xs: "xss = [xs]" by (auto simp: length_Suc_conv)
    have "part_of xs zs" "set zs = set xs" using assms(3) by (auto simp: merges_def xs)
    then have "zs = xs" by (simp add: part_of_def)
    then show ?thesis using 2 assms(5) [of 0] xs by (simp add: NewMergingIterator_def)
  next
    case 3
    then have "NewMergingIterator ops its = Merging (mk_MergingIterator ops its)" by (simp add: NewMergingIterator_def)
    then show ?thesis using mk_MergingIterator_repr [OF assms(1-4)] assms(5) by auto
  qed
qed

end

sublocale merging \<subseteq> merged: iterator "merged_iterator cmp ops" merged_repr envok "\<lambda>k t. Compare cmp k t < 0" valid
proof (unfold_locales, goal_cases)
  case (1 m xs n)
  then show ?case using child.in_range merge.in_range by (cases m) auto
next
  case (2 m xs p)
  then show ?case using child.valid_iff merge.valid_iff by (cases m) (auto simp: merged_iterator_def merged_get_def Let_def)
next
  case (3 m xs n)
  then show ?case using child.entry merge.entry by (cases m) (auto simp: merged_iterator_def merged_get_def Let_def)
next
  case (4 m xs p)
  then show ?case using child.status merge.status by (cases m) (auto simp: merged_iterator_def merged_get_def Let_def)
next
  case (5 m xs p e)
  then show ?case using child.first merge.first
    by (simp add: merged_iterator_def Let_def) (rule merged_move_moved, assumption, simp_all add: pos_of_def)
next
  case (6 m xs p e)
  then show ?case using child.last merge.last
    by (simp add: merged_iterator_def Let_def) (rule merged_move_moved, assumption, simp_all add: last_pos_def)
next
  case (7 m xs p e t)
  then show ?case using child.seek merge.seek
    by (simp add: merged_iterator_def Let_def) (rule merged_move_moved, assumption, simp_all add: seek_pos_def pos_of_def)
next
  case (8 m xs n e)
  then show ?case using child.next merge.next
    by (simp add: merged_iterator_def Let_def) (rule merged_move_moved, assumption, simp_all)
next
  case (9 m xs n e)
  then show ?case using child.prev merge.prev
    by (simp add: merged_iterator_def Let_def) (rule merged_move_moved, assumption, simp_all)
next
  case (10 m xs p e)
  then show ?case using child.destroy merge.destroy by (cases m) (auto simp: merged_iterator_def merged_get_def Let_def)
qed

subsection \<open>Merging the iterators of blocks\<close>

interpretation merge_blocks: merging cmp "block_iterator (run_cleanup cache)" "block_repr valid cmp"
  "\<lambda>e. P \<and> cache_ok cache coherent al e" valid
  for cmp valid cache P coherent al ..

definition block_with :: "int \<Rightarrow> (slice \<times> slice) list \<Rightarrow> Block" where
  "block_with interval kvs = mk_Block (fst (bb_Finish (bb_add_all kvs (mk_BlockBuilder interval))))"

lemma block_with_repr:
  assumes "1 \<le> interval" "length (bk_data (block_with interval kvs)) < 2 ^ 32" "key_order valid (Compare cmp)" "in_order valid cmp kvs"
  shows "block_repr valid cmp (NewIterator cmp (block_with interval kvs), cs) kvs None"
proof -
  obtain es rs where es: "map entry_pair es = kvs" "built (bb_add_all kvs (mk_BlockBuilder interval)) es rs"
    using bb_add_all_built [OF built_empty [OF assms(1)], of kvs] by auto
  then have b: "block_with interval kvs = mk_Block (block_bytes es rs)" using bb_Finish_built [OF es(2)] by (simp add: block_with_def)
  moreover have "bk_data (mk_Block c) = c" for c by (simp add: mk_Block_def Let_def)
  ultimately have "small_layout es rs" using assms(2) es(2) by (simp add: small_layout_def built_def)
  then have "holds_block kvs (block_with interval kvs)" using es(1) b by (auto simp: holds_block_def)
  then show ?thesis using holds_blockD [OF _ assms(3,4)] by metis
qed

subsection \<open>Property\<close>

lemma in_order_part:
  assumes "in_order valid cmp zs" "part_of xs zs"
  shows "in_order valid cmp xs"
proof -
  have "in_order valid cmp (filter P zs)" for P
    using assms(1) by (auto simp: in_order_def ascending_def sorted_wrt_map intro: sorted_wrt_filter)
  then show ?thesis using assms(2) unfolding part_of_def by metis
qed

lemma merged_blocks_repr:
  assumes "key_order valid (Compare cmp)" and "in_order valid cmp zs" and "merges kvss zs"
    and "1 \<le> interval" and "\<forall>kvs \<in> set kvss. length (bk_data (block_with interval kvs)) < 2 ^ 32"
  shows "merging.merged_repr cmp (block_repr valid cmp) valid
    (NewMergingIterator (block_iterator (run_cleanup cache))
      (map (\<lambda>kvs. (NewIterator cmp (block_with interval kvs), [])) kvss)) zs None"
proof -
  have children: "block_repr valid cmp (NewIterator cmp (block_with interval (kvss ! i)), []) (kvss ! i) None"
    if "i < length kvss" for i
    using that block_with_repr [OF assms(4) _ assms(1)] assms(5) in_order_part [OF assms(2)] assms(3)
    by (meson merges_def nth_mem)
  then have "block_repr valid cmp (map (\<lambda>kvs. (NewIterator cmp (block_with interval kvs), [])) kvss ! i) (kvss ! i) None"
    if "i < length (map (\<lambda>kvs. (NewIterator cmp (block_with interval kvs), [])) kvss)" for i
    using that by simp
  from merge_blocks.NewMergingIterator_repr [where cache = cache, OF assms(1-3) length_map this] show ?thesis .
qed

text \<open>C25: the iterators of blocks, merged: whatever way a client walks over the merged iterator, in both
  directions, changing direction and seeking, it sees at every step what a cursor over the merged
  list of entries shows, every move returns, and the status stays OK. Any number of blocks may be
  merged, none and one included; each has entries of its own, of less than 4 GB.\<close>

theorem merge_refines_cursor:
  assumes "key_order valid (Compare cmp)" and "in_order valid cmp zs" and "merges kvss zs"
    and "1 \<le> interval" and "\<forall>kvs \<in> set kvss. length (bk_data (block_with interval kvs)) < 2 ^ 32"
    and "cache_ok cache coherent al e"
    and "cursor_walk (\<lambda>k t. Compare cmp k t < 0) zs moves None = Some obs" and "\<forall>t. ToKey t \<in> set moves \<longrightarrow> valid t"
  shows "\<exists>j e'. iterator_walk (merged_iterator cmp (block_iterator (run_cleanup cache))) moves
      (NewMergingIterator (block_iterator (run_cleanup cache))
        (map (\<lambda>kvs. (NewIterator cmp (block_with interval kvs), [])) kvss)) e = Some (obs, j, e') \<and>
    io_status (merged_iterator cmp (block_iterator (run_cleanup cache))) j = status_OK"
proof -
  note repr = merged_blocks_repr [where cache = cache, OF assms(1-5)]
  have "True \<and> cache_ok cache coherent al e" using assms(6) by simp
  from merge_blocks.merged.walk_cursor [OF repr this assms(7)] show ?thesis
    using assms(8) merge_blocks.merged.status by blast
qed

lemma merge_refines_cursor_witness:
  "\<exists>j e'. iterator_walk (merged_iterator BytewiseComparator (block_iterator (run_cleanup None)))
      [ToLast, ToPrev, ToPrev, ToNext, ToKey [2], ToPrev, ToPrev]
      (NewMergingIterator (block_iterator (run_cleanup (None :: (unit, nat) Cache option)))
        (map (\<lambda>kvs. (NewIterator BytewiseComparator (block_with 16 kvs), []))
          [[([1], [10]), ([3], [30])], [([2], [20])]])) (0 :: nat) =
      Some ([Some ([3], [30]), Some ([2], [20]), Some ([1], [10]), Some ([2], [20]), Some ([2], [20]), Some ([1], [10]), None],
        j, e')"
proof -
  let ?kvss = "[[([1], [10]), ([3], [30])], [([2], [20])]] :: entries list"
  let ?zs = "[([1], [10]), ([2], [20]), ([3], [30])] :: entries"
  have "in_order any BytewiseComparator ?zs" by (simp add: in_order_def ascending_def any_def Compare_bytewise)
  moreover have "merges ?kvss ?zs" by (simp add: merges_def part_of_def less_Suc_eq) auto
  moreover have "length (bk_data (block_with 16 [([1], [10]), ([3], [30])])) < 100" by code_simp
  moreover have "length (bk_data (block_with 16 [([2], [20])])) < 100" by code_simp
  moreover have "cursor_walk (\<lambda>k t. Compare BytewiseComparator k t < 0) ?zs
      [ToLast, ToPrev, ToPrev, ToNext, ToKey [2], ToPrev, ToPrev] None =
    Some [Some ([3], [30]), Some ([2], [20]), Some ([1], [10]), Some ([2], [20]), Some ([2], [20]), Some ([1], [10]), None]"
    by (simp add: pos_of_def last_pos_def prev_pos_def seek_pos_def Compare_bytewise)
  ultimately show ?thesis
    using merge_refines_cursor [OF bytewise.user.key_order_axioms, of ?zs ?kvss 16 "None :: (unit, nat) Cache option" "\<lambda>_ _. True" "\<lambda>_ _. True" 0]
    by (fastforce simp: cache_ok_def any_def)
qed

end
