(* ===== verification/Ldb_Db_Iter.thy ===== *)
theory Ldb_Db_Iter
  imports Ldb_Iterator Ldb_Dbformat Ldb_Skiplist
begin

text \<open>
  The iterator over user keys, \<^verbatim>\<open>db/db_iter.cc\<close> under \<^verbatim>\<open>src/ios/Pods/leveldb-library/\<close>: of the internal
  entries of a user key, at most the newest one up to a sequence number shows. The one operation of
  the database it calls is in a record. The byte counter stays far below the limits of \<^verbatim>\<open>ssize_t\<close> and is
  an integer; how much memory \<open>saved_value\<close> keeps is left out. \<open>skip\<close> is always \<open>saved_key\<close>.
\<close>

definition kReadBytesPeriod :: nat where
  "kReadBytesPeriod = 1048576"

record 'e DBImpl =
  RecordReadSample :: "slice \<Rightarrow> 'e \<Rightarrow> 'e"

datatype DBIterDirection = di_kForward | di_kReverse

record 'i DBIter =
  di_iter :: 'i
  di_sequence :: SequenceNumber
  di_own_status :: Status
  di_saved_key :: slice
  di_saved_value :: slice
  di_direction :: DBIterDirection
  di_valid :: bool
  di_rnd :: u32
  di_bytes_counter :: int

definition RandomPeriod :: "u32 \<Rightarrow> int \<times> u32" where
  "RandomPeriod rnd = (let (n, rnd) = Uniform (2 * of_nat kReadBytesPeriod) rnd in (uint n, rnd))"

definition mk_DBIter :: "'i \<Rightarrow> SequenceNumber \<Rightarrow> u32 \<Rightarrow> 'i DBIter" where
  "mk_DBIter iter s seed =
     (let (bytes_counter, rnd) = RandomPeriod (mk_Random seed) in
      \<lparr>di_iter = iter, di_sequence = s, di_own_status = status_OK, di_saved_key = [], di_saved_value = [],
       di_direction = di_kForward, di_valid = False, di_rnd = rnd, di_bytes_counter = bytes_counter\<rparr>)"

definition NewDBIterator :: "'i \<Rightarrow> SequenceNumber \<Rightarrow> u32 \<Rightarrow> 'i DBIter" where
  "NewDBIterator internal_iter s seed = mk_DBIter internal_iter s seed"

definition di_key :: "('i, 'e) Iterator \<Rightarrow> 'i DBIter \<Rightarrow> slice" where
  "di_key ops d =
     (if di_direction d = di_kForward then ExtractUserKey (io_key ops (di_iter d)) else di_saved_key d)"

definition di_value :: "('i, 'e) Iterator \<Rightarrow> 'i DBIter \<Rightarrow> slice" where
  "di_value ops d = (if di_direction d = di_kForward then io_value ops (di_iter d) else di_saved_value d)"

definition di_status :: "('i, 'e) Iterator \<Rightarrow> 'i DBIter \<Rightarrow> Status" where
  "di_status ops d = (if ok (di_own_status d) then io_status ops (di_iter d) else di_own_status d)"

definition ClearSavedValue :: "'i DBIter \<Rightarrow> 'i DBIter" where
  "ClearSavedValue d = d\<lparr>di_saved_value := []\<rparr>"

text \<open>A sample is recorded for every period of bytes read.\<close>

partial_function (option) sample_loop ::
  "'e DBImpl \<Rightarrow> slice \<Rightarrow> int \<Rightarrow> u32 \<Rightarrow> 'e \<Rightarrow> (int \<times> u32 \<times> 'e) option" where
  "sample_loop db k bytes_counter rnd e =
     (if bytes_counter < 0 then
        (let (period, rnd) = RandomPeriod rnd in
         sample_loop db k (bytes_counter + period) rnd (RecordReadSample db k e))
      else Some (bytes_counter, rnd, e))"

definition ParseKey ::
  "'e DBImpl \<Rightarrow> ('i, 'e) Iterator \<Rightarrow> 'i DBIter \<Rightarrow> 'e \<Rightarrow> (ParsedInternalKey option \<times> 'i DBIter \<times> 'e) option"
where
  "ParseKey db ops d e =
     (let k = io_key ops (di_iter d);
          n = int (length k + length (io_value ops (di_iter d)))
      in do { (bytes_counter, rnd, e) \<leftarrow> sample_loop db k (di_bytes_counter d - n) (di_rnd d) e;
              let d = d\<lparr>di_bytes_counter := bytes_counter, di_rnd := rnd\<rparr>;
              (case ParseInternalKey k of
                 None \<Rightarrow>
                   Some (None, d\<lparr>di_own_status := Corruption (c_string ''corrupted internal key in DBIter'') []\<rparr>, e)
               | Some ikey \<Rightarrow> Some (Some ikey, d, e)) })"

text \<open>Moving the internal iterator.\<close>

definition move_iter :: "('i \<Rightarrow> 'e \<Rightarrow> ('i \<times> 'e) option) \<Rightarrow> 'i DBIter \<Rightarrow> 'e \<Rightarrow> ('i DBIter \<times> 'e) option" where
  "move_iter move d e = do { (i, e) \<leftarrow> move (di_iter d) e; Some (d\<lparr>di_iter := i\<rparr>, e) }"

text \<open>The body of the loop of \<^verbatim>\<open>FindNextUserEntry\<close>: whether the entry is the one to yield, and whether to
  skip from then on.\<close>

definition next_entry ::
  "Comparator \<Rightarrow> ParsedInternalKey option \<Rightarrow> bool \<Rightarrow> 'i DBIter \<Rightarrow> bool \<times> bool \<times> 'i DBIter" where
  "next_entry cmp parsed skipping d =
     (case parsed of
        None \<Rightarrow> (False, skipping, d)
      | Some ikey \<Rightarrow>
          if pk_sequence ikey \<le> di_sequence d then
            (if pk_type ikey = kTypeDeletion then (False, True, d\<lparr>di_saved_key := pk_user_key ikey\<rparr>)
             else if pk_type ikey = kTypeValue then
               (\<not> (skipping \<and> Compare cmp (pk_user_key ikey) (di_saved_key d) \<le> 0), skipping, d)
             else (False, skipping, d))
          else (False, skipping, d))"

partial_function (option) FindNextUserEntry ::
  "'e DBImpl \<Rightarrow> Comparator \<Rightarrow> ('i, 'e) Iterator \<Rightarrow> bool \<Rightarrow> 'i DBIter \<Rightarrow> 'e \<Rightarrow> ('i DBIter \<times> 'e) option"
where
  "FindNextUserEntry db cmp ops skipping d e =
     do { (parsed, d, e) \<leftarrow> ParseKey db ops d e;
          let (found, skipping, d) = next_entry cmp parsed skipping d;
          (if found then Some (d\<lparr>di_valid := True, di_saved_key := []\<rparr>, e)
           else
             do { (d, e) \<leftarrow> move_iter (io_Next ops) d e;
                  (if io_Valid ops (di_iter d) then FindNextUserEntry db cmp ops skipping d e
                   else Some (d\<lparr>di_saved_key := [], di_valid := False\<rparr>, e)) }) }"

text \<open>The body of the loop of \<^verbatim>\<open>FindPrevUserEntry\<close>: whether the loop ends, and the type of the last
  acceptable entry.\<close>

definition prev_entry ::
  "Comparator \<Rightarrow> ('i, 'e) Iterator \<Rightarrow> ParsedInternalKey option \<Rightarrow> ValueType \<Rightarrow> 'i DBIter \<Rightarrow>
   bool \<times> ValueType \<times> 'i DBIter" where
  "prev_entry cmp ops parsed value_type d =
     (case parsed of
        None \<Rightarrow> (False, value_type, d)
      | Some ikey \<Rightarrow>
          if pk_sequence ikey \<le> di_sequence d then
            (if value_type \<noteq> kTypeDeletion \<and> Compare cmp (pk_user_key ikey) (di_saved_key d) < 0
             then (True, value_type, d)
             else if pk_type ikey = kTypeDeletion
             then (False, pk_type ikey, ClearSavedValue (d\<lparr>di_saved_key := []\<rparr>))
             else (False, pk_type ikey,
                   d\<lparr>di_saved_key := ExtractUserKey (io_key ops (di_iter d)),
                     di_saved_value := io_value ops (di_iter d)\<rparr>))
          else (False, value_type, d))"

partial_function (option) prev_loop ::
  "'e DBImpl \<Rightarrow> Comparator \<Rightarrow> ('i, 'e) Iterator \<Rightarrow> ValueType \<Rightarrow> 'i DBIter \<Rightarrow> 'e \<Rightarrow>
   (ValueType \<times> 'i DBIter \<times> 'e) option"
where
  "prev_loop db cmp ops value_type d e =
     (if io_Valid ops (di_iter d) then
        do { (parsed, d, e) \<leftarrow> ParseKey db ops d e;
             let (stop, value_type, d) = prev_entry cmp ops parsed value_type d;
             (if stop then Some (value_type, d, e)
              else
                do { (d, e) \<leftarrow> move_iter (io_Prev ops) d e;
                     prev_loop db cmp ops value_type d e }) }
      else Some (value_type, d, e))"

definition FindPrevUserEntry where
  "FindPrevUserEntry db cmp ops d e =
     do { (value_type, d, e) \<leftarrow> prev_loop db cmp ops kTypeDeletion d e;
          Some
            (if value_type = kTypeDeletion
             then ClearSavedValue (d\<lparr>di_valid := False, di_saved_key := [], di_direction := di_kForward\<rparr>)
             else d\<lparr>di_valid := True\<rparr>, e) }"

definition di_Next where
  "di_Next db cmp ops d e =
     (if di_direction d = di_kReverse then
        do { let d = d\<lparr>di_direction := di_kForward\<rparr>;
             (d, e) \<leftarrow> move_iter (if \<not> io_Valid ops (di_iter d) then io_SeekToFirst ops else io_Next ops) d e;
             (if \<not> io_Valid ops (di_iter d) then Some (d\<lparr>di_valid := False, di_saved_key := []\<rparr>, e)
              else FindNextUserEntry db cmp ops True d e) }
      else
        FindNextUserEntry db cmp ops True
          (d\<lparr>di_saved_key := ExtractUserKey (io_key ops (di_iter d))\<rparr>) e)"

text \<open>The loop of \<^verbatim>\<open>Prev\<close> when it changes direction; the result tells whether a smaller key was found.\<close>

partial_function (option) before_key_loop ::
  "Comparator \<Rightarrow> ('i, 'e) Iterator \<Rightarrow> 'i DBIter \<Rightarrow> 'e \<Rightarrow> (bool \<times> 'i DBIter \<times> 'e) option" where
  "before_key_loop cmp ops d e =
     do { (d, e) \<leftarrow> move_iter (io_Prev ops) d e;
          (if \<not> io_Valid ops (di_iter d) then
             Some (False, ClearSavedValue (d\<lparr>di_valid := False, di_saved_key := []\<rparr>), e)
           else if Compare cmp (ExtractUserKey (io_key ops (di_iter d))) (di_saved_key d) < 0
           then Some (True, d, e)
           else before_key_loop cmp ops d e) }"

definition di_Prev where
  "di_Prev db cmp ops d e =
     (if di_direction d = di_kForward then
        do { (smaller, d, e) \<leftarrow>
               before_key_loop cmp ops (d\<lparr>di_saved_key := ExtractUserKey (io_key ops (di_iter d))\<rparr>) e;
             (if smaller then FindPrevUserEntry db cmp ops (d\<lparr>di_direction := di_kReverse\<rparr>) e
              else Some (d, e)) }
      else FindPrevUserEntry db cmp ops d e)"

definition found_or_invalid where
  "found_or_invalid db cmp ops d e =
     (if io_Valid ops (di_iter d) then FindNextUserEntry db cmp ops False d e
      else Some (d\<lparr>di_valid := False\<rparr>, e))"

definition di_Seek where
  "di_Seek db cmp ops target d e =
     (let d = ClearSavedValue (d\<lparr>di_direction := di_kForward\<rparr>);
          d = d\<lparr>di_saved_key := AppendInternalKey []
                \<lparr>pk_user_key = target, pk_sequence = di_sequence d, pk_type = kValueTypeForSeek\<rparr>\<rparr>
      in do { (d, e) \<leftarrow> move_iter (io_Seek ops (di_saved_key d)) d e;
              found_or_invalid db cmp ops d e })"

definition di_SeekToFirst where
  "di_SeekToFirst db cmp ops d e =
     do { (d, e) \<leftarrow> move_iter (io_SeekToFirst ops) (ClearSavedValue (d\<lparr>di_direction := di_kForward\<rparr>)) e;
          found_or_invalid db cmp ops d e }"

definition di_SeekToLast where
  "di_SeekToLast db cmp ops d e =
     do { (d, e) \<leftarrow> move_iter (io_SeekToLast ops) (ClearSavedValue (d\<lparr>di_direction := di_kReverse\<rparr>)) e;
          FindPrevUserEntry db cmp ops d e }"

definition db_iterator :: "'e DBImpl \<Rightarrow> Comparator \<Rightarrow> ('i, 'e) Iterator \<Rightarrow> ('i DBIter, 'e) Iterator" where
  "db_iterator db cmp ops =
     \<lparr>io_Valid = di_valid, io_SeekToFirst = di_SeekToFirst db cmp ops, io_SeekToLast = di_SeekToLast db cmp ops,
      io_Seek = di_Seek db cmp ops, io_Next = di_Next db cmp ops, io_Prev = di_Prev db cmp ops,
      io_key = di_key ops, io_value = di_value ops, io_status = di_status ops,
      io_Destroy = (\<lambda>d. io_Destroy ops (di_iter d))\<rparr>"

end
