(* ===== verification/Ldb_Random_Correct.thy ===== *)
theory Ldb_Random_Correct
  imports Ldb_Db_Iter Ldb_Coding_Correct
begin

unbundle bit_operations_syntax

text \<open>
  LevelDB's random numbers: a step multiplies by 16807 modulo \<open>2\<^sup>3\<^sup>1 - 1\<close>, a seed never becomes
  zero, and of two draws below \<open>2\<^sup>2\<^sup>1\<close> that follow each other one is positive. The loop by which
  iterators record samples therefore ends.
\<close>

subsection \<open>The random numbers\<close>

definition good_seed :: "u32 \<Rightarrow> bool" where
  "good_seed s \<longleftrightarrow> 0 < unat s \<and> unat s < 2147483647"

lemma mk_Random_good: "good_seed (mk_Random s)"
proof -
  have "unat (s AND 0x7fffffff) \<le> unat (0x7fffffff :: u32)" by (simp only: word_and_le1 word_le_nat_alt [symmetric])
  then have "unat (s AND 0x7fffffff) \<le> 2147483647" by simp
  moreover have "unat (s AND 0x7fffffff) \<noteq> 0 \<and> unat (s AND 0x7fffffff) \<noteq> 2147483647"
    if "s AND 0x7fffffff \<noteq> 0" "s AND 0x7fffffff \<noteq> 2147483647"
    using that by (simp add: word_unat_eq_iff)
  ultimately show ?thesis by (auto simp: mk_Random_def Let_def good_seed_def)
qed

text \<open>Reducing modulo \<open>2\<^sup>3\<^sup>1 - 1\<close> by adding the two parts.\<close>

lemma mod_by_parts:
  fixes x :: nat
  assumes "x mod 2147483647 \<noteq> 0" "x div 2 ^ 31 < 2147483647"
  shows "x mod 2147483647 = (if x div 2 ^ 31 + x mod 2 ^ 31 > 2147483647
    then x div 2 ^ 31 + x mod 2 ^ 31 - 2147483647 else x div 2 ^ 31 + x mod 2 ^ 31)"
proof -
  let ?q = "x div 2 ^ 31" and ?r = "x mod 2 ^ 31"
  have "x = ?q * 2 ^ 31 + ?r" by simp
  then have "x = (?q + ?r) + 2147483647 * ?q" by simp
  then have m: "x mod 2147483647 = (?q + ?r) mod 2147483647" by (metis mod_mult_self2)
  have r: "?r < 2 ^ 31" by simp
  consider "?q + ?r < 2147483647" | "?q + ?r = 2147483647" | "2147483647 < ?q + ?r" by linarith
  then show ?thesis
  proof cases
    case 2
    then have "(?q + ?r) mod 2147483647 = 0" by (metis mod_self)
    then show ?thesis using m assms(1) by simp
  next
    case 3
    have small: "q + r - 2147483647 < 2147483647" if "q < 2147483647" "r < 2147483648" for q r :: nat
      using that by linarith
    have "?q + ?r - 2147483647 < 2147483647" using small [OF assms(2)] r by simp
    then have "(?q + ?r) mod 2147483647 = ?q + ?r - 2147483647"
      using 3 by (subst le_mod_geq) (rule less_imp_le, assumption, rule mod_less)
    then show ?thesis using m 3 by simp
  qed (use m in simp)
qed

lemma product_not_0: "good_seed s \<Longrightarrow> (16807 * unat s) mod 2147483647 \<noteq> 0"
proof
  assume s: "good_seed s" and "(16807 * unat s) mod 2147483647 = 0"
  then have "2147483647 dvd 16807 * unat s" by (simp add: dvd_eq_mod_eq_0)
  moreover have "coprime (2147483647 :: nat) (7 ^ 5)"
    by (rule coprime_power_right_iff [THEN iffD2]) (simp add: coprime_iff_gcd_eq_1 gcd_red_nat [of 2147483647] gcd_red_nat [of 7])
  then have "coprime (2147483647 :: nat) 16807" by simp
  ultimately have "2147483647 dvd unat s" by (simp only: coprime_dvd_mult_right_iff)
  then show False using s by (auto simp: good_seed_def dest: dvd_imp_le)
qed

lemma Random_Next_exact:
  assumes "good_seed s"
  shows "unat (Random_Next s) = (16807 * unat s) mod 2147483647"
proof -
  let ?p = "ucast s * 16807 :: u64" and ?x = "16807 * unat s"
  have x: "?x < 16807 * 2147483647" using assms by (simp add: good_seed_def)
  have p: "unat ?p = ?x"
    using x by (simp add: unat_word_ariths unat_ucast_up mult.commute)
  have q: "?x div 2 ^ 31 < 16807" using x by (simp add: div_less_iff_less_mult)
  have "?p AND ucast (2147483647 :: u32) = take_bit 31 ?p"
    by (simp add: take_bit_eq_mask mask_eq_exp_minus_1)
  then have "unat (?p AND ucast (2147483647 :: u32)) = take_bit 31 (unat ?p)" by (simp only: unsigned_take_bit_eq)
  then have "unat (?p AND ucast (2147483647 :: u32)) = ?x mod 2 ^ 31" by (simp only: p take_bit_eq_mod)
  moreover have "unat (drop_bit 31 ?p) = ?x div 2 ^ 31" using p by (simp add: unat_drop)
  moreover have r: "?x mod 2 ^ 31 < 2 ^ 31" by simp
  ultimately have sum: "unat (drop_bit 31 ?p + (?p AND ucast (2147483647 :: u32))) = ?x div 2 ^ 31 + ?x mod 2 ^ 31"
    using q by (simp add: unat_add_small)
  let ?y = "ucast (drop_bit 31 ?p + (?p AND ucast (2147483647 :: u32))) :: u32"
  have y: "unat ?y = ?x div 2 ^ 31 + ?x mod 2 ^ 31"
    using q r sum by (simp only: unsigned_ucast_eq take_bit_eq_mod) simp
  have "Random_Next s = (if ?y > 2147483647 then ?y - 2147483647 else ?y)"
    by (simp only: Random_Next_def Let_def)
  then show ?thesis
    using mod_by_parts [OF product_not_0 [OF assms]] q y by (auto simp: word_less_nat_alt unat_sub word_le_nat_alt)
qed

lemma Random_Next_good: "good_seed s \<Longrightarrow> good_seed (Random_Next s)"
  using Random_Next_exact [of s] product_not_0 [of s] by (simp add: good_seed_def)

lemma two_draws:
  assumes "good_seed s" "unat (Random_Next s) mod 2097152 = 0"
  shows "unat (Random_Next (Random_Next s)) mod 2097152 \<noteq> 0"
proof -
  have good: "good_seed (Random_Next s)" by (rule Random_Next_good [OF assms(1)])
  obtain a where a: "unat (Random_Next s) = 2097152 * a" using assms(2) by (auto simp: dvd_def)
  let ?b1 = "16807 * a div 1024" and ?b0 = "16807 * a mod 1024"
  have "0 < a" "a < 1024" using good a by (auto simp: good_seed_def)
  then have b1: "16 \<le> ?b1" "?b1 < 16807" by (simp_all add: div_less_iff_less_mult)
  have split: "2097152 * x = (q + 2097152 * r) + 2147483647 * q" if "x = q * 1024 + r" for x q r :: nat
    using that by simp
  have "16807 * a = ?b1 * 1024 + ?b0" by simp
  from split [OF this] have "16807 * (2097152 * a) = (?b1 + 2097152 * ?b0) + 2147483647 * ?b1"
    by (simp only: mult.left_commute)
  then have "(16807 * (2097152 * a)) mod 2147483647 = (?b1 + 2097152 * ?b0) mod 2147483647" by (metis mod_mult_self2)
  moreover have "?b0 < 1024" by simp
  then have "?b1 + 2097152 * ?b0 < 2147483647" using b1(2) by simp
  ultimately have "unat (Random_Next (Random_Next s)) = ?b1 + 2097152 * ?b0"
    using Random_Next_exact [OF good] by (simp only: a mod_less)
  moreover have "(?b1 + 2097152 * ?b0) mod 2097152 = ?b1" using b1(2) by simp
  ultimately show ?thesis using b1(1) by simp
qed

lemma RandomPeriod_eq: "RandomPeriod s = (int (unat (Random_Next s) mod 2097152), Random_Next s)"
proof -
  have "(2 * of_nat kReadBytesPeriod :: u32) = 2097152" by (simp add: kReadBytesPeriod_def)
  then have "RandomPeriod s = (uint (Random_Next s mod 2097152), Random_Next s)"
    by (simp only: RandomPeriod_def Uniform_def Let_def prod.case)
  moreover have "unat (Random_Next s mod 2097152) = unat (Random_Next s) mod 2097152" by (simp add: unat_mod)
  ultimately show ?thesis by (simp only: uint_nat)
qed

text \<open>Of two draws one is not zero, so the loop that records samples ends.\<close>

lemma sample_loop_ends:
  assumes sample: "\<And>k e. envok e \<Longrightarrow> envok (RecordReadSample db k e)"
  shows "good_seed rnd \<Longrightarrow> envok e \<Longrightarrow>
    \<exists>c' rnd' e'. sample_loop db k c rnd e = Some (c', rnd', e') \<and> 0 \<le> c' \<and> good_seed rnd' \<and> envok e'"
proof (induction "nat (- c)" arbitrary: c rnd e rule: less_induct)
  case less
  let ?n = "int (unat (Random_Next rnd) mod 2097152)"
  have good: "good_seed (Random_Next rnd)" by (rule Random_Next_good [OF less.prems(1)])
  have step: "sample_loop db k c rnd e =
      sample_loop db k (c + int (unat (Random_Next rnd) mod 2097152)) (Random_Next rnd) (RecordReadSample db k e)"
    if "c < 0" for c rnd e using that by (subst sample_loop.simps) (simp add: RandomPeriod_eq)
  show ?case
  proof (cases "c < 0")
    case False
    then show ?thesis using less.prems by (subst sample_loop.simps) auto
  next
    case True
    show ?thesis
    proof (cases "?n = 0")
      case False
      then show ?thesis
        using less.hyps [of "c + ?n" "Random_Next rnd"] True good sample [OF less.prems(2)] unfolding step [OF True] by simp
    next
      case True
      let ?m = "int (unat (Random_Next (Random_Next rnd)) mod 2097152)"
      have "0 < ?m" using two_draws [OF less.prems(1)] True by simp
      then show ?thesis
        using less.hyps [of "c + ?m" "Random_Next (Random_Next rnd)"] \<open>c < 0\<close> Random_Next_good [OF good]
          sample [OF sample [OF less.prems(2)]] True
        unfolding step [OF \<open>c < 0\<close>] by (simp add: step)
    qed
  qed
qed

subsection \<open>Property\<close>

lemma good_seeds: "good_seed ((Random_Next ^^ n) (mk_Random seed))"
  by (induction n) (simp_all add: mk_Random_good Random_Next_good)

text \<open>C39: the loop by which an iterator records samples of what it reads always ends, however many bytes
  were read and whatever number the random generator has come to, with a counter that is not
  negative; the generator, started with any seed, is the multiplicative one it is meant to be.\<close>

theorem sampling_ends:
  "(\<exists>c' rnd' e'. sample_loop db k c ((Random_Next ^^ n) (mk_Random seed)) e = Some (c', rnd', e') \<and> 0 \<le> c') \<and>
   unat ((Random_Next ^^ Suc n) (mk_Random seed)) = 16807 * unat ((Random_Next ^^ n) (mk_Random seed)) mod (2 ^ 31 - 1)"
  using sample_loop_ends [OF _ good_seeds, of "\<lambda>_. True" db e k c n seed] Random_Next_exact [OF good_seeds, of n seed]
  by auto

end
