(* ===== verification/Ldb_User_View.thy ===== *)
theory Ldb_User_View
  imports Ldb_Merger_Correct
begin

text \<open>
  What a snapshot shows of a list of internal entries: the abstract view that the iterator over user
  keys implements, and how positions in the list and in the view correspond.
\<close>

subsection \<open>The view of a snapshot\<close>

text \<open>Of the internal entries, in order, the newest one of a user key that is visible at a sequence number
  shows if it is a value.\<close>

definition user_key_of :: "slice \<times> slice \<Rightarrow> slice" where
  "user_key_of x = ExtractUserKey (fst x)"

definition visible :: "SequenceNumber \<Rightarrow> slice \<times> slice \<Rightarrow> bool" where
  "visible s x \<longleftrightarrow> (case ParseInternalKey (fst x) of None \<Rightarrow> False | Some k \<Rightarrow> pk_sequence k \<le> s)"

definition is_value :: "slice \<times> slice \<Rightarrow> bool" where
  "is_value x \<longleftrightarrow> (case ParseInternalKey (fst x) of None \<Rightarrow> False | Some k \<Rightarrow> pk_type k = kTypeValue)"

definition shown :: "Comparator \<Rightarrow> SequenceNumber \<Rightarrow> entries \<Rightarrow> nat \<Rightarrow> bool" where
  "shown cmp s xs i \<longleftrightarrow> i < length xs \<and> visible s (xs ! i) \<and> is_value (xs ! i) \<and>
     (\<forall>j < i. visible s (xs ! j) \<longrightarrow> Compare cmp (user_key_of (xs ! j)) (user_key_of (xs ! i)) \<noteq> 0)"

definition user_view :: "Comparator \<Rightarrow> SequenceNumber \<Rightarrow> entries \<Rightarrow> entries" where
  "user_view cmp s xs =
     map (\<lambda>i. (user_key_of (xs ! i), snd (xs ! i))) (filter (shown cmp s xs) [0..<length xs])"

abbreviation internal_valid :: "(slice \<Rightarrow> bool) \<Rightarrow> slice \<Rightarrow> bool" where
  "internal_valid valid k \<equiv> 8 \<le> length k \<and> valid (ExtractUserKey k)"

definition internal_entries :: "(slice \<Rightarrow> bool) \<Rightarrow> Comparator \<Rightarrow> entries \<Rightarrow> bool" where
  "internal_entries valid cmp xs \<longleftrightarrow> in_order (internal_valid valid) (InternalKeyComparator cmp) xs \<and>
     (\<forall>(k, v) \<in> set xs. ParseInternalKey k \<noteq> None)"

text \<open>How many of the numbers before another have a property.\<close>

definition rank :: "(nat \<Rightarrow> bool) \<Rightarrow> nat \<Rightarrow> nat" where
  "rank P i = length (filter P [0..<i])"

lemma rank_0 [simp]: "rank P 0 = 0"
  by (simp add: rank_def)

lemma rank_Suc: "rank P (Suc i) = rank P i + (if P i then 1 else 0)"
  by (simp add: rank_def)

lemma rank_skip: "a \<le> b \<Longrightarrow> (\<And>l. a \<le> l \<Longrightarrow> l < b \<Longrightarrow> \<not> P l) \<Longrightarrow> rank P b = rank P a"
  by (induction b rule: dec_induct) (simp_all add: rank_Suc)

lemma rank_mono: "a \<le> b \<Longrightarrow> rank P a \<le> rank P b"
  by (induction b rule: dec_induct) (simp_all add: rank_Suc)

lemma upt_split: "i \<le> j \<Longrightarrow> [0..<j] = [0..<i] @ [i..<j]"
  by (metis le0 le_add_diff_inverse upt_add_eq_append)

lemma rank_split: "i < n \<Longrightarrow> P i \<Longrightarrow> filter P [0..<n] = filter P [0..<i] @ i # filter P [Suc i..<n]"
proof -
  assume "i < n" "P i"
  then have "filter P [i..<n] = i # filter P [Suc i..<n]" by (simp add: upt_conv_Cons)
  moreover have "filter P [0..<n] = filter P [0..<i] @ filter P [i..<n]"
    using \<open>i < n\<close> by (subst upt_split [of i n]) simp_all
  ultimately show ?thesis by simp
qed

lemma nth_rank: "i < n \<Longrightarrow> P i \<Longrightarrow> filter P [0..<n] ! rank P i = i"
  by (simp add: rank_split rank_def)

lemma rank_less: "i < n \<Longrightarrow> P i \<Longrightarrow> rank P i < rank P n"
  using rank_mono [of "Suc i" n P] by (simp add: rank_Suc)

lemma rank_takeWhile:
  assumes "\<And>l. l < n \<Longrightarrow> P l \<Longrightarrow> Q l" "\<And>l. n \<le> l \<Longrightarrow> l < m \<Longrightarrow> P l \<Longrightarrow> \<not> Q l" "n \<le> m"
  shows "length (takeWhile Q (filter P [0..<m])) = rank P n"
proof -
  have "filter P [0..<m] = filter P [0..<n] @ filter P [n..<m]"
    by (simp add: upt_split [OF assms(3)])
  moreover have "takeWhile Q (filter P [0..<n] @ filter P [n..<m]) = filter P [0..<n] @ takeWhile Q (filter P [n..<m])"
    using assms(1) by (intro takeWhile_append2) auto
  moreover have "takeWhile Q (filter P [n..<m]) = []" using assms(2) by (intro takeWhile_none) auto
  ultimately show ?thesis by (simp add: rank_def)
qed

lemma length_user_view: "length (user_view cmp s xs) = rank (shown cmp s xs) (length xs)"
  by (simp add: user_view_def rank_def)

lemma nth_user_view:
  assumes "shown cmp s xs i"
  shows "rank (shown cmp s xs) i < length (user_view cmp s xs)"
    "user_view cmp s xs ! rank (shown cmp s xs) i = (user_key_of (xs ! i), snd (xs ! i))"
proof -
  have i: "i < length xs" using assms by (simp add: shown_def)
  show *: "rank (shown cmp s xs) i < length (user_view cmp s xs)"
    unfolding length_user_view using i assms by (rule rank_less)
  show "user_view cmp s xs ! rank (shown cmp s xs) i = (user_key_of (xs ! i), snd (xs ! i))"
    using * i assms unfolding user_view_def by (simp add: nth_rank)
qed

lemma pos_of_shown:
  assumes "shown cmp s xs i" "b \<le> i" "\<And>l. b \<le> l \<Longrightarrow> l < i \<Longrightarrow> \<not> shown cmp s xs l"
  shows "pos_of (user_view cmp s xs) (rank (shown cmp s xs) b) = Some (rank (shown cmp s xs) i)"
  using rank_skip [of b i "shown cmp s xs"] assms nth_user_view(1) [OF assms(1)] by (simp add: pos_of_def)

lemma pos_of_not_shown:
  assumes "\<And>l. b \<le> l \<Longrightarrow> \<not> shown cmp s xs l"
  shows "pos_of (user_view cmp s xs) (rank (shown cmp s xs) b) = None"
proof -
  have "rank (shown cmp s xs) (length xs) \<le> rank (shown cmp s xs) b"
    using rank_skip [of b "length xs" "shown cmp s xs"] rank_mono [of "length xs" b "shown cmp s xs"] assms
    by (cases "b \<le> length xs") auto
  then show ?thesis by (simp add: pos_of_def length_user_view)
qed

subsection \<open>Internal entries\<close>

lemma ParseInternalKey_parts:
  assumes "ParseInternalKey k = Some p"
  shows "pk_user_key p = ExtractUserKey k" "pk_type p = kTypeDeletion \<or> pk_type p = kTypeValue" "8 \<le> length k"
    "pk_sequence p = drop_bit 8 (DecodeFixed64 (drop (length k - 8) k))"
    "pk_type p = ucast (DecodeFixed64 (drop (length k - 8) k) AND 0xff)"
proof -
  have "ucast (DecodeFixed64 (drop (length k - 8) k) AND 0xff) = (0 :: byte) \<or> ucast (DecodeFixed64 (drop (length k - 8) k) AND 0xff) = (1 :: byte)"
    if "ucast (DecodeFixed64 (drop (length k - 8) k) AND 0xff) \<le> (1 :: byte)"
    using that by (auto simp: word_le_nat_alt word_unat_eq_iff)
  then show "pk_user_key p = ExtractUserKey k" "pk_type p = kTypeDeletion \<or> pk_type p = kTypeValue" "8 \<le> length k"
    "pk_sequence p = drop_bit 8 (DecodeFixed64 (drop (length k - 8) k))"
    "pk_type p = ucast (DecodeFixed64 (drop (length k - 8) k) AND 0xff)"
    using assms by (auto simp: ParseInternalKey_def Let_def ExtractUserKey_def kTypeValue_def kTypeDeletion_def split: if_splits)
qed

lemma internal_entries_nth:
  assumes "internal_entries valid cmp xs" "i < length xs"
  obtains p where "ParseInternalKey (fst (xs ! i)) = Some p" "pk_user_key p = user_key_of (xs ! i)"
    "valid (user_key_of (xs ! i))" "8 \<le> length (fst (xs ! i))"
    "visible s (xs ! i) \<longleftrightarrow> pk_sequence p \<le> s" "is_value (xs ! i) \<longleftrightarrow> pk_type p = kTypeValue"
    "\<not> is_value (xs ! i) \<longleftrightarrow> pk_type p = kTypeDeletion"
proof -
  have x: "xs ! i \<in> set xs" using assms(2) by simp
  then obtain p where p: "ParseInternalKey (fst (xs ! i)) = Some p"
    using assms(1) by (fastforce simp: internal_entries_def)
  have "internal_valid valid (fst (xs ! i))" using assms(1) x by (auto simp: internal_entries_def in_order_def split_beta)
  moreover have "kTypeDeletion \<noteq> kTypeValue" by (simp add: kTypeDeletion_def kTypeValue_def)
  ultimately show ?thesis
    using that [of p] p ParseInternalKey_parts [OF p] by (auto simp: visible_def is_value_def user_key_of_def)
qed

lemma user_keys_ascend:
  assumes "internal_entries valid cmp xs" "key_order valid (Compare cmp)" "i \<le> j" "j < length xs"
  shows "Compare cmp (user_key_of (xs ! i)) (user_key_of (xs ! j)) \<le> 0"
proof (cases "i = j")
  case True
  then show ?thesis using internal_entries_nth [OF assms(1,4)] key_order.compare_refl [OF assms(2)] by (metis order_refl)
next
  case False
  then have "Compare (InternalKeyComparator cmp) (fst (xs ! i)) (fst (xs ! j)) < 0"
    using assms by (auto simp: internal_entries_def in_order_def ascending_def sorted_wrt_iff_nth_less)
  then show ?thesis by (auto simp: internal_Compare_eq Let_def user_key_of_def split: if_splits)
qed

end
