(* ===== verification/Ldb_Db_Iter_Correct.thy ===== *)
theory Ldb_Db_Iter_Correct
  imports Ldb_Random_Correct Ldb_User_View
begin

text \<open>
  The iterator over user keys keeps the contract of iterators: over an internal iterator that keeps it,
  it stands for the view of its sequence number. Forward it is at the entry it shows; in reverse it is
  before that entry, with only entries between that the snapshot does not see.
\<close>

subsection \<open>The moves of the iterator\<close>

locale db_iter =
  inner: iterator ops repr envok "\<lambda>k t. Compare (InternalKeyComparator cmp) k t < 0"
    "\<lambda>k. internal_valid valid k" +
  internal_comparator valid cmp
  for cmp :: Comparator and ops :: "('i, 'e) Iterator" and repr and envok :: "'e \<Rightarrow> bool" and valid :: "slice \<Rightarrow> bool" +
  fixes db :: "'e DBImpl"
  assumes sample: "envok e \<Longrightarrow> envok (RecordReadSample db k e)"

context db_iter
begin

abbreviation user_key :: "entries \<Rightarrow> nat \<Rightarrow> slice" where
  "user_key xs i \<equiv> user_key_of (xs ! i)"

definition di_good :: "'i DBIter \<Rightarrow> SequenceNumber \<Rightarrow> entries \<Rightarrow> bool" where
  "di_good d s xs \<longleftrightarrow> internal_entries valid cmp xs \<and> di_sequence d = s \<and> s \<le> kMaxSequenceNumber \<and>
     di_own_status d = status_OK \<and> good_seed (di_rnd d)"

definition di_at :: "'i DBIter \<Rightarrow> SequenceNumber \<Rightarrow> entries \<Rightarrow> nat \<Rightarrow> bool" where
  "di_at d s xs i \<longleftrightarrow> di_valid d \<and> shown cmp s xs i \<and>
     (if di_direction d = di_kForward then repr (di_iter d) xs (Some i)
      else di_saved_key d = user_key xs i \<and> di_saved_value d = snd (xs ! i) \<and>
        (\<exists>b \<le> i. repr (di_iter d) xs (prev_pos b) \<and> (\<forall>l. b \<le> l \<and> l < i \<longrightarrow> \<not> visible s (xs ! l))))"

definition db_repr :: "SequenceNumber \<Rightarrow> 'i DBIter \<Rightarrow> entries \<Rightarrow> nat option \<Rightarrow> bool" where
  "db_repr s d ys p \<longleftrightarrow> (\<exists>xs. ys = user_view cmp s xs \<and> di_good d s xs \<and>
     (case p of
        None \<Rightarrow> \<not> di_valid d \<and> (\<exists>q. repr (di_iter d) xs q)
      | Some m \<Rightarrow> \<exists>i. m = rank (shown cmp s xs) i \<and> di_at d s xs i))"

lemma valid_user_key: "di_good d s xs \<Longrightarrow> i < length xs \<Longrightarrow> valid (user_key xs i)"
  using internal_entries_nth [of valid cmp xs i] by (auto simp: di_good_def)

lemma user_key_le: "di_good d s xs \<Longrightarrow> i \<le> j \<Longrightarrow> j < length xs \<Longrightarrow> Compare cmp (user_key xs i) (user_key xs j) \<le> 0"
  using user_keys_ascend [OF _ user.key_order_axioms] by (auto simp: di_good_def)

lemma in_range: "repr i xs (Some n) \<Longrightarrow> n < length xs"
  by (rule inner.in_range)

text \<open>Two entries with the same user key: the one behind is not shown.\<close>

lemma shown_apart:
  assumes good: "di_good d s xs" and "shown cmp s xs l" "visible s (xs ! j)" "j < l"
  shows "\<not> Compare cmp (user_key xs l) (user_key xs j) \<le> 0"
proof -
  have l: "l < length xs" using assms(2) by (simp add: shown_def)
  have v: "valid (user_key xs j)" "valid (user_key xs l)" using valid_user_key [OF good] l assms(4) by simp_all
  have "Compare cmp (user_key xs j) (user_key xs l) \<noteq> 0" using assms(2-4) by (simp add: shown_def)
  moreover have "Compare cmp (user_key xs j) (user_key xs l) \<le> 0" using user_key_le [OF good _ l] assms(4) by simp
  ultimately show ?thesis using user.compare_not_less [OF v] by linarith
qed

lemma ParseKey_at:
  assumes good: "di_good d s xs" and at: "repr (di_iter d) xs (Some n)" and e: "envok e"
  obtains c r e' where
    "ParseKey db ops d e = Some (ParseInternalKey (fst (xs ! n)), d\<lparr>di_bytes_counter := c, di_rnd := r\<rparr>, e')"
    "good_seed r" "envok e'"
proof -
  obtain p where p: "ParseInternalKey (fst (xs ! n)) = Some p"
    using internal_entries_nth [of valid cmp xs n] good in_range [OF at] by (auto simp: di_good_def)
  have kv: "io_key ops (di_iter d) = fst (xs ! n)" using inner.entry [OF at] by (metis fst_conv)
  obtain c r e' where "sample_loop db (fst (xs ! n))
      (di_bytes_counter d - int (length (fst (xs ! n)) + length (io_value ops (di_iter d)))) (di_rnd d) e = Some (c, r, e')"
    "good_seed r" "envok e'"
    using sample_loop_ends [where envok = envok and db = db, OF sample] good e unfolding di_good_def by blast
  then show ?thesis using that [where c = c and r = r and e' = e'] p by (simp add: ParseKey_def kv Let_def)
qed

lemma move_iterE:
  assumes "moved repr envok xs q (move (di_iter d) e)"
  obtains i e' where "move_iter move d e = Some (d\<lparr>di_iter := i\<rparr>, e')" "repr i xs q" "envok e'"
  using assms by (auto simp: move_iter_def moved_def)

lemma di_good_update:
  "di_good (d\<lparr>di_bytes_counter := c, di_rnd := r\<rparr>) s xs \<longleftrightarrow> di_good (d\<lparr>di_rnd := r\<rparr>) s xs"
  "di_good d s xs \<Longrightarrow> good_seed r \<Longrightarrow> di_good (d\<lparr>di_rnd := r\<rparr>) s xs"
  "di_good (d\<lparr>di_iter := i\<rparr>) s xs \<longleftrightarrow> di_good d s xs"
  "di_good (d\<lparr>di_valid := v\<rparr>) s xs \<longleftrightarrow> di_good d s xs"
  "di_good (d\<lparr>di_saved_key := k\<rparr>) s xs \<longleftrightarrow> di_good d s xs"
  "di_good (d\<lparr>di_saved_value := k\<rparr>) s xs \<longleftrightarrow> di_good d s xs"
  "di_good (d\<lparr>di_direction := k'\<rparr>) s xs \<longleftrightarrow> di_good d s xs"
  by (simp_all add: di_good_def)

lemma at_end_repr:
  "di_good d s xs \<Longrightarrow> repr (di_iter d) xs q \<Longrightarrow> \<not> di_valid d \<Longrightarrow> db_repr s d (user_view cmp s xs) None"
  by (auto simp: db_repr_def)

text \<open>What \<^verbatim>\<open>FindNextUserEntry\<close> skips: the entries of a key that has been seen, all at the front.\<close>

definition hidden :: "bool \<Rightarrow> slice \<Rightarrow> entries \<Rightarrow> nat \<Rightarrow> bool" where
  "hidden skipping skip xs l \<longleftrightarrow> skipping \<and> Compare cmp (user_key xs l) skip \<le> 0"

definition skips :: "SequenceNumber \<Rightarrow> entries \<Rightarrow> nat \<Rightarrow> nat \<Rightarrow> bool \<Rightarrow> slice \<Rightarrow> bool" where
  "skips s xs n b skipping skip \<longleftrightarrow>
     (\<forall>l < length xs. \<forall>j < n. n \<le> l \<and> visible s (xs ! l) \<and> visible s (xs ! j) \<and>
        Compare cmp (user_key xs j) (user_key xs l) = 0 \<longrightarrow> hidden skipping skip xs l) \<and>
     (skipping \<longrightarrow> valid skip \<and>
        (\<forall>l < length xs. n \<le> l \<and> visible s (xs ! l) \<longrightarrow> Compare cmp skip (user_key xs l) \<le> 0)) \<and>
     (\<forall>l \<ge> n. shown cmp s xs l \<longrightarrow> (\<not> hidden skipping skip xs l \<longleftrightarrow> b \<le> l)) \<and>
     (\<forall>l < n. shown cmp s xs l \<longrightarrow> l < b)"

lemma skips_invisible:
  assumes "skips s xs n b skipping skip" "n < length xs" "\<not> visible s (xs ! n)"
  shows "skips s xs (Suc n) b skipping skip"
proof -
  have "\<not> shown cmp s xs n" using assms(3) by (simp add: shown_def)
  then show ?thesis using assms unfolding skips_def by (auto simp: less_Suc_eq Suc_le_eq)
qed

lemma skips_hidden:
  assumes good: "di_good d s xs" and sk: "skips s xs n b skipping skip" and n: "n < length xs"
    and h: "hidden skipping skip xs n" "visible s (xs ! n)"
  shows "skips s xs (Suc n) b skipping skip"
proof -
  have "hidden skipping skip xs l" if l: "l < length xs" "n < l" "Compare cmp (user_key xs n) (user_key xs l) = 0" for l
  proof -
    have v: "valid (user_key xs n)" "valid (user_key xs l)" "valid skip"
      using valid_user_key [OF good] n l(1) h(1) sk by (auto simp: hidden_def skips_def)
    then have "Compare cmp (user_key xs l) (user_key xs n) \<le> 0" using l(3) user.compare_eq_sym by force
    then show ?thesis using h(1) user.compare_trans [OF v(2,1,3)] by (simp add: hidden_def)
  qed
  moreover have "n < b" if "shown cmp s xs n" using that sk h(1) by (fastforce simp: skips_def)
  ultimately show ?thesis using sk unfolding skips_def by (auto simp: less_Suc_eq Suc_le_eq)
qed

lemma skips_deletion:
  assumes good: "di_good d s xs" and sk: "skips s xs n b skipping skip" and n: "n < length xs"
    and del: "visible s (xs ! n)" "\<not> is_value (xs ! n)"
  shows "skips s xs (Suc n) b True (user_key xs n)"
proof -
  have v: "valid (user_key xs l)" if "l < length xs" for l using valid_user_key [OF good that] .
  have le: "Compare cmp (user_key xs n) (user_key xs l) \<le> 0" if "n \<le> l" "l < length xs" for l
    using user_key_le [OF good that] .
  have 1: "Compare cmp (user_key xs l) (user_key xs n) \<le> 0"
    if l: "l < length xs" "n < l" "j \<le> n" "Compare cmp (user_key xs j) (user_key xs l) = 0" for l j
  proof -
    have j: "j < length xs" using l(3) n by simp
    have "Compare cmp (user_key xs l) (user_key xs j) \<le> 0"
      using l(4) user.compare_eq_sym [OF v [OF j] v [OF l(1)]] by simp
    moreover have "Compare cmp (user_key xs j) (user_key xs n) \<le> 0" using user_key_le [OF good l(3) n] .
    ultimately show ?thesis using user.compare_trans [OF v [OF l(1)] v [OF j] v [OF n]] by blast
  qed
  have 2: "\<not> Compare cmp (user_key xs l) (user_key xs n) \<le> 0 \<and> b \<le> l" if l: "shown cmp s xs l" "n < l" for l
  proof -
    have len: "l < length xs" using l(1) by (simp add: shown_def)
    have a: "\<not> Compare cmp (user_key xs l) (user_key xs n) \<le> 0" using shown_apart [OF good l(1) del(1) l(2)] .
    have "\<not> hidden skipping skip xs l"
    proof
      assume h: "hidden skipping skip xs l"
      then have "valid skip" "Compare cmp skip (user_key xs n) \<le> 0" "Compare cmp (user_key xs l) skip \<le> 0"
        using sk n del(1) by (auto simp: hidden_def skips_def)
      then show False using a user.compare_trans [OF v [OF len] _ v [OF n]] by blast
    qed
    then show ?thesis using a sk l by (auto simp: skips_def)
  qed
  have 3: "l < b" if "l < Suc n" "shown cmp s xs l" for l
    using that sk del(2) by (auto simp: skips_def shown_def less_Suc_eq)
  show ?thesis
    unfolding skips_def hidden_def
  proof (intro conjI allI impI; (elim conjE)?)
    show "Compare cmp (user_key xs l) (user_key xs n) \<le> 0"
      if "l < length xs" "j < Suc n" "Suc n \<le> l" "Compare cmp (user_key xs j) (user_key xs l) = 0" for l j
      using 1 [of l j] that by simp
    show "(\<not> (True \<and> Compare cmp (user_key xs l) (user_key xs n) \<le> 0)) = (b \<le> l)"
      if "Suc n \<le> l" "shown cmp s xs l" for l using 2 [of l] that by simp
    show "Compare cmp (user_key xs n) (user_key xs l) \<le> 0" if "l < length xs" "Suc n \<le> l" for l
      using le [of l] that by simp
  qed (use v n 3 in simp_all)
qed

lemma skips_found:
  assumes sk: "skips s xs n b skipping skip" and n: "n < length xs"
    and found: "visible s (xs ! n)" "is_value (xs ! n)" "\<not> hidden skipping skip xs n"
  shows "shown cmp s xs n \<and> rank (shown cmp s xs) b = rank (shown cmp s xs) n"
proof -
  have "shown cmp s xs n" using sk n found unfolding shown_def skips_def by blast
  moreover from this have "b \<le> n" using sk found(3) by (auto simp: skips_def)
  then have "rank (shown cmp s xs) n = rank (shown cmp s xs) b"
    by (rule rank_skip) (use sk in \<open>auto simp: skips_def\<close>)
  ultimately show ?thesis by simp
qed

lemma skips_end:
  assumes "skips s xs (length xs) b skipping skip"
  shows "pos_of (user_view cmp s xs) (rank (shown cmp s xs) b) = None"
proof (rule pos_of_not_shown)
  fix l assume "b \<le> l"
  then show "\<not> shown cmp s xs l" using assms by (auto simp: skips_def shown_def)
qed


lemma next_entry_at:
  assumes "di_good d s xs" "n < length xs"
  shows "next_entry cmp (ParseInternalKey (fst (xs ! n))) skipping d =
    (if \<not> visible s (xs ! n) then (False, skipping, d)
     else if is_value (xs ! n) then (\<not> hidden skipping (di_saved_key d) xs n, skipping, d)
     else (False, True, d\<lparr>di_saved_key := user_key xs n\<rparr>))"
proof -
  have ie: "internal_entries valid cmp xs" using assms(1) by (simp add: di_good_def)
  obtain p where "ParseInternalKey (fst (xs ! n)) = Some p" "pk_user_key p = user_key xs n"
    "visible s (xs ! n) \<longleftrightarrow> pk_sequence p \<le> s" "is_value (xs ! n) \<longleftrightarrow> pk_type p = kTypeValue"
    "\<not> is_value (xs ! n) \<longleftrightarrow> pk_type p = kTypeDeletion"
    by (rule internal_entries_nth [where s = s, OF ie assms(2)])
  moreover have "di_sequence d = s" using assms(1) by (simp add: di_good_def)
  ultimately show ?thesis by (auto simp: next_entry_def hidden_def)
qed

lemma skips_next:
  assumes "di_good d s xs" "skips s xs n b skipping (di_saved_key d)" "n < length xs"
    and "next_entry cmp (ParseInternalKey (fst (xs ! n))) skipping d = (False, skipping', d')"
  shows "di_good d' s xs \<and> skips s xs (Suc n) b skipping' (di_saved_key d') \<and> di_iter d' = di_iter d \<and>
    di_direction d' = di_direction d"
  using assms(4) skips_invisible [OF assms(2,3)] skips_hidden [OF assms(1-3)] skips_deletion [OF assms(1-3)] assms(1)
  unfolding next_entry_at [OF assms(1,3)] by (auto simp: di_good_update split: if_splits)

lemma find_next:
  assumes "di_good d s xs" "di_direction d = di_kForward" "repr (di_iter d) xs (Some n)" "envok e"
    and "skips s xs n b skipping (di_saved_key d)"
  shows "moved (db_repr s) envok (user_view cmp s xs) (pos_of (user_view cmp s xs) (rank (shown cmp s xs) b))
    (FindNextUserEntry db cmp ops skipping d e)"
  using assms
proof (induction "length xs - n" arbitrary: n d e skipping rule: less_induct)
  case less
  note good = less.prems(1) and dir = less.prems(2) and at = less.prems(3) and sk = less.prems(5)
  have n: "n < length xs" using in_range at by blast
  obtain c r e1 where parse:
    "ParseKey db ops d e = Some (ParseInternalKey (fst (xs ! n)), d\<lparr>di_bytes_counter := c, di_rnd := r\<rparr>, e1)"
    "good_seed r" "envok e1"
    using ParseKey_at [OF good at less.prems(4)] by blast
  define d1 where "d1 = d\<lparr>di_bytes_counter := c, di_rnd := r\<rparr>"
  have d1: "di_good d1 s xs" "di_iter d1 = di_iter d" "di_saved_key d1 = di_saved_key d" "di_direction d1 = di_kForward"
    using good parse(2) dir by (simp_all add: d1_def di_good_update)
  obtain found skipping' d2 where step: "next_entry cmp (ParseInternalKey (fst (xs ! n))) skipping d1 = (found, skipping', d2)"
    by (metis surj_pair)
  show ?case
  proof (cases found)
    case True
    then have v: "visible s (xs ! n)" "is_value (xs ! n)" "\<not> hidden skipping (di_saved_key d) xs n" "d2 = d1"
      using step d1(3) unfolding next_entry_at [OF d1(1) n] by (auto split: if_splits)
    have run: "FindNextUserEntry db cmp ops skipping d e = Some (d1\<lparr>di_valid := True, di_saved_key := []\<rparr>, e1)"
      using parse(1) step True v(4) by (subst FindNextUserEntry.simps) (simp add: d1_def)
    have sh: "shown cmp s xs n" "rank (shown cmp s xs) b = rank (shown cmp s xs) n" using skips_found [OF sk n v(1-3)] by simp_all
    have "di_at (d1\<lparr>di_valid := True, di_saved_key := []\<rparr>) s xs n" using sh(1) at d1(2,4) by (simp add: di_at_def)
    moreover have "pos_of (user_view cmp s xs) (rank (shown cmp s xs) b) = Some (rank (shown cmp s xs) n)"
      using nth_user_view(1) [OF sh(1)] sh(2) by (simp add: pos_of_def)
    moreover have "di_good (d1\<lparr>di_valid := True, di_saved_key := []\<rparr>) s xs" using d1(1) by (simp add: di_good_def)
    ultimately have "db_repr s (d1\<lparr>di_valid := True, di_saved_key := []\<rparr>) (user_view cmp s xs)
        (pos_of (user_view cmp s xs) (rank (shown cmp s xs) b))" by (auto simp: db_repr_def)
    then show ?thesis unfolding run using parse(3) by (rule movedI)
  next
    case False
    have nxt: "di_good d2 s xs" "skips s xs (Suc n) b skipping' (di_saved_key d2)" "di_iter d2 = di_iter d" "di_direction d2 = di_kForward"
      using skips_next [OF d1(1) _ n, of b skipping skipping' d2] sk step False d1(2-4) by auto
    obtain i e2 where mv: "move_iter (io_Next ops) d2 e1 = Some (d2\<lparr>di_iter := i\<rparr>, e2)" "repr i xs (pos_of xs (n + 1))" "envok e2"
      using move_iterE [of xs "pos_of xs (n + 1)" "io_Next ops" d2 e1] inner.next [OF at parse(3)] nxt(3) by auto
    have run: "FindNextUserEntry db cmp ops skipping d e =
        (if io_Valid ops i then FindNextUserEntry db cmp ops skipping' (d2\<lparr>di_iter := i\<rparr>) e2
         else Some (d2\<lparr>di_iter := i, di_saved_key := [], di_valid := False\<rparr>, e2))"
      using parse(1) step False mv(1) by (subst FindNextUserEntry.simps) (simp add: d1_def)
    show ?thesis
    proof (cases "Suc n < length xs")
      case True
      then have "repr i xs (Some (Suc n))" "io_Valid ops i" using mv(2) inner.valid_iff [OF mv(2)] by (simp_all add: pos_of_def)
      then show ?thesis unfolding run
        using less.hyps [of "Suc n" "d2\<lparr>di_iter := i\<rparr>" e2 skipping'] nxt mv(3) n by (simp add: di_good_update)
    next
      case False
      then have inv: "\<not> io_Valid ops i" "repr i xs None" using mv(2) inner.valid_iff [OF mv(2)] by (simp_all add: pos_of_def)
      have "Suc n = length xs" using False n by simp
      then have "pos_of (user_view cmp s xs) (rank (shown cmp s xs) b) = None" using skips_end nxt(2) by metis
      moreover have "db_repr s (d2\<lparr>di_iter := i, di_saved_key := [], di_valid := False\<rparr>) (user_view cmp s xs) None"
        by (rule at_end_repr [of _ _ xs None]) (use nxt(1) inv(2) in \<open>simp_all add: di_good_def\<close>)
      ultimately show ?thesis unfolding run using inv(1) mv(3) by (simp add: moved_def)
    qed
  qed
qed

text \<open>After an entry that shows, the entries of its key are skipped.\<close>

lemma skips_current:
  assumes good: "di_good d s xs" and i: "shown cmp s xs i" and b: "b \<le> i" "\<forall>l. b \<le> l \<and> l < i \<longrightarrow> \<not> visible s (xs ! l)"
  shows "skips s xs b (Suc i) True (user_key xs i)"
proof -
  have len: "i < length xs" and vis: "visible s (xs ! i)" using i by (simp_all add: shown_def)
  have v: "valid (user_key xs l)" if "l < length xs" for l using valid_user_key [OF good that] .
  have ge: "i \<le> l" if "b \<le> l" "visible s (xs ! l)" for l using b(2) that by (meson not_le_imp_less)
  show ?thesis
    unfolding skips_def hidden_def
  proof (intro conjI allI impI; (elim conjE)?)
    fix l j assume l: "l < length xs" "j < b" "b \<le> l" "visible s (xs ! l)" "Compare cmp (user_key xs j) (user_key xs l) = 0"
    have j: "j < length xs" using l(2) b(1) len by simp
    have "Compare cmp (user_key xs l) (user_key xs j) \<le> 0" using l(5) user.compare_eq_sym [OF v [OF j] v [OF l(1)]] by simp
    moreover have "Compare cmp (user_key xs j) (user_key xs i) \<le> 0" using user_key_le [OF good _ len] l(2) b(1) by simp
    ultimately show "Compare cmp (user_key xs l) (user_key xs i) \<le> 0"
      using user.compare_trans [OF v [OF l(1)] v [OF j] v [OF len]] by blast
  next
    fix l assume "l < length xs" "b \<le> l" "visible s (xs ! l)"
    then show "Compare cmp (user_key xs i) (user_key xs l) \<le> 0" using user_key_le [OF good] ge by blast
  next
    fix l assume l: "b \<le> l" "shown cmp s xs l"
    then have "i \<le> l" using ge by (simp add: shown_def)
    then show "(\<not> (True \<and> Compare cmp (user_key xs l) (user_key xs i) \<le> 0)) = (Suc i \<le> l)"
      using shown_apart [OF good l(2) vis] user.compare_refl [OF v [OF len]] by (cases "i = l") auto
  qed (use v len b(1) in simp_all)
qed

lemma skips_from_0: "skips s xs 0 0 False k"
  by (simp add: skips_def hidden_def)

lemma skips_sought:
  assumes "\<And>l j. j < n \<Longrightarrow> n \<le> l \<Longrightarrow> l < length xs \<Longrightarrow> visible s (xs ! l) \<Longrightarrow> visible s (xs ! j) \<Longrightarrow>
    Compare cmp (user_key xs j) (user_key xs l) \<noteq> 0"
  shows "skips s xs n n False k"
  using assms by (auto simp: skips_def hidden_def)

lemma found_or_invalid_at:
  assumes "di_good d s xs" "di_direction d = di_kForward" "repr (di_iter d) xs (pos_of xs n)" "envok e"
    and "skips s xs n n False (di_saved_key d)"
  shows "moved (db_repr s) envok (user_view cmp s xs) (pos_of (user_view cmp s xs) (rank (shown cmp s xs) n))
    (found_or_invalid db cmp ops d e)"
proof (cases "n < length xs")
  case True
  then have "repr (di_iter d) xs (Some n)" using assms(3) by (simp add: pos_of_def)
  moreover from this have "io_Valid ops (di_iter d)" using inner.valid_iff by blast
  ultimately show ?thesis using find_next assms by (simp add: found_or_invalid_def)
next
  case False
  then have at: "repr (di_iter d) xs None" using assms(3) by (simp add: pos_of_def)
  then have "\<not> io_Valid ops (di_iter d)" using inner.valid_iff by blast
  moreover have "pos_of (user_view cmp s xs) (rank (shown cmp s xs) n) = None"
    by (rule pos_of_not_shown) (use False in \<open>simp add: shown_def\<close>)
  moreover have "db_repr s (d\<lparr>di_valid := False\<rparr>) (user_view cmp s xs) None"
    by (rule at_end_repr [of _ _ xs None]) (use assms(1) at in \<open>simp_all add: di_good_def\<close>)
  ultimately show ?thesis using assms(4) by (simp add: found_or_invalid_def moved_def)
qed

lemma db_reprE:
  assumes "db_repr s d ys p"
  obtains xs q where "ys = user_view cmp s xs" "di_good d s xs" "repr (di_iter d) xs q"
proof (cases p)
  case None
  then show ?thesis using assms that by (auto simp: db_repr_def)
next
  case (Some m)
  then show ?thesis using assms that by (auto simp: db_repr_def di_at_def split: if_splits)
qed

lemma di_first:
  assumes "db_repr s d ys p" "envok e"
  shows "moved (db_repr s) envok ys (pos_of ys 0) (di_SeekToFirst db cmp ops d e)"
proof -
  obtain xs q where r: "ys = user_view cmp s xs" "di_good d s xs" "repr (di_iter d) xs q"
    using assms(1) by (rule db_reprE)
  let ?d = "ClearSavedValue (d\<lparr>di_direction := di_kForward\<rparr>)"
  obtain i e1 where mv: "move_iter (io_SeekToFirst ops) ?d e = Some (?d\<lparr>di_iter := i\<rparr>, e1)" "repr i xs (pos_of xs 0)" "envok e1"
    using move_iterE [of xs "pos_of xs 0" "io_SeekToFirst ops" ?d e] inner.first [OF r(3) assms(2)]
    by (auto simp: ClearSavedValue_def)
  have "di_good (?d\<lparr>di_iter := i\<rparr>) s xs" using r(2) by (simp add: di_good_def ClearSavedValue_def)
  from found_or_invalid_at [OF this _ _ mv(3), of 0] show ?thesis
    using mv(1,2) skips_from_0 r(1) by (simp add: di_SeekToFirst_def ClearSavedValue_def)
qed


text \<open>Backwards: what has been saved is the newest visible entry met so far, if it is a value.\<close>

definition candidate :: "'i DBIter \<Rightarrow> SequenceNumber \<Rightarrow> entries \<Rightarrow> nat \<Rightarrow> nat \<Rightarrow> bool" where
  "candidate d s xs q i \<longleftrightarrow> q \<le> i \<and> i < length xs \<and> visible s (xs ! i) \<and> is_value (xs ! i) \<and>
     di_saved_key d = user_key xs i \<and> di_saved_value d = snd (xs ! i) \<and>
     (\<forall>l. q \<le> l \<and> l < i \<longrightarrow> \<not> visible s (xs ! l))"

definition saves :: "'i DBIter \<Rightarrow> SequenceNumber \<Rightarrow> entries \<Rightarrow> nat \<Rightarrow> nat \<Rightarrow> ValueType \<Rightarrow> bool" where
  "saves d s xs q Q vt \<longleftrightarrow>
     (if vt = kTypeDeletion then \<forall>l. q \<le> l \<and> l < Q \<longrightarrow> \<not> shown cmp s xs l
      else \<exists>i < Q. candidate d s xs q i \<and> (\<forall>l. q \<le> l \<and> l < Q \<and> shown cmp s xs l \<longrightarrow> l = i))"

definition found_last :: "'i DBIter \<Rightarrow> SequenceNumber \<Rightarrow> entries \<Rightarrow> nat \<Rightarrow> ValueType \<Rightarrow> bool" where
  "found_last d s xs Q vt \<longleftrightarrow> di_good d s xs \<and> di_direction d = di_kReverse \<and>
     (if vt = kTypeDeletion then (\<forall>l < Q. \<not> shown cmp s xs l) \<and> (\<exists>q. repr (di_iter d) xs q)
      else \<exists>i < Q. shown cmp s xs i \<and> (\<forall>l. i < l \<and> l < Q \<longrightarrow> \<not> shown cmp s xs l) \<and>
        (\<exists>b. candidate d s xs b i \<and> repr (di_iter d) xs (prev_pos b)))"

lemma candidate_iter: "candidate (d\<lparr>di_iter := i\<rparr>) s xs q j \<longleftrightarrow> candidate d s xs q j"
  by (simp add: candidate_def)

lemma saves_iter: "saves (d\<lparr>di_iter := i\<rparr>) s xs q Q vt \<longleftrightarrow> saves d s xs q Q vt"
  by (simp add: saves_def candidate_iter)

lemma saves_parse: "saves (d\<lparr>di_bytes_counter := c, di_rnd := r\<rparr>) s xs q Q vt \<longleftrightarrow> saves d s xs q Q vt"
  by (simp add: saves_def candidate_def)

lemma from_Suc: "\<forall>l. Suc n \<le> l \<and> P l \<longrightarrow> R l \<Longrightarrow> (P n \<Longrightarrow> R n) \<Longrightarrow> \<forall>l. n \<le> l \<and> P l \<longrightarrow> R l"
  by (metis Suc_leI le_neq_implies_less)

lemma candidate_Suc: "candidate d s xs (Suc n) i \<Longrightarrow> \<not> visible s (xs ! n) \<Longrightarrow> candidate d s xs n i"
  using from_Suc [of n "\<lambda>l. l < i" "\<lambda>l. \<not> visible s (xs ! l)"] by (simp add: candidate_def)

lemma saves_Suc:
  assumes "saves d s xs (Suc n) Q vt" "\<not> visible s (xs ! n)"
  shows "saves d s xs n Q vt"
proof -
  have n: "\<not> shown cmp s xs n" using assms(2) by (simp add: shown_def)
  show ?thesis
  proof (cases "vt = kTypeDeletion")
    case True
    then show ?thesis
      using from_Suc [of n "\<lambda>l. l < Q" "\<lambda>l. \<not> shown cmp s xs l"] assms(1) n by (simp add: saves_def)
  next
    case False
    then obtain i where "i < Q" "candidate d s xs (Suc n) i" "\<forall>l. Suc n \<le> l \<and> l < Q \<and> shown cmp s xs l \<longrightarrow> l = i"
      using assms(1) by (auto simp: saves_def)
    then show ?thesis
      using False n candidate_Suc [OF _ assms(2)] from_Suc [of n "\<lambda>l. l < Q \<and> shown cmp s xs l" "\<lambda>l. l = i"]
      by (auto simp: saves_def)
  qed
qed

lemma candidate_shown:
  assumes good: "di_good d s xs" and c: "candidate d s xs q i"
    and less: "\<And>j. j < q \<Longrightarrow> visible s (xs ! j) \<Longrightarrow> Compare cmp (user_key xs j) (user_key xs i) < 0"
  shows "shown cmp s xs i"
  using c less unfolding candidate_def shown_def by (metis less_irrefl not_le_imp_less)

lemma prev_entry_at:
  assumes "di_good d s xs" "repr (di_iter d) xs (Some n)"
  shows "prev_entry cmp ops (ParseInternalKey (fst (xs ! n))) vt d =
    (if \<not> visible s (xs ! n) then (False, vt, d)
     else if vt \<noteq> kTypeDeletion \<and> Compare cmp (user_key xs n) (di_saved_key d) < 0 then (True, vt, d)
     else if is_value (xs ! n)
     then (False, kTypeValue, d\<lparr>di_saved_key := user_key xs n, di_saved_value := snd (xs ! n)\<rparr>)
     else (False, kTypeDeletion, d\<lparr>di_saved_key := [], di_saved_value := []\<rparr>))"
proof -
  have ie: "internal_entries valid cmp xs" using assms(1) by (simp add: di_good_def)
  obtain p where "ParseInternalKey (fst (xs ! n)) = Some p" "pk_user_key p = user_key xs n"
    "visible s (xs ! n) \<longleftrightarrow> pk_sequence p \<le> s" "is_value (xs ! n) \<longleftrightarrow> pk_type p = kTypeValue"
    "\<not> is_value (xs ! n) \<longleftrightarrow> pk_type p = kTypeDeletion"
    by (rule internal_entries_nth [where s = s, OF ie in_range [OF assms(2)]])
  moreover have "di_sequence d = s" using assms(1) by (simp add: di_good_def)
  moreover have "io_key ops (di_iter d) = fst (xs ! n)" "io_value ops (di_iter d) = snd (xs ! n)"
    using inner.entry [OF assms(2)] by (metis fst_conv, metis snd_conv)
  ultimately show ?thesis by (auto simp: prev_entry_def ClearSavedValue_def user_key_of_def)
qed

text \<open>An entry that is met before one of its key that was saved hides it.\<close>

lemma candidate_not_shown:
  assumes good: "di_good d s xs" and c: "candidate d s xs (Suc n) i" and n: "visible s (xs ! n)"
    and "\<not> Compare cmp (user_key xs n) (di_saved_key d) < 0"
  shows "\<not> shown cmp s xs i"
proof
  assume sh: "shown cmp s xs i"
  have i: "n < i" "i < length xs" "di_saved_key d = user_key xs i" using c by (simp_all add: candidate_def)
  have "Compare cmp (user_key xs i) (user_key xs n) \<le> 0"
    using assms(4) i user.compare_not_less [OF valid_user_key [OF good] valid_user_key [OF good]] by simp
  then show False using shown_apart [OF good sh n i(1)] by blast
qed

lemma saves_step:
  assumes good: "di_good d s xs" and at: "repr (di_iter d) xs (Some n)" and Q: "n < Q" "Q \<le> length xs"
    and sv: "saves d s xs (Suc n) Q vt"
    and "prev_entry cmp ops (ParseInternalKey (fst (xs ! n))) vt d = (False, vt', d')"
  shows "saves d' s xs n Q vt' \<and> di_good d' s xs \<and> di_iter d' = di_iter d \<and> di_direction d' = di_direction d"
proof -
  have types: "kTypeDeletion \<noteq> kTypeValue" by (simp add: kTypeDeletion_def kTypeValue_def)
  have other: "\<not> shown cmp s xs l"
    if "visible s (xs ! n)" "\<not> (vt \<noteq> kTypeDeletion \<and> Compare cmp (user_key xs n) (di_saved_key d) < 0)" "n < l" "l < Q" for l
    using sv that candidate_not_shown [OF good _ that(1)] by (auto simp: saves_def Suc_le_eq split: if_splits)
  show ?thesis
  proof (cases "visible s (xs ! n)")
    case False
    then have "vt' = vt" "d' = d" using assms(6) unfolding prev_entry_at [OF good at] by auto
    with False show ?thesis using saves_Suc [OF sv False] good by simp
  next
    case True
    then have go: "\<not> (vt \<noteq> kTypeDeletion \<and> Compare cmp (user_key xs n) (di_saved_key d) < 0)"
      using assms(6) unfolding prev_entry_at [OF good at] by (auto split: if_splits)
    note rest = other [OF True go]
    show ?thesis
    proof (cases "is_value (xs ! n)")
      case v: True
      then have "vt' = kTypeValue" "d' = d\<lparr>di_saved_key := user_key xs n, di_saved_value := snd (xs ! n)\<rparr>"
        using assms(6) True go unfolding prev_entry_at [OF good at] by auto
      moreover from this have "candidate d' s xs n n" using True v Q by (auto simp: candidate_def)
      ultimately show ?thesis
        using types rest Q good unfolding saves_def by (auto simp: di_good_update le_less)
    next
      case v: False
      then have "vt' = kTypeDeletion" "d' = d\<lparr>di_saved_key := [], di_saved_value := []\<rparr>"
        using assms(6) True go unfolding prev_entry_at [OF good at] by auto
      moreover have "\<not> shown cmp s xs n" using v by (simp add: shown_def)
      ultimately show ?thesis using rest good unfolding saves_def by (auto simp: di_good_update le_less)
    qed
  qed
qed

lemma saves_stop:
  assumes good: "di_good d s xs" and dir: "di_direction d = di_kReverse" and at: "repr (di_iter d) xs (Some n)"
    and sv: "saves d s xs (Suc n) Q vt"
    and stop: "prev_entry cmp ops (ParseInternalKey (fst (xs ! n))) vt d = (True, vt', d')"
  shows "found_last d' s xs Q vt'"
proof -
  have v: "visible s (xs ! n)" "vt \<noteq> kTypeDeletion" "Compare cmp (user_key xs n) (di_saved_key d) < 0" "vt' = vt" "d' = d"
    using stop unfolding prev_entry_at [OF good at] by (auto split: if_splits)
  obtain i where i: "i < Q" "candidate d s xs (Suc n) i" "\<And>l. Suc n \<le> l \<and> l < Q \<and> shown cmp s xs l \<Longrightarrow> l = i"
    using sv v(2) by (auto simp: saves_def)
  have bounds: "n < i" "i < length xs" "di_saved_key d = user_key xs i" using i(2) by (simp_all add: candidate_def)
  have "Compare cmp (user_key xs j) (user_key xs i) < 0" if "j < Suc n" for j
  proof -
    have "valid (user_key xs j)" "valid (user_key xs n)" "valid (user_key xs i)"
      using valid_user_key [OF good] that bounds by simp_all
    moreover have "Compare cmp (user_key xs j) (user_key xs n) \<le> 0" using user_key_le [OF good] that bounds by simp
    ultimately show ?thesis using user.compare_less_trans v(3) bounds(3) by metis
  qed
  then have "shown cmp s xs i" using candidate_shown [OF good i(2)] by blast
  moreover have "\<not> shown cmp s xs l" if "i < l" "l < Q" for l using i(3) [of l] that bounds by auto
  moreover have "repr (di_iter d) xs (prev_pos (Suc n))" using at by (simp add: prev_pos_def)
  ultimately show ?thesis using v(2,4,5) i(1,2) good dir unfolding found_last_def by auto
qed

lemma saves_end:
  assumes good: "di_good d s xs" and dir: "di_direction d = di_kReverse" and at: "repr (di_iter d) xs None"
    and sv: "saves d s xs 0 Q vt"
  shows "found_last d s xs Q vt"
proof (cases "vt = kTypeDeletion")
  case True
  then show ?thesis using sv good dir at by (auto simp: saves_def found_last_def)
next
  case False
  then obtain i where i: "i < Q" "candidate d s xs 0 i" "\<And>l. l < Q \<and> shown cmp s xs l \<Longrightarrow> l = i"
    using sv by (auto simp: saves_def)
  have "shown cmp s xs i" using candidate_shown [OF good i(2)] by simp
  moreover have "\<not> shown cmp s xs l" if "i < l" "l < Q" for l using i(3) [of l] that by auto
  moreover have "repr (di_iter d) xs (prev_pos 0)" using at by (simp add: prev_pos_def)
  ultimately show ?thesis using False i(1,2) good dir unfolding found_last_def by auto
qed

lemma prev_loop_at:
  assumes "di_good d s xs" "di_direction d = di_kReverse" "repr (di_iter d) xs (prev_pos q)" "envok e"
    and "q \<le> Q" "Q \<le> length xs" "saves d s xs q Q vt"
  shows "\<exists>vt' d' e'. prev_loop db cmp ops vt d e = Some (vt', d', e') \<and> found_last d' s xs Q vt' \<and> envok e'"
  using assms
proof (induction q arbitrary: d e vt)
  case 0
  then have "repr (di_iter d) xs None" by (simp add: prev_pos_def)
  moreover from this have "\<not> io_Valid ops (di_iter d)" using inner.valid_iff by blast
  then have "prev_loop db cmp ops vt d e = Some (vt, d, e)" by (subst prev_loop.simps) simp
  ultimately show ?case using saves_end [OF "0.prems"(1,2) _ "0.prems"(7)] "0.prems"(4) by blast
next
  case (Suc n)
  have at: "repr (di_iter d) xs (Some n)" using Suc.prems(3) by (simp add: prev_pos_def)
  then have valid: "io_Valid ops (di_iter d)" using inner.valid_iff by blast
  obtain c r e1 where parse:
    "ParseKey db ops d e = Some (ParseInternalKey (fst (xs ! n)), d\<lparr>di_bytes_counter := c, di_rnd := r\<rparr>, e1)"
    "good_seed r" "envok e1"
    using ParseKey_at [OF Suc.prems(1) at Suc.prems(4)] by blast
  define d1 where "d1 = d\<lparr>di_bytes_counter := c, di_rnd := r\<rparr>"
  have d1: "di_good d1 s xs" "repr (di_iter d1) xs (Some n)" "di_direction d1 = di_kReverse" "saves d1 s xs (Suc n) Q vt"
    using Suc.prems(1,2,7) parse(2) at by (simp_all add: d1_def di_good_update saves_parse)
  obtain stop vt1 d2 where step: "prev_entry cmp ops (ParseInternalKey (fst (xs ! n))) vt d1 = (stop, vt1, d2)"
    by (metis surj_pair)
  show ?case
  proof (cases stop)
    case True
    then have "prev_loop db cmp ops vt d e = Some (vt1, d2, e1)"
      using valid parse(1) step by (subst prev_loop.simps) (simp add: d1_def)
    moreover have "found_last d2 s xs Q vt1" using saves_stop [OF d1(1,3,2,4)] step True by simp
    ultimately show ?thesis using parse(3) by blast
  next
    case False
    have "n < Q" using Suc.prems(5) by simp
    then have sv: "saves d2 s xs n Q vt1" "di_good d2 s xs" "di_iter d2 = di_iter d" "di_direction d2 = di_kReverse"
      using saves_step [OF d1(1,2) _ Suc.prems(6) d1(4), of vt1 d2] step False d1(3) by (simp_all add: d1_def)
    obtain i e2 where mv: "move_iter (io_Prev ops) d2 e1 = Some (d2\<lparr>di_iter := i\<rparr>, e2)" "repr i xs (prev_pos n)" "envok e2"
      using move_iterE [of xs "prev_pos n" "io_Prev ops" d2 e1] inner.prev [OF at parse(3)] sv(3) by auto
    have "prev_loop db cmp ops vt d e = prev_loop db cmp ops vt1 (d2\<lparr>di_iter := i\<rparr>) e2"
      using valid parse(1) step False mv(1) by (subst prev_loop.simps) (simp add: d1_def)
    then show ?thesis
      using Suc.IH [of "d2\<lparr>di_iter := i\<rparr>" e2 vt1] sv mv(2,3) Suc.prems(5,6) by (simp add: di_good_update saves_iter)
  qed
qed

lemma find_prev:
  assumes "di_good d s xs" "di_direction d = di_kReverse" "repr (di_iter d) xs (prev_pos Q)" "envok e" "Q \<le> length xs"
  shows "moved (db_repr s) envok (user_view cmp s xs) (prev_pos (rank (shown cmp s xs) Q)) (FindPrevUserEntry db cmp ops d e)"
proof -
  have "saves d s xs Q Q kTypeDeletion" by (auto simp: saves_def)
  then obtain vt d' e' where run: "prev_loop db cmp ops kTypeDeletion d e = Some (vt, d', e')" "found_last d' s xs Q vt" "envok e'"
    using prev_loop_at [OF assms(1-4) order_refl assms(5)] by blast
  have good: "di_good d' s xs" and dir: "di_direction d' = di_kReverse" using run(2) by (simp_all add: found_last_def)
  show ?thesis
  proof (cases "vt = kTypeDeletion")
    case True
    then obtain q where none: "\<And>l. l < Q \<Longrightarrow> \<not> shown cmp s xs l" "repr (di_iter d') xs q"
      using run(2) by (auto simp: found_last_def)
    then have "rank (shown cmp s xs) Q = 0" using rank_skip [of 0 Q "shown cmp s xs"] by simp
    moreover have "db_repr s (ClearSavedValue (d'\<lparr>di_valid := False, di_saved_key := [], di_direction := di_kForward\<rparr>))
        (user_view cmp s xs) None"
      by (rule at_end_repr [of _ _ xs q]) (use good none(2) in \<open>simp_all add: di_good_def ClearSavedValue_def\<close>)
    ultimately show ?thesis using run(1,3) True by (simp add: FindPrevUserEntry_def moved_def prev_pos_def)
  next
    case False
    then obtain i b where i: "i < Q" "shown cmp s xs i" "\<And>l. i < l \<Longrightarrow> l < Q \<Longrightarrow> \<not> shown cmp s xs l"
      "candidate d' s xs b i" "repr (di_iter d') xs (prev_pos b)"
      using run(2) by (auto simp: found_last_def)
    have "rank (shown cmp s xs) Q = Suc (rank (shown cmp s xs) i)"
      using rank_skip [of "Suc i" Q "shown cmp s xs"] i(1-3) by (simp add: rank_Suc)
    moreover have "di_at (d'\<lparr>di_valid := True\<rparr>) s xs i"
      using i(2,4,5) dir by (auto simp: di_at_def candidate_def)
    moreover have "di_good (d'\<lparr>di_valid := True\<rparr>) s xs" using good by (simp add: di_good_update)
    ultimately have "db_repr s (d'\<lparr>di_valid := True\<rparr>) (user_view cmp s xs) (prev_pos (rank (shown cmp s xs) Q))"
      by (auto simp: db_repr_def prev_pos_def)
    then show ?thesis using run(1,3) False by (simp add: FindPrevUserEntry_def moved_def)
  qed
qed


lemma di_last:
  assumes "db_repr s d ys p" "envok e"
  shows "moved (db_repr s) envok ys (last_pos ys) (di_SeekToLast db cmp ops d e)"
proof -
  obtain xs q where r: "ys = user_view cmp s xs" "di_good d s xs" "repr (di_iter d) xs q"
    using assms(1) by (rule db_reprE)
  have last: "last_pos zs = prev_pos (length zs)" for zs :: entries by (simp add: last_pos_def prev_pos_def)
  let ?d = "ClearSavedValue (d\<lparr>di_direction := di_kReverse\<rparr>)"
  obtain i e1 where mv: "move_iter (io_SeekToLast ops) ?d e = Some (?d\<lparr>di_iter := i\<rparr>, e1)" "repr i xs (last_pos xs)" "envok e1"
    using move_iterE [of xs "last_pos xs" "io_SeekToLast ops" ?d e] inner.last [OF r(3) assms(2)]
    by (auto simp: ClearSavedValue_def)
  have "di_good (?d\<lparr>di_iter := i\<rparr>) s xs" using r(2) by (simp add: di_good_def ClearSavedValue_def)
  from find_prev [OF this _ _ mv(3), of "length xs"] show ?thesis
    using mv(1,2) r(1) by (simp add: di_SeekToLast_def ClearSavedValue_def last length_user_view)
qed

text \<open>The key a snapshot is sought with: no visible entry of the user key is before it.\<close>

lemma snapshot_seek_key:
  "valid t \<Longrightarrow> internal_valid valid (AppendInternalKey [] \<lparr>pk_user_key = t, pk_sequence = s, pk_type = kValueTypeForSeek\<rparr>)"
  by (simp add: AppendInternalKey_eq)

lemma sought:
  assumes good: "di_good d s xs" and l: "l < length xs" and t: "valid t"
  defines "k \<equiv> AppendInternalKey [] \<lparr>pk_user_key = t, pk_sequence = s, pk_type = kValueTypeForSeek\<rparr>"
  shows "Compare (InternalKeyComparator cmp) (fst (xs ! l)) k < 0 \<Longrightarrow> visible s (xs ! l) \<Longrightarrow> Compare cmp (user_key xs l) t < 0"
    "\<not> Compare (InternalKeyComparator cmp) (fst (xs ! l)) k < 0 \<Longrightarrow> \<not> Compare cmp (user_key xs l) t < 0"
proof -
  have ie: "internal_entries valid cmp xs" and s: "s \<le> kMaxSequenceNumber" using good by (simp_all add: di_good_def)
  have k: "k = PutFixed64 t (PackSequenceAndType s kTypeValue)" by (simp add: k_def AppendInternalKey_eq kValueTypeForSeek_def)
  have tag_k: "tag_of k = PackSequenceAndType s kTypeValue" by (simp add: k)
  show "\<not> Compare cmp (user_key xs l) t < 0" if "\<not> Compare (InternalKeyComparator cmp) (fst (xs ! l)) k < 0"
    using that by (auto simp: internal_Compare_eq Let_def k user_key_of_def split: if_splits)
  show "Compare cmp (user_key xs l) t < 0"
    if less: "Compare (InternalKeyComparator cmp) (fst (xs ! l)) k < 0" and vis: "visible s (xs ! l)"
  proof (rule ccontr)
    assume "\<not> Compare cmp (user_key xs l) t < 0"
    then have bigger: "PackSequenceAndType s kTypeValue < tag_of (fst (xs ! l))"
      using less tag_k by (auto simp: internal_Compare_eq Let_def k user_key_of_def split: if_splits)
    obtain p where p: "ParseInternalKey (fst (xs ! l)) = Some p" "pk_sequence p \<le> s"
      using internal_entries_nth [OF ie l, of s] vis by blast
    note parts = ParseInternalKey_parts [OF p(1)]
    have tag: "tag_of (fst (xs ! l)) = PackSequenceAndType (pk_sequence p) (pk_type p)"
      by (simp only: parts(4,5) Pack_of_parts tag_of_def)
    have "unat (pk_type p) \<le> unat kTypeValue" using parts(2) by (auto simp: kTypeDeletion_def kTypeValue_def)
    moreover have "pk_sequence p \<le> kMaxSequenceNumber" using p(2) s by simp
    ultimately have "tag_of (fst (xs ! l)) \<le> PackSequenceAndType s kTypeValue"
      using p(2) unfolding tag by (simp add: word_le_nat_alt unat_PackSequenceAndType [OF s] unat_PackSequenceAndType)
    then show False using bigger by simp
  qed
qed

lemma di_seek:
  assumes "db_repr s d ys p" "envok e" "valid t"
  shows "moved (db_repr s) envok ys (seek_pos (\<lambda>k t. Compare cmp k t < 0) t ys) (di_Seek db cmp ops t d e)"
proof -
  obtain xs q where r: "ys = user_view cmp s xs" "di_good d s xs" "repr (di_iter d) xs q"
    using assms(1) by (rule db_reprE)
  let ?k = "AppendInternalKey [] \<lparr>pk_user_key = t, pk_sequence = s, pk_type = kValueTypeForSeek\<rparr>"
  let ?n = "length (takeWhile (\<lambda>(k, v). Compare (InternalKeyComparator cmp) k ?k < 0) xs)"
  let ?d = "ClearSavedValue (d\<lparr>di_direction := di_kForward\<rparr>)\<lparr>di_saved_key := ?k\<rparr>"
  have seq: "di_sequence d = s" and ie: "internal_entries valid cmp xs" using r(2) by (simp_all add: di_good_def)
  then have order: "in_order (\<lambda>k. internal_valid valid k) (InternalKeyComparator cmp) xs" by (simp add: internal_entries_def)
  obtain i e1 where mv: "move_iter (io_Seek ops ?k) ?d e = Some (?d\<lparr>di_iter := i\<rparr>, e1)" "repr i xs (pos_of xs ?n)" "envok e1"
    using move_iterE [of xs "pos_of xs ?n" "io_Seek ops ?k" ?d e] inner.seek [OF r(3) assms(2) snapshot_seek_key [OF assms(3)]]
    by (auto simp: ClearSavedValue_def seek_pos_def)
  have good: "di_good (?d\<lparr>di_iter := i\<rparr>) s xs" using r(2) by (simp add: di_good_def ClearSavedValue_def)
  have n: "?n \<le> length xs" by (rule length_takeWhile_le)
  have front: "Compare cmp (user_key xs l) t < 0" if l: "l < ?n" "visible s (xs ! l)" for l
  proof -
    have "(\<lambda>(k, v). Compare (InternalKeyComparator cmp) k ?k < 0) (xs ! l)"
      using l(1) by (metis nth_mem set_takeWhileD takeWhile_nth)
    then show ?thesis using sought(1) [OF r(2) _ assms(3) _ l(2)] l(1) n by (simp add: split_beta)
  qed
  have rear: "\<not> Compare cmp (user_key xs l) t < 0" if l: "?n \<le> l" "l < length xs" for l
  proof -
    have "drop ?n xs ! (l - ?n) \<in> set (drop ?n xs)" by (rule nth_mem) (use l in simp)
    then have "xs ! l \<in> set (drop ?n xs)" using l by simp
    then have "\<not> (\<lambda>(k, v). Compare (InternalKeyComparator cmp) k ?k < 0) (xs ! l)"
      by (rule drop_takeWhile_below [OF internal.key_order_axioms order snapshot_seek_key [OF assms(3)] refl])
    then show ?thesis using sought(2) [OF r(2) l(2) assms(3)] by (simp add: split_beta)
  qed
  have "skips s xs ?n ?n False ?k"
  proof (rule skips_sought)
    fix l j
    assume j: "j < ?n" and l: "?n \<le> l" "l < length xs" and "visible s (xs ! j)"
    have v: "valid (user_key xs l)" "valid (user_key xs j)" using valid_user_key [OF r(2)] j l by simp_all
    show "Compare cmp (user_key xs j) (user_key xs l) \<noteq> 0"
      using front [OF j \<open>visible s (xs ! j)\<close>] rear [OF l] user.compare_less_trans [OF v assms(3)]
        user.compare_eq_sym [OF v] by auto
  qed
  then have "moved (db_repr s) envok ys (pos_of ys (rank (shown cmp s xs) ?n)) (di_Seek db cmp ops t d e)"
    using found_or_invalid_at [OF good _ _ mv(3), of ?n] mv(1,2) r(1) seq
    by (simp add: di_Seek_def ClearSavedValue_def Let_def)
  moreover have "length (takeWhile (\<lambda>(k, v). Compare cmp k t < 0) ys) = rank (shown cmp s xs) ?n"
    unfolding r(1) user_view_def takeWhile_map length_map
    by (rule rank_takeWhile) (use front rear n in \<open>auto simp: shown_def\<close>)
  ultimately show ?thesis by (simp add: seek_pos_def)
qed

lemma di_next:
  assumes "db_repr s d ys (Some m)" "envok e"
  shows "moved (db_repr s) envok ys (pos_of ys (m + 1)) (di_Next db cmp ops d e)"
proof -
  obtain xs i where r: "ys = user_view cmp s xs" "di_good d s xs" "m = rank (shown cmp s xs) i" "di_at d s xs i"
    using assms(1) by (auto simp: db_repr_def)
  have i: "shown cmp s xs i" "i < length xs" using r(4) by (simp_all add: di_at_def shown_def)
  have m: "rank (shown cmp s xs) (Suc i) = m + 1" using r(3) i(1) by (simp add: rank_Suc)
  show ?thesis
  proof (cases "di_direction d = di_kForward")
    case True
    then have at: "repr (di_iter d) xs (Some i)" using r(4) by (simp add: di_at_def)
    then have k: "ExtractUserKey (io_key ops (di_iter d)) = user_key xs i"
      using inner.entry by (metis fst_conv user_key_of_def)
    have sk: "skips s xs i (Suc i) True (user_key xs i)" by (rule skips_current [OF r(2) i(1) order_refl]) auto
    have "di_good (d\<lparr>di_saved_key := user_key xs i\<rparr>) s xs" using r(2) by (simp add: di_good_update)
    from find_next [OF this _ _ assms(2), of i "Suc i" True] show ?thesis
      using True at sk unfolding di_Next_def m r(1) [symmetric] by (simp add: k)
  next
    case False
    then obtain b where b: "di_saved_key d = user_key xs i" "b \<le> i" "repr (di_iter d) xs (prev_pos b)"
      "\<forall>l. b \<le> l \<and> l < i \<longrightarrow> \<not> visible s (xs ! l)"
      using r(4) by (auto simp: di_at_def)
    have dir: "di_direction d = di_kReverse" using False by (cases "di_direction d") auto
    let ?move = "if \<not> io_Valid ops (di_iter d) then io_SeekToFirst ops else io_Next ops"
    let ?d = "d\<lparr>di_direction := di_kForward\<rparr>"
    have bx: "pos_of xs b = Some b" using b(2) i(2) by (simp add: pos_of_def)
    have "moved repr envok xs (Some b) (?move (di_iter d) e)"
    proof (cases b)
      case 0
      then have "\<not> io_Valid ops (di_iter d)" using inner.valid_iff [OF b(3)] by (simp add: prev_pos_def)
      then show ?thesis using inner.first [OF b(3) assms(2)] 0 bx by simp
    next
      case (Suc a)
      then have at: "repr (di_iter d) xs (Some a)" using b(3) by (simp add: prev_pos_def)
      then have "io_Valid ops (di_iter d)" using inner.valid_iff by blast
      then show ?thesis using inner.next [OF at assms(2)] Suc bx by simp
    qed
    then obtain j e1 where mv: "move_iter ?move ?d e = Some (?d\<lparr>di_iter := j\<rparr>, e1)" "repr j xs (Some b)" "envok e1"
      using move_iterE [of xs "Some b" ?move ?d e] by auto
    have good: "di_good (?d\<lparr>di_iter := j\<rparr>) s xs" using r(2) by (simp add: di_good_update)
    have valid: "io_Valid ops j" using mv(2) inner.valid_iff by blast
    from find_next [OF good _ _ mv(3), of b "Suc i" True] show ?thesis
      using dir mv(1,2) valid skips_current [OF r(2) i(1) b(2,4)] b(1) unfolding di_Next_def m r(1) [symmetric] by simp
  qed
qed

text \<open>Going back to a smaller key.\<close>

lemma before_key_loop_at:
  assumes "di_good d s xs" "repr (di_iter d) xs (Some n)" "envok e"
  shows "\<exists>smaller i Q e'. before_key_loop cmp ops d e =
      Some (smaller, (if smaller then d\<lparr>di_iter := i\<rparr>
        else ClearSavedValue (d\<lparr>di_iter := i, di_valid := False, di_saved_key := []\<rparr>)), e') \<and>
    repr i xs (prev_pos Q) \<and> envok e' \<and> Q \<le> n \<and> (\<not> smaller \<longrightarrow> Q = 0) \<and>
    (\<forall>l. Q \<le> l \<and> l < n \<longrightarrow> \<not> Compare cmp (user_key xs l) (di_saved_key d) < 0)"
  using assms
proof (induction n arbitrary: d e)
  case 0
  obtain i e1 where mv: "move_iter (io_Prev ops) d e = Some (d\<lparr>di_iter := i\<rparr>, e1)" "repr i xs (prev_pos 0)" "envok e1"
    using move_iterE [of xs "prev_pos 0" "io_Prev ops" d e] inner.prev [OF "0.prems"(2,3)] by auto
  have "\<not> io_Valid ops i" using inner.valid_iff [OF mv(2)] by (simp add: prev_pos_def)
  then have "before_key_loop cmp ops d e =
      Some (False, ClearSavedValue (d\<lparr>di_iter := i, di_valid := False, di_saved_key := []\<rparr>), e1)"
    using mv(1) by (subst before_key_loop.simps) simp
  then show ?case using mv(2,3) by (intro exI [of _ False] exI [of _ i] exI [of _ 0] exI [of _ e1]) simp
next
  case (Suc n)
  obtain i e1 where mv: "move_iter (io_Prev ops) d e = Some (d\<lparr>di_iter := i\<rparr>, e1)" "repr i xs (Some n)" "envok e1"
    using move_iterE [of xs "prev_pos (Suc n)" "io_Prev ops" d e] inner.prev [OF Suc.prems(2,3)] by (auto simp: prev_pos_def)
  have valid: "io_Valid ops i" using inner.valid_iff [OF mv(2)] by simp
  have k: "ExtractUserKey (io_key ops i) = user_key xs n" using inner.entry [OF mv(2)] by (metis fst_conv user_key_of_def)
  show ?case
  proof (cases "Compare cmp (user_key xs n) (di_saved_key d) < 0")
    case True
    then have "before_key_loop cmp ops d e = Some (True, d\<lparr>di_iter := i\<rparr>, e1)"
      using mv(1) valid k by (subst before_key_loop.simps) simp
    then show ?thesis
      using mv(2,3) by (intro exI [of _ True] exI [of _ i] exI [of _ "Suc n"] exI [of _ e1]) (simp add: prev_pos_def)
  next
    case False
    then have run: "before_key_loop cmp ops d e = before_key_loop cmp ops (d\<lparr>di_iter := i\<rparr>) e1"
      using mv(1) valid k by (subst before_key_loop.simps) simp
    have "di_good (d\<lparr>di_iter := i\<rparr>) s xs" using Suc.prems(1) by (simp add: di_good_update)
    moreover have "repr (di_iter (d\<lparr>di_iter := i\<rparr>)) xs (Some n)" using mv(2) by simp
    ultimately obtain smaller j Q e2 where IH:
      "before_key_loop cmp ops (d\<lparr>di_iter := i\<rparr>) e1 = Some (smaller, (if smaller then d\<lparr>di_iter := i, di_iter := j\<rparr>
        else ClearSavedValue (d\<lparr>di_iter := i, di_iter := j, di_valid := False, di_saved_key := []\<rparr>)), e2)"
      "repr j xs (prev_pos Q)" "envok e2" "Q \<le> n" "\<not> smaller \<longrightarrow> Q = 0"
      "\<forall>l. Q \<le> l \<and> l < n \<longrightarrow> \<not> Compare cmp (user_key xs l) (di_saved_key (d\<lparr>di_iter := i\<rparr>)) < 0"
      using Suc.IH [OF _ _ mv(3)] by blast
    have "\<forall>l. Q \<le> l \<and> l < Suc n \<longrightarrow> \<not> Compare cmp (user_key xs l) (di_saved_key d) < 0"
      using IH(6) False by (auto simp: less_Suc_eq)
    then show ?thesis unfolding run using IH(1-5)
      by (intro exI [of _ smaller] exI [of _ j] exI [of _ Q] exI [of _ e2]) simp
  qed
qed

lemma di_prev:
  assumes "db_repr s d ys (Some m)" "envok e"
  shows "moved (db_repr s) envok ys (prev_pos m) (di_Prev db cmp ops d e)"
proof -
  obtain xs i where r: "ys = user_view cmp s xs" "di_good d s xs" "m = rank (shown cmp s xs) i" "di_at d s xs i"
    using assms(1) by (auto simp: db_repr_def)
  have i: "shown cmp s xs i" "i < length xs" using r(4) by (simp_all add: di_at_def shown_def)
  show ?thesis
  proof (cases "di_direction d = di_kForward")
    case False
    then obtain b where b: "b \<le> i" "repr (di_iter d) xs (prev_pos b)"
      "\<forall>l. b \<le> l \<and> l < i \<longrightarrow> \<not> visible s (xs ! l)"
      using r(4) by (auto simp: di_at_def)
    have dir: "di_direction d = di_kReverse" using False by (cases "di_direction d") auto
    have "rank (shown cmp s xs) i = rank (shown cmp s xs) b" using b by (intro rank_skip) (auto simp: shown_def)
    then show ?thesis
      using find_prev [OF r(2) dir b(2) assms(2)] b(1) i(2) dir r(1,3) by (simp add: di_Prev_def)
  next
    case True
    then have at: "repr (di_iter d) xs (Some i)" using r(4) by (simp add: di_at_def)
    then have k: "ExtractUserKey (io_key ops (di_iter d)) = user_key xs i"
      using inner.entry by (metis fst_conv user_key_of_def)
    let ?d = "d\<lparr>di_saved_key := user_key xs i\<rparr>"
    have good: "di_good ?d s xs" using r(2) by (simp add: di_good_update)
    obtain smaller j Q e1 where run: "before_key_loop cmp ops ?d e =
        Some (smaller, (if smaller then ?d\<lparr>di_iter := j\<rparr>
          else ClearSavedValue (?d\<lparr>di_iter := j, di_valid := False, di_saved_key := []\<rparr>)), e1)"
      "repr j xs (prev_pos Q)" "envok e1" "Q \<le> i" "\<not> smaller \<longrightarrow> Q = 0"
      "\<forall>l. Q \<le> l \<and> l < i \<longrightarrow> \<not> Compare cmp (user_key xs l) (user_key xs i) < 0"
      using before_key_loop_at [OF good _ assms(2), of i] at by auto
    have "\<not> shown cmp s xs l" if l: "Q \<le> l" "l < i" for l
    proof
      assume "shown cmp s xs l"
      then have "Compare cmp (user_key xs l) (user_key xs i) \<noteq> 0" using i(1) l(2) by (simp add: shown_def)
      then show False using run(6) l user_key_le [OF r(2) less_imp_le [OF l(2)] i(2)] by force
    qed
    then have rank: "rank (shown cmp s xs) i = rank (shown cmp s xs) Q" using run(4) by (intro rank_skip)
    show ?thesis
    proof (cases smaller)
      case True
      have "di_good (?d\<lparr>di_iter := j, di_direction := di_kReverse\<rparr>) s xs" using good by (simp add: di_good_update)
      from find_prev [OF this _ _ run(3), of Q] show ?thesis
        using run(1,2,4) True \<open>di_direction d = di_kForward\<close> i(2) r(1,3) rank k by (simp add: di_Prev_def)
    next
      case False
      then have "prev_pos m = None" using run(5) rank r(3) by (simp add: prev_pos_def)
      moreover have "db_repr s (ClearSavedValue (?d\<lparr>di_iter := j, di_valid := False, di_saved_key := []\<rparr>)) ys None"
        unfolding r(1) by (rule at_end_repr [of _ _ xs "prev_pos Q"])
          (use good run(2) in \<open>simp_all add: di_good_def ClearSavedValue_def\<close>)
      ultimately show ?thesis
        using run(1,3) False \<open>di_direction d = di_kForward\<close> k by (simp add: di_Prev_def moved_def)
    qed
  qed
qed

lemma di_observed:
  assumes "db_repr s d ys p"
  shows "p = Some m \<Longrightarrow> m < length ys \<and> (di_key ops d, di_value ops d) = ys ! m"
    "di_valid d \<longleftrightarrow> p \<noteq> None" "di_status ops d = status_OK" "envok e \<Longrightarrow> envok (io_Destroy ops (di_iter d) e)"
proof -
  show "di_valid d \<longleftrightarrow> p \<noteq> None" using assms by (cases p) (auto simp: db_repr_def di_at_def)
  obtain xs q where r: "ys = user_view cmp s xs" "di_good d s xs" "repr (di_iter d) xs q"
    using assms by (rule db_reprE)
  then show "di_status ops d = status_OK" using inner.status by (simp add: di_status_def di_good_def)
  show "envok e \<Longrightarrow> envok (io_Destroy ops (di_iter d) e)" using inner.destroy [OF r(3)] .
  assume "p = Some m"
  then obtain xs i where r: "ys = user_view cmp s xs" "m = rank (shown cmp s xs) i" "di_at d s xs i"
    using assms by (auto simp: db_repr_def)
  have i: "shown cmp s xs i" using r(3) by (simp add: di_at_def)
  have "(di_key ops d, di_value ops d) = (user_key xs i, snd (xs ! i))"
  proof (cases "di_direction d = di_kForward")
    case True
    then have "(io_key ops (di_iter d), io_value ops (di_iter d)) = xs ! i"
      using r(3) inner.entry by (simp add: di_at_def)
    then have "io_key ops (di_iter d) = fst (xs ! i)" "io_value ops (di_iter d) = snd (xs ! i)"
      by (metis fst_conv, metis snd_conv)
    then show ?thesis using True by (simp add: di_key_def di_value_def user_key_of_def)
  qed (use r(3) in \<open>simp add: di_at_def di_key_def di_value_def\<close>)
  then show "m < length ys \<and> (di_key ops d, di_value ops d) = ys ! m" using nth_user_view [OF i] r(1,2) by simp
qed

lemma NewDBIterator_repr:
  assumes "repr i xs q" "internal_entries valid cmp xs" "s \<le> kMaxSequenceNumber"
  shows "db_repr s (NewDBIterator i s seed) (user_view cmp s xs) None"
  using assms Random_Next_good [OF mk_Random_good]
  by (auto simp: db_repr_def di_good_def NewDBIterator_def mk_DBIter_def RandomPeriod_eq)

end

sublocale db_iter \<subseteq> di: iterator "db_iterator db cmp ops" "db_repr s" envok "\<lambda>k t. Compare cmp k t < 0" valid for s
proof (unfold_locales, goal_cases)
  case (2 d ys p)
  then show ?case using di_observed(2) by (simp add: db_iterator_def)
next
  case (8 d ys m e)
  then show ?case using di_next [of s d ys m e] by (simp add: db_iterator_def)
qed (simp_all add: db_iterator_def di_observed(1,3,4) di_first di_last di_seek di_prev)


context db_iter
begin

lemma new_walk:
  assumes "repr i xs q" "internal_entries valid cmp xs" "s \<le> kMaxSequenceNumber" "envok e"
    and "cursor_walk (\<lambda>k t. Compare cmp k t < 0) (user_view cmp s xs) moves None = Some obs"
    and "\<And>t. ToKey t \<in> set moves \<Longrightarrow> valid t"
  shows "\<exists>j e'. iterator_walk (db_iterator db cmp ops) moves (NewDBIterator i s seed) e = Some (obs, j, e') \<and>
    io_status (db_iterator db cmp ops) j = status_OK"
  using di.walk_cursor [OF NewDBIterator_repr [OF assms(1-3)] assms(4,5)] assms(6) di.status by blast

end

context internal_comparator
begin

lemma internal_order: "key_order (\<lambda>k. internal_valid valid k) (Compare (InternalKeyComparator cmp))"
  by (rule internal.key_order_axioms)

end

text \<open>Over the merged iterators of blocks.\<close>

definition keeps_samples :: "'e DBImpl \<Rightarrow> ('e \<Rightarrow> bool) \<Rightarrow> bool" where
  "keeps_samples db envok \<longleftrightarrow> (\<forall>k e. envok e \<longrightarrow> envok (RecordReadSample db k e))"

lemma merged_blocks_db_iter:
  assumes "comparator valid cmp"
  shows "db_iter cmp (merged_iterator (InternalKeyComparator cmp) (block_iterator (run_cleanup cache)))
    (merging.merged_repr (InternalKeyComparator cmp)
      (block_repr (\<lambda>k. internal_valid valid k) (InternalKeyComparator cmp)) (\<lambda>k. internal_valid valid k))
    (\<lambda>e. keeps_samples db (cache_ok cache coherent al) \<and> cache_ok cache coherent al e) valid db"
  unfolding db_iter_def db_iter_axioms_def
  using merge_blocks.merged.iterator_axioms internal_comparator.intro [OF assms]
  by (auto simp: keeps_samples_def)

interpretation db_bytewise: db_iter BytewiseComparator
  "merged_iterator (InternalKeyComparator BytewiseComparator) (block_iterator (run_cleanup cache))"
  "merging.merged_repr (InternalKeyComparator BytewiseComparator)
      (block_repr (\<lambda>k. internal_valid any k) (InternalKeyComparator BytewiseComparator)) (\<lambda>k. internal_valid any k)"
  "\<lambda>e. keeps_samples db (cache_ok cache coherent al) \<and> cache_ok cache coherent al e" any db
  for cache coherent al db
  by (rule merged_blocks_db_iter [OF bytewise.user.comparator_axioms])

subsection \<open>Property\<close>

text \<open>C24: reading a snapshot: the iterator over user keys, over the merged iterators of blocks that hold
  the internal entries of a database, shows a client that walks over it, in both directions and with
  seeks, exactly a cursor over the view of the snapshot's sequence number: for every user key its newest
  entry that is not newer than the snapshot, if that is a value. Every move returns, the sampling
  notwithstanding, and the status stays OK. The entries have keys that parse; the user's comparator, the
  cache and the database's sampling keep their contracts.\<close>

theorem db_iterator_shows_snapshot:
  assumes "comparator valid cmp" and "internal_entries valid cmp zs" and "s \<le> kMaxSequenceNumber"
    and "merges kvss zs" and "1 \<le> interval" and "\<forall>kvs \<in> set kvss. length (bk_data (block_with interval kvs)) < 2 ^ 32"
    and "cache_ok cache coherent al e" and "keeps_samples db (cache_ok cache coherent al)"
    and "cursor_walk (\<lambda>k t. Compare cmp k t < 0) (user_view cmp s zs) moves None = Some obs"
    and "\<forall>t. ToKey t \<in> set moves \<longrightarrow> valid t"
    and "internal = merged_iterator (InternalKeyComparator cmp) (block_iterator (run_cleanup cache))"
  shows "\<exists>j e'. iterator_walk (db_iterator db cmp internal) moves
      (NewDBIterator
        (NewMergingIterator (block_iterator (run_cleanup cache))
          (map (\<lambda>kvs. (NewIterator (InternalKeyComparator cmp) (block_with interval kvs), [])) kvss)) s seed) e =
      Some (obs, j, e') \<and>
    io_status (db_iterator db cmp internal) j = status_OK"
proof -
  have order: "key_order (\<lambda>k. internal_valid valid k) (Compare (InternalKeyComparator cmp))"
    by (rule internal_comparator.internal_order [OF internal_comparator.intro [OF assms(1)]])
  have zs: "in_order (\<lambda>k. internal_valid valid k) (InternalKeyComparator cmp) zs"
    using assms(2) by (simp add: internal_entries_def)
  note repr = merged_blocks_repr [where cache = cache, OF order zs assms(4-6)]
  show ?thesis
    unfolding assms(11) by (rule db_iter.new_walk [OF merged_blocks_db_iter [OF assms(1)] repr assms(2,3) _ assms(9)])
      (use assms(7,8,10) in simp_all)
qed

subsection \<open>Witness\<close>

lemma mk_InternalKey_parts:
  assumes "s' \<le> kMaxSequenceNumber" "t \<le> kTypeValue"
  shows "ParseInternalKey (mk_InternalKey u s' t) = Some \<lparr>pk_user_key = u, pk_sequence = s', pk_type = t\<rparr>"
    "visible s (mk_InternalKey u s' t, v) \<longleftrightarrow> s' \<le> s" "is_value (mk_InternalKey u s' t, v) \<longleftrightarrow> t = kTypeValue"
proof -
  show "ParseInternalKey (mk_InternalKey u s' t) = Some \<lparr>pk_user_key = u, pk_sequence = s', pk_type = t\<rparr>"
    using assms internal_key_roundtrip by blast
  then show "visible s (mk_InternalKey u s' t, v) \<longleftrightarrow> s' \<le> s" "is_value (mk_InternalKey u s' t, v) \<longleftrightarrow> t = kTypeValue"
    by (simp_all add: visible_def is_value_def)
qed

definition demo_entry :: "byte \<Rightarrow> SequenceNumber \<Rightarrow> ValueType \<Rightarrow> byte \<Rightarrow> slice \<times> slice" where
  "demo_entry u s t v = (mk_InternalKey [u] s t, [v])"

definition demo :: "entries list" where
  "demo = [[demo_entry 1 5 kTypeValue 11, demo_entry 2 4 kTypeDeletion 0, demo_entry 3 9 kTypeValue 31],
     [demo_entry 1 3 kTypeValue 12, demo_entry 2 2 kTypeValue 22, demo_entry 3 1 kTypeValue 32]]"

definition demo_merged :: entries where
  "demo_merged = [demo_entry 1 5 kTypeValue 11, demo_entry 1 3 kTypeValue 12, demo_entry 2 4 kTypeDeletion 0,
     demo_entry 2 2 kTypeValue 22, demo_entry 3 9 kTypeValue 31, demo_entry 3 1 kTypeValue 32]"

lemma demo_types: "kTypeDeletion \<le> kTypeValue" "kTypeDeletion \<noteq> kTypeValue" "kTypeDeletion < kTypeValue"
  by (simp_all add: kTypeDeletion_def kTypeValue_def)

lemma demo_parts:
  "s' \<le> kMaxSequenceNumber \<Longrightarrow> t \<le> kTypeValue \<Longrightarrow>
    (case demo_entry u s' t v of (k, v) \<Rightarrow> \<exists>y. ParseInternalKey k = Some y)"
  "s' \<le> kMaxSequenceNumber \<Longrightarrow> t \<le> kTypeValue \<Longrightarrow> visible s (demo_entry u s' t v) \<longleftrightarrow> s' \<le> s"
  "s' \<le> kMaxSequenceNumber \<Longrightarrow> t \<le> kTypeValue \<Longrightarrow> is_value (demo_entry u s' t v) \<longleftrightarrow> t = kTypeValue"
  "(case demo_entry u s' t v of (k, v) \<Rightarrow> internal_valid any k)"
  "user_key_of (demo_entry u s' t v) = [u]" "snd (demo_entry u s' t v) = [v]"
  "v \<noteq> v' \<Longrightarrow> demo_entry u s t v \<noteq> demo_entry u' s' t' v'"
  by (simp_all add: demo_entry_def mk_InternalKey_parts user_key_of_def)
    (simp_all add: mk_InternalKey_eq any_def)

lemma demo_order:
  assumes "s \<le> kMaxSequenceNumber" "s' \<le> kMaxSequenceNumber"
  shows "Compare (InternalKeyComparator BytewiseComparator) (fst (demo_entry u s t v)) (fst (demo_entry u' s' t' v')) < 0 \<longleftrightarrow>
    u < u' \<or> u = u' \<and> (s' < s \<or> s = s' \<and> t' < t)"
  using internal_Compare_mk [OF assms, of "[u]" t "[u']" t'] by (auto simp: demo_entry_def)

lemma demo_shown:
  "shown BytewiseComparator 6 demo_merged 0" "\<not> shown BytewiseComparator 6 demo_merged 1"
  "\<not> shown BytewiseComparator 6 demo_merged 2" "\<not> shown BytewiseComparator 6 demo_merged 3"
  "\<not> shown BytewiseComparator 6 demo_merged 4" "shown BytewiseComparator 6 demo_merged 5"
proof -
  note parts = shown_def demo_merged_def demo_parts demo_types unat_max_sequence Compare_bytewise
  show "shown BytewiseComparator 6 demo_merged 0" by (simp add: parts)
  show "\<not> shown BytewiseComparator 6 demo_merged 1" by (simp add: parts)
  show "\<not> shown BytewiseComparator 6 demo_merged 2" by (simp add: parts)
  show "\<not> shown BytewiseComparator 6 demo_merged 3" by (auto simp: parts intro!: exI [of _ 2])
  show "\<not> shown BytewiseComparator 6 demo_merged 4" by (simp add: parts)
  have "j = 0 \<or> j = 1 \<or> j = 2 \<or> j = 3 \<or> j = 4" if "j < 5" for j :: nat using that by linarith
  then show "shown BytewiseComparator 6 demo_merged 5" by (fastforce simp: parts)
qed

lemma demo_view: "user_view BytewiseComparator 6 demo_merged = [([1], [11]), ([3], [32])]"
proof -
  have "[0..<length demo_merged] = [0, 1, 2, 3, 4, 5]" by (simp add: demo_merged_def upt_rec)
  then have "filter (shown BytewiseComparator 6 demo_merged) [0..<length demo_merged] = [0, 5]"
    using demo_shown by simp
  then show ?thesis by (simp add: user_view_def) (simp add: demo_merged_def demo_parts)
qed

lemma demo_internal: "internal_entries any BytewiseComparator demo_merged"
  by (simp add: internal_entries_def demo_merged_def in_order_def ascending_def demo_order demo_parts demo_types unat_max_sequence)

lemma demo_merges: "merges demo demo_merged"
  by (auto simp: merges_def part_of_def demo_def demo_merged_def demo_parts less_Suc_eq)

lemma demo_small: "\<forall>kvs \<in> set demo. length (bk_data (block_with 16 kvs)) < 200"
  by (simp add: demo_def) code_simp

lemma db_iterator_shows_snapshot_witness:
  "\<exists>j e'. iterator_walk (db_iterator \<lparr>RecordReadSample = \<lambda>k n. n + 1\<rparr> BytewiseComparator
        (merged_iterator (InternalKeyComparator BytewiseComparator) (block_iterator (run_cleanup (None :: (unit, nat) Cache option)))))
      [ToLast, ToPrev, ToNext, ToKey [2], ToPrev, ToPrev]
      (NewDBIterator
        (NewMergingIterator (block_iterator (run_cleanup (None :: (unit, nat) Cache option)))
          (map (\<lambda>kvs. (NewIterator (InternalKeyComparator BytewiseComparator) (block_with 16 kvs), [])) demo)) 6 301) (0 :: nat) =
      Some ([Some ([3], [32]), Some ([1], [11]), Some ([3], [32]), Some ([3], [32]), Some ([1], [11]), None], j, e')"
proof -
  have small: "\<forall>kvs \<in> set demo. length (bk_data (block_with 16 kvs)) < 2 ^ 32"
    using demo_small by (auto intro: less_trans [of _ 200])
  have walk: "cursor_walk (\<lambda>k t. Compare BytewiseComparator k t < 0) (user_view BytewiseComparator 6 demo_merged)
      [ToLast, ToPrev, ToNext, ToKey [2], ToPrev, ToPrev] None =
    Some [Some ([3], [32]), Some ([1], [11]), Some ([3], [32]), Some ([3], [32]), Some ([1], [11]), None]"
    by (simp add: demo_view pos_of_def last_pos_def prev_pos_def seek_pos_def Compare_bytewise)
  have cache: "cache_ok (None :: (unit, nat) Cache option) (\<lambda>_ _. True) (\<lambda>_ _. True) 0"
    "keeps_samples \<lparr>RecordReadSample = \<lambda>k n. n + 1\<rparr> (cache_ok (None :: (unit, nat) Cache option) (\<lambda>_ _. True) (\<lambda>_ _. True))"
    by (simp_all add: cache_ok_def keeps_samples_def)
  have "(6 :: SequenceNumber) \<le> kMaxSequenceNumber" "(1 :: int) \<le> 16"
    "\<forall>t. ToKey t \<in> set [ToLast, ToPrev, ToNext, ToKey [2], ToPrev, ToPrev] \<longrightarrow> any t"
    by (simp_all add: unat_max_sequence any_def)
  from db_iterator_shows_snapshot [OF bytewise.user.comparator_axioms demo_internal this(1) demo_merges this(2) small cache walk this(3) refl]
  show ?thesis by blast
qed

end
