(* ===== verification/Spec2Isabelle.thy ===== *)
theory Spec2Isabelle
  imports Pb_Wire_Correct Pb_Encode_Correct Pb_Decode_Correct FBase64_Correct
    Ldb_Log_Correct Ldb_Status_Correct Ldb_Filter_Correct Ldb_Filename_Correct
    Ldb_Write_Batch_Correct Ldb_Block_Correct Ldb_Version_Edit_Correct Ldb_Table_Correct
    Ldb_Merger_Correct Ldb_Db_Iter_Correct
begin

text \<open>
  The repository is a React Native application. Its own code is JavaScript and a little glue; its C
  and C++ code is in the libraries under \<^verbatim>\<open>src/ios/Pods\<close>, and of these the ones that carry logic of
  their own are modelled here: nanopb, the Base64 codec of the web socket, and LevelDB. Paths below are
  relative to \<^verbatim>\<open>src/ios/Pods\<close>. Every definition is translated from the code; files, environments,
  allocators and user callbacks are parameters, records of the operations the code calls.

  \<^bold>\<open>nanopb\<close> (\<^verbatim>\<open>nanopb/\<close>) encodes and decodes protocol buffers against field descriptors in a flat
  memory. \<^verbatim>\<open>Pb_Types\<close> has the descriptors, streams and memory (\<^verbatim>\<open>pb.h\<close>); \<^verbatim>\<open>Pb_Iter\<close> the field iterator
  (\<^verbatim>\<open>pb_common.c\<close>); \<^verbatim>\<open>Pb_Ostream\<close> and \<^verbatim>\<open>Pb_Encode\<close> the writers and the message encoder (\<^verbatim>\<open>pb_encode.c\<close>);
  \<^verbatim>\<open>Pb_Istream\<close>, \<^verbatim>\<open>Pb_Decode_Field\<close> and \<^verbatim>\<open>Pb_Decode\<close> the readers, the field decoders and the message decoder
  with its release functions (\<^verbatim>\<open>pb_decode.c\<close>). A message may nest and extensions may chain; the mutually
  recursive coders therefore take fuel, the depth of nesting, and return \<^const>\<open>None\<close> without enough of it.
  \<^verbatim>\<open>Pb_Encode_Total\<close> and \<^verbatim>\<open>Pb_Decode_Total\<close> show how much is enough: more than the rank of the descriptors
  for encoding, and one more than the nesting for decoding. \<^verbatim>\<open>Wire_Spec\<close> states the wire format
  independently of the code, \<^verbatim>\<open>Byte_Sink\<close> and \<^verbatim>\<open>Prefix_Codec\<close> the contracts of writers and of
  self-delimiting codes as locales, which the streams and all the integer, slice and entry coders
  below interpret. \<^verbatim>\<open>Pb_Encode_Spec\<close>, \<^verbatim>\<open>Pb_Encode_Refine\<close> and \<^verbatim>\<open>Pb_Encode_Correct\<close> give the encoder's
  abstract specification, the bytes a message stands for, and show that the code writes exactly them or
  stops at the end of the buffer. \<^verbatim>\<open>Pb_Decode_Within\<close> and \<^verbatim>\<open>Pb_Decode_Correct\<close> show that decoding reads
  only the bytes it was given, whatever they are, and ends.

  \<^bold>\<open>Base64\<close> (\<^verbatim>\<open>FirebaseDatabase/Firebase/Database/third_party/SocketRocket/fbase64.c\<close>): \<^verbatim>\<open>FBase64\<close> has both
  directions with their target buffers in a memory, \<^verbatim>\<open>FBase64_Correct\<close> their equivalence with the
  arithmetic of RFC 4648, the round trip and the bounds.

  \<^bold>\<open>LevelDB\<close> (\<^verbatim>\<open>leveldb-library/\<close>) is modelled from the bottom up. \<^verbatim>\<open>Ldb_Coding\<close> (\<^verbatim>\<open>util/coding.cc\<close>, slices),
  \<^verbatim>\<open>Ldb_Status\<close> (\<^verbatim>\<open>util/status.cc\<close>), \<^verbatim>\<open>Ldb_Crc32c\<close> (\<^verbatim>\<open>util/crc32c.cc\<close>), \<^verbatim>\<open>Ldb_Log\<close> (\<^verbatim>\<open>db/log_writer.cc\<close>,
  \<^verbatim>\<open>db/log_reader.cc\<close>), \<^verbatim>\<open>Ldb_Filter\<close> (\<^verbatim>\<open>util/hash.cc\<close>, \<^verbatim>\<open>util/bloom.cc\<close>, \<^verbatim>\<open>table/filter_block.cc\<close>),
  \<^verbatim>\<open>Ldb_Dbformat\<close> (\<^verbatim>\<open>util/comparator.cc\<close>, \<^verbatim>\<open>db/dbformat.cc\<close>, \<^verbatim>\<open>util/logging.cc\<close>), \<^verbatim>\<open>Ldb_Filename\<close>
  (\<^verbatim>\<open>db/filename.cc\<close>, \<^verbatim>\<open>util/env.cc\<close>), \<^verbatim>\<open>Ldb_Skiplist\<close> (\<^verbatim>\<open>db/skiplist.h\<close>, \<^verbatim>\<open>util/random.h\<close>), \<^verbatim>\<open>Ldb_Memtable\<close>
  (\<^verbatim>\<open>db/memtable.cc\<close>), \<^verbatim>\<open>Ldb_Write_Batch\<close> (\<^verbatim>\<open>db/write_batch.cc\<close>), \<^verbatim>\<open>Ldb_Block\<close> (\<^verbatim>\<open>table/block_builder.cc\<close>,
  \<^verbatim>\<open>table/block.cc\<close>) and \<^verbatim>\<open>Ldb_Version_Edit\<close> (\<^verbatim>\<open>db/version_edit.cc\<close>). Each has a theory with its lemmas and
  properties, named after it with \<^verbatim>\<open>_Correct\<close>. The log is read back record by record, also after a
  crash in the middle of a write; the checksum routines compute the CRC of its polynomial; filters
  have no false negatives; the comparators are total orders whose separators lie between their
  arguments (the locales \<^verbatim>\<open>key_order\<close>, \<^verbatim>\<open>comparator\<close>, \<^verbatim>\<open>internal_comparator\<close>, interpreted by the byte-wise
  and the internal comparator); the skip list stays sorted and finds what was inserted; a batch applied to a
  memory table makes exactly its operations visible; blocks are iterated in both directions and
  sought; edits survive encoding.

  \<^bold>\<open>Tables\<close> put the parts together. \<^verbatim>\<open>Ldb_Iterator\<close> has the interface of iterators
  (\<^verbatim>\<open>include/leveldb/iterator.h\<close>, \<^verbatim>\<open>table/iterator.cc\<close>), the caching wrapper and the two-level iterator
  (\<^verbatim>\<open>table/two_level_iterator.cc\<close>), whose loops are partial functions; \<^verbatim>\<open>Ldb_Format\<close> the options, handles, the
  footer and \<^verbatim>\<open>ReadBlock\<close> (\<^verbatim>\<open>table/format.cc\<close>); \<^verbatim>\<open>Ldb_Table_Builder\<close> and \<^verbatim>\<open>Ldb_Table\<close> the two sides of the file
  (\<^verbatim>\<open>table/table_builder.cc\<close>, \<^verbatim>\<open>table/table.cc\<close>). The block cache and the files are records of the operations
  called. \<^verbatim>\<open>Ldb_Iterator_Correct\<close> states the contract of an iterator, the locale \<^verbatim>\<open>iterator\<close>, and shows in the
  locale \<^verbatim>\<open>two_level\<close> that the two-level iterator keeps it over any index and data iterators that do,
  whatever opens the blocks: its loops end, and it stands for the concatenation of the blocks.
  \<^verbatim>\<open>Ldb_Block_Iterator\<close> interprets the first by the iterators of blocks, \<^verbatim>\<open>Ldb_Table_Read\<close> the second by those
  and the table's \<^verbatim>\<open>BlockReader\<close>. \<^verbatim>\<open>Ldb_Table_Builder_Correct\<close> has the invariant of the builder: the blocks in
  the file, the index entries that separate them, the filters' keys and the entries of the block at hand;
  \<^verbatim>\<open>Ldb_Table_Correct\<close> the properties: what was added to a table is what its iterator gives in both
  directions, from a sought key on, and on lookup, with or without a cache and with any filter policy
  without false negatives. \<^verbatim>\<open>Ldb_Merger\<close> (\<^verbatim>\<open>table/merger.cc\<close>) merges iterators; \<^verbatim>\<open>Ldb_Merger_Correct\<close> shows in
  the locale \<^verbatim>\<open>merging\<close> that a merge of iterators that keep the contract keeps it, and that a client that
  walks over it sees a cursor over the merged list. On top, \<^verbatim>\<open>Ldb_Db_Iter\<close> (\<^verbatim>\<open>db/db_iter.cc\<close>) is the iterator
  over user keys that applications see. \<^verbatim>\<open>Ldb_User_View\<close> defines the view of a snapshot, for every user key
  its newest entry that the snapshot sees, if it is a value, and \<^verbatim>\<open>Ldb_Db_Iter_Correct\<close> shows, in the locale
  \<^verbatim>\<open>db_iter\<close>, that the iterator stands for it over any internal iterator that keeps the contract: blocks,
  merged and filtered, give exactly the view. \<^verbatim>\<open>Ldb_Random_Correct\<close> shows that its loop of samples ends.

  \<^bold>\<open>Bounds.\<close> Machine integers keep their width as words where the code computes with them: lengths and
  sizes that the code keeps in \<^verbatim>\<open>size_t\<close> are natural numbers where the code cannot wrap them, and words
  where it can, which some of the findings rest on. Hypotheses such as a block of less than 4 GB are the
  documented limits of the formats. Loops that do not obviously end are functions with a measure, or
  partial functions to an option for which returning is proved.

  \<^bold>\<open>Assertions\<close> are the obligations of callers: a definition is total where an \<^verbatim>\<open>assert\<close> of the code would
  fail, such as adding a key out of order, or a file name for the number 0, and theorems may cover such
  arguments too. The one that data from a file can make fail, in \<^verbatim>\<open>InternalKey::Encode\<close>, is modelled.

  \<^bold>\<open>Not modelled.\<close> Objective-C, Java and JavaScript code: the language of the development is C. In nanopb, the macros that
  generated headers use; generated descriptors are values of the record. In LevelDB, the database
  proper (\<^verbatim>\<open>db/db_impl.cc\<close>), its version sets, the table cache, the operating
  system's files and threads (\<^verbatim>\<open>util/env_posix.cc\<close>, \<^verbatim>\<open>port/\<close>), the C interface, tools and tests; the memory
  ordering that lets readers run beside the skip list's writer, and who owns which piece of memory. Snappy
  is not part of the build, and its port functions fail.
\<close>

end
